(* ===== verification/Prelude.thy ===== *)
theory Prelude
  imports Main "HOL-Library.Word"
begin

unbundle bit_operations_syntax

text \<open>
  What the component theories share: the machine types of the C sources (types.h), byte
  addressed memory with little-endian access to 32-bit words (the x86 convention the code
  relies on when it casts a page to an array of page table entries or to a list cell), and the
  ranges that memset and memmove write.  The collections at the top gather the simplification
  rules of the memory and of the address arithmetic.
\<close>

named_theorems mem_simps \<open>reads after writes in byte memory\<close>
named_theorems addr_simps \<open>page and block address arithmetic\<close>

type_synonym byte = "8 word"
type_synonym ushort = "16 word"
type_synonym uint = "32 word"
type_synonym ptr = "32 word"
type_synonym mem = "ptr \<Rightarrow> byte"

section \<open>Little-endian words in memory\<close>

definition load32 :: "mem \<Rightarrow> ptr \<Rightarrow> uint" where
  "load32 m a = ucast (m a) OR push_bit 8 (ucast (m (a + 1)))
     OR push_bit 16 (ucast (m (a + 2))) OR push_bit 24 (ucast (m (a + 3)))"

definition store32 :: "mem \<Rightarrow> ptr \<Rightarrow> uint \<Rightarrow> mem" where
  "store32 m a v = m(a := ucast v, a + 1 := ucast (drop_bit 8 v),
     a + 2 := ucast (drop_bit 16 v), a + 3 := ucast (drop_bit 24 v))"

lemma le_bytes_join:
  "(ucast (ucast v :: byte) :: uint) OR push_bit 8 (ucast (ucast (drop_bit 8 v) :: byte))
     OR push_bit 16 (ucast (ucast (drop_bit 16 v) :: byte))
     OR push_bit 24 (ucast (ucast (drop_bit 24 v) :: byte)) = v" for v :: uint
proof (rule bit_word_eqI)
  fix n assume n: "n < LENGTH(32)"
  consider "n < 8" | "8 \<le> n" "n < 16" | "16 \<le> n" "n < 24" | "24 \<le> n" "n < 32"
    using n by fastforce
  then show "bit ((ucast (ucast v :: byte) :: uint) OR push_bit 8 (ucast (ucast (drop_bit 8 v) :: byte))
     OR push_bit 16 (ucast (ucast (drop_bit 16 v) :: byte))
     OR push_bit 24 (ucast (ucast (drop_bit 24 v) :: byte))) n = bit v n"
    by cases (auto simp: bit_simps)
qed

lemma load32_store32_same [simp, mem_simps]: "load32 (store32 m a v) a = v"
  by (simp add: load32_def store32_def le_bytes_join)

definition aligned4 :: "ptr \<Rightarrow> bool" where
  "aligned4 a \<longleftrightarrow> unat a mod 4 = 0"

lemma unat_add_aligned4:
  assumes "aligned4 a" "unat i < 4"
  shows "unat (a + i) = unat a + unat i"
proof -
  have "unat a < 4294967296" using unsigned_less [of a, where ?'a = nat] by simp
  then have "unat a + unat i < 4294967296"
    using assms unfolding aligned4_def by presburger
  then show ?thesis by (simp add: unat_word_ariths)
qed

lemma aligned4_add_inj:
  assumes "aligned4 a" "aligned4 b" "unat i < 4" "unat j < 4" "a + i = b + j"
  shows "a = b"
proof -
  have "unat a + unat i = unat b + unat j"
    using assms unat_add_aligned4 by metis
  then have "unat a = unat b" using assms(1-4) unfolding aligned4_def by presburger
  then show ?thesis by (rule unsigned_word_eqI)
qed

lemma load32_store32_other [mem_simps]:
  assumes "aligned4 a" "aligned4 b" "a \<noteq> b"
  shows "load32 (store32 m a v) b = load32 m b"
proof -
  have d: "b + i \<noteq> a + j" if "unat i < 4" "unat j < 4" for i j
    using aligned4_add_inj [OF assms(2,1) that] assms(3) by blast
  have n: "unat (0 :: ptr) < 4" "unat (1 :: ptr) < 4" "unat (2 :: ptr) < 4" "unat (3 :: ptr) < 4"
    by simp_all
  have "store32 m a v (b + i) = m (b + i)" if "unat i < 4" for i
    using d [OF that n(1)] d [OF that n(2)] d [OF that n(3)] d [OF that n(4)]
    by (simp add: store32_def)
  from this [OF n(1)] this [OF n(2)] this [OF n(3)] this [OF n(4)]
  show ?thesis by (simp add: load32_def)
qed

lemma store32_frame:
  assumes "\<not> x - a < 4"
  shows "store32 m a v x = m x"
proof -
  have "x \<noteq> a + i" if "i < 4" for i using assms that by auto
  from this [of 0] this [of 1] this [of 2] this [of 3]
  show ?thesis by (simp add: store32_def)
qed

section \<open>Ranges of memory\<close>

text \<open>The range of \<open>n\<close> bytes from \<open>a\<close> holds the addresses whose offset from \<open>a\<close> is below \<open>n\<close>.\<close>

definition in_range :: "ptr \<Rightarrow> uint \<Rightarrow> ptr \<Rightarrow> bool" where
  "in_range a n x \<longleftrightarrow> x - a < n"

definition set_range :: "mem \<Rightarrow> ptr \<Rightarrow> uint \<Rightarrow> byte \<Rightarrow> mem" where
  "set_range m a n c = (\<lambda>x. if in_range a n x then c else m x)"

definition copy_range :: "mem \<Rightarrow> ptr \<Rightarrow> ptr \<Rightarrow> uint \<Rightarrow> mem" where
  "copy_range m d s n = (\<lambda>x. if in_range d n x then m (s + (x - d)) else m x)"

definition mem_list :: "mem \<Rightarrow> ptr \<Rightarrow> nat \<Rightarrow> byte list" where
  "mem_list m a n = map (\<lambda>i. m (a + of_nat i)) [0..<n]"

definition write_list :: "mem \<Rightarrow> ptr \<Rightarrow> byte list \<Rightarrow> mem" where
  "write_list m a bs = (\<lambda>x. if unat (x - a) < length bs then bs ! unat (x - a) else m x)"

lemma length_mem_list [simp]: "length (mem_list m a n) = n"
  by (simp add: mem_list_def)

lemma mem_list_write_list [mem_simps]:
  assumes "length bs \<le> 2 ^ 32"
  shows "mem_list (write_list m a bs) a (length bs) = bs"
proof (rule nth_equalityI)
  fix i assume "i < length (mem_list (write_list m a bs) a (length bs))"
  then have i: "i < length bs" by simp
  then have "unat (word_of_nat i :: ptr) = i" using assms by (simp add: unat_of_nat)
  with i show "mem_list (write_list m a bs) a (length bs) ! i = bs ! i"
    by (simp add: mem_list_def write_list_def)
qed simp

lemma write_list_Nil [simp]: "write_list m a [] = m"
  by (simp add: write_list_def)

section \<open>Words in byte arrays\<close>

definition get16 :: "byte list \<Rightarrow> nat \<Rightarrow> ushort" where
  "get16 bs i = ucast (bs ! i) OR push_bit 8 (ucast (bs ! (i + 1)))"

definition put16 :: "byte list \<Rightarrow> nat \<Rightarrow> ushort \<Rightarrow> byte list" where
  "put16 bs i v = bs[i := ucast v, i + 1 := ucast (drop_bit 8 v)]"

definition get32 :: "byte list \<Rightarrow> nat \<Rightarrow> uint" where
  "get32 bs i = ucast (bs ! i) OR push_bit 8 (ucast (bs ! (i + 1)))
     OR push_bit 16 (ucast (bs ! (i + 2))) OR push_bit 24 (ucast (bs ! (i + 3)))"

definition put32 :: "byte list \<Rightarrow> nat \<Rightarrow> uint \<Rightarrow> byte list" where
  "put32 bs i v = bs[i := ucast v, i + 1 := ucast (drop_bit 8 v),
     i + 2 := ucast (drop_bit 16 v), i + 3 := ucast (drop_bit 24 v)]"

lemma length_put [simp]: "length (put16 bs i v) = length bs" "length (put32 bs i w) = length bs"
  by (simp_all add: put16_def put32_def)

lemma get16_put16 [simp, mem_simps]: "i + 1 < length bs \<Longrightarrow> get16 (put16 bs i v) i = v"
  unfolding get16_def put16_def
  by (intro bit_word_eqI) (auto simp: bit_simps nth_list_update)

lemma get32_put32 [simp, mem_simps]: "i + 3 < length bs \<Longrightarrow> get32 (put32 bs i v) i = v"
  using le_bytes_join [of v] by (simp add: get32_def put32_def)

lemma get_put_other [mem_simps]:
  "j + 2 \<le> i \<or> i + 2 \<le> j \<Longrightarrow> get16 (put16 bs i v) j = get16 bs j"
  "j + 2 \<le> i \<or> i + 4 \<le> j \<Longrightarrow> get16 (put32 bs i w) j = get16 bs j"
  "j + 4 \<le> i \<or> i + 2 \<le> j \<Longrightarrow> get32 (put16 bs i v) j = get32 bs j"
  "j + 4 \<le> i \<or> i + 4 \<le> j \<Longrightarrow> get32 (put32 bs i w) j = get32 bs j"
  by (auto simp: get16_def put16_def get32_def put32_def)

section \<open>The first index\<close>

lemma find_upt_Some: "find P [0..<n] = Some k \<longleftrightarrow> k < n \<and> P k \<and> (\<forall>j < k. \<not> P j)"
proof
  assume "find P [0..<n] = Some k"
  then obtain i where "i < n" "P k" "k = [0..<n] ! i" "\<forall>j < i. \<not> P ([0..<n] ! j)"
    unfolding find_Some_iff by auto
  then show "k < n \<and> P k \<and> (\<forall>j < k. \<not> P j)" by auto
next
  assume "k < n \<and> P k \<and> (\<forall>j < k. \<not> P j)"
  then show "find P [0..<n] = Some k" unfolding find_Some_iff by (intro exI [of _ k]) auto
qed

lemma find_upt_None: "find P [0..<n] = None \<longleftrightarrow> (\<forall>k < n. \<not> P k)"
  by (auto simp: find_None_iff)

lemma card_remove_le: "card A \<le> Suc (card (A - {x}))"
  by (cases "finite A") (auto simp: card_Diff_singleton_if)

end
