(* ===== verification/CString.thy ===== *)
theory CString
  imports Prelude
begin

text \<open>
  The kernel's string and memory routines (string.c).  Routines that write memory (memset,
  memmove) work on the byte memory of the prelude, pointers being 32-bit words that wrap.
  Routines that only read a string take the string as the sequence of bytes seen from the
  pointer, \<open>p i\<close> being \<^verbatim>\<open>p[i]\<close>; routines that fill a fixed array (strncpy, safestrcpy) take
  the array as a byte list and return it updated.
\<close>

type_synonym cstr = "nat \<Rightarrow> byte"

definition cstr_at :: "mem \<Rightarrow> ptr \<Rightarrow> cstr" where
  "cstr_at m a = (\<lambda>i. m (a + of_nat i))"

text \<open>A byte array seen as a C string; the bytes after the array read as NUL.\<close>

definition cstr_of :: "byte list \<Rightarrow> cstr" where
  "cstr_of bs = (\<lambda>i. if i < length bs then bs ! i else 0)"

section \<open>memset\<close>

fun stosb :: "mem \<Rightarrow> ptr \<Rightarrow> byte \<Rightarrow> nat \<Rightarrow> mem" where
  "stosb m a c 0 = m"
| "stosb m a c (Suc n) = stosb (m(a := c)) (a + 1) c n"

fun stosl :: "mem \<Rightarrow> ptr \<Rightarrow> uint \<Rightarrow> nat \<Rightarrow> mem" where
  "stosl m a v 0 = m"
| "stosl m a v (Suc n) = stosl (store32 m a v) (a + 4) v n"

definition memset :: "mem \<Rightarrow> ptr \<Rightarrow> uint \<Rightarrow> uint \<Rightarrow> mem" where
  "memset m dst c n =
     (if dst mod 4 = 0 \<and> n mod 4 = 0
      then let c' = c AND 0xFF
           in stosl m dst (push_bit 24 c' OR push_bit 16 c' OR push_bit 8 c' OR c') (unat (n div 4))
      else stosb m dst (ucast c) (unat n))"

section \<open>memmove, memcpy, memcmp\<close>

fun copy_up :: "mem \<Rightarrow> ptr \<Rightarrow> ptr \<Rightarrow> nat \<Rightarrow> mem" where
  "copy_up m d s 0 = m"
| "copy_up m d s (Suc n) = copy_up (m(d := m s)) (d + 1) (s + 1) n"

fun copy_down :: "mem \<Rightarrow> ptr \<Rightarrow> ptr \<Rightarrow> nat \<Rightarrow> mem" where
  "copy_down m d s 0 = m"
| "copy_down m d s (Suc n) = copy_down (m(d - 1 := m (s - 1))) (d - 1) (s - 1) n"

definition memmove :: "mem \<Rightarrow> ptr \<Rightarrow> ptr \<Rightarrow> uint \<Rightarrow> mem" where
  "memmove m dst src n =
     (if src < dst \<and> src + n > dst
      then copy_down m (dst + n) (src + n) (unat n)
      else copy_up m dst src (unat n))"

definition memcpy :: "mem \<Rightarrow> ptr \<Rightarrow> ptr \<Rightarrow> uint \<Rightarrow> mem" where
  "memcpy m dst src n = memmove m dst src n"

fun memcmp :: "cstr \<Rightarrow> cstr \<Rightarrow> nat \<Rightarrow> int" where
  "memcmp s1 s2 0 = 0"
| "memcmp s1 s2 (Suc n) =
     (if s1 0 \<noteq> s2 0 then uint (s1 0) - uint (s2 0)
      else memcmp (\<lambda>i. s1 (Suc i)) (\<lambda>i. s2 (Suc i)) n)"

section \<open>strncmp, strncpy, safestrcpy, strlen\<close>

fun strncmp :: "cstr \<Rightarrow> cstr \<Rightarrow> nat \<Rightarrow> int" where
  "strncmp p q 0 = 0"
| "strncmp p q (Suc n) =
     (if p 0 \<noteq> 0 \<and> p 0 = q 0 then strncmp (\<lambda>i. p (Suc i)) (\<lambda>i. q (Suc i)) n
      else uint (p 0) - uint (q 0))"

text \<open>The second loop of strncpy: pad with \<open>n\<close> NUL bytes from index \<open>i\<close>.\<close>

fun strncpy_pad :: "byte list \<Rightarrow> nat \<Rightarrow> nat \<Rightarrow> byte list" where
  "strncpy_pad s i 0 = s"
| "strncpy_pad s i (Suc n) = strncpy_pad (s[i := 0]) (Suc i) n"

text \<open>The first loop: copy up to and including the first NUL, then pad.\<close>

fun strncpy_loop :: "byte list \<Rightarrow> cstr \<Rightarrow> nat \<Rightarrow> nat \<Rightarrow> byte list" where
  "strncpy_loop s t i 0 = s"
| "strncpy_loop s t i (Suc n) =
     (let s' = s[i := t i]
      in if t i \<noteq> 0 then strncpy_loop s' t (Suc i) n else strncpy_pad s' (Suc i) n)"

definition strncpy :: "byte list \<Rightarrow> cstr \<Rightarrow> nat \<Rightarrow> byte list" where
  "strncpy s t n = strncpy_loop s t 0 n"

text \<open>The loop of safestrcpy, entered with \<open>n\<close> bytes of room left besides the final NUL.\<close>

fun safestrcpy_loop :: "byte list \<Rightarrow> cstr \<Rightarrow> nat \<Rightarrow> nat \<Rightarrow> byte list" where
  "safestrcpy_loop s t i 0 = s[i := 0]"
| "safestrcpy_loop s t i (Suc n) =
     (let s' = s[i := t i]
      in if t i \<noteq> 0 then safestrcpy_loop s' t (Suc i) n else s'[Suc i := 0])"

definition safestrcpy :: "byte list \<Rightarrow> cstr \<Rightarrow> int \<Rightarrow> byte list" where
  "safestrcpy s t n = (if n \<le> 0 then s else safestrcpy_loop s t 0 (nat (n - 1)))"

partial_function (option) strlen_from :: "cstr \<Rightarrow> nat \<Rightarrow> nat option" where
  "strlen_from s n = (if s n \<noteq> 0 then strlen_from s (Suc n) else Some n)"

definition strlen :: "cstr \<Rightarrow> nat option" where
  "strlen s = strlen_from s 0"

section \<open>memset writes exactly its range\<close>

lemma offset_less_Suc:
  fixes x a :: ptr
  shows "unat (x - a) < Suc n \<longleftrightarrow> x = a \<or> unat (x - (a + 1)) < n"
proof (cases "x = a")
  case False
  then have nz: "x - a \<noteq> 0" by simp
  then have "unat (x - a - 1) = unat (x - a) - 1" by (rule unat_minus_one)
  moreover have e: "x - (a + 1) = x - a - 1" by simp
  moreover have "unat (x - a) \<noteq> 0" using nz by (simp add: unat_eq_0)
  ultimately show ?thesis using False unfolding e by linarith
qed simp

lemma stosb_range:
  "n < 2 ^ 32 \<Longrightarrow> stosb m a c n x = (if unat (x - a) < n then c else m x)"
proof (induction n arbitrary: m a)
  case (Suc n)
  then show ?case using offset_less_Suc [of x a n] by (auto simp del: of_nat_Suc)
qed simp

lemma store32_rep:
  assumes c': "c' = c AND 0xFF"
  shows "store32 m a (push_bit 24 c' OR push_bit 16 c' OR push_bit 8 c' OR c')
    = stosb m a (ucast c) 4"
proof -
  have b: "bit c' n \<longleftrightarrow> n < 8 \<and> bit c n" for n
  proof -
    have "c' = take_bit 8 c" unfolding c' by (simp add: take_bit_eq_mask mask_eq_exp_minus_1)
    then show ?thesis by (simp add: bit_take_bit_iff)
  qed
  let ?v = "push_bit 24 c' OR push_bit 16 c' OR push_bit 8 c' OR c'"
  have "(ucast ?v :: byte) = ucast c" "(ucast (drop_bit 8 ?v) :: byte) = ucast c"
    "(ucast (drop_bit 16 ?v) :: byte) = ucast c" "(ucast (drop_bit 24 ?v) :: byte) = ucast c"
    by (rule bit_word_eqI, auto simp: bit_simps b)+
  then show ?thesis by (simp add: store32_def eval_nat_numeral add.assoc)
qed

lemma stosb_add: "stosb m a c (k + n) = stosb (stosb m a c k) (a + of_nat k) c n"
proof (induction k arbitrary: m a)
  case (Suc k)
  then show ?case by (simp only: add_Suc stosb.simps of_nat_Suc add.assoc)
qed simp

lemma stosl_stosb:
  assumes "c' = c AND 0xFF"
  shows "stosl m a (push_bit 24 c' OR push_bit 16 c' OR push_bit 8 c' OR c') n
    = stosb m a (ucast c) (4 * n)"
proof (induction n arbitrary: m a)
  case (Suc n)
  have "stosb m a (ucast c) (4 * Suc n) = stosb (stosb m a (ucast c) 4) (a + 4) (ucast c) (4 * n)"
    using stosb_add [of m a "ucast c" 4 "4 * n"] by simp
  then show ?case using Suc by (simp add: store32_rep [OF assms])
qed simp

lemma memset_eq_set_range: "memset m dst c n = set_range m dst n (ucast c)"
proof
  fix x
  have "stosb m dst (ucast c) (unat n) x = set_range m dst n (ucast c) x"
    using unsigned_less [of n, where ?'a = nat]
    by (simp add: stosb_range set_range_def in_range_def word_less_nat_alt)
  moreover have "4 * unat (n div 4) = unat n" if "n mod 4 = 0"
  proof -
    have "unat n mod 4 = unat (n mod 4)" by (simp add: unat_mod)
    with that have "unat n mod 4 = 0" by simp
    then have "4 * (unat n div 4) = unat n" by presburger
    then show ?thesis by (simp add: unat_div)
  qed
  ultimately show "memset m dst c n x = set_range m dst n (ucast c) x"
    unfolding memset_def Let_def stosl_stosb [OF refl] by simp
qed
section \<open>memmove copies exactly its range, overlapping or not\<close>

text \<open>
  Copying upwards is right when no byte still to be read has been written: the destination
  does not meet the unread part of the source.  Copying downwards is the mirror image.
\<close>

lemma copy_up_range:
  assumes "n < 2 ^ 32" "\<And>i j. i < j \<Longrightarrow> j < n \<Longrightarrow> d + of_nat i \<noteq> s + of_nat j"
  shows "copy_up m d s n x = (if unat (x - d) < n then m (s + (x - d)) else m x)"
  using assms
proof (induction n arbitrary: m d s)
  case (Suc n)
  have fresh: "d \<noteq> s + of_nat (Suc j)" if "j < n" for j
    using Suc.prems(2) [of 0 "Suc j"] that by simp
  have "copy_up (m(d := m s)) (d + 1) (s + 1) n x
      = (if unat (x - (d + 1)) < n then (m(d := m s)) (s + 1 + (x - (d + 1))) else (m(d := m s)) x)"
  proof (rule Suc.IH)
    show "d + 1 + of_nat i \<noteq> s + 1 + of_nat j" if "i < j" "j < n" for i j
      using Suc.prems(2) [of "Suc i" "Suc j"] that by (simp add: add.assoc)
  qed (use Suc.prems(1) in simp)
  moreover have "s + 1 + (x - (d + 1)) \<noteq> d" if "unat (x - (d + 1)) < n"
    using fresh [OF that] by (simp add: algebra_simps)
  moreover have "\<not> unat (x - (d + 1)) < n" if "x = d"
  proof -
    have "unat (- 1 :: ptr) = 2 ^ 32 - 1" by (simp add: unsigned_minus_1_eq_mask mask_eq_exp_minus_1)
    then show ?thesis using that Suc.prems(1) by simp
  qed
  ultimately show ?case using offset_less_Suc [of x d n]
    by (auto simp: algebra_simps)
qed simp

lemma copy_down_range:
  assumes "n < 2 ^ 32" "\<And>i j. i < j \<Longrightarrow> j < n \<Longrightarrow> d + of_nat j \<noteq> s + of_nat i"
  shows "copy_down m (d + of_nat n) (s + of_nat n) n x
    = (if unat (x - d) < n then m (s + (x - d)) else m x)"
  using assms
proof (induction n arbitrary: m)
  case (Suc n)
  let ?m = "m(d + of_nat n := m (s + of_nat n))"
  have fresh: "d + of_nat n \<noteq> s + of_nat i" if "i < n" for i
    using Suc.prems(2) [of i n] that by simp
  have n: "unat (of_nat n :: ptr) = n" using Suc.prems(1) by (simp add: unat_of_nat)
  have "copy_down ?m (d + of_nat n) (s + of_nat n) n x
      = (if unat (x - d) < n then ?m (s + (x - d)) else ?m x)"
    using Suc.prems by (intro Suc.IH) auto
  then have *: "copy_down m (d + of_nat (Suc n)) (s + of_nat (Suc n)) (Suc n) x
      = (if unat (x - d) < n then ?m (s + (x - d)) else ?m x)"
    by simp
  have "s + (x - d) \<noteq> d + of_nat n" if "unat (x - d) < n"
    using fresh [OF that] by (simp add: algebra_simps)
  moreover have "x = d + of_nat n \<longleftrightarrow> unat (x - d) = n"
  proof
    assume "unat (x - d) = n"
    with n have "x - d = of_nat n" by (simp add: word_unat_eq_iff)
    then show "x = d + of_nat n" by (simp add: algebra_simps)
  qed (simp add: n)
  ultimately show ?case unfolding * by (auto simp: less_Suc_eq)
qed simp

lemma no_wrap_sum:
  fixes a :: ptr
  assumes "unat a + n \<le> 2 ^ 32" "i < n"
  shows "unat (a + of_nat i) = unat a + i"
proof -
  have "unat (of_nat i :: ptr) = i" using assms by (simp add: unat_of_nat)
  then show ?thesis using assms by (simp add: unat_word_ariths)
qed

lemma memmove_eq_copy_range:
  assumes s: "unat src + unat n \<le> 2 ^ 32" and d: "unat dst + unat n \<le> 2 ^ 32"
  shows "memmove m dst src n = copy_range m dst src n"
proof
  fix x
  have n: "unat n < 2 ^ 32" using unsigned_less [of n, where ?'a = nat] by simp
  show "memmove m dst src n x = copy_range m dst src n x"
  proof (cases "src < dst \<and> src + n > dst")
    case True
    have "dst + of_nat j \<noteq> src + of_nat i" if "i < j" "j < unat n" for i j
    proof -
      have "unat (dst + of_nat j) = unat dst + j" "unat (src + of_nat i) = unat src + i"
        using no_wrap_sum [OF d] no_wrap_sum [OF s] that by simp_all
      then show ?thesis using True that by (metis add_less_mono nat_neq_iff word_less_nat_alt)
    qed
    from copy_down_range [OF n this, of m x] True show ?thesis
      by (simp add: memmove_def copy_range_def in_range_def word_less_nat_alt)
  next
    case False
    have "dst + of_nat i \<noteq> src + of_nat j" if "i < j" "j < unat n" for i j
    proof -
      have *: "unat (dst + of_nat i) = unat dst + i" "unat (src + of_nat j) = unat src + j"
        using no_wrap_sum [OF d] no_wrap_sum [OF s] that by simp_all
      have "unat dst \<le> unat src \<or> unat src + unat n \<le> unat dst"
      proof (rule ccontr)
        assume c: "\<not> ?thesis"
        then have "unat (src + n) = unat src + unat n" using d n by (simp add: unat_word_ariths)
        with c False show False by (simp add: word_less_nat_alt)
      qed
      then show ?thesis using * that by auto
    qed
    from copy_up_range [OF n this, of m x] False show ?thesis
      by (auto simp add: memmove_def copy_range_def in_range_def word_less_nat_alt)
  qed
qed
section \<open>Bounded strings\<close>

text \<open>The string a reader of at most \<open>n\<close> bytes sees: the bytes before the first NUL.\<close>

definition cstr_take :: "cstr \<Rightarrow> nat \<Rightarrow> byte list" where
  "cstr_take p n = takeWhile (\<lambda>b. b \<noteq> 0) (map p [0..<n])"

lemma map_upt_Suc: "map p [0..<Suc n] = p 0 # map (\<lambda>i. p (Suc i)) [0..<n]"
  by (simp add: upt_conv_Cons map_Suc_upt [symmetric] del: upt_Suc)

lemma cstr_take_0 [simp]: "cstr_take p 0 = []"
  by (simp add: cstr_take_def)

lemma cstr_take_Suc:
  "cstr_take p (Suc n) = (if p 0 = 0 then [] else p 0 # cstr_take (\<lambda>i. p (Suc i)) n)"
  by (simp add: cstr_take_def map_upt_Suc del: upt_Suc)

lemma length_cstr_take: "length (cstr_take p n) \<le> n"
  unfolding cstr_take_def using length_takeWhile_le [of _ "map p [0..<n]"] by simp

lemma memcmp_eq_0_iff: "memcmp p q n = 0 \<longleftrightarrow> (\<forall>i<n. p i = q i)"
proof (induction n arbitrary: p q)
  case (Suc n)
  then show ?case by (auto simp: less_Suc_eq_0_disj word_uint_eq_iff)
qed simp

lemma strncmp_eq_0_iff: "strncmp p q n = 0 \<longleftrightarrow> cstr_take p n = cstr_take q n"
proof (induction n arbitrary: p q)
  case (Suc n)
  then show ?case by (auto simp: cstr_take_Suc word_uint_eq_iff)
qed simp

lemma strncpy_pad_eq:
  "i + n \<le> length s \<Longrightarrow> strncpy_pad s i n = take i s @ replicate n 0 @ drop (i + n) s"
proof (induction n arbitrary: s i)
  case (Suc n)
  then have "strncpy_pad (s[i := 0]) (Suc i) n
      = take (Suc i) (s[i := 0]) @ replicate n 0 @ drop (Suc i + n) (s[i := 0])"
    by simp
  then show ?case using Suc.prems by (simp add: take_Suc_conv_app_nth)
qed simp

lemma strncpy_loop_eq:
  "i + n \<le> length s \<Longrightarrow> strncpy_loop s t i n =
     (let k = cstr_take (\<lambda>j. t (i + j)) n
      in take i s @ k @ replicate (n - length k) 0 @ drop (i + n) s)"
proof (induction n arbitrary: s i)
  case (Suc n)
  show ?case
  proof (cases "t i = 0")
    case True
    then show ?thesis using Suc.prems
      by (simp add: cstr_take_Suc strncpy_pad_eq take_Suc_conv_app_nth)
  next
    case False
    then show ?thesis using Suc.prems Suc.IH [of "Suc i" "s[i := t i]"]
      by (simp add: cstr_take_Suc take_Suc_conv_app_nth Let_def)
  qed
qed simp

lemma strncpy_eq:
  assumes "n \<le> length s"
  shows "strncpy s t n =
    cstr_take t n @ replicate (n - length (cstr_take t n)) 0 @ drop n s"
  using strncpy_loop_eq [of 0 n s t] assms by (simp add: strncpy_def Let_def)

lemma cstr_take_cstr_of:
  assumes "n \<le> length bs"
  shows "cstr_take (cstr_of bs) n = takeWhile (\<lambda>b. b \<noteq> 0) (take n bs)"
proof -
  have "map (cstr_of bs) [0..<n] = take n bs"
    using assms by (intro nth_equalityI) (auto simp: cstr_of_def)
  then show ?thesis by (simp add: cstr_take_def)
qed

lemma takeWhile_cstr_take [simp]: "takeWhile (\<lambda>b. b \<noteq> 0) (cstr_take t n @ replicate k 0) = cstr_take t n"
proof -
  have "\<forall>b \<in> set (cstr_take t n). b \<noteq> 0"
    unfolding cstr_take_def by (auto dest: set_takeWhileD)
  then show ?thesis by (cases k) simp_all
qed

text \<open>A name stored with strncpy compares equal to the string it was copied from.\<close>

lemma strncmp_strncpy:
  assumes "n \<le> length s"
  shows "strncmp (cstr_of (strncpy s t n)) t n = 0"
proof -
  have "length (strncpy s t n) = length s" "take n (strncpy s t n) = cstr_take t n @ replicate (n - length (cstr_take t n)) 0"
    using assms length_cstr_take [of t n] by (simp_all add: strncpy_eq)
  then show ?thesis using assms by (simp add: strncmp_eq_0_iff cstr_take_cstr_of)
qed

lemma safestrcpy_loop_eq:
  "i + Suc n \<le> length s \<Longrightarrow> \<exists>r. length r = n - length (cstr_take (\<lambda>j. t (i + j)) n) \<and>
     safestrcpy_loop s t i n = take i s @ cstr_take (\<lambda>j. t (i + j)) n @ [0] @ r @ drop (i + Suc n) s"
proof (induction n arbitrary: s i)
  case 0
  then show ?case by (simp add: upd_conv_take_nth_drop)
next
  case (Suc n)
  show ?case
  proof (cases "t i = 0")
    case True
    have "safestrcpy_loop s t i (Suc n) = (s[i := 0])[Suc i := 0]" using True by simp
    also have "\<dots> = take i s @ [0] @ (0 # take n (drop (i + 2) s)) @ drop (i + Suc (Suc n)) s"
      using Suc.prems append_take_drop_id [of n "drop (i + 2) s"]
      by (simp add: upd_conv_take_nth_drop take_Suc_conv_app_nth add.commute)
    finally show ?thesis using True Suc.prems by (auto simp: cstr_take_Suc intro!: exI [of _ "0 # take n (drop (i + 2) s)"])
  next
    case False
    then show ?thesis using Suc.prems Suc.IH [of "Suc i" "s[i := t i]"]
      by (auto simp add: cstr_take_Suc take_Suc_conv_app_nth Let_def)
  qed
qed

text \<open>
  safestrcpy into an array with room for \<open>n\<close> bytes: what a reader sees is the source cut to
  \<open>n - 1\<close> bytes, and the bytes behind the first \<open>n\<close> are untouched.
\<close>

lemma safestrcpy_spec:
  assumes "0 < n" "nat n \<le> length s"
  shows "length (safestrcpy s t n) = length s"
    and "cstr_take (cstr_of (safestrcpy s t n)) (nat n) = cstr_take t (nat n - 1)"
    and "0 \<in> set (take (nat n) (safestrcpy s t n))"
    and "drop (nat n) (safestrcpy s t n) = drop (nat n) s"
proof -
  define k where "k = nat n - 1"
  have k: "nat n = Suc k" "safestrcpy s t n = safestrcpy_loop s t 0 k"
    using assms by (simp_all add: k_def safestrcpy_def nat_diff_distrib)
  obtain r where r: "length r = k - length (cstr_take t k)"
    "safestrcpy s t n = cstr_take t k @ [0] @ r @ drop (Suc k) s"
    using safestrcpy_loop_eq [of 0 k s t] assms(2) k by auto
  have l: "length (cstr_take t k @ [0] @ r) = Suc k" using r(1) length_cstr_take [of t k] by simp
  define x where "x = cstr_take t k @ [0] @ r"
  have x: "length x = Suc k" "safestrcpy s t n = x @ drop (Suc k) s"
    using l r(2) by (simp_all add: x_def)
  show "length (safestrcpy s t n) = length s" using l r(2) assms(2) k(1) by simp
  have tk: "take (nat n) (safestrcpy s t n) = cstr_take t k @ [0] @ r"
    unfolding x_def [symmetric] k(1) using x by simp
  then show "0 \<in> set (take (nat n) (safestrcpy s t n))" by simp
  show "drop (nat n) (safestrcpy s t n) = drop (nat n) s"
    using x unfolding k(1) by simp
  have "takeWhile (\<lambda>b. b \<noteq> 0) (cstr_take t k @ [0] @ r) = cstr_take t k"
  proof -
    have "\<forall>b \<in> set (cstr_take t k). b \<noteq> 0"
      unfolding cstr_take_def by (auto dest: set_takeWhileD)
    then show ?thesis by simp
  qed
  then show "cstr_take (cstr_of (safestrcpy s t n)) (nat n) = cstr_take t (nat n - 1)"
    using tk \<open>length (safestrcpy s t n) = length s\<close> assms(2) k(1)
    by (simp add: cstr_take_cstr_of)
qed

lemma strlen_from_eq:
  assumes "s k = 0" "\<And>i. n \<le> i \<Longrightarrow> i < k \<Longrightarrow> s i \<noteq> 0" "n \<le> k"
  shows "strlen_from s n = Some k"
  using assms
proof (induction "k - n" arbitrary: n)
  case (Suc d)
  then show ?case by (subst strlen_from.simps) (auto simp: le_Suc_eq)
qed (subst strlen_from.simps, simp)

lemma strlen_eq:
  assumes "s k = 0" "\<And>i. i < k \<Longrightarrow> s i \<noteq> 0"
  shows "strlen s = Some k"
  using strlen_from_eq [of s k 0] assms by (simp add: strlen_def)

section \<open>Properties\<close>

text \<open>
  memset, with its fast path that stores whole words when both the address and the length
  are multiples of four, writes the byte to exactly the \<open>n\<close> addresses from \<open>dst\<close> on and leaves
  every other byte of memory as it was.
\<close>

theorem memset_exact: "memset m dst c n = set_range m dst n (ucast c)"
  by (rule memset_eq_set_range)

text \<open>
  memmove, which copies downwards when the ranges overlap and upwards otherwise, moves the
  bytes the source range held before the call to the destination and changes nothing else, for
  every pair of ranges that do not wrap around the end of memory, overlapping or not.
\<close>

theorem memmove_exact:
  "unat src + unat n \<le> 2 ^ 32 \<Longrightarrow> unat dst + unat n \<le> 2 ^ 32 \<Longrightarrow>
     memmove m dst src n = copy_range m dst src n"
  by (rule memmove_eq_copy_range)

theorem memmove_exact_witness:
  "memmove (\<lambda>x. ucast x) 12 10 4 = copy_range (\<lambda>x. ucast x) 12 10 4
    \<and> map (memmove (\<lambda>x. ucast x) 12 10 4) [11, 12, 13, 14, 15, 16] = [11, 10, 11, 12, 13, 16]"
  using memmove_exact [of 10 4 12 "\<lambda>x. ucast x"] by (simp add: copy_range_def in_range_def)

text \<open>
  strncpy stores the string up to its terminator, fills the rest of the \<open>n\<close> bytes with
  zeros and keeps what follows them; a name stored this way compares equal under strncmp to the
  string it came from, which is how directory entries are written and looked up.
\<close>

theorem strncpy_strncmp:
  assumes "n \<le> length s"
  shows "strncpy s t n = cstr_take t n @ replicate (n - length (cstr_take t n)) 0 @ drop n s
    \<and> strncmp (cstr_of (strncpy s t n)) t n = 0"
  using strncpy_eq [OF assms] strncmp_strncpy [OF assms] by blast

theorem strncpy_strncmp_witness:
  "strncpy [9, 9, 9, 9, 9] (cstr_of [7, 8, 0]) 4 = [7, 8, 0, 0, 9]
    \<and> strncmp (cstr_of [7, 8, 0, 0, 9]) (cstr_of [7, 8, 0]) 4 = 0"
proof -
  have e: "strncpy [9, 9, 9, 9, 9] (cstr_of [7, 8, 0]) 4 = [7, 8, 0, 0, 9]" by code_simp
  show ?thesis using strncpy_strncmp [of 4 "[9, 9, 9, 9, 9]" "cstr_of [7, 8, 0]"] by (simp add: e)
qed

text \<open>
  safestrcpy leaves a terminator inside the \<open>n\<close> bytes of its buffer whatever the source
  holds, what it stores is the source cut at \<open>n - 1\<close> characters, and no byte behind the buffer
  changes.
\<close>

theorem safestrcpy_terminates:
  assumes "0 < n" "nat n \<le> length s"
  shows "length (safestrcpy s t n) = length s
    \<and> cstr_take (cstr_of (safestrcpy s t n)) (nat n) = cstr_take t (nat n - 1)
    \<and> 0 \<in> set (take (nat n) (safestrcpy s t n))
    \<and> drop (nat n) (safestrcpy s t n) = drop (nat n) s"
  using safestrcpy_spec [OF assms] by blast

theorem safestrcpy_terminates_witness:
  "0 \<in> set (take 3 (safestrcpy [9, 9, 9, 9] (cstr_of [5, 6, 7, 8]) 3))
    \<and> safestrcpy [9, 9, 9, 9] (cstr_of [5, 6, 7, 8]) 3 = [5, 6, 0, 9]"
proof -
  have e: "safestrcpy [9, 9, 9, 9] (cstr_of [5, 6, 7, 8]) 3 = [5, 6, 0, 9]" by code_simp
  show ?thesis using safestrcpy_terminates [of 3 "[9, 9, 9, 9]" "cstr_of [5, 6, 7, 8]"] by (simp add: e)
qed

end
