(* ===== verification/Kernel.thy ===== *)
theory Kernel
  imports CString
begin

text \<open>
  The data of the kernel: the constants of param.h, memlayout.h, mmu.h, fs.h, stat.h, fcntl.h,
  mmap.h and buf.h, the C structs as records, and the kernel's global variables as one record
  \<open>kernel\<close>.  A kernel routine is a function from that record to an outcome: it returns a value
  and a new state, it calls panic, it performs an operation whose effect C leaves undefined (a
  NULL dereference, an array index out of range, a signed overflow), or it gives up the CPU
  through sched, in which case the outcome carries the state in which the scheduler takes over.

  A pointer into one of the kernel's static arrays (ptable.proc, bcache.buf, icache.inode,
  ftable.file) is the index of the element, \<open>None\<close> standing for NULL.  Pages handed out by
  kalloc live in the byte memory \<open>kmem\<close>, addressed by kernel virtual address.
\<close>

section \<open>Constants\<close>

abbreviation (input) "NPROC \<equiv> 64 :: nat"
abbreviation (input) "NOFILE \<equiv> 16 :: nat"
abbreviation (input) "NFILE \<equiv> 100 :: nat"
abbreviation (input) "NINODE \<equiv> 50 :: nat"
abbreviation (input) "NBUF \<equiv> 30 :: nat"
abbreviation (input) "NDEV \<equiv> 10 :: int"
abbreviation (input) "ROOTDEV \<equiv> 1 :: uint"
abbreviation (input) "ROOTINO \<equiv> 1 :: uint"
abbreviation (input) "MAXARG \<equiv> 32 :: nat"
abbreviation (input) "MAXOPBLOCKS \<equiv> 10 :: int"
abbreviation (input) "LOGSIZE \<equiv> 30 :: int"
abbreviation (input) "FSSIZE \<equiv> 1000 :: uint"
abbreviation (input) "KSTACKSIZE \<equiv> 4096 :: uint"

abbreviation (input) "PGSIZE \<equiv> 4096 :: uint"
abbreviation (input) "PTE_P \<equiv> 1 :: uint"
abbreviation (input) "PTE_W \<equiv> 2 :: uint"
abbreviation (input) "PTE_U \<equiv> 4 :: uint"
abbreviation (input) "EXTMEM \<equiv> 0x100000 :: uint"
abbreviation (input) "PHYSTOP \<equiv> 0xE000000 :: uint"
abbreviation (input) "DEVSPACE \<equiv> 0xFE000000 :: uint"
abbreviation (input) "KERNBASE \<equiv> 0x80000000 :: uint"
abbreviation (input) "KERNLINK \<equiv> 0x80100000 :: uint"

abbreviation (input) "BSIZE \<equiv> 512 :: nat"
abbreviation (input) "NDIRECT \<equiv> 12 :: nat"
abbreviation (input) "NINDIRECT \<equiv> 128 :: nat"
abbreviation (input) "MAXFILE \<equiv> 140 :: nat"
abbreviation (input) "DIRSIZ \<equiv> 14 :: nat"
abbreviation (input) "T_DIR \<equiv> 1 :: ushort"
abbreviation (input) "T_FILE \<equiv> 2 :: ushort"
abbreviation (input) "T_DEV \<equiv> 3 :: ushort"

abbreviation (input) "MAP_PRIVATE \<equiv> 0x1 :: int"
abbreviation (input) "MAP_SHARED \<equiv> 0x2 :: int"
abbreviation (input) "MAP_ANONYMOUS \<equiv> 0x4 :: int"
abbreviation (input) "MAP_ANON \<equiv> MAP_ANONYMOUS"
abbreviation (input) "MAP_FIXED \<equiv> 0x8 :: int"
abbreviation (input) "MAP_GROWSUP \<equiv> 0x10 :: int"
abbreviation (input) "VIRT_ADDR_START \<equiv> 0x60000000 :: int"
abbreviation (input) "VIRT_ADDR_END \<equiv> 0x80000000 :: uint"
abbreviation (input) "PAGE_SIZE \<equiv> 4096 :: int"
abbreviation (input) "PAGE_LIMIT \<equiv> 32 :: nat"
abbreviation (input) "INT_MAX \<equiv> 0x7FFFFFFF :: int"
abbreviation (input) "INT_MIN \<equiv> - 0x80000000 :: int"
abbreviation (input) "CRTSIZE \<equiv> 16384 :: nat"
abbreviation (input) "PIPESIZE \<equiv> 512 :: nat"

definition V2P :: "ptr \<Rightarrow> uint" where
  "V2P a = a - KERNBASE"

definition P2V :: "uint \<Rightarrow> ptr" where
  "P2V a = a + KERNBASE"

definition PGROUNDUP :: "uint \<Rightarrow> uint" where
  "PGROUNDUP sz = (sz + PGSIZE - 1) AND NOT (PGSIZE - 1)"

definition PGROUNDDOWN :: "uint \<Rightarrow> uint" where
  "PGROUNDDOWN a = a AND NOT (PGSIZE - 1)"

definition PDX :: "ptr \<Rightarrow> uint" where
  "PDX va = drop_bit 22 va AND 0x3FF"

definition PTX :: "ptr \<Rightarrow> uint" where
  "PTX va = drop_bit 12 va AND 0x3FF"

definition PGADDR :: "uint \<Rightarrow> uint \<Rightarrow> uint \<Rightarrow> ptr" where
  "PGADDR d t ofs = (push_bit 22 d OR push_bit 12 t OR ofs)"

definition PTE_ADDR :: "uint \<Rightarrow> uint" where
  "PTE_ADDR pte = pte AND NOT 0xFFF"

definition PTE_FLAGS :: "uint \<Rightarrow> uint" where
  "PTE_FLAGS pte = pte AND 0xFFF"

section \<open>Locks and sleep channels\<close>

text \<open>The sleep locks: one in every buffer and one in every cached inode.\<close>

datatype slock = BufLock nat | InodeLock nat

text \<open>The spin locks; each sleep lock has a spin lock of its own inside, each pipe has one.\<close>

datatype lock =
    PtableLock | KmemLock | BcacheLock | LogLock | IcacheLock | FtableLock | TicksLock
  | ConsLock | IdeLock | PipeLock ptr | SleepLk slock

text \<open>What a process sleeps on: the C code uses the address of the object it waits for.\<close>

datatype chan =
    ChanProc nat | ChanSleep slock | ChanLog | ChanBuf nat | ChanTicks | ChanInput
  | ChanPipeRead ptr | ChanPipeWrite ptr

record sleeplock =
  sl_locked :: bool
  sl_pid :: int

section \<open>Structs\<close>

record mmap_desc =
  md_page :: ptr
  md_length :: int
  md_virtualAddress :: int
  md_flags :: int
  md_prot :: int
  md_dirty :: bool
  md_shared :: bool
  md_valid :: bool
  md_guard_page :: bool
  md_hasFile :: bool
  md_isChildOfParent :: bool
  md_ref :: int
  md_f :: "nat option"
  md_already_alloced :: bool

datatype procstate = UNUSED | EMBRYO | SLEEPING | RUNNABLE | RUNNING | ZOMBIE

record trapframe =
  tf_eax :: uint
  tf_ds :: ushort
  tf_es :: ushort
  tf_trapno :: uint
  tf_err :: uint
  tf_eip :: uint
  tf_cs :: ushort
  tf_eflags :: uint
  tf_esp :: uint
  tf_ss :: ushort
  tf_regs :: "uint list"

text \<open>The entry points that a saved context or the word above it can name.\<close>

datatype code = Forkret | Trapret | Elsewhere uint

record kcontext =
  cx_eip :: code
  cx_ret :: code
  cx_zeroed :: bool

record proc =
  p_sz :: uint
  p_pgdir :: ptr
  p_kstack :: ptr
  p_state :: procstate
  p_pid :: int
  p_parent :: "nat option"
  p_tf :: trapframe
  p_context :: kcontext
  p_chan :: "chan option"
  p_killed :: bool
  p_ofile :: "nat option list"
  p_cwd :: "nat option"
  p_name :: "byte list"
  p_mmaps :: "mmap_desc list"
  p_open_frames :: int

record buf =
  b_valid :: bool
  b_dirty :: bool
  b_dev :: uint
  b_blockno :: uint
  b_lock :: sleeplock
  b_refcnt :: uint
  b_data :: "byte list"

record superblock =
  sb_size :: uint
  sb_nblocks :: uint
  sb_ninodes :: uint
  sb_nlog :: uint
  sb_logstart :: uint
  sb_inodestart :: uint
  sb_bmapstart :: uint

record dinode =
  d_type :: ushort
  d_major :: ushort
  d_minor :: ushort
  d_nlink :: ushort
  d_size :: uint
  d_addrs :: "uint list"

record inode =
  i_dev :: uint
  i_inum :: uint
  i_ref :: int
  i_lock :: sleeplock
  i_valid :: bool
  i_type :: ushort
  i_major :: ushort
  i_minor :: ushort
  i_nlink :: ushort
  i_size :: uint
  i_addrs :: "uint list"

datatype ftype = FD_NONE | FD_PIPE | FD_INODE

record kfile =
  f_type :: ftype
  f_ref :: int
  f_readable :: bool
  f_writable :: bool
  f_pipe :: ptr
  f_ip :: "nat option"
  f_off :: uint

record pipe =
  pi_data :: "byte list"
  pi_nread :: uint
  pi_nwrite :: uint
  pi_readopen :: bool
  pi_writeopen :: bool

record log =
  lg_start :: int
  lg_size :: int
  lg_outstanding :: int
  lg_committing :: bool
  lg_dev :: uint
  lh_n :: int
  lh_block :: "uint list"

record cinput =
  in_buf :: "byte list"
  in_r :: uint
  in_w :: uint
  in_e :: uint

text \<open>An entry of the device switch; the console is the only driver that registers itself.\<close>

datatype devfun = NoDev | ConsoleDev

section \<open>The kernel state\<close>

record kernel =
  kmem :: mem                        \<comment> \<open>physical memory, by kernel virtual address\<close>
  kend :: ptr                        \<comment> \<open>end: first address after the kernel image\<close>
  kdata :: ptr                       \<comment> \<open>data: start of the kernel's data segment\<close>
  freelist :: ptr                    \<comment> \<open>kmem.freelist\<close>
  use_lock :: bool                   \<comment> \<open>kmem.use_lock\<close>
  held :: "lock list"                \<comment> \<open>the spin locks this CPU holds\<close>
  ptable :: "proc list"
  cur :: "nat option"                \<comment> \<open>mycpu()->proc\<close>
  initproc :: "nat option"
  nextpid :: int
  kpgdir :: ptr
  cr3 :: uint                        \<comment> \<open>the page table register\<close>
  ts_esp0 :: uint                    \<comment> \<open>mycpu()->ts.esp0, the stack a trap starts on\<close>
  ticks :: uint
  VA_PTR :: int
  disk :: "uint \<Rightarrow> byte list"        \<comment> \<open>the blocks of the disk\<close>
  disksize :: uint
  dwrites :: "(uint \<times> byte list) list" \<comment> \<open>ghost: the block writes the disk has done, oldest first\<close>
  bufs :: "buf list"
  lru :: "nat list"                  \<comment> \<open>the bcache list from head.next, most recent first\<close>
  klog :: log
  sb :: superblock
  icache :: "inode list"
  ftable :: "kfile list"
  pipes :: "ptr \<Rightarrow> pipe"             \<comment> \<open>the pipe structs that live in kalloc'ed pages\<close>
  input :: cinput
  cons_locking :: bool               \<comment> \<open>cons.locking\<close>
  uart_out :: "byte list"            \<comment> \<open>the bytes sent to the serial port\<close>
  crt :: "ushort list"               \<comment> \<open>the text memory of the screen\<close>
  crt_pos :: nat                     \<comment> \<open>the cursor register of the screen\<close>
  devsw :: "devfun list"
  first :: bool                      \<comment> \<open>the static variable of forkret\<close>
  kbd_shift :: uint                  \<comment> \<open>the static variable shift of kbdgetc\<close>

datatype 'a outcome =
    Ok 'a kernel
  | Panic string
  | Fault string
  | Sched kernel

type_synonym 'a M = "kernel \<Rightarrow> 'a outcome"

definition ret :: "'a \<Rightarrow> 'a M" where
  "ret x = (\<lambda>s. Ok x s)"

definition bindM :: "'a M \<Rightarrow> ('a \<Rightarrow> 'b M) \<Rightarrow> 'b M" where
  "bindM m k = (\<lambda>s. case m s of Ok x s' \<Rightarrow> k x s' | Panic e \<Rightarrow> Panic e | Fault e \<Rightarrow> Fault e | Sched s' \<Rightarrow> Sched s')"

definition seqM :: "'a M \<Rightarrow> 'b M \<Rightarrow> 'b M" where
  "seqM m k = bindM m (\<lambda>_. k)"

definition gets :: "(kernel \<Rightarrow> 'a) \<Rightarrow> 'a M" where
  "gets f = (\<lambda>s. Ok (f s) s)"

definition modify :: "(kernel \<Rightarrow> kernel) \<Rightarrow> unit M" where
  "modify f = (\<lambda>s. Ok () (f s))"

definition panic :: "string \<Rightarrow> 'a M" where
  "panic e = (\<lambda>s. Panic e)"

definition fault :: "string \<Rightarrow> 'a M" where
  "fault e = (\<lambda>s. Fault e)"

definition whenM :: "bool \<Rightarrow> unit M \<Rightarrow> unit M" where
  "whenM b m = (if b then m else ret ())"

text \<open>A for loop over a list of indices.\<close>

fun foreach :: "'i list \<Rightarrow> ('i \<Rightarrow> unit M) \<Rightarrow> unit M" where
  "foreach [] f = ret ()"
| "foreach (i # is) f = seqM (f i) (foreach is f)"

text \<open>A pointer that C dereferences: NULL has no meaning.\<close>

definition deref :: "'a option \<Rightarrow> 'a M" where
  "deref p = (case p of None \<Rightarrow> fault ''null dereference'' | Some x \<Rightarrow> ret x)"

lemmas monad_defs = ret_def bindM_def seqM_def gets_def modify_def panic_def fault_def whenM_def deref_def

lemma bindM_Ok [simp]: "m s = Ok x s' \<Longrightarrow> bindM m k s = k x s'"
  by (simp add: bindM_def)

lemma bindM_Panic [simp]: "m s = Panic e \<Longrightarrow> bindM m k s = Panic e"
  by (simp add: bindM_def)

lemma bindM_Fault [simp]: "m s = Fault e \<Longrightarrow> bindM m k s = Fault e"
  by (simp add: bindM_def)

lemma bindM_Sched [simp]: "m s = Sched s' \<Longrightarrow> bindM m k s = Sched s'"
  by (simp add: bindM_def)

lemma bindM_OkE:
  assumes "bindM m k s = Ok y t"
  obtains x s' where "m s = Ok x s'" "k x s' = Ok y t"
  using assms by (auto simp: bindM_def split: outcome.splits)

lemma seqM_OkE:
  assumes "seqM m k s = Ok y t"
  obtains x s' where "m s = Ok x s'" "k s' = Ok y t"
  using assms by (auto simp: seqM_def elim: bindM_OkE)

lemma bindM_ret [simp]: "bindM (ret x) k = k x"
  by (simp add: bindM_def ret_def)

lemma bindM_assoc: "bindM (bindM m f) g = bindM m (\<lambda>x. bindM (f x) g)"
  by (auto simp: bindM_def fun_eq_iff split: outcome.splits)

section \<open>Access to the tables\<close>

definition upd_proc :: "nat \<Rightarrow> (proc \<Rightarrow> proc) \<Rightarrow> kernel \<Rightarrow> kernel" where
  "upd_proc i f s = s\<lparr>ptable := (ptable s)[i := f (ptable s ! i)]\<rparr>"

definition upd_buf :: "nat \<Rightarrow> (buf \<Rightarrow> buf) \<Rightarrow> kernel \<Rightarrow> kernel" where
  "upd_buf i f s = s\<lparr>bufs := (bufs s)[i := f (bufs s ! i)]\<rparr>"

definition upd_inode :: "nat \<Rightarrow> (inode \<Rightarrow> inode) \<Rightarrow> kernel \<Rightarrow> kernel" where
  "upd_inode i f s = s\<lparr>icache := (icache s)[i := f (icache s ! i)]\<rparr>"

definition upd_file :: "nat \<Rightarrow> (kfile \<Rightarrow> kfile) \<Rightarrow> kernel \<Rightarrow> kernel" where
  "upd_file i f s = s\<lparr>ftable := (ftable s)[i := f (ftable s ! i)]\<rparr>"

text \<open>The current process, where the code dereferences what myproc returns.\<close>

definition curproc :: "nat M" where
  "curproc = bindM (gets cur) deref"

section \<open>The static data\<close>

text \<open>
  The kernel's global variables before main runs: zero but for the initialisers in the sources
  (\<open>nextpid\<close> in proc.c, \<open>VA_PTR\<close> in sysfile.c).  The linker chooses the end of the kernel image
  and the start of its data, the disk image its contents.
\<close>

definition zero_desc :: mmap_desc where
  "zero_desc = \<lparr>md_page = 0, md_length = 0, md_virtualAddress = 0, md_flags = 0, md_prot = 0,
     md_dirty = False, md_shared = False, md_valid = False, md_guard_page = False, md_hasFile = False,
     md_isChildOfParent = False, md_ref = 0, md_f = None, md_already_alloced = False\<rparr>"

definition zero_trapframe :: trapframe where
  "zero_trapframe = \<lparr>tf_eax = 0, tf_ds = 0, tf_es = 0, tf_trapno = 0, tf_err = 0, tf_eip = 0, tf_cs = 0,
     tf_eflags = 0, tf_esp = 0, tf_ss = 0, tf_regs = []\<rparr>"

definition zero_proc :: proc where
  "zero_proc = \<lparr>p_sz = 0, p_pgdir = 0, p_kstack = 0, p_state = UNUSED, p_pid = 0, p_parent = None,
     p_tf = zero_trapframe, p_context = \<lparr>cx_eip = Elsewhere 0, cx_ret = Elsewhere 0, cx_zeroed = True\<rparr>,
     p_chan = None, p_killed = False, p_ofile = replicate NOFILE None, p_cwd = None,
     p_name = replicate 16 0, p_mmaps = replicate PAGE_LIMIT zero_desc, p_open_frames = 0\<rparr>"

definition zero_sleeplock :: sleeplock where
  "zero_sleeplock = \<lparr>sl_locked = False, sl_pid = 0\<rparr>"

definition zero_buf :: buf where
  "zero_buf = \<lparr>b_valid = False, b_dirty = False, b_dev = 0, b_blockno = 0, b_lock = zero_sleeplock,
     b_refcnt = 0, b_data = replicate BSIZE 0\<rparr>"

definition zero_inode :: inode where
  "zero_inode = \<lparr>i_dev = 0, i_inum = 0, i_ref = 0, i_lock = zero_sleeplock, i_valid = False, i_type = 0,
     i_major = 0, i_minor = 0, i_nlink = 0, i_size = 0, i_addrs = replicate (NDIRECT + 1) 0\<rparr>"

definition zero_file :: kfile where
  "zero_file = \<lparr>f_type = FD_NONE, f_ref = 0, f_readable = False, f_writable = False, f_pipe = 0,
     f_ip = None, f_off = 0\<rparr>"

definition zero_pipe :: pipe where
  "zero_pipe = \<lparr>pi_data = replicate PIPESIZE 0, pi_nread = 0, pi_nwrite = 0, pi_readopen = False,
     pi_writeopen = False\<rparr>"

definition static_data :: "ptr \<Rightarrow> ptr \<Rightarrow> (uint \<Rightarrow> byte list) \<Rightarrow> uint \<Rightarrow> kernel" where
  "static_data end0 data0 img nblk = \<lparr>kmem = (\<lambda>_. 0), kend = end0, kdata = data0, freelist = 0,
     use_lock = False, held = [], ptable = replicate NPROC zero_proc, cur = None, initproc = None,
     nextpid = 1, kpgdir = 0, cr3 = 0, ts_esp0 = 0, ticks = 0, VA_PTR = VIRT_ADDR_START, disk = img,
     disksize = nblk, dwrites = [], bufs = replicate NBUF zero_buf, lru = [],
     klog = \<lparr>lg_start = 0, lg_size = 0, lg_outstanding = 0, lg_committing = False, lg_dev = 0, lh_n = 0,
       lh_block = replicate 30 0\<rparr>,
     sb = \<lparr>sb_size = 0, sb_nblocks = 0, sb_ninodes = 0, sb_nlog = 0, sb_logstart = 0, sb_inodestart = 0,
       sb_bmapstart = 0\<rparr>,
     icache = replicate NINODE zero_inode, ftable = replicate NFILE zero_file, pipes = (\<lambda>_. zero_pipe),
     input = \<lparr>in_buf = replicate 128 0, in_r = 0, in_w = 0, in_e = 0\<rparr>, cons_locking = False,
     uart_out = [], crt = replicate CRTSIZE 0, crt_pos = 0, devsw = replicate 10 NoDev, first = True, kbd_shift = 0\<rparr>"

end
