(* ===== verification/Sched.thy ===== *)
theory Sched
  imports Kernel
begin

text \<open>
  Locks and the scheduler's interface, as one kernel thread sees them: spin locks (the contract
  of spinlock.c for the CPU that runs the thread), sched, yield, sleep and wakeup (proc.c) and
  sleep locks (sleeplock.c).

  The state records the spin locks this CPU holds.  Another CPU that holds a lock only delays
  acquire, so that delay is not visible here; acquiring a lock twice or releasing a lock that is
  not held is the panic of the code.  Holding a lock means interrupts are off and the depth of
  pushcli nesting is the number of locks held, so the two checks of sched on mycpu()->ncli and
  on the interrupt flag are the check that exactly one lock is held.

  A routine that goes to sleep ends in the outcome \<open>Sched\<close>: the scheduler has the CPU and the
  process table says what the process waits for.  When the process runs again it executes
  \<open>sleep_resume\<close> and evaluates the condition of its loop anew.
\<close>

section \<open>Spin locks\<close>

definition holding :: "lock \<Rightarrow> bool M" where
  "holding lk = gets (\<lambda>s. lk \<in> set (held s))"

definition acquire :: "lock \<Rightarrow> unit M" where
  "acquire lk = bindM (holding lk) (\<lambda>h.
     if h then panic ''acquire'' else modify (\<lambda>s. s\<lparr>held := lk # held s\<rparr>))"

definition release :: "lock \<Rightarrow> unit M" where
  "release lk = bindM (holding lk) (\<lambda>h.
     if \<not> h then panic ''release'' else modify (\<lambda>s. s\<lparr>held := remove1 lk (held s)\<rparr>))"

lemma acquire_free [simp]: "lk \<notin> set (held s) \<Longrightarrow> acquire lk s = Ok () (s\<lparr>held := lk # held s\<rparr>)"
  by (simp add: acquire_def holding_def monad_defs)

lemma acquire_held [simp]: "lk \<in> set (held s) \<Longrightarrow> acquire lk s = Panic ''acquire''"
  by (simp add: acquire_def holding_def monad_defs)

lemma release_held [simp]: "lk \<in> set (held s) \<Longrightarrow> release lk s = Ok () (s\<lparr>held := remove1 lk (held s)\<rparr>)"
  by (simp add: release_def holding_def monad_defs)

lemma release_free [simp]: "lk \<notin> set (held s) \<Longrightarrow> release lk s = Panic ''release''"
  by (simp add: release_def holding_def monad_defs)

section \<open>sched, yield, sleep, wakeup\<close>

definition sched :: "unit M" where
  "sched =
     bindM (gets cur) (\<lambda>p.
     bindM (holding PtableLock) (\<lambda>h.
     if \<not> h then panic ''sched ptable.lock'' else
     bindM (gets held) (\<lambda>hs.
     if length hs \<noteq> 1 then panic ''sched locks'' else
     bindM (deref p) (\<lambda>p.
     bindM (gets (\<lambda>s. p_state (ptable s ! p))) (\<lambda>st.
     if st = RUNNING then panic ''sched running'' else Sched)))))"

definition yield :: "unit M" where
  "yield =
     seqM (acquire PtableLock)
    (bindM curproc (\<lambda>p.
     seqM (modify (upd_proc p (\<lambda>q. q\<lparr>p_state := RUNNABLE\<rparr>)))
    (seqM sched
    (release PtableLock))))"

definition sleep :: "chan \<Rightarrow> lock option \<Rightarrow> unit M" where
  "sleep ch lk =
     bindM (gets cur) (\<lambda>p.
     case p of None \<Rightarrow> panic ''sleep'' | Some p \<Rightarrow>
     case lk of None \<Rightarrow> panic ''sleep without lk'' | Some lk \<Rightarrow>
     seqM (whenM (lk \<noteq> PtableLock) (seqM (acquire PtableLock) (release lk)))
    (seqM (modify (upd_proc p (\<lambda>q. q\<lparr>p_chan := Some ch, p_state := SLEEPING\<rparr>)))
     sched))"

text \<open>What sleep does when the process is running again.\<close>

definition sleep_resume :: "lock \<Rightarrow> unit M" where
  "sleep_resume lk =
     bindM curproc (\<lambda>p.
     seqM (modify (upd_proc p (\<lambda>q. q\<lparr>p_chan := None\<rparr>)))
    (whenM (lk \<noteq> PtableLock) (seqM (release PtableLock) (acquire lk))))"

definition wakeup_proc :: "chan option \<Rightarrow> proc \<Rightarrow> proc" where
  "wakeup_proc ch p = (if p_state p = SLEEPING \<and> p_chan p = ch then p\<lparr>p_state := RUNNABLE\<rparr> else p)"

definition wakeup1 :: "chan option \<Rightarrow> unit M" where
  "wakeup1 ch = modify (\<lambda>s. s\<lparr>ptable := map (wakeup_proc ch) (ptable s)\<rparr>)"

definition wakeup :: "chan \<Rightarrow> unit M" where
  "wakeup ch = seqM (acquire PtableLock) (seqM (wakeup1 (Some ch)) (release PtableLock))"

section \<open>Sleep locks\<close>

definition get_slock :: "slock \<Rightarrow> kernel \<Rightarrow> sleeplock" where
  "get_slock lk s = (case lk of BufLock i \<Rightarrow> b_lock (bufs s ! i) | InodeLock i \<Rightarrow> i_lock (icache s ! i))"

definition set_slock :: "slock \<Rightarrow> sleeplock \<Rightarrow> kernel \<Rightarrow> kernel" where
  "set_slock lk l s = (case lk of
       BufLock i \<Rightarrow> upd_buf i (\<lambda>b. b\<lparr>b_lock := l\<rparr>) s
     | InodeLock i \<Rightarrow> upd_inode i (\<lambda>ip. ip\<lparr>i_lock := l\<rparr>) s)"

definition initsleeplock :: "slock \<Rightarrow> unit M" where
  "initsleeplock lk = modify (set_slock lk \<lparr>sl_locked = False, sl_pid = 0\<rparr>)"

definition acquiresleep :: "slock \<Rightarrow> unit M" where
  "acquiresleep lk =
     seqM (acquire (SleepLk lk))
    (bindM (gets (get_slock lk)) (\<lambda>l.
     if sl_locked l then sleep (ChanSleep lk) (Some (SleepLk lk)) else
     bindM curproc (\<lambda>p.
     seqM (modify (\<lambda>s. set_slock lk \<lparr>sl_locked = True, sl_pid = p_pid (ptable s ! p)\<rparr> s))
    (release (SleepLk lk)))))"

definition releasesleep :: "slock \<Rightarrow> unit M" where
  "releasesleep lk =
     seqM (acquire (SleepLk lk))
    (seqM (modify (set_slock lk \<lparr>sl_locked = False, sl_pid = 0\<rparr>))
    (seqM (wakeup (ChanSleep lk))
    (release (SleepLk lk))))"

definition holdingsleep :: "slock \<Rightarrow> bool M" where
  "holdingsleep lk =
     seqM (acquire (SleepLk lk))
    (bindM (gets (get_slock lk)) (\<lambda>l.
     bindM (if sl_locked l
            then bindM curproc (\<lambda>p. gets (\<lambda>s. sl_pid l = p_pid (ptable s ! p)))
            else ret False) (\<lambda>r.
     seqM (release (SleepLk lk)) (ret r))))"

end
