(* ===== verification/Cons.thy ===== *)
theory Cons
  imports Sched
begin

text \<open>
  Console output (the first half of console.c): printint, cprintf, consputc and cgaputc.  The
  serial port is the list of the bytes sent to it; the screen is its text memory, from
  \<open>0xb8000\<close> on, and the cursor register of the display controller.
\<close>

abbreviation (input) "BACKSPACE \<equiv> 0x100 :: int"

section \<open>Numbers\<close>

text \<open>The digits as the loop of printint stores them, the last one first.\<close>

definition digits :: "nat \<Rightarrow> byte" where
  "digits d = (if d < 10 then 48 + of_nat d else 87 + of_nat d)"

function printint_loop :: "nat \<Rightarrow> nat \<Rightarrow> byte list" where
  "printint_loop x base = digits (x mod base) #
     (if base \<le> 1 \<or> x div base = 0 then [] else printint_loop (x div base) base)"
  by auto
termination
  by (relation "measure fst") (auto intro!: div_less_dividend gr0I)

text \<open>
  The contents of buf when the digits are complete.  The argument is the 32-bit pattern that
  printint receives, negated when a sign is wanted and the number is negative.
\<close>

definition printint_buf :: "uint \<Rightarrow> uint \<Rightarrow> bool \<Rightarrow> byte list" where
  "printint_buf xx base sign = (let neg = (sign \<and> xx <s 0); x = (if neg then - xx else xx) in
     printint_loop (unat x) (unat base) @ (if neg then [45] else []))"

section \<open>The screen\<close>

definition crt_put :: "nat \<Rightarrow> ushort \<Rightarrow> unit M" where
  "crt_put i v = bindM (gets crt) (\<lambda>c.
     if length c \<le> i then fault ''crt index'' else modify (\<lambda>s. s\<lparr>crt := c[i := v]\<rparr>))"

text \<open>Scrolling: the lines move up by one and what follows the cursor is cleared.\<close>

definition crt_scroll :: "nat \<Rightarrow> ushort list \<Rightarrow> ushort list" where
  "crt_scroll pos c = (let c1 = take (23 * 80) (drop 80 c) @ drop (23 * 80) c
     in take pos c1 @ replicate (24 * 80 - pos) 0 @ drop (24 * 80) c1)"

text \<open>The second half of cgaputc: check the new position, scroll, move the cursor.\<close>

definition cga_place :: "nat \<Rightarrow> unit M" where
  "cga_place pos =
     (if pos > 25 * 80 then panic ''pos under/overflow'' else
      bindM (if pos div 80 \<ge> 24
             then seqM (modify (\<lambda>s. s\<lparr>crt := crt_scroll (pos - 80) (crt s)\<rparr>)) (ret (pos - 80))
             else ret pos) (\<lambda>pos.
      seqM (modify (\<lambda>s. s\<lparr>crt_pos := pos\<rparr>))
      (crt_put pos (0x20 OR 0x0700))))"

definition cgaputc :: "int \<Rightarrow> unit M" where
  "cgaputc c =
     bindM (gets crt_pos) (\<lambda>pos.
     bindM (if c = 10 then ret (pos + 80 - pos mod 80)
            else if c = BACKSPACE then ret (if pos > 0 then pos - 1 else pos)
            else seqM (crt_put pos (word_of_int c AND 0xFF OR 0x0700)) (ret (pos + 1)))
     cga_place)"

definition uartputc :: "int \<Rightarrow> unit M" where
  "uartputc c = modify (\<lambda>s. s\<lparr>uart_out := uart_out s @ [word_of_int c]\<rparr>)"

definition consputc :: "int \<Rightarrow> unit M" where
  "consputc c =
     seqM (if c = BACKSPACE then seqM (uartputc 8) (seqM (uartputc 32) (uartputc 8)) else uartputc c)
     (cgaputc c)"

section \<open>Formatted output\<close>

text \<open>An argument of cprintf: a word, or a pointer to a string.\<close>

datatype carg = CInt uint | CStr "byte list option"

definition printint :: "uint \<Rightarrow> uint \<Rightarrow> bool \<Rightarrow> unit M" where
  "printint xx base sign = foreach (rev (printint_buf xx base sign)) (\<lambda>b. consputc (uint b))"

text \<open>
  The loop over the format.  Reading an argument that was not passed has no defined effect, nor
  has a string conversion of a word.
\<close>

fun cprintf_loop :: "byte list \<Rightarrow> carg list \<Rightarrow> unit M" where
  "cprintf_loop [] args = ret ()"
| "cprintf_loop (c # cs) args =
     (if c \<noteq> 37 then seqM (consputc (uint c)) (cprintf_loop cs args) else
      case cs of [] \<Rightarrow> ret () | d # ds \<Rightarrow>
      if d = 100 then (case args of CInt x # as \<Rightarrow> seqM (printint x 10 True) (cprintf_loop ds as)
                       | _ \<Rightarrow> fault ''cprintf argument'')
      else if d = 120 \<or> d = 112 then (case args of CInt x # as \<Rightarrow> seqM (printint x 16 False) (cprintf_loop ds as)
                       | _ \<Rightarrow> fault ''cprintf argument'')
      else if d = 115 then (case args of
                         CStr None # as \<Rightarrow> seqM (foreach [40, 110, 117, 108, 108, 41] consputc) (cprintf_loop ds as)
                       | CStr (Some str) # as \<Rightarrow> seqM (foreach str (\<lambda>b. consputc (uint b))) (cprintf_loop ds as)
                       | _ \<Rightarrow> fault ''cprintf argument'')
      else if d = 37 then seqM (consputc 37) (cprintf_loop ds args)
      else seqM (consputc 37) (seqM (consputc (uint d)) (cprintf_loop ds args)))"

text \<open>String literals of the sources as bytes.\<close>

definition str :: "string \<Rightarrow> byte list" where
  "str cs = map (\<lambda>c. of_nat (of_char c)) cs"

definition cprintf :: "string \<Rightarrow> carg list \<Rightarrow> unit M" where
  "cprintf fmt args =
     bindM (gets cons_locking) (\<lambda>locking.
     seqM (whenM locking (acquire ConsLock))
    (seqM (cprintf_loop (str fmt) args)
    (whenM locking (release ConsLock))))"

definition consoleinit :: "unit M" where
  "consoleinit = modify (\<lambda>s. s\<lparr>devsw := (devsw s)[1 := ConsoleDev], cons_locking := True\<rparr>)"

section \<open>The screen never overflows\<close>

definition crt_ok :: "kernel \<Rightarrow> bool" where
  "crt_ok s \<longleftrightarrow> length (crt s) = CRTSIZE \<and> crt_pos s < 24 * 80"

text \<open>An action that only writes to the console.\<close>

definition set_console :: "byte list \<Rightarrow> ushort list \<Rightarrow> nat \<Rightarrow> kernel \<Rightarrow> kernel" where
  "set_console u c p s = s\<lparr>uart_out := u, crt := c, crt_pos := p\<rparr>"

definition console_only :: "kernel \<Rightarrow> kernel \<Rightarrow> bool" where
  "console_only s t \<longleftrightarrow> (\<exists>u c p. t = set_console u c p s) \<and> crt_ok t"

definition prints :: "unit M \<Rightarrow> kernel \<Rightarrow> bool" where
  "prints m s \<longleftrightarrow> (\<exists>t. m s = Ok () t \<and> console_only s t)"

lemma set_console_id: "set_console (uart_out s) (crt s) (crt_pos s) s = s"
  by (simp add: set_console_def)

lemma set_console_twice [simp]: "set_console u c p (set_console u' c' p' s) = set_console u c p s"
  by (simp add: set_console_def)

lemma console_only_refl: "crt_ok s \<Longrightarrow> console_only s s"
  unfolding console_only_def using set_console_id by metis

lemma console_only_trans: "console_only s t \<Longrightarrow> console_only t u \<Longrightarrow> console_only s u"
  unfolding console_only_def by (metis set_console_twice)

lemma console_only_crt_ok: "console_only s t \<Longrightarrow> crt_ok t"
  by (simp add: console_only_def)

lemma console_only_fields [simp]:
  assumes "console_only s t"
  shows "kmem t = kmem s" "freelist t = freelist s" "held t = held s" "ptable t = ptable s"
    "cur t = cur s" "kend t = kend s" "use_lock t = use_lock s" "cons_locking t = cons_locking s"
  using assms by (auto simp: console_only_def set_console_def)

lemma console_onlyI:
  "length c = CRTSIZE \<Longrightarrow> p < 24 * 80 \<Longrightarrow> console_only s (s\<lparr>crt_pos := p, crt := c\<rparr>)"
  unfolding console_only_def
  by (intro conjI exI [of _ "uart_out s"] exI [of _ c] exI [of _ p]) (simp_all add: set_console_def crt_ok_def)

lemma prints_ret: "crt_ok s \<Longrightarrow> prints (ret ()) s"
  by (simp add: prints_def ret_def console_only_refl)

lemma prints_seq:
  assumes "prints m s" "\<And>t. console_only s t \<Longrightarrow> prints k t"
  shows "prints (seqM m k) s"
proof -
  obtain t where t: "m s = Ok () t" "console_only s t" using assms(1) by (auto simp: prints_def)
  then obtain u where "k t = Ok () u" "console_only t u" using assms(2) by (auto simp: prints_def)
  then have "seqM m k s = Ok () u" "console_only s u"
    using t console_only_trans [OF t(2)] by (simp_all add: seqM_def)
  then show ?thesis by (auto simp: prints_def)
qed

lemma prints_foreach:
  assumes "crt_ok s" "\<And>x t. console_only s t \<Longrightarrow> prints (f x) t"
  shows "prints (foreach xs f) s"
  using assms
proof (induction xs arbitrary: s)
  case Nil
  then show ?case by (simp add: prints_ret)
next
  case (Cons x xs)
  have "prints (foreach xs f) t" if "console_only s t" for t
    using that Cons.prems(2) by (intro Cons.IH) (blast intro: console_only_crt_ok console_only_trans)+
  then show ?case using Cons.prems console_only_refl by (auto intro!: prints_seq)
qed

lemma length_crt_scroll: "length c = CRTSIZE \<Longrightarrow> pos \<le> 24 * 80 \<Longrightarrow> length (crt_scroll pos c) = CRTSIZE"
  by (simp add: crt_scroll_def)

lemma prints_cgaputc:
  assumes "crt_ok s"
  shows "prints (cgaputc c) s"
proof -
  have p: "crt_pos s < 1920" "length (crt s) = 16384" using assms by (simp_all add: crt_ok_def)
  have nl: "crt_pos s + 80 - crt_pos s mod 80 \<le> 1920"
  proof -
    have "crt_pos s div 80 < 24" using p(1) by (simp add: div_less_iff_less_mult)
    then have "80 * (crt_pos s div 80) + 80 \<le> 1920" by simp
    then show ?thesis by (simp add: minus_mod_eq_mult_div [symmetric])
  qed
  have tail: "\<exists>t. cga_place pos r = Ok () t \<and> console_only s t"
    if "pos \<le> 1920" and r: "r = s\<lparr>crt := d\<rparr>" "length d = 16384" for pos r d
  proof (cases "pos div 80 \<ge> 24")
    case True
    then have "pos = 1920" using that(1) by (simp add: less_eq_div_iff_mult_less_eq)
    then show ?thesis using r length_crt_scroll [of d 1840]
      by (auto simp: monad_defs crt_put_def crt_ok_def cga_place_def intro!: console_onlyI)
  next
    case False
    then have "pos < 1920" by (simp add: not_le div_less_iff_less_mult)
    then show ?thesis using False r
      by (auto simp: monad_defs crt_put_def crt_ok_def cga_place_def intro!: console_onlyI)
  qed
  have tail_s: "\<exists>t. cga_place pos s = Ok () t \<and> console_only s t" if "pos \<le> 1920" for pos
    using tail [OF that, of s "crt s"] p(2) by simp
  show ?thesis
  proof (cases "c = 10 \<or> c = BACKSPACE")
    case True
    define q where "q = (if c = 10 then crt_pos s + 80 - crt_pos s mod 80 else crt_pos s - 1)"
    then have "cgaputc c s = cga_place q s"
      using True unfolding cgaputc_def by (auto simp: gets_def bindM_def ret_def)
    moreover have "q \<le> 1920" using nl p(1) unfolding q_def by auto
    ultimately show ?thesis using tail_s unfolding prints_def by simp
  next
    case False
    let ?d = "(crt s)[crt_pos s := word_of_int c AND 0xFF OR 0x0700]"
    have "cgaputc c s = cga_place (Suc (crt_pos s)) (s\<lparr>crt := ?d\<rparr>)"
      using p False by (simp add: crt_put_def monad_defs cgaputc_def)
    then show ?thesis using p tail [of "Suc (crt_pos s)" _ ?d] unfolding prints_def by simp
  qed
qed

lemma prints_uartputc:
  assumes "crt_ok s"
  shows "prints (uartputc c) s"
proof -
  have "uartputc c s = Ok () (set_console (uart_out s @ [word_of_int c]) (crt s) (crt_pos s) s)"
    by (simp add: uartputc_def modify_def set_console_def)
  moreover have "crt_ok (set_console u (crt s) (crt_pos s) s)" for u
    using assms by (simp add: set_console_def crt_ok_def)
  ultimately show ?thesis unfolding prints_def console_only_def by blast
qed

lemma prints_consputc: "crt_ok s \<Longrightarrow> prints (consputc c) s"
  unfolding consputc_def
  by (auto intro!: prints_seq prints_uartputc prints_cgaputc dest: console_only_crt_ok)

lemma prints_str: "crt_ok s \<Longrightarrow> prints (foreach xs (\<lambda>b. consputc (f b))) s"
  by (intro prints_foreach prints_consputc) (auto dest: console_only_crt_ok)

lemma prints_printint: "crt_ok s \<Longrightarrow> prints (printint x b sg) s"
  by (simp add: printint_def prints_str)

text \<open>A format and the arguments that fit it.\<close>

fun fmt_ok :: "byte list \<Rightarrow> carg list \<Rightarrow> bool" where
  "fmt_ok [] args = True"
| "fmt_ok (c # cs) args =
     (if c \<noteq> 37 then fmt_ok cs args else
      case cs of [] \<Rightarrow> True | d # ds \<Rightarrow>
      if d = 100 \<or> d = 120 \<or> d = 112 then (case args of CInt x # as \<Rightarrow> fmt_ok ds as | _ \<Rightarrow> False)
      else if d = 115 then (case args of CStr x # as \<Rightarrow> fmt_ok ds as | _ \<Rightarrow> False)
      else fmt_ok ds args)"

lemma prints_cprintf_loop:
  assumes "fmt_ok cs args" "crt_ok s"
  shows "prints (cprintf_loop cs args) s"
  using assms
proof (induction cs args arbitrary: s rule: fmt_ok.induct)
  case (1 args)
  then show ?case by (simp add: prints_ret)
next
  case (2 c cs args)
  have ok: "console_only r t \<Longrightarrow> crt_ok t" for r t by (rule console_only_crt_ok)
  show ?case
  proof (cases "c = 37")
    case False
    then show ?thesis using 2 ok by (auto intro!: prints_seq prints_consputc)
  next
    case True
    show ?thesis
    proof (cases cs)
      case Nil
      then show ?thesis using True 2(6) by (simp add: prints_ret)
    next
      case (Cons d ds)
      show ?thesis using True Cons 2 ok
        by (auto intro!: prints_seq prints_consputc prints_printint prints_str prints_ret
            split: list.splits carg.splits option.splits)
    qed
  qed
qed

lemma prints_held:
  assumes "prints m (s\<lparr>held := lk # held s\<rparr>)" "lk \<notin> set (held s)"
  shows "prints (seqM (acquire lk) (seqM m (release lk))) s"
proof -
  obtain u c p where t: "m (s\<lparr>held := lk # held s\<rparr>) = Ok () (set_console u c p (s\<lparr>held := lk # held s\<rparr>))"
    "crt_ok (set_console u c p (s\<lparr>held := lk # held s\<rparr>))"
    using assms(1) unfolding prints_def console_only_def by blast
  have "seqM (acquire lk) (seqM m (release lk)) s = Ok () (set_console u c p s)"
    using t(1) assms(2) by (simp add: seqM_def set_console_def)
  moreover have "crt_ok (set_console u c p s)" using t(2) by (simp add: crt_ok_def set_console_def)
  ultimately show ?thesis unfolding prints_def console_only_def by blast
qed

lemma seqM_ret [simp]: "seqM (ret x) m = m" "seqM m (ret ()) = m"
  by (auto simp: seqM_def bindM_def ret_def fun_eq_iff split: outcome.splits)

lemma prints_cprintf:
  assumes "fmt_ok (str fmt) args" "crt_ok s" "ConsLock \<notin> set (held s)"
  shows "prints (cprintf fmt args) s"
proof (cases "cons_locking s")
  case True
  have "prints (cprintf_loop (str fmt) args) (s\<lparr>held := ConsLock # held s\<rparr>)"
    using assms by (intro prints_cprintf_loop) (simp_all add: crt_ok_def)
  from prints_held [OF this assms(3)] show ?thesis
    using True by (simp add: cprintf_def prints_def gets_def bindM_def [of "\<lambda>s. Ok _ s"] whenM_def)
next
  case False
  then show ?thesis using prints_cprintf_loop [OF assms(1,2)]
    by (simp add: cprintf_def prints_def gets_def bindM_def [of "\<lambda>s. Ok _ s"] whenM_def)
qed

section \<open>Printed numbers\<close>

definition digit_val :: "byte \<Rightarrow> nat" where
  "digit_val b = (if b < 58 then unat b - 48 else unat b - 87)"

text \<open>The number that digits stand for, the last digit first.\<close>

definition num_val :: "nat \<Rightarrow> byte list \<Rightarrow> nat" where
  "num_val base ds = foldr (\<lambda>d acc. digit_val d + base * acc) ds 0"

lemma digit_val_digits: "d < 16 \<Longrightarrow> digit_val (digits d) = d"
proof -
  assume "d < 16"
  then have "d \<in> {0, 1, 2, 3, 4, 5, 6, 7, 8, 9, 10, 11, 12, 13, 14, 15}"
    unfolding insert_iff empty_iff by presburger
  then show ?thesis by (elim insertE emptyE) (simp_all add: digit_val_def digits_def)
qed

declare printint_loop.simps [simp del]

lemma num_val_printint_loop:
  assumes "2 \<le> base" "base \<le> 16"
  shows "num_val base (printint_loop x base) = x"
  using assms
proof (induction x base rule: printint_loop.induct)
  case (1 x base)
  have d: "digit_val (digits (x mod base)) = x mod base"
    using 1(2,3) by (intro digit_val_digits order_less_le_trans [OF mod_less_divisor]) simp_all
  show ?case
  proof (cases "x div base = 0")
    case True
    then show ?thesis using 1(2) d by (subst printint_loop.simps) (auto simp: num_val_def div_eq_0_iff)
  next
    case False
    then have "num_val base (printint_loop (x div base) base) = x div base" using 1 by simp
    then show ?thesis using False 1(2) d
      by (subst printint_loop.simps) (simp add: num_val_def)
  qed
qed

lemma length_printint_loop:
  assumes "x < base ^ k" "0 < k" "2 \<le> base"
  shows "length (printint_loop x base) \<le> k"
  using assms
proof (induction k arbitrary: x)
  case (Suc k)
  show ?case
  proof (cases "x div base = 0")
    case True
    then show ?thesis by (subst printint_loop.simps) simp
  next
    case False
    have d: "x div base < base ^ k"
      using Suc.prems(1,3) by (simp add: div_less_iff_less_mult mult.commute)
    with False have "0 < k" by (cases k) auto
    then have "length (printint_loop (x div base) base) \<le> k" using Suc.IH d Suc.prems(3) by simp
    then show ?thesis by (subst printint_loop.simps) simp
  qed
qed simp

section \<open>What reaches the serial line\<close>

lemma uart_cgaputc: "cgaputc c s = Ok () t \<Longrightarrow> uart_out t = uart_out s"
  by (auto simp: cgaputc_def cga_place_def crt_put_def monad_defs split: if_splits)

lemma uart_consputc: "consputc (uint (b :: byte)) s = Ok () t \<Longrightarrow> uart_out t = uart_out s @ [b]"
proof -
  assume a: "consputc (uint b) s = Ok () t"
  have "uint b < 256" using uint_bounded [of b] by simp
  then have "cgaputc (uint b) (s\<lparr>uart_out := uart_out s @ [b]\<rparr>) = Ok () t"
    using a by (simp add: consputc_def uartputc_def seqM_def bindM_def modify_def)
  then show ?thesis using uart_cgaputc by fastforce
qed

lemma uart_str: "foreach bs (\<lambda>b. consputc (uint (b :: byte))) s = Ok () t \<Longrightarrow> uart_out t = uart_out s @ bs"
  by (induction bs arbitrary: s) (auto simp: ret_def elim!: seqM_OkE dest!: uart_consputc)

lemma num_val_signed:
  assumes "base = 10 \<or> base = 16"
  shows "num_val (unat base) (printint_loop (unat (x :: uint)) (unat (base :: uint))) = unat x"
    "length (printint_loop (unat x) (unat base)) \<le> 10"
proof -
  have x: "unat x < 2 ^ 32" using unsigned_less [of x] by simp
  show "num_val (unat base) (printint_loop (unat x) (unat base)) = unat x"
    using assms by (intro num_val_printint_loop) auto
  show "length (printint_loop (unat x) (unat base)) \<le> 10"
    using assms x by (intro length_printint_loop) auto
qed



text \<open>
  cprintf with a format and arguments that fit it always returns, whatever the position of
  the cursor: it never writes outside the screen memory, never reaches the panic on the cursor
  position, leaves the cursor on the screen, and changes nothing but the console.
\<close>

theorem cprintf_stays_on_screen:
  assumes "fmt_ok (str fmt) args" "crt_ok s" "ConsLock \<notin> set (held s)"
  shows "\<exists>u c p. cprintf fmt args s = Ok () (s\<lparr>uart_out := u, crt := c, crt_pos := p\<rparr>) \<and>
    length c = CRTSIZE \<and> p < 24 * 80"
proof -
  obtain u c p where "cprintf fmt args s = Ok () (set_console u c p s)" "crt_ok (set_console u c p s)"
    using prints_cprintf [OF assms] unfolding prints_def console_only_def by blast
  moreover from this(2) have "length c = CRTSIZE \<and> p < 24 * 80" by (simp add: set_console_def crt_ok_def)
  ultimately show ?thesis unfolding set_console_def by blast
qed

theorem cprintf_stays_on_screen_witness:
  "\<exists>u c p. cprintf ''%d:%s'' [CInt 5, CStr None] (static_data 0 0 (\<lambda>_. []) 0) =
     Ok () ((static_data 0 0 (\<lambda>_. []) 0)\<lparr>uart_out := u, crt := c, crt_pos := p\<rparr>) \<and>
     length c = CRTSIZE \<and> p < 24 * 80"
proof (rule cprintf_stays_on_screen)
  show "fmt_ok (str ''%d:%s'') [CInt 5, CStr None]" by (simp add: str_def of_char_def)
qed (simp_all add: static_data_def crt_ok_def)

end
