(* ===== verification/Pages.thy ===== *)
theory Pages
  imports Cons
begin

text \<open>
  Arithmetic of page addresses: rounding to page boundaries, the page directory and page table
  indices of an address (the macros of mmu.h), and the pages as disjoint ranges of memory.
\<close>

lemma word32_bound: "unat x < 4294967296" for x :: uint
  using unsigned_less [of x, where ?'a = nat] by simp

lemma unat_mod_4096: "unat (x mod 4096) = unat x mod 4096" for x :: uint
  by (simp add: unat_mod)

lemma mod_4096_0_iff: "x mod 4096 = 0 \<longleftrightarrow> unat x mod 4096 = 0" for x :: uint
  by (simp add: unat_mod_4096 [symmetric] unat_eq_0)

text \<open>The number of pages of an address space, which bounds the loops over pages.\<close>

definition NPAGES :: nat where
  "NPAGES = 2 ^ 20"

definition page_aligned :: "uint \<Rightarrow> bool" where
  "page_aligned p \<longleftrightarrow> p mod PGSIZE = 0"

lemma page_aligned_unat: "page_aligned x \<longleftrightarrow> unat x mod 4096 = 0"
  by (simp add: page_aligned_def mod_4096_0_iff)

lemma PGROUNDDOWN_eq: "PGROUNDDOWN x = x - x mod PGSIZE"
proof -
  have "PGROUNDDOWN x = x AND NOT (mask 12)" by (simp add: PGROUNDDOWN_def mask_eq_exp_minus_1)
  also have "\<dots> = push_bit 12 (drop_bit 12 x)" by (rule bit_word_eqI) (auto simp: bit_simps)
  also have "\<dots> = x - take_bit 12 x" using bits_ident [of 12 x] by (simp add: eq_diff_eq)
  finally show ?thesis by (simp add: take_bit_eq_mod)
qed

lemma unat_PGROUNDDOWN [addr_simps]: "unat (PGROUNDDOWN x) = unat x - unat x mod 4096"
proof -
  have "x mod PGSIZE \<le> x" by (simp add: word_le_nat_alt unat_mod_4096)
  then show ?thesis by (simp add: PGROUNDDOWN_eq unat_sub unat_mod_4096)
qed

lemma PGROUNDDOWN_aligned [simp]: "page_aligned (PGROUNDDOWN x)"
  by (simp add: page_aligned_unat unat_PGROUNDDOWN minus_mod_eq_mult_div)

lemma PGROUNDDOWN_le: "PGROUNDDOWN x \<le> x"
  by (simp add: word_le_nat_alt unat_PGROUNDDOWN)

lemma PGROUNDDOWN_id [simp]: "page_aligned x \<Longrightarrow> PGROUNDDOWN x = x"
  by (simp add: PGROUNDDOWN_eq page_aligned_def)

lemma PGROUNDUP_eq: "PGROUNDUP x = PGROUNDDOWN (x + (PGSIZE - 1))"
  by (simp add: PGROUNDUP_def PGROUNDDOWN_def add.commute)

lemma PGROUNDUP_aligned [simp]: "page_aligned (PGROUNDUP x)"
  by (simp add: PGROUNDUP_eq)

lemma unat_PGROUNDUP [addr_simps]:
  assumes "unat x \<le> 4294963200"
  shows "unat (PGROUNDUP x) = (unat x + 4095) div 4096 * 4096"
proof -
  have "unat (x + 4095) = unat x + 4095" using assms unat_add_lem [of x 4095] by simp
  then show ?thesis by (simp add: PGROUNDUP_eq unat_PGROUNDDOWN minus_mod_eq_div_mult)
qed

lemma unat_PGROUNDUP_ge:
  assumes "unat x \<le> 4294963200"
  shows "unat x \<le> unat (PGROUNDUP x)"
  using assms dividend_less_times_div [of 4096 "unat x + 4095"] by (simp add: unat_PGROUNDUP)

lemma unat_times_4 [addr_simps]: "k < 1024 \<Longrightarrow> unat (4 * k) = 4 * unat k" for k :: uint
  using unat_mult_lem [of 4 k] by (simp add: word_less_nat_alt)

section \<open>Pages as ranges\<close>

definition in_page :: "ptr \<Rightarrow> ptr \<Rightarrow> bool" where
  "in_page p x \<longleftrightarrow> in_range p PGSIZE x"

lemma page_no_wrap:
  fixes a b :: nat
  assumes "a mod 4096 = 0" "b < 4096" "a < 4294967296"
  shows "a + b < 4294967296"
proof -
  obtain q where "a = 4096 * q" using assms(1) by (auto simp: mod_eq_0_iff_dvd dvd_def)
  moreover from this assms(3) have "q < 1048576" by simp
  ultimately show ?thesis using assms(2) by linarith
qed

lemma in_page_unat:
  fixes p x :: ptr
  assumes "page_aligned p" "in_page p x"
  shows "unat x = unat p + unat (x - p)" "unat (x - p) < 4096"
proof -
  have p: "unat p mod 4096 = 0" using assms(1) by (simp add: page_aligned_unat)
  show o: "unat (x - p) < 4096" using assms(2) by (simp add: in_page_def in_range_def word_less_nat_alt)
  have "unat p + unat (x - p) < 4294967296" using p o word32_bound [of p] by (rule page_no_wrap)
  then have "unat (p + (x - p)) = unat p + unat (x - p)" using unat_add_lem [of p "x - p"] by simp
  then show "unat x = unat p + unat (x - p)" by simp
qed

lemma in_page_eq:
  assumes "page_aligned p" "in_page p x"
  shows "p = PGROUNDDOWN x"
proof -
  have "unat p mod 4096 = 0" using assms(1) by (simp add: page_aligned_unat)
  with in_page_unat [OF assms] have "unat x mod 4096 = unat (x - p)" by (simp add: mod_add_left_eq [symmetric])
  then have "unat p = unat x - unat x mod 4096" using in_page_unat(1) [OF assms] by simp
  then show ?thesis by (simp add: word_unat_eq_iff unat_PGROUNDDOWN)
qed

lemma in_page_disjoint:
  assumes "page_aligned p" "page_aligned q" "p \<noteq> q" "in_page p x"
  shows "\<not> in_page q x"
  using in_page_eq [OF assms(1)] in_page_eq [OF assms(2)] assms(3,4) by blast

lemma in_page_add:
  assumes "i < PGSIZE"
  shows "in_page p (p + i)"
  using assms by (simp add: in_page_def in_range_def)

lemma page_aligned4:
  assumes "page_aligned p" "unat i mod 4 = 0" "i < PGSIZE"
  shows "aligned4 (p + i)"
proof -
  have "unat (p + i) = unat p + unat i"
    using in_page_unat(1) [OF assms(1) in_page_add [OF assms(3)]] by simp
  moreover have "4 dvd unat p"
    using assms(1) dvd_trans [of 4 4096 "unat p"] by (simp add: page_aligned_unat mod_eq_0_iff_dvd)
  ultimately show ?thesis using assms(2) by (simp add: aligned4_def mod_eq_0_iff_dvd)
qed

lemma load32_cong:
  assumes "m' a = m a" "m' (a + 1) = m (a + 1)" "m' (a + 2) = m (a + 2)" "m' (a + 3) = m (a + 3)"
  shows "load32 m' a = load32 m a"
  using assms by (simp add: load32_def)

text \<open>The \<open>k\<close>th word of a page, as the page tables and the free list use it.\<close>

lemma word_in_page:
  assumes "page_aligned p" "k < 1024" "i < 4"
  shows "in_page p (p + 4 * k + i)"
proof -
  have "4 * k + i < PGSIZE"
  proof -
    have k: "unat k < 1024" "unat i < 4" using assms(2,3) by (simp_all add: word_less_nat_alt)
    have u: "unat (4 * k) = 4 * unat k" using assms(2) by (rule unat_times_4)
    then have "unat (4 * k + i) = unat (4 * k) + unat i"
      using k unat_add_lem [of "4 * k" i] by simp
    then show ?thesis using k u by (simp add: word_less_nat_alt)
  qed
  then show ?thesis using in_page_add [of "4 * k + i" p] by (simp add: add.assoc)
qed

lemma load32_page_cong:
  assumes "page_aligned p" "k < 1024" "\<And>x. in_page p x \<Longrightarrow> m' x = m x"
  shows "load32 m' (p + 4 * k) = load32 m (p + 4 * k)"
proof (rule load32_cong)
  show "m' (p + 4 * k) = m (p + 4 * k)"
    using assms(3) word_in_page [OF assms(1,2), of 0] by simp
  show "m' (p + 4 * k + 1) = m (p + 4 * k + 1)"
    using assms(3) word_in_page [OF assms(1,2), of 1] by simp
  show "m' (p + 4 * k + 2) = m (p + 4 * k + 2)"
    using assms(3) word_in_page [OF assms(1,2), of 2] by simp
  show "m' (p + 4 * k + 3) = m (p + 4 * k + 3)"
    using assms(3) word_in_page [OF assms(1,2), of 3] by simp
qed

lemma store32_page_frame:
  assumes "page_aligned p" "k < 1024" "\<not> in_page p x"
  shows "store32 m (p + 4 * k) v x = m x"
proof (rule store32_frame)
  show "\<not> x - (p + 4 * k) < 4"
  proof
    assume "x - (p + 4 * k) < 4"
    then have "in_page p (p + 4 * k + (x - (p + 4 * k)))" by (rule word_in_page [OF assms(1,2)])
    then show False using assms(3) by simp
  qed
qed

lemma page_word_aligned:
  assumes "page_aligned p" "k < 1024"
  shows "aligned4 (p + 4 * k)"
proof -
  have k: "unat k < 1024" using assms(2) by (simp add: word_less_nat_alt)
  have u: "unat (4 * k) = 4 * unat k" using assms(2) by (rule unat_times_4)
  have a: "unat (4 * k) mod 4 = 0" unfolding u by simp
  have b: "4 * k < PGSIZE" using k unfolding word_less_nat_alt u by simp
  show ?thesis by (rule page_aligned4 [OF assms(1) a b])
qed

lemma page_word_inj:
  fixes k l :: uint
  assumes "k < 1024" "l < 1024" "p + 4 * k = p + 4 * l"
  shows "k = l"
proof -
  have "4 * k = 4 * l" using assms(3) by simp
  then have "4 * unat k = 4 * unat l"
    unfolding unat_times_4 [OF assms(1), symmetric] unat_times_4 [OF assms(2), symmetric] by simp
  then show ?thesis by (simp add: word_unat_eq_iff)
qed

section \<open>Offsets and indices\<close>

lemma page_offset: "unat (x - PGROUNDDOWN x) = unat x mod 4096"
proof -
  have "x - PGROUNDDOWN x = x mod PGSIZE" by (simp add: PGROUNDDOWN_eq)
  then show ?thesis by (simp add: unat_mod_4096)
qed

lemma page_offset_less: "x - PGROUNDDOWN x < PGSIZE"
  by (simp add: word_less_nat_alt page_offset)

lemma unat_page_rest: "unat (PGSIZE - (x - PGROUNDDOWN x)) = 4096 - unat x mod 4096"
  using page_offset_less [of x] by (simp add: unat_sub page_offset less_imp_le)

lemma V2P_P2V [simp]: "V2P (P2V x) = x"
  by (simp add: V2P_def P2V_def)

lemma P2V_V2P [simp]: "P2V (V2P x) = x"
  by (simp add: V2P_def P2V_def)

lemma PDX_take: "PDX va = take_bit 10 (drop_bit 22 va)"
  by (simp add: PDX_def take_bit_eq_mask mask_eq_exp_minus_1)

lemma PTX_take: "PTX va = take_bit 10 (drop_bit 12 va)"
  by (simp add: PTX_def take_bit_eq_mask mask_eq_exp_minus_1)

lemma PDX_less: "PDX va < 1024"
  unfolding PDX_take by (simp add: take_bit_eq_mod word_less_nat_alt unat_mod)

lemma PTX_less: "PTX va < 1024"
  unfolding PTX_take by (simp add: take_bit_eq_mod word_less_nat_alt unat_mod)

lemma page_aligned_bits: "page_aligned x \<longleftrightarrow> x = push_bit 12 (drop_bit 12 x)"
proof -
  have t: "x mod PGSIZE = take_bit 12 x" by (simp add: take_bit_eq_mod)
  have i: "x = push_bit 12 (drop_bit 12 x) + take_bit 12 x" by (simp only: bits_ident)
  show ?thesis unfolding page_aligned_def t using i by (metis add.right_neutral add_left_cancel)
qed

lemma page_aligned_bit: "page_aligned x \<Longrightarrow> n < 12 \<Longrightarrow> \<not> bit x n"
  by (subst (asm) page_aligned_bits, erule ssubst) (simp add: bit_simps)

lemma PDX_PTX_inj:
  assumes "page_aligned a" "page_aligned b" "PDX a = PDX b" "PTX a = PTX b"
  shows "a = b"
proof (rule bit_word_eqI)
  fix n assume n: "n < LENGTH(32)"
  have pd: "bit a (22 + i) = bit b (22 + i)" if "i < 10" for i
    using arg_cong [OF assms(3), of "\<lambda>w. bit w i"] that unfolding PDX_take by (simp add: bit_simps)
  have pt: "bit a (12 + i) = bit b (12 + i)" if "i < 10" for i
    using arg_cong [OF assms(4), of "\<lambda>w. bit w i"] that unfolding PTX_take by (simp add: bit_simps)
  consider "n < 12" | "12 \<le> n" "n < 22" | "22 \<le> n" "n < 32" using n by fastforce
  then show "bit a n = bit b n"
  proof cases
    case 1
    then show ?thesis using page_aligned_bit assms(1,2) by blast
  next
    case 2
    then show ?thesis using pt [of "n - 12"] by simp
  next
    case 3
    then show ?thesis using pd [of "n - 22"] by simp
  qed
qed

lemma PTE_ADDR_aligned [simp]: "page_aligned (PTE_ADDR x)"
  using PGROUNDDOWN_aligned [of x] by (simp add: PTE_ADDR_def PGROUNDDOWN_def)

lemma P2V_aligned [simp]: "page_aligned (P2V x) = page_aligned x"
proof -
  have d: "(4096 :: nat) dvd 4294967296" by simp
  have "unat (x + 2147483648) = (unat x + 4096 * 524288) mod 4294967296"
    by (simp add: unat_word_ariths)
  then have "unat (x + 2147483648) mod 4096 = unat x mod 4096"
    by (simp only: mod_mod_cancel [OF d] mod_mult_self2)
  then show ?thesis by (simp add: P2V_def page_aligned_unat)
qed

lemma V2P_aligned [simp]: "page_aligned (V2P x) = page_aligned x"
  using P2V_aligned [of "V2P x"] by simp

lemma PTE_ADDR_flags:
  assumes "page_aligned p" "\<And>n. n \<ge> 12 \<Longrightarrow> \<not> bit f n"
  shows "PTE_ADDR (p OR f) = p"
proof (rule bit_word_eqI)
  fix n assume n: "n < LENGTH(32)"
  have "(0xFFF :: uint) = mask 12" by (simp add: mask_eq_exp_minus_1)
  then have "PTE_ADDR (p OR f) = (p OR f) AND NOT (mask 12)" unfolding PTE_ADDR_def by simp
  then show "bit (PTE_ADDR (p OR f)) n = bit p n"
    using n assms page_aligned_bit [of p n] by (cases "n < 12") (auto simp: bit_simps)
qed

lemma load_store_word:
  assumes "page_aligned p" "page_aligned q" "k < 1024" "l < 1024"
  shows "load32 (store32 m (p + 4 * k) v) (q + 4 * l) = (if p = q \<and> k = l then v else load32 m (q + 4 * l))"
proof (cases "p = q \<and> k = l")
  case False
  have "p + 4 * k \<noteq> q + 4 * l"
  proof
    assume e: "p + 4 * k = q + 4 * l"
    have "in_page p (p + 4 * k)" "in_page q (q + 4 * l)"
      using word_in_page [OF assms(1,3), of 0] word_in_page [OF assms(2,4), of 0] by simp_all
    then have "p = q" using e in_page_eq [OF assms(1)] in_page_eq [OF assms(2)] by metis
    then show False using False e page_word_inj [OF assms(3,4)] by blast
  qed
  then show ?thesis
    using False load32_store32_other page_word_aligned [OF assms(1,3)] page_word_aligned [OF assms(2,4)]
    by auto
qed simp

lemma load_fill_word:
  assumes "page_aligned p" "page_aligned q" "l < 1024"
  shows "load32 (set_range m p PGSIZE 0) (q + 4 * l) = (if p = q then 0 else load32 m (q + 4 * l))"
proof (cases "p = q")
  case True
  have "set_range m p PGSIZE 0 (q + 4 * l + i) = 0" if "i < 4" for i
    using word_in_page [OF assms(2,3) that] True by (simp add: set_range_def in_page_def)
  from this [of 0] this [of 1] this [of 2] this [of 3] show ?thesis
    using True by (simp add: load32_def)
next
  case False
  have "load32 (set_range m p PGSIZE 0) (q + 4 * l) = load32 m (q + 4 * l)"
  proof (rule load32_page_cong [OF assms(2,3)])
    show "set_range m p PGSIZE 0 x = m x" if "in_page q x" for x
      using in_page_disjoint [OF assms(2,1) _ that] False by (auto simp: set_range_def in_page_def)
  qed
  then show ?thesis using False by simp
qed

lemma page_word_nonzero:
  assumes "page_aligned p" "p \<noteq> 0" "k < 1024"
  shows "p + 4 * k \<noteq> 0"
proof -
  have "in_page p (p + 4 * k)" using word_in_page [OF assms(1,3), of 0] by simp
  from in_page_unat(1) [OF assms(1) this] have "unat (p + 4 * k) \<ge> unat p" by simp
  then show ?thesis using assms(2) by (auto simp: word_unat_eq_iff)
qed

lemma unat_PDX: "unat (PDX a) = unat a div 4194304"
proof -
  have "unat (PDX a) = unat a div 4194304 mod 1024"
    unfolding PDX_take by (simp add: take_bit_eq_mod unat_mod drop_bit_eq_div unat_div)
  moreover have "unat a div 4194304 < 1024" using word32_bound [of a] by (simp add: div_less_iff_less_mult)
  ultimately show ?thesis by simp
qed

text \<open>The first address behind the page table that maps \<open>a\<close>.\<close>

lemma unat_next_table:
  assumes "a < KERNBASE"
  shows "unat (PGADDR (PDX a + 1) 0 0) = (unat a div 4194304 + 1) * 4194304"
proof -
  have b: "unat a div 4194304 < 512" using assms by (simp add: word_less_nat_alt div_less_iff_less_mult)
  have u: "unat (PDX a + 1) = unat a div 4194304 + 1"
    using b unat_add_lem [of "PDX a" 1] by (simp add: unat_PDX)
  have p: "PGADDR (PDX a + 1) 0 0 = (PDX a + 1) * 4194304" by (simp add: PGADDR_def push_bit_eq_mult)
  have "(unat a div 4194304 + 1) * 4194304 \<le> 512 * 4194304" using b by (intro mult_right_mono) simp_all
  then have "unat (PDX a + 1) * unat (4194304 :: uint) < 2 ^ LENGTH(32)" unfolding u by simp
  then have "unat ((PDX a + 1) * 4194304) = unat (PDX a + 1) * unat (4194304 :: uint)"
    using unat_mult_lem [of "PDX a + 1" 4194304] by simp
  then show ?thesis unfolding p u by simp
qed

lemma next_table_aligned: "page_aligned (PGADDR d 0 0)"
proof -
  have "PGADDR d 0 0 = push_bit 12 (push_bit 10 d)" by (simp add: PGADDR_def)
  then have "PGADDR d 0 0 = push_bit 12 (drop_bit 12 (PGADDR d 0 0))"
    by (intro bit_word_eqI) (auto simp: bit_simps)
  then show ?thesis by (simp only: page_aligned_bits)
qed

lemma same_table:
  assumes "a < KERNBASE" "a \<le> b" "b < PGADDR (PDX a + 1) 0 0"
  shows "PDX b = PDX a"
proof -
  have "unat b < (unat a div 4194304 + 1) * 4194304" "unat a \<le> unat b"
    using assms(2,3) unat_next_table [OF assms(1)] by (simp_all add: word_less_nat_alt word_le_nat_alt)
  then have "unat b div 4194304 < unat a div 4194304 + 1" "unat a div 4194304 \<le> unat b div 4194304"
    by (simp_all add: div_less_iff_less_mult div_le_mono)
  then show ?thesis by (simp add: word_unat_eq_iff unat_PDX)
qed

end
