(* ===== verification/Kalloc.thy ===== *)
theory Kalloc
  imports Pages
begin

text \<open>
  The physical page allocator (kalloc.c).  Free pages form a list threaded through the pages
  themselves: the first word of a free page holds the kernel address of the next one.  The
  locale \<open>page_allocator\<close> states what the rest of the kernel relies on; kalloc and kfree
  provide it.
\<close>

section \<open>Operations\<close>

definition kfree :: "ptr \<Rightarrow> unit M" where
  "kfree v = (\<lambda>s.
     if v mod PGSIZE \<noteq> 0 \<or> v < kend s \<or> V2P v \<ge> PHYSTOP then Panic ''kfree'' else
     (seqM (modify (\<lambda>s. s\<lparr>kmem := memset (kmem s) v 1 PGSIZE\<rparr>))
     (seqM (whenM (use_lock s) (acquire KmemLock))
     (seqM (modify (\<lambda>s. s\<lparr>kmem := store32 (kmem s) v (freelist s), freelist := v\<rparr>))
     (whenM (use_lock s) (release KmemLock))))) s)"

definition kalloc :: "ptr M" where
  "kalloc = (\<lambda>s.
     seqM (whenM (use_lock s) (acquire KmemLock))
    (bindM (gets freelist) (\<lambda>r.
     seqM (whenM (r \<noteq> 0) (modify (\<lambda>s. s\<lparr>freelist := load32 (kmem s) r\<rparr>)))
    (seqM (whenM (use_lock s) (release KmemLock))
    (ret r)))) s)"

text \<open>The loop of freerange; there are \<open>2 ^ 20\<close> pages, so \<open>2 ^ 20\<close> rounds are enough.\<close>

fun freerange_loop :: "nat \<Rightarrow> ptr \<Rightarrow> ptr \<Rightarrow> unit M" where
  "freerange_loop 0 p vend = fault ''fuel''"
| "freerange_loop (Suc n) p vend =
     (if p + PGSIZE \<le> vend then seqM (kfree p) (freerange_loop n (p + PGSIZE) vend) else ret ())"

definition freerange :: "ptr \<Rightarrow> ptr \<Rightarrow> unit M" where
  "freerange vstart vend = freerange_loop (2 ^ 20 + 1) (PGROUNDUP vstart) vend"

definition kinit1 :: "ptr \<Rightarrow> ptr \<Rightarrow> unit M" where
  "kinit1 vstart vend = seqM (modify (\<lambda>s. s\<lparr>use_lock := False\<rparr>)) (freerange vstart vend)"

definition kinit2 :: "ptr \<Rightarrow> ptr \<Rightarrow> unit M" where
  "kinit2 vstart vend = seqM (freerange vstart vend) (modify (\<lambda>s. s\<lparr>use_lock := True\<rparr>))"

section \<open>The free list\<close>

fun free_path :: "mem \<Rightarrow> ptr \<Rightarrow> ptr list \<Rightarrow> bool" where
  "free_path m p [] = (p = 0)"
| "free_path m p (x # xs) = (p = x \<and> x \<noteq> 0 \<and> free_path m (load32 m x) xs)"

text \<open>A page the allocator may hold: aligned, behind the kernel image, inside physical memory.\<close>

definition page_ok :: "kernel \<Rightarrow> ptr \<Rightarrow> bool" where
  "page_ok s v \<longleftrightarrow> page_aligned v \<and> \<not> v < kend s \<and> V2P v < PHYSTOP"

text \<open>
  The allocator's invariant, with the list of the free pages.  Every free page is a proper
  page and occurs once; the kernel image ends above the first page of kernel memory, so no
  free page is at address 0.  The kernel's own lock is free.
\<close>

definition kmem_inv :: "kernel \<Rightarrow> ptr list \<Rightarrow> bool" where
  "kmem_inv s xs \<longleftrightarrow> free_path (kmem s) (freelist s) xs \<and> distinct xs
     \<and> (\<forall>x \<in> set xs. page_ok s x) \<and> KERNBASE < kend s \<and> KmemLock \<notin> set (held s)"

lemma free_path_cong:
  "(\<And>x. x \<in> set xs \<Longrightarrow> load32 m' x = load32 m x) \<Longrightarrow> free_path m' p xs = free_path m p xs"
  by (induction xs arbitrary: p) auto

lemma page_ok_aligned: "page_ok s v \<Longrightarrow> page_aligned v"
  by (simp add: page_ok_def)

lemma page_ok_nonzero: "page_ok s v \<Longrightarrow> KERNBASE < kend s \<Longrightarrow> v \<noteq> 0"
  by (auto simp: page_ok_def not_less)

lemma load32_page_head:
  assumes "page_aligned p" "\<And>x. in_page p x \<Longrightarrow> m' x = m x"
  shows "load32 m' p = load32 m p"
  using load32_page_cong [OF assms(1) _ assms(2), of 0] by simp

lemma kfree_eq:
  assumes "page_ok s v" "KmemLock \<notin> set (held s)"
  shows "kfree v s = Ok () (s\<lparr>kmem := store32 (set_range (kmem s) v PGSIZE 1) v (freelist s), freelist := v\<rparr>)"
  using assms by (simp add: kfree_def page_ok_def page_aligned_def not_le seqM_def whenM_def modify_def memset_eq_set_range ret_def bindM_def)

lemma kfree_bad: "\<not> page_ok s v \<Longrightarrow> kfree v s = Panic ''kfree''"
  unfolding kfree_def page_ok_def page_aligned_def not_less by (intro if_P) (meson not_le)

lemma kalloc_eq:
  assumes "KmemLock \<notin> set (held s)"
  shows "kalloc s = Ok (freelist s) (if freelist s = 0 then s else s\<lparr>freelist := load32 (kmem s) (freelist s)\<rparr>)"
  using assms by (auto simp: kalloc_def seqM_def whenM_def modify_def gets_def ret_def bindM_def)

text \<open>Freeing a page that is not free puts it at the head of the list and fills it with junk.\<close>

lemma kfree_inv:
  assumes inv: "kmem_inv s xs" and v: "page_ok s v" "v \<notin> set xs"
  obtains m where "kfree v s = Ok () (s\<lparr>kmem := m, freelist := v\<rparr>)"
    "kmem_inv (s\<lparr>kmem := m, freelist := v\<rparr>) (v # xs)"
    "\<And>x. \<not> in_page v x \<Longrightarrow> m x = kmem s x"
proof -
  let ?m = "store32 (set_range (kmem s) v PGSIZE 1) v (freelist s)"
  let ?t = "s\<lparr>kmem := ?m, freelist := v\<rparr>"
  have frame: "?m x = kmem s x" if "\<not> in_page v x" for x
    using store32_page_frame [OF page_ok_aligned [OF v(1)], of 0 x] that
    by (simp add: set_range_def in_page_def)
  have "load32 ?m x = load32 (kmem s) x" if "x \<in> set xs" for x
  proof (rule load32_page_head)
    show "page_aligned x" using inv that by (auto simp: kmem_inv_def page_ok_def)
    show "?m y = kmem s y" if "in_page x y" for y
    proof (rule frame)
      have "x \<noteq> v" using \<open>x \<in> set xs\<close> v(2) by blast
      then show "\<not> in_page v y"
        by (rule in_page_disjoint [OF \<open>page_aligned x\<close> page_ok_aligned [OF v(1)] _ that])
    qed
  qed
  then have "free_path ?m (freelist s) xs"
    using inv by (simp add: kmem_inv_def cong: free_path_cong)
  then have "kmem_inv ?t (v # xs)"
    using inv v page_ok_nonzero [OF v(1)] by (auto simp: kmem_inv_def page_ok_def)
  moreover have "kfree v s = Ok () ?t"
    using inv v(1) by (simp add: kfree_eq kmem_inv_def)
  ultimately show ?thesis using that [of ?m] frame by simp
qed

lemma kalloc_inv_Nil:
  assumes "kmem_inv s []"
  shows "kalloc s = Ok 0 s"
  using assms by (simp add: kmem_inv_def kalloc_eq)

lemma kalloc_inv_Cons:
  assumes "kmem_inv s (x # xs)"
  shows "kalloc s = Ok x (s\<lparr>freelist := load32 (kmem s) x\<rparr>)"
    and "kmem_inv (s\<lparr>freelist := load32 (kmem s) x\<rparr>) xs"
  using assms by (auto simp: kmem_inv_def kalloc_eq page_ok_def)
section \<open>freerange\<close>

definition page_list :: "ptr \<Rightarrow> nat \<Rightarrow> ptr list" where
  "page_list p n = map (\<lambda>i. p + of_nat i * PGSIZE) [0..<n]"

lemma page_list_0 [simp]: "page_list p 0 = []"
  by (simp add: page_list_def)

lemma page_list_Suc: "page_list p (Suc n) = p # page_list (p + PGSIZE) n"
  by (simp add: page_list_def upt_conv_Cons map_Suc_upt [symmetric] algebra_simps del: upt_Suc)

lemma page_ok_frame [simp]:
  "page_ok (s\<lparr>kmem := m\<rparr>) v = page_ok s v"
  "page_ok (s\<lparr>freelist := f\<rparr>) v = page_ok s v"
  "page_ok (s\<lparr>held := h\<rparr>) v = page_ok s v"
  by (simp_all add: page_ok_def)

text \<open>
  The loop frees every page of the range in turn and then stops; the fuel is the number of
  pages and one more for the last test.
\<close>

lemma freerange_loop_ok:
  assumes "kmem_inv s xs" "n < fuel" "unat p + 4096 * n \<le> unat vend" "unat vend < unat p + 4096 * n + 4096"
    "unat vend + 4096 < 4294967296"
    "\<And>v. v \<in> set (page_list p n) \<Longrightarrow> page_ok s v" "distinct (page_list p n)"
    "set (page_list p n) \<inter> set xs = {}"
  shows "\<exists>m f. freerange_loop fuel p vend s = Ok () (s\<lparr>kmem := m, freelist := f\<rparr>)
    \<and> kmem_inv (s\<lparr>kmem := m, freelist := f\<rparr>) (rev (page_list p n) @ xs)
    \<and> (\<forall>x. (\<forall>v\<in>set (page_list p n). \<not> in_page v x) \<longrightarrow> m x = kmem s x)"
  using assms
proof (induction n arbitrary: s xs p fuel)
  case 0
  have "unat (p + PGSIZE) = unat p + 4096" using 0 unat_add_lem [of p PGSIZE] by simp
  then have "\<not> p + PGSIZE \<le> vend" using 0 by (simp add: word_le_nat_alt)
  then show ?case using 0 by (cases fuel) (auto simp: ret_def intro!: exI [of _ "kmem s"] exI [of _ "freelist s"])
next
  case (Suc n)
  obtain f where f: "fuel = Suc f" using Suc.prems(2) by (cases fuel) auto
  have u: "unat (p + PGSIZE) = unat p + 4096" using Suc.prems(3,5) unat_add_lem [of p PGSIZE] by simp
  have le: "p + PGSIZE \<le> vend" using u Suc.prems(3) by (simp add: word_le_nat_alt)
  have ok: "page_ok s p" "p \<notin> set xs" using Suc.prems by (auto simp: page_list_Suc)
  obtain m where m: "kfree p s = Ok () (s\<lparr>kmem := m, freelist := p\<rparr>)" "kmem_inv (s\<lparr>kmem := m, freelist := p\<rparr>) (p # xs)"
    "\<And>x. \<not> in_page p x \<Longrightarrow> m x = kmem s x"
    using kfree_inv [OF Suc.prems(1) ok] by blast
  have "\<exists>m' f'. freerange_loop f (p + PGSIZE) vend (s\<lparr>kmem := m, freelist := p\<rparr>)
        = Ok () (s\<lparr>kmem := m, freelist := p\<rparr>\<lparr>kmem := m', freelist := f'\<rparr>)
      \<and> kmem_inv (s\<lparr>kmem := m, freelist := p\<rparr>\<lparr>kmem := m', freelist := f'\<rparr>) (rev (page_list (p + PGSIZE) n) @ (p # xs))
      \<and> (\<forall>x. (\<forall>v\<in>set (page_list (p + PGSIZE) n). \<not> in_page v x) \<longrightarrow> m' x = kmem (s\<lparr>kmem := m, freelist := p\<rparr>) x)"
    by (rule Suc.IH) (use Suc.prems u f m(2) in \<open>auto simp: page_list_Suc\<close>)
  then obtain m' f' where r: "freerange_loop f (p + PGSIZE) vend (s\<lparr>kmem := m, freelist := p\<rparr>) = Ok () (s\<lparr>kmem := m', freelist := f'\<rparr>)"
    "kmem_inv (s\<lparr>kmem := m', freelist := f'\<rparr>) (rev (page_list (p + PGSIZE) n) @ (p # xs))"
    "\<forall>x. (\<forall>v\<in>set (page_list (p + PGSIZE) n). \<not> in_page v x) \<longrightarrow> m' x = m x" by auto
  then show ?case using f le m(1,3) by (intro exI [of _ m'] exI [of _ f']) (simp add: seqM_def page_list_Suc)
qed

lemma page_list_nth:
  assumes "unat p + 4096 * n \<le> 4294967296" "i < n"
  shows "unat (p + of_nat i * PGSIZE) = unat p + 4096 * i"
proof -
  have "i < 4294967296" using assms by linarith
  then have "unat (of_nat i :: uint) = i" by (simp add: unat_of_nat)
  then have m: "unat (of_nat i * PGSIZE :: uint) = 4096 * i"
    using assms unat_mult_lem [of "of_nat i" PGSIZE] by simp
  show ?thesis using m assms unat_add_lem [of p "of_nat i * PGSIZE"] by simp
qed

lemma distinct_page_list:
  assumes "unat p + 4096 * n \<le> 4294967296"
  shows "distinct (page_list p n)"
proof -
  have "i = j" if "i < n" "j < n" "p + of_nat i * PGSIZE = p + of_nat j * PGSIZE" for i j
  proof -
    have "unat (p + of_nat i * PGSIZE) = unat (p + of_nat j * PGSIZE)" using that(3) by (rule arg_cong)
    then have "unat p + 4096 * i = unat p + 4096 * j"
      unfolding page_list_nth [OF assms that(1)] page_list_nth [OF assms that(2)] .
    then show ?thesis by simp
  qed
  then have "inj_on (\<lambda>i. p + of_nat i * PGSIZE) {0..<n}" by (intro inj_onI) simp
  then show ?thesis by (simp add: page_list_def distinct_map)
qed

lemma page_list_aligned:
  assumes "page_aligned p" "unat p + 4096 * n \<le> 4294967296" "v \<in> set (page_list p n)"
  shows "page_aligned v" "unat p \<le> unat v" "unat v + 4096 \<le> unat p + 4096 * n"
proof -
  obtain i where i: "i < n" "v = p + of_nat i * PGSIZE" using assms(3) by (auto simp: page_list_def)
  have u: "unat v = unat p + 4096 * i" using page_list_nth [OF assms(2) i(1)] i(2) by simp
  then show "page_aligned v" using assms(1) by (simp add: page_aligned_unat)
  show "unat p \<le> unat v" "unat v + 4096 \<le> unat p + 4096 * n" using u i(1) by simp_all
qed

text \<open>
  The pages freerange hands over: those that lie entirely between the two addresses.  Inside
  physical memory behind the kernel image every one of them is a proper page.
\<close>

lemma freerange_ok:
  assumes inv: "kmem_inv s xs" and lo: "kend s \<le> vstart" and hi: "vend \<le> P2V PHYSTOP"
    and le: "vstart \<le> vend" "PGROUNDUP vstart \<le> vend"
    and n: "n = (unat vend - unat (PGROUNDUP vstart)) div 4096"
    and fresh: "set (page_list (PGROUNDUP vstart) n) \<inter> set xs = {}"
  shows "\<exists>m f. freerange vstart vend s = Ok () (s\<lparr>kmem := m, freelist := f\<rparr>)
    \<and> kmem_inv (s\<lparr>kmem := m, freelist := f\<rparr>) (rev (page_list (PGROUNDUP vstart) n) @ xs)
    \<and> (\<forall>x. (\<forall>v\<in>set (page_list (PGROUNDUP vstart) n). \<not> in_page v x) \<longrightarrow> m x = kmem s x)"
proof -
  let ?p = "PGROUNDUP vstart"
  have h: "unat vend \<le> 2382364672" using hi by (simp add: P2V_def word_le_nat_alt)
  have l: "unat ?p \<le> unat vend" using le by (simp add: word_le_nat_alt)
  have b: "unat ?p + 4096 * n \<le> unat vend" "unat vend < unat ?p + 4096 * n + 4096"
    using l times_div_less_eq_dividend [of 4096 "unat vend - unat ?p"]
      dividend_less_times_div [of 4096 "unat vend - unat ?p"] unfolding n by linarith+
  have "n \<le> 581632" using b(1) h by linarith
  then have nn: "n < 2 ^ 20 + 1" by simp
  have kb: "unat (kend s) > 2147483648" using inv by (simp add: kmem_inv_def word_less_nat_alt)
  show ?thesis unfolding freerange_def
  proof (rule freerange_loop_ok [OF inv nn b])
    show "unat vend + 4096 < 4294967296" using h by simp
    show "distinct (page_list ?p n)" using b h by (intro distinct_page_list) simp
    show "page_ok s v" if "v \<in> set (page_list ?p n)" for v
    proof -
      have a: "page_aligned v" "unat ?p \<le> unat v" "unat v + 4096 \<le> unat ?p + 4096 * n"
        using page_list_aligned [OF _ _ that] b h by simp_all
      have "unat vstart \<le> unat ?p"
        using le(1) h by (intro unat_PGROUNDUP_ge) (simp add: word_le_nat_alt)
      then have k: "unat (kend s) \<le> unat v" using a(2) lo by (simp add: word_le_nat_alt)
      then have "unat (V2P v) = unat v - 2147483648"
        using kb unat_sub [of KERNBASE v] by (simp add: V2P_def word_le_nat_alt)
      then have "unat (V2P v) < 234881024" using a(3) b(1) h k kb by linarith
      then show ?thesis using a(1) k by (simp add: page_ok_def word_less_nat_alt)
    qed
  qed (rule fresh)
qed
section \<open>What the rest of the kernel relies on\<close>

text \<open>
  The contract of a page allocator, over the set of its free pages: an allocation takes a page
  out of the set, or returns NULL when the set is empty; freeing puts a proper page back and
  writes to no other page; writes to pages that are not free do not disturb the allocator.
\<close>

locale page_allocator =
  fixes alloc :: "ptr M" and free :: "ptr \<Rightarrow> unit M" and free_set :: "kernel \<Rightarrow> ptr set \<Rightarrow> bool"
  assumes alloc_empty: "free_set s {} \<Longrightarrow> alloc s = Ok 0 s"
    and alloc_some: "free_set s P \<Longrightarrow> P \<noteq> {} \<Longrightarrow>
      \<exists>p f. p \<in> P \<and> alloc s = Ok p (s\<lparr>freelist := f\<rparr>) \<and> free_set (s\<lparr>freelist := f\<rparr>) (P - {p})"
    and free_page: "free_set s P \<Longrightarrow> page_ok s v \<Longrightarrow> v \<notin> P \<Longrightarrow>
      \<exists>m. free v s = Ok () (s\<lparr>kmem := m, freelist := v\<rparr>) \<and> free_set (s\<lparr>kmem := m, freelist := v\<rparr>) (insert v P)
        \<and> (\<forall>x. \<not> in_page v x \<longrightarrow> m x = kmem s x)"
    and free_set_page: "free_set s P \<Longrightarrow> p \<in> P \<Longrightarrow> page_ok s p \<and> p \<noteq> 0"
    and free_set_frame: "free_set s P \<Longrightarrow> (\<And>p x. p \<in> P \<Longrightarrow> in_page p x \<Longrightarrow> m x = kmem s x) \<Longrightarrow>
      free_set (s\<lparr>kmem := m\<rparr>) P"
begin

lemma alloc_cases:
  assumes "free_set s P"
  obtains (none) "P = {}" "alloc s = Ok 0 s"
  | (page) p f where "p \<in> P" "p \<noteq> 0" "page_ok s p" "alloc s = Ok p (s\<lparr>freelist := f\<rparr>)"
      "free_set (s\<lparr>freelist := f\<rparr>) (P - {p})"
proof (cases "P = {}")
  case True
  then show ?thesis using assms alloc_empty none by simp
next
  case False
  then obtain p f where p: "p \<in> P" "alloc s = Ok p (s\<lparr>freelist := f\<rparr>)" "free_set (s\<lparr>freelist := f\<rparr>) (P - {p})"
    using alloc_some [OF assms] by blast
  then show ?thesis using page free_set_page [OF assms p(1)] by blast
qed

text \<open>Filling a page that is not free with a byte, the step that follows most allocations.\<close>

lemma fill_page:
  assumes "free_set s P" "page_aligned p" "p \<notin> P"
  shows "free_set (s\<lparr>kmem := set_range (kmem s) p PGSIZE c\<rparr>) P"
proof (rule free_set_frame [OF assms(1)])
  fix q x assume q: "q \<in> P" "in_page q x"
  have "\<not> in_page p x"
  proof (rule in_page_disjoint [OF _ assms(2) _ q(2)])
    show "page_aligned q" using free_set_page [OF assms(1) q(1)] by (simp add: page_ok_def)
    show "q \<noteq> p" using q(1) assms(3) by blast
  qed
  then show "set_range (kmem s) p PGSIZE c x = kmem s x" by (simp add: set_range_def in_page_def)
qed

text \<open>Storing a word into a page that is not free: a page table entry, a list cell.\<close>

lemma store_page:
  assumes "free_set s P" "page_aligned p" "p \<notin> P" "k < 1024"
  shows "free_set (s\<lparr>kmem := store32 (kmem s) (p + 4 * k) v\<rparr>) P"
proof (rule free_set_frame [OF assms(1)])
  fix q x assume q: "q \<in> P" "in_page q x"
  have "\<not> in_page p x"
  proof (rule in_page_disjoint [OF _ assms(2) _ q(2)])
    show "page_aligned q" using free_set_page [OF assms(1) q(1)] by (simp add: page_ok_def)
    show "q \<noteq> p" using q(1) assms(3) by blast
  qed
  then show "store32 (kmem s) (p + 4 * k) v x = kmem s x" by (rule store32_page_frame [OF assms(2,4)])
qed

text \<open>Two allocations in a row never return the same page.\<close>

lemma alloc_twice:
  assumes "free_set s P" "alloc s = Ok p t" "p \<noteq> 0" "alloc t = Ok q u" "q \<noteq> 0"
  shows "p \<noteq> q"
  using assms(1)
proof (cases rule: alloc_cases)
  case (page p' f)
  then have t: "t = s\<lparr>freelist := f\<rparr>" "p' = p" using assms(2) by simp_all
  from page(5) show ?thesis
    by (cases rule: alloc_cases) (use assms(4,5) t in auto)
qed (use assms(2,3) in simp)

end

definition free_pages :: "kernel \<Rightarrow> ptr set \<Rightarrow> bool" where
  "free_pages s P \<longleftrightarrow> (\<exists>xs. kmem_inv s xs \<and> set xs = P)"

interpretation pa: page_allocator kalloc kfree free_pages
proof
  show "kalloc s = Ok 0 s" if "free_pages s {}" for s
    using that by (auto simp: free_pages_def intro: kalloc_inv_Nil)
next
  fix s P assume "free_pages s P" "P \<noteq> {}"
  then obtain x xs where x: "kmem_inv s (x # xs)" "P = set (x # xs)"
    unfolding free_pages_def by (metis list.exhaust set_empty)
  then have "x \<notin> set xs" by (simp add: kmem_inv_def)
  then have "free_pages (s\<lparr>freelist := load32 (kmem s) x\<rparr>) (P - {x})"
    using kalloc_inv_Cons(2) [OF x(1)] x(2) by (auto simp: free_pages_def)
  then show "\<exists>p f. p \<in> P \<and> kalloc s = Ok p (s\<lparr>freelist := f\<rparr>) \<and> free_pages (s\<lparr>freelist := f\<rparr>) (P - {p})"
    using kalloc_inv_Cons(1) [OF x(1)] x(2) by auto
next
  fix s P v assume P: "free_pages s P" "page_ok s v" "v \<notin> P"
  then obtain xs where "kmem_inv s xs" "P = set xs" by (auto simp: free_pages_def)
  moreover from this P obtain m where "kfree v s = Ok () (s\<lparr>kmem := m, freelist := v\<rparr>)"
    "kmem_inv (s\<lparr>kmem := m, freelist := v\<rparr>) (v # xs)" "\<And>x. \<not> in_page v x \<Longrightarrow> m x = kmem s x"
    using kfree_inv by metis
  ultimately show "\<exists>m. kfree v s = Ok () (s\<lparr>kmem := m, freelist := v\<rparr>)
      \<and> free_pages (s\<lparr>kmem := m, freelist := v\<rparr>) (insert v P) \<and> (\<forall>x. \<not> in_page v x \<longrightarrow> m x = kmem s x)"
    unfolding free_pages_def by (metis list.simps(15))
next
  show "page_ok s p \<and> p \<noteq> 0" if "free_pages s P" "p \<in> P" for s P p
    using that page_ok_nonzero by (auto simp: free_pages_def kmem_inv_def)
next
  fix s P m assume "free_pages s P" and m: "\<And>p x. p \<in> P \<Longrightarrow> in_page p x \<Longrightarrow> m x = kmem s x"
  then obtain xs where xs: "kmem_inv s xs" "P = set xs" by (auto simp: free_pages_def)
  have "load32 m x = load32 (kmem s) x" if "x \<in> set xs" for x
  proof (rule load32_page_head)
    show "page_aligned x" using xs(1) that by (auto simp: kmem_inv_def page_ok_def)
    show "m y = kmem s y" if "in_page x y" for y using m \<open>x \<in> set xs\<close> xs(2) that by blast
  qed
  then have "free_path m (freelist s) xs = free_path (kmem s) (freelist s) xs" by (rule free_path_cong)
  then have "kmem_inv (s\<lparr>kmem := m\<rparr>) xs" using xs(1) by (simp add: kmem_inv_def)
  then show "free_pages (s\<lparr>kmem := m\<rparr>) P" using xs(2) by (auto simp: free_pages_def)
qed

section \<open>Properties\<close>

text \<open>
  C29: Freeing a page that is not on the free list keeps the allocator's invariant, adds exactly
  that page and writes to no other page of memory; the next kalloc returns the same page and
  restores the former list.
\<close>

theorem kfree_kalloc:
  assumes "kmem_inv s xs" "page_ok s v" "v \<notin> set xs"
  shows "\<exists>m. kfree v s = Ok () (s\<lparr>kmem := m, freelist := v\<rparr>)
    \<and> kmem_inv (s\<lparr>kmem := m, freelist := v\<rparr>) (v # xs)
    \<and> (\<forall>x. \<not> in_page v x \<longrightarrow> m x = kmem s x)
    \<and> kalloc (s\<lparr>kmem := m, freelist := v\<rparr>) = Ok v (s\<lparr>kmem := m\<rparr>)
    \<and> kmem_inv (s\<lparr>kmem := m\<rparr>) xs"
proof -
  obtain m where m: "kfree v s = Ok () (s\<lparr>kmem := m, freelist := v\<rparr>)"
    "kmem_inv (s\<lparr>kmem := m, freelist := v\<rparr>) (v # xs)" "\<And>x. \<not> in_page v x \<Longrightarrow> m x = kmem s x"
    using kfree_inv [OF assms] by metis
  have l: "load32 m v = freelist s"
    using m(2) assms(1) by (cases xs) (auto simp: kmem_inv_def)
  show ?thesis
    using m kalloc_inv_Cons [OF m(2)] by (intro exI [of _ m]) (simp add: l)
qed

text \<open>A kernel whose image ends at \<open>0x80108000\<close>, before any page has been freed.\<close>

definition ex_kernel :: kernel where
  "ex_kernel = static_data 0x80108000 0x80107000 (\<lambda>_. replicate BSIZE 0) 1000"

lemma ex_kernel_kend: "kend ex_kernel = 0x80108000"
  by (simp add: ex_kernel_def static_data_def)

lemma ex_kernel_inv: "kmem_inv ex_kernel []"
  by (simp add: kmem_inv_def ex_kernel_def static_data_def)

theorem kfree_kalloc_witness:
  "\<exists>m. kfree 0x80200000 ex_kernel = Ok () (ex_kernel\<lparr>kmem := m, freelist := 0x80200000\<rparr>)
    \<and> kalloc (ex_kernel\<lparr>kmem := m, freelist := 0x80200000\<rparr>) = Ok 0x80200000 (ex_kernel\<lparr>kmem := m\<rparr>)"
proof -
  have "page_ok ex_kernel 0x80200000"
    by (simp add: page_ok_def page_aligned_def ex_kernel_def static_data_def V2P_def)
  then show ?thesis using kfree_kalloc [of ex_kernel "[]" "0x80200000"] ex_kernel_inv by auto
qed

text \<open>
  kalloc never fails: on an empty list it returns NULL and changes nothing; otherwise it
  returns a page that was free, aligned, non-NULL and in allocatable memory, and the invariant
  holds of the remaining pages, to which that page no longer belongs.
\<close>

theorem kalloc_result:
  assumes "kmem_inv s xs"
  shows "xs = [] \<and> kalloc s = Ok 0 s
    \<or> (\<exists>p ys. xs = p # ys \<and> p \<noteq> 0 \<and> page_ok s p \<and> p \<notin> set ys
        \<and> kalloc s = Ok p (s\<lparr>freelist := load32 (kmem s) p\<rparr>)
        \<and> kmem_inv (s\<lparr>freelist := load32 (kmem s) p\<rparr>) ys)"
proof (cases xs)
  case Nil
  then show ?thesis using assms kalloc_inv_Nil by simp
next
  case (Cons p ys)
  then show ?thesis using assms kalloc_inv_Cons [of s p ys] page_ok_nonzero [of s p]
    by (auto simp: kmem_inv_def)
qed

theorem kalloc_result_witness: "kalloc ex_kernel = Ok 0 ex_kernel"
  using kalloc_result [OF ex_kernel_inv] by simp

text \<open>
  kfree panics exactly on an address that is not the start of a page of allocatable memory,
  and then leaves no trace.
\<close>

theorem kfree_panics:
  assumes "kmem_inv s xs" "v \<notin> set xs"
  shows "kfree v s = Panic ''kfree'' \<longleftrightarrow> \<not> page_ok s v"
proof (cases "page_ok s v")
  case True
  then show ?thesis using kfree_inv [OF assms(1) _ assms(2)] by (metis outcome.distinct(1))
qed (simp add: kfree_bad)

theorem kfree_panics_witness:
  "kfree 0x80200004 ex_kernel = Panic ''kfree''"
  using kfree_panics [of ex_kernel "[]" "0x80200004"] ex_kernel_inv by (simp add: page_ok_def page_aligned_def)

text \<open>
  freerange, given a range of memory behind the kernel image and below the end of physical
  memory none of whose pages is free yet, hands every page that lies in the range to the
  allocator, in address order, without a panic, and keeps the invariant.
\<close>

theorem freerange_frees:
  assumes "kmem_inv s xs" "kend s \<le> vstart" "vend \<le> P2V PHYSTOP" "vstart \<le> vend" "PGROUNDUP vstart \<le> vend"
    and "n = (unat vend - unat (PGROUNDUP vstart)) div 4096"
    and "set (page_list (PGROUNDUP vstart) n) \<inter> set xs = {}"
  shows "\<exists>m f. freerange vstart vend s = Ok () (s\<lparr>kmem := m, freelist := f\<rparr>)
    \<and> kmem_inv (s\<lparr>kmem := m, freelist := f\<rparr>) (rev (page_list (PGROUNDUP vstart) n) @ xs)"
  using freerange_ok [OF assms] by blast

theorem freerange_frees_witness:
  "\<exists>m f. freerange 0x80108001 0x8010B000 ex_kernel = Ok () (ex_kernel\<lparr>kmem := m, freelist := f\<rparr>)
    \<and> kmem_inv (ex_kernel\<lparr>kmem := m, freelist := f\<rparr>) [0x8010A000, 0x80109000]"
proof -
  have r: "PGROUNDUP 0x80108001 = 0x80109000" by code_simp
  have n: "(2 :: nat) = (unat (0x8010B000 :: uint) - unat (0x80109000 :: uint)) div 4096" by simp
  have p: "page_list 0x80109000 2 = [0x80109000, 0x8010A000]" by code_simp
  have "\<exists>m f. freerange 0x80108001 0x8010B000 ex_kernel = Ok () (ex_kernel\<lparr>kmem := m, freelist := f\<rparr>)
    \<and> kmem_inv (ex_kernel\<lparr>kmem := m, freelist := f\<rparr>) (rev (page_list (PGROUNDUP 0x80108001) 2) @ [])"
    by (rule freerange_frees [OF ex_kernel_inv]) (simp_all only: r p ex_kernel_kend, simp_all add: P2V_def)
  then show ?thesis unfolding r p by simp
qed

end
