(* ===== verification/Vm.thy ===== *)
theory Vm
  imports Kalloc
begin

text \<open>
  Page tables and user memory (vm.c).  A page directory and the page tables it points to are
  pages of \<open>kmem\<close>; an entry is a little-endian word of such a page.
\<close>

section \<open>Operations\<close>

definition walkpgdir :: "ptr \<Rightarrow> ptr \<Rightarrow> bool \<Rightarrow> ptr M" where
  "walkpgdir pgdir va alloc =
     bindM (gets (\<lambda>s. load32 (kmem s) (pgdir + 4 * PDX va))) (\<lambda>pde.
     if pde AND PTE_P \<noteq> 0 then ret (P2V (PTE_ADDR pde) + 4 * PTX va)
     else if \<not> alloc then ret 0 else
     bindM kalloc (\<lambda>pgtab.
     if pgtab = 0 then ret 0 else
     seqM (modify (\<lambda>s. s\<lparr>kmem := memset (kmem s) pgtab 0 PGSIZE\<rparr>))
    (seqM (modify (\<lambda>s. s\<lparr>kmem := store32 (kmem s) (pgdir + 4 * PDX va) (V2P pgtab OR PTE_P OR PTE_W OR PTE_U)\<rparr>))
    (ret (pgtab + 4 * PTX va)))))"

text \<open>The loop of mappages; an address space has \<open>NPAGES\<close> pages.\<close>

fun mappages_loop :: "nat \<Rightarrow> ptr \<Rightarrow> ptr \<Rightarrow> ptr \<Rightarrow> uint \<Rightarrow> uint \<Rightarrow> int M" where
  "mappages_loop 0 pgdir a lst pa perm = fault ''fuel''"
| "mappages_loop (Suc n) pgdir a lst pa perm =
     bindM (walkpgdir pgdir a True) (\<lambda>pte.
     if pte = 0 then ret (- 1) else
     bindM (gets (\<lambda>s. load32 (kmem s) pte)) (\<lambda>e.
     if e AND PTE_P \<noteq> 0 then panic ''remap'' else
     seqM (modify (\<lambda>s. s\<lparr>kmem := store32 (kmem s) pte (pa OR perm OR PTE_P)\<rparr>))
    (if a = lst then ret 0 else mappages_loop n pgdir (a + PGSIZE) lst (pa + PGSIZE) perm)))"

definition mappages :: "ptr \<Rightarrow> ptr \<Rightarrow> uint \<Rightarrow> uint \<Rightarrow> uint \<Rightarrow> int M" where
  "mappages pgdir va sz pa perm =
     mappages_loop NPAGES pgdir (PGROUNDDOWN va) (PGROUNDDOWN (va + sz - 1)) pa perm"

text \<open>
  The loop of deallocuvm.  When a page table is missing the loop skips to the next directory
  entry; the increment of the for loop follows.
\<close>

fun deallocuvm_loop :: "nat \<Rightarrow> ptr \<Rightarrow> uint \<Rightarrow> uint \<Rightarrow> unit M" where
  "deallocuvm_loop 0 pgdir a oldsz = fault ''fuel''"
| "deallocuvm_loop (Suc n) pgdir a oldsz =
     (if \<not> a < oldsz then ret () else
      bindM (walkpgdir pgdir a False) (\<lambda>pte.
      if pte = 0 then deallocuvm_loop n pgdir (PGADDR (PDX a + 1) 0 0 - PGSIZE + PGSIZE) oldsz else
      bindM (gets (\<lambda>s. load32 (kmem s) pte)) (\<lambda>e.
      seqM (if e AND PTE_P \<noteq> 0
            then if PTE_ADDR e = 0 then panic ''kfree''
                 else seqM (kfree (P2V (PTE_ADDR e))) (modify (\<lambda>s. s\<lparr>kmem := store32 (kmem s) pte 0\<rparr>))
            else ret ())
      (deallocuvm_loop n pgdir (a + PGSIZE) oldsz))))"

definition deallocuvm :: "ptr \<Rightarrow> uint \<Rightarrow> uint \<Rightarrow> uint M" where
  "deallocuvm pgdir oldsz newsz =
     (if newsz \<ge> oldsz then ret oldsz
      else seqM (deallocuvm_loop (Suc NPAGES) pgdir (PGROUNDUP newsz) oldsz) (ret newsz))"

definition freevm :: "ptr \<Rightarrow> unit M" where
  "freevm pgdir =
     (if pgdir = 0 then panic ''freevm: no pgdir'' else
      seqM (deallocuvm pgdir KERNBASE 0)
     (seqM (foreach [0..<1024] (\<lambda>i.
        bindM (gets (\<lambda>s. load32 (kmem s) (pgdir + 4 * of_nat i))) (\<lambda>e.
        whenM (e AND PTE_P \<noteq> 0) (kfree (P2V (PTE_ADDR e))))))
     (kfree pgdir)))"

text \<open>The table of the kernel's mappings: virtual address, physical range, permissions.\<close>

definition kmap :: "kernel \<Rightarrow> (ptr \<times> uint \<times> uint \<times> uint) list" where
  "kmap s = [(KERNBASE, 0, EXTMEM, PTE_W), (KERNLINK, V2P KERNLINK, V2P (kdata s), 0),
     (kdata s, V2P (kdata s), PHYSTOP, PTE_W), (DEVSPACE, DEVSPACE, 0, PTE_W)]"

fun setupkvm_loop :: "(ptr \<times> uint \<times> uint \<times> uint) list \<Rightarrow> ptr \<Rightarrow> ptr M" where
  "setupkvm_loop [] pgdir = ret pgdir"
| "setupkvm_loop ((virt, phys_start, phys_end, perm) # ks) pgdir =
     bindM (mappages pgdir virt (phys_end - phys_start) phys_start perm) (\<lambda>r.
     if r < 0 then seqM (freevm pgdir) (ret 0) else setupkvm_loop ks pgdir)"

definition setupkvm :: "ptr M" where
  "setupkvm =
     bindM kalloc (\<lambda>pgdir.
     if pgdir = 0 then ret 0 else
     seqM (modify (\<lambda>s. s\<lparr>kmem := memset (kmem s) pgdir 0 PGSIZE\<rparr>))
    (if P2V PHYSTOP > DEVSPACE then panic ''PHYSTOP too high''
     else bindM (gets kmap) (\<lambda>ks. setupkvm_loop ks pgdir)))"

definition switchkvm :: "unit M" where
  "switchkvm = modify (\<lambda>s. s\<lparr>cr3 := V2P (kpgdir s)\<rparr>)"

definition kvmalloc :: "unit M" where
  "kvmalloc = bindM setupkvm (\<lambda>pgdir. seqM (modify (\<lambda>s. s\<lparr>kpgdir := pgdir\<rparr>)) switchkvm)"

definition switchuvm :: "nat option \<Rightarrow> unit M" where
  "switchuvm p = (case p of None \<Rightarrow> panic ''switchuvm: no process'' | Some p \<Rightarrow>
     bindM (gets (\<lambda>s. ptable s ! p)) (\<lambda>q.
     if p_kstack q = 0 then panic ''switchuvm: no kstack''
     else if p_pgdir q = 0 then panic ''switchuvm: no pgdir''
     else modify (\<lambda>s. s\<lparr>ts_esp0 := p_kstack q + KSTACKSIZE, cr3 := V2P (p_pgdir q)\<rparr>)))"

definition inituvm :: "ptr \<Rightarrow> byte list \<Rightarrow> unit M" where
  "inituvm pgdir init =
     (if length init \<ge> unat PGSIZE then panic ''inituvm: more than a page'' else
      bindM kalloc (\<lambda>mem.
      if mem = 0 then fault ''null dereference'' else
      seqM (modify (\<lambda>s. s\<lparr>kmem := memset (kmem s) mem 0 PGSIZE\<rparr>))
     (seqM (mappages pgdir 0 PGSIZE (V2P mem) (PTE_W OR PTE_U))
     (modify (\<lambda>s. s\<lparr>kmem := write_list (kmem s) mem init\<rparr>)))))"

fun allocuvm_loop :: "nat \<Rightarrow> ptr \<Rightarrow> uint \<Rightarrow> uint \<Rightarrow> uint \<Rightarrow> uint M" where
  "allocuvm_loop 0 pgdir a oldsz newsz = fault ''fuel''"
| "allocuvm_loop (Suc n) pgdir a oldsz newsz =
     (if \<not> a < newsz then ret newsz else
      bindM kalloc (\<lambda>mem.
      if mem = 0 then
        seqM (cprintf ''allocuvm out of memory\<newline>'' [])
       (seqM (deallocuvm pgdir newsz oldsz)
       (ret 0))
      else
      seqM (modify (\<lambda>s. s\<lparr>kmem := memset (kmem s) mem 0 PGSIZE\<rparr>))
     (bindM (mappages pgdir a PGSIZE (V2P mem) (PTE_W OR PTE_U)) (\<lambda>r.
      if r < 0 then
        seqM (cprintf ''allocuvm out of memory (2)\<newline>'' [])
       (seqM (deallocuvm pgdir newsz oldsz)
       (seqM (kfree mem)
       (ret 0)))
      else allocuvm_loop n pgdir (a + PGSIZE) oldsz newsz))))"

definition allocuvm :: "ptr \<Rightarrow> uint \<Rightarrow> uint \<Rightarrow> uint M" where
  "allocuvm pgdir oldsz newsz =
     (if newsz \<ge> KERNBASE then ret 0
      else if newsz < oldsz then ret oldsz
      else allocuvm_loop (Suc NPAGES) pgdir (PGROUNDUP oldsz) oldsz newsz)"

definition clearpteu :: "ptr \<Rightarrow> ptr \<Rightarrow> unit M" where
  "clearpteu pgdir uva =
     bindM (walkpgdir pgdir uva False) (\<lambda>pte.
     if pte = 0 then panic ''clearpteu''
     else modify (\<lambda>s. s\<lparr>kmem := store32 (kmem s) pte (load32 (kmem s) pte AND NOT PTE_U)\<rparr>))"

text \<open>The loop of copyuvm; False is the jump to the label bad.\<close>

fun copyuvm_loop :: "nat \<Rightarrow> ptr \<Rightarrow> ptr \<Rightarrow> uint \<Rightarrow> uint \<Rightarrow> bool M" where
  "copyuvm_loop 0 pgdir d i sz = fault ''fuel''"
| "copyuvm_loop (Suc n) pgdir d i sz =
     (if \<not> i < sz then ret True else
      bindM (walkpgdir pgdir i False) (\<lambda>pte.
      if pte = 0 then panic ''copyuvm: pte should exist'' else
      bindM (gets (\<lambda>s. load32 (kmem s) pte)) (\<lambda>e.
      if e AND PTE_P = 0 then panic ''copyuvm: page not present'' else
      bindM kalloc (\<lambda>mem.
      if mem = 0 then ret False else
      seqM (modify (\<lambda>s. s\<lparr>kmem := memmove (kmem s) mem (P2V (PTE_ADDR e)) PGSIZE\<rparr>))
     (bindM (mappages d i PGSIZE (V2P mem) (PTE_FLAGS e)) (\<lambda>r.
      if r < 0 then seqM (kfree mem) (ret False)
      else copyuvm_loop n pgdir d (i + PGSIZE) sz))))))"

definition copyuvm :: "ptr \<Rightarrow> uint \<Rightarrow> ptr M" where
  "copyuvm pgdir sz =
     bindM setupkvm (\<lambda>d.
     if d = 0 then ret 0 else
     bindM (copyuvm_loop (Suc NPAGES) pgdir d 0 sz) (\<lambda>good.
     if good then ret d else seqM (freevm d) (ret 0)))"

text \<open>uva2ka does not check for a missing page table.\<close>

definition uva2ka :: "ptr \<Rightarrow> ptr \<Rightarrow> ptr M" where
  "uva2ka pgdir uva =
     bindM (walkpgdir pgdir uva False) (\<lambda>pte.
     if pte = 0 then fault ''null dereference'' else
     bindM (gets (\<lambda>s. load32 (kmem s) pte)) (\<lambda>e.
     if e AND PTE_P = 0 then ret 0
     else if e AND PTE_U = 0 then ret 0
     else ret (P2V (PTE_ADDR e))))"

text \<open>copyout, with the bytes it copies as a list.\<close>

function copyout :: "ptr \<Rightarrow> uint \<Rightarrow> byte list \<Rightarrow> int M" where
  "copyout pgdir va buf =
     (if buf = [] then ret 0 else
      let va0 = PGROUNDDOWN va; n = min (unat (PGSIZE - (va - va0))) (length buf) in
      bindM (uva2ka pgdir va0) (\<lambda>pa0.
      if pa0 = 0 then ret (- 1) else
      seqM (modify (\<lambda>s. s\<lparr>kmem := write_list (kmem s) (pa0 + (va - va0)) (take n buf)\<rparr>))
     (copyout pgdir (va0 + PGSIZE) (drop n buf))))"
  by pat_completeness auto
termination
  by (relation "measure (\<lambda>(pgdir, va, buf). length buf)") (auto simp: unat_page_rest)

end
