(* ===== verification/Vm_Map.thy ===== *)
theory Vm_Map
  imports Vm
begin

text \<open>
  The abstraction of a page directory as a partial map \<open>vmap\<close> from page addresses to page table
  entries, well-formedness of the directory with its page tables, and the effect of walkpgdir
  and mappages on the map.
\<close>

section \<open>A page directory as a map\<close>

definition pde_present :: "mem \<Rightarrow> ptr \<Rightarrow> ptr \<Rightarrow> bool" where
  "pde_present m pd va \<longleftrightarrow> load32 m (pd + 4 * PDX va) AND PTE_P \<noteq> 0"

definition pte_addr :: "mem \<Rightarrow> ptr \<Rightarrow> ptr \<Rightarrow> ptr" where
  "pte_addr m pd va = P2V (PTE_ADDR (load32 m (pd + 4 * PDX va))) + 4 * PTX va"

text \<open>The page table entries present in a page directory, by the address of the page.\<close>

definition vmap :: "mem \<Rightarrow> ptr \<Rightarrow> ptr \<Rightarrow> uint option" where
  "vmap m pd va = (if page_aligned va \<and> pde_present m pd va \<and> load32 m (pte_addr m pd va) AND PTE_P \<noteq> 0
     then Some (load32 m (pte_addr m pd va)) else None)"

text \<open>
  A well-formed page directory with the set of its page tables: no two directory entries share
  a page table and none of the tables is the directory itself.
\<close>

definition pt_table :: "mem \<Rightarrow> ptr \<Rightarrow> uint \<Rightarrow> ptr" where
  "pt_table m pd i = P2V (PTE_ADDR (load32 m (pd + 4 * i)))"

definition pt_wf :: "mem \<Rightarrow> ptr \<Rightarrow> ptr set \<Rightarrow> bool" where
  "pt_wf m pd T \<longleftrightarrow> page_aligned pd \<and> pd \<notin> T \<and> 0 \<notin> T \<and> (\<forall>t \<in> T. page_aligned t)
     \<and> (\<forall>i < 1024. load32 m (pd + 4 * i) AND PTE_P \<noteq> 0 \<longrightarrow> pt_table m pd i \<in> T)
     \<and> (\<forall>i < 1024. \<forall>j < 1024. load32 m (pd + 4 * i) AND PTE_P \<noteq> 0 \<longrightarrow> load32 m (pd + 4 * j) AND PTE_P \<noteq> 0
          \<longrightarrow> pt_table m pd i = pt_table m pd j \<longrightarrow> i = j)"

lemma pt_table_aligned [simp]: "page_aligned (pt_table m pd i)"
  by (simp add: pt_table_def)

lemma pte_addr_table: "pte_addr m pd va = pt_table m pd (PDX va) + 4 * PTX va"
  by (simp add: pte_addr_def pt_table_def)

lemma pt_wf_table: "pt_wf m pd T \<Longrightarrow> pde_present m pd va \<Longrightarrow> pt_table m pd (PDX va) \<in> T"
  by (simp add: pt_wf_def pde_present_def PDX_less)

lemma pt_wf_inj:
  "pt_wf m pd T \<Longrightarrow> pde_present m pd a \<Longrightarrow> pde_present m pd b \<Longrightarrow>
     pt_table m pd (PDX a) = pt_table m pd (PDX b) \<Longrightarrow> PDX a = PDX b"
  by (simp add: pt_wf_def pde_present_def PDX_less)

lemma pte_addr_nonzero:
  assumes "pt_wf m pd T" "pde_present m pd va"
  shows "pte_addr m pd va \<noteq> 0"
  unfolding pte_addr_table
proof (rule page_word_nonzero)
  show "pt_table m pd (PDX va) \<noteq> 0" using pt_wf_table [OF assms] assms(1) by (auto simp: pt_wf_def)
qed (simp_all add: PTX_less)

text \<open>Writing a page table entry changes the map at one address.\<close>

lemma pt_table_store:
  assumes "pt_wf m pd T" "t \<in> T" "k < 1024" "i < 1024"
  shows "load32 (store32 m (t + 4 * k) v) (pd + 4 * i) = load32 m (pd + 4 * i)"
proof -
  have "page_aligned t" "page_aligned pd" "t \<noteq> pd" using assms(1,2) by (auto simp: pt_wf_def)
  then show ?thesis using load_store_word [of t pd k i m v] assms(3,4) by simp
qed

lemma pt_wf_store:
  assumes "pt_wf m pd T" "t \<in> T" "k < 1024"
  shows "pt_wf (store32 m (t + 4 * k) v) pd T"
  using assms(1) pt_table_store [OF assms] by (simp add: pt_wf_def pt_table_def)

lemma vmap_store:
  assumes wf: "pt_wf m pd T" and p: "pde_present m pd va" and al: "page_aligned va"
  shows "vmap (store32 m (pte_addr m pd va) v) pd
    = (vmap m pd)(va := if v AND PTE_P \<noteq> 0 then Some v else None)"
proof
  fix b
  let ?t = "pt_table m pd (PDX va)" and ?m = "store32 m (pte_addr m pd va) v"
  have pde: "load32 ?m (pd + 4 * PDX c) = load32 m (pd + 4 * PDX c)" for c
    unfolding pte_addr_table by (rule pt_table_store [OF wf pt_wf_table [OF wf p] PTX_less PDX_less])
  then have same: "pde_present ?m pd c = pde_present m pd c" "pte_addr ?m pd c = pte_addr m pd c" for c
    by (simp_all add: pde_present_def pte_addr_def)
  have ld: "load32 ?m (pte_addr m pd b) = (if b = va then v else load32 m (pte_addr m pd b))"
    if "page_aligned b" "pde_present m pd b"
    using load_store_word [of ?t "pt_table m pd (PDX b)" "PTX va" "PTX b" m v]
      pt_wf_inj [OF wf p that(2)] PDX_PTX_inj [OF al that(1)]
    by (auto simp: pte_addr_table PTX_less)
  show "vmap ?m pd b = ((vmap m pd)(va := if v AND PTE_P \<noteq> 0 then Some v else None)) b"
  proof (cases "b = va")
    case True
    then show ?thesis using p al by (simp add: vmap_def same)
  next
    case False
    then show ?thesis using ld by (cases "page_aligned b \<and> pde_present m pd b") (auto simp: vmap_def same)
  qed
qed

text \<open>Adding an empty page table does not change the map.\<close>

lemma V2P_flags: "page_aligned p \<Longrightarrow> PTE_ADDR (V2P p OR 7) = V2P p"
proof (rule PTE_ADDR_flags)
  have m: "(7 :: uint) = mask 3" by (simp add: mask_eq_exp_minus_1)
  show "\<not> bit (7 :: uint) n" if "n \<ge> 12" for n using that unfolding m bit_mask_iff by simp
qed simp

lemma new_table:
  assumes wf: "pt_wf m pd T" and p: "page_aligned p" "p \<notin> T" "p \<noteq> pd" "p \<noteq> 0" and np: "\<not> pde_present m pd va"
    and m': "m' = store32 (set_range m p PGSIZE 0) (pd + 4 * PDX va) (V2P p OR 7)"
  shows "pt_wf m' pd (insert p T)" "vmap m' pd = vmap m pd" "pde_present m' pd va"
    "pte_addr m' pd va = p + 4 * PTX va"
proof -
  have pd: "page_aligned pd" using wf by (simp add: pt_wf_def)
  have pde: "load32 m' (pd + 4 * i) = (if i = PDX va then V2P p OR 7 else load32 m (pd + 4 * i))"
    if "i < 1024" for i
    using load_store_word [OF pd pd PDX_less that, of "set_range m p PGSIZE 0"]
      load_fill_word [OF p(1) pd that] p(3) by (auto simp: m')
  have tbl: "pt_table m' pd i = (if i = PDX va then p else pt_table m pd i)" if "i < 1024" for i
    using pde [OF that] V2P_flags [OF p(1)] by (simp add: pt_table_def)
  have flag: "(V2P p OR 7) AND 1 \<noteq> 0"
  proof
    assume "(V2P p OR 7) AND 1 = 0"
    then have "bit ((V2P p OR 7) AND 1) 0 = bit (0 :: uint) 0" by simp
    then show False by (simp add: bit_simps)
  qed
  show wf': "pt_wf m' pd (insert p T)"
    using wf p tbl pde np unfolding pt_wf_def pde_present_def
    by (auto split: if_splits)
  show pr: "pde_present m' pd va" using pde [OF PDX_less] flag by (simp add: pde_present_def)
  show "pte_addr m' pd va = p + 4 * PTX va" using tbl [OF PDX_less] by (simp add: pte_addr_table)
  have ld: "load32 m' (q + 4 * k) = (if q = p then 0 else load32 m (q + 4 * k))"
    if "page_aligned q" "q \<noteq> pd" "k < 1024" for q k
    using that load_store_word [OF pd that(1) PDX_less that(3), of "set_range m p PGSIZE 0"]
      load_fill_word [OF p(1) that(1,3)] by (auto simp: m')
  show "vmap m' pd = vmap m pd"
  proof
    fix b
    show "vmap m' pd b = vmap m pd b"
    proof (cases "PDX b = PDX va")
      case True
      then have "\<not> pde_present m pd b" "pte_addr m' pd b = p + 4 * PTX b"
        using np tbl [OF PDX_less] by (simp_all add: pde_present_def pte_addr_table)
      then show ?thesis using ld [OF p(1,3) PTX_less] by (simp add: vmap_def)
    next
      case False
      then have e: "pde_present m' pd b = pde_present m pd b" "pte_addr m' pd b = pt_table m pd (PDX b) + 4 * PTX b"
        using pde [OF PDX_less] tbl [OF PDX_less] by (simp_all add: pde_present_def pte_addr_table)
      have "load32 m' (pte_addr m' pd b) = load32 m (pte_addr m pd b)" if "pde_present m pd b"
      proof -
        have "pt_table m pd (PDX b) \<in> T" using pt_wf_table [OF wf that] .
        then have "pt_table m pd (PDX b) \<noteq> p" "pt_table m pd (PDX b) \<noteq> pd" using p wf by (auto simp: pt_wf_def)
        then show ?thesis using ld [of "pt_table m pd (PDX b)" "PTX b"] unfolding e(2) by (simp add: pte_addr_table PTX_less)
      qed
      then show ?thesis by (auto simp: vmap_def e(1))
    qed
  qed
qed

section \<open>walkpgdir and mappages\<close>

definition set_mem :: "mem \<Rightarrow> ptr \<Rightarrow> kernel \<Rightarrow> kernel" where
  "set_mem m f s = s\<lparr>kmem := m, freelist := f\<rparr>"

lemma set_mem_fields [simp]:
  "kmem (set_mem m f s) = m" "freelist (set_mem m f s) = f" "kend (set_mem m f s) = kend s"
  "held (set_mem m f s) = held s" "use_lock (set_mem m f s) = use_lock s" "ptable (set_mem m f s) = ptable s"
  "cur (set_mem m f s) = cur s" "kdata (set_mem m f s) = kdata s"
  by (simp_all add: set_mem_def)

lemma set_mem_upd [simp]:
  "set_mem m f (set_mem m' f' s) = set_mem m f s"
  "(set_mem m f s)\<lparr>kmem := m'\<rparr> = set_mem m' f s"
  "(set_mem m f s)\<lparr>freelist := f'\<rparr> = set_mem m f' s"
  by (simp_all add: set_mem_def)

lemma set_mem_intro:
  "s\<lparr>kmem := m\<rparr> = set_mem m (freelist s) s" "s\<lparr>freelist := f\<rparr> = set_mem (kmem s) f s"
  by (simp_all add: set_mem_def)

text \<open>A page directory beside the allocator: its pages are not free.\<close>

definition vm_inv :: "kernel \<Rightarrow> ptr \<Rightarrow> ptr set \<Rightarrow> ptr set \<Rightarrow> bool" where
  "vm_inv s pd T P \<longleftrightarrow> free_pages s P \<and> pt_wf (kmem s) pd T \<and> T \<inter> P = {} \<and> pd \<notin> P"

lemma walkpgdir_present:
  "pde_present (kmem s) pd va \<Longrightarrow> walkpgdir pd va al s = Ok (pte_addr (kmem s) pd va) s"
  by (simp add: walkpgdir_def pde_present_def pte_addr_def gets_def bindM_def ret_def)

lemma walkpgdir_absent:
  "\<not> pde_present (kmem s) pd va \<Longrightarrow> walkpgdir pd va False s = Ok 0 s"
  by (simp add: walkpgdir_def pde_present_def gets_def bindM_def ret_def)

lemma or_flags: "V2P p OR 1 OR 2 OR 4 = V2P p OR 7"
  by (simp add: or.assoc)

lemma walkpgdir_alloc_eq:
  assumes "\<not> pde_present (kmem s) pd va" "kalloc s = Ok p (set_mem (kmem s) f s)" "p \<noteq> 0"
  shows "walkpgdir pd va True s = Ok (p + 4 * PTX va)
    (set_mem (store32 (set_range (kmem s) p PGSIZE 0) (pd + 4 * PDX va) (V2P p OR 7)) f s)"
  using assms
  by (simp add: walkpgdir_def pde_present_def monad_defs memset_eq_set_range or_flags)

text \<open>
  walkpgdir with allocation either finds no free page for a missing table, or returns the
  address of the entry; the map is the same, and only the directory and a page that was free
  are written.
\<close>

lemma walkpgdir_alloc:
  assumes inv: "vm_inv s pd T P"
  obtains (full) "P = {}" "\<not> pde_present (kmem s) pd va" "walkpgdir pd va True s = Ok 0 s"
  | (entry) m f T' P' where "walkpgdir pd va True s = Ok (pte_addr m pd va) (set_mem m f s)"
      "vm_inv (set_mem m f s) pd T' P'" "T' \<union> P' = T \<union> P" "T \<subseteq> T'" "pde_present m pd va"
      "pte_addr m pd va \<noteq> 0" "vmap m pd = vmap (kmem s) pd"
      "\<And>x. \<not> in_page pd x \<Longrightarrow> \<forall>q \<in> P - P'. \<not> in_page q x \<Longrightarrow> m x = kmem s x" "card P \<le> Suc (card P')" "pde_present (kmem s) pd va \<Longrightarrow> P' = P"
proof (cases "pde_present (kmem s) pd va")
  case True
  have "set_mem (kmem s) (freelist s) s = s" by (simp add: set_mem_def)
  then show ?thesis
    using entry [of "kmem s" "freelist s" T P] walkpgdir_present [OF True] inv True
      pte_addr_nonzero [OF _ True, of T] by (simp add: vm_inv_def)
next
  case False
  have fp: "free_pages s P" and wf: "pt_wf (kmem s) pd T" and dis: "T \<inter> P = {}" "pd \<notin> P"
    using inv by (simp_all add: vm_inv_def)
  from fp show ?thesis
  proof (cases rule: pa.alloc_cases)
    case none
    then have "walkpgdir pd va True s = Ok 0 s"
      using False by (simp add: walkpgdir_def pde_present_def gets_def bindM_def ret_def)
    then show ?thesis using full none(1) False by blast
  next
    case (page p f)
    let ?m = "store32 (set_range (kmem s) p PGSIZE 0) (pd + 4 * PDX va) (V2P p OR 7)"
    have al: "page_aligned p" "page_aligned pd" using page(3) wf by (simp_all add: page_ok_def pt_wf_def)
    have fresh: "p \<notin> T" "p \<noteq> pd" using page(1) dis by auto
    note nt = new_table [OF wf al(1) fresh page(2) False refl]
    have e: "walkpgdir pd va True s = Ok (p + 4 * PTX va) (set_mem ?m f s)"
      using walkpgdir_alloc_eq [OF False _ page(2), of f] page(4) by (simp add: set_mem_intro)
    have s1: "free_pages (set_mem (kmem s) f s) (P - {p})" using page(5) by (simp add: set_mem_intro)
    have "free_pages (set_mem (set_range (kmem s) p PGSIZE 0) f s) (P - {p})"
      using pa.fill_page [OF s1 al(1), of 0] by simp
    from pa.store_page [OF this al(2) _ PDX_less, of va "V2P p OR 7"]
    have s2: "free_pages (set_mem ?m f s) (P - {p})" using dis(2) by simp
    have "vm_inv (set_mem ?m f s) pd (insert p T) (P - {p})"
      using s2 nt(1) dis page(1) by (auto simp: vm_inv_def)
    moreover have "?m x = kmem s x" if "\<not> in_page pd x" "\<not> in_page p x" for x
      using store32_page_frame [OF al(2) PDX_less that(1)] that(2) by (simp add: set_range_def in_page_def)
    moreover have "insert p T \<union> (P - {p}) = T \<union> P" "P - (P - {p}) = {p}" using page(1) by auto
    ultimately show ?thesis
      using entry [of ?m f "insert p T" "P - {p}"] e nt(2,3,4) pte_addr_nonzero [OF nt(1,3)] card_remove_le [of P p] False by auto
  qed
qed

text \<open>Writing the entry that walkpgdir found.\<close>

lemma vm_inv_store:
  assumes inv: "vm_inv s pd T P" and p: "pde_present (kmem s) pd va"
  shows "vm_inv (set_mem (store32 (kmem s) (pte_addr (kmem s) pd va) v) (freelist s) s) pd T P"
proof -
  let ?t = "pt_table (kmem s) pd (PDX va)"
  have wf: "pt_wf (kmem s) pd T" using inv by (simp add: vm_inv_def)
  have t: "?t \<in> T" by (rule pt_wf_table [OF wf p])
  have "?t \<notin> P" using inv t by (auto simp: vm_inv_def)
  then have "free_pages (s\<lparr>kmem := store32 (kmem s) (?t + 4 * PTX va) v\<rparr>) P"
    using inv by (intro pa.store_page) (simp_all add: vm_inv_def PTX_less)
  then show ?thesis
    using inv pt_wf_store [OF wf t PTX_less] by (simp add: vm_inv_def set_mem_intro pte_addr_table)
qed

lemma pte_store_frame:
  assumes "pt_wf m pd T" "pde_present m pd va" "\<forall>t \<in> T. \<not> in_page t x"
  shows "store32 m (pte_addr m pd va) v x = m x"
  using pt_wf_table [OF assms(1,2)] assms(3) unfolding pte_addr_table
  by (intro store32_page_frame) (simp_all add: PTX_less)

text \<open>The map after consecutive pages have been mapped to consecutive frames.\<close>

primrec map_range :: "(ptr \<Rightarrow> uint option) \<Rightarrow> ptr \<Rightarrow> uint \<Rightarrow> uint \<Rightarrow> nat \<Rightarrow> ptr \<Rightarrow> uint option" where
  "map_range M a pa perm 0 = M"
| "map_range M a pa perm (Suc n) =
     (map_range M a pa perm n)(a + of_nat n * PGSIZE \<mapsto> (pa + of_nat n * PGSIZE) OR perm OR PTE_P)"

lemma map_range_Suc:
  "map_range M a pa perm (Suc n) =
     map_range (M(a \<mapsto> pa OR perm OR PTE_P)) (a + PGSIZE) (pa + PGSIZE) perm n"
proof (induction n)
  case (Suc n)
  let ?M = "M(a \<mapsto> pa OR perm OR PTE_P)"
  have e: "x + PGSIZE + of_nat n * PGSIZE = x + of_nat (Suc n) * PGSIZE" for x :: uint
    by (simp add: algebra_simps)
  have "map_range ?M (a + PGSIZE) (pa + PGSIZE) perm (Suc n)
    = (map_range M a pa perm (Suc n))(a + of_nat (Suc n) * PGSIZE \<mapsto> (pa + of_nat (Suc n) * PGSIZE) OR perm OR PTE_P)"
    unfolding Suc.IH by (simp only: map_range.simps(2) e)
  then show ?case by (simp only: map_range.simps(2))
qed simp

lemma page_multiple:
  assumes "0 < i" "i < 2 ^ 20"
  shows "a + of_nat i * PGSIZE \<noteq> (a :: uint)"
proof
  assume "a + of_nat i * PGSIZE = a"
  then have z: "of_nat i * PGSIZE = (0 :: uint)" by simp
  have "unat (of_nat i :: uint) = i" using assms by (simp add: unat_of_nat)
  then have "unat (of_nat i * PGSIZE :: uint) = i * 4096"
    using assms(2) unat_mult_lem [of "of_nat i" PGSIZE] by simp
  then show False unfolding z using assms(1) by simp
qed

lemma page_aligned_add: "page_aligned a \<Longrightarrow> page_aligned (a + PGSIZE)"
proof -
  assume "page_aligned a"
  have d: "(4096 :: nat) dvd 4294967296" by simp
  have "unat (a + PGSIZE) = (unat a + 4096) mod 4294967296" by (simp add: unat_word_ariths)
  then have "unat (a + PGSIZE) mod 4096 = unat a mod 4096" by (simp only: mod_mod_cancel [OF d] mod_add_self2)
  then show ?thesis using \<open>page_aligned a\<close> by (simp add: page_aligned_unat)
qed

lemma or_present: "(x OR 1) AND 1 \<noteq> (0 :: uint)"
proof
  assume "(x OR 1) AND 1 = 0"
  then have "bit ((x OR 1) AND 1) 0 = bit (0 :: uint) 0" by simp
  then show False by (simp add: bit_simps)
qed


text \<open>
  Extending a page directory: pages move from the free list to the tables, and memory outside
  the directory and its tables stays as it is.
\<close>

definition vm_ext :: "kernel \<Rightarrow> ptr \<Rightarrow> ptr set \<Rightarrow> ptr set \<Rightarrow> kernel \<Rightarrow> ptr set \<Rightarrow> ptr set \<Rightarrow> bool" where
  "vm_ext s pd T P s' T' P' \<longleftrightarrow> (\<exists>m f. s' = set_mem m f s) \<and> vm_inv s' pd T' P' \<and> T \<subseteq> T' \<and> T' \<union> P' = T \<union> P
     \<and> (\<forall>x. \<not> in_page pd x \<longrightarrow> (\<forall>t \<in> T'. \<not> in_page t x) \<longrightarrow> kmem s' x = kmem s x)"

lemma vm_ext_refl: "vm_inv s pd T P \<Longrightarrow> vm_ext s pd T P s T P"
proof -
  have "s = set_mem (kmem s) (freelist s) s" by (simp add: set_mem_def)
  then show "vm_inv s pd T P \<Longrightarrow> vm_ext s pd T P s T P" unfolding vm_ext_def by blast
qed

lemma vm_ext_trans:
  assumes "vm_ext s pd T P s1 T1 P1" "vm_ext s1 pd T1 P1 s2 T2 P2"
  shows "vm_ext s pd T P s2 T2 P2"
proof -
  obtain m f m' f' where e: "s1 = set_mem m f s" "s2 = set_mem m' f' s1"
    using assms unfolding vm_ext_def by blast
  then have "s2 = set_mem m' f' s" by simp
  moreover have "kmem s2 x = kmem s x" if "\<not> in_page pd x" "\<forall>t \<in> T2. \<not> in_page t x" for x
  proof -
    have "T1 \<subseteq> T2" using assms(2) by (simp add: vm_ext_def)
    then have "\<forall>t \<in> T1. \<not> in_page t x" using that(2) by blast
    then show ?thesis using assms that unfolding vm_ext_def by metis
  qed
  moreover have "vm_inv s2 pd T2 P2" "T \<subseteq> T2" "T2 \<union> P2 = T \<union> P" using assms unfolding vm_ext_def by blast+
  ultimately show ?thesis unfolding vm_ext_def by blast
qed

lemma vm_ext_inv: "vm_ext s pd T P s' T' P' \<Longrightarrow> vm_inv s' pd T' P'"
  by (simp add: vm_ext_def)

lemma mappages_step:
  assumes inv: "vm_inv s pd T P" and al: "page_aligned a" and free: "vmap (kmem s) pd a = None"
  obtains (full) "P = {}" "mappages_loop (Suc fuel) pd a lst pa perm s = Ok (- 1) s" "\<not> pde_present (kmem s) pd a"
  | (mapped) s' T' P' where "vm_ext s pd T P s' T' P'"
      "mappages_loop (Suc fuel) pd a lst pa perm s = (if a = lst then ret 0
         else mappages_loop fuel pd (a + PGSIZE) lst (pa + PGSIZE) perm) s'"
      "vmap (kmem s') pd = (vmap (kmem s) pd)(a \<mapsto> pa OR perm OR PTE_P)" "card P \<le> Suc (card P')" "pde_present (kmem s) pd a \<Longrightarrow> P' = P"
  using inv
proof (cases rule: walkpgdir_alloc [where va = a])
  case full
  then show ?thesis using that(1) by (simp add: bindM_def ret_def)
next
  case (entry m f T' P')
  let ?s = "set_mem m f s" and ?v = "pa OR perm OR PTE_P" and ?p = "pte_addr m pd a"
  let ?m = "store32 m ?p ?v"
  have wf: "pt_wf m pd T'" using entry(2) by (simp add: vm_inv_def)
  have "vmap m pd a = None" using free entry(7) by simp
  then have np: "load32 m ?p AND 1 = 0" using entry(5) al by (simp add: vmap_def split: if_splits)
  have v: "?v AND 1 \<noteq> 0" using or_present [of "pa OR perm"] by (simp add: or.assoc)
  have inv': "vm_inv (set_mem ?m f s) pd T' P'" using vm_inv_store [OF entry(2), of a ?v] entry(5) by simp
  have vm: "vmap (kmem (set_mem ?m f s)) pd = (vmap (kmem s) pd)(a \<mapsto> ?v)"
    using vmap_store [OF wf entry(5) al, of ?v] v entry(7) by simp
  have run: "mappages_loop (Suc fuel) pd a lst pa perm s = (if a = lst then ret 0
         else mappages_loop fuel pd (a + PGSIZE) lst (pa + PGSIZE) perm) (set_mem ?m f s)"
    using entry(1,6) np by (simp add: gets_def seqM_def modify_def)
  have frame: "?m x = kmem s x" if "\<not> in_page pd x" "\<forall>t \<in> T'. \<not> in_page t x" for x
  proof -
    have "P - P' \<subseteq> T'" using entry(3) by blast
    then have "m x = kmem s x" using entry(8) [OF that(1)] that(2) by blast
    then show ?thesis using pte_store_frame [OF wf entry(5) that(2)] by simp
  qed
  have "vm_ext s pd T P (set_mem ?m f s) T' P'"
    unfolding vm_ext_def set_mem_fields using inv' entry(3,4) frame by blast
  then show ?thesis using that(2) run vm entry(9,10) by blast
qed

text \<open>
  The whole loop: every page of the range is mapped, or memory runs out after some of them.
  The pages must not be mapped before.
\<close>

lemma mappages_loop_ok:
  assumes "vm_inv s pd T P" "page_aligned a" "n < fuel" "n < 2 ^ 20"
    "\<And>i. i \<le> n \<Longrightarrow> vmap (kmem s) pd (a + of_nat i * PGSIZE) = None"
  obtains (full) s' T' k where
      "mappages_loop fuel pd a (a + of_nat n * PGSIZE) pa perm s = Ok (- 1) s'" "vm_ext s pd T P s' T' {}"
      "k \<le> n" "vmap (kmem s') pd = map_range (vmap (kmem s) pd) a pa perm k"
  | (mapped) s' T' P' where
      "mappages_loop fuel pd a (a + of_nat n * PGSIZE) pa perm s = Ok 0 s'" "vm_ext s pd T P s' T' P'"
      "vmap (kmem s') pd = map_range (vmap (kmem s) pd) a pa perm (Suc n)"
  using assms
proof (induction n arbitrary: s T P a pa fuel thesis)
  case (0 s T P a pa fuel)
  obtain fu where fu: "fuel = Suc fu" using 0(5) by (cases fuel) auto
  have n0: "vmap (kmem s) pd a = None" using 0(7) [of 0] by simp
  from 0(3,4) n0 show ?case
  proof (cases rule: mappages_step [where fuel = fu and lst = a and pa = pa and perm = perm])
    case full
    then show ?thesis using 0(1) [of s T 0] 0(3) vm_ext_refl fu by simp
  next
    case (mapped s' T' P')
    then show ?thesis using 0(2) [of s' T' P'] fu by (simp add: ret_def)
  qed
next
  case (Suc n s T P a pa fuel)
  obtain fu where fu: "fuel = Suc fu" "n < fu" using Suc.prems(5) by (cases fuel) auto
  have n0: "vmap (kmem s) pd a = None" using Suc.prems(7) [of 0] by simp
  let ?l = "a + of_nat (Suc n) * PGSIZE"
  have dist: "a + of_nat (Suc i) * PGSIZE \<noteq> a" if "i \<le> n" for i
    by (rule page_multiple) (use Suc.prems(6) that in simp_all)
  have ne: "a \<noteq> ?l" using dist [of n] by (simp only: not_sym order_refl simp_thms)
  have e: "a + PGSIZE + of_nat i * PGSIZE = a + of_nat (Suc i) * PGSIZE" for i
    by (simp add: algebra_simps)
  from Suc.prems(3,4) n0 show ?case
  proof (cases rule: mappages_step [where fuel = fu and lst = ?l and pa = pa and perm = perm])
    case full
    then show ?thesis using Suc.prems(1) [of s T 0] Suc.prems(3) vm_ext_refl fu by simp
  next
    case (mapped s1 T1 P1)
    have free: "vmap (kmem s1) pd (a + PGSIZE + of_nat i * PGSIZE) = None" if "i \<le> n" for i
      unfolding mapped(3) e fun_upd_other [OF dist [OF that]] by (rule Suc.prems(7)) (use that in simp)
    have step: "mappages_loop fuel pd a ?l pa perm s
        = mappages_loop fu pd (a + PGSIZE) (a + PGSIZE + of_nat n * PGSIZE) (pa + PGSIZE) perm s1"
      using mapped(2) ne fu(1) unfolding e by simp
    have n20: "n < 2 ^ 20" using Suc.prems(6) by simp
    show ?thesis
    proof (rule Suc.IH [OF _ _ vm_ext_inv [OF mapped(1)] page_aligned_add [OF Suc.prems(4)] fu(2) n20 free])
      fix s2 T2 k
      assume "mappages_loop fu pd (a + PGSIZE) (a + PGSIZE + of_nat n * PGSIZE) (pa + PGSIZE) perm s1 = Ok (- 1) s2"
        "vm_ext s1 pd T1 P1 s2 T2 {}" "k \<le> n"
        "vmap (kmem s2) pd = map_range (vmap (kmem s1) pd) (a + PGSIZE) (pa + PGSIZE) perm k"
      then show ?thesis using Suc.prems(1) [of s2 T2 "Suc k"] step vm_ext_trans [OF mapped(1)]
        unfolding mapped(3) map_range_Suc [symmetric] by simp
    next
      fix s2 T2 P2
      assume "mappages_loop fu pd (a + PGSIZE) (a + PGSIZE + of_nat n * PGSIZE) (pa + PGSIZE) perm s1 = Ok 0 s2"
        "vm_ext s1 pd T1 P1 s2 T2 P2"
        "vmap (kmem s2) pd = map_range (vmap (kmem s1) pd) (a + PGSIZE) (pa + PGSIZE) perm (Suc n)"
      then show ?thesis using Suc.prems(2) [of s2 T2 P2] step vm_ext_trans [OF mapped(1)]
        unfolding mapped(3) map_range_Suc [symmetric] by simp
    qed
  qed
qed

text \<open>One page at an aligned address, the case the kernel uses for user memory.\<close>

lemma PGROUNDDOWN_last: "page_aligned va \<Longrightarrow> PGROUNDDOWN (va + PGSIZE - 1) = va"
proof -
  assume va: "page_aligned va"
  have "in_page va (va + 4095)" by (rule in_page_add) simp
  from in_page_eq [OF va this] have "PGROUNDDOWN (va + 4095) = va" by (rule sym)
  moreover have "va + PGSIZE - 1 = va + 4095" by simp
  ultimately show ?thesis by (simp only:)
qed

lemma mappages_page:
  assumes "vm_inv s pd T P" "page_aligned va" "vmap (kmem s) pd va = None"
  obtains (full) "P = {}" "mappages pd va PGSIZE pa perm s = Ok (- 1) s"
  | (mapped) s' T' P' where "mappages pd va PGSIZE pa perm s = Ok 0 s'" "vm_ext s pd T P s' T' P'"
      "vmap (kmem s') pd = (vmap (kmem s) pd)(va \<mapsto> pa OR perm OR PTE_P)" "card P \<le> Suc (card P')"
proof -
  have e: "mappages pd va PGSIZE pa perm = mappages_loop (Suc (NPAGES - 1)) pd va va pa perm"
    unfolding mappages_def PGROUNDDOWN_last [OF assms(2)] PGROUNDDOWN_id [OF assms(2)]
    by (simp add: NPAGES_def del: mappages_loop.simps)
  from assms show thesis
  proof (cases rule: mappages_step [where fuel = "NPAGES - 1" and lst = va and pa = pa and perm = perm])
    case full
    then show thesis using that(1) unfolding e by blast
  next
    case (mapped s' T' P')
    then show thesis using that(2) [of s' T' P'] unfolding e by (simp add: ret_def del: mappages_loop.simps)
  qed
qed

text \<open>Writes outside the directory and its tables do not change the map.\<close>

lemma pt_frame:
  assumes wf: "pt_wf m pd T" and eq: "\<And>q x. q = pd \<or> q \<in> T \<Longrightarrow> in_page q x \<Longrightarrow> m' x = m x"
  shows "pt_wf m' pd T" "vmap m' pd = vmap m pd" "pde_present m' pd = pde_present m pd"
    "pte_addr m' pd = pte_addr m pd"
proof -
  have pd: "page_aligned pd" using wf by (simp add: pt_wf_def)
  have l: "load32 m' (pd + 4 * i) = load32 m (pd + 4 * i)" if "i < 1024" for i
    using load32_page_cong [OF pd that] eq by blast
  show "pt_wf m' pd T" using wf l by (simp add: pt_wf_def pt_table_def)
  show p: "pde_present m' pd = pde_present m pd" by (simp add: pde_present_def fun_eq_iff l PDX_less)
  show a: "pte_addr m' pd = pte_addr m pd" by (simp add: pte_addr_def fun_eq_iff l PDX_less)
  have "load32 m' (pte_addr m pd b) = load32 m (pte_addr m pd b)" if "pde_present m pd b" for b
    unfolding pte_addr_table using pt_wf_table [OF wf that] eq
    by (intro load32_page_cong) (auto simp: PTX_less)
  then show "vmap m' pd = vmap m pd" by (auto simp: vmap_def p a fun_eq_iff)
qed

end
