(* ===== verification/Vm_User.thy ===== *)
theory Vm_User
  imports Vm_Map
begin

text \<open>
  User memory: the frames an address space owns, and the effect of allocuvm, deallocuvm and
  copyuvm on the map and on the allocator.
\<close>

section \<open>User memory\<close>

text \<open>
  The frames of the user part of an address space: every mapped user page has a frame of its
  own, which is a proper page that is neither free nor part of the page table.
\<close>

definition frame_of :: "uint \<Rightarrow> ptr" where
  "frame_of e = P2V (PTE_ADDR e)"

definition user_frames :: "mem \<Rightarrow> ptr \<Rightarrow> ptr set" where
  "user_frames m pd = {frame_of e | va e. va < KERNBASE \<and> vmap m pd va = Some e}"

definition uvm_inv :: "kernel \<Rightarrow> ptr \<Rightarrow> ptr set \<Rightarrow> ptr set \<Rightarrow> bool" where
  "uvm_inv s pd T P \<longleftrightarrow> vm_inv s pd T P
     \<and> user_frames (kmem s) pd \<inter> insert pd (T \<union> P) = {} \<and> (\<forall>f \<in> user_frames (kmem s) pd. page_ok s f)
     \<and> (\<forall>a b e e'. a < KERNBASE \<longrightarrow> b < KERNBASE \<longrightarrow> vmap (kmem s) pd a = Some e \<longrightarrow> vmap (kmem s) pd b = Some e'
          \<longrightarrow> frame_of e = frame_of e' \<longrightarrow> a = b)"

lemma uvm_inv_vm: "uvm_inv s pd T P \<Longrightarrow> vm_inv s pd T P"
  by (simp add: uvm_inv_def)

lemma user_framesI: "vmap m pd va = Some e \<Longrightarrow> va < KERNBASE \<Longrightarrow> frame_of e \<in> user_frames m pd"
  by (auto simp: user_frames_def)

lemma vmap_present: "vmap m pd va = Some e \<Longrightarrow> pde_present m pd va \<and> page_aligned va \<and> e = load32 m (pte_addr m pd va) \<and> e AND PTE_P \<noteq> 0"
  by (auto simp: vmap_def split: if_splits)

lemma page_ok_PTE_ADDR: "page_ok s (frame_of e) \<Longrightarrow> KERNBASE < kend s \<Longrightarrow> PTE_ADDR e \<noteq> 0"
  by (auto simp: page_ok_def frame_of_def P2V_def not_less)

lemma free_pages_kend: "free_pages s P \<Longrightarrow> KERNBASE < kend s"
  by (auto simp: free_pages_def kmem_inv_def)



lemma uvm_inv_inj:
  assumes "uvm_inv s pd T P" "a < KERNBASE" "b < KERNBASE" "vmap (kmem s) pd a = Some e"
    "vmap (kmem s) pd b = Some e'" "frame_of e = frame_of e'"
  shows "a = b"
  using assms by (simp add: uvm_inv_def)

lemma uvm_inv_map:
  assumes "uvm_inv s pd T P" "vm_inv s' pd T' P'" "vmap (kmem s') pd \<subseteq>\<^sub>m vmap (kmem s) pd" "kend s' = kend s"
    "user_frames (kmem s') pd \<inter> insert pd (T' \<union> P') = {}"
  shows "uvm_inv s' pd T' P'"
proof -
  have sub: "vmap (kmem s) pd a = Some e" if "vmap (kmem s') pd a = Some e" for a e
    using assms(3) that by (auto simp: map_le_def dom_def)
  then have "user_frames (kmem s') pd \<subseteq> user_frames (kmem s) pd" by (auto simp: user_frames_def)
  then have ok: "\<forall>f \<in> user_frames (kmem s') pd. page_ok s' f"
    using assms(1,4) by (auto simp: uvm_inv_def page_ok_def)
  show ?thesis unfolding uvm_inv_def
    by (intro conjI allI impI assms(2,5) ok) (rule uvm_inv_inj [OF assms(1) _ _ sub sub])
qed

text \<open>Freeing the frame of a user page and clearing its entry.\<close>

lemma unmap_page:
  assumes inv: "uvm_inv s pd T P" and a: "a < KERNBASE" and e: "vmap (kmem s) pd a = Some e"
    and p: "p = pte_addr (kmem s) pd a"
  shows "\<exists>m f. seqM (kfree (frame_of e)) (modify (\<lambda>s. s\<lparr>kmem := store32 (kmem s) p 0\<rparr>)) s = Ok () (set_mem m f s)
    \<and> uvm_inv (set_mem m f s) pd T (insert (frame_of e) P)
    \<and> vmap m pd = (vmap (kmem s) pd)(a := None)
    \<and> (\<forall>x. \<not> in_page (frame_of e) x \<longrightarrow> (\<forall>t \<in> T. \<not> in_page t x) \<longrightarrow> m x = kmem s x)"
proof -
  let ?f = "frame_of e"
  have fr: "?f \<in> user_frames (kmem s) pd" using e a by (rule user_framesI)
  then have ok: "page_ok s ?f" and dis: "?f \<noteq> pd" "?f \<notin> T" "?f \<notin> P" using inv unfolding uvm_inv_def by blast+
  have vi: "vm_inv s pd T P" using inv by (simp add: uvm_inv_def)
  then have fp: "free_pages s P" and wf: "pt_wf (kmem s) pd T" by (simp_all add: vm_inv_def)
  from pa.free_page [OF fp ok dis(3)] obtain m where m: "kfree ?f s = Ok () (set_mem m ?f s)"
    "free_pages (set_mem m ?f s) (insert ?f P)" "\<And>x. \<not> in_page ?f x \<Longrightarrow> m x = kmem s x"
    unfolding set_mem_def by blast
  have al: "page_aligned ?f" using ok by (simp add: page_ok_def)
  have eq: "m x = kmem s x" if "q = pd \<or> q \<in> T" "in_page q x" for q x
  proof (rule m(3), rule in_page_disjoint [OF _ al _ that(2)])
    show "page_aligned q" using wf that(1) by (auto simp: pt_wf_def)
    show "q \<noteq> ?f" using dis that(1) by auto
  qed
  have pf: "pt_wf m pd T" "vmap m pd = vmap (kmem s) pd" "pde_present m pd = pde_present (kmem s) pd"
    "pte_addr m pd = pte_addr (kmem s) pd"
    by (rule pt_frame [OF wf], erule (1) eq)+
  have v1: "vm_inv (set_mem m ?f s) pd T (insert ?f P)" using vi m(2) pf(1) dis by (auto simp: vm_inv_def)
  have pr: "pde_present m pd a" "page_aligned a" using vmap_present [OF e] pf(3) by simp_all
  let ?m = "store32 m p 0"
  have pe: "p = pte_addr m pd a" using pf(4) p by simp
  have v2: "vm_inv (set_mem ?m ?f s) pd T (insert ?f P)" using vm_inv_store [OF v1, of a 0] pr(1) pe by simp
  have vm: "vmap ?m pd = (vmap (kmem s) pd)(a := None)"
    using vmap_store [OF pf(1) pr, of 0] pf(2) pe by simp
  have "user_frames ?m pd \<subseteq> user_frames (kmem s) pd - {?f}"
    using inv e a unfolding vm user_frames_def uvm_inv_def by (auto split: if_splits)
  then have "user_frames ?m pd \<inter> insert pd (T \<union> insert ?f P) = {}" using inv unfolding uvm_inv_def by blast
  moreover have "vmap ?m pd \<subseteq>\<^sub>m vmap (kmem s) pd" unfolding vm by (simp add: map_le_def)
  ultimately have u: "uvm_inv (set_mem ?m ?f s) pd T (insert ?f P)"
    using uvm_inv_map [OF inv v2] by simp
  have "seqM (kfree ?f) (modify (\<lambda>s. s\<lparr>kmem := store32 (kmem s) p 0\<rparr>)) s = Ok () (set_mem ?m ?f s)"
    using m(1) by (simp add: seqM_def modify_def)
  moreover have "?m x = kmem s x" if "\<not> in_page ?f x" "\<forall>t \<in> T. \<not> in_page t x" for x
    using pte_store_frame [OF pf(1) pr(1) that(2), of 0] m(3) [OF that(1)] pe by simp
  ultimately show ?thesis using u vm by blast
qed

section \<open>deallocuvm\<close>

definition clear_range :: "(ptr \<Rightarrow> uint option) \<Rightarrow> ptr \<Rightarrow> ptr \<Rightarrow> ptr \<Rightarrow> uint option" where
  "clear_range M a b = (\<lambda>va. if a \<le> va \<and> va < b then None else M va)"

text \<open>Giving frames back: no page is lost, and only page tables and freed pages are written.\<close>

definition uvm_shrink :: "kernel \<Rightarrow> ptr \<Rightarrow> ptr set \<Rightarrow> ptr set \<Rightarrow> kernel \<Rightarrow> ptr set \<Rightarrow> bool" where
  "uvm_shrink s pd T P s' P' \<longleftrightarrow> (\<exists>m f. s' = set_mem m f s) \<and> uvm_inv s' pd T P' \<and> P \<subseteq> P'
     \<and> P' \<union> user_frames (kmem s') pd = P \<union> user_frames (kmem s) pd
     \<and> (\<forall>x. (\<forall>q \<in> T \<union> (P' - P). \<not> in_page q x) \<longrightarrow> kmem s' x = kmem s x)"

lemma uvm_shrink_refl: "uvm_inv s pd T P \<Longrightarrow> uvm_shrink s pd T P s P"
proof -
  have "s = set_mem (kmem s) (freelist s) s" by (simp add: set_mem_def)
  then show "uvm_inv s pd T P \<Longrightarrow> uvm_shrink s pd T P s P" unfolding uvm_shrink_def by blast
qed

lemma uvm_shrink_trans:
  assumes "uvm_shrink s pd T P s1 P1" "uvm_shrink s1 pd T P1 s2 P2"
  shows "uvm_shrink s pd T P s2 P2"
proof -
  obtain m f m' f' where "s1 = set_mem m f s" "s2 = set_mem m' f' s1"
    using assms unfolding uvm_shrink_def by blast
  then have "s2 = set_mem m' f' s" by simp
  moreover have sub: "P \<subseteq> P1" "P1 \<subseteq> P2" using assms unfolding uvm_shrink_def by blast+
  moreover have "kmem s2 x = kmem s x" if "\<forall>q \<in> T \<union> (P2 - P). \<not> in_page q x" for x
  proof -
    have "\<forall>q \<in> T \<union> (P1 - P). \<not> in_page q x" "\<forall>q \<in> T \<union> (P2 - P1). \<not> in_page q x" using that sub by blast+
    then show ?thesis using assms unfolding uvm_shrink_def by metis
  qed
  moreover have "uvm_inv s2 pd T P2" "P2 \<union> user_frames (kmem s2) pd = P \<union> user_frames (kmem s) pd"
    using assms unfolding uvm_shrink_def by blast+
  ultimately show ?thesis unfolding uvm_shrink_def by blast
qed

lemma unmap_shrink:
  assumes inv: "uvm_inv s pd T P" and a: "a < KERNBASE" and e: "vmap (kmem s) pd a = Some e"
    and p: "p = pte_addr (kmem s) pd a"
  obtains s' P' where "seqM (kfree (P2V (PTE_ADDR e))) (modify (\<lambda>s. s\<lparr>kmem := store32 (kmem s) p 0\<rparr>)) s = Ok () s'"
    "uvm_shrink s pd T P s' P'" "vmap (kmem s') pd = (vmap (kmem s) pd)(a := None)"
proof -
  obtain m f where u: "seqM (kfree (frame_of e)) (modify (\<lambda>s. s\<lparr>kmem := store32 (kmem s) p 0\<rparr>)) s = Ok () (set_mem m f s)"
    "uvm_inv (set_mem m f s) pd T (insert (frame_of e) P)" "vmap m pd = (vmap (kmem s) pd)(a := None)"
    "\<And>x. \<not> in_page (frame_of e) x \<Longrightarrow> \<forall>t \<in> T. \<not> in_page t x \<Longrightarrow> m x = kmem s x"
    using unmap_page [OF assms] by blast
  have fr: "frame_of e \<in> user_frames (kmem s) pd" using e a by (rule user_framesI)
  have nP: "frame_of e \<notin> P" using fr inv unfolding uvm_inv_def by blast
  have uf: "user_frames (kmem s) pd = insert (frame_of e) (user_frames m pd)"
  proof -
    have "user_frames m pd \<subseteq> user_frames (kmem s) pd" unfolding user_frames_def u(3) by (auto split: if_splits)
    moreover have "f' \<in> insert (frame_of e) (user_frames m pd)" if f': "f' \<in> user_frames (kmem s) pd" for f'
    proof -
      obtain va e' where v: "va < KERNBASE" "vmap (kmem s) pd va = Some e'" "f' = frame_of e'"
        using f' by (auto simp: user_frames_def)
      then show ?thesis using e user_framesI [of m pd va e'] by (cases "va = a") (auto simp: u(3))
    qed
    ultimately show ?thesis using fr by blast
  qed
  have "uvm_shrink s pd T P (set_mem m f s) (insert (frame_of e) P)"
    unfolding uvm_shrink_def set_mem_fields using u(2,4) uf nP by blast
  then show ?thesis using that u(1,3) by (simp add: frame_of_def)
qed

lemma vmap_unaligned: "\<not> page_aligned va \<Longrightarrow> vmap m pd va = None"
  by (simp add: vmap_def)

lemma unat_next_page: "a < KERNBASE \<Longrightarrow> unat (a + PGSIZE) = unat a + 4096"
  using unat_add_lem [of a PGSIZE] by (simp add: word_less_nat_alt)

lemma next_page_le: "a < KERNBASE \<Longrightarrow> a + PGSIZE \<le> va \<longleftrightarrow> unat a + 4096 \<le> unat va"
  by (simp add: word_le_nat_alt unat_next_page)

lemma inside_page':
  assumes "page_aligned a" "a < KERNBASE" "a < va" "\<not> a + PGSIZE \<le> va"
  shows "\<not> page_aligned va"
proof
  have "unat va < unat a + 4096" "unat a < unat va"
    using assms(3,4) next_page_le [OF assms(2)] by (simp_all add: word_less_nat_alt)
  moreover obtain k where "unat a = 4096 * k" using assms(1) by (auto simp: page_aligned_unat)
  ultimately have "unat va div 4096 = k" "unat va \<noteq> 4096 * k" by (simp_all add: div_nat_eqI)
  moreover assume "page_aligned va"
  ultimately show False using mult_div_mod_eq [of 4096 "unat va"] by (auto simp: page_aligned_unat)
qed

lemma inside_page:
  "page_aligned a \<Longrightarrow> a < KERNBASE \<Longrightarrow> a < va \<Longrightarrow> \<not> a + PGSIZE \<le> va \<Longrightarrow> vmap m pd va = None"
  using inside_page' by (simp add: vmap_unaligned)

lemma clear_range_step:
  assumes "page_aligned a" "a < KERNBASE" "a < b"
  shows "clear_range ((vmap m pd)(a := None)) (a + PGSIZE) b = clear_range (vmap m pd) a b"
proof
  fix va
  have "a + PGSIZE \<le> va \<Longrightarrow> a < va" using next_page_le [OF assms(2)] by (simp add: word_less_nat_alt)
  moreover have "a \<le> va \<longleftrightarrow> va = a \<or> a < va" by auto
  ultimately show "clear_range ((vmap m pd)(a := None)) (a + PGSIZE) b va = clear_range (vmap m pd) a b va"
    using inside_page [OF assms(1,2), of va m pd] assms(3) unfolding clear_range_def by auto
qed

lemma clear_range_id: "\<not> a < b \<Longrightarrow> clear_range M a b = M"
  by (auto simp: clear_range_def fun_eq_iff)

lemma clear_range_skip:
  assumes "a < KERNBASE" "\<not> pde_present m pd a"
  shows "clear_range (vmap m pd) (PGADDR (PDX a + 1) 0 0) b = clear_range (vmap m pd) a b"
proof
  fix va
  have "unat a < unat (PGADDR (PDX a + 1) 0 0)"
    unfolding unat_next_table [OF assms(1)] using dividend_less_times_div [of 4194304 "unat a"] by simp
  then have "PGADDR (PDX a + 1) 0 0 \<le> va \<Longrightarrow> a \<le> va" by (simp add: word_le_nat_alt)
  moreover have "vmap m pd va = None" if "a \<le> va" "\<not> PGADDR (PDX a + 1) 0 0 \<le> va"
    using same_table [OF assms(1) that(1)] that(2) assms(2) by (simp add: vmap_def pde_present_def not_le)
  ultimately show "clear_range (vmap m pd) (PGADDR (PDX a + 1) 0 0) b va = clear_range (vmap m pd) a b va"
    unfolding clear_range_def by auto
qed

lemma next_table_page:
  assumes "page_aligned a" "a < KERNBASE"
  shows "unat a + 4096 \<le> unat (PGADDR (PDX a + 1) 0 0)"
proof -
  have "unat a < unat (PGADDR (PDX a + 1) 0 0)"
    unfolding unat_next_table [OF assms(2)] using dividend_less_times_div [of 4194304 "unat a"] by simp
  moreover obtain k l where k: "unat a = 4096 * k" "unat (PGADDR (PDX a + 1) 0 0) = 4096 * l"
    using assms(1) next_table_aligned [of "PDX a + 1"] by (auto simp: page_aligned_unat elim!: dvdE)
  ultimately have "k < l" by simp
  then have "4096 * (k + 1) \<le> 4096 * l" by (intro mult_le_mono2) simp
  then show ?thesis unfolding k by simp
qed

lemma deallocuvm_loop_ok:
  assumes "uvm_inv s pd T P" "page_aligned a" "oldsz \<le> KERNBASE" "unat oldsz \<le> unat a + 4096 * n"
  obtains s' P' where "deallocuvm_loop (Suc n) pd a oldsz s = Ok () s'" "uvm_shrink s pd T P s' P'"
    "vmap (kmem s') pd = clear_range (vmap (kmem s) pd) a oldsz"
  using assms
proof (induction n arbitrary: s P a thesis)
  case (0 s P a)
  then have "\<not> a < oldsz" by (simp add: word_less_nat_alt)
  then show ?case using 0(1) [of s P] 0(2) uvm_shrink_refl by (simp add: ret_def clear_range_id)
next
  case (Suc n s P a)
  show ?case
  proof (cases "a < oldsz")
    case False
    then show ?thesis using Suc.prems(1) [of s P] Suc.prems(2) uvm_shrink_refl by (simp add: ret_def clear_range_id)
  next
    case True
    then have a: "a < KERNBASE" using Suc.prems(4) by (rule less_le_trans)
    have wf: "pt_wf (kmem s) pd T" using Suc.prems(2) by (simp add: uvm_inv_def vm_inv_def)
    show ?thesis
    proof (cases "pde_present (kmem s) pd a")
      case False
      let ?a = "PGADDR (PDX a + 1) 0 0"
      have "unat oldsz \<le> unat ?a + 4096 * n"
        using Suc.prems(5) next_table_page [OF Suc.prems(3) a] by simp
      from Suc.IH [OF _ Suc.prems(2) next_table_aligned Suc.prems(4) this] obtain s' P' where
        "deallocuvm_loop (Suc n) pd ?a oldsz s = Ok () s'" "uvm_shrink s pd T P s' P'"
        "vmap (kmem s') pd = clear_range (vmap (kmem s) pd) ?a oldsz" by blast
      then show ?thesis using Suc.prems(1) [of s' P'] True walkpgdir_absent [OF False]
        by (simp add: clear_range_skip [OF a False] del: deallocuvm_loop.simps)
          (simp add: deallocuvm_loop.simps(2) [of "Suc n"] del: deallocuvm_loop.simps)
    next
      case pr: True
      let ?p = "pte_addr (kmem s) pd a" and ?e = "load32 (kmem s) (pte_addr (kmem s) pd a)"
      have pn: "?p \<noteq> 0" by (rule pte_addr_nonzero [OF wf pr])
      obtain s1 P1 where s1: "(if ?e AND PTE_P \<noteq> 0
            then if PTE_ADDR ?e = 0 then panic ''kfree''
                 else seqM (kfree (P2V (PTE_ADDR ?e))) (modify (\<lambda>s. s\<lparr>kmem := store32 (kmem s) ?p 0\<rparr>))
            else ret ()) s = Ok () s1" "uvm_shrink s pd T P s1 P1"
        "vmap (kmem s1) pd = (vmap (kmem s) pd)(a := None)"
      proof (cases "?e AND PTE_P = 0")
        case True
        then have "(vmap (kmem s) pd)(a := None) = vmap (kmem s) pd" by (auto simp: vmap_def fun_eq_iff)
        then show ?thesis using that [of s P] True uvm_shrink_refl [OF Suc.prems(2)] by (simp add: ret_def)
      next
        case False
        then have v: "vmap (kmem s) pd a = Some ?e" using pr Suc.prems(3) by (simp add: vmap_def)
        then have "page_ok s (frame_of ?e)" using Suc.prems(2) user_framesI [OF v a] by (simp add: uvm_inv_def)
        moreover have "KERNBASE < kend s" using Suc.prems(2) free_pages_kend by (auto simp: uvm_inv_def vm_inv_def)
        ultimately have "PTE_ADDR ?e \<noteq> 0" by (rule page_ok_PTE_ADDR)
        then show ?thesis using unmap_shrink [OF Suc.prems(2) a v refl] that False by auto
      qed
      have inv1: "uvm_inv s1 pd T P1" using s1(2) by (simp add: uvm_shrink_def)
      have "unat oldsz \<le> unat (a + PGSIZE) + 4096 * n" using Suc.prems(5) unat_next_page [OF a] by simp
      from Suc.IH [OF _ inv1 page_aligned_add [OF Suc.prems(3)] Suc.prems(4) this] obtain s' P' where
        ih: "deallocuvm_loop (Suc n) pd (a + PGSIZE) oldsz s1 = Ok () s'" "uvm_shrink s1 pd T P1 s' P'"
        "vmap (kmem s') pd = clear_range (vmap (kmem s1) pd) (a + PGSIZE) oldsz" by blast
      have "deallocuvm_loop (Suc (Suc n)) pd a oldsz s = Ok () s'"
        using True walkpgdir_present [OF pr, of False] pn s1(1) ih(1)
        by (simp add: deallocuvm_loop.simps(2) [of "Suc n"] gets_def seqM_def del: deallocuvm_loop.simps)
      then show ?thesis using Suc.prems(1) [of s' P'] uvm_shrink_trans [OF s1(2) ih(2)] ih(3)
          clear_range_step [OF Suc.prems(3) a True] s1(3) by (simp del: deallocuvm_loop.simps)
    qed
  qed
qed

lemma leD': "a < b \<Longrightarrow> \<not> b \<le> a" for a b :: uint
  by simp

lemma deallocuvm_ok:
  assumes "uvm_inv s pd T P" "oldsz \<le> KERNBASE" "newsz < oldsz"
  obtains s' P' where "deallocuvm pd oldsz newsz s = Ok newsz s'" "uvm_shrink s pd T P s' P'"
    "vmap (kmem s') pd = clear_range (vmap (kmem s) pd) (PGROUNDUP newsz) oldsz"
proof -
  have "unat oldsz \<le> unat (PGROUNDUP newsz) + 4096 * NPAGES"
    using word32_bound [of oldsz] by (simp add: NPAGES_def)
  then obtain s' P' where
    s': "deallocuvm_loop (Suc NPAGES) pd (PGROUNDUP newsz) oldsz s = Ok () s'" "uvm_shrink s pd T P s' P'"
    "vmap (kmem s') pd = clear_range (vmap (kmem s) pd) (PGROUNDUP newsz) oldsz"
    by (rule deallocuvm_loop_ok [OF assms(1) PGROUNDUP_aligned assms(2)])
  have "deallocuvm pd oldsz newsz s = Ok newsz s'"
    unfolding deallocuvm_def if_not_P [OF leD' [OF assms(3)]] seqM_def bindM_def ret_def s'(1) by simp
  then show ?thesis using that s'(2,3) by blast
qed

section \<open>allocuvm\<close>

text \<open>Growing: frames come from the free list, and user memory that was there keeps its contents.\<close>

definition uvm_grow :: "kernel \<Rightarrow> ptr \<Rightarrow> ptr set \<Rightarrow> ptr set \<Rightarrow> kernel \<Rightarrow> ptr set \<Rightarrow> ptr set \<Rightarrow> bool" where
  "uvm_grow s pd T P s' T' P' \<longleftrightarrow> (\<exists>m f. s' = set_mem m f s) \<and> uvm_inv s' pd T' P' \<and> T \<subseteq> T'
     \<and> T' \<union> P' \<union> user_frames (kmem s') pd = T \<union> P \<union> user_frames (kmem s) pd
     \<and> user_frames (kmem s) pd \<subseteq> user_frames (kmem s') pd
     \<and> (\<forall>q \<in> user_frames (kmem s) pd. \<forall>x. in_page q x \<longrightarrow> kmem s' x = kmem s x)"

lemma uvm_grow_refl: "uvm_inv s pd T P \<Longrightarrow> uvm_grow s pd T P s T P"
proof -
  have "s = set_mem (kmem s) (freelist s) s" by (simp add: set_mem_def)
  then show "uvm_inv s pd T P \<Longrightarrow> uvm_grow s pd T P s T P" unfolding uvm_grow_def by blast
qed

lemma uvm_grow_trans:
  assumes "uvm_grow s pd T P s1 T1 P1" "uvm_grow s1 pd T1 P1 s2 T2 P2"
  shows "uvm_grow s pd T P s2 T2 P2"
proof -
  obtain m f m' f' where "s1 = set_mem m f s" "s2 = set_mem m' f' s1"
    using assms unfolding uvm_grow_def by blast
  then have "s2 = set_mem m' f' s" by simp
  moreover have "kmem s2 x = kmem s x" if "q \<in> user_frames (kmem s) pd" "in_page q x" for q x
  proof -
    have "q \<in> user_frames (kmem s1) pd" using that(1) assms(1) unfolding uvm_grow_def by blast
    then show ?thesis using assms that unfolding uvm_grow_def by metis
  qed
  moreover have "uvm_inv s2 pd T2 P2" "T \<subseteq> T2" "user_frames (kmem s) pd \<subseteq> user_frames (kmem s2) pd"
    "T2 \<union> P2 \<union> user_frames (kmem s2) pd = T \<union> P \<union> user_frames (kmem s) pd"
    using assms unfolding uvm_grow_def by blast+
  ultimately show ?thesis unfolding uvm_grow_def by blast
qed

text \<open>The entry of a fresh user page.\<close>

lemma user_pte: "V2P p OR (PTE_W OR PTE_U) OR PTE_P = V2P p OR 7"
  by (simp add: or.assoc)

lemma frame_of_user_pte: "page_aligned p \<Longrightarrow> frame_of (V2P p OR 7) = p"
  by (simp add: frame_of_def V2P_flags)

lemma user_frames_upd:
  assumes "vmap m' pd = (vmap m pd)(a \<mapsto> e)" "vmap m pd a = None" "a < KERNBASE"
  shows "user_frames m' pd = insert (frame_of e) (user_frames m pd)"
proof (intro subset_antisym subsetI)
  fix f assume "f \<in> user_frames m' pd"
  then show "f \<in> insert (frame_of e) (user_frames m pd)"
    unfolding user_frames_def assms(1) by (auto split: if_splits)
next
  fix f assume "f \<in> insert (frame_of e) (user_frames m pd)"
  then consider "f = frame_of e" | va e' where "f = frame_of e'" "va < KERNBASE" "vmap m pd va = Some e'"
    by (auto simp: user_frames_def)
  then show "f \<in> user_frames m' pd"
  proof cases
    case 1
    then show ?thesis using user_framesI [of m' pd a e] assms(1,3) by simp
  next
    case (2 va e')
    then show ?thesis using user_framesI [of m' pd va e'] assms(1,2) by (cases "va = a") simp_all
  qed
qed

lemma zero_page_inv:
  assumes "uvm_inv s pd T P" "page_ok s p" "p \<in> P" "free_pages (set_mem (kmem s) f s) (P - {p})"
    and s0: "s0 = set_mem (set_range (kmem s) p PGSIZE 0) f s"
  shows "uvm_inv s0 pd T (P - {p})" "vmap (kmem s0) pd = vmap (kmem s) pd"
    "\<And>q x. q = pd \<or> q \<in> T \<or> q \<in> user_frames (kmem s) pd \<Longrightarrow> in_page q x \<Longrightarrow> kmem s0 x = kmem s x"
proof -
  have al: "page_aligned p" using assms(2) by (simp add: page_ok_def)
  have wf: "pt_wf (kmem s) pd T" using assms(1) by (simp add: uvm_inv_def vm_inv_def)
  show eq: "kmem s0 x = kmem s x" if "q = pd \<or> q \<in> T \<or> q \<in> user_frames (kmem s) pd" "in_page q x" for q x
  proof -
    have q: "page_aligned q" using that(1) wf assms(1) by (auto simp: pt_wf_def uvm_inv_def page_ok_def)
    moreover have "q \<noteq> p" using that(1) assms(1,3) unfolding uvm_inv_def vm_inv_def by blast
    ultimately have "\<not> in_page p x" using in_page_disjoint [OF q al _ that(2)] by blast
    then show ?thesis by (simp add: s0 set_range_def in_page_def)
  qed
  have pf: "pt_wf (kmem s0) pd T" "vmap (kmem s0) pd = vmap (kmem s) pd"
    using pt_frame(1,2) [OF wf, of "kmem s0"] eq by blast+
  then show "vmap (kmem s0) pd = vmap (kmem s) pd" by blast
  have "free_pages s0 (P - {p})" using pa.fill_page [OF assms(4) al, of 0] by (simp add: s0)
  then have "vm_inv s0 pd T (P - {p})" using pf(1) assms(1) by (auto simp: vm_inv_def uvm_inv_def)
  moreover have "user_frames (kmem s0) pd = user_frames (kmem s) pd" by (simp add: user_frames_def pf(2))
  moreover have "kend s0 = kend s" by (simp add: s0)
  moreover have "user_frames (kmem s) pd \<inter> insert pd (T \<union> (P - {p})) = {}" using assms(1) unfolding uvm_inv_def by blast
  ultimately show "uvm_inv s0 pd T (P - {p})" using uvm_inv_map [OF assms(1)] pf(2) by simp
qed

text \<open>Mapping a frame that belongs to nobody.\<close>

lemma map_frame:
  assumes inv: "uvm_inv s pd T P" and p: "page_ok s p" "p \<notin> insert pd (T \<union> P \<union> user_frames (kmem s) pd)"
    and a: "page_aligned a" "a < KERNBASE" "vmap (kmem s) pd a = None"
    and fr: "frame_of (V2P p OR perm OR PTE_P) = p"
  obtains (full) "P = {}" "mappages pd a PGSIZE (V2P p) perm s = Ok (- 1) s"
  | (mapped) s' T' P' where "mappages pd a PGSIZE (V2P p) perm s = Ok 0 s'" "vm_ext s pd T P s' T' P'"
      "uvm_inv s' pd T' P'" "vmap (kmem s') pd = (vmap (kmem s) pd)(a \<mapsto> V2P p OR perm OR PTE_P)"
      "user_frames (kmem s') pd = insert p (user_frames (kmem s) pd)"
      "\<And>q x. q \<in> insert p (user_frames (kmem s) pd) \<Longrightarrow> in_page q x \<Longrightarrow> kmem s' x = kmem s x" "card P \<le> Suc (card P')"
  using uvm_inv_vm [OF inv] a(1,3)
proof (cases rule: mappages_page [where pa = "V2P p" and perm = perm])
  case full
  then show ?thesis using that(1) by blast
next
  case (mapped s' T' P')
  let ?e = "V2P p OR perm OR PTE_P"
  have uf: "user_frames (kmem s') pd = insert p (user_frames (kmem s) pd)"
    using user_frames_upd [OF mapped(3) a(3,2)] fr by simp
  have TP: "T' \<union> P' = T \<union> P" and vi: "vm_inv s' pd T' P'" and T: "T \<subseteq> T'" using mapped(2) by (simp_all add: vm_ext_def)
  obtain m f where s': "s' = set_mem m f s" using mapped(2) by (auto simp: vm_ext_def)
  have dis: "insert p (user_frames (kmem s) pd) \<inter> insert pd (T' \<union> P') = {}"
    using inv p(2) TP unfolding uvm_inv_def by blast
  have ok: "page_ok s q" if "q \<in> insert p (user_frames (kmem s) pd)" for q
    using that inv p(1) unfolding uvm_inv_def by blast
  have ok': "\<forall>q \<in> insert p (user_frames (kmem s) pd). page_ok s' q"
    using ok by (simp add: s' page_ok_def)
  have new: "frame_of e \<noteq> p" if "vmap (kmem s) pd b = Some e" "b < KERNBASE" for b e
    using user_framesI [OF that] p(2) by auto
  have inj: "b = c" if "b < KERNBASE" "c < KERNBASE" "vmap (kmem s') pd b = Some e1" "vmap (kmem s') pd c = Some e2"
    "frame_of e1 = frame_of e2" for b c e1 e2
  proof (cases "b = a \<or> c = a")
    case True
    then show ?thesis using that new fr unfolding mapped(3) by (auto split: if_splits)
  next
    case False
    then show ?thesis using uvm_inv_inj [OF inv that(1,2)] that(3,4,5) unfolding mapped(3) by simp
  qed
  have inv': "uvm_inv s' pd T' P'" unfolding uvm_inv_def uf
    by (intro conjI allI impI vi dis ok') (rule inj)
  have frame: "kmem s' x = kmem s x" if "q \<in> insert p (user_frames (kmem s) pd)" "in_page q x" for q x
  proof -
    have wf: "pt_wf (kmem s') pd T'" using vi by (simp add: vm_inv_def)
    have q: "page_aligned q" using ok [OF that(1)] by (simp add: page_ok_def)
    have "\<not> in_page t x" if "t = pd \<or> t \<in> T'" for t
    proof (rule in_page_disjoint [OF q _ _ \<open>in_page q x\<close>])
      show "page_aligned t" using that wf by (auto simp: pt_wf_def)
      show "q \<noteq> t" using dis \<open>q \<in> insert p (user_frames (kmem s) pd)\<close> that by blast
    qed
    then show ?thesis using mapped(2) by (simp add: vm_ext_def)
  qed
  show ?thesis by (rule that(2) [OF mapped(1,2) inv' mapped(3) uf frame mapped(4)])
qed

lemma grow_page_perm:
  assumes inv: "uvm_inv s pd T P" and a: "page_aligned a" "a < KERNBASE" "vmap (kmem s) pd a = None"
    and fr: "\<forall>p. page_aligned p \<longrightarrow> frame_of (V2P p OR perm OR PTE_P) = p"
  obtains (none) "kalloc s = Ok 0 s" "P = {}"
  | (full) p f s0 where "kalloc s = Ok p (set_mem (kmem s) f s)" "p \<noteq> 0" "page_ok s p" "P = {p}"
      "s0 = set_mem (set_range (kmem s) p PGSIZE 0) f s"
      "mappages pd a PGSIZE (V2P p) perm s0 = Ok (- 1) s0" "uvm_inv s0 pd T {}"
      "vmap (kmem s0) pd = vmap (kmem s) pd"
  | (mapped) p f s' T' P' where "kalloc s = Ok p (set_mem (kmem s) f s)" "p \<noteq> 0"
      "mappages pd a PGSIZE (V2P p) perm (set_mem (set_range (kmem s) p PGSIZE 0) f s) = Ok 0 s'"
      "uvm_grow s pd T P s' T' P'" "vmap (kmem s') pd = (vmap (kmem s) pd)(a \<mapsto> V2P p OR perm OR PTE_P)"
      "p \<in> user_frames (kmem s') pd - user_frames (kmem s) pd" "\<And>x. in_page p x \<Longrightarrow> kmem s' x = 0" "card P \<le> card P' + 2"
proof -
  have fp: "free_pages s P" and TP: "T \<inter> P = {}" using inv by (simp_all add: uvm_inv_def vm_inv_def)
  from fp show thesis
  proof (cases rule: pa.alloc_cases)
    case none
    then show ?thesis using that(1) by blast
  next
    case (page p f)
    have ka: "kalloc s = Ok p (set_mem (kmem s) f s)" "free_pages (set_mem (kmem s) f s) (P - {p})"
      using page(4,5) by (simp_all add: set_mem_intro)
    have al: "page_aligned p" using page(3) by (simp add: page_ok_def)
    define s0 where s0: "s0 = set_mem (set_range (kmem s) p PGSIZE 0) f s"
    note z = zero_page_inv [OF inv page(3,1) ka(2) s0]
    have uf0: "user_frames (kmem s0) pd = user_frames (kmem s) pd" by (simp add: user_frames_def z(2))
    have pn: "p \<notin> insert pd (T \<union> (P - {p}) \<union> user_frames (kmem s0) pd)"
      using page(1) inv unfolding uf0 uvm_inv_def vm_inv_def by blast
    have ok0: "page_ok s0 p" using page(3) by (simp add: s0 page_ok_def)
    have a0: "vmap (kmem s0) pd a = None" using a(3) z(2) by simp
    from z(1) ok0 pn a(1,2) a0 fr [rule_format, OF al] show ?thesis
    proof (cases rule: map_frame)
      case full
      then have "P = {p}" using page(1) by blast
      then show ?thesis using that(2) [OF ka(1) page(2,3) _ s0 full(2) _ z(2)] z(1) by simp
    next
      case (mapped s' T' P')
      have TP': "T \<subseteq> T'" "T' \<union> P' = T \<union> (P - {p})" using mapped(2) by (simp_all add: vm_ext_def)
      have "\<exists>m f. s' = set_mem m f s" using mapped(2) unfolding vm_ext_def s0 by (metis set_mem_upd(1))
      moreover have "T' \<union> P' \<union> user_frames (kmem s') pd = T \<union> P \<union> user_frames (kmem s) pd"
        using TP' page(1) unfolding mapped(5) uf0 by blast
      moreover have "user_frames (kmem s) pd \<subseteq> user_frames (kmem s') pd" unfolding mapped(5) uf0 by blast
      moreover have "kmem s' x = kmem s x" if "q \<in> user_frames (kmem s) pd" "in_page q x" for q x
        using mapped(6) [of q x] z(3) [of q x] that uf0 by auto
      ultimately have g: "uvm_grow s pd T P s' T' P'" using mapped(3) TP'(1) unfolding uvm_grow_def by blast
      have v: "vmap (kmem s') pd = (vmap (kmem s) pd)(a \<mapsto> V2P p OR perm OR PTE_P)" using mapped(4) z(2) by (simp only:)
      have "p \<in> user_frames (kmem s') pd - user_frames (kmem s) pd" using pn unfolding mapped(5) uf0 by blast
      moreover have "kmem s' x = 0" if "in_page p x" for x
        using mapped(6) [of p x] that by (simp add: s0 set_range_def in_page_def)
      moreover have "card P \<le> card P' + 2" using mapped(7) card_remove_le [of P p] by linarith
      ultimately show ?thesis by (rule that(3) [OF ka(1) page(2) mapped(1) [unfolded s0] g v])
    qed
  qed
qed

lemma grow_page:
  assumes inv: "uvm_inv s pd T P" and a: "page_aligned a" "a < KERNBASE" "vmap (kmem s) pd a = None"
  obtains (none) "kalloc s = Ok 0 s" "P = {}"
  | (full) p f s0 where "kalloc s = Ok p (set_mem (kmem s) f s)" "p \<noteq> 0" "page_ok s p" "P = {p}"
      "s0 = set_mem (set_range (kmem s) p PGSIZE 0) f s"
      "mappages pd a PGSIZE (V2P p) (PTE_W OR PTE_U) s0 = Ok (- 1) s0" "uvm_inv s0 pd T {}"
      "vmap (kmem s0) pd = vmap (kmem s) pd"
  | (mapped) p f s' T' P' where "kalloc s = Ok p (set_mem (kmem s) f s)" "p \<noteq> 0"
      "mappages pd a PGSIZE (V2P p) (PTE_W OR PTE_U) (set_mem (set_range (kmem s) p PGSIZE 0) f s) = Ok 0 s'"
      "uvm_grow s pd T P s' T' P'" "vmap (kmem s') pd = (vmap (kmem s) pd)(a \<mapsto> V2P p OR 7)"
      "p \<in> user_frames (kmem s') pd - user_frames (kmem s) pd" "\<And>x. in_page p x \<Longrightarrow> kmem s' x = 0" "card P \<le> card P' + 2"
proof -
  have "\<forall>p. page_aligned p \<longrightarrow> frame_of (V2P p OR (PTE_W OR PTE_U) OR PTE_P) = p"
    unfolding user_pte by (intro allI impI frame_of_user_pte)
  from inv a this show thesis
  proof (cases rule: grow_page_perm)
    case none
    then show ?thesis by (rule that(1))
  next
    case (full p f s0)
    then show ?thesis by (rule that(2))
  next
    case (mapped p f s' T' P')
    show ?thesis by (rule that(3) [OF mapped(1-4) mapped(5) [unfolded user_pte] mapped(6-8)])
  qed
qed

text \<open>The error path: a message, then the pages mapped so far are given back.\<close>

lemma set_console_fields [simp]:
  "kmem (set_console u c p s) = kmem s" "freelist (set_console u c p s) = freelist s"
  "kend (set_console u c p s) = kend s" "held (set_console u c p s) = held s"
  by (simp_all add: set_console_def)

lemma set_console_mem: "set_mem m f (set_console u c p s) = set_console u c p (set_mem m f s)"
  by (simp add: set_mem_def set_console_def)

lemma uvm_inv_console [simp]: "uvm_inv (set_console u c p s) pd T P = uvm_inv s pd T P"
  by (simp add: uvm_inv_def vm_inv_def free_pages_def kmem_inv_def page_ok_def)

definition uvm_fail :: "kernel \<Rightarrow> ptr \<Rightarrow> ptr set \<Rightarrow> ptr set \<Rightarrow> kernel \<Rightarrow> ptr set \<Rightarrow> ptr set \<Rightarrow> bool" where
  "uvm_fail s pd T P s' T' P' \<longleftrightarrow> (\<exists>m f u c p. s' = set_console u c p (set_mem m f s)) \<and> uvm_inv s' pd T' P'
     \<and> T \<subseteq> T' \<and> T' \<union> P' \<union> user_frames (kmem s') pd = T \<union> P \<union> user_frames (kmem s) pd
     \<and> (\<forall>q \<in> user_frames (kmem s') pd \<inter> user_frames (kmem s) pd. \<forall>x. in_page q x \<longrightarrow> kmem s' x = kmem s x)"

lemma uvm_fail_after_grow:
  assumes "uvm_grow s pd T P s1 T1 P1" "uvm_fail s1 pd T1 P1 s2 T2 P2"
  shows "uvm_fail s pd T P s2 T2 P2"
proof -
  obtain m f where s1: "s1 = set_mem m f s" using assms(1) by (auto simp: uvm_grow_def)
  obtain m' f' u c p where "s2 = set_console u c p (set_mem m' f' s1)" using assms(2) by (auto simp: uvm_fail_def)
  then have "s2 = set_console u c p (set_mem m' f' s)" by (simp add: s1)
  moreover have "kmem s2 x = kmem s x" if "q \<in> user_frames (kmem s2) pd \<inter> user_frames (kmem s) pd" "in_page q x" for q x
  proof -
    have "q \<in> user_frames (kmem s2) pd \<inter> user_frames (kmem s1) pd" using that(1) assms(1) unfolding uvm_grow_def by blast
    then show ?thesis using assms that unfolding uvm_grow_def uvm_fail_def by (metis IntD2)
  qed
  moreover have "uvm_inv s2 pd T2 P2" "T \<subseteq> T2"
    "T2 \<union> P2 \<union> user_frames (kmem s2) pd = T \<union> P \<union> user_frames (kmem s) pd"
    using assms unfolding uvm_grow_def uvm_fail_def by blast+
  ultimately show ?thesis unfolding uvm_fail_def by blast
qed

lemma print_dealloc:
  assumes inv: "uvm_inv s pd T P" and sz: "newsz \<le> KERNBASE" "oldsz < newsz"
    and con: "fmt_ok (str fmt) []" "crt_ok s" "ConsLock \<notin> set (held s)"
  obtains s0 s' P' where "cprintf fmt [] s = Ok () s0" "deallocuvm pd newsz oldsz s0 = Ok oldsz s'"
    "uvm_fail s pd T P s' T P'" "vmap (kmem s') pd = clear_range (vmap (kmem s) pd) (PGROUNDUP oldsz) newsz"
proof -
  obtain u c p where s0: "cprintf fmt [] s = Ok () (set_console u c p s)"
    using prints_cprintf [OF con] unfolding prints_def console_only_def by blast
  have inv0: "uvm_inv (set_console u c p s) pd T P" using inv by simp
  obtain s' P' where d: "deallocuvm pd newsz oldsz (set_console u c p s) = Ok oldsz s'"
    "uvm_shrink (set_console u c p s) pd T P s' P'"
    "vmap (kmem s') pd = clear_range (vmap (kmem (set_console u c p s)) pd) (PGROUNDUP oldsz) newsz"
    by (rule deallocuvm_ok [OF inv0 sz])
  obtain m f where "s' = set_mem m f (set_console u c p s)" using d(2) by (auto simp: uvm_shrink_def)
  then have s': "s' = set_console u c p (set_mem m f s)" by (simp add: set_console_mem)
  have i: "uvm_inv s' pd T P'" "P \<subseteq> P'" "P' \<union> user_frames (kmem s') pd = P \<union> user_frames (kmem s) pd"
    and fr: "\<And>x. \<forall>q \<in> T \<union> (P' - P). \<not> in_page q x \<Longrightarrow> kmem s' x = kmem s x"
    using d(2) by (simp_all add: uvm_shrink_def)
  have "kmem s' x = kmem s x" if "q \<in> user_frames (kmem s') pd" "in_page q x" for q x
  proof (rule fr, rule ballI)
    fix t assume t: "t \<in> T \<union> (P' - P)"
    have q: "page_aligned q" using i(1) that(1) by (auto simp: uvm_inv_def page_ok_def)
    have "page_aligned t" using t i(1) pa.free_set_page [of s' P' t]
      by (auto simp: uvm_inv_def vm_inv_def pt_wf_def page_ok_def)
    moreover have "q \<noteq> t" using t that(1) i(1) unfolding uvm_inv_def by blast
    ultimately show "\<not> in_page t x" using in_page_disjoint [OF q _ _ that(2)] by blast
  qed
  then have "uvm_fail s pd T P s' T P'" using s' i unfolding uvm_fail_def by blast
  then show ?thesis using that s0 d(1,3) unfolding set_console_fields by blast
qed

text \<open>A page that belongs to nobody goes back to the allocator.\<close>

lemma free_spare:
  assumes inv: "uvm_inv s pd T P" and p: "page_ok s p" "p \<notin> insert pd (T \<union> P \<union> user_frames (kmem s) pd)"
  obtains m where "kfree p s = Ok () (set_mem m p s)" "uvm_inv (set_mem m p s) pd T (insert p P)"
    "vmap m pd = vmap (kmem s) pd"
    "\<And>q x. q \<in> user_frames (kmem s) pd \<Longrightarrow> in_page q x \<Longrightarrow> m x = kmem s x"
proof -
  have vi: "free_pages s P" "pt_wf (kmem s) pd T" "T \<inter> P = {}" "pd \<notin> P"
    using inv by (simp_all add: uvm_inv_def vm_inv_def)
  have nP: "p \<notin> P" using p(2) by blast
  from pa.free_page [OF vi(1) p(1) nP] obtain m where m: "kfree p s = Ok () (set_mem m p s)"
    "free_pages (set_mem m p s) (insert p P)" "\<And>x. \<not> in_page p x \<Longrightarrow> m x = kmem s x"
    unfolding set_mem_def by blast
  have al: "page_aligned p" using p(1) by (simp add: page_ok_def)
  have eq: "m x = kmem s x" if "q = pd \<or> q \<in> T \<or> q \<in> user_frames (kmem s) pd" "in_page q x" for q x
  proof (rule m(3), rule in_page_disjoint [OF _ al _ that(2)])
    show "page_aligned q" using that(1) vi(2) inv by (auto simp: pt_wf_def uvm_inv_def page_ok_def)
    show "q \<noteq> p" using that(1) p(2) by blast
  qed
  have pf: "pt_wf m pd T" "vmap m pd = vmap (kmem s) pd"
    using pt_frame(1,2) [OF vi(2), of m] eq by blast+
  have uf: "user_frames m pd = user_frames (kmem s) pd" by (simp add: user_frames_def pf(2))
  have "vm_inv (set_mem m p s) pd T (insert p P)" using m(2) pf(1) vi p(2) by (auto simp: vm_inv_def)
  moreover have "user_frames (kmem s) pd \<inter> insert pd (T \<union> insert p P) = {}" using inv p(2) unfolding uvm_inv_def by blast
  ultimately have "uvm_inv (set_mem m p s) pd T (insert p P)"
    using uvm_inv_map [OF inv] pf(2) uf by simp
  then show ?thesis using that m(1) pf(2) eq by blast
qed

definition fresh_zero :: "kernel \<Rightarrow> kernel \<Rightarrow> ptr \<Rightarrow> ptr \<Rightarrow> bool" where
  "fresh_zero s s' pd va \<longleftrightarrow> (\<exists>f \<in> user_frames (kmem s') pd - user_frames (kmem s) pd.
     vmap (kmem s') pd va = Some (V2P f OR 7) \<and> (\<forall>x. in_page f x \<longrightarrow> kmem s' x = 0))"

lemma fresh_zero_grow:
  assumes "uvm_grow s1 pd T1 P1 s2 T2 P2" "fresh_zero s s1 pd va" "vmap (kmem s2) pd va = vmap (kmem s1) pd va"
  shows "fresh_zero s s2 pd va"
proof -
  obtain f where f: "f \<in> user_frames (kmem s1) pd - user_frames (kmem s) pd"
    "vmap (kmem s1) pd va = Some (V2P f OR 7)" "\<forall>x. in_page f x \<longrightarrow> kmem s1 x = 0"
    using assms(2) unfolding fresh_zero_def by blast
  then have "f \<in> user_frames (kmem s2) pd - user_frames (kmem s) pd" using assms(1) unfolding uvm_grow_def by blast
  moreover have "\<forall>x. in_page f x \<longrightarrow> kmem s2 x = 0" using assms(1) f(1,3) unfolding uvm_grow_def by (metis DiffD1)
  ultimately show ?thesis unfolding fresh_zero_def using f(2) assms(3) by metis
qed

lemma fresh_zero_before:
  "uvm_grow s pd T P s1 T1 P1 \<Longrightarrow> fresh_zero s1 s2 pd va \<Longrightarrow> fresh_zero s s2 pd va"
  unfolding uvm_grow_def fresh_zero_def by blast

lemma allocuvm_fmts: "fmt_ok (str ''allocuvm out of memory\<newline>'') []" "fmt_ok (str ''allocuvm out of memory (2)\<newline>'') []"
  by (simp_all add: str_def of_char_def)

lemma clear_range_upd: "a \<le> va \<Longrightarrow> va < b \<Longrightarrow> clear_range (M(va := v)) a b = clear_range M a b"
  by (auto simp: clear_range_def fun_eq_iff)

lemma allocuvm_loop_ok:
  assumes "uvm_inv s pd T P" "page_aligned a" "newsz < KERNBASE" "unat newsz \<le> unat a + 4096 * n"
    "\<And>va. a \<le> va \<Longrightarrow> va < newsz \<Longrightarrow> vmap (kmem s) pd va = None"
    "PGROUNDUP oldsz \<le> a" "a < newsz \<Longrightarrow> oldsz < newsz" "crt_ok s" "ConsLock \<notin> set (held s)"
  obtains (grown) s' T' P' where "allocuvm_loop (Suc (n + k)) pd a oldsz newsz s = Ok newsz s'" "uvm_grow s pd T P s' T' P'"
      "\<And>va. \<not> (a \<le> va \<and> va < newsz) \<Longrightarrow> vmap (kmem s') pd va = vmap (kmem s) pd va"
      "\<And>va. page_aligned va \<Longrightarrow> a \<le> va \<Longrightarrow> va < newsz \<Longrightarrow> fresh_zero s s' pd va"
  | (failed) s' T' P' where "allocuvm_loop (Suc (n + k)) pd a oldsz newsz s = Ok 0 s'" "uvm_fail s pd T P s' T' P'"
      "vmap (kmem s') pd = clear_range (vmap (kmem s) pd) (PGROUNDUP oldsz) newsz" "card P < 2 * n"
  using assms
proof (induction n arbitrary: s T P a thesis)
  case (0 s T P a)
  have "\<not> a < newsz" using 0(6) by (simp add: word_less_nat_alt)
  then show ?case using 0(1) [of s T P] uvm_grow_refl [OF 0(3)] by (simp add: ret_def)
next
  case (Suc n s T P a)
  note pre = Suc.prems(3-11)
  show ?case
  proof (cases "a < newsz")
    case False
    then show ?thesis using Suc.prems(1) [of s T P] uvm_grow_refl [OF pre(1)] by (simp add: ret_def)
  next
    case True
    have a: "a < KERNBASE" using True pre(3) by (rule less_trans)
    have old: "oldsz < newsz" using pre(7) True by blast
    have nk: "newsz \<le> KERNBASE" using pre(3) by simp
    have none_a: "vmap (kmem s) pd a = None" using pre(5) True by simp
    from pre(1,2) a none_a show ?thesis
    proof (cases rule: grow_page)
      case none
      obtain s0 s' P' where d: "cprintf ''allocuvm out of memory\<newline>'' [] s = Ok () s0"
        "deallocuvm pd newsz oldsz s0 = Ok oldsz s'" "uvm_fail s pd T P s' T P'"
        "vmap (kmem s') pd = clear_range (vmap (kmem s) pd) (PGROUNDUP oldsz) newsz"
        by (rule print_dealloc [OF pre(1) nk old allocuvm_fmts(1) pre(8,9)])
      have "allocuvm_loop (Suc (Suc n + k)) pd a oldsz newsz s = Ok 0 s'"
        using True none d(1,2) by (simp add: seqM_def ret_def)
      then show ?thesis using Suc.prems(2) d(3,4) none(2) by simp
    next
      case (full p f s0)
      have c0: "crt_ok s0" "ConsLock \<notin> set (held s0)" using pre(8,9) by (simp_all add: full(5) crt_ok_def set_mem_def)
      obtain s1 s2 P2 where d: "cprintf ''allocuvm out of memory (2)\<newline>'' [] s0 = Ok () s1"
        "deallocuvm pd newsz oldsz s1 = Ok oldsz s2" "uvm_fail s0 pd T {} s2 T P2"
        "vmap (kmem s2) pd = clear_range (vmap (kmem s0) pd) (PGROUNDUP oldsz) newsz"
        by (rule print_dealloc [OF full(7) nk old allocuvm_fmts(2) c0])
      have uf0: "user_frames (kmem s0) pd = user_frames (kmem s) pd" by (simp add: user_frames_def full(8))
      have i2: "uvm_inv s2 pd T P2" and u2: "T \<union> P2 \<union> user_frames (kmem s2) pd = T \<union> user_frames (kmem s) pd"
        using d(3) unfolding uvm_fail_def uf0 by simp_all
      have ps: "p \<notin> insert pd (T \<union> user_frames (kmem s) pd)"
        using pre(1) full(4) unfolding uvm_inv_def vm_inv_def by blast
      then have pn: "p \<notin> insert pd (T \<union> P2 \<union> user_frames (kmem s2) pd)" using u2 by blast
      obtain m2 f2 u c q where s2: "s2 = set_console u c q (set_mem m2 f2 s0)" using d(3) unfolding uvm_fail_def by blast
      have ok2: "page_ok s2 p" using full(3) by (simp add: s2 full(5) page_ok_def)
      obtain m where k: "kfree p s2 = Ok () (set_mem m p s2)" "uvm_inv (set_mem m p s2) pd T (insert p P2)"
        "vmap m pd = vmap (kmem s2) pd" "\<And>q x. q \<in> user_frames (kmem s2) pd \<Longrightarrow> in_page q x \<Longrightarrow> m x = kmem s2 x"
        using free_spare [OF i2 ok2 pn] by blast
      have "allocuvm_loop (Suc (Suc n + k)) pd a oldsz newsz s = Ok 0 (set_mem m p s2)"
        using True full(1,2,6) d(1,2) k(1)
        by (simp add: seqM_def ret_def modify_def memset_eq_set_range full(5))
      moreover have "uvm_fail s pd T P (set_mem m p s2) T (insert p P2)"
      proof -
        have "set_mem m p s2 = set_console u c q (set_mem m p s)" by (simp add: s2 full(5) set_console_mem)
        then have "\<exists>m' f' u c q. set_mem m p s2 = set_console u c q (set_mem m' f' s)" by blast
        moreover have uf2: "user_frames m pd = user_frames (kmem s2) pd" by (simp add: user_frames_def k(3))
        moreover have "T \<union> insert p P2 \<union> user_frames m pd = T \<union> P \<union> user_frames (kmem s) pd"
          using u2 full(4) unfolding uf2 by blast
        moreover have "m x = kmem s x" if "r \<in> user_frames (kmem s2) pd \<inter> user_frames (kmem s) pd" "in_page r x" for r x
        proof -
          have "kmem s0 x = kmem s x"
          proof -
            have "page_aligned r" "page_aligned p" using that(1) pre(1) full(3) by (auto simp: uvm_inv_def page_ok_def)
            then have "\<not> in_page p x" using in_page_disjoint [OF _ _ _ that(2), of p] ps that(1) by blast
            then show ?thesis by (simp add: full(5) set_range_def in_page_def)
          qed
          moreover have "kmem s2 x = kmem s0 x" using d(3) that unfolding uvm_fail_def uf0 by blast
          ultimately show ?thesis using k(4) [of r x] that by simp
        qed
        ultimately show ?thesis using k(2) unfolding uvm_fail_def set_mem_fields by blast
      qed
      ultimately show ?thesis using Suc.prems(2) k(3) d(4) full(4,8) by simp
    next
      case (mapped p f s1 T1 P1)
      have inv1: "uvm_inv s1 pd T1 P1" using mapped(4) by (simp add: uvm_grow_def)
      obtain m1 f1 where s1: "s1 = set_mem m1 f1 s" using mapped(4) unfolding uvm_grow_def by blast
      have c1: "crt_ok s1" "ConsLock \<notin> set (held s1)" using pre(8,9) by (simp_all add: s1 crt_ok_def set_mem_def)
      have run: "allocuvm_loop (Suc (Suc n + k)) pd a oldsz newsz s = allocuvm_loop (Suc (n + k)) pd (a + PGSIZE) oldsz newsz s1"
        using True mapped(1,2,3) by (simp add: seqM_def modify_def memset_eq_set_range)
      have sz: "unat newsz \<le> unat (a + PGSIZE) + 4096 * n" using pre(4) unat_next_page [OF a] by simp
      have up: "a < va" if "a + PGSIZE \<le> va" for va using that next_page_le [OF a] by (simp add: word_less_nat_alt)
      have free1: "vmap (kmem s1) pd va = None" if "a + PGSIZE \<le> va" "va < newsz" for va
        using pre(5) [of va] up [OF that(1)] that(2) unfolding mapped(5) by simp
      have old1: "PGROUNDUP oldsz \<le> a + PGSIZE" using pre(6) next_page_le [OF a] unfolding word_le_nat_alt unat_next_page [OF a] by simp
      have fz: "fresh_zero s s1 pd a" using mapped(5,6,7) unfolding fresh_zero_def by auto
      show ?thesis
      proof (rule Suc.IH [OF _ _ inv1 page_aligned_add [OF pre(2)] pre(3) sz free1 old1 old c1])
        fix s' T' P'
        assume g: "allocuvm_loop (Suc (n + k)) pd (a + PGSIZE) oldsz newsz s1 = Ok newsz s'" "uvm_grow s1 pd T1 P1 s' T' P'"
          "\<And>va. \<not> (a + PGSIZE \<le> va \<and> va < newsz) \<Longrightarrow> vmap (kmem s') pd va = vmap (kmem s1) pd va"
          "\<And>va. page_aligned va \<Longrightarrow> a + PGSIZE \<le> va \<Longrightarrow> va < newsz \<Longrightarrow> fresh_zero s1 s' pd va"
        have out: "vmap (kmem s') pd va = vmap (kmem s) pd va" if "\<not> (a \<le> va \<and> va < newsz)" for va
        proof -
          have "va \<noteq> a" using that True by blast
          moreover have "\<not> (a + PGSIZE \<le> va \<and> va < newsz)" using that up [of va] less_imp_le [of a va] by blast
          ultimately show ?thesis using g(3) [of va] unfolding mapped(5) by simp
        qed
        have "fresh_zero s s' pd va" if "page_aligned va" "a \<le> va" "va < newsz" for va
        proof (cases "a + PGSIZE \<le> va")
          case True
          then show ?thesis using fresh_zero_before [OF mapped(4)] g(4) that by blast
        next
          case False
          then have "\<not> a < va" using inside_page' [OF pre(2) a, of va] that(1) by blast
          then have "va = a" using that(2) by simp
          then show ?thesis using fresh_zero_grow [OF g(2) fz] g(3) [of a] False by simp
        qed
        then show ?thesis using Suc.prems(1) [of s' T' P'] run g(1) uvm_grow_trans [OF mapped(4) g(2)] out by simp
      next
        fix s' T' P'
        assume g: "allocuvm_loop (Suc (n + k)) pd (a + PGSIZE) oldsz newsz s1 = Ok 0 s'" "uvm_fail s1 pd T1 P1 s' T' P'"
          "vmap (kmem s') pd = clear_range (vmap (kmem s1) pd) (PGROUNDUP oldsz) newsz" "card P1 < 2 * n"
        then show ?thesis using Suc.prems(2) [of s' T' P'] run uvm_fail_after_grow [OF mapped(4) g(2)] mapped(8)
          unfolding mapped(5) clear_range_upd [OF pre(6) True] by simp
      qed
    qed
  qed
qed

section \<open>Properties\<close>

text \<open>The number of pages that growing from one size to another maps.\<close>

definition pages_between :: "uint \<Rightarrow> uint \<Rightarrow> nat" where
  "pages_between oldsz newsz = (unat newsz + 4095 - unat (PGROUNDUP oldsz)) div 4096"

lemma allocuvm_ok:
  assumes inv: "uvm_inv s pd T P" and sz: "oldsz \<le> newsz" "newsz < KERNBASE"
    and free: "\<And>va. PGROUNDUP oldsz \<le> va \<Longrightarrow> va < newsz \<Longrightarrow> vmap (kmem s) pd va = None"
    and con: "crt_ok s" "ConsLock \<notin> set (held s)"
  obtains (grown) s' T' P' where "allocuvm pd oldsz newsz s = Ok newsz s'" "uvm_grow s pd T P s' T' P'"
      "\<And>va. \<not> (PGROUNDUP oldsz \<le> va \<and> va < newsz) \<Longrightarrow> vmap (kmem s') pd va = vmap (kmem s) pd va"
      "\<And>va. page_aligned va \<Longrightarrow> PGROUNDUP oldsz \<le> va \<Longrightarrow> va < newsz \<Longrightarrow> fresh_zero s s' pd va"
  | (failed) s' T' P' where "allocuvm pd oldsz newsz s = Ok 0 s'" "uvm_fail s pd T P s' T' P'"
      "vmap (kmem s') pd = vmap (kmem s) pd" "card P < 2 * pages_between oldsz newsz"
proof -
  have u: "unat newsz < 2147483648" "unat oldsz \<le> unat newsz" using sz by (simp_all add: word_less_nat_alt word_le_nat_alt)
  let ?n = "pages_between oldsz newsz"
  have f: "unat newsz \<le> unat (PGROUNDUP oldsz) + 4096 * ?n" unfolding pages_between_def by linarith
  have "?n \<le> NPAGES" using u(1) by (simp add: pages_between_def NPAGES_def)
  then obtain k where k: "NPAGES = ?n + k" using le_Suc_ex by blast
  have o: "oldsz < newsz" if "PGROUNDUP oldsz < newsz"
    using that unat_PGROUNDUP_ge [of oldsz] u by (simp add: word_less_nat_alt)
  have e: "allocuvm pd oldsz newsz = allocuvm_loop (Suc (?n + k)) pd (PGROUNDUP oldsz) oldsz newsz"
    unfolding k [symmetric] allocuvm_def if_not_P [OF leD' [OF sz(2)]] if_not_P [OF leD [OF sz(1)]] ..
  have clr: "clear_range (vmap (kmem s) pd) (PGROUNDUP oldsz) newsz = vmap (kmem s) pd"
    using free by (auto simp: clear_range_def fun_eq_iff)
  show thesis
  proof (rule allocuvm_loop_ok [OF inv PGROUNDUP_aligned sz(2) f free order_refl o con])
    fix s' T' P'
    assume "allocuvm_loop (Suc (?n + k)) pd (PGROUNDUP oldsz) oldsz newsz s = Ok newsz s'" "uvm_grow s pd T P s' T' P'"
      "\<And>va. \<not> (PGROUNDUP oldsz \<le> va \<and> va < newsz) \<Longrightarrow> vmap (kmem s') pd va = vmap (kmem s) pd va"
      "\<And>va. page_aligned va \<Longrightarrow> PGROUNDUP oldsz \<le> va \<Longrightarrow> va < newsz \<Longrightarrow> fresh_zero s s' pd va"
    then show thesis using that(1) unfolding e by blast
  next
    fix s' T' P'
    assume "allocuvm_loop (Suc (?n + k)) pd (PGROUNDUP oldsz) oldsz newsz s = Ok 0 s'" "uvm_fail s pd T P s' T' P'"
      "vmap (kmem s') pd = clear_range (vmap (kmem s) pd) (PGROUNDUP oldsz) newsz" "card P < 2 * ?n"
    then show thesis using that(2) unfolding e clr by blast
  qed
qed

text \<open>
  C16: allocuvm grows a well-formed address space whose pages from the old size on are unmapped.
  Either it returns the new size, and then every page of the new range is mapped, readable and
  writable by the user, to a frame of its own that is full of zeros, nothing else of the mapping
  and of the user's memory changes and every page of physical memory is accounted for; or memory
  runs out, it returns 0, and the mapping is exactly what it was, with no page lost.  It does not
  run out when two pages are free for every page to map, one for the frame and one for a table.
\<close>

theorem allocuvm_correct:
  assumes "uvm_inv s pd T P" "oldsz \<le> newsz" "newsz < KERNBASE"
    and "\<And>va. PGROUNDUP oldsz \<le> va \<Longrightarrow> va < newsz \<Longrightarrow> vmap (kmem s) pd va = None"
    and "crt_ok s" "ConsLock \<notin> set (held s)"
  shows "(\<exists>s' T' P'. allocuvm pd oldsz newsz s = Ok newsz s' \<and> uvm_grow s pd T P s' T' P'
      \<and> (\<forall>va. if page_aligned va \<and> PGROUNDUP oldsz \<le> va \<and> va < newsz then fresh_zero s s' pd va
            else vmap (kmem s') pd va = vmap (kmem s) pd va))
    \<or> (\<exists>s' T' P'. allocuvm pd oldsz newsz s = Ok 0 s' \<and> uvm_fail s pd T P s' T' P'
      \<and> vmap (kmem s') pd = vmap (kmem s) pd \<and> card P < 2 * pages_between oldsz newsz)"
proof (rule allocuvm_ok [OF assms])
  fix s' T' P'
  assume g: "allocuvm pd oldsz newsz s = Ok newsz s'" "uvm_grow s pd T P s' T' P'"
    "\<And>va. \<not> (PGROUNDUP oldsz \<le> va \<and> va < newsz) \<Longrightarrow> vmap (kmem s') pd va = vmap (kmem s) pd va"
    "\<And>va. page_aligned va \<Longrightarrow> PGROUNDUP oldsz \<le> va \<Longrightarrow> va < newsz \<Longrightarrow> fresh_zero s s' pd va"
  have "if page_aligned va \<and> PGROUNDUP oldsz \<le> va \<and> va < newsz then fresh_zero s s' pd va
      else vmap (kmem s') pd va = vmap (kmem s) pd va" for va
    using g(3,4) [of va] by (cases "page_aligned va") (auto simp: vmap_unaligned)
  then show ?thesis using g(1,2) by blast
next
  fix s' T' P'
  assume "allocuvm pd oldsz newsz s = Ok 0 s'" "uvm_fail s pd T P s' T' P'" "vmap (kmem s') pd = vmap (kmem s) pd"
    "card P < 2 * pages_between oldsz newsz"
  then show ?thesis by (intro disjI2 exI conjI)
qed

text \<open>
  C31: deallocuvm on a well-formed address space removes exactly the user pages between the two
  sizes from the mapping, gives each of their frames to the allocator and touches neither the
  other frames nor any memory but the page tables and the freed frames.
\<close>

theorem deallocuvm_correct:
  assumes "uvm_inv s pd T P" "oldsz \<le> KERNBASE" "newsz < oldsz"
  shows "\<exists>s' P'. deallocuvm pd oldsz newsz s = Ok newsz s' \<and> uvm_shrink s pd T P s' P'
    \<and> vmap (kmem s') pd = clear_range (vmap (kmem s) pd) (PGROUNDUP newsz) oldsz"
  by (rule deallocuvm_ok [OF assms]) blast

text \<open>
  C30: mappages maps a run of unmapped pages one by one to consecutive frames: the mapping
  afterwards is the old one updated at exactly these pages with the given permissions, or, when
  the allocator runs out of pages for the page tables, at the first few of them, and the result
  says which.
\<close>

theorem mappages_refines:
  assumes "vm_inv s pd T P" "page_aligned va" "n < 2 ^ 20"
    and "\<And>i. i \<le> n \<Longrightarrow> vmap (kmem s) pd (va + of_nat i * PGSIZE) = None"
  shows "\<exists>r s' T' P'. mappages pd va (of_nat (Suc n) * PGSIZE) pa perm s = Ok r s' \<and> vm_ext s pd T P s' T' P'
    \<and> (r = 0 \<and> vmap (kmem s') pd = map_range (vmap (kmem s) pd) va pa perm (Suc n)
      \<or> r = - 1 \<and> P' = {} \<and> (\<exists>k \<le> n. vmap (kmem s') pd = map_range (vmap (kmem s) pd) va pa perm k))"
proof -
  have "page_aligned (va + of_nat n * PGSIZE)"
    using assms(2) by (induction n) (auto simp: algebra_simps dest: page_aligned_add)
  then have l: "PGROUNDDOWN (va + of_nat (Suc n) * PGSIZE - 1) = va + of_nat n * PGSIZE"
    using PGROUNDDOWN_last [of "va + of_nat n * PGSIZE"] by (simp add: algebra_simps)
  have n: "n < NPAGES" using assms(3) by (simp add: NPAGES_def)
  show ?thesis
    unfolding mappages_def l PGROUNDDOWN_id [OF assms(2)]
    by (rule mappages_loop_ok [OF assms(1,2) n assms(3,4)]) blast+
qed

text \<open>mapping a page that is already present is the panic "remap".\<close>

theorem mappages_remap:
  assumes "vm_inv s pd T P" "vmap (kmem s) pd va = Some e"
  shows "mappages pd va PGSIZE pa perm s = Panic ''remap''"
proof -
  have v: "pde_present (kmem s) pd va" "page_aligned va" "load32 (kmem s) (pte_addr (kmem s) pd va) AND 1 \<noteq> 0"
    using vmap_present [OF assms(2)] by auto
  have wf: "pt_wf (kmem s) pd T" using assms(1) by (simp add: vm_inv_def)
  obtain k where k: "NPAGES = Suc k" by (cases NPAGES) (simp_all add: NPAGES_def)
  show ?thesis
    unfolding mappages_def PGROUNDDOWN_last [OF v(2)] PGROUNDDOWN_id [OF v(2)] k
    using walkpgdir_present [OF v(1), of True] pte_addr_nonzero [OF wf v(1)] v(3)
    by (simp add: gets_def panic_def)
qed

text \<open>An empty page directory at \<open>0x80400000\<close> beside an allocator with two free pages.\<close>

lemma ex_uvm:
  obtains s where "uvm_inv s 0x80400000 {} {0x80200000, 0x80300000}" "crt_ok s" "ConsLock \<notin> set (held s)"
    "\<And>va. vmap (kmem s) 0x80400000 va = None"
proof -
  have ok: "page_ok ex_kernel 0x80200000" "page_ok ex_kernel 0x80300000"
    by (simp_all add: page_ok_def page_aligned_def ex_kernel_kend V2P_def)
  obtain m where m: "kmem_inv (ex_kernel\<lparr>kmem := m, freelist := 0x80200000\<rparr>) [0x80200000]"
    "\<And>x. \<not> in_page 0x80200000 x \<Longrightarrow> m x = kmem ex_kernel x"
    using kfree_inv [OF ex_kernel_inv ok(1)] by auto
  define s1 where s1: "s1 = ex_kernel\<lparr>kmem := m, freelist := 0x80200000\<rparr>"
  have ok1: "page_ok s1 0x80300000" using ok(2) by (simp add: page_ok_def s1)
  obtain m2 where m2: "kmem_inv (s1\<lparr>kmem := m2, freelist := 0x80300000\<rparr>) [0x80300000, 0x80200000]"
    "\<And>x. \<not> in_page 0x80300000 x \<Longrightarrow> m2 x = kmem s1 x"
    using kfree_inv [OF m(1) [folded s1] ok1] by auto
  let ?pd = "0x80400000 :: ptr" and ?s = "s1\<lparr>kmem := m2, freelist := 0x80300000\<rparr>"
  have al: "page_aligned ?pd" "page_aligned 0x80200000" "page_aligned 0x80300000" by (simp_all add: page_aligned_def)
  have z: "m2 x = 0" if "in_page ?pd x" for x
    using m2(2) [of x] m(2) [of x] in_page_disjoint [OF al(1,2) _ that] in_page_disjoint [OF al(1,3) _ that]
    by (simp add: s1 ex_kernel_def static_data_def)
  have "load32 m2 (?pd + 4 * i) = 0" if "i < 1024" for i
    using load32_page_cong [OF al(1) that, of m2 "\<lambda>_. 0"] z by (simp add: load32_def)
  then have e: "load32 m2 (?pd + 4 * i) AND 1 = 0" if "i < 1024" for i using that by simp
  then have none: "vmap m2 ?pd va = None" for va using PDX_less [of va] by (simp add: vmap_def pde_present_def)
  have "pt_wf m2 ?pd {}" using e al(1) by (simp add: pt_wf_def)
  moreover have "free_pages ?s {0x80200000, 0x80300000}" using m2(1) unfolding free_pages_def by force
  ultimately have "uvm_inv ?s ?pd {} {0x80200000, 0x80300000}"
    by (simp add: uvm_inv_def vm_inv_def user_frames_def none)
  then show ?thesis using that [of ?s] none
    by (simp add: s1 crt_ok_def ex_kernel_def static_data_def)
qed

theorem allocuvm_correct_witness:
  "\<exists>s s' r. (r = 8192 \<or> r = 0) \<and> allocuvm 0x80400000 0 8192 s = Ok r s'"
proof -
  obtain s where s: "uvm_inv s 0x80400000 {} {0x80200000, 0x80300000}" "crt_ok s" "ConsLock \<notin> set (held s)"
    "\<And>va. vmap (kmem s) 0x80400000 va = None" using ex_uvm by blast
  show ?thesis using allocuvm_correct [OF s(1) _ _ s(4) s(2,3), of 0 8192] by auto
qed

theorem deallocuvm_correct_witness: "\<exists>s s'. deallocuvm 0x80400000 8192 0 s = Ok 0 s'"
proof -
  obtain s where s: "uvm_inv s 0x80400000 {} {0x80200000, 0x80300000}" using ex_uvm by blast
  show ?thesis using deallocuvm_correct [OF s, of 8192 0] by auto
qed

theorem mappages_refines_witness:
  "\<exists>s s' r. mappages 0x80400000 0x60000000 8192 0x100000 7 s = Ok r s' \<and> (r = 0 \<or> r = - 1)"
proof -
  obtain s where s: "uvm_inv s 0x80400000 {} {0x80200000, 0x80300000}"
    "\<And>va. vmap (kmem s) 0x80400000 va = None" using ex_uvm by blast
  have "(0x60000000 :: ptr) mod 4096 = 0" by simp
  then have al: "page_aligned 0x60000000" by (simp add: page_aligned_def)
  show ?thesis using mappages_refines [OF uvm_inv_vm [OF s(1)] al _ s(2), of 1 "0x100000" 7] by auto
qed

theorem mappages_remap_witness:
  "\<exists>s. mappages 0x80400000 0x60000000 4096 0x100000 7 s = Panic ''remap''"
proof -
  obtain s where s: "uvm_inv s 0x80400000 {} {0x80200000, 0x80300000}"
    "\<And>va. vmap (kmem s) 0x80400000 va = None" using ex_uvm by blast
  have al: "page_aligned 0x60000000" by (simp add: page_aligned_def)
  show ?thesis using uvm_inv_vm [OF s(1)] al s(2)
  proof (cases rule: mappages_page [where pa = "0x100000" and perm = 7])
    case (mapped s' T' P')
    then have "vm_inv s' 0x80400000 T' P'" "\<exists>e. vmap (kmem s') 0x80400000 0x60000000 = Some e"
      by (simp_all add: vm_ext_inv)
    then show ?thesis using mappages_remap by blast
  qed simp
qed

end
