(* ===== verification/Kvm.thy ===== *)
theory Kvm
  imports Vm_User
begin

text \<open>
  The address space of the kernel: setupkvm and kvmalloc (vm.c) build exactly the mappings of the table kmap, and how many pages that takes.
\<close>

section \<open>Enough pages\<close>

text \<open>The directory entries that a map uses.\<close>

definition pdxs :: "(ptr \<Rightarrow> uint option) \<Rightarrow> uint set" where
  "pdxs M = PDX ` dom M"

lemma finite_pdxs [simp]: "finite (pdxs M)"
  by simp

lemma pdxs_upd: "pdxs (M(a \<mapsto> e)) = insert (PDX a) (pdxs M)"
  by (simp add: pdxs_def)

lemma pdxs_present:
  assumes "PDX a \<in> pdxs (vmap m pd)"
  shows "pde_present m pd a"
proof -
  obtain b e where "vmap m pd b = Some e" "PDX b = PDX a" using assms by (auto simp: pdxs_def)
  then show ?thesis using vmap_present [of m pd b e] by (simp add: pde_present_def)
qed

declare map_range.simps [simp del]

lemma map_range_one: "map_range M a pa perm (Suc 0) = M(a \<mapsto> pa OR perm OR PTE_P)"
  using map_range.simps(2) [of M a pa perm 0] by (simp add: map_range.simps(1))

lemma pdxs_map_range: "pdxs M \<subseteq> pdxs (map_range M a pa perm n)"
proof (induction n)
  case (Suc n)
  then show ?case unfolding map_range.simps(2) pdxs_upd by blast
qed (simp add: map_range.simps(1))

text \<open>
  A range is mapped when there are as many free pages as directory entries that it uses and that were not used before, and no more pages than that are taken.
\<close>

lemma mappages_loop_enough:
  "vm_inv s pd T P \<Longrightarrow> page_aligned a \<Longrightarrow> n < fuel \<Longrightarrow> n < 2 ^ 20 \<Longrightarrow> (\<And>i. i \<le> n \<Longrightarrow> vmap (kmem s) pd (a + of_nat i * PGSIZE) = None) \<Longrightarrow>
   card (pdxs (map_range (vmap (kmem s) pd) a pa perm (Suc n))) \<le> card P + card (pdxs (vmap (kmem s) pd)) \<Longrightarrow>
   \<exists>s' T' P'. mappages_loop fuel pd a (a + of_nat n * PGSIZE) pa perm s = Ok 0 s' \<and> vm_ext s pd T P s' T' P' \<and>
     vmap (kmem s') pd = map_range (vmap (kmem s) pd) a pa perm (Suc n) \<and>
     card P + card (pdxs (vmap (kmem s) pd)) \<le> card P' + card (pdxs (vmap (kmem s') pd))"
proof (induction n arbitrary: s T P a pa fuel)
  case (0 s T P a pa fuel)
  obtain fu where fu: "fuel = Suc fu" using 0(3) by (cases fuel) auto
  have n0: "vmap (kmem s) pd a = None" using 0(5) [of 0] by simp
  from 0(1,2) n0 show ?case
  proof (cases rule: mappages_step [where fuel = fu and lst = a and pa = pa and perm = perm])
    case full
    then have "PDX a \<notin> pdxs (vmap (kmem s) pd)" using pdxs_present by blast
    then show ?thesis using 0(6) full(1) unfolding map_range_one pdxs_upd by simp
  next
    case (mapped s' T' P')
    have "card P + card (pdxs (vmap (kmem s) pd)) \<le> card P' + card (pdxs (vmap (kmem s') pd))"
      using mapped(4,5) pdxs_present [of a "kmem s" pd] unfolding mapped(3) pdxs_upd
      by (cases "PDX a \<in> pdxs (vmap (kmem s) pd)") (simp_all add: insert_absorb)
    moreover have "mappages_loop fuel pd a a pa perm s = Ok 0 s'" using mapped(2) fu by (simp add: ret_def del: mappages_loop.simps)
    moreover have "a + of_nat 0 * PGSIZE = a" by simp
    ultimately show ?thesis using mapped(1,3) unfolding map_range_one by metis
  qed
next
  case (Suc n s T P a pa fuel)
  obtain fu where fu: "fuel = Suc fu" "n < fu" using Suc.prems(3) by (cases fuel) auto
  have n0: "vmap (kmem s) pd a = None" using Suc.prems(5) [of 0] by simp
  let ?l = "a + of_nat (Suc n) * PGSIZE"
  have dist: "a + of_nat (Suc i) * PGSIZE \<noteq> a" if "i \<le> n" for i
    by (rule page_multiple) (use Suc.prems(4) that in simp_all)
  have ne: "a \<noteq> ?l" using dist [of n] by (simp only: not_sym order_refl simp_thms)
  have e: "a + PGSIZE + of_nat i * PGSIZE = a + of_nat (Suc i) * PGSIZE" for i
    by (simp add: algebra_simps)
  from Suc.prems(1,2) n0 show ?case
  proof (cases rule: mappages_step [where fuel = fu and lst = ?l and pa = pa and perm = perm])
    case full
    then have "PDX a \<notin> pdxs (vmap (kmem s) pd)" using pdxs_present by blast
    then have "card (pdxs (vmap (kmem s) pd)) < card (pdxs ((vmap (kmem s) pd)(a \<mapsto> pa OR perm OR PTE_P)))" by (simp add: pdxs_upd)
    also have "\<dots> \<le> card (pdxs (map_range (vmap (kmem s) pd) a pa perm (Suc (Suc n))))"
      unfolding map_range_Suc [of _ _ _ _ "Suc n"] by (intro card_mono pdxs_map_range) simp
    finally show ?thesis using Suc.prems(6) full(1) by simp
  next
    case (mapped s1 T1 P1)
    have c1: "card P + card (pdxs (vmap (kmem s) pd)) \<le> card P1 + card (pdxs (vmap (kmem s1) pd))"
      using mapped(4,5) pdxs_present [of a "kmem s" pd] unfolding mapped(3) pdxs_upd
      by (cases "PDX a \<in> pdxs (vmap (kmem s) pd)") (simp_all add: insert_absorb)
    have free: "vmap (kmem s1) pd (a + PGSIZE + of_nat i * PGSIZE) = None" if "i \<le> n" for i
      unfolding mapped(3) e fun_upd_other [OF dist [OF that]] by (rule Suc.prems(5)) (use that in simp)
    have step: "mappages_loop fuel pd a ?l pa perm s
        = mappages_loop fu pd (a + PGSIZE) (a + PGSIZE + of_nat n * PGSIZE) (pa + PGSIZE) perm s1"
      using mapped(2) ne fu(1) unfolding e by simp
    have r: "map_range (vmap (kmem s1) pd) (a + PGSIZE) (pa + PGSIZE) perm (Suc n) = map_range (vmap (kmem s) pd) a pa perm (Suc (Suc n))"
      unfolding mapped(3) map_range_Suc [symmetric] ..
    have n20: "n < 2 ^ 20" using Suc.prems(4) by simp
    have "card (pdxs (map_range (vmap (kmem s1) pd) (a + PGSIZE) (pa + PGSIZE) perm (Suc n))) \<le> card P1 + card (pdxs (vmap (kmem s1) pd))"
      unfolding r using Suc.prems(6) c1 by linarith
    from Suc.IH [OF vm_ext_inv [OF mapped(1)] page_aligned_add [OF Suc.prems(2)] fu(2) n20 free this]
    obtain s' T' P' where "mappages_loop fu pd (a + PGSIZE) (a + PGSIZE + of_nat n * PGSIZE) (pa + PGSIZE) perm s1 = Ok 0 s'"
      "vm_ext s1 pd T1 P1 s' T' P'" "vmap (kmem s') pd = map_range (vmap (kmem s) pd) a pa perm (Suc (Suc n))"
      "card P1 + card (pdxs (vmap (kmem s1) pd)) \<le> card P' + card (pdxs (vmap (kmem s') pd))"
      unfolding r by blast
    then show ?thesis using step c1 vm_ext_trans [OF mapped(1)] by (metis (no_types, lifting) order_trans)
  qed
qed

section \<open>Ranges of addresses\<close>

lemma map_range_apply:
  "map_range M a pa perm n va = (if \<exists>i<n. va = a + of_nat i * PGSIZE then Some ((pa + (va - a)) OR perm OR PTE_P) else M va)"
proof (induction n)
  case (Suc n)
  show ?case unfolding map_range.simps(2) fun_upd_apply Suc using less_Suc_eq by auto
qed (simp add: map_range.simps(1))

text \<open>The pages from \<open>a\<close> up to \<open>b\<close>.\<close>

definition page_in :: "nat \<Rightarrow> nat \<Rightarrow> ptr \<Rightarrow> bool" where
  "page_in a b va \<longleftrightarrow> page_aligned va \<and> a \<le> unat va \<and> unat va < b"

lemma page_in_iff:
  assumes "page_aligned a" "unat a + 4096 * n \<le> 2 ^ 32"
  shows "(\<exists>i<n. va = a + of_nat i * PGSIZE) \<longleftrightarrow> page_in (unat a) (unat a + 4096 * n) va"
proof
  assume "\<exists>i<n. va = a + of_nat i * PGSIZE"
  then obtain i where i: "i < n" "va = a + of_nat i * PGSIZE" by blast
  have "unat (of_nat (i * 4096) :: ptr) = i * 4096" using i(1) assms(2) by (intro of_nat_inverse) simp_all
  then have "unat va = unat a + i * 4096" using i assms(2) by (simp add: unat_word_ariths)
  then show "page_in (unat a) (unat a + 4096 * n) va" using i(1) assms(1) by (simp add: page_in_def page_aligned_unat)
next
  assume v: "page_in (unat a) (unat a + 4096 * n) va"
  let ?i = "(unat va - unat a) div 4096"
  have m: "unat va mod 4096 = 0" "unat a mod 4096 = 0" "unat a \<le> unat va" using v assms(1) by (simp_all add: page_in_def page_aligned_unat)
  then have "(unat va - unat a) mod 4096 = 0" using mod_eq_dvd_iff_nat [of "unat a" "unat va" 4096] by simp
  then have e: "?i * 4096 = unat va - unat a" by auto
  have "of_nat ?i * PGSIZE = (of_nat (?i * 4096) :: ptr)" by simp
  also have "\<dots> = va - a" unfolding e using m(3) by simp
  finally have "va = a + of_nat ?i * PGSIZE" by simp
  moreover have "?i * 4096 < n * 4096" using v m(3) unfolding e page_in_def by linarith
  then have "?i < n" by simp
  ultimately show "\<exists>i<n. va = a + of_nat i * PGSIZE" by blast
qed

lemma mappages_enough:
  assumes "vm_inv s pd T P" "page_aligned va" "0 < n" "n \<le> 2 ^ 20" "unat va + 4096 * n \<le> 2 ^ 32" "sz = of_nat (4096 * n)"
    and "\<And>a. page_in (unat va) (unat va + 4096 * n) a \<Longrightarrow> vmap (kmem s) pd a = None"
    and "pdxs (map_range (vmap (kmem s) pd) va pa perm n) \<subseteq> K" "finite K" "card K \<le> card P + card (pdxs (vmap (kmem s) pd))"
  obtains s' T' P' where "mappages pd va sz pa perm s = Ok 0 s'" "vm_ext s pd T P s' T' P'"
    "vmap (kmem s') pd = map_range (vmap (kmem s) pd) va pa perm n" "card K \<le> card P' + card (pdxs (vmap (kmem s') pd))"
    "card P + card (pdxs (vmap (kmem s) pd)) \<le> card P' + card (pdxs (vmap (kmem s') pd))"
proof -
  obtain k where k: "n = Suc k" using assms(3) by (cases n) auto
  have "page_aligned (va + of_nat k * PGSIZE)"
    using assms(2) by (induction k) (auto simp: algebra_simps dest: page_aligned_add)
  then have l: "PGROUNDDOWN (va + sz - 1) = va + of_nat k * PGSIZE"
    using PGROUNDDOWN_last [of "va + of_nat k * PGSIZE"] assms(6) k by (simp add: algebra_simps)
  have f: "k < NPAGES" "k < 2 ^ 20" using assms(4) k by (simp_all add: NPAGES_def)
  have free: "vmap (kmem s) pd (va + of_nat i * PGSIZE) = None" if "i \<le> k" for i
    using assms(7) page_in_iff [OF assms(2,5)] that k by (metis less_Suc_eq_le)
  have c: "card (pdxs (map_range (vmap (kmem s) pd) va pa perm (Suc k))) \<le> card P + card (pdxs (vmap (kmem s) pd))"
    using card_mono [OF assms(9,8)] assms(10) k by simp
  obtain s' T' P' where s': "mappages_loop NPAGES pd va (va + of_nat k * PGSIZE) pa perm s = Ok 0 s'" "vm_ext s pd T P s' T' P'"
    "vmap (kmem s') pd = map_range (vmap (kmem s) pd) va pa perm (Suc k)"
    "card P + card (pdxs (vmap (kmem s) pd)) \<le> card P' + card (pdxs (vmap (kmem s') pd))"
    using mappages_loop_enough [OF assms(1,2) f free c] by blast
  have "mappages pd va sz pa perm s = Ok 0 s'" using s'(1) unfolding mappages_def l PGROUNDDOWN_id [OF assms(2)] .
  then show thesis using that [of s' T' P'] s' assms(10) k by simp
qed

section \<open>setupkvm\<close>

text \<open>A map with the pages of a range sent to consecutive physical addresses.\<close>

definition with_range :: "(ptr \<Rightarrow> uint option) \<Rightarrow> nat \<Rightarrow> nat \<Rightarrow> uint \<Rightarrow> uint \<Rightarrow> ptr \<Rightarrow> uint option" where
  "with_range M a b pa perm = (\<lambda>va. if page_in a b va then Some ((pa + (va - of_nat a)) OR perm OR PTE_P) else M va)"

lemma pdxs_with_range: "pdxs M \<subseteq> K \<Longrightarrow> (\<And>va. page_in a b va \<Longrightarrow> PDX va \<in> K) \<Longrightarrow> pdxs (with_range M a b pa perm) \<subseteq> K"
  by (fastforce simp: pdxs_def with_range_def split: if_splits)

text \<open>The directory entries that the kernel's mappings use.\<close>

definition kpdxs :: "uint set" where
  "kpdxs = {i. 512 \<le> unat i \<and> unat i < 568 \<or> 1016 \<le> unat i \<and> unat i < 1024}"

lemma card_kpdxs: "finite kpdxs" "card kpdxs = 64"
proof -
  have f: "finite kpdxs" by simp
  have "unat ` kpdxs = {512..<568} \<union> {1016..<1024}"
  proof (intro equalityI subsetI)
    fix n :: nat assume n: "n \<in> {512..<568} \<union> {1016..<1024}"
    then have "unat (of_nat n :: uint) = n" by (intro of_nat_inverse) auto
    then show "n \<in> unat ` kpdxs" using n by (intro image_eqI [of _ _ "of_nat n"]) (auto simp: kpdxs_def)
  qed (auto simp: kpdxs_def)
  moreover have "inj_on (unat :: uint \<Rightarrow> nat) kpdxs" by (auto intro: inj_onI simp: word_unat_eq_iff)
  ultimately have "card kpdxs = card ({512..<568} \<union> {1016..<1024} :: nat set)" using card_image by metis
  also have "\<dots> = 64" by (subst card_Un_disjoint) auto
  finally show "card kpdxs = 64" .
  show "finite kpdxs" by (rule f)
qed

lemma kmap_step:
  assumes "vm_inv s pd T P" "pdxs (vmap (kmem s) pd) \<subseteq> kpdxs" "64 \<le> card P + card (pdxs (vmap (kmem s) pd))"
    and "page_aligned va" "unat va < e" "e mod 4096 = 0" "e \<le> 2 ^ 32" "sz = of_nat e - va"
    and "\<And>a. page_in (unat va) e a \<Longrightarrow> vmap (kmem s) pd a = None" "\<And>a. page_in (unat va) e a \<Longrightarrow> PDX a \<in> kpdxs"
  obtains s' T' P' where "mappages pd va sz pa perm s = Ok 0 s'" "vm_ext s pd T P s' T' P'"
    "vmap (kmem s') pd = with_range (vmap (kmem s) pd) (unat va) e pa perm" "pdxs (vmap (kmem s') pd) \<subseteq> kpdxs"
    "64 \<le> card P' + card (pdxs (vmap (kmem s') pd))" "card P + card (pdxs (vmap (kmem s) pd)) \<le> card P' + card (pdxs (vmap (kmem s') pd))"
proof -
  let ?n = "(e - unat va) div 4096"
  have "(e - unat va) mod 4096 = 0" using assms(4-6) mod_eq_dvd_iff_nat [of "unat va" e 4096] by (simp add: page_aligned_unat)
  then have m: "4096 * ?n = e - unat va" by auto
  have e: "unat va + 4096 * ?n = e" unfolding m using assms(5) by simp
  have n: "0 < ?n" "?n \<le> 2 ^ 20" "unat va + 4096 * ?n \<le> 2 ^ 32" using e assms(5,7) by (simp_all; linarith)+
  have sz: "sz = of_nat (4096 * ?n)" unfolding m assms(8) using assms(5) by (simp add: of_nat_diff)
  have ext: "map_range (vmap (kmem s) pd) va pa perm ?n = with_range (vmap (kmem s) pd) (unat va) e pa perm"
    using page_in_iff [OF assms(4) n(3)] unfolding e with_range_def by (intro ext) (simp add: map_range_apply)
  have k: "pdxs (map_range (vmap (kmem s) pd) va pa perm ?n) \<subseteq> kpdxs" unfolding ext using assms(2,10) by (rule pdxs_with_range)
  have free: "vmap (kmem s) pd a = None" if "page_in (unat va) (unat va + 4096 * ?n) a" for a using assms(9) that unfolding e by blast
  have c: "card kpdxs \<le> card P + card (pdxs (vmap (kmem s) pd))" using assms(3) card_kpdxs(2) by simp
  show thesis
    by (rule mappages_enough [OF assms(1,4) n(1-3) sz free k card_kpdxs(1) c]) (use that k card_kpdxs(2) in \<open>simp_all add: ext\<close>)
qed

lemma zero_directory:
  assumes "page_aligned p"
  shows "pt_wf (set_range m p PGSIZE 0) p {}" "vmap (set_range m p PGSIZE 0) p = (\<lambda>_. None)"
proof -
  have "load32 (set_range m p PGSIZE 0) (p + 4 * i) = 0" if "i < 1024" for i
    using load_fill_word [OF assms assms that] by simp
  then have e: "load32 (set_range m p PGSIZE 0) (p + 4 * i) AND 1 = 0" if "i < 1024" for i using that by simp
  show "vmap (set_range m p PGSIZE 0) p = (\<lambda>_. None)" using e PDX_less by (intro ext) (simp add: vmap_def pde_present_def)
  show "pt_wf (set_range m p PGSIZE 0) p {}" using e assms by (simp add: pt_wf_def)
qed

text \<open>
  The mappings that the comment above kmap describes: the device memory, the kernel's data and the free physical memory writable, its text read only, and the first megabyte writable; no page of the user part is mapped.
\<close>

definition kvm_map :: "ptr \<Rightarrow> ptr \<Rightarrow> uint option" where
  "kvm_map kd va =
     (if page_in 0xFE000000 (2 ^ 32) va then Some (va OR PTE_W OR PTE_P)
      else if page_in (unat kd) 0x8E000000 va then Some (V2P va OR PTE_W OR PTE_P)
      else if page_in 0x80100000 (unat kd) va then Some (V2P va OR 0 OR PTE_P)
      else if page_in 0x80000000 0x80100000 va then Some (V2P va OR PTE_W OR PTE_P) else None)"

text \<open>The linker script puts the data of the kernel on a page boundary behind its text.\<close>

definition data_ok :: "ptr \<Rightarrow> bool" where
  "data_ok kd \<longleftrightarrow> page_aligned kd \<and> 0x80100000 < unat kd \<and> unat kd < 0x8E000000"

lemma kpdxs_low: "0x80000000 \<le> unat va \<Longrightarrow> unat va < 0x8E000000 \<Longrightarrow> PDX va \<in> kpdxs"
proof -
  assume "0x80000000 \<le> unat va" "unat va < 0x8E000000"
  then have "0x80000000 div 4194304 \<le> unat va div 4194304" "unat va div 4194304 < 568" using div_le_mono by (blast, simp add: less_mult_imp_div_less)
  then have "512 \<le> unat va div 4194304" "unat va div 4194304 < 568" by simp_all
  then show ?thesis by (simp add: kpdxs_def unat_PDX)
qed

lemma kpdxs_dev: "0xFE000000 \<le> unat va \<Longrightarrow> PDX va \<in> kpdxs"
proof -
  assume "0xFE000000 \<le> unat va"
  then have "0xFE000000 div 4194304 \<le> unat va div 4194304" by (rule div_le_mono)
  then have "1016 \<le> unat va div 4194304" by simp
  moreover have "unat va < 4294967296" using unsigned_less [of va] by simp
  then have "unat va div 4194304 < 1024" by (simp add: less_mult_imp_div_less)
  ultimately show ?thesis by (simp add: kpdxs_def unat_PDX)
qed

lemma setupkvm_ok:
  assumes "free_pages s P" "65 \<le> card P" "data_ok (kdata s)"
  obtains pd s' T' P' where "setupkvm s = Ok pd s'" "pd \<in> P" "pd \<noteq> 0" "\<exists>m f. s' = set_mem m f s" "vm_inv s' pd T' P'"
    "vmap (kmem s') pd = kvm_map (kdata s)" "T' \<union> P' = P - {pd}" "card P \<le> card P' + 65"
    "\<And>x. (\<forall>p\<in>P - P'. \<not> in_page p x) \<Longrightarrow> kmem s' x = kmem s x"
proof -
  let ?kd = "kdata s"
  have kd: "page_aligned ?kd" "0x80100000 < unat ?kd" "unat ?kd < 0x8E000000" "unat ?kd mod 4096 = 0"
    using assms(3) by (simp_all add: data_ok_def page_aligned_unat)
  have fin: "finite P" using assms(2) by (metis card.infinite not_numeral_le_zero)
  from assms(1) obtain p f where p: "p \<in> P" "p \<noteq> 0" "page_ok s p" "kalloc s = Ok p (s\<lparr>freelist := f\<rparr>)" "free_pages (s\<lparr>freelist := f\<rparr>) (P - {p})"
    using assms(2) by (cases rule: pa.alloc_cases) auto
  have al: "page_aligned p" using p(3) by (simp add: page_ok_def)
  define s0 where "s0 = set_mem (set_range (kmem s) p PGSIZE 0) f s"
  have fp: "free_pages s0 (P - {p})" 
  proof -
    have "s0 = (s\<lparr>freelist := f\<rparr>)\<lparr>kmem := set_range (kmem s) p PGSIZE 0\<rparr>" by (cases s) (simp add: s0_def set_mem_def)
    then show ?thesis using pa.fill_page [OF p(5) al, of 0] by simp
  qed
  have v0: "vm_inv s0 p {} (P - {p})" "vmap (kmem s0) p = (\<lambda>_. None)" using fp zero_directory [OF al] by (simp_all add: vm_inv_def s0_def)
  have c0: "pdxs (vmap (kmem s0) p) \<subseteq> kpdxs" "64 \<le> card (P - {p}) + card (pdxs (vmap (kmem s0) p))"
    using assms(2) p(1) fin by (simp_all add: v0(2) pdxs_def)
  obtain s1 T1 P1 where 1: "mappages p KERNBASE (EXTMEM - 0) 0 PTE_W s0 = Ok 0 s1" "vm_ext s0 p {} (P - {p}) s1 T1 P1"
    "vmap (kmem s1) p = with_range (\<lambda>_. None) 0x80000000 0x80100000 0 PTE_W" "pdxs (vmap (kmem s1) p) \<subseteq> kpdxs"
    "64 \<le> card P1 + card (pdxs (vmap (kmem s1) p))" "card (P - {p}) + card (pdxs (vmap (kmem s0) p)) \<le> card P1 + card (pdxs (vmap (kmem s1) p))"
    by (rule kmap_step [OF v0(1) c0, where va = KERNBASE and e = "0x80100000" and sz = "EXTMEM - 0" and pa = "0" and perm = PTE_W])
      (auto simp: v0(2) page_aligned_def page_in_def intro: kpdxs_low)
  obtain s2 T2 P2 where 2: "mappages p KERNLINK (V2P ?kd - V2P KERNLINK) (V2P KERNLINK) 0 s1 = Ok 0 s2" "vm_ext s1 p T1 P1 s2 T2 P2"
    "vmap (kmem s2) p = with_range (vmap (kmem s1) p) 0x80100000 (unat ?kd) (V2P KERNLINK) 0" "pdxs (vmap (kmem s2) p) \<subseteq> kpdxs"
    "64 \<le> card P2 + card (pdxs (vmap (kmem s2) p))" "card P1 + card (pdxs (vmap (kmem s1) p)) \<le> card P2 + card (pdxs (vmap (kmem s2) p))"
    by (rule kmap_step [OF vm_ext_inv [OF 1(2)] 1(4,5), where va = KERNLINK and e = "unat ?kd" and sz = "V2P ?kd - V2P KERNLINK" and pa = "V2P KERNLINK" and perm = "0"])
      (use kd in \<open>auto simp: 1(3) page_aligned_def page_in_def with_range_def V2P_def intro: kpdxs_low\<close>)
  obtain s3 T3 P3 where 3: "mappages p ?kd (PHYSTOP - V2P ?kd) (V2P ?kd) PTE_W s2 = Ok 0 s3" "vm_ext s2 p T2 P2 s3 T3 P3"
    "vmap (kmem s3) p = with_range (vmap (kmem s2) p) (unat ?kd) 0x8E000000 (V2P ?kd) PTE_W" "pdxs (vmap (kmem s3) p) \<subseteq> kpdxs"
    "64 \<le> card P3 + card (pdxs (vmap (kmem s3) p))" "card P2 + card (pdxs (vmap (kmem s2) p)) \<le> card P3 + card (pdxs (vmap (kmem s3) p))"
    by (rule kmap_step [OF vm_ext_inv [OF 2(2)] 2(4,5), where va = ?kd and e = "0x8E000000" and sz = "PHYSTOP - V2P ?kd" and pa = "V2P ?kd" and perm = PTE_W])
      (use kd in \<open>auto simp: 1(3) 2(3) page_in_def with_range_def V2P_def intro: kpdxs_low\<close>)
  obtain s4 T4 P4 where 4: "mappages p DEVSPACE (0 - DEVSPACE) DEVSPACE PTE_W s3 = Ok 0 s4" "vm_ext s3 p T3 P3 s4 T4 P4"
    "vmap (kmem s4) p = with_range (vmap (kmem s3) p) 0xFE000000 (2 ^ 32) DEVSPACE PTE_W" "pdxs (vmap (kmem s4) p) \<subseteq> kpdxs"
    "card P3 + card (pdxs (vmap (kmem s3) p)) \<le> card P4 + card (pdxs (vmap (kmem s4) p))"
    by (rule kmap_step [OF vm_ext_inv [OF 3(2)] 3(4,5), where va = DEVSPACE and e = "2 ^ 32" and sz = "0 - DEVSPACE" and pa = DEVSPACE and perm = PTE_W])
      (use kd in \<open>auto simp: 1(3) 2(3) 3(3) page_aligned_def page_in_def with_range_def intro: kpdxs_dev\<close>)
  have ext: "vm_ext s0 p {} (P - {p}) s4 T4 P4" using vm_ext_trans [OF vm_ext_trans [OF vm_ext_trans [OF 1(2) 2(2)] 3(2)] 4(2)] .
  then have T: "T4 \<union> P4 = P - {p}" "vm_inv s4 p T4 P4" by (auto simp: vm_ext_def)
  have ks: "kmap s0 = [(KERNBASE, 0, EXTMEM, PTE_W), (KERNLINK, V2P KERNLINK, V2P ?kd, 0), (?kd, V2P ?kd, PHYSTOP, PTE_W), (DEVSPACE, DEVSPACE, 0, PTE_W)]"
    by (simp add: kmap_def s0_def)
  have loop: "setupkvm_loop (kmap s0) p s0 = Ok p s4"
    unfolding ks setupkvm_loop.simps bindM_def using 1(1) 2(1) 3(1) 4(1) by (simp add: ret_def bindM_def)
  have "s0 = s\<lparr>freelist := f, kmem := memset (kmem s) p 0 PGSIZE\<rparr>" by (cases s) (simp add: s0_def set_mem_def memset_eq_set_range)
  then have run: "setupkvm s = Ok p s4"
    using loop p(2,4) by (simp add: setupkvm_def monad_defs P2V_def)
  have map: "vmap (kmem s4) p = kvm_map ?kd"
    unfolding 4(3) 3(3) 2(3) 1(3) by (auto simp: fun_eq_iff with_range_def kvm_map_def V2P_def)
  have "card (pdxs (vmap (kmem s4) p)) \<le> 64" using card_mono [OF card_kpdxs(1) 4(4)] card_kpdxs(2) by simp
  then have "card P \<le> card P4 + 65" using 1(6) 2(6) 3(6) 4(5) p(1) fin by (simp add: v0(2) pdxs_def)
  moreover have "kmem s4 x = kmem s x" if "\<forall>q\<in>P - P4. \<not> in_page q x" for x
  proof -
    have "p \<in> P - P4" "T4 \<subseteq> P - P4" using T p(1) by (auto simp: vm_inv_def)
    then have x: "\<not> in_page p x" "\<forall>t\<in>T4. \<not> in_page t x" using that by auto
    then have "kmem s4 x = kmem s0 x" using ext by (simp add: vm_ext_def)
    then show ?thesis using x(1) by (simp add: s0_def set_range_def in_page_def)
  qed
  moreover have "\<exists>m f. s4 = set_mem m f s" using ext by (auto simp: vm_ext_def s0_def)
  ultimately show thesis using that [of p s4 T4 P4] run p(1,2) T map by blast
qed

end
