(* ===== verification/Bio.thy ===== *)
theory Bio
  imports Vm
begin

text \<open>
  The buffer cache (bio.c) over the memory disk (memide.c).  The cache list that runs through
  the prev and next fields is the list \<open>lru\<close> of buffer indices, from head.next on.

  The sources hold two disk drivers with one interface.  The file system theories use the
  memory disk, whose iderw completes at once.  Each write is recorded in the ghost list
  \<open>dwrites\<close>, so that the states a crash can leave behind can be named.
\<close>

section \<open>The memory disk\<close>

definition ideinit :: "(uint \<Rightarrow> byte list) \<Rightarrow> uint \<Rightarrow> unit M" where
  "ideinit img size_bytes = modify (\<lambda>s. s\<lparr>disk := img, disksize := size_bytes div 512\<rparr>)"

definition iderw :: "nat \<Rightarrow> unit M" where
  "iderw b =
     bindM (holdingsleep (BufLock b)) (\<lambda>h.
     if \<not> h then panic ''iderw: buf not locked'' else
     bindM (gets (\<lambda>s. bufs s ! b)) (\<lambda>x.
     if b_valid x \<and> \<not> b_dirty x then panic ''iderw: nothing to do''
     else if b_dev x \<noteq> 1 then panic ''iderw: request not for disk 1'' else
     bindM (gets disksize) (\<lambda>size.
     if b_blockno x \<ge> size then panic ''iderw: block out of range'' else
     if b_dirty x
     then modify (\<lambda>s. upd_buf b (\<lambda>x. x\<lparr>b_dirty := False, b_valid := True\<rparr>)
            (s\<lparr>disk := (disk s)(b_blockno x := b_data x), dwrites := dwrites s @ [(b_blockno x, b_data x)]\<rparr>))
     else modify (\<lambda>s. upd_buf b (\<lambda>x. x\<lparr>b_data := disk s (b_blockno x), b_valid := True\<rparr>) s))))"

section \<open>The cache\<close>

definition binit :: "unit M" where
  "binit = foreach [0..<NBUF] (\<lambda>b.
     seqM (initsleeplock (BufLock b)) (modify (\<lambda>s. s\<lparr>lru := b # lru s\<rparr>)))"

definition bget_cached :: "uint \<Rightarrow> uint \<Rightarrow> kernel \<Rightarrow> nat option" where
  "bget_cached dev blockno s = find (\<lambda>b. b_dev (bufs s ! b) = dev \<and> b_blockno (bufs s ! b) = blockno) (lru s)"

definition bget_unused :: "kernel \<Rightarrow> nat option" where
  "bget_unused s = find (\<lambda>b. b_refcnt (bufs s ! b) = 0 \<and> \<not> b_dirty (bufs s ! b)) (rev (lru s))"

definition bget :: "uint \<Rightarrow> uint \<Rightarrow> nat M" where
  "bget dev blockno =
     seqM (acquire BcacheLock)
    (bindM (gets (bget_cached dev blockno)) (\<lambda>c.
     case c of Some b \<Rightarrow>
       seqM (modify (upd_buf b (\<lambda>x. x\<lparr>b_refcnt := b_refcnt x + 1\<rparr>)))
      (seqM (release BcacheLock)
      (seqM (acquiresleep (BufLock b))
      (ret b)))
     | None \<Rightarrow>
       bindM (gets bget_unused) (\<lambda>u.
       case u of Some b \<Rightarrow>
         seqM (modify (upd_buf b (\<lambda>x. x\<lparr>b_dev := dev, b_blockno := blockno, b_valid := False, b_dirty := False, b_refcnt := 1\<rparr>)))
        (seqM (release BcacheLock)
        (seqM (acquiresleep (BufLock b))
        (ret b)))
       | None \<Rightarrow> panic ''bget: no buffers'')))"

definition bread :: "uint \<Rightarrow> uint \<Rightarrow> nat M" where
  "bread dev blockno =
     bindM (bget dev blockno) (\<lambda>b.
     bindM (gets (\<lambda>s. b_valid (bufs s ! b))) (\<lambda>v.
     seqM (whenM (\<not> v) (iderw b))
     (ret b)))"

definition bwrite :: "nat \<Rightarrow> unit M" where
  "bwrite b =
     bindM (holdingsleep (BufLock b)) (\<lambda>h.
     if \<not> h then panic ''bwrite'' else
     seqM (modify (upd_buf b (\<lambda>x. x\<lparr>b_dirty := True\<rparr>)))
     (iderw b))"

definition brelse :: "nat \<Rightarrow> unit M" where
  "brelse b =
     bindM (holdingsleep (BufLock b)) (\<lambda>h.
     if \<not> h then panic ''brelse'' else
     seqM (releasesleep (BufLock b))
    (seqM (acquire BcacheLock)
    (seqM (modify (upd_buf b (\<lambda>x. x\<lparr>b_refcnt := b_refcnt x - 1\<rparr>)))
    (bindM (gets (\<lambda>s. b_refcnt (bufs s ! b))) (\<lambda>r.
     seqM (whenM (r = 0) (modify (\<lambda>s. s\<lparr>lru := b # remove1 b (lru s)\<rparr>)))
     (release BcacheLock))))))"

text \<open>The contents of a buffer the caller has locked.\<close>

definition buf_data :: "nat \<Rightarrow> byte list M" where
  "buf_data b = gets (\<lambda>s. b_data (bufs s ! b))"

definition set_data :: "nat \<Rightarrow> byte list \<Rightarrow> unit M" where
  "set_data b d = modify (upd_buf b (\<lambda>x. x\<lparr>b_data := d\<rparr>))"

end
