(* ===== verification/Log.thy ===== *)
theory Log
  imports Bio
begin

text \<open>
  The log (log.c): system calls group their block writes into transactions; a commit writes the
  modified blocks to the log area, then the header that makes the transaction permanent, then
  the blocks to their home locations, then an empty header.  A block number of the header is
  kept as the 32-bit pattern that bread receives.
\<close>

section \<open>The super block\<close>

definition get_superblock :: "byte list \<Rightarrow> superblock" where
  "get_superblock d = \<lparr>sb_size = get32 d 0, sb_nblocks = get32 d 4, sb_ninodes = get32 d 8, sb_nlog = get32 d 12,
     sb_logstart = get32 d 16, sb_inodestart = get32 d 20, sb_bmapstart = get32 d 24\<rparr>"

definition readsb :: "uint \<Rightarrow> superblock M" where
  "readsb dev =
     bindM (bread dev 1) (\<lambda>bp.
     bindM (buf_data bp) (\<lambda>d.
     seqM (brelse bp)
     (ret (get_superblock d))))"

section \<open>Transactions\<close>

definition log_block :: "int \<Rightarrow> uint M" where
  "log_block i = bindM (gets (\<lambda>s. lh_block (klog s))) (\<lambda>bs.
     if i < 0 \<or> i \<ge> int (length bs) then fault ''lh.block index'' else ret (bs ! nat i))"

definition upd_log :: "(log \<Rightarrow> log) \<Rightarrow> kernel \<Rightarrow> kernel" where
  "upd_log f s = s\<lparr>klog := f (klog s)\<rparr>"

definition set_log_block :: "int \<Rightarrow> uint \<Rightarrow> unit M" where
  "set_log_block i v = bindM (gets (\<lambda>s. lh_block (klog s))) (\<lambda>bs.
     if i < 0 \<or> i \<ge> int (length bs) then fault ''lh.block index''
     else modify (upd_log (\<lambda>l. l\<lparr>lh_block := (lh_block l)[nat i := v]\<rparr>)))"

definition install_trans :: "unit M" where
  "install_trans =
     bindM (gets klog) (\<lambda>l.
     foreach [0..<nat (lh_n l)] (\<lambda>tail.
       bindM (bread (lg_dev l) (word_of_int (lg_start l + int tail + 1))) (\<lambda>lbuf.
       bindM (log_block (int tail)) (\<lambda>home.
       bindM (bread (lg_dev l) home) (\<lambda>dbuf.
       bindM (buf_data lbuf) (\<lambda>d.
       seqM (set_data dbuf d)
      (seqM (bwrite dbuf)
      (seqM (brelse lbuf)
      (brelse dbuf)))))))))"

definition read_head :: "unit M" where
  "read_head =
     bindM (gets klog) (\<lambda>l.
     bindM (bread (lg_dev l) (word_of_int (lg_start l))) (\<lambda>b.
     bindM (buf_data b) (\<lambda>d.
     seqM (modify (upd_log (\<lambda>l. l\<lparr>lh_n := sint (get32 d 0)\<rparr>)))
    (seqM (foreach [0..<nat (sint (get32 d 0))] (\<lambda>i. set_log_block (int i) (get32 d (4 + 4 * i))))
    (brelse b)))))"

text \<open>The header block with the first \<open>n\<close> entries of the in-memory header.\<close>

fun put_blocks :: "byte list \<Rightarrow> uint list \<Rightarrow> nat \<Rightarrow> byte list" where
  "put_blocks d bs 0 = d"
| "put_blocks d bs (Suc n) = put32 (put_blocks d bs n) (4 + 4 * n) (bs ! n)"

definition write_head :: "unit M" where
  "write_head =
     bindM (gets klog) (\<lambda>l.
     bindM (bread (lg_dev l) (word_of_int (lg_start l))) (\<lambda>b.
     if lh_n l > int (length (lh_block l)) then fault ''lh.block index'' else
     bindM (buf_data b) (\<lambda>d.
     seqM (set_data b (put_blocks (put32 d 0 (word_of_int (lh_n l))) (lh_block l) (nat (lh_n l))))
    (seqM (bwrite b)
    (brelse b)))))"

definition recover_from_log :: "unit M" where
  "recover_from_log =
     seqM read_head
    (seqM install_trans
    (seqM (modify (upd_log (\<lambda>l. l\<lparr>lh_n := 0\<rparr>)))
    write_head))"

definition initlog :: "uint \<Rightarrow> unit M" where
  "initlog dev =
     bindM (readsb dev) (\<lambda>sb.
     seqM (modify (upd_log (\<lambda>l. l\<lparr>lg_start := sint (sb_logstart sb), lg_size := sint (sb_nlog sb), lg_dev := dev\<rparr>)))
     recover_from_log)"

definition begin_op :: "unit M" where
  "begin_op =
     seqM (acquire LogLock)
    (bindM (gets klog) (\<lambda>l.
     if lg_committing l then sleep ChanLog (Some LogLock)
     else if lh_n l + (lg_outstanding l + 1) * MAXOPBLOCKS > LOGSIZE then sleep ChanLog (Some LogLock)
     else seqM (modify (upd_log (\<lambda>l. l\<lparr>lg_outstanding := lg_outstanding l + 1\<rparr>)))
          (release LogLock)))"

definition write_log :: "unit M" where
  "write_log =
     bindM (gets klog) (\<lambda>l.
     foreach [0..<nat (lh_n l)] (\<lambda>tail.
       bindM (bread (lg_dev l) (word_of_int (lg_start l + int tail + 1))) (\<lambda>to.
       bindM (log_block (int tail)) (\<lambda>home.
       bindM (bread (lg_dev l) home) (\<lambda>from.
       bindM (buf_data from) (\<lambda>d.
       seqM (set_data to d)
      (seqM (bwrite to)
      (seqM (brelse from)
      (brelse to)))))))))"

definition commit :: "unit M" where
  "commit =
     bindM (gets klog) (\<lambda>l.
     whenM (lh_n l > 0)
      (seqM write_log
      (seqM write_head
      (seqM install_trans
      (seqM (modify (upd_log (\<lambda>l. l\<lparr>lh_n := 0\<rparr>)))
      write_head)))))"

definition end_op :: "unit M" where
  "end_op =
     seqM (acquire LogLock)
    (seqM (modify (upd_log (\<lambda>l. l\<lparr>lg_outstanding := lg_outstanding l - 1\<rparr>)))
    (bindM (gets klog) (\<lambda>l.
     if lg_committing l then panic ''log.committing'' else
     if lg_outstanding l = 0 then
       seqM (modify (upd_log (\<lambda>l. l\<lparr>lg_committing := True\<rparr>)))
      (seqM (release LogLock)
      (seqM commit
      (seqM (acquire LogLock)
      (seqM (modify (upd_log (\<lambda>l. l\<lparr>lg_committing := False\<rparr>)))
      (seqM (wakeup ChanLog)
      (release LogLock))))))
     else
       seqM (wakeup ChanLog)
      (release LogLock))))"

text \<open>The slot of a block in the in-memory header: its own, or the first unused one.\<close>

definition log_slot :: "log \<Rightarrow> uint \<Rightarrow> nat" where
  "log_slot l blockno = (case find (\<lambda>i. lh_block l ! i = blockno) [0..<nat (lh_n l)] of
     Some i \<Rightarrow> i | None \<Rightarrow> nat (lh_n l))"

definition log_write :: "nat \<Rightarrow> unit M" where
  "log_write b =
     bindM (gets klog) (\<lambda>l.
     if lh_n l \<ge> LOGSIZE \<or> lh_n l \<ge> lg_size l - 1 then panic ''too big a transaction''
     else if lg_outstanding l < 1 then panic ''log_write outside of trans'' else
     seqM (acquire LogLock)
    (bindM (gets (\<lambda>s. b_blockno (bufs s ! b))) (\<lambda>blockno.
     let i = log_slot l blockno in
     seqM (set_log_block (int i) blockno)
    (seqM (whenM (int i = lh_n l) (modify (upd_log (\<lambda>l. l\<lparr>lh_n := lh_n l + 1\<rparr>))))
    (seqM (modify (upd_buf b (\<lambda>x. x\<lparr>b_dirty := True\<rparr>)))
    (release LogLock))))))"

lemma length_put_blocks [simp]: "length (put_blocks d bs n) = length d"
  by (induction n) simp_all

end
