(* ===== verification/Inode.thy ===== *)
theory Inode
  imports Log
begin

text \<open>
  Disk blocks and inodes (the first two thirds of fs.c): the free block bitmap, the inode cache
  over the inode blocks of the disk, and the block map of an inode.
\<close>

section \<open>Blocks\<close>

definition IBLOCK :: "uint \<Rightarrow> superblock \<Rightarrow> uint" where
  "IBLOCK i sblk = i div 8 + sb_inodestart sblk"

definition BBLOCK :: "uint \<Rightarrow> superblock \<Rightarrow> uint" where
  "BBLOCK b sblk = b div 4096 + sb_bmapstart sblk"

definition bzero :: "uint \<Rightarrow> uint \<Rightarrow> unit M" where
  "bzero dev bno =
     bindM (bread dev bno) (\<lambda>bp.
     seqM (set_data bp (replicate BSIZE 0))
    (seqM (log_write bp)
    (brelse bp)))"

text \<open>One bit of a bitmap block.\<close>

definition bmap_bit :: "byte list \<Rightarrow> nat \<Rightarrow> bool" where
  "bmap_bit d bi \<longleftrightarrow> d ! (bi div 8) AND push_bit (bi mod 8) 1 \<noteq> 0"

definition bmap_set :: "byte list \<Rightarrow> nat \<Rightarrow> byte list" where
  "bmap_set d bi = d[bi div 8 := d ! (bi div 8) OR push_bit (bi mod 8) 1]"

definition bmap_clear :: "byte list \<Rightarrow> nat \<Rightarrow> byte list" where
  "bmap_clear d bi = d[bi div 8 := d ! (bi div 8) AND NOT (push_bit (bi mod 8) 1)]"

text \<open>The loop over the bitmap blocks; \<open>b\<close> is the number of the first block a bitmap block covers.\<close>

fun balloc_loop :: "uint \<Rightarrow> nat \<Rightarrow> nat list \<Rightarrow> uint M" where
  "balloc_loop dev sz [] = panic ''balloc: out of blocks''"
| "balloc_loop dev sz (b # bs) =
     bindM (gets sb) (\<lambda>sblk.
     bindM (bread dev (BBLOCK (of_nat b) sblk)) (\<lambda>bp.
     bindM (buf_data bp) (\<lambda>d.
     case find (\<lambda>bi. \<not> bmap_bit d bi) [0..<min 4096 (sz - b)] of
       Some bi \<Rightarrow>
         seqM (set_data bp (bmap_set d bi))
        (seqM (log_write bp)
        (seqM (brelse bp)
        (seqM (bzero dev (of_nat (b + bi)))
        (ret (of_nat (b + bi))))))
     | None \<Rightarrow> seqM (brelse bp) (balloc_loop dev sz bs))))"

definition balloc :: "uint \<Rightarrow> uint M" where
  "balloc dev =
     bindM (gets (\<lambda>s. unat (sb_size (sb s)))) (\<lambda>sz.
     balloc_loop dev sz (map (\<lambda>k. 4096 * k) [0..<(sz + 4095) div 4096]))"

definition bfree :: "uint \<Rightarrow> uint \<Rightarrow> unit M" where
  "bfree dev b =
     bindM (gets sb) (\<lambda>sblk.
     bindM (bread dev (BBLOCK b sblk)) (\<lambda>bp.
     bindM (buf_data bp) (\<lambda>d.
     let bi = unat b mod 4096 in
     if \<not> bmap_bit d bi then panic ''freeing free block'' else
     seqM (set_data bp (bmap_clear d bi))
    (seqM (log_write bp)
    (brelse bp)))))"

section \<open>Inodes on disk\<close>

text \<open>A disk inode is 64 bytes; eight of them fill a block.\<close>

definition get_dinode :: "byte list \<Rightarrow> nat \<Rightarrow> dinode" where
  "get_dinode d k = \<lparr>d_type = get16 d (64 * k), d_major = get16 d (64 * k + 2), d_minor = get16 d (64 * k + 4),
     d_nlink = get16 d (64 * k + 6), d_size = get32 d (64 * k + 8),
     d_addrs = map (\<lambda>i. get32 d (64 * k + 12 + 4 * i)) [0..<NDIRECT + 1]\<rparr>"

fun put_addrs :: "byte list \<Rightarrow> nat \<Rightarrow> uint list \<Rightarrow> byte list" where
  "put_addrs d off [] = d"
| "put_addrs d off (a # as) = put_addrs (put32 d off a) (off + 4) as"

definition put_dinode :: "byte list \<Rightarrow> nat \<Rightarrow> dinode \<Rightarrow> byte list" where
  "put_dinode d k x = put_addrs (put32 (put16 (put16 (put16 (put16 d (64 * k) (d_type x)) (64 * k + 2) (d_major x))
     (64 * k + 4) (d_minor x)) (64 * k + 6) (d_nlink x)) (64 * k + 8) (d_size x)) (64 * k + 12) (d_addrs x)"

section \<open>The inode cache\<close>

definition iget :: "uint \<Rightarrow> uint \<Rightarrow> nat M" where
  "iget dev inum =
     seqM (acquire IcacheLock)
    (bindM (gets icache) (\<lambda>ic.
     case find (\<lambda>i. i_ref (ic ! i) > 0 \<and> i_dev (ic ! i) = dev \<and> i_inum (ic ! i) = inum) [0..<length ic] of
       Some ip \<Rightarrow>
         seqM (modify (upd_inode ip (\<lambda>x. x\<lparr>i_ref := i_ref x + 1\<rparr>)))
        (seqM (release IcacheLock)
        (ret ip))
     | None \<Rightarrow>
        (case find (\<lambda>i. i_ref (ic ! i) = 0) [0..<length ic] of
           None \<Rightarrow> panic ''iget: no inodes''
         | Some ip \<Rightarrow>
             seqM (modify (upd_inode ip (\<lambda>x. x\<lparr>i_dev := dev, i_inum := inum, i_ref := 1, i_valid := False\<rparr>)))
            (seqM (release IcacheLock)
            (ret ip)))))"

fun ialloc_loop :: "uint \<Rightarrow> ushort \<Rightarrow> nat list \<Rightarrow> nat M" where
  "ialloc_loop dev ty [] = panic ''ialloc: no inodes''"
| "ialloc_loop dev ty (inum # is) =
     bindM (gets sb) (\<lambda>sblk.
     bindM (bread dev (IBLOCK (of_nat inum) sblk)) (\<lambda>bp.
     bindM (buf_data bp) (\<lambda>d.
     if d_type (get_dinode d (inum mod 8)) = 0 then
       seqM (set_data bp (put_dinode d (inum mod 8)
          \<lparr>d_type = ty, d_major = 0, d_minor = 0, d_nlink = 0, d_size = 0, d_addrs = replicate (NDIRECT + 1) 0\<rparr>))
      (seqM (log_write bp)
      (seqM (brelse bp)
      (iget dev (of_nat inum))))
     else seqM (brelse bp) (ialloc_loop dev ty is))))"

definition ialloc :: "uint \<Rightarrow> ushort \<Rightarrow> nat M" where
  "ialloc dev ty = bindM (gets (\<lambda>s. unat (sb_ninodes (sb s)))) (\<lambda>n. ialloc_loop dev ty [1..<n])"

definition iupdate :: "nat \<Rightarrow> unit M" where
  "iupdate ip =
     bindM (gets (\<lambda>s. icache s ! ip)) (\<lambda>x.
     bindM (gets sb) (\<lambda>sblk.
     bindM (bread (i_dev x) (IBLOCK (i_inum x) sblk)) (\<lambda>bp.
     bindM (buf_data bp) (\<lambda>d.
     seqM (set_data bp (put_dinode d (unat (i_inum x) mod 8)
        \<lparr>d_type = i_type x, d_major = i_major x, d_minor = i_minor x, d_nlink = i_nlink x, d_size = i_size x,
         d_addrs = i_addrs x\<rparr>))
    (seqM (log_write bp)
    (brelse bp))))))"

definition idup :: "nat \<Rightarrow> nat M" where
  "idup ip =
     seqM (acquire IcacheLock)
    (seqM (modify (upd_inode ip (\<lambda>x. x\<lparr>i_ref := i_ref x + 1\<rparr>)))
    (seqM (release IcacheLock)
    (ret ip)))"

definition ilock :: "nat option \<Rightarrow> unit M" where
  "ilock ipo = (case ipo of None \<Rightarrow> panic ''ilock'' | Some ip \<Rightarrow>
     bindM (gets (\<lambda>s. i_ref (icache s ! ip))) (\<lambda>r.
     if r < 1 then panic ''ilock'' else
     seqM (acquiresleep (InodeLock ip))
    (bindM (gets (\<lambda>s. icache s ! ip)) (\<lambda>x.
     if i_valid x then ret () else
     bindM (gets sb) (\<lambda>sblk.
     bindM (bread (i_dev x) (IBLOCK (i_inum x) sblk)) (\<lambda>bp.
     bindM (buf_data bp) (\<lambda>d.
     let di = get_dinode d (unat (i_inum x) mod 8) in
     seqM (modify (upd_inode ip (\<lambda>x. x\<lparr>i_type := d_type di, i_major := d_major di, i_minor := d_minor di,
        i_nlink := d_nlink di, i_size := d_size di, i_addrs := d_addrs di\<rparr>)))
    (seqM (brelse bp)
    (seqM (modify (upd_inode ip (\<lambda>x. x\<lparr>i_valid := True\<rparr>)))
    (if d_type di = 0 then panic ''ilock: no type'' else ret ()))))))))))"

definition iunlock :: "nat option \<Rightarrow> unit M" where
  "iunlock ipo = (case ipo of None \<Rightarrow> panic ''iunlock'' | Some ip \<Rightarrow>
     bindM (holdingsleep (InodeLock ip)) (\<lambda>h.
     bindM (gets (\<lambda>s. i_ref (icache s ! ip))) (\<lambda>r.
     if \<not> h \<or> r < 1 then panic ''iunlock'' else releasesleep (InodeLock ip))))"

section \<open>The block map\<close>

definition itrunc :: "nat \<Rightarrow> unit M" where
  "itrunc ip =
     seqM (foreach [0..<NDIRECT] (\<lambda>i.
       bindM (gets (\<lambda>s. icache s ! ip)) (\<lambda>x.
       whenM (i_addrs x ! i \<noteq> 0)
        (seqM (bfree (i_dev x) (i_addrs x ! i))
        (modify (upd_inode ip (\<lambda>x. x\<lparr>i_addrs := (i_addrs x)[i := 0]\<rparr>)))))))
    (bindM (gets (\<lambda>s. icache s ! ip)) (\<lambda>x.
     seqM (whenM (i_addrs x ! NDIRECT \<noteq> 0)
       (bindM (bread (i_dev x) (i_addrs x ! NDIRECT)) (\<lambda>bp.
        bindM (buf_data bp) (\<lambda>a.
        seqM (foreach [0..<NINDIRECT] (\<lambda>j.
          whenM (get32 a (4 * j) \<noteq> 0) (bfree (i_dev x) (get32 a (4 * j)))))
       (seqM (brelse bp)
       (seqM (bfree (i_dev x) (i_addrs x ! NDIRECT))
       (modify (upd_inode ip (\<lambda>x. x\<lparr>i_addrs := (i_addrs x)[NDIRECT := 0]\<rparr>)))))))))
    (seqM (modify (upd_inode ip (\<lambda>x. x\<lparr>i_size := 0\<rparr>)))
    (iupdate ip))))"

definition iput :: "nat \<Rightarrow> unit M" where
  "iput ip =
     seqM (acquiresleep (InodeLock ip))
    (bindM (gets (\<lambda>s. icache s ! ip)) (\<lambda>x.
     seqM (whenM (i_valid x \<and> i_nlink x = 0)
       (seqM (acquire IcacheLock)
       (bindM (gets (\<lambda>s. i_ref (icache s ! ip))) (\<lambda>r.
        seqM (release IcacheLock)
       (whenM (r = 1)
         (seqM (itrunc ip)
         (seqM (modify (upd_inode ip (\<lambda>x. x\<lparr>i_type := 0\<rparr>)))
         (seqM (iupdate ip)
         (modify (upd_inode ip (\<lambda>x. x\<lparr>i_valid := False\<rparr>)))))))))))
    (seqM (releasesleep (InodeLock ip))
    (seqM (acquire IcacheLock)
    (seqM (modify (upd_inode ip (\<lambda>x. x\<lparr>i_ref := i_ref x - 1\<rparr>)))
    (release IcacheLock))))))"

definition iunlockput :: "nat \<Rightarrow> unit M" where
  "iunlockput ip = seqM (iunlock (Some ip)) (iput ip)"

definition bmap :: "nat \<Rightarrow> nat \<Rightarrow> uint M" where
  "bmap ip bn =
     bindM (gets (\<lambda>s. icache s ! ip)) (\<lambda>x.
     if bn < NDIRECT then
       (if i_addrs x ! bn \<noteq> 0 then ret (i_addrs x ! bn)
        else bindM (balloc (i_dev x)) (\<lambda>addr.
             seqM (modify (upd_inode ip (\<lambda>x. x\<lparr>i_addrs := (i_addrs x)[bn := addr]\<rparr>)))
             (ret addr)))
     else if bn - NDIRECT < NINDIRECT then
       bindM (if i_addrs x ! NDIRECT \<noteq> 0 then ret (i_addrs x ! NDIRECT)
              else bindM (balloc (i_dev x)) (\<lambda>addr.
                   seqM (modify (upd_inode ip (\<lambda>x. x\<lparr>i_addrs := (i_addrs x)[NDIRECT := addr]\<rparr>)))
                   (ret addr))) (\<lambda>addr.
       bindM (bread (i_dev x) addr) (\<lambda>bp.
       bindM (buf_data bp) (\<lambda>a.
       bindM (if get32 a (4 * (bn - NDIRECT)) \<noteq> 0 then ret (get32 a (4 * (bn - NDIRECT)))
              else bindM (balloc (i_dev x)) (\<lambda>addr.
                   bindM (buf_data bp) (\<lambda>a.
                   seqM (set_data bp (put32 a (4 * (bn - NDIRECT)) addr))
                  (seqM (log_write bp)
                  (ret addr))))) (\<lambda>addr.
       seqM (brelse bp)
       (ret addr)))))
     else panic ''bmap: out of range'')"

definition iinit :: "uint \<Rightarrow> unit M" where
  "iinit dev =
     seqM (foreach [0..<NINODE] (\<lambda>i. initsleeplock (InodeLock i)))
    (bindM (readsb dev) (\<lambda>b.
     seqM (modify (\<lambda>s. s\<lparr>sb := b\<rparr>))
    (cprintf ''sb: size %d nblocks %d ninodes %d nlog %d logstart %d inodestart %d bmap start %d\<newline>''
       [CInt (sb_size b), CInt (sb_nblocks b), CInt (sb_ninodes b), CInt (sb_nlog b), CInt (sb_logstart b),
        CInt (sb_inodestart b), CInt (sb_bmapstart b)])))"

text \<open>The stat structure that stati fills.\<close>

record stat =
  st_type :: ushort
  st_dev :: uint
  st_ino :: uint
  st_nlink :: ushort
  st_size :: uint

definition stati :: "nat \<Rightarrow> stat M" where
  "stati ip = gets (\<lambda>s. let x = icache s ! ip in
     \<lparr>st_type = i_type x, st_dev = i_dev x, st_ino = i_inum x, st_nlink = i_nlink x, st_size = i_size x\<rparr>)"

section \<open>Reading back a disk inode\<close>

lemma length_put_addrs [simp]: "length (put_addrs d off as) = length d"
  by (induction d off as rule: put_addrs.induct) simp_all

lemma length_put_dinode [simp]: "length (put_dinode d k x) = length d"
  by (simp add: put_dinode_def)

lemma get_put_addrs_other:
  "j + 2 \<le> off \<or> off + 4 * length as \<le> j \<Longrightarrow> get16 (put_addrs d off as) j = get16 d j"
  "j + 4 \<le> off \<or> off + 4 * length as \<le> j \<Longrightarrow> get32 (put_addrs d off as) j = get32 d j"
  by (induction d off as rule: put_addrs.induct) (auto simp: get_put_other)

lemma get32_put_addrs: "i < length as \<Longrightarrow> off + 4 * length as \<le> length d \<Longrightarrow> get32 (put_addrs d off as) (off + 4 * i) = as ! i"
proof (induction d off as arbitrary: i rule: put_addrs.induct)
  case (2 d off a as)
  show ?case
  proof (cases i)
    case 0
    then show ?thesis using 2(3) by (simp add: get_put_addrs_other)
  next
    case (Suc j)
    then have "get32 (put_addrs (put32 d off a) (off + 4) as) (off + 4 + 4 * j) = as ! j" using 2(1) [of j] 2(2,3) by simp
    then show ?thesis using Suc by (simp add: add.assoc)
  qed
qed simp

text \<open>The inode that put_dinode stores in a slot of a block is what get_dinode finds there, and the other slots keep theirs.\<close>

lemma dinode_roundtrip:
  assumes "64 * k + 64 \<le> length d" "length (d_addrs x) = NDIRECT + 1"
  shows "get_dinode (put_dinode d k x) k = x"
proof -
  have "map (\<lambda>i. get32 (put_addrs d' (64 * k + 12) (d_addrs x)) (64 * k + 12 + 4 * i)) [0..<NDIRECT + 1] = d_addrs x"
    if "length d' = length d" for d'
    using assms that by (intro nth_equalityI) (simp_all add: get32_put_addrs del: upt_rec_numeral upt_Suc)
  then show ?thesis
    using assms by (simp add: get_dinode_def put_dinode_def get_put_addrs_other get_put_other del: upt_rec_numeral upt_Suc)
qed

lemma dinode_other:
  assumes "j \<noteq> k" "length (d_addrs x) = NDIRECT + 1"
  shows "get_dinode (put_dinode d k x) j = get_dinode d j"
proof -
  have "64 * j + 64 \<le> 64 * k \<or> 64 * k + 64 \<le> 64 * j" using assms(1) by arith
  then show ?thesis
    using assms(2) by (auto simp: get_dinode_def put_dinode_def get_put_addrs_other get_put_other simp del: upt_rec_numeral upt_Suc)
qed

end
