(* ===== verification/Console.thy ===== *)
theory Console
  imports Inode
begin

text \<open>
  Console input and the console device (the second half of console.c).  The input buffer is a
  ring of 128 bytes with three 32-bit counters that only grow: \<open>in_r\<close> is the next byte to read,
  \<open>in_w\<close> the end of the completed lines and \<open>in_e\<close> the end of the line being edited.
\<close>

abbreviation (input) "INPUT_BUF \<equiv> 128 :: nat"

definition upd_input :: "(cinput \<Rightarrow> cinput) \<Rightarrow> kernel \<Rightarrow> kernel" where
  "upd_input f s = s\<lparr>input := f (input s)\<rparr>"

definition input_at :: "cinput \<Rightarrow> uint \<Rightarrow> byte" where
  "input_at i k = in_buf i ! unat (k mod 128)"

section \<open>Input\<close>

text \<open>Control-U: the loop erases back to the end of the previous line, at most \<open>in_e - in_w\<close> bytes.\<close>

fun kill_line :: "nat \<Rightarrow> unit M" where
  "kill_line 0 = ret ()"
| "kill_line (Suc k) =
     bindM (gets input) (\<lambda>i.
     if in_e i \<noteq> in_w i \<and> input_at i (in_e i - 1) \<noteq> 10
     then seqM (modify (upd_input (\<lambda>i. i\<lparr>in_e := in_e i - 1\<rparr>)))
         (seqM (consputc BACKSPACE)
         (kill_line k))
     else ret ())"

definition console_char :: "int \<Rightarrow> unit M" where
  "console_char c =
     bindM (gets input) (\<lambda>i.
     if c = 21 then kill_line (unat (in_e i - in_w i))
     else if c = 8 \<or> c = 127 then
       whenM (in_e i \<noteq> in_w i)
        (seqM (modify (upd_input (\<lambda>i. i\<lparr>in_e := in_e i - 1\<rparr>)))
        (consputc BACKSPACE))
     else
       whenM (c \<noteq> 0 \<and> in_e i - in_r i < 128)
        (let c = (if c = 13 then 10 else c) in
         seqM (modify (upd_input (\<lambda>i. i\<lparr>in_buf := (in_buf i)[unat (in_e i mod 128) := word_of_int c], in_e := in_e i + 1\<rparr>)))
        (seqM (consputc c)
        (bindM (gets input) (\<lambda>i.
         whenM (c = 10 \<or> c = 4 \<or> in_e i = in_r i + 128)
          (seqM (modify (upd_input (\<lambda>i. i\<lparr>in_w := in_e i\<rparr>)))
          (wakeup ChanInput)))))))"

text \<open>
  procdump prints the process table.  The return addresses on the kernel stack of a sleeping
  process are an argument.
\<close>

definition state_name :: "procstate \<Rightarrow> string" where
  "state_name st = (case st of UNUSED \<Rightarrow> ''unused'' | EMBRYO \<Rightarrow> ''embryo'' | SLEEPING \<Rightarrow> ''sleep ''
     | RUNNABLE \<Rightarrow> ''runble'' | RUNNING \<Rightarrow> ''run   '' | ZOMBIE \<Rightarrow> ''zombie'')"

definition procdump :: "(nat \<Rightarrow> uint list) \<Rightarrow> unit M" where
  "procdump pcs = foreach [0..<NPROC] (\<lambda>p.
     bindM (gets (\<lambda>s. ptable s ! p)) (\<lambda>q.
     if p_state q = UNUSED then ret () else
     seqM (cprintf ''%d %s %s'' [CInt (word_of_int (p_pid q)), CStr (Some (str (state_name (p_state q)))),
        CStr (Some (takeWhile (\<lambda>b. b \<noteq> 0) (p_name q)))])
    (seqM (whenM (p_state q = SLEEPING)
       (foreach (takeWhile (\<lambda>pc. pc \<noteq> 0) (take 10 (pcs p))) (\<lambda>pc. cprintf '' %p'' [CInt pc])))
    (cprintf ''\<newline>'' []))))"

text \<open>The interrupt handler, with the characters that getc delivers before it has no more.\<close>

definition consoleintr :: "(nat \<Rightarrow> uint list) \<Rightarrow> int list \<Rightarrow> unit M" where
  "consoleintr pcs cs =
     seqM (acquire ConsLock)
    (seqM (foreach cs (\<lambda>c. if c = 16 then ret () else console_char c))
    (seqM (release ConsLock)
    (whenM (16 \<in> set cs) (procdump pcs))))"

section \<open>The device\<close>

text \<open>
  The loop of consoleread: the bytes it stores at dst, and whether the process was killed while
  it waited.  The second argument is the number of bytes still wanted, the third the number
  asked for.
\<close>

fun consoleread_loop :: "nat \<Rightarrow> nat \<Rightarrow> (bool \<times> byte list) M" where
  "consoleread_loop 0 target = ret (False, [])"
| "consoleread_loop (Suc n) target =
     bindM (gets input) (\<lambda>i.
     if in_r i = in_w i then
       bindM curproc (\<lambda>p.
       bindM (gets (\<lambda>s. p_killed (ptable s ! p))) (\<lambda>k.
       if k then ret (True, [])
       else seqM (sleep ChanInput (Some ConsLock)) (fault ''sleep returned'')))
     else
       let c = input_at i (in_r i) in
       seqM (modify (upd_input (\<lambda>i. i\<lparr>in_r := in_r i + 1\<rparr>)))
      (if c = 4 then
         seqM (whenM (Suc n < target) (modify (upd_input (\<lambda>i. i\<lparr>in_r := in_r i - 1\<rparr>))))
         (ret (False, []))
       else if c = 10 then ret (False, [c])
       else bindM (consoleread_loop n target) (\<lambda>(killed, rest). ret (killed, c # rest))))"

text \<open>The result is the number of bytes read, or -1, and the bytes stored at dst.\<close>

definition consoleread :: "nat \<Rightarrow> int \<Rightarrow> (int \<times> byte list) M" where
  "consoleread ip n =
     seqM (iunlock (Some ip))
    (seqM (acquire ConsLock)
    (bindM (consoleread_loop (nat n) (nat n)) (\<lambda>(killed, bs).
     seqM (release ConsLock)
    (seqM (ilock (Some ip))
    (ret (if killed then - 1 else int (length bs), bs))))))"

definition consolewrite :: "nat \<Rightarrow> byte list \<Rightarrow> int M" where
  "consolewrite ip bs =
     seqM (iunlock (Some ip))
    (seqM (acquire ConsLock)
    (seqM (foreach bs (\<lambda>b. consputc (uint b)))
    (seqM (release ConsLock)
    (seqM (ilock (Some ip))
    (ret (int (length bs)))))))"

end
