(* ===== verification/Fs.thy ===== *)
theory Fs
  imports Console
begin

text \<open>
  File contents, directories and path names (the last third of fs.c).  readi returns the number
  of bytes together with the bytes that it stores at its destination; writei is given the bytes
  at its source.  A path is the list of its bytes up to the terminator, a directory entry name
  is an array of 14 bytes.
\<close>

section \<open>Reading and writing inodes\<close>

definition dev_driver :: "ushort \<Rightarrow> devfun M" where
  "dev_driver major = (if sint major < 0 \<or> sint major \<ge> NDEV then ret NoDev else gets (\<lambda>s. devsw s ! nat (sint major)))"

function readi_loop :: "nat \<Rightarrow> nat \<Rightarrow> nat \<Rightarrow> byte list M" where
  "readi_loop ip off n =
     (if n = 0 then ret [] else
      let m = min n (BSIZE - off mod BSIZE) in
      bindM (gets (\<lambda>s. i_dev (icache s ! ip))) (\<lambda>dev.
      bindM (bmap ip (off div BSIZE)) (\<lambda>addr.
      bindM (bread dev addr) (\<lambda>bp.
      bindM (buf_data bp) (\<lambda>d.
      seqM (brelse bp)
     (bindM (readi_loop ip (off + m) (n - m)) (\<lambda>rest.
      ret (take m (drop (off mod BSIZE) d) @ rest))))))))"
  by pat_completeness auto
termination
  by (relation "measure (\<lambda>(ip, off, n). n)") auto

definition readi :: "nat \<Rightarrow> uint \<Rightarrow> uint \<Rightarrow> (int \<times> byte list) M" where
  "readi ip off n =
     bindM (gets (\<lambda>s. icache s ! ip)) (\<lambda>x.
     if i_type x = T_DEV then
       bindM (dev_driver (i_major x)) (\<lambda>dv.
       case dv of NoDev \<Rightarrow> ret (- 1, []) | ConsoleDev \<Rightarrow> consoleread ip (sint n))
     else if off > i_size x \<or> off + n < off then ret (- 1, [])
     else let n = (if off + n > i_size x then i_size x - off else n) in
       bindM (readi_loop ip (unat off) (unat n)) (\<lambda>bs. ret (sint n, bs)))"

function writei_loop :: "nat \<Rightarrow> nat \<Rightarrow> byte list \<Rightarrow> unit M" where
  "writei_loop ip off src =
     (if src = [] then ret () else
      let m = min (length src) (BSIZE - off mod BSIZE) in
      bindM (gets (\<lambda>s. i_dev (icache s ! ip))) (\<lambda>dev.
      bindM (bmap ip (off div BSIZE)) (\<lambda>addr.
      bindM (bread dev addr) (\<lambda>bp.
      bindM (buf_data bp) (\<lambda>d.
      seqM (set_data bp (take (off mod BSIZE) d @ take m src @ drop (off mod BSIZE + m) d))
     (seqM (log_write bp)
     (seqM (brelse bp)
     (writei_loop ip (off + m) (drop m src)))))))))"
  by pat_completeness auto
termination
  by (relation "measure (\<lambda>(ip, off, src). length src)") auto

definition writei :: "nat \<Rightarrow> byte list \<Rightarrow> uint \<Rightarrow> uint \<Rightarrow> int M" where
  "writei ip src off n =
     bindM (gets (\<lambda>s. icache s ! ip)) (\<lambda>x.
     if i_type x = T_DEV then
       bindM (dev_driver (i_major x)) (\<lambda>dv.
       case dv of NoDev \<Rightarrow> ret (- 1) | ConsoleDev \<Rightarrow> consolewrite ip (take (nat (sint n)) src))
     else if off > i_size x \<or> off + n < off then ret (- 1)
     else if off + n > 71680 then ret (- 1)
     else
       seqM (writei_loop ip (unat off) (take (unat n) src))
      (seqM (whenM (n > 0 \<and> off + n > i_size x)
        (seqM (modify (upd_inode ip (\<lambda>x. x\<lparr>i_size := off + n\<rparr>)))
        (iupdate ip)))
      (ret (uint n))))"

section \<open>Directories\<close>

definition namecmp :: "byte list \<Rightarrow> byte list \<Rightarrow> int" where
  "namecmp s t = strncmp (cstr_of s) (cstr_of t) DIRSIZ"

text \<open>A directory entry: 16 bytes, the inode number and the name.\<close>

definition de_inum :: "byte list \<Rightarrow> ushort" where
  "de_inum de = get16 de 0"

definition de_name :: "byte list \<Rightarrow> byte list" where
  "de_name de = take DIRSIZ (drop 2 de)"

text \<open>The offsets of the entries of a directory of the given size.\<close>

definition entry_offsets :: "uint \<Rightarrow> nat list" where
  "entry_offsets sz = map (\<lambda>k. 16 * k) [0..<(unat sz + 15) div 16]"

fun dirlookup_loop :: "nat \<Rightarrow> byte list \<Rightarrow> nat list \<Rightarrow> (nat \<times> uint) option M" where
  "dirlookup_loop dp name [] = ret None"
| "dirlookup_loop dp name (off # offs) =
     bindM (readi dp (of_nat off) 16) (\<lambda>(r, de).
     if r \<noteq> 16 then panic ''dirlookup read''
     else if de_inum de = 0 then dirlookup_loop dp name offs
     else if namecmp name (de_name de) = 0 then
       bindM (gets (\<lambda>s. i_dev (icache s ! dp))) (\<lambda>dev.
       bindM (iget dev (ucast (de_inum de))) (\<lambda>ip.
       ret (Some (ip, of_nat off))))
     else dirlookup_loop dp name offs)"

text \<open>The result is the inode and the offset of its entry, or None for NULL.\<close>

definition dirlookup :: "nat \<Rightarrow> byte list \<Rightarrow> (nat \<times> uint) option M" where
  "dirlookup dp name =
     bindM (gets (\<lambda>s. icache s ! dp)) (\<lambda>x.
     if i_type x \<noteq> T_DIR then panic ''dirlookup not DIR''
     else dirlookup_loop dp name (entry_offsets (i_size x)))"

text \<open>The search for an unused entry; past the last entry the offset is the rounded size.\<close>

fun dirlink_loop :: "nat \<Rightarrow> nat list \<Rightarrow> nat \<Rightarrow> nat M" where
  "dirlink_loop dp [] end_off = ret end_off"
| "dirlink_loop dp (off # offs) end_off =
     bindM (readi dp (of_nat off) 16) (\<lambda>(r, de).
     if r \<noteq> 16 then panic ''dirlink read''
     else if de_inum de = 0 then ret off
     else dirlink_loop dp offs end_off)"

definition dirlink :: "nat \<Rightarrow> byte list \<Rightarrow> uint \<Rightarrow> int M" where
  "dirlink dp name inum =
     bindM (dirlookup dp name) (\<lambda>r.
     case r of Some (ip, off) \<Rightarrow> seqM (iput ip) (ret (- 1))
     | None \<Rightarrow>
       bindM (gets (\<lambda>s. i_size (icache s ! dp))) (\<lambda>sz.
       bindM (dirlink_loop dp (entry_offsets sz) (16 * ((unat sz + 15) div 16))) (\<lambda>off.
       bindM (writei dp (put16 (replicate 2 0) 0 (ucast inum) @ strncpy (replicate DIRSIZ 0) (cstr_of name) DIRSIZ)
                (of_nat off) 16) (\<lambda>w.
       if w \<noteq> 16 then panic ''dirlink'' else ret 0))))"

section \<open>Path names\<close>

text \<open>The rest of the path and the new contents of the name buffer; None is the result 0.\<close>

definition skipelem :: "byte list \<Rightarrow> byte list \<Rightarrow> (byte list \<times> byte list) option" where
  "skipelem path name =
     (let path = dropWhile (\<lambda>c. c = 47) path in
      if path = [] then None else
      let elem = takeWhile (\<lambda>c. c \<noteq> 47) path; len = length elem; rest = dropWhile (\<lambda>c. c \<noteq> 47) path in
      Some (dropWhile (\<lambda>c. c = 47) rest,
        if len \<ge> DIRSIZ then take DIRSIZ elem else elem @ [0] @ drop (len + 1) name))"

lemma skipelem_length: "skipelem path name = Some (rest, name') \<Longrightarrow> length rest < length path"
proof -
  assume a: "skipelem path name = Some (rest, name')"
  define p where "p = dropWhile (\<lambda>c. c = 47) path"
  have p: "p \<noteq> []" "rest = dropWhile (\<lambda>c. c = 47) (dropWhile (\<lambda>c. c \<noteq> 47) p)"
    using a by (auto simp: skipelem_def p_def Let_def split: if_splits)
  then have "hd p \<noteq> 47" using hd_dropWhile [of "\<lambda>c. c = 47" path] by (simp add: p_def)
  then have "length (dropWhile (\<lambda>c. c \<noteq> 47) p) < length p"
    using p(1) by (cases p) (simp_all add: length_dropWhile_le le_imp_less_Suc)
  then show ?thesis
    using p(2) length_dropWhile_le [of "\<lambda>c. c = 47" "dropWhile (\<lambda>c. c \<noteq> 47) p"]
      length_dropWhile_le [of "\<lambda>c. c = 47" path] by (simp add: p_def)
qed

function namex_loop :: "nat \<Rightarrow> byte list \<Rightarrow> bool \<Rightarrow> byte list \<Rightarrow> (nat option \<times> byte list) M" where
  "namex_loop ip path parent name =
     (case skipelem path name of
       None \<Rightarrow> if parent then seqM (iput ip) (ret (None, name)) else ret (Some ip, name)
     | Some (path', name') \<Rightarrow>
         seqM (ilock (Some ip))
        (bindM (gets (\<lambda>s. i_type (icache s ! ip))) (\<lambda>ty.
         if ty \<noteq> T_DIR then seqM (iunlockput ip) (ret (None, name'))
         else if parent \<and> path' = [] then seqM (iunlock (Some ip)) (ret (Some ip, name'))
         else bindM (dirlookup ip name') (\<lambda>r.
         case r of None \<Rightarrow> seqM (iunlockput ip) (ret (None, name'))
         | Some (nxt, off) \<Rightarrow> seqM (iunlockput ip) (namex_loop nxt path' parent name')))))"
  by pat_completeness auto
termination
  by (relation "measure (\<lambda>(ip, path, parent, name). length path)") (auto simp: skipelem_length)

definition namex :: "byte list \<Rightarrow> bool \<Rightarrow> byte list \<Rightarrow> (nat option \<times> byte list) M" where
  "namex path parent name =
     bindM (if path \<noteq> [] \<and> hd path = 47 then iget ROOTDEV ROOTINO
            else bindM curproc (\<lambda>p. bindM (gets (\<lambda>s. p_cwd (ptable s ! p))) (\<lambda>cwd. bindM (deref cwd) idup))) (\<lambda>ip.
     namex_loop ip path parent name)"

definition namei :: "byte list \<Rightarrow> nat option M" where
  "namei path = bindM (namex path False (replicate DIRSIZ 0)) (\<lambda>(ip, name). ret ip)"

definition nameiparent :: "byte list \<Rightarrow> (nat option \<times> byte list) M" where
  "nameiparent path = namex path True (replicate DIRSIZ 0)"

end
