(* ===== verification/File.thy ===== *)
theory File
  imports Fs
begin

text \<open>
  Pipes (pipe.c) and open files (file.c).  A pipe structure lives in a page of its own and is
  kept in \<open>pipes\<close> under the address of that page.  A routine that copies from memory is given
  the memory as a function \<open>rd\<close>: \<open>rd i n\<close> reads \<open>n\<close> bytes at offset \<open>i\<close> from the address the C code
  receives.  A routine that copies to memory returns the bytes it stores.
\<close>

definition upd_pipe :: "ptr \<Rightarrow> (pipe \<Rightarrow> pipe) \<Rightarrow> kernel \<Rightarrow> kernel" where
  "upd_pipe p f s = s\<lparr>pipes := (pipes s)(p := f (pipes s p))\<rparr>"

definition curproc_killed :: "bool M" where
  "curproc_killed = bindM curproc (\<lambda>p. gets (\<lambda>s. p_killed (ptable s ! p)))"

section \<open>Pipes\<close>

definition pipeclose :: "ptr \<Rightarrow> bool \<Rightarrow> unit M" where
  "pipeclose p writable =
     seqM (acquire (PipeLock p))
    (seqM (if writable
           then seqM (modify (upd_pipe p (\<lambda>x. x\<lparr>pi_writeopen := False\<rparr>))) (wakeup (ChanPipeRead p))
           else seqM (modify (upd_pipe p (\<lambda>x. x\<lparr>pi_readopen := False\<rparr>))) (wakeup (ChanPipeWrite p)))
    (bindM (gets (\<lambda>s. pipes s p)) (\<lambda>x.
     if \<not> pi_readopen x \<and> \<not> pi_writeopen x
     then seqM (release (PipeLock p)) (kfree p)
     else release (PipeLock p))))"

text \<open>Writing one byte into the ring.\<close>

definition pipe_put :: "pipe \<Rightarrow> byte \<Rightarrow> pipe" where
  "pipe_put x b = x\<lparr>pi_data := (pi_data x)[unat (pi_nwrite x mod 512) := b], pi_nwrite := pi_nwrite x + 1\<rparr>"

definition pipe_full :: "pipe \<Rightarrow> bool" where
  "pipe_full x \<longleftrightarrow> pi_nwrite x = pi_nread x + 512"

definition pipe_empty :: "pipe \<Rightarrow> bool" where
  "pipe_empty x \<longleftrightarrow> pi_nread x = pi_nwrite x"

definition pipe_next :: "pipe \<Rightarrow> byte" where
  "pipe_next x = pi_data x ! unat (pi_nread x mod 512)"

definition pipe_get :: "pipe \<Rightarrow> pipe" where
  "pipe_get x = x\<lparr>pi_nread := pi_nread x + 1\<rparr>"

text \<open>The loop of pipewrite from byte \<open>i\<close> on; True is the return of -1, with the lock released.\<close>

fun pipewrite_loop :: "ptr \<Rightarrow> (nat \<Rightarrow> nat \<Rightarrow> byte list M) \<Rightarrow> nat \<Rightarrow> nat \<Rightarrow> bool M" where
  "pipewrite_loop p rd i 0 = ret False"
| "pipewrite_loop p rd i (Suc n) =
     bindM (gets (\<lambda>s. pipes s p)) (\<lambda>x.
     if pipe_full x then
       bindM (if \<not> pi_readopen x then ret True else curproc_killed) (\<lambda>stop.
       if stop then seqM (release (PipeLock p)) (ret True)
       else seqM (wakeup (ChanPipeRead p))
           (seqM (sleep (ChanPipeWrite p) (Some (PipeLock p)))
           (fault ''sleep returned'')))
     else
       bindM (rd i 1) (\<lambda>bs.
       seqM (modify (upd_pipe p (\<lambda>x. pipe_put x (hd bs))))
       (pipewrite_loop p rd (Suc i) n)))"

definition pipewrite :: "ptr \<Rightarrow> (nat \<Rightarrow> nat \<Rightarrow> byte list M) \<Rightarrow> int \<Rightarrow> int M" where
  "pipewrite p rd n =
     seqM (acquire (PipeLock p))
    (bindM (pipewrite_loop p rd 0 (nat n)) (\<lambda>failed.
     if failed then ret (- 1) else
     seqM (wakeup (ChanPipeRead p))
    (seqM (release (PipeLock p))
    (ret n))))"

fun piperead_loop :: "ptr \<Rightarrow> nat \<Rightarrow> byte list M" where
  "piperead_loop p 0 = ret []"
| "piperead_loop p (Suc n) =
     bindM (gets (\<lambda>s. pipes s p)) (\<lambda>x.
     if pipe_empty x then ret [] else
     seqM (modify (upd_pipe p pipe_get))
    (bindM (piperead_loop p n) (\<lambda>rest.
     ret (pipe_next x # rest))))"

definition piperead :: "ptr \<Rightarrow> int \<Rightarrow> (int \<times> byte list) M" where
  "piperead p n =
     seqM (acquire (PipeLock p))
    (bindM (gets (\<lambda>s. pipes s p)) (\<lambda>x.
     if pipe_empty x \<and> pi_writeopen x then
       bindM curproc_killed (\<lambda>k.
       if k then seqM (release (PipeLock p)) (ret (- 1, []))
       else seqM (sleep (ChanPipeRead p) (Some (PipeLock p))) (fault ''sleep returned''))
     else
       bindM (piperead_loop p (nat n)) (\<lambda>bs.
       seqM (wakeup (ChanPipeWrite p))
      (seqM (release (PipeLock p))
      (ret (int (length bs), bs))))))"

section \<open>The file table\<close>

definition filealloc :: "nat option M" where
  "filealloc =
     seqM (acquire FtableLock)
    (bindM (gets ftable) (\<lambda>ft.
     case find (\<lambda>i. f_ref (ft ! i) = 0) [0..<length ft] of
       Some f \<Rightarrow> seqM (modify (upd_file f (\<lambda>x. x\<lparr>f_ref := 1\<rparr>))) (seqM (release FtableLock) (ret (Some f)))
     | None \<Rightarrow> seqM (release FtableLock) (ret None)))"

text \<open>filedup dereferences its argument without a check for NULL.\<close>

definition filedup :: "nat option \<Rightarrow> nat option M" where
  "filedup fo =
     seqM (acquire FtableLock)
    (bindM (deref fo) (\<lambda>f.
     bindM (gets (\<lambda>s. f_ref (ftable s ! f))) (\<lambda>r.
     if r < 1 then panic ''filedup'' else
     seqM (modify (upd_file f (\<lambda>x. x\<lparr>f_ref := f_ref x + 1\<rparr>)))
    (seqM (release FtableLock)
    (ret (Some f))))))"

definition fileclose :: "nat \<Rightarrow> unit M" where
  "fileclose f =
     seqM (acquire FtableLock)
    (bindM (gets (\<lambda>s. ftable s ! f)) (\<lambda>x.
     if f_ref x < 1 then panic ''fileclose'' else
     seqM (modify (upd_file f (\<lambda>x. x\<lparr>f_ref := f_ref x - 1\<rparr>)))
    (if f_ref x - 1 > 0 then release FtableLock else
     seqM (modify (upd_file f (\<lambda>x. x\<lparr>f_ref := 0, f_type := FD_NONE\<rparr>)))
    (seqM (release FtableLock)
    (case f_type x of
       FD_PIPE \<Rightarrow> pipeclose (f_pipe x) (f_writable x)
     | FD_INODE \<Rightarrow> seqM begin_op (bindM (deref (f_ip x)) (\<lambda>ip. seqM (iput ip) end_op))
     | FD_NONE \<Rightarrow> ret ())))))"

definition filestat :: "nat \<Rightarrow> stat option M" where
  "filestat f =
     bindM (gets (\<lambda>s. ftable s ! f)) (\<lambda>x.
     if f_type x = FD_INODE then
       seqM (ilock (f_ip x))
      (bindM (deref (f_ip x)) (\<lambda>ip.
       bindM (stati ip) (\<lambda>st.
       seqM (iunlock (f_ip x))
       (ret (Some st)))))
     else ret None)"

definition fileread :: "nat \<Rightarrow> int \<Rightarrow> (int \<times> byte list) M" where
  "fileread f n =
     bindM (gets (\<lambda>s. ftable s ! f)) (\<lambda>x.
     if \<not> f_readable x then ret (- 1, []) else
     case f_type x of
       FD_PIPE \<Rightarrow> piperead (f_pipe x) n
     | FD_INODE \<Rightarrow>
         seqM (ilock (f_ip x))
        (bindM (deref (f_ip x)) (\<lambda>ip.
         bindM (gets (\<lambda>s. f_off (ftable s ! f))) (\<lambda>off.
         bindM (readi ip off (word_of_int n)) (\<lambda>(r, bs).
         seqM (whenM (r > 0) (modify (upd_file f (\<lambda>x. x\<lparr>f_off := f_off x + word_of_int r\<rparr>))))
        (seqM (iunlock (f_ip x))
        (ret (r, bs)))))))
     | FD_NONE \<Rightarrow> panic ''fileread'')"

text \<open>The most bytes one transaction of filewrite covers.\<close>

abbreviation (input) "FILEWRITE_MAX \<equiv> 1536 :: nat"

function filewrite_loop :: "nat \<Rightarrow> (nat \<Rightarrow> nat \<Rightarrow> byte list M) \<Rightarrow> nat \<Rightarrow> nat \<Rightarrow> int M" where
  "filewrite_loop f rd i n =
     (if \<not> i < n then ret (if i = n then int n else - 1) else
      let n1 = min (n - i) FILEWRITE_MAX in
      seqM begin_op
     (bindM (gets (\<lambda>s. f_ip (ftable s ! f))) (\<lambda>ipo.
      seqM (ilock ipo)
     (bindM (deref ipo) (\<lambda>ip.
      bindM (rd i n1) (\<lambda>bs.
      bindM (gets (\<lambda>s. f_off (ftable s ! f))) (\<lambda>off.
      bindM (writei ip bs off (of_nat n1)) (\<lambda>r.
      seqM (whenM (r > 0) (modify (upd_file f (\<lambda>x. x\<lparr>f_off := f_off x + word_of_int r\<rparr>))))
     (seqM (iunlock ipo)
     (seqM end_op
     (if r < 0 then ret (- 1)
      else if r \<noteq> int n1 then panic ''short filewrite''
      else filewrite_loop f rd (i + n1) n)))))))))))"
  by pat_completeness auto
termination
  by (relation "measure (\<lambda>(f, rd, i, n). n - i)") auto

definition filewrite :: "nat \<Rightarrow> (nat \<Rightarrow> nat \<Rightarrow> byte list M) \<Rightarrow> int \<Rightarrow> int M" where
  "filewrite f rd n =
     bindM (gets (\<lambda>s. ftable s ! f)) (\<lambda>x.
     if \<not> f_writable x then ret (- 1) else
     case f_type x of
       FD_PIPE \<Rightarrow> pipewrite (f_pipe x) rd n
     | FD_INODE \<Rightarrow> if n < 0 then ret (- 1) else filewrite_loop f rd 0 (nat n)
     | FD_NONE \<Rightarrow> panic ''filewrite'')"

definition mmap_read :: "nat option \<Rightarrow> int \<Rightarrow> (int \<times> byte list) M" where
  "mmap_read fo sz =
     bindM (deref fo) (\<lambda>f.
     seqM (modify (upd_file f (\<lambda>x. x\<lparr>f_off := 0\<rparr>)))
     (fileread f sz))"

definition mmap_write2 :: "nat option \<Rightarrow> (nat \<Rightarrow> nat \<Rightarrow> byte list M) \<Rightarrow> int \<Rightarrow> int M" where
  "mmap_write2 fo rd sz =
     bindM (deref fo) (\<lambda>f.
     seqM (modify (upd_file f (\<lambda>x. x\<lparr>f_off := 0\<rparr>)))
     (filewrite f rd sz))"

definition mmap_write :: "nat option \<Rightarrow> (nat \<Rightarrow> nat \<Rightarrow> byte list M) \<Rightarrow> int \<Rightarrow> int M" where
  "mmap_write fo rd sz = bindM (deref fo) (\<lambda>f. filewrite f rd sz)"

section \<open>Creating a pipe\<close>

text \<open>The code behind the label bad.\<close>

definition pipealloc_bad :: "ptr \<Rightarrow> nat option \<Rightarrow> nat option \<Rightarrow> (nat \<times> nat) option M" where
  "pipealloc_bad p f0 f1 =
     seqM (whenM (p \<noteq> 0) (kfree p))
    (seqM (case f0 of Some f \<Rightarrow> fileclose f | None \<Rightarrow> ret ())
    (seqM (case f1 of Some f \<Rightarrow> fileclose f | None \<Rightarrow> ret ())
    (ret None)))"

text \<open>The result is the pair of files, or None for -1.\<close>

definition pipealloc :: "(nat \<times> nat) option M" where
  "pipealloc =
     bindM filealloc (\<lambda>f0.
     case f0 of None \<Rightarrow> pipealloc_bad 0 None None | Some r \<Rightarrow>
     bindM filealloc (\<lambda>f1.
     case f1 of None \<Rightarrow> pipealloc_bad 0 f0 None | Some w \<Rightarrow>
     bindM kalloc (\<lambda>p.
     if p = 0 then pipealloc_bad 0 f0 f1 else
     seqM (modify (upd_pipe p (\<lambda>x. x\<lparr>pi_readopen := True, pi_writeopen := True, pi_nwrite := 0, pi_nread := 0\<rparr>)))
    (seqM (modify (upd_file r (\<lambda>x. x\<lparr>f_type := FD_PIPE, f_readable := True, f_writable := False, f_pipe := p\<rparr>)))
    (seqM (modify (upd_file w (\<lambda>x. x\<lparr>f_type := FD_PIPE, f_readable := False, f_writable := True, f_pipe := p\<rparr>)))
    (ret (Some (r, w))))))))"

end
