(* ===== verification/Ring.thy ===== *)
theory Ring
  imports Prelude
begin

text \<open>
  Ring buffers with 32-bit counters.  Pipes and the console keep a fixed array and two counters
  that only grow and wrap around at \<open>2 ^ 32\<close>; a byte is stored at its counter modulo the size of
  the array.  The locale states the contract of a bounded queue.  The size of the array divides
  \<open>2 ^ 32\<close>, which is why the wrap-around does not lose the place in the array.
\<close>

section \<open>The contract\<close>

locale bounded_queue =
  fixes ok :: "'q \<Rightarrow> bool" and contents :: "'q \<Rightarrow> 'a list"
    and put :: "'q \<Rightarrow> 'a \<Rightarrow> 'q" and front :: "'q \<Rightarrow> 'a" and get :: "'q \<Rightarrow> 'q"
    and full :: "'q \<Rightarrow> bool" and empty :: "'q \<Rightarrow> bool" and cap :: nat
  assumes ok_put: "ok q \<Longrightarrow> \<not> full q \<Longrightarrow> ok (put q x)"
    and contents_put: "ok q \<Longrightarrow> \<not> full q \<Longrightarrow> contents (put q x) = contents q @ [x]"
    and ok_get: "ok q \<Longrightarrow> \<not> empty q \<Longrightarrow> ok (get q)"
    and contents_get: "ok q \<Longrightarrow> \<not> empty q \<Longrightarrow> contents q = front q # contents (get q)"
    and full_iff: "ok q \<Longrightarrow> full q \<longleftrightarrow> length (contents q) = cap"
    and empty_iff: "ok q \<Longrightarrow> empty q \<longleftrightarrow> contents q = []"
    and bounded: "ok q \<Longrightarrow> length (contents q) \<le> cap"
begin

lemma not_full: "ok q \<Longrightarrow> length (contents q) < cap \<Longrightarrow> \<not> full q"
  by (simp add: full_iff)

lemma put_all:
  assumes "ok q" "length (contents q) + length xs \<le> cap"
  shows "ok (foldl put q xs)" "contents (foldl put q xs) = contents q @ xs"
proof -
  have "ok (foldl put q xs) \<and> contents (foldl put q xs) = contents q @ xs"
    using assms
  proof (induction xs arbitrary: q)
    case (Cons x xs)
    have nf: "\<not> full q" using Cons.prems by (simp add: full_iff)
    then have "ok (put q x)" "contents (put q x) = contents q @ [x]"
      using Cons.prems ok_put contents_put by auto
    then show ?case using Cons.IH [of "put q x"] Cons.prems(2) by simp
  qed simp
  then show "ok (foldl put q xs)" "contents (foldl put q xs) = contents q @ xs" by auto
qed

lemma get_all:
  assumes "ok q" "n \<le> length (contents q)"
  shows "ok ((get ^^ n) q)" "contents ((get ^^ n) q) = drop n (contents q)"
proof -
  have "ok ((get ^^ n) q) \<and> contents ((get ^^ n) q) = drop n (contents q)"
    using assms
  proof (induction n)
    case (Suc n)
    then have IH: "ok ((get ^^ n) q)" "contents ((get ^^ n) q) = drop n (contents q)" by auto
    then have ne: "\<not> empty ((get ^^ n) q)" using Suc.prems(2) by (simp add: empty_iff)
    show ?case
      using ok_get [OF IH(1) ne] contents_get [OF IH(1) ne] IH(2) Suc.prems(2)
      by (simp add: Cons_nth_drop_Suc [symmetric])
  qed simp
  then show "ok ((get ^^ n) q)" "contents ((get ^^ n) q) = drop n (contents q)" by auto
qed

end

section \<open>Arrays with wrapping counters\<close>

definition ring :: "'a list \<Rightarrow> uint \<Rightarrow> uint \<Rightarrow> 'a list" where
  "ring d r w = map (\<lambda>k. d ! (unat (r + of_nat k) mod length d)) [0..<unat (w - r)]"

lemma length_ring [simp]: "length (ring d r w) = unat (w - r)"
  by (simp add: ring_def)

lemma unat_add_mod:
  assumes "N dvd 2 ^ 32"
  shows "unat (r + of_nat k :: uint) mod N = (unat r + k) mod N"
proof -
  have "unat (r + of_nat k :: uint) = (unat r + k) mod 2 ^ 32"
    by (simp add: unat_word_ariths unat_of_nat mod_simps take_bit_eq_mod)
  then show ?thesis using assms by (simp add: mod_mod_cancel)
qed

lemma unat_Suc_diff:
  fixes w r :: uint
  assumes "Suc (unat (w - r)) < 2 ^ 32"
  shows "unat (w + 1 - r) = Suc (unat (w - r))"
proof -
  have "unat (w - r + 1) = Suc (unat (w - r)) mod 2 ^ 32" by (simp add: unat_word_ariths)
  moreover have "w - r + 1 = w + 1 - r" by simp
  ultimately show ?thesis using assms by (simp only: mod_less)
qed

lemma ring_put:
  assumes N: "length d dvd 2 ^ 32" "length d < 2 ^ 32" and room: "unat (w - r) < length d"
  shows "ring (d[unat w mod length d := x]) r (w + 1) = ring d r w @ [x]"
proof -
  let ?n = "unat (w - r)"
  have n1: "unat (w + 1 - r) = Suc ?n" using N(2) room by (intro unat_Suc_diff) linarith
  have place: "unat w mod length d = (unat r + ?n) mod length d"
    using unat_add_mod [OF N(1), of r ?n] by simp
  have other: "(unat r + k) mod length d \<noteq> (unat r + ?n) mod length d" if "k < ?n" for k
  proof
    assume "(unat r + k) mod length d = (unat r + ?n) mod length d"
    then have "length d dvd (unat r + ?n) - (unat r + k)" using that by (metis mod_eq_dvd_iff_nat nat_add_left_cancel_le less_imp_le)
    then show False using that room by (auto dest: dvd_imp_le)
  qed
  have pos: "j mod length d < length d" for j using room by (intro mod_less_divisor) linarith
  have old: "d[unat w mod length d := x] ! (unat (r + of_nat k) mod length d) = d ! (unat (r + of_nat k) mod length d)"
    if "k < ?n" for k
    using other [OF that] by (simp only: place unat_add_mod [OF N(1)] nth_list_update_neq not_sym)
  have new: "d[unat w mod length d := x] ! (unat (r + of_nat ?n) mod length d) = x"
    using pos by (simp add: nth_list_update_eq)
  show ?thesis using old new by (simp add: ring_def n1)
qed

lemma ring_get:
  assumes "0 < unat (w - r)"
  shows "ring d r w = d ! (unat r mod length d) # ring d (r + 1) w"
proof -
  have "unat (w - (r + 1)) = unat (w - r) - 1"
    using assms unat_minus_one [of "w - r"] by (simp add: diff_diff_add unat_eq_0 [symmetric] del: unat_eq_0)
  then have "unat (w - r) = Suc (unat (w - (r + 1)))" using assms by linarith
  then show ?thesis by (simp add: ring_def upt_conv_Cons map_Suc_upt [symmetric] algebra_simps del: upt_Suc)
qed

end
