(* ===== verification/Pipe.thy ===== *)
theory Pipe
  imports File Ring
begin

text \<open>
  A pipe is a bounded queue of bytes.  pipewrite and piperead are shown to implement the two
  operations of a queue, on every path: enough room, a full pipe with the reader gone, a full
  pipe with a live reader, an empty pipe.
\<close>

section \<open>The queue\<close>

definition pipe_ok :: "pipe \<Rightarrow> bool" where
  "pipe_ok x \<longleftrightarrow> length (pi_data x) = PIPESIZE \<and> unat (pi_nwrite x - pi_nread x) \<le> PIPESIZE"

definition pipe_contents :: "pipe \<Rightarrow> byte list" where
  "pipe_contents x = ring (pi_data x) (pi_nread x) (pi_nwrite x)"

lemma unat_mod_512: "unat (w mod 512 :: uint) = unat w mod 512"
  by (simp add: unat_mod_distrib)

lemma pipe_full_iff: "pipe_full x \<longleftrightarrow> unat (pi_nwrite x - pi_nread x) = PIPESIZE"
proof -
  have "pi_nwrite x = pi_nread x + 512 \<longleftrightarrow> pi_nwrite x - pi_nread x = 512" by (metis add_diff_cancel_left' diff_add_cancel add.commute)
  also have "\<dots> \<longleftrightarrow> unat (pi_nwrite x - pi_nread x) = unat (512 :: uint)" by (rule word_unat_eq_iff)
  finally show ?thesis by (simp add: pipe_full_def)
qed

lemma pipe_empty_iff: "pipe_empty x \<longleftrightarrow> unat (pi_nwrite x - pi_nread x) = 0"
  by (auto simp: pipe_empty_def unat_eq_0)

interpretation pq: bounded_queue pipe_ok pipe_contents pipe_put pipe_next pipe_get pipe_full pipe_empty PIPESIZE
proof
  fix q x
  assume ok: "pipe_ok q" and nf: "\<not> pipe_full q"
  have room: "unat (pi_nwrite q - pi_nread q) < length (pi_data q)"
    using ok nf by (simp add: pipe_ok_def pipe_full_iff)
  have d: "length (pi_data q) = 512" using ok by (simp add: pipe_ok_def)
  show "pipe_ok (pipe_put q x)"
    using room d unat_Suc_diff [of "pi_nwrite q" "pi_nread q"] by (simp add: pipe_ok_def pipe_put_def)
  show "pipe_contents (pipe_put q x) = pipe_contents q @ [x]"
    using ring_put [of "pi_data q" "pi_nwrite q" "pi_nread q" x] room d
    by (simp add: pipe_contents_def pipe_put_def unat_mod_512)
next
  fix q
  assume ok: "pipe_ok q" and ne: "\<not> pipe_empty q"
  have some: "0 < unat (pi_nwrite q - pi_nread q)" using ne by (simp add: pipe_empty_iff)
  show c: "pipe_contents q = pipe_next q # pipe_contents (pipe_get q)"
    using ring_get [OF some, of "pi_data q"] ok
    by (simp add: pipe_contents_def pipe_get_def pipe_next_def unat_mod_512 pipe_ok_def)
  show "pipe_ok (pipe_get q)"
    using arg_cong [OF c, of length] ok by (simp add: pipe_contents_def pipe_ok_def pipe_get_def)
next
  fix q
  assume "pipe_ok q"
  then show "pipe_full q \<longleftrightarrow> length (pipe_contents q) = PIPESIZE" "pipe_empty q \<longleftrightarrow> pipe_contents q = []"
    "length (pipe_contents q) \<le> PIPESIZE"
    using length_0_conv [of "pipe_contents q"]
    by (simp_all add: pipe_full_iff pipe_empty_iff pipe_contents_def pipe_ok_def del: length_0_conv)
qed

section \<open>The loops\<close>

definition set_pipe :: "ptr \<Rightarrow> pipe \<Rightarrow> kernel \<Rightarrow> kernel" where
  "set_pipe p x s = s\<lparr>pipes := (pipes s)(p := x)\<rparr>"

lemma set_pipe_simps [simp]:
  "pipes (set_pipe p x s) p = x" "held (set_pipe p x s) = held s" "cur (set_pipe p x s) = cur s"
  "ptable (set_pipe p x s) = ptable s" "set_pipe p x (set_pipe p y s) = set_pipe p x s"
  "set_pipe p (pipes s p) s = s" "upd_pipe p f s = set_pipe p (f (pipes s p)) s"
  by (simp_all add: set_pipe_def upd_pipe_def)

text \<open>Bytes that are read from memory without an effect on the state.\<close>

definition reads :: "(nat \<Rightarrow> nat \<Rightarrow> byte list M) \<Rightarrow> byte list \<Rightarrow> kernel \<Rightarrow> ptr \<Rightarrow> bool" where
  "reads rd bs s p \<longleftrightarrow> (\<forall>i < length bs. \<forall>x. rd i 1 (set_pipe p x s) = Ok [bs ! i] (set_pipe p x s))"

lemma readsD: "reads rd bs s p \<Longrightarrow> i < length bs \<Longrightarrow> rd i 1 (set_pipe p x s) = Ok [bs ! i] (set_pipe p x s)"
  by (simp add: reads_def)

lemma pipewrite_loop_room:
  assumes "pipe_ok x" "length (pipe_contents x) + n \<le> PIPESIZE" "reads rd bs s p" "i + n \<le> length bs"
  shows "pipewrite_loop p rd i (n + m) (set_pipe p x s) =
    pipewrite_loop p rd (i + n) m (set_pipe p (foldl pipe_put x (take n (drop i bs))) s)"
  using assms
proof (induction n arbitrary: i x)
  case (Suc n)
  have nf: "\<not> pipe_full x" using Suc.prems(1,2) pq.full_iff by force
  have "pipewrite_loop p rd i (Suc n + m) (set_pipe p x s) =
      pipewrite_loop p rd (Suc i) (n + m) (set_pipe p (pipe_put x (bs ! i)) s)"
    using nf readsD [OF Suc.prems(3), of i x] Suc.prems(4)
    by (simp add: gets_def seqM_def bindM_def modify_def)
  also have "\<dots> = pipewrite_loop p rd (Suc i + n) m
      (set_pipe p (foldl pipe_put (pipe_put x (bs ! i)) (take n (drop (Suc i) bs))) s)"
    using Suc.prems pq.ok_put [OF Suc.prems(1) nf] pq.contents_put [OF Suc.prems(1) nf]
    by (intro Suc.IH) simp_all
  also have "foldl pipe_put (pipe_put x (bs ! i)) (take n (drop (Suc i) bs)) = foldl pipe_put x (take (Suc n) (drop i bs))"
    using Suc.prems(4) by (simp add: Cons_nth_drop_Suc [symmetric])
  finally show ?case by simp
qed simp

lemma wakeup_Ok:
  "PtableLock \<notin> set (held s) \<Longrightarrow> wakeup c s = Ok () (s\<lparr>ptable := map (wakeup_proc (Some c)) (ptable s)\<rparr>)"
  by (simp add: wakeup_def wakeup1_def seqM_def bindM_def modify_def)

lemma piperead_loop_eq:
  assumes "pipe_ok x"
  shows "piperead_loop p n (set_pipe p x s) =
    Ok (take n (pipe_contents x)) (set_pipe p ((pipe_get ^^ min n (length (pipe_contents x))) x) s)"
  using assms
proof (induction n arbitrary: x)
  case (Suc n)
  show ?case
  proof (cases "pipe_empty x")
    case True
    then show ?thesis using pq.empty_iff [OF Suc.prems] by (simp add: gets_def bindM_def ret_def)
  next
    case False
    then show ?thesis
      using Suc.IH [OF pq.ok_get [OF Suc.prems False]] pq.contents_get [OF Suc.prems False]
      by (simp add: gets_def seqM_def bindM_def modify_def ret_def funpow_swap1)
  qed
qed (simp add: ret_def)

section \<open>pipewrite and piperead\<close>

lemma foldl_pipe_put_open: "pi_readopen (foldl pipe_put x bs) = pi_readopen x"
  by (induction bs arbitrary: x) (simp_all add: pipe_put_def)

text \<open>The source of a write: memory that the bytes are read from, which the loop does not change.\<close>

definition source :: "(nat \<Rightarrow> nat \<Rightarrow> byte list M) \<Rightarrow> byte list \<Rightarrow> kernel \<Rightarrow> bool" where
  "source rd bs s \<longleftrightarrow> (\<forall>i < length bs. \<forall>t. kmem t = kmem s \<and> cr3 t = cr3 s \<longrightarrow> rd i 1 t = Ok [bs ! i] t)"

lemma source_reads: "source rd bs s \<Longrightarrow> kmem t = kmem s \<Longrightarrow> cr3 t = cr3 s \<Longrightarrow> reads rd bs t p"
  by (simp add: source_def reads_def set_pipe_def)

lemma pipewrite_loop_start:
  assumes "pipe_ok (pipes s p)" "source rd bs s" "room = PIPESIZE - length (pipe_contents (pipes s p))" "n = min (length bs) room"
  shows "pipewrite_loop p rd 0 (length bs) (s\<lparr>held := hs\<rparr>) =
    pipewrite_loop p rd n (length bs - n) (set_pipe p (foldl pipe_put (pipes s p) (take n bs)) (s\<lparr>held := hs\<rparr>))"
proof -
  have "reads rd bs (s\<lparr>held := hs\<rparr>) p" using assms(2) by (intro source_reads) simp_all
  moreover have "length (pipe_contents (pipes s p)) + n \<le> PIPESIZE"
    using pq.bounded [OF assms(1)] assms(3,4) by linarith
  ultimately have "pipewrite_loop p rd 0 (n + (length bs - n)) (set_pipe p (pipes s p) (s\<lparr>held := hs\<rparr>)) =
      pipewrite_loop p rd (0 + n) (length bs - n) (set_pipe p (foldl pipe_put (pipes s p) (take n (drop 0 bs))) (s\<lparr>held := hs\<rparr>))"
    using assms by (intro pipewrite_loop_room) simp_all
  moreover have "set_pipe p (pipes s p) (s\<lparr>held := hs\<rparr>) = s\<lparr>held := hs\<rparr>" by (simp add: set_pipe_def)
  ultimately show ?thesis using assms(4) by simp
qed

text \<open>
  C20: pipewrite appends the bytes to the pipe in order.  With room for all of them it returns
  their number; when the pipe fills up and the reader has gone, it returns -1 and the pipe holds
  what was there and the bytes that fitted.  The counters may wrap around at any point.
\<close>

theorem pipewrite_appends:
  assumes ok: "pipe_ok (pipes s p)" and lk: "PipeLock p \<notin> set (held s)" "PtableLock \<notin> set (held s)"
    and src: "source rd bs s" and room: "room = PIPESIZE - length (pipe_contents (pipes s p))"
    and path: "length bs \<le> room \<or> \<not> pi_readopen (pipes s p)"
  shows "\<exists>t. pipewrite p rd (int (length bs)) s = Ok (if length bs \<le> room then int (length bs) else - 1) t \<and>
    pipe_ok (pipes t p) \<and> pipe_contents (pipes t p) = pipe_contents (pipes s p) @ take room bs \<and> held t = held s"
proof -
  define n where "n = min (length bs) room"
  define x where "x = foldl pipe_put (pipes s p) (take n bs)"
  let ?s1 = "s\<lparr>held := PipeLock p # held s\<rparr>"
  have fit: "length (pipe_contents (pipes s p)) + length (take n bs) \<le> PIPESIZE"
    using pq.bounded [OF ok] room by (simp add: n_def)
  have x: "pipe_ok x" "pipe_contents x = pipe_contents (pipes s p) @ take room bs"
    using pq.put_all [OF ok fit] by (simp_all add: x_def n_def min_def)
  have loop: "pipewrite_loop p rd 0 (length bs) ?s1 = pipewrite_loop p rd n (length bs - n) (set_pipe p x ?s1)"
    unfolding x_def by (rule pipewrite_loop_start [OF ok src room n_def])
  show ?thesis
  proof (cases "length bs \<le> room")
    case True
    then have "length bs - n = 0" by (simp add: n_def)
    then have "pipewrite_loop p rd 0 (length bs) ?s1 = Ok False (set_pipe p x ?s1)"
      using loop by (simp add: ret_def)
    then show ?thesis using lk x True
      by (simp add: pipewrite_def seqM_def wakeup_Ok ret_def bindM_def)
  next
    case False
    then obtain k where k: "length bs - n = Suc k" by (cases "length bs - n") (auto simp: n_def)
    have "length (pipe_contents x) = PIPESIZE"
      using False pq.bounded [OF ok] room x(2) by simp
    then have "pipe_full x" using pq.full_iff [OF x(1)] by simp
    moreover have "\<not> pi_readopen x" using path False by (simp add: x_def foldl_pipe_put_open)
    ultimately have "pipewrite_loop p rd 0 (length bs) ?s1 = Ok True (set_pipe p x s)"
      using loop by (simp add: k gets_def seqM_def bindM_def ret_def set_pipe_def)
    then show ?thesis using lk x False by (simp add: pipewrite_def seqM_def ret_def bindM_def)
  qed
qed

text \<open>
  C21: piperead takes bytes from the front.  When the pipe holds bytes, or its write end is
  closed, it returns at once with the first \<open>n\<close> of them, or all if there are fewer, and exactly
  those leave the pipe.
\<close>

theorem piperead_takes:
  assumes ok: "pipe_ok (pipes s p)" and lk: "PipeLock p \<notin> set (held s)" "PtableLock \<notin> set (held s)"
    and some: "pipe_contents (pipes s p) \<noteq> [] \<or> \<not> pi_writeopen (pipes s p)"
  shows "\<exists>t. piperead p (int n) s = Ok (int (min n (length (pipe_contents (pipes s p)))), take n (pipe_contents (pipes s p))) t \<and>
    pipe_ok (pipes t p) \<and> pipe_contents (pipes t p) = drop n (pipe_contents (pipes s p)) \<and> held t = held s"
proof -
  let ?x = "pipes s p" and ?s1 = "s\<lparr>held := PipeLock p # held s\<rparr>"
  define y where "y = (pipe_get ^^ min n (length (pipe_contents ?x))) ?x"
  have y: "pipe_ok y" "pipe_contents y = drop n (pipe_contents ?x)"
    using pq.get_all [OF ok, of "min n (length (pipe_contents ?x))"] by (simp_all add: y_def min_def)
  have "piperead_loop p n ?s1 = Ok (take n (pipe_contents ?x)) (set_pipe p y ?s1)"
    using piperead_loop_eq [OF ok, of p n ?s1] by (simp add: y_def set_pipe_def)
  moreover have "\<not> (pipe_empty ?x \<and> pi_writeopen ?x)" using some pq.empty_iff [OF ok] by simp
  ultimately show ?thesis using lk y
    by (auto simp: piperead_def gets_def seqM_def wakeup_Ok ret_def bindM_def min.commute)
qed


section \<open>Examples\<close>

text \<open>A pipe with its counters one below \<open>2 ^ 32\<close>, and a process that waits to read.\<close>

definition ex_pipe :: "uint \<Rightarrow> uint \<Rightarrow> bool \<Rightarrow> kernel" where
  "ex_pipe r w rdopen = set_pipe 0x80400000
     \<lparr>pi_data = replicate PIPESIZE 7, pi_nread = r, pi_nwrite = w, pi_readopen = rdopen, pi_writeopen = True\<rparr>
     ((static_data 0 0 (\<lambda>_. []) 0)\<lparr>cur := Some 0\<rparr>)"

definition ex_source :: "nat \<Rightarrow> nat \<Rightarrow> byte list M" where
  "ex_source i n = ret [of_nat i]"

lemma ex_source: "k \<le> 256 \<Longrightarrow> source ex_source (map of_nat [0..<k]) s"
  by (simp add: source_def ex_source_def ret_def)

lemma ex_pipe_fields [simp]:
  "pipes (ex_pipe r w o') 0x80400000 =
     \<lparr>pi_data = replicate PIPESIZE 7, pi_nread = r, pi_nwrite = w, pi_readopen = o', pi_writeopen = True\<rparr>"
  "held (ex_pipe r w o') = []" "cur (ex_pipe r w o') = Some 0" "ptable (ex_pipe r w o') = replicate NPROC zero_proc"
  by (simp_all add: ex_pipe_def static_data_def)

lemma ex_pipe_contents [simp]:
  "pipe_contents (pipes (ex_pipe r w o') 0x80400000) = replicate (unat (w - r)) 7"
  by (rule nth_equalityI) (simp_all add: pipe_contents_def ring_def)

lemma ex_pipe_ok [simp]: "unat (w - r) \<le> PIPESIZE \<Longrightarrow> pipe_ok (pipes (ex_pipe r w o') 0x80400000)"
  by (simp add: pipe_ok_def)

theorem pipewrite_appends_witness:
  "\<exists>t. pipewrite 0x80400000 ex_source 3 (ex_pipe 0xFFFFFFFF 0xFFFFFFFF True) = Ok 3 t \<and>
     pipe_contents (pipes t 0x80400000) = [0, 1, 2]"
proof -
  have "map of_nat [0..<3] = [0, 1, 2 :: byte]" by (simp add: upt_rec)
  then show ?thesis
    using pipewrite_appends [of "ex_pipe 0xFFFFFFFF 0xFFFFFFFF True" "0x80400000" ex_source "map of_nat [0..<3]" PIPESIZE]
      ex_source [of 3] by (auto simp del: ex_pipe_fields(1) upt_rec_numeral)
qed

theorem piperead_takes_witness:
  "\<exists>t. piperead 0x80400000 2 (ex_pipe 0xFFFFFFFE 1 True) = Ok (2, [7, 7]) t \<and> pipe_contents (pipes t 0x80400000) = [7]"
proof -
  have "replicate 2 x = [x, x]" for x :: byte by (simp add: numeral_2_eq_2)
  then show ?thesis
    using piperead_takes [of "ex_pipe 0xFFFFFFFE 1 True" "0x80400000" 2] by (auto simp del: ex_pipe_fields(1))
qed


end
