(* ===== verification/Umem.thy ===== *)
theory Umem
  imports Vm_User File
begin

text \<open>
  The memory of the current process as the kernel sees it: an access to a user address goes
  through the page directory in cr3.  The kernel runs with write protection on (CR0_WP in
  entry.S), so it can write only to pages whose entry has PTE_W.  An access to a page that is
  not present raises a page fault inside the kernel; the fault is not handled recursively here,
  it ends the run with \<open>Fault\<close>.  The second part is the access to system call arguments
  (syscall.c).
\<close>

section \<open>User addresses\<close>

definition translate :: "kernel \<Rightarrow> bool \<Rightarrow> ptr \<Rightarrow> ptr option" where
  "translate s wr va = (case vmap (kmem s) (P2V (cr3 s)) (PGROUNDDOWN va) of
     None \<Rightarrow> None
   | Some e \<Rightarrow> if wr \<and> e AND PTE_W = 0 then None else Some (frame_of e + (va - PGROUNDDOWN va)))"

definition uload :: "ptr \<Rightarrow> byte M" where
  "uload va = bindM (gets (\<lambda>s. translate s False va)) (\<lambda>a.
     case a of None \<Rightarrow> fault ''page fault'' | Some a \<Rightarrow> gets (\<lambda>s. kmem s a))"

definition ustore :: "ptr \<Rightarrow> byte \<Rightarrow> unit M" where
  "ustore va b = bindM (gets (\<lambda>s. translate s True va)) (\<lambda>a.
     case a of None \<Rightarrow> fault ''page fault'' | Some a \<Rightarrow> modify (\<lambda>s. s\<lparr>kmem := (kmem s)(a := b)\<rparr>))"

fun uread :: "ptr \<Rightarrow> nat \<Rightarrow> byte list M" where
  "uread va 0 = ret []"
| "uread va (Suc n) = bindM (uload va) (\<lambda>b. bindM (uread (va + 1) n) (\<lambda>bs. ret (b # bs)))"

fun uwrite :: "ptr \<Rightarrow> byte list \<Rightarrow> unit M" where
  "uwrite va [] = ret ()"
| "uwrite va (b # bs) = seqM (ustore va b) (uwrite (va + 1) bs)"

text \<open>User memory from an address on, as a source for filewrite.\<close>

definition usrc :: "ptr \<Rightarrow> nat \<Rightarrow> nat \<Rightarrow> byte list M" where
  "usrc va i n = uread (va + of_nat i) n"

definition bytes32 :: "uint \<Rightarrow> byte list" where
  "bytes32 v = [ucast v, ucast (drop_bit 8 v), ucast (drop_bit 16 v), ucast (drop_bit 24 v)]"

section \<open>System call arguments\<close>

text \<open>None stands for the result -1.\<close>

definition fetchint :: "uint \<Rightarrow> uint option M" where
  "fetchint addr =
     bindM curproc (\<lambda>p.
     bindM (gets (\<lambda>s. p_sz (ptable s ! p))) (\<lambda>sz.
     if addr \<ge> sz \<or> addr + 4 > sz then ret None
     else bindM (uread addr 4) (\<lambda>bs. ret (Some (get32 bs 0)))))"

fun fetchstr_loop :: "nat \<Rightarrow> ptr \<Rightarrow> byte list option M" where
  "fetchstr_loop 0 a = ret None"
| "fetchstr_loop (Suc n) a =
     bindM (uload a) (\<lambda>b.
     if b = 0 then ret (Some [])
     else bindM (fetchstr_loop n (a + 1)) (\<lambda>r. ret (map_option ((#) b) r)))"

text \<open>
  The C function returns the address of the string and its length; the string itself is
  returned here, since nothing writes to it between the check and its use.
\<close>

definition fetchstr :: "uint \<Rightarrow> byte list option M" where
  "fetchstr addr =
     bindM curproc (\<lambda>p.
     bindM (gets (\<lambda>s. p_sz (ptable s ! p))) (\<lambda>sz.
     if addr \<ge> sz then ret None else fetchstr_loop (unat (sz - addr)) addr))"

definition argint :: "nat \<Rightarrow> uint option M" where
  "argint n =
     bindM curproc (\<lambda>p.
     bindM (gets (\<lambda>s. tf_esp (p_tf (ptable s ! p)))) (\<lambda>esp.
     fetchint (esp + 4 + 4 * of_nat n)))"

definition argptr :: "nat \<Rightarrow> int \<Rightarrow> ptr option M" where
  "argptr n len =
     bindM curproc (\<lambda>p.
     bindM (argint n) (\<lambda>r.
     case r of None \<Rightarrow> ret None | Some i \<Rightarrow>
     bindM (gets (\<lambda>s. p_sz (ptable s ! p))) (\<lambda>sz.
     if len < 0 \<or> i \<ge> sz \<or> i + word_of_int len > sz then ret None
     else ret (Some i))))"

definition argstr :: "nat \<Rightarrow> byte list option M" where
  "argstr n =
     bindM (argint n) (\<lambda>r.
     case r of None \<Rightarrow> ret None | Some addr \<Rightarrow> fetchstr addr)"

text \<open>A file descriptor argument: the descriptor and the open file.\<close>

definition argfd :: "nat \<Rightarrow> (nat \<times> nat) option M" where
  "argfd n =
     bindM (argint n) (\<lambda>r.
     case r of None \<Rightarrow> ret None | Some w \<Rightarrow>
     if sint w < 0 \<or> sint w \<ge> int NOFILE then ret None else
     bindM curproc (\<lambda>p.
     bindM (gets (\<lambda>s. p_ofile (ptable s ! p) ! nat (sint w))) (\<lambda>fo.
     case fo of None \<Rightarrow> ret None | Some f \<Rightarrow> ret (Some (nat (sint w), f)))))"

definition fdalloc :: "nat \<Rightarrow> int M" where
  "fdalloc f =
     bindM curproc (\<lambda>p.
     bindM (gets (\<lambda>s. p_ofile (ptable s ! p))) (\<lambda>ofile.
     case find (\<lambda>fd. ofile ! fd = None) [0..<NOFILE] of
       Some fd \<Rightarrow> seqM (modify (upd_proc p (\<lambda>q. q\<lparr>p_ofile := (p_ofile q)[fd := Some f]\<rparr>))) (ret (int fd))
     | None \<Rightarrow> ret (- 1)))"

end
