(* ===== verification/Mmap.thy ===== *)
theory Mmap
  imports Umem
begin

text \<open>
  The memory mapping extension: descriptors in struct proc (mmap.h), the allocation of pages on
  a fault, the copying of mappings at fork and their release (proc.c), and the system calls mmap
  and munmap (sysfile.c).  The exit system call is here as well, because a fault can end the
  process.  A pointer to a descriptor is the index of the process and the index in its array.
\<close>

definition upd_md :: "nat \<Rightarrow> nat \<Rightarrow> (mmap_desc \<Rightarrow> mmap_desc) \<Rightarrow> kernel \<Rightarrow> kernel" where
  "upd_md p i f = upd_proc p (\<lambda>q. q\<lparr>p_mmaps := (p_mmaps q)[i := f (p_mmaps q ! i)]\<rparr>)"

definition get_md :: "nat \<Rightarrow> nat \<Rightarrow> mmap_desc M" where
  "get_md p i = gets (\<lambda>s. p_mmaps (ptable s ! p) ! i)"

text \<open>A test of flag bits.\<close>

definition has_flag :: "int \<Rightarrow> int \<Rightarrow> bool" where
  "has_flag flags f \<longleftrightarrow> flags AND f \<noteq> 0"

section \<open>Releasing a mapping\<close>

definition munmap_free :: "nat \<Rightarrow> nat \<Rightarrow> unit M" where
  "munmap_free p i =
     bindM (get_md p i) (\<lambda>md.
     if \<not> md_valid md then ret () else
     seqM (modify (upd_md p i (\<lambda>md. md\<lparr>md_ref := md_ref md - 1\<rparr>)))
    (if md_ref md - 1 \<noteq> 0 then ret () else
     seqM (modify (upd_md p i (\<lambda>md. md\<lparr>md_length := 0, md_virtualAddress := 0, md_flags := 0, md_prot := 0,
       md_dirty := False, md_shared := False, md_valid := False, md_guard_page := False, md_f := None,
       md_already_alloced := False\<rparr>)))
    (if md_page md = 0 then ret () else
     seqM (kfree (md_page md))
    (modify (upd_md p i (\<lambda>md. md\<lparr>md_page := 0\<rparr>))))))"

section \<open>exit\<close>

definition exit_child :: "nat \<Rightarrow> nat \<Rightarrow> unit M" where
  "exit_child cp p =
     bindM (gets (\<lambda>s. ptable s ! p)) (\<lambda>q.
     whenM (p_parent q = Some cp)
      (bindM (gets initproc) (\<lambda>init.
       seqM (modify (upd_proc p (\<lambda>q. q\<lparr>p_parent := init\<rparr>)))
      (whenM (p_state q = ZOMBIE) (wakeup1 (map_option ChanProc init))))))"

definition exit_mapping :: "nat \<Rightarrow> nat \<Rightarrow> unit M" where
  "exit_mapping cp i =
     bindM (get_md cp i) (\<lambda>md.
     whenM (md_valid md)
      (seqM (case md_f md of None \<Rightarrow> ret () | Some f \<Rightarrow>
          seqM (if has_flag (md_flags md) MAP_PRIVATE then ret ()
                else bindM (filewrite f (usrc (word_of_int (md_virtualAddress md))) 4096) (\<lambda>_. ret ()))
          (fileclose f))
      (munmap_free cp i)))"

definition kexit :: "unit M" where
  "kexit =
     bindM curproc (\<lambda>cp.
     bindM (gets initproc) (\<lambda>init.
     if Some cp = init then panic ''init exiting'' else
     seqM (foreach [0..<NOFILE] (\<lambda>fd.
       bindM (gets (\<lambda>s. p_ofile (ptable s ! cp) ! fd)) (\<lambda>fo.
       case fo of None \<Rightarrow> ret () | Some f \<Rightarrow>
         seqM (fileclose f)
         (modify (upd_proc cp (\<lambda>q. q\<lparr>p_ofile := (p_ofile q)[fd := None]\<rparr>))))))
    (seqM begin_op
    (bindM (gets (\<lambda>s. p_cwd (ptable s ! cp))) (\<lambda>cwd.
     bindM (deref cwd) (\<lambda>ip.
     seqM (iput ip)
    (seqM end_op
    (seqM (modify (upd_proc cp (\<lambda>q. q\<lparr>p_cwd := None\<rparr>)))
    (seqM (acquire PtableLock)
    (bindM (gets (\<lambda>s. p_parent (ptable s ! cp))) (\<lambda>parent.
     seqM (wakeup1 (map_option ChanProc parent))
    (seqM (foreach [0..<NPROC] (exit_child cp))
    (seqM (foreach [0..<PAGE_LIMIT] (exit_mapping cp))
    (seqM (modify (upd_proc cp (\<lambda>q. q\<lparr>p_state := ZOMBIE\<rparr>)))
    (seqM sched
    (panic ''zombie exit''))))))))))))))))"

section \<open>Page faults\<close>

text \<open>The memory for a file page is read into a second page, which the descriptor keeps.\<close>

definition fill_from_file :: "nat \<Rightarrow> nat \<Rightarrow> ptr \<Rightarrow> unit M" where
  "fill_from_file p i mem =
     bindM (get_md p i) (\<lambda>md.
     if has_flag (md_flags md) MAP_ANON then ret () else
     bindM kalloc (\<lambda>buff.
     if buff = 0 then fault ''null dereference'' else
     seqM (modify (\<lambda>s. s\<lparr>kmem := memset (kmem s) buff 0 PGSIZE\<rparr>))
    (bindM (mmap_read (md_f md) 4096) (\<lambda>(r, bs).
     seqM (modify (\<lambda>s. s\<lparr>kmem := write_list (kmem s) buff bs\<rparr>))
    (seqM (modify (\<lambda>s. s\<lparr>kmem := memmove (kmem s) mem buff PGSIZE\<rparr>))
    (modify (upd_md p i (\<lambda>md. md\<lparr>md_page := buff\<rparr>))))))))"

definition allocatePageNonGuard :: "nat \<Rightarrow> nat \<Rightarrow> uint \<Rightarrow> unit M" where
  "allocatePageNonGuard p i addr_head =
     bindM kalloc (\<lambda>mem.
     if mem = 0 then panic ''kalloc'' else
     seqM (modify (\<lambda>s. s\<lparr>kmem := memset (kmem s) mem 0 PGSIZE\<rparr>))
    (bindM (get_md p i) (\<lambda>md.
     bindM (gets (\<lambda>s. p_pgdir (ptable s ! p))) (\<lambda>pgdir.
     bindM (mappages pgdir (PGROUNDDOWN addr_head) PGSIZE (V2P mem) (word_of_int (md_prot md) OR PTE_U)) (\<lambda>r.
     seqM (if r \<noteq> 0 then
            seqM (kfree mem)
           (bindM curproc (\<lambda>cp.
            seqM (modify (upd_proc cp (\<lambda>q. q\<lparr>p_killed := True\<rparr>)))
            kexit))
           else ret ())
     (fill_from_file p i mem)))))) "

definition allocatePageGuard :: "nat \<Rightarrow> nat \<Rightarrow> uint \<Rightarrow> unit M" where
  "allocatePageGuard p i addr_head =
     (if i + 1 \<ge> PAGE_LIMIT then fault ''mmaps index'' else
      bindM (get_md p (i + 1)) (\<lambda>nxt.
      if md_valid nxt then
        seqM (cprintf ''Segmentation Fault\<newline>'' [])
        (modify (upd_proc p (\<lambda>q. q\<lparr>p_killed := True\<rparr>)))
      else
        seqM (modify (upd_md p i (\<lambda>md. md\<lparr>md_guard_page := False\<rparr>)))
       (bindM kalloc (\<lambda>mem.
        if mem = 0 then panic ''kalloc'' else
        seqM (modify (\<lambda>s. s\<lparr>kmem := memset (kmem s) mem 0 PGSIZE\<rparr>))
       (bindM (get_md p i) (\<lambda>md.
        bindM (gets (\<lambda>s. p_pgdir (ptable s ! p))) (\<lambda>pgdir.
        bindM (mappages pgdir (PGROUNDDOWN addr_head) PGSIZE (V2P mem) (word_of_int (md_prot md) OR PTE_U)) (\<lambda>r.
        if r \<noteq> 0 then panic ''mappapges'' else
        seqM (modify (upd_md p (i + 1) (\<lambda>md. md\<lparr>md_valid := True, md_guard_page := True\<rparr>)))
        (fill_from_file p i mem)))))))))"

text \<open>
  The case of trap for page faults: the search for the descriptor whose page holds the address.
  The fault address is a 32-bit word that C reads as a long.
\<close>

fun find_desc :: "mmap_desc list \<Rightarrow> int \<Rightarrow> nat list \<Rightarrow> nat option M" where
  "find_desc mds a [] = ret None"
| "find_desc mds a (i # is) =
     (if \<not> md_valid (mds ! i) then find_desc mds a is
      else if md_virtualAddress (mds ! i) \<le> a then
        (if md_virtualAddress (mds ! i) + PAGE_SIZE > INT_MAX then fault ''signed overflow''
         else if md_virtualAddress (mds ! i) + PAGE_SIZE > a then ret (Some i)
         else find_desc mds a is)
      else find_desc mds a is)"

definition page_fault :: "uint \<Rightarrow> unit M" where
  "page_fault cr2 =
     bindM curproc (\<lambda>p.
     bindM (gets (\<lambda>s. p_mmaps (ptable s ! p))) (\<lambda>mds.
     bindM (find_desc mds (sint cr2) [0..<PAGE_LIMIT]) (\<lambda>r.
     case r of
       None \<Rightarrow>
         seqM (cprintf ''Segmentation Fault\<newline>'' [])
         (modify (upd_proc p (\<lambda>q. q\<lparr>p_killed := True\<rparr>)))
     | Some i \<Rightarrow>
         if md_guard_page (mds ! i) then allocatePageGuard p i cr2 else allocatePageNonGuard p i cr2)))"

section \<open>fork\<close>

definition get_physical_page :: "nat \<Rightarrow> uint \<Rightarrow> uint M" where
  "get_physical_page p tempaddr =
     bindM (gets (\<lambda>s. p_pgdir (ptable s ! p))) (\<lambda>pgdir.
     bindM (walkpgdir pgdir tempaddr False) (\<lambda>pte.
     if pte = 0 then ret 0
     else gets (\<lambda>s. PTE_ADDR (load32 (kmem s) pte))))"

definition deep_copy :: "nat \<Rightarrow> nat \<Rightarrow> nat \<Rightarrow> unit M" where
  "deep_copy parent child i =
     bindM (get_md parent i) (\<lambda>old.
     seqM (modify (upd_md child i (\<lambda>md. md\<lparr>md_length := md_length old, md_virtualAddress := md_virtualAddress old,
       md_flags := md_flags old, md_prot := md_prot old, md_dirty := md_dirty old, md_shared := md_shared old,
       md_valid := md_valid old, md_guard_page := md_guard_page old\<rparr>)))
    (bindM (filedup (md_f old)) (\<lambda>f.
     modify (upd_md child i (\<lambda>md. md\<lparr>md_f := f, md_already_alloced := md_already_alloced old\<rparr>)))))"

definition copy_shared :: "nat \<Rightarrow> nat \<Rightarrow> nat \<Rightarrow> mmap_desc \<Rightarrow> uint \<Rightarrow> unit M" where
  "copy_shared parent child i md parentPage =
     seqM (modify (upd_md child i (\<lambda>md. md\<lparr>md_isChildOfParent := False\<rparr>)))
    (bindM (gets (\<lambda>s. p_pgdir (ptable s ! child))) (\<lambda>pgdir.
     bindM (mappages pgdir (word_of_int (md_virtualAddress md)) PGSIZE (V2P (P2V parentPage))
              (word_of_int (md_prot md) OR PTE_U)) (\<lambda>r.
     if r \<noteq> 0 then panic ''mappages'' else
     seqM (modify (upd_md child i (\<lambda>md. md\<lparr>md_ref := 2\<rparr>)))
    (seqM (modify (upd_md parent i (\<lambda>md. md\<lparr>md_ref := 2\<rparr>)))
    (seqM (bindM (get_md parent i) (\<lambda>mp. modify (upd_md child i (\<lambda>md. md\<lparr>md_page := md_page mp\<rparr>))))
    (deep_copy parent child i))))))"

definition copy_private :: "nat \<Rightarrow> nat \<Rightarrow> nat \<Rightarrow> mmap_desc \<Rightarrow> uint \<Rightarrow> unit M" where
  "copy_private parent child i md parentPage =
     (if parentPage = 0 then deep_copy parent child i else
      seqM (modify (upd_md child i (\<lambda>md. md\<lparr>md_isChildOfParent := True\<rparr>)))
     (bindM kalloc (\<lambda>mem.
      seqM (if mem = 0 then kexit else ret ())
     (bindM (gets (\<lambda>s. p_pgdir (ptable s ! child))) (\<lambda>pgdir.
      bindM (mappages pgdir (word_of_int (md_virtualAddress md)) PGSIZE (V2P mem)
               (word_of_int (md_prot md) OR PTE_U)) (\<lambda>r.
      if r \<noteq> 0 then panic ''ahahah'' else
      seqM (modify (\<lambda>s. s\<lparr>kmem := memmove (kmem s) mem (P2V parentPage) PGSIZE\<rparr>))
     (seqM (modify (upd_md child i (\<lambda>md. md\<lparr>md_ref := 1, md_page := mem\<rparr>)))
     (deep_copy parent child i))))))))"

definition copy_map :: "nat \<Rightarrow> nat \<Rightarrow> nat \<Rightarrow> unit M" where
  "copy_map parent child i =
     bindM (get_md parent i) (\<lambda>md.
     if \<not> md_valid md then ret () else
     let va = word_of_int (md_virtualAddress md) in
     bindM (get_physical_page parent va) (\<lambda>parentPage.
     if has_flag (md_flags md) MAP_SHARED then
       (if parentPage = 0 then
          (if has_flag (md_flags md) MAP_GROWSUP then ret ()
           else seqM (allocatePageNonGuard parent i va)
               (bindM (get_physical_page parent va) (\<lambda>parentPage.
                copy_shared parent child i md parentPage)))
        else copy_shared parent child i md parentPage)
     else copy_private parent child i md parentPage))"

definition copy_maps :: "nat \<Rightarrow> nat \<Rightarrow> int M" where
  "copy_maps parent child = seqM (foreach [0..<PAGE_LIMIT] (copy_map parent child)) (ret 0)"

section \<open>munmap\<close>

text \<open>
  The descriptors that cover one address, in table order, appended to to_free, which has room
  for PAGE_LIMIT of them.
\<close>

fun munmap_page :: "mmap_desc list \<Rightarrow> int \<Rightarrow> nat list \<Rightarrow> nat list \<Rightarrow> nat list M" where
  "munmap_page mds a [] to_free = ret to_free"
| "munmap_page mds a (i # is) to_free =
     (if \<not> md_valid (mds ! i) then munmap_page mds a is to_free
      else if md_virtualAddress (mds ! i) \<le> a then
        (if md_virtualAddress (mds ! i) + PAGE_SIZE > INT_MAX then fault ''signed overflow''
         else if md_virtualAddress (mds ! i) + PAGE_SIZE > a then
           (if length to_free \<ge> PAGE_LIMIT then fault ''to_free index''
            else munmap_page mds a is (to_free @ [i]))
         else munmap_page mds a is to_free)
      else munmap_page mds a is to_free)"

function munmap_scan :: "mmap_desc list \<Rightarrow> int \<Rightarrow> int \<Rightarrow> nat list \<Rightarrow> nat list M" where
  "munmap_scan mds a limit to_free =
     (if a < limit then
        bindM (munmap_page mds a [0..<PAGE_LIMIT] to_free) (\<lambda>to_free.
        if a + PAGE_SIZE > INT_MAX then fault ''signed overflow''
        else munmap_scan mds (a + PAGE_SIZE) limit to_free)
      else ret to_free)"
  by pat_completeness auto
termination
  by (relation "measure (\<lambda>(mds, a, limit, acc). nat (limit - a))") auto

definition munmap_write :: "nat \<Rightarrow> nat \<Rightarrow> unit M" where
  "munmap_write p i =
     bindM (get_md p i) (\<lambda>md.
     case md_f md of None \<Rightarrow> ret () | Some f \<Rightarrow>
     seqM (if has_flag (md_flags md) MAP_PRIVATE then ret ()
           else bindM (filewrite f (usrc (word_of_int (md_virtualAddress md))) 4096) (\<lambda>_. ret ()))
     (fileclose f))"

definition sys_munmap :: "int M" where
  "sys_munmap =
     bindM (argint 0) (\<lambda>r0.
     bindM (if r0 = None then ret None else argint 1) (\<lambda>r1.
     case (r0, r1) of
       (Some w0, Some w1) \<Rightarrow>
         if w0 mod PGSIZE \<noteq> 0 then
           seqM (cprintf ''error, addr mod PAGE_SIZE is not 0: addr: %d, PAGE_SIZE: %d\<newline>'' [CInt w0, CInt PGSIZE])
           (ret (- 1))
         else if sint w1 + sint w0 < INT_MIN \<or> INT_MAX < sint w1 + sint w0 then fault ''signed overflow''
         else
           bindM curproc (\<lambda>p.
           bindM (gets (\<lambda>s. p_mmaps (ptable s ! p))) (\<lambda>mds.
           bindM (munmap_scan mds (sint w0) (sint w1 + sint w0) []) (\<lambda>to_free.
           seqM (case to_free of [] \<Rightarrow> ret () | i # is \<Rightarrow>
                   bindM (deref (md_f (mds ! i))) (\<lambda>f. modify (upd_file f (\<lambda>x. x\<lparr>f_off := 0\<rparr>))))
          (seqM (foreach to_free (munmap_write p))
          (seqM (foreach to_free (munmap_free p))
          (ret 0))))))
     | _ \<Rightarrow> seqM (cprintf ''Error getting the arguments\<newline>'' []) (ret (- 1))))"

section \<open>mmap\<close>

text \<open>The loop that counts the pages of a request.\<close>

function count_pages :: "int \<Rightarrow> int \<Rightarrow> int \<Rightarrow> int M" where
  "count_pages j len n =
     (if j < len then
        (if j + PAGE_SIZE > INT_MAX then fault ''signed overflow'' else count_pages (j + PAGE_SIZE) len (n + 1))
      else ret n)"
  by pat_completeness auto
termination
  by (relation "measure (\<lambda>(j, len, n). nat (len - j))") auto

text \<open>Whether a page of a MAP_FIXED request is covered by a descriptor.\<close>

fun fixed_conflict :: "mmap_desc list \<Rightarrow> int \<Rightarrow> nat list \<Rightarrow> bool M" where
  "fixed_conflict mds addr [] = ret False"
| "fixed_conflict mds addr (j # js) =
     (if addr + PAGE_SIZE * int j > INT_MAX then fault ''signed overflow'' else
      bindM (find_desc mds (addr + PAGE_SIZE * int j) [0..<PAGE_LIMIT]) (\<lambda>r.
      if r \<noteq> None then ret True else fixed_conflict mds addr js))"

text \<open>The first run of \<open>n\<close> free descriptors: the index of its first element, or -1.\<close>

fun find_run :: "mmap_desc list \<Rightarrow> int \<Rightarrow> int \<Rightarrow> nat list \<Rightarrow> int" where
  "find_run mds n run [] = - 1"
| "find_run mds n run (j # js) =
     (if md_valid (mds ! j) then find_run mds n 0 js
      else if run + 1 = n then int j - n + 1
      else find_run mds n (run + 1) js)"

text \<open>
  The loop that fills in the descriptors from \<open>j\<close> up to \<open>final\<close>.  The result is the address after
  the mapping, or None where the file descriptor is bad.
\<close>

fun mmap_setup :: "nat \<Rightarrow> int \<Rightarrow> int \<Rightarrow> int \<Rightarrow> nat \<Rightarrow> nat list \<Rightarrow> int \<Rightarrow> int option M" where
  "mmap_setup p len prot flags final [] va = ret (Some va)"
| "mmap_setup p len prot flags final (j # js) va =
     bindM (get_md p j) (\<lambda>md.
     if md_valid md then mmap_setup p len prot flags final js va else
     seqM (modify (upd_md p j (\<lambda>md. md\<lparr>md_valid := True, md_dirty := False, md_flags := flags, md_prot := prot,
             md_ref := 1, md_guard_page := (j = final \<and> has_flag flags MAP_GROWSUP)\<rparr>)))
    (bindM (if has_flag flags MAP_ANON then ret (Some None)
            else bindM (argfd 4) (\<lambda>r. case r of None \<Rightarrow> ret None
                  | Some (fd, f) \<Rightarrow> bindM (filedup (Some f)) (\<lambda>f. ret (Some f)))) (\<lambda>r.
     case r of None \<Rightarrow> ret None | Some f \<Rightarrow>
     seqM (modify (upd_md p j (\<lambda>md. md\<lparr>md_f := f, md_length := len, md_virtualAddress := va\<rparr>)))
    (if va + PAGE_SIZE > INT_MAX then fault ''signed overflow''
     else mmap_setup p len prot flags final js (va + PAGE_SIZE)))))"

definition mmap_place :: "nat \<Rightarrow> int \<Rightarrow> int \<Rightarrow> int \<Rightarrow> int \<Rightarrow> int \<Rightarrow> int M" where
  "mmap_place p len prot flags n va_start =
     bindM (gets (\<lambda>s. find_run (p_mmaps (ptable s ! p)) n 0 [0..<PAGE_LIMIT])) (\<lambda>i.
     if i = - 1 then ret (- 1) else
     bindM (mmap_setup p len prot flags (nat (i + n - 1)) [nat i..<nat (i + n)] va_start) (\<lambda>r.
     case r of None \<Rightarrow> ret (- 1) | Some va \<Rightarrow>
     seqM (whenM (\<not> has_flag flags MAP_FIXED) (modify (\<lambda>s. s\<lparr>VA_PTR := va\<rparr>)))
    (bindM (get_md p (nat i)) (\<lambda>md. ret (md_virtualAddress md)))))"

text \<open>VIRT_ADDR_END does not fit an int, so C compares with it as unsigned numbers.\<close>

definition mmap_request :: "nat \<Rightarrow> int \<Rightarrow> int \<Rightarrow> int \<Rightarrow> int \<Rightarrow> int \<Rightarrow> int M" where
  "mmap_request p addr len prot flags offset =
     bindM (gets VA_PTR) (\<lambda>va_start.
     if len < 0 \<or> offset < 0 then ret (- 1) else
     bindM (count_pages 0 len 0) (\<lambda>n0.
     let n = (if has_flag flags MAP_GROWSUP then n0 + 1 else n0) in
     if \<not> has_flag flags MAP_PRIVATE \<and> \<not> has_flag flags MAP_SHARED then ret (- 1)
     else if has_flag flags MAP_FIXED then
       (if addr + len > INT_MAX then fault ''signed overflow''
        else if word_of_int (addr + len) \<ge> VIRT_ADDR_END \<or> addr < VIRT_ADDR_START then ret (- 1)
        else
          bindM (gets (\<lambda>s. p_mmaps (ptable s ! p))) (\<lambda>mds.
          bindM (fixed_conflict mds addr [0..<nat n]) (\<lambda>c.
          if c then ret (- 1) else mmap_place p len prot flags n addr)))
     else mmap_place p len prot flags n va_start))"

definition sys_mmap :: "int M" where
  "sys_mmap =
     bindM (argint 0) (\<lambda>a0. case a0 of None \<Rightarrow> ret (- 1) | Some addr \<Rightarrow>
     bindM (argint 1) (\<lambda>a1. case a1 of None \<Rightarrow> ret (- 1) | Some len \<Rightarrow>
     bindM (argint 2) (\<lambda>a2. case a2 of None \<Rightarrow> ret (- 1) | Some prot \<Rightarrow>
     bindM (argint 3) (\<lambda>a3. case a3 of None \<Rightarrow> ret (- 1) | Some flags \<Rightarrow>
     bindM (argint 4) (\<lambda>a4. case a4 of None \<Rightarrow> ret (- 1) | Some fd \<Rightarrow>
     bindM (argint 5) (\<lambda>a5. case a5 of None \<Rightarrow> ret (- 1) | Some offset \<Rightarrow>
     bindM curproc (\<lambda>p.
     mmap_request p (sint addr) (sint len) (sint prot) (sint flags) (sint offset))))))))"

end
