(* ===== verification/Proc.thy ===== *)
theory Proc
  imports Mmap
begin

text \<open>
  Processes (proc.c): allocation of a table entry, the first process, fork, wait, kill, the
  scheduler and the first return of a new process.  The trap frame at the top of a kernel stack
  and the saved context below it are kept as records in the process entry; after allocproc the
  trap frame has no defined contents (every caller overwrites it), which the model leaves as the
  contents of the entry's previous use.
\<close>

section \<open>Creating processes\<close>

text \<open>The result is the entry, or None for NULL.\<close>

definition allocproc :: "nat option M" where
  "allocproc =
     seqM (acquire PtableLock)
    (bindM (gets ptable) (\<lambda>pt.
     case find (\<lambda>p. p_state (pt ! p) = UNUSED) [0..<NPROC] of
       None \<Rightarrow> seqM (release PtableLock) (ret None)
     | Some p \<Rightarrow>
         bindM (gets nextpid) (\<lambda>pid.
         if pid \<ge> INT_MAX then fault ''signed overflow'' else
         seqM (modify (\<lambda>s. upd_proc p (\<lambda>q. q\<lparr>p_state := EMBRYO, p_pid := pid, p_open_frames := 0,
           p_mmaps := map (\<lambda>md. md\<lparr>md_valid := False, md_isChildOfParent := False\<rparr>) (p_mmaps q)\<rparr>)
           (s\<lparr>nextpid := pid + 1\<rparr>)))
        (seqM (release PtableLock)
        (bindM kalloc (\<lambda>kstack.
         seqM (modify (upd_proc p (\<lambda>q. q\<lparr>p_kstack := kstack\<rparr>)))
        (if kstack = 0 then seqM (modify (upd_proc p (\<lambda>q. q\<lparr>p_state := UNUSED\<rparr>))) (ret None)
         else
           seqM (modify (upd_proc p (\<lambda>q. q\<lparr>p_context := \<lparr>cx_eip = Forkret, cx_ret = Trapret, cx_zeroed = True\<rparr>\<rparr>)))
          (ret (Some p)))))))))"

text \<open>The image of initcode is made by the linker from initcode.S.\<close>

definition userinit :: "byte list \<Rightarrow> unit M" where
  "userinit initcode =
     bindM allocproc (\<lambda>po.
     seqM (modify (\<lambda>s. s\<lparr>initproc := po\<rparr>))
    (bindM setupkvm (\<lambda>pgdir.
     bindM (deref po) (\<lambda>p.
     seqM (modify (upd_proc p (\<lambda>q. q\<lparr>p_pgdir := pgdir\<rparr>)))
    (if pgdir = 0 then panic ''userinit: out of memory?'' else
     seqM (inituvm pgdir initcode)
    (seqM (modify (upd_proc p (\<lambda>q. q\<lparr>p_sz := PGSIZE,
       p_tf := zero_trapframe\<lparr>tf_cs := 0x1B, tf_ds := 0x23, tf_es := 0x23, tf_ss := 0x23, tf_eflags := 0x200,
         tf_esp := PGSIZE, tf_eip := 0\<rparr>,
       p_name := safestrcpy (p_name q) (cstr_of (str ''initcode'')) 16\<rparr>)))
    (bindM (namei (str ''/'')) (\<lambda>cwd.
     seqM (modify (upd_proc p (\<lambda>q. q\<lparr>p_cwd := cwd\<rparr>)))
    (seqM (acquire PtableLock)
    (seqM (modify (upd_proc p (\<lambda>q. q\<lparr>p_state := RUNNABLE\<rparr>)))
    (release PtableLock)))))))))))"

definition growproc :: "int \<Rightarrow> int M" where
  "growproc n =
     bindM curproc (\<lambda>p.
     bindM (gets (\<lambda>s. ptable s ! p)) (\<lambda>q.
     bindM (if n > 0 then bindM (allocuvm (p_pgdir q) (p_sz q) (p_sz q + word_of_int n)) (\<lambda>sz.
              ret (if sz = 0 then None else Some sz))
            else if n < 0 then bindM (deallocuvm (p_pgdir q) (p_sz q) (p_sz q + word_of_int n)) (\<lambda>sz.
              ret (if sz = 0 then None else Some sz))
            else ret (Some (p_sz q))) (\<lambda>r.
     case r of None \<Rightarrow> ret (- 1) | Some sz \<Rightarrow>
       seqM (modify (upd_proc p (\<lambda>q. q\<lparr>p_sz := sz\<rparr>)))
      (seqM (switchuvm (Some p))
      (ret 0)))))"

definition fork_file :: "nat \<Rightarrow> nat \<Rightarrow> nat \<Rightarrow> unit M" where
  "fork_file cp np i =
     bindM (gets (\<lambda>s. p_ofile (ptable s ! cp) ! i)) (\<lambda>fo.
     whenM (fo \<noteq> None)
      (bindM (filedup fo) (\<lambda>f. modify (upd_proc np (\<lambda>q. q\<lparr>p_ofile := (p_ofile q)[i := f]\<rparr>)))))"

definition fork :: "int M" where
  "fork =
     bindM curproc (\<lambda>cp.
     bindM allocproc (\<lambda>npo.
     case npo of None \<Rightarrow> ret (- 1) | Some np \<Rightarrow>
     bindM (gets (\<lambda>s. ptable s ! cp)) (\<lambda>q.
     bindM (copyuvm (p_pgdir q) (p_sz q)) (\<lambda>pgdir.
     seqM (modify (upd_proc np (\<lambda>x. x\<lparr>p_pgdir := pgdir\<rparr>)))
    (if pgdir = 0 then
       bindM (gets (\<lambda>s. p_kstack (ptable s ! np))) (\<lambda>ks.
       seqM (kfree ks)
      (seqM (modify (upd_proc np (\<lambda>x. x\<lparr>p_kstack := 0, p_state := UNUSED\<rparr>)))
      (ret (- 1))))
     else
       seqM (modify (upd_proc np (\<lambda>x. x\<lparr>p_sz := p_sz q, p_parent := Some cp, p_tf := (p_tf q)\<lparr>tf_eax := 0\<rparr>\<rparr>)))
      (seqM (foreach [0..<NOFILE] (fork_file cp np))
      (bindM (deref (p_cwd q)) (\<lambda>ip.
       bindM (idup ip) (\<lambda>cwd.
       seqM (modify (upd_proc np (\<lambda>x. x\<lparr>p_cwd := Some cwd, p_name := safestrcpy (p_name x) (cstr_of (p_name q)) 16\<rparr>)))
      (bindM (gets (\<lambda>s. p_pid (ptable s ! np))) (\<lambda>pid.
       seqM (acquire PtableLock)
      (seqM (modify (upd_proc np (\<lambda>x. x\<lparr>p_state := RUNNABLE\<rparr>)))
      (seqM (release PtableLock)
      (bindM (copy_maps cp np) (\<lambda>_.
       ret pid)))))))))))))))"

section \<open>wait and kill\<close>

text \<open>The scan of the table: the pid of a reaped child, or whether there are children.\<close>

fun wait_scan :: "nat \<Rightarrow> nat list \<Rightarrow> bool \<Rightarrow> (int + bool) M" where
  "wait_scan cp [] havekids = ret (Inr havekids)"
| "wait_scan cp (p # ps) havekids =
     bindM (gets (\<lambda>s. ptable s ! p)) (\<lambda>q.
     if p_parent q \<noteq> Some cp then wait_scan cp ps havekids
     else if p_state q = ZOMBIE then
       seqM (kfree (p_kstack q))
      (seqM (modify (upd_proc p (\<lambda>q. q\<lparr>p_kstack := 0\<rparr>)))
      (seqM (freevm (p_pgdir q))
      (seqM (modify (upd_proc p (\<lambda>q. q\<lparr>p_pid := 0, p_parent := None, p_name := (p_name q)[0 := 0],
         p_killed := False, p_state := UNUSED\<rparr>)))
      (ret (Inl (p_pid q))))))
     else wait_scan cp ps True)"

definition wait :: "int M" where
  "wait =
     bindM curproc (\<lambda>cp.
     seqM (acquire PtableLock)
    (bindM (wait_scan cp [0..<NPROC] False) (\<lambda>r.
     case r of
       Inl pid \<Rightarrow> seqM (release PtableLock) (ret pid)
     | Inr havekids \<Rightarrow>
         bindM (gets (\<lambda>s. p_killed (ptable s ! cp))) (\<lambda>killed.
         if \<not> havekids \<or> killed then seqM (release PtableLock) (ret (- 1))
         else seqM (sleep (ChanProc cp) (Some PtableLock)) (fault ''sleep returned'')))))"

definition kill :: "int \<Rightarrow> int M" where
  "kill pid =
     seqM (acquire PtableLock)
    (bindM (gets ptable) (\<lambda>pt.
     case find (\<lambda>p. p_pid (pt ! p) = pid) [0..<NPROC] of
       Some p \<Rightarrow>
         seqM (modify (upd_proc p (\<lambda>q. q\<lparr>p_killed := True,
           p_state := (if p_state q = SLEEPING then RUNNABLE else p_state q)\<rparr>)))
        (seqM (release PtableLock)
        (ret 0))
     | None \<Rightarrow> seqM (release PtableLock) (ret (- 1))))"

section \<open>The scheduler\<close>

text \<open>
  One pass over the table, with the ptable lock held.  \<open>run p\<close> stands for what process \<open>p\<close> does
  between the switch to its kernel stack and its own switch back in sched.
\<close>

fun scheduler_pass :: "(nat \<Rightarrow> unit M) \<Rightarrow> nat list \<Rightarrow> unit M" where
  "scheduler_pass run [] = ret ()"
| "scheduler_pass run (p # ps) =
     bindM (gets (\<lambda>s. p_state (ptable s ! p))) (\<lambda>st.
     if st \<noteq> RUNNABLE then scheduler_pass run ps else
     seqM (modify (\<lambda>s. s\<lparr>cur := Some p\<rparr>))
    (seqM (switchuvm (Some p))
    (seqM (modify (upd_proc p (\<lambda>q. q\<lparr>p_state := RUNNING\<rparr>)))
    (seqM (run p)
    (seqM switchkvm
    (seqM (modify (\<lambda>s. s\<lparr>cur := None\<rparr>))
    (scheduler_pass run ps)))))))"

text \<open>One iteration of the scheduler's endless loop; sti only opens a window for interrupts.\<close>

definition scheduler_round :: "(nat \<Rightarrow> unit M) \<Rightarrow> unit M" where
  "scheduler_round run =
     seqM (acquire PtableLock)
    (seqM (scheduler_pass run [0..<NPROC])
    (release PtableLock))"

fun scheduler :: "(nat \<Rightarrow> unit M) \<Rightarrow> nat \<Rightarrow> unit M" where
  "scheduler run 0 = modify (\<lambda>s. s\<lparr>cur := None\<rparr>)"
| "scheduler run (Suc rounds) = seqM (scheduler run rounds) (scheduler_round run)"

definition forkret :: "unit M" where
  "forkret =
     seqM (release PtableLock)
    (bindM (gets first) (\<lambda>fst.
     whenM fst
      (seqM (modify (\<lambda>s. s\<lparr>first := False\<rparr>))
      (seqM (iinit ROOTDEV)
      (initlog ROOTDEV)))))"

end
