(* ===== verification/Exec.thy ===== *)
theory Exec
  imports Proc
begin

text \<open>
  Loading a program (exec.c and loaduvm of vm.c).  The ELF header and the program headers are
  read from the bytes of the file.  The argument strings are the bytes that fetchstr read, so
  \<open>argv\<close> is a list of strings.
\<close>

abbreviation (input) "ELF_MAGIC \<equiv> 0x464C457F :: uint"
abbreviation (input) "ELF_PROG_LOAD \<equiv> 1 :: uint"

record elfhdr =
  elf_magic :: uint
  elf_entry :: uint
  elf_phoff :: uint
  elf_phnum :: ushort

record proghdr =
  ph_type :: uint
  ph_off :: uint
  ph_vaddr :: uint
  ph_filesz :: uint
  ph_memsz :: uint

definition get_elfhdr :: "byte list \<Rightarrow> elfhdr" where
  "get_elfhdr bs = \<lparr>elf_magic = get32 bs 0, elf_entry = get32 bs 24, elf_phoff = get32 bs 28, elf_phnum = get16 bs 44\<rparr>"

definition get_proghdr :: "byte list \<Rightarrow> proghdr" where
  "get_proghdr bs = \<lparr>ph_type = get32 bs 0, ph_off = get32 bs 4, ph_vaddr = get32 bs 8, ph_filesz = get32 bs 16,
     ph_memsz = get32 bs 20\<rparr>"

text \<open>The loop variable of loaduvm is a uint; the page count bounds the number of iterations.\<close>

fun loaduvm_loop :: "nat \<Rightarrow> ptr \<Rightarrow> ptr \<Rightarrow> nat \<Rightarrow> uint \<Rightarrow> uint \<Rightarrow> uint \<Rightarrow> int M" where
  "loaduvm_loop 0 pgdir addr ip offset sz i = fault ''loaduvm: out of fuel''"
| "loaduvm_loop (Suc fuel) pgdir addr ip offset sz i =
     (if \<not> i < sz then ret 0 else
      bindM (walkpgdir pgdir (addr + i) False) (\<lambda>pte.
      if pte = 0 then panic ''loaduvm: address should exist'' else
      bindM (gets (\<lambda>s. PTE_ADDR (load32 (kmem s) pte))) (\<lambda>pa.
      let n = (if sz - i < PGSIZE then sz - i else PGSIZE) in
      bindM (readi ip (offset + i) n) (\<lambda>(r, bs).
      seqM (modify (\<lambda>s. s\<lparr>kmem := write_list (kmem s) (P2V pa) bs\<rparr>))
     (if word_of_int r \<noteq> n then ret (- 1)
      else loaduvm_loop fuel pgdir addr ip offset sz (i + PGSIZE))))))"

definition loaduvm :: "ptr \<Rightarrow> ptr \<Rightarrow> nat \<Rightarrow> uint \<Rightarrow> uint \<Rightarrow> int M" where
  "loaduvm pgdir addr ip offset sz =
     (if addr mod PGSIZE \<noteq> 0 then panic ''loaduvm: addr must be page aligned''
      else loaduvm_loop (Suc NPAGES) pgdir addr ip offset sz 0)"

text \<open>The loop over the program headers; None is the jump to bad.\<close>

fun exec_load :: "nat \<Rightarrow> ptr \<Rightarrow> nat \<Rightarrow> uint \<Rightarrow> uint \<Rightarrow> uint option M" where
  "exec_load 0 pgdir ip off sz = ret (Some sz)"
| "exec_load (Suc n) pgdir ip off sz =
     bindM (readi ip off 32) (\<lambda>(r, bs).
     if r \<noteq> 32 then ret None else
     let ph = get_proghdr bs in
     if ph_type ph \<noteq> ELF_PROG_LOAD then exec_load n pgdir ip (off + 32) sz
     else if ph_memsz ph < ph_filesz ph then ret None
     else if ph_vaddr ph + ph_memsz ph < ph_vaddr ph then ret None
     else
       bindM (allocuvm pgdir sz (ph_vaddr ph + ph_memsz ph)) (\<lambda>sz.
       if sz = 0 then ret None
       else if ph_vaddr ph mod PGSIZE \<noteq> 0 then ret None
       else
         bindM (loaduvm pgdir (ph_vaddr ph) ip (ph_off ph) (ph_filesz ph)) (\<lambda>r.
         if r < 0 then ret None else exec_load n pgdir ip (off + 32) sz)))"

text \<open>
  The loop that pushes the argument strings: the stack pointer and the addresses of the strings,
  or None for the jump to bad.
\<close>

fun exec_args :: "ptr \<Rightarrow> byte list list \<Rightarrow> uint \<Rightarrow> uint list \<Rightarrow> (uint \<times> uint list) option M" where
  "exec_args pgdir [] sp addrs = ret (Some (sp, addrs))"
| "exec_args pgdir (arg # args) sp addrs =
     (if length addrs \<ge> MAXARG then ret None else
      let sp = (sp - (of_nat (length arg) + 1)) AND NOT 3 in
      bindM (copyout pgdir sp (arg @ [0])) (\<lambda>r.
      if r < 0 then ret None else exec_args pgdir args sp (addrs @ [sp])))"

definition ustack :: "uint \<Rightarrow> uint list \<Rightarrow> uint list" where
  "ustack sp addrs = [0xffffffff, of_nat (length addrs), sp - (of_nat (length addrs) + 1) * 4] @ addrs @ [0]"

text \<open>The part of a path after its last slash.\<close>

definition last_elem :: "byte list \<Rightarrow> byte list" where
  "last_elem path = rev (takeWhile (\<lambda>c. c \<noteq> 47) (rev path))"

definition exec_bad :: "ptr \<Rightarrow> nat option \<Rightarrow> int M" where
  "exec_bad pgdir ipo =
     seqM (whenM (pgdir \<noteq> 0) (freevm pgdir))
    (seqM (case ipo of None \<Rightarrow> ret () | Some ip \<Rightarrow> seqM (iunlockput ip) end_op)
    (ret (- 1)))"

text \<open>exec from the point where the image is loaded and the inode has been released.\<close>

definition exec_stack :: "byte list \<Rightarrow> byte list list \<Rightarrow> ptr \<Rightarrow> uint \<Rightarrow> uint \<Rightarrow> int M" where
  "exec_stack path argv pgdir sz entry =
     bindM curproc (\<lambda>p.
     bindM (allocuvm pgdir (PGROUNDUP sz) (PGROUNDUP sz + 2 * PGSIZE)) (\<lambda>sz.
     if sz = 0 then exec_bad pgdir None else
     seqM (clearpteu pgdir (sz - 2 * PGSIZE))
    (bindM (exec_args pgdir argv sz []) (\<lambda>r.
     case r of None \<Rightarrow> exec_bad pgdir None | Some (sp, addrs) \<Rightarrow>
     let us = ustack sp addrs; sp = sp - (3 + of_nat (length addrs) + 1) * 4 in
     bindM (copyout pgdir sp (concat (map bytes32 us))) (\<lambda>r.
     if r < 0 then exec_bad pgdir None else
     bindM (gets (\<lambda>s. p_pgdir (ptable s ! p))) (\<lambda>oldpgdir.
     seqM (modify (upd_proc p (\<lambda>q. q\<lparr>p_name := safestrcpy (p_name q) (cstr_of (last_elem path)) 16,
       p_pgdir := pgdir, p_sz := sz, p_tf := (p_tf q)\<lparr>tf_eip := entry, tf_esp := sp\<rparr>\<rparr>)))
    (seqM (switchuvm (Some p))
    (seqM (freevm oldpgdir)
    (ret 0)))))))))"

definition exec :: "byte list \<Rightarrow> byte list list \<Rightarrow> int M" where
  "exec path argv =
     seqM begin_op
    (bindM (namei path) (\<lambda>ipo.
     case ipo of
       None \<Rightarrow> seqM end_op (seqM (cprintf ''exec: fail\<newline>'' []) (ret (- 1)))
     | Some ip \<Rightarrow>
         seqM (ilock ipo)
        (bindM (readi ip 0 52) (\<lambda>(r, bs).
         if r \<noteq> 52 then exec_bad 0 ipo
         else if elf_magic (get_elfhdr bs) \<noteq> ELF_MAGIC then exec_bad 0 ipo
         else
           bindM setupkvm (\<lambda>pgdir.
           if pgdir = 0 then exec_bad 0 ipo else
           bindM (exec_load (unat (elf_phnum (get_elfhdr bs))) pgdir ip (elf_phoff (get_elfhdr bs)) 0) (\<lambda>szo.
           case szo of None \<Rightarrow> exec_bad pgdir ipo | Some sz \<Rightarrow>
           seqM (iunlockput ip)
          (seqM end_op
          (exec_stack path argv pgdir sz (elf_entry (get_elfhdr bs))))))))))"

end
