(* ===== verification/Sysfile.thy ===== *)
theory Sysfile
  imports Exec
begin

text \<open>
  The file system calls (sysfile.c).  Each returns the int that goes into the caller's \<open>eax\<close>.
  A path argument is the string argstr read; bytes that a call delivers are stored in user
  memory with \<open>uwrite\<close>.
\<close>

abbreviation (input) "O_RDONLY \<equiv> 0 :: int"
abbreviation (input) "O_WRONLY \<equiv> 1 :: int"
abbreviation (input) "O_RDWR \<equiv> 2 :: int"
abbreviation (input) "O_CREATE \<equiv> 0x200 :: int"

section \<open>Descriptors\<close>

definition sys_dup :: "int M" where
  "sys_dup =
     bindM (argfd 0) (\<lambda>r. case r of None \<Rightarrow> ret (- 1) | Some (fd0, f) \<Rightarrow>
     bindM (fdalloc f) (\<lambda>fd.
     if fd < 0 then ret (- 1) else
     bindM (filedup (Some f)) (\<lambda>_. ret fd)))"

definition sys_read :: "int M" where
  "sys_read =
     bindM (argfd 0) (\<lambda>r. case r of None \<Rightarrow> ret (- 1) | Some (fd, f) \<Rightarrow>
     bindM (argint 2) (\<lambda>r. case r of None \<Rightarrow> ret (- 1) | Some n \<Rightarrow>
     bindM (argptr 1 (sint n)) (\<lambda>r. case r of None \<Rightarrow> ret (- 1) | Some p \<Rightarrow>
     bindM (fileread f (sint n)) (\<lambda>(k, bs).
     seqM (uwrite p bs)
     (ret k)))))"

definition sys_write :: "int M" where
  "sys_write =
     bindM (argfd 0) (\<lambda>r. case r of None \<Rightarrow> ret (- 1) | Some (fd, f) \<Rightarrow>
     bindM (argint 2) (\<lambda>r. case r of None \<Rightarrow> ret (- 1) | Some n \<Rightarrow>
     bindM (argptr 1 (sint n)) (\<lambda>r. case r of None \<Rightarrow> ret (- 1) | Some p \<Rightarrow>
     filewrite f (usrc p) (sint n))))"

definition sys_close :: "int M" where
  "sys_close =
     bindM (argfd 0) (\<lambda>r. case r of None \<Rightarrow> ret (- 1) | Some (fd, f) \<Rightarrow>
     bindM curproc (\<lambda>p.
     seqM (modify (upd_proc p (\<lambda>q. q\<lparr>p_ofile := (p_ofile q)[fd := None]\<rparr>)))
    (seqM (fileclose f)
    (ret 0))))"

text \<open>struct stat is stored field by field; the padding after the shorts is not written.\<close>

definition put_stat :: "ptr \<Rightarrow> stat \<Rightarrow> unit M" where
  "put_stat a st =
     seqM (uwrite (a + 4) (bytes32 (st_dev st)))
    (seqM (uwrite (a + 8) (bytes32 (st_ino st)))
    (seqM (uwrite a (take 2 (bytes32 (ucast (st_type st)))))
    (seqM (uwrite (a + 12) (take 2 (bytes32 (ucast (st_nlink st)))))
    (uwrite (a + 16) (bytes32 (st_size st))))))"

definition sys_fstat :: "int M" where
  "sys_fstat =
     bindM (argfd 0) (\<lambda>r. case r of None \<Rightarrow> ret (- 1) | Some (fd, f) \<Rightarrow>
     bindM (argptr 1 20) (\<lambda>r. case r of None \<Rightarrow> ret (- 1) | Some a \<Rightarrow>
     bindM (filestat f) (\<lambda>so.
     case so of None \<Rightarrow> ret (- 1) | Some st \<Rightarrow> seqM (put_stat a st) (ret 0))))"

section \<open>Links\<close>

definition add_nlink :: "nat \<Rightarrow> ushort \<Rightarrow> unit M" where
  "add_nlink ip k = seqM (modify (upd_inode ip (\<lambda>x. x\<lparr>i_nlink := i_nlink x + k\<rparr>))) (iupdate ip)"

definition link_bad :: "nat \<Rightarrow> int M" where
  "link_bad ip =
     seqM (ilock (Some ip))
    (seqM (add_nlink ip (- 1))
    (seqM (iunlockput ip)
    (seqM end_op
    (ret (- 1)))))"

definition sys_link :: "int M" where
  "sys_link =
     bindM (argstr 0) (\<lambda>r. case r of None \<Rightarrow> ret (- 1) | Some old \<Rightarrow>
     bindM (argstr 1) (\<lambda>r. case r of None \<Rightarrow> ret (- 1) | Some new \<Rightarrow>
     seqM begin_op
    (bindM (namei old) (\<lambda>ipo.
     case ipo of None \<Rightarrow> seqM end_op (ret (- 1)) | Some ip \<Rightarrow>
     seqM (ilock (Some ip))
    (bindM (gets (\<lambda>s. i_type (icache s ! ip))) (\<lambda>ty.
     if ty = T_DIR then seqM (iunlockput ip) (seqM end_op (ret (- 1))) else
     seqM (add_nlink ip 1)
    (seqM (iunlock (Some ip))
    (bindM (nameiparent new) (\<lambda>(dpo, name).
     case dpo of None \<Rightarrow> link_bad ip | Some dp \<Rightarrow>
     seqM (ilock (Some dp))
    (bindM (gets (\<lambda>s. (i_dev (icache s ! dp), i_dev (icache s ! ip), i_inum (icache s ! ip)))) (\<lambda>(ddev, dev, inum).
     bindM (if ddev \<noteq> dev then ret True else bindM (dirlink dp name inum) (\<lambda>r. ret (r < 0))) (\<lambda>failed.
     seqM (iunlockput dp)
    (if failed then link_bad ip else
     seqM (iput ip)
    (seqM end_op
    (ret 0)))))))))))))))"

fun isdirempty_loop :: "nat \<Rightarrow> nat list \<Rightarrow> bool M" where
  "isdirempty_loop dp [] = ret True"
| "isdirempty_loop dp (off # offs) =
     bindM (readi dp (of_nat off) 16) (\<lambda>(r, de).
     if r \<noteq> 16 then panic ''isdirempty: readi''
     else if de_inum de \<noteq> 0 then ret False
     else isdirempty_loop dp offs)"

definition isdirempty :: "nat \<Rightarrow> bool M" where
  "isdirempty dp =
     bindM (gets (\<lambda>s. i_size (icache s ! dp))) (\<lambda>sz. isdirempty_loop dp (drop 2 (entry_offsets sz)))"

definition unlink_bad :: "nat \<Rightarrow> int M" where
  "unlink_bad dp = seqM (iunlockput dp) (seqM end_op (ret (- 1)))"

definition unlink_entry :: "nat \<Rightarrow> nat \<Rightarrow> uint \<Rightarrow> int M" where
  "unlink_entry dp ip off =
     bindM (writei dp (replicate 16 0) off 16) (\<lambda>w.
     if w \<noteq> 16 then panic ''unlink: writei'' else
     bindM (gets (\<lambda>s. i_type (icache s ! ip))) (\<lambda>ty.
     seqM (whenM (ty = T_DIR) (add_nlink dp (- 1)))
    (seqM (iunlockput dp)
    (seqM (add_nlink ip (- 1))
    (seqM (iunlockput ip)
    (seqM end_op
    (ret 0)))))))"

definition sys_unlink :: "int M" where
  "sys_unlink =
     bindM (argstr 0) (\<lambda>r. case r of None \<Rightarrow> ret (- 1) | Some path \<Rightarrow>
     seqM begin_op
    (bindM (nameiparent path) (\<lambda>(dpo, name).
     case dpo of None \<Rightarrow> seqM end_op (ret (- 1)) | Some dp \<Rightarrow>
     seqM (ilock (Some dp))
    (if namecmp name (str ''.'') = 0 \<or> namecmp name (str ''..'') = 0 then unlink_bad dp else
     bindM (dirlookup dp name) (\<lambda>r.
     case r of None \<Rightarrow> unlink_bad dp | Some (ip, off) \<Rightarrow>
     seqM (ilock (Some ip))
    (bindM (gets (\<lambda>s. icache s ! ip)) (\<lambda>x.
     if sint (i_nlink x) < 1 then panic ''unlink: nlink < 1'' else
     bindM (if i_type x = T_DIR then isdirempty ip else ret True) (\<lambda>empty.
     if \<not> empty then seqM (iunlockput ip) (unlink_bad dp)
     else unlink_entry dp ip off))))))))"

section \<open>Creating and opening\<close>

definition create_new :: "nat \<Rightarrow> byte list \<Rightarrow> ushort \<Rightarrow> ushort \<Rightarrow> ushort \<Rightarrow> nat option M" where
  "create_new dp name type major minor =
     bindM (gets (\<lambda>s. i_dev (icache s ! dp))) (\<lambda>dev.
     bindM (ialloc dev type) (\<lambda>ip.
     seqM (ilock (Some ip))
    (seqM (modify (upd_inode ip (\<lambda>x. x\<lparr>i_major := major, i_minor := minor, i_nlink := 1\<rparr>)))
    (seqM (iupdate ip)
    (bindM (gets (\<lambda>s. i_inum (icache s ! ip))) (\<lambda>inum.
     bindM (gets (\<lambda>s. i_inum (icache s ! dp))) (\<lambda>dinum.
     seqM (if type = T_DIR then
             seqM (add_nlink dp 1)
            (bindM (dirlink ip (str ''.'') inum) (\<lambda>r1.
             bindM (if r1 < 0 then ret (- 1) else dirlink ip (str ''..'') dinum) (\<lambda>r2.
             if r2 < 0 then panic ''create dots'' else ret ())))
           else ret ())
    (bindM (dirlink dp name inum) (\<lambda>r.
     if r < 0 then panic ''create: dirlink'' else
     seqM (iunlockput dp)
    (ret (Some ip)))))))))))"

text \<open>The inode that create returns is locked; None is NULL.  ialloc panics rather than fail.\<close>

definition create :: "byte list \<Rightarrow> ushort \<Rightarrow> ushort \<Rightarrow> ushort \<Rightarrow> nat option M" where
  "create path type major minor =
     bindM (nameiparent path) (\<lambda>(dpo, name).
     case dpo of None \<Rightarrow> ret None | Some dp \<Rightarrow>
     seqM (ilock (Some dp))
    (bindM (dirlookup dp name) (\<lambda>r.
     case r of
       Some (ip, off) \<Rightarrow>
         seqM (iunlockput dp)
        (seqM (ilock (Some ip))
        (bindM (gets (\<lambda>s. i_type (icache s ! ip))) (\<lambda>ty.
         if type = T_FILE \<and> ty = T_FILE then ret (Some ip)
         else seqM (iunlockput ip) (ret None))))
     | None \<Rightarrow> create_new dp name type major minor)))"

definition open_file :: "nat \<Rightarrow> int \<Rightarrow> int M" where
  "open_file ip omode =
     bindM filealloc (\<lambda>fo.
     bindM (case fo of None \<Rightarrow> ret (- 1) | Some f \<Rightarrow> fdalloc f) (\<lambda>fd.
     case fo of
       Some f \<Rightarrow>
         if fd < 0 then seqM (fileclose f) (seqM (iunlockput ip) (seqM end_op (ret (- 1))))
         else
           seqM (iunlock (Some ip))
          (seqM end_op
          (seqM (modify (upd_file f (\<lambda>x. x\<lparr>f_type := FD_INODE, f_ip := Some ip, f_off := 0,
             f_readable := \<not> has_flag omode O_WRONLY,
             f_writable := has_flag omode O_WRONLY \<or> has_flag omode O_RDWR\<rparr>)))
          (ret fd)))
     | None \<Rightarrow> seqM (iunlockput ip) (seqM end_op (ret (- 1)))))"

definition sys_open :: "int M" where
  "sys_open =
     bindM (argstr 0) (\<lambda>r. case r of None \<Rightarrow> ret (- 1) | Some path \<Rightarrow>
     bindM (argint 1) (\<lambda>r. case r of None \<Rightarrow> ret (- 1) | Some w \<Rightarrow>
     let omode = sint w in
     seqM begin_op
    (if has_flag omode O_CREATE then
       bindM (create path T_FILE 0 0) (\<lambda>ipo.
       case ipo of None \<Rightarrow> seqM end_op (ret (- 1)) | Some ip \<Rightarrow> open_file ip omode)
     else
       bindM (namei path) (\<lambda>ipo.
       case ipo of None \<Rightarrow> seqM end_op (ret (- 1)) | Some ip \<Rightarrow>
       seqM (ilock ipo)
      (bindM (gets (\<lambda>s. i_type (icache s ! ip))) (\<lambda>ty.
       if ty = T_DIR \<and> omode \<noteq> O_RDONLY then seqM (iunlockput ip) (seqM end_op (ret (- 1)))
       else open_file ip omode))))))"

definition made :: "nat option \<Rightarrow> int M" where
  "made ipo = (case ipo of None \<Rightarrow> seqM end_op (ret (- 1))
     | Some ip \<Rightarrow> seqM (iunlockput ip) (seqM end_op (ret 0)))"

definition sys_mkdir :: "int M" where
  "sys_mkdir =
     seqM begin_op
    (bindM (argstr 0) (\<lambda>r.
     bindM (case r of None \<Rightarrow> ret None | Some path \<Rightarrow> create path T_DIR 0 0) made))"

definition sys_mknod :: "int M" where
  "sys_mknod =
     seqM begin_op
    (bindM (argstr 0) (\<lambda>r. case r of None \<Rightarrow> made None | Some path \<Rightarrow>
     bindM (argint 1) (\<lambda>r. case r of None \<Rightarrow> made None | Some major \<Rightarrow>
     bindM (argint 2) (\<lambda>r. case r of None \<Rightarrow> made None | Some minor \<Rightarrow>
     bindM (create path T_DEV (ucast major) (ucast minor)) made))))"

definition sys_chdir :: "int M" where
  "sys_chdir =
     bindM curproc (\<lambda>p.
     seqM begin_op
    (bindM (argstr 0) (\<lambda>r.
     bindM (case r of None \<Rightarrow> ret None | Some path \<Rightarrow> namei path) (\<lambda>ipo.
     case ipo of None \<Rightarrow> seqM end_op (ret (- 1)) | Some ip \<Rightarrow>
     seqM (ilock ipo)
    (bindM (gets (\<lambda>s. i_type (icache s ! ip))) (\<lambda>ty.
     if ty \<noteq> T_DIR then seqM (iunlockput ip) (seqM end_op (ret (- 1))) else
     seqM (iunlock ipo)
    (bindM (gets (\<lambda>s. p_cwd (ptable s ! p))) (\<lambda>cwd.
     bindM (deref cwd) (\<lambda>c.
     seqM (iput c)
    (seqM end_op
    (seqM (modify (upd_proc p (\<lambda>q. q\<lparr>p_cwd := Some ip\<rparr>)))
    (ret 0))))))))))))"

text \<open>The argument vector from \<open>uargv\<close> on, with \<open>n\<close> places left; None is the result -1.\<close>

fun exec_argv :: "nat \<Rightarrow> uint \<Rightarrow> byte list list option M" where
  "exec_argv 0 uargv = ret None"
| "exec_argv (Suc n) uargv =
     bindM (fetchint uargv) (\<lambda>r. case r of None \<Rightarrow> ret None | Some uarg \<Rightarrow>
     if uarg = 0 then ret (Some []) else
     bindM (fetchstr uarg) (\<lambda>r. case r of None \<Rightarrow> ret None | Some arg \<Rightarrow>
     bindM (exec_argv n (uargv + 4)) (\<lambda>rest. ret (map_option ((#) arg) rest))))"

definition sys_exec :: "int M" where
  "sys_exec =
     bindM (argstr 0) (\<lambda>r. case r of None \<Rightarrow> ret (- 1) | Some path \<Rightarrow>
     bindM (argint 1) (\<lambda>r. case r of None \<Rightarrow> ret (- 1) | Some uargv \<Rightarrow>
     bindM (exec_argv MAXARG uargv) (\<lambda>r. case r of None \<Rightarrow> ret (- 1) | Some argv \<Rightarrow>
     exec path argv)))"

definition sys_pipe :: "int M" where
  "sys_pipe =
     bindM (argptr 0 8) (\<lambda>r. case r of None \<Rightarrow> ret (- 1) | Some a \<Rightarrow>
     bindM pipealloc (\<lambda>r. case r of None \<Rightarrow> ret (- 1) | Some (rf, wrf) \<Rightarrow>
     bindM (fdalloc rf) (\<lambda>fd0.
     bindM (if fd0 < 0 then ret (- 1) else fdalloc wrf) (\<lambda>fd1.
     if fd0 < 0 \<or> fd1 < 0 then
       seqM (whenM (fd0 \<ge> 0) (bindM curproc (\<lambda>p.
              modify (upd_proc p (\<lambda>q. q\<lparr>p_ofile := (p_ofile q)[nat fd0 := None]\<rparr>)))))
      (seqM (fileclose rf)
      (seqM (fileclose wrf)
      (ret (- 1))))
     else
       seqM (uwrite a (bytes32 (word_of_int fd0)))
      (seqM (uwrite (a + 4) (bytes32 (word_of_int fd1)))
      (ret 0))))))"

end
