(* ===== verification/Kbd.thy ===== *)
theory Kbd
  imports Console
begin

text \<open>
  The keyboard driver (kbd.c, with the tables of kbd.h).  A table is a list of 256 entries, given
  by its first entries and the designated ones.  The ports of the controller are the input: the
  scan codes that are in its buffer when the interrupt arrives.
\<close>

section \<open>The tables\<close>

definition table :: "byte list \<Rightarrow> (nat \<times> byte) list \<Rightarrow> byte list" where
  "table xs ds = fold (\<lambda>(i, v) t. t[i := v]) ds (xs @ replicate (256 - length xs) 0)"

abbreviation (input) "SHIFT \<equiv> 1 :: byte"
abbreviation (input) "CTL \<equiv> 2 :: byte"
abbreviation (input) "ALT \<equiv> 4 :: byte"
abbreviation (input) "CAPSLOCK \<equiv> 8 :: byte"
abbreviation (input) "NUMLOCK \<equiv> 16 :: byte"
abbreviation (input) "SCROLLLOCK \<equiv> 32 :: byte"
abbreviation (input) "E0ESC \<equiv> 64 :: uint"

definition shiftcode :: "byte list" where
  "shiftcode = table [] [(0x1D, CTL), (0x2A, SHIFT), (0x36, SHIFT), (0x38, ALT), (0x9D, CTL), (0xB8, ALT)]"

definition togglecode :: "byte list" where
  "togglecode = table [] [(0x3A, CAPSLOCK), (0x45, NUMLOCK), (0x46, SCROLLLOCK)]"

text \<open>The keys with a code of their own: arrows, page up and down, home, end, insert, delete.\<close>

definition special_keys :: "(nat \<times> byte) list" where
  "special_keys = [(0xC8, 0xE2), (0xD0, 0xE3), (0xC9, 0xE6), (0xD1, 0xE7), (0xCB, 0xE4), (0xCD, 0xE5),
     (0x97, 0xE0), (0xCF, 0xE1), (0xD2, 0xE8), (0xD3, 0xE9)]"

definition normalmap :: "byte list" where
  "normalmap = table
     [0, 27, 49, 50, 51, 52, 53, 54, 55, 56, 57, 48, 45, 61, 8, 9,
      113, 119, 101, 114, 116, 121, 117, 105, 111, 112, 91, 93, 10, 0, 97, 115,
      100, 102, 103, 104, 106, 107, 108, 59, 39, 96, 0, 92, 122, 120, 99, 118,
      98, 110, 109, 44, 46, 47, 0, 42, 0, 32, 0, 0, 0, 0, 0, 0,
      0, 0, 0, 0, 0, 0, 0, 55, 56, 57, 45, 52, 53, 54, 43, 49,
      50, 51, 48, 46, 0, 0, 0, 0]
     ([(0x9C, 10), (0xB5, 47)] @ special_keys)"

definition shiftmap :: "byte list" where
  "shiftmap = table
     [0, 27, 33, 64, 35, 36, 37, 94, 38, 42, 40, 41, 95, 43, 8, 9,
      81, 87, 69, 82, 84, 89, 85, 73, 79, 80, 123, 125, 10, 0, 65, 83,
      68, 70, 71, 72, 74, 75, 76, 58, 34, 126, 0, 124, 90, 88, 67, 86,
      66, 78, 77, 60, 62, 63, 0, 42, 0, 32, 0, 0, 0, 0, 0, 0,
      0, 0, 0, 0, 0, 0, 0, 55, 56, 57, 45, 52, 53, 54, 43, 49,
      50, 51, 48, 46, 0, 0, 0, 0]
     ([(0x9C, 10), (0xB5, 47)] @ special_keys)"

definition ctlmap :: "byte list" where
  "ctlmap = table
     [0, 0, 0, 0, 0, 0, 0, 0, 0, 0, 0, 0, 0, 0, 0, 0,
      17, 23, 5, 18, 20, 25, 21, 9, 15, 16, 0, 0, 13, 0, 1, 19,
      4, 6, 7, 8, 10, 11, 12, 0, 0, 0, 0, 28, 26, 24, 3, 22,
      2, 14, 13, 0, 0, 239, 0, 0]
     ([(0x9C, 13), (0xB5, 239)] @ special_keys)"

section \<open>Reading a key\<close>

definition charcode :: "uint \<Rightarrow> byte list" where
  "charcode i = [normalmap, shiftmap, ctlmap, ctlmap] ! unat i"

text \<open>One call of kbdgetc with a scan code in the buffer: the new shift state and the character.\<close>

definition kbd_code :: "uint \<Rightarrow> byte \<Rightarrow> uint \<times> int" where
  "kbd_code shift data =
     (if data = 0xE0 then (shift OR E0ESC, 0)
      else if data AND 0x80 \<noteq> 0 then
        let data = (if shift AND E0ESC \<noteq> 0 then data else data AND 0x7F) in
        (shift AND NOT (ucast (shiftcode ! unat data) OR E0ESC), 0)
      else
        let (data, shift) = (if shift AND E0ESC \<noteq> 0 then (data OR 0x80, shift AND NOT E0ESC) else (data, shift));
            shift = (shift OR ucast (shiftcode ! unat data)) XOR ucast (togglecode ! unat data);
            c = uint (charcode (shift AND 3) ! unat data)
        in (shift,
            if shift AND 8 \<noteq> 0 then
              (if 97 \<le> c \<and> c \<le> 122 then c + 65 - 97 else if 65 \<le> c \<and> c \<le> 90 then c + 97 - 65 else c)
            else c))"

text \<open>What kbdgetc delivers for a sequence of scan codes, before it returns -1 for an empty buffer.\<close>

fun kbd_codes :: "uint \<Rightarrow> byte list \<Rightarrow> uint \<times> int list" where
  "kbd_codes shift [] = (shift, [])"
| "kbd_codes shift (d # ds) =
     (let (shift1, c) = kbd_code shift d; (shift2, cs) = kbd_codes shift1 ds in (shift2, c # cs))"

definition kbdintr :: "(nat \<Rightarrow> uint list) \<Rightarrow> byte list \<Rightarrow> unit M" where
  "kbdintr pcs scancodes =
     bindM (gets kbd_shift) (\<lambda>shift.
     let (shift1, cs) = kbd_codes shift scancodes in
     seqM (modify (\<lambda>s. s\<lparr>kbd_shift := shift1\<rparr>))
     (consoleintr pcs cs))"

text \<open>The serial port delivers bytes as they are.\<close>

definition uartintr :: "(nat \<Rightarrow> uint list) \<Rightarrow> byte list \<Rightarrow> unit M" where
  "uartintr pcs bs = consoleintr pcs (map uint bs)"

end
