(* ===== verification/Trap.thy ===== *)
theory Trap
  imports Sysfile Kbd
begin

text \<open>
  The process system calls (sysproc.c), the dispatch of system calls (syscall.c) and the trap
  handler (trap.c).  \<open>event\<close> is what the hardware supplies with a trap: the number of the CPU, the
  faulting address in cr2, and the input waiting in the keyboard controller and the serial port.
  The return addresses that procdump prints are a parameter, as in \<open>consoleintr\<close>.
\<close>

section \<open>Process system calls\<close>

definition sys_fork :: "int M" where
  "sys_fork = fork"

definition sys_exit :: "int M" where
  "sys_exit = seqM kexit (ret 0)"

definition sys_wait :: "int M" where
  "sys_wait = wait"

definition sys_kill :: "int M" where
  "sys_kill = bindM (argint 0) (\<lambda>r. case r of None \<Rightarrow> ret (- 1) | Some pid \<Rightarrow> kill (sint pid))"

definition sys_getpid :: "int M" where
  "sys_getpid = bindM curproc (\<lambda>p. gets (\<lambda>s. p_pid (ptable s ! p)))"

definition sys_sbrk :: "int M" where
  "sys_sbrk =
     bindM (argint 0) (\<lambda>r. case r of None \<Rightarrow> ret (- 1) | Some n \<Rightarrow>
     bindM curproc (\<lambda>p.
     bindM (gets (\<lambda>s. sint (p_sz (ptable s ! p)))) (\<lambda>addr.
     bindM (growproc (sint n)) (\<lambda>g.
     ret (if g < 0 then - 1 else addr)))))"

text \<open>The comparison in the loop of sys_sleep is one of unsigned numbers.\<close>

definition sys_sleep :: "int M" where
  "sys_sleep =
     bindM (argint 0) (\<lambda>r. case r of None \<Rightarrow> ret (- 1) | Some n \<Rightarrow>
     seqM (acquire TicksLock)
    (bindM (gets ticks) (\<lambda>ticks0.
     bindM (gets ticks) (\<lambda>t.
     if t - ticks0 < n then
       bindM curproc_killed (\<lambda>k.
       if k then seqM (release TicksLock) (ret (- 1))
       else seqM (sleep ChanTicks (Some TicksLock)) (fault ''sleep returned''))
     else seqM (release TicksLock) (ret 0)))))"

definition sys_uptime :: "int M" where
  "sys_uptime =
     seqM (acquire TicksLock)
    (bindM (gets ticks) (\<lambda>xticks.
     seqM (release TicksLock)
    (ret (sint xticks))))"

section \<open>Dispatch\<close>

definition syscalls :: "int \<Rightarrow> int M option" where
  "syscalls num =
     map_of [(1, sys_fork), (2, sys_exit), (3, sys_wait), (4, sys_pipe), (5, sys_read), (6, sys_kill),
       (7, sys_exec), (8, sys_fstat), (9, sys_chdir), (10, sys_dup), (11, sys_getpid), (12, sys_sbrk),
       (13, sys_sleep), (14, sys_uptime), (15, sys_open), (16, sys_write), (17, sys_mknod), (18, sys_unlink),
       (19, sys_link), (20, sys_mkdir), (21, sys_close), (22, sys_mmap), (23, sys_munmap)] num"

definition set_eax :: "nat \<Rightarrow> int \<Rightarrow> unit M" where
  "set_eax p r = modify (upd_proc p (\<lambda>q. q\<lparr>p_tf := (p_tf q)\<lparr>tf_eax := word_of_int r\<rparr>\<rparr>))"

definition syscall :: "unit M" where
  "syscall =
     bindM curproc (\<lambda>p.
     bindM (gets (\<lambda>s. ptable s ! p)) (\<lambda>q.
     case syscalls (sint (tf_eax (p_tf q))) of
       Some call \<Rightarrow> bindM call (set_eax p)
     | None \<Rightarrow>
         seqM (cprintf ''%d %s: unknown sys call %d\<newline>''
           [CInt (word_of_int (p_pid q)), CStr (Some (takeWhile (\<lambda>b. b \<noteq> 0) (p_name q))), CInt (tf_eax (p_tf q))])
        (set_eax p (- 1))))"

section \<open>Traps\<close>

record event =
  ev_cpu :: nat
  ev_cr2 :: uint
  ev_kbd :: "byte list"
  ev_uart :: "byte list"

definition exit_if_killed :: "trapframe \<Rightarrow> unit M" where
  "exit_if_killed tf =
     bindM (gets (\<lambda>s. (case cur s of None \<Rightarrow> False | Some p \<Rightarrow> p_killed (ptable s ! p)) \<and> tf_cs tf AND 3 = 3)) (\<lambda>b.
     whenM b kexit)"

definition trap_syscall :: "trapframe \<Rightarrow> unit M" where
  "trap_syscall tf =
     bindM curproc_killed (\<lambda>k.
     seqM (whenM k kexit)
    (bindM curproc (\<lambda>p.
     seqM (modify (upd_proc p (\<lambda>q. q\<lparr>p_tf := tf\<rparr>)))
    (seqM syscall
    (bindM curproc_killed (\<lambda>k.
     whenM k kexit))))))"

definition timer_tick :: "nat \<Rightarrow> unit M" where
  "timer_tick cpu =
     whenM (cpu = 0)
      (seqM (acquire TicksLock)
      (seqM (modify (\<lambda>s. s\<lparr>ticks := ticks s + 1\<rparr>))
      (seqM (wakeup ChanTicks)
      (release TicksLock))))"

definition unexpected_trap :: "event \<Rightarrow> trapframe \<Rightarrow> unit M" where
  "unexpected_trap ev tf =
     bindM (gets cur) (\<lambda>po.
     if po = None \<or> tf_cs tf AND 3 = 0 then
       seqM (cprintf ''unexpected trap %d from cpu %d eip %x (cr2=0x%x)\<newline>''
         [CInt (tf_trapno tf), CInt (of_nat (ev_cpu ev)), CInt (tf_eip tf), CInt (ev_cr2 ev)])
      (panic ''trap'')
     else
       bindM (deref po) (\<lambda>p.
       bindM (gets (\<lambda>s. ptable s ! p)) (\<lambda>q.
       seqM (cprintf ''pid %d %s: trap %d err %d on cpu %d eip 0x%x addr 0x%x--kill proc\<newline>''
         [CInt (word_of_int (p_pid q)), CStr (Some (takeWhile (\<lambda>b. b \<noteq> 0) (p_name q))), CInt (tf_trapno tf),
          CInt (tf_err tf), CInt (of_nat (ev_cpu ev)), CInt (tf_eip tf), CInt (ev_cr2 ev)])
      (modify (upd_proc p (\<lambda>q. q\<lparr>p_killed := True\<rparr>))))))"

text \<open>ideintr of the memory disk does nothing; lapiceoi only acknowledges the interrupt.\<close>

definition trap_irq :: "(nat \<Rightarrow> uint list) \<Rightarrow> event \<Rightarrow> trapframe \<Rightarrow> unit M" where
  "trap_irq pcs ev tf =
     (if tf_trapno tf = 32 then timer_tick (ev_cpu ev)
      else if tf_trapno tf = 46 then ret ()
      else if tf_trapno tf = 47 then ret ()
      else if tf_trapno tf = 33 then kbdintr pcs (ev_kbd ev)
      else if tf_trapno tf = 36 then uartintr pcs (ev_uart ev)
      else if tf_trapno tf = 14 then page_fault (ev_cr2 ev)
      else if tf_trapno tf = 39 \<or> tf_trapno tf = 63 then
        cprintf ''cpu%d: spurious interrupt at %x:%x\<newline>''
          [CInt (of_nat (ev_cpu ev)), CInt (ucast (tf_cs tf)), CInt (tf_eip tf)]
      else unexpected_trap ev tf)"

definition trap :: "(nat \<Rightarrow> uint list) \<Rightarrow> event \<Rightarrow> trapframe \<Rightarrow> unit M" where
  "trap pcs ev tf =
     (if tf_trapno tf = 64 then trap_syscall tf else
      seqM (trap_irq pcs ev tf)
     (seqM (exit_if_killed tf)
     (bindM (gets (\<lambda>s. case cur s of None \<Rightarrow> False | Some p \<Rightarrow> p_state (ptable s ! p) = RUNNING)) (\<lambda>running.
      seqM (whenM (running \<and> tf_trapno tf = 32) yield)
      (exit_if_killed tf)))))"

end
