(* ===== verification/Locks.thy ===== *)
theory Locks
  imports Trap
begin

text \<open>
  Lock discipline, for the whole kernel.  \<open>locks hs m hs'\<close> says that the routine \<open>m\<close>, entered with
  the spin locks \<open>hs\<close> held, can return only with \<open>hs'\<close> held, and that where it gives up the CPU
  the process table lock is the only lock held, which is what scheduler needs.  The rules follow
  the way routines are composed, so the proof for a routine is its text.
\<close>

named_theorems locks_rule

definition locks_res :: "lock list \<Rightarrow> 'a M \<Rightarrow> ('a \<Rightarrow> lock list) \<Rightarrow> bool" where
  "locks_res hs m f \<longleftrightarrow> (\<forall>s. held s = hs \<longrightarrow>
     (case m s of Ok x t \<Rightarrow> held t = f x | Sched t \<Rightarrow> held t = [PtableLock] | _ \<Rightarrow> True))"

definition locks :: "lock list \<Rightarrow> 'a M \<Rightarrow> lock list \<Rightarrow> bool" where
  "locks hs m hs' \<longleftrightarrow> locks_res hs m (\<lambda>_. hs')"

lemma locks_iff:
  "locks hs m hs' \<longleftrightarrow> (\<forall>s. held s = hs \<longrightarrow>
     (case m s of Ok x t \<Rightarrow> held t = hs' | Sched t \<Rightarrow> held t = [PtableLock] | _ \<Rightarrow> True))"
  by (simp add: locks_def locks_res_def)

section \<open>Composition\<close>

lemma locks_res_ret: "f x = hs \<Longrightarrow> locks_res hs (ret x) f"
  by (simp add: locks_res_def ret_def)

lemma locks_res_fault: "locks_res hs (fault e) f"
  by (simp add: locks_res_def fault_def)

lemma bind_res:
  assumes "locks_res hs m f" "\<And>x. locks_res (f x) (k x) g"
  shows "locks_res hs (bindM m k) g"
proof -
  have "case bindM m k s of Ok x t \<Rightarrow> held t = g x | Sched t \<Rightarrow> held t = [PtableLock] | _ \<Rightarrow> True" if "held s = hs" for s
  proof (cases "m s")
    case (Ok x t)
    then have "held t = f x" using assms(1) that by (auto simp: locks_res_def)
    then show ?thesis using assms(2) [of x] Ok by (auto simp: locks_res_def bindM_def)
  next
    case (Sched t)
    then show ?thesis using assms(1) that by (auto simp: locks_res_def bindM_def)
  qed (simp_all add: bindM_def)
  then show ?thesis by (simp add: locks_res_def)
qed

lemma locks_ret [locks_rule]: "locks hs (ret x) hs"
  by (simp add: locks_iff ret_def)

lemma locks_gets [locks_rule]: "locks hs (gets f) hs"
  by (simp add: locks_iff gets_def)

lemma locks_panic [locks_rule]: "locks hs (panic e) hs'"
  by (simp add: locks_iff panic_def)

lemma locks_fault [locks_rule]: "locks hs (fault e) hs'"
  by (simp add: locks_iff fault_def)

lemma locks_modify [locks_rule]: "(\<And>s. held (f s) = held s) \<Longrightarrow> locks hs (modify f) hs"
  by (simp add: locks_iff modify_def)

lemma locks_bindM [locks_rule]:
  "locks hs m hs1 \<Longrightarrow> (\<And>x. locks hs1 (k x) hs') \<Longrightarrow> locks hs (bindM m k) hs'"
  unfolding locks_def by (rule bind_res)

lemma locks_seqM [locks_rule]: "locks hs m hs1 \<Longrightarrow> locks hs1 k hs' \<Longrightarrow> locks hs (seqM m k) hs'"
  by (simp add: seqM_def locks_bindM)

lemma locks_whenM [locks_rule]: "locks hs m hs \<Longrightarrow> locks hs (whenM b m) hs"
  by (simp add: whenM_def locks_ret)

lemma locks_if [locks_rule]:
  "locks hs m hs' \<Longrightarrow> locks hs k hs' \<Longrightarrow> locks hs (if b then m else k) hs'"
  by simp

lemma locks_Let [locks_rule]: "locks hs (f x) hs' \<Longrightarrow> locks hs (Let x f) hs'"
  by simp

lemma locks_option [locks_rule]:
  "locks hs m hs' \<Longrightarrow> (\<And>x. locks hs (f x) hs') \<Longrightarrow> locks hs (case p of None \<Rightarrow> m | Some x \<Rightarrow> f x) hs'"
  by (cases p) simp_all

lemma locks_prod [locks_rule]: "(\<And>x y. locks hs (f x y) hs') \<Longrightarrow> locks hs (case p of (x, y) \<Rightarrow> f x y) hs'"
  by (cases p) simp

lemma locks_sum [locks_rule]:
  "(\<And>x. locks hs (f x) hs') \<Longrightarrow> (\<And>x. locks hs (g x) hs') \<Longrightarrow> locks hs (case p of Inl x \<Rightarrow> f x | Inr x \<Rightarrow> g x) hs'"
  by (cases p) simp_all

lemma locks_list [locks_rule]:
  "locks hs m hs' \<Longrightarrow> (\<And>x xs. locks hs (f x xs) hs') \<Longrightarrow> locks hs (case p of [] \<Rightarrow> m | x # xs \<Rightarrow> f x xs) hs'"
  by (cases p) simp_all

lemma locks_foreach [locks_rule]: "(\<And>i. locks hs (f i) hs) \<Longrightarrow> locks hs (foreach is f) hs"
  by (induction "is") (simp add: locks_ret, simp, rule locks_seqM)

lemma locks_deref [locks_rule]: "locks hs (deref p) hs"
  unfolding deref_def by (rule locks_rule)+

lemma locks_curproc [locks_rule]: "locks hs curproc hs"
  unfolding curproc_def by (rule locks_rule)+

lemma held_upd [simp]:
  "held (upd_proc i f1 s) = held s" "held (upd_buf i f2 s) = held s"
  "held (upd_inode i f3 s) = held s" "held (upd_file i f4 s) = held s"
  "held (upd_pipe q f5 s) = held s" "held (upd_log f6 s) = held s" "held (upd_input f7 s) = held s"
  "held (upd_md p i f8 s) = held s"
  by (simp_all add: upd_proc_def upd_buf_def upd_inode_def upd_file_def upd_pipe_def upd_log_def upd_input_def
      upd_md_def)

lemma held_set_slock [simp]: "held (set_slock lk l s) = held s"
  by (cases lk) (simp_all add: set_slock_def)

section \<open>Locks and the scheduler\<close>

lemma locks_acquire [locks_rule]: "locks hs (acquire lk) (lk # hs)"
  by (auto simp: locks_iff acquire_def holding_def monad_defs)

lemma locks_release [locks_rule]: "locks (lk # hs) (release lk) hs"
  by (auto simp: locks_iff release_def holding_def monad_defs)

lemma locks_sched [locks_rule]: "locks hs sched hs'"
proof -
  have h: "PtableLock \<in> set hs \<Longrightarrow> length hs = 1 \<Longrightarrow> hs = [PtableLock]" for hs :: "lock list"
    by (cases hs) auto
  have "case sched s of Ok x t \<Rightarrow> held t = hs' | Sched t \<Rightarrow> held t = [PtableLock] | _ \<Rightarrow> True" for s
    by (cases "cur s") (simp_all add: sched_def holding_def monad_defs h)
  then show ?thesis by (simp add: locks_iff)
qed

lemma locks_release_any: "locks hs (release l) (remove1 l hs)"
  by (simp add: locks_iff release_def holding_def monad_defs)

lemma locks_sleep_entry:
  "locks hs (whenM (l \<noteq> PtableLock) (seqM (acquire PtableLock) (release l)))
     (if l = PtableLock then hs else remove1 l (PtableLock # hs))"
  by (cases "l = PtableLock")
    (simp_all only: whenM_def simp_thms not_True_eq_False not_False_eq_True if_True if_False locks_ret
      locks_seqM [OF locks_acquire locks_release_any])

lemma locks_sleep [locks_rule]: "locks hs (sleep c lk) hs'"
  unfolding sleep_def
  by (rule locks_bindM, rule locks_gets, rule locks_option, rule locks_panic, rule locks_option, rule locks_panic,
      rule locks_seqM, rule locks_sleep_entry, rule locks_seqM, rule locks_modify, simp, rule locks_sched)

section \<open>Sleep locks and wakeup\<close>

lemma locks_wakeup1 [locks_rule]: "locks hs (wakeup1 c) hs"
  unfolding wakeup1_def by (rule locks_rule | simp)+

lemma locks_wakeup [locks_rule]: "locks hs (wakeup c) hs"
  unfolding wakeup_def by (rule locks_rule | simp)+

lemma locks_yield [locks_rule]: "locks hs (yield) hs"
  unfolding yield_def by (rule locks_rule | simp)+

lemma locks_initsleeplock [locks_rule]: "locks hs (initsleeplock lk) hs"
  unfolding initsleeplock_def by (rule locks_rule | simp)+

lemma locks_acquiresleep [locks_rule]: "locks hs (acquiresleep lk) hs"
  unfolding acquiresleep_def by (rule locks_rule | simp)+

lemma locks_releasesleep [locks_rule]: "locks hs (releasesleep lk) hs"
  unfolding releasesleep_def by (rule locks_rule | simp)+

lemma locks_holdingsleep [locks_rule]: "locks hs (holdingsleep lk) hs"
  unfolding holdingsleep_def by (rule locks_rule | simp)+

section \<open>Console output and memory\<close>

lemma locks_crt_put [locks_rule]: "locks hs (crt_put i v) hs"
  unfolding crt_put_def by (rule locks_rule | simp)+

lemma locks_cga_place [locks_rule]: "locks hs (cga_place pos) hs"
  unfolding cga_place_def by (rule locks_rule | simp)+

lemma locks_cgaputc [locks_rule]: "locks hs (cgaputc c) hs"
  unfolding cgaputc_def by (rule locks_rule | simp)+

lemma locks_uartputc [locks_rule]: "locks hs (uartputc c) hs"
  unfolding uartputc_def by (rule locks_rule | simp)+

lemma locks_consputc [locks_rule]: "locks hs (consputc c) hs"
  unfolding consputc_def by (rule locks_rule | simp)+

lemma locks_printint [locks_rule]: "locks hs (printint x b g) hs"
  unfolding printint_def by (rule locks_rule | simp)+

lemma locks_carg [locks_rule]:
  "(\<And>x. locks hs (f x) hs') \<Longrightarrow> (\<And>x. locks hs (g x) hs') \<Longrightarrow> locks hs (case a of CInt x \<Rightarrow> f x | CStr x \<Rightarrow> g x) hs'"
  by (cases a) simp_all

lemma locks_cprintf_loop [locks_rule]: "locks hs (cprintf_loop cs args) hs"
proof (induction "length cs" arbitrary: cs args rule: less_induct)
  case less
  show ?case
  proof (cases cs)
    case Nil
    then show ?thesis by (simp add: locks_ret)
  next
    case (Cons c ds)
    have short: "locks hs (cprintf_loop ds args) hs" for args
      by (rule less) (simp add: Cons)
    show ?thesis
    proof (cases ds)
      case Nil
      show ?thesis using short unfolding Cons Nil cprintf_loop.simps list.case
        by (intro locks_if locks_seqM [OF locks_consputc] locks_ret)
    next
      case (Cons d es)
      have shorter: "locks hs (cprintf_loop es args) hs" for args
        by (rule less) (simp add: \<open>cs = c # ds\<close> Cons)
      show ?thesis unfolding \<open>cs = c # ds\<close> Cons cprintf_loop.simps(2) [of c] list.case
        by (rule locks_rule short [unfolded Cons] shorter)+
    qed
  qed
qed

lemma locks_cprintf [locks_rule]: "locks hs (cprintf fmt args) hs"
proof -
  have "locks hs (seqM (whenM b (acquire ConsLock)) (seqM (cprintf_loop (str fmt) args) (whenM b (release ConsLock)))) hs" for b
    by (cases b) (simp_all only: whenM_def if_True if_False, (rule locks_rule)+)
  then show ?thesis unfolding cprintf_def using locks_gets by (rule locks_bindM [rotated])
qed

lemma locks_cong: "(\<And>s. \<exists>k. locks hs k hs' \<and> m s = k s) \<Longrightarrow> locks hs m hs'"
proof -
  assume a: "\<And>s. \<exists>k. locks hs k hs' \<and> m s = k s"
  show ?thesis
    unfolding locks_iff
  proof (intro allI impI)
    fix s :: kernel assume "held s = hs"
    moreover obtain k where "locks hs k hs'" "m s = k s" using a by blast
    ultimately show "case m s of Ok x t \<Rightarrow> held t = hs' | Sched t \<Rightarrow> held t = [PtableLock] | _ \<Rightarrow> True"
      by (simp add: locks_iff)
  qed
qed

lemma locks_guarded:
  assumes "locks (lk # hs) m (lk # hs)" "locks hs m hs"
  shows "locks hs (seqM (whenM b (acquire lk)) (seqM m (whenM b (release lk)))) hs"
  by (cases b) (simp_all only: whenM_def if_True if_False, (rule locks_rule assms)+)

lemma locks_kfree [locks_rule]: "locks hs (kfree v) hs"
proof (rule locks_cong)
  fix s :: kernel
  let ?k = "seqM (modify (\<lambda>s. s\<lparr>kmem := memset (kmem s) v 1 PGSIZE\<rparr>))
     (seqM (whenM (use_lock s) (acquire KmemLock))
     (seqM (modify (\<lambda>s. s\<lparr>kmem := store32 (kmem s) v (freelist s), freelist := v\<rparr>))
     (whenM (use_lock s) (release KmemLock))))"
  have "locks hs ?k hs" by (rule locks_rule locks_guarded | simp)+
  then show "\<exists>k. locks hs k hs \<and> kfree v s = k s"
    using locks_panic [of hs "''kfree''" hs] by (auto simp: kfree_def panic_def)
qed

lemma locks_kalloc [locks_rule]: "locks hs kalloc hs"
proof (rule locks_cong)
  fix s :: kernel
  let ?k = "seqM (whenM (use_lock s) (acquire KmemLock))
    (bindM (gets freelist) (\<lambda>r.
     seqM (whenM (r \<noteq> 0) (modify (\<lambda>s. s\<lparr>freelist := load32 (kmem s) r\<rparr>)))
    (seqM (whenM (use_lock s) (release KmemLock))
    (ret r))))"
  have "locks hs ?k hs"
    by (cases "use_lock s") (simp_all only: whenM_def if_True if_False, (rule locks_rule | simp)+)
  then show "\<exists>k. locks hs k hs \<and> kalloc s = k s" by (auto simp: kalloc_def)
qed

lemma locks_walkpgdir [locks_rule]: "locks hs (walkpgdir d va al) hs"
  unfolding walkpgdir_def by (rule locks_rule | simp)+

lemma locks_mappages_loop [locks_rule]: "locks hs (mappages_loop fuel d a final pa perm) hs"
proof (induction fuel arbitrary: a pa)
  case 0
  show ?case unfolding mappages_loop.simps by (rule locks_rule)+
next
  case (Suc k)
  show ?case unfolding mappages_loop.simps by (rule locks_rule Suc | simp)+
qed

lemma locks_mappages [locks_rule]: "locks hs (mappages d va sz pa perm) hs"
  unfolding mappages_def by (rule locks_rule | simp)+

lemma locks_deallocuvm_loop [locks_rule]: "locks hs (deallocuvm_loop fuel d a oldsz) hs"
proof (induction fuel arbitrary: a)
  case 0
  show ?case unfolding deallocuvm_loop.simps by (rule locks_rule)+
next
  case (Suc k)
  show ?case unfolding deallocuvm_loop.simps by (rule locks_rule Suc | simp)+
qed

lemma locks_deallocuvm [locks_rule]: "locks hs (deallocuvm d old new) hs"
  unfolding deallocuvm_def by (rule locks_rule | simp)+

lemma locks_freevm [locks_rule]: "locks hs (freevm d) hs"
  unfolding freevm_def by (rule locks_rule | simp)+

lemma locks_setupkvm_loop [locks_rule]: "locks hs (setupkvm_loop ks d) hs"
proof (induction ks)
  case Nil
  show ?case unfolding setupkvm_loop.simps by (rule locks_rule)+
next
  case (Cons y ys)
  show ?case by (cases y) (simp only: setupkvm_loop.simps, (rule locks_rule Cons)+)
qed

lemma locks_setupkvm [locks_rule]: "locks hs (setupkvm) hs"
  unfolding setupkvm_def by (rule locks_rule | simp)+

lemma locks_switchkvm [locks_rule]: "locks hs (switchkvm) hs"
  unfolding switchkvm_def by (rule locks_rule | simp)+

lemma locks_kvmalloc [locks_rule]: "locks hs (kvmalloc) hs"
  unfolding kvmalloc_def by (rule locks_rule | simp)+

lemma locks_switchuvm [locks_rule]: "locks hs (switchuvm p) hs"
  unfolding switchuvm_def by (rule locks_rule | simp)+

lemma locks_inituvm [locks_rule]: "locks hs (inituvm d init) hs"
  unfolding inituvm_def by (rule locks_rule | simp)+

lemma locks_allocuvm_loop [locks_rule]: "locks hs (allocuvm_loop fuel d a old new) hs"
proof (induction fuel arbitrary: a)
  case 0
  show ?case unfolding allocuvm_loop.simps by (rule locks_rule)+
next
  case (Suc k)
  show ?case unfolding allocuvm_loop.simps by (rule locks_rule Suc | simp)+
qed

lemma locks_allocuvm [locks_rule]: "locks hs (allocuvm d old new) hs"
  unfolding allocuvm_def by (rule locks_rule | simp)+

lemma locks_clearpteu [locks_rule]: "locks hs (clearpteu d va) hs"
  unfolding clearpteu_def by (rule locks_rule | simp)+

lemma locks_copyuvm_loop [locks_rule]: "locks hs (copyuvm_loop fuel d d2 i sz) hs"
proof (induction fuel arbitrary: i)
  case 0
  show ?case unfolding copyuvm_loop.simps by (rule locks_rule)+
next
  case (Suc k)
  show ?case unfolding copyuvm_loop.simps by (rule locks_rule Suc | simp)+
qed

lemma locks_copyuvm [locks_rule]: "locks hs (copyuvm d sz) hs"
  unfolding copyuvm_def by (rule locks_rule | simp)+

lemma locks_uva2ka [locks_rule]: "locks hs (uva2ka d va) hs"
  unfolding uva2ka_def by (rule locks_rule | simp)+

lemma locks_if_cond:
  "(b \<Longrightarrow> locks hs m hs') \<Longrightarrow> (\<not> b \<Longrightarrow> locks hs k hs') \<Longrightarrow> locks hs (if b then m else k) hs'"
  by simp

lemma locks_copyout [locks_rule]: "locks hs (copyout d va buf) hs"
proof (induction d va buf rule: copyout.induct)
  case (1 d va buf)
  show ?case unfolding copyout.simps [of d va buf]
    by (rule locks_if_cond | rule locks_rule | rule 1 | assumption | simp)+
qed

section \<open>The file system\<close>

lemma locks_iderw [locks_rule]: "locks hs (iderw b) hs"
  unfolding iderw_def by (rule locks_rule | simp)+

lemma locks_binit [locks_rule]: "locks hs (binit) hs"
  unfolding binit_def by (rule locks_rule | simp)+

lemma locks_bget [locks_rule]: "locks hs (bget dev bno) hs"
  unfolding bget_def by (rule locks_rule | simp)+

lemma locks_bread [locks_rule]: "locks hs (bread dev bno) hs"
  unfolding bread_def by (rule locks_rule | simp)+

lemma locks_bwrite [locks_rule]: "locks hs (bwrite b) hs"
  unfolding bwrite_def by (rule locks_rule | simp)+

lemma locks_brelse [locks_rule]: "locks hs (brelse b) hs"
  unfolding brelse_def by (rule locks_rule | simp)+

lemma locks_buf_data [locks_rule]: "locks hs (buf_data b) hs"
  unfolding buf_data_def by (rule locks_rule | simp)+

lemma locks_set_data [locks_rule]: "locks hs (set_data b d) hs"
  unfolding set_data_def by (rule locks_rule | simp)+

lemma locks_readsb [locks_rule]: "locks hs (readsb dev) hs"
  unfolding readsb_def by (rule locks_rule | simp)+

lemma locks_log_block [locks_rule]: "locks hs (log_block i) hs"
  unfolding log_block_def by (rule locks_rule | simp)+

lemma locks_set_log_block [locks_rule]: "locks hs (set_log_block i v) hs"
  unfolding set_log_block_def by (rule locks_rule | simp)+

lemma locks_install_trans [locks_rule]: "locks hs (install_trans) hs"
  unfolding install_trans_def by (rule locks_rule | simp)+

lemma locks_read_head [locks_rule]: "locks hs (read_head) hs"
  unfolding read_head_def by (rule locks_rule | simp)+

lemma locks_write_head [locks_rule]: "locks hs (write_head) hs"
  unfolding write_head_def by (rule locks_rule | simp)+

lemma locks_recover_from_log [locks_rule]: "locks hs (recover_from_log) hs"
  unfolding recover_from_log_def by (rule locks_rule | simp)+

lemma locks_initlog [locks_rule]: "locks hs (initlog dev) hs"
  unfolding initlog_def by (rule locks_rule | simp)+

lemma locks_begin_op [locks_rule]: "locks hs (begin_op) hs"
  unfolding begin_op_def by (rule locks_rule | simp)+

lemma locks_write_log [locks_rule]: "locks hs (write_log) hs"
  unfolding write_log_def by (rule locks_rule | simp)+

lemma locks_commit [locks_rule]: "locks hs (commit) hs"
  unfolding commit_def by (rule locks_rule | simp)+

lemma locks_end_op [locks_rule]: "locks hs (end_op) hs"
  unfolding end_op_def by (rule locks_rule | simp)+

lemma locks_log_write [locks_rule]: "locks hs (log_write b) hs"
  unfolding log_write_def by (rule locks_rule | simp)+

lemma locks_bzero [locks_rule]: "locks hs (bzero dev b) hs"
  unfolding bzero_def by (rule locks_rule | simp)+

lemma locks_balloc_loop [locks_rule]: "locks hs (balloc_loop dev n bs) hs"
proof (induction bs)
  case Nil
  show ?case unfolding balloc_loop.simps by (rule locks_rule)+
next
  case (Cons y ys)
  show ?case unfolding balloc_loop.simps by (rule locks_rule Cons | simp)+
qed

lemma locks_balloc [locks_rule]: "locks hs (balloc dev) hs"
  unfolding balloc_def by (rule locks_rule | simp)+

lemma locks_bfree [locks_rule]: "locks hs (bfree dev b) hs"
  unfolding bfree_def by (rule locks_rule | simp)+

lemma locks_iget [locks_rule]: "locks hs (iget dev i) hs"
  unfolding iget_def by (rule locks_rule | simp)+

lemma locks_ialloc_loop [locks_rule]: "locks hs (ialloc_loop dev ty bs) hs"
proof (induction bs)
  case Nil
  show ?case unfolding ialloc_loop.simps by (rule locks_rule)+
next
  case (Cons y ys)
  show ?case unfolding ialloc_loop.simps by (rule locks_rule Cons | simp)+
qed

lemma locks_ialloc [locks_rule]: "locks hs (ialloc dev ty) hs"
  unfolding ialloc_def by (rule locks_rule | simp)+

lemma locks_iupdate [locks_rule]: "locks hs (iupdate ip) hs"
  unfolding iupdate_def by (rule locks_rule | simp)+

lemma locks_idup [locks_rule]: "locks hs (idup ip) hs"
  unfolding idup_def by (rule locks_rule | simp)+

lemma locks_ilock [locks_rule]: "locks hs (ilock ip) hs"
  unfolding ilock_def by (rule locks_rule | simp)+

lemma locks_iunlock [locks_rule]: "locks hs (iunlock ip) hs"
  unfolding iunlock_def by (rule locks_rule | simp)+

lemma locks_itrunc [locks_rule]: "locks hs (itrunc ip) hs"
  unfolding itrunc_def by (rule locks_rule | simp)+

lemma locks_iput [locks_rule]: "locks hs (iput ip) hs"
  unfolding iput_def by (rule locks_rule | simp)+

lemma locks_iunlockput [locks_rule]: "locks hs (iunlockput ip) hs"
  unfolding iunlockput_def by (rule locks_rule | simp)+

lemma locks_bmap [locks_rule]: "locks hs (bmap ip bn) hs"
  unfolding bmap_def by (rule locks_rule | simp)+

lemma locks_iinit [locks_rule]: "locks hs (iinit dev) hs"
  unfolding iinit_def by (rule locks_rule | simp)+

lemma locks_stati [locks_rule]: "locks hs (stati ip) hs"
  unfolding stati_def by (rule locks_rule | simp)+

lemma locks_kill_line [locks_rule]: "locks hs (kill_line n) hs"
proof (induction n)
  case 0
  show ?case unfolding kill_line.simps by (rule locks_rule)+
next
  case (Suc k)
  show ?case unfolding kill_line.simps by (rule locks_rule Suc | simp)+
qed

lemma locks_console_char [locks_rule]: "locks hs (console_char c) hs"
  unfolding console_char_def by (rule locks_rule | simp)+

lemma locks_procdump [locks_rule]: "locks hs (procdump pcs) hs"
  unfolding procdump_def by (rule locks_rule | simp)+

lemma locks_consoleintr [locks_rule]: "locks hs (consoleintr pcs cs) hs"
  unfolding consoleintr_def by (rule locks_rule | simp)+

lemma locks_consoleread_loop [locks_rule]: "locks hs (consoleread_loop n t) hs"
proof (induction n)
  case 0
  show ?case unfolding consoleread_loop.simps by (rule locks_rule)+
next
  case (Suc k)
  show ?case unfolding consoleread_loop.simps by (rule locks_rule Suc | simp)+
qed

lemma locks_consoleread [locks_rule]: "locks hs (consoleread ip n) hs"
  unfolding consoleread_def by (rule locks_rule | simp)+

lemma locks_consolewrite [locks_rule]: "locks hs (consolewrite ip bs) hs"
  unfolding consolewrite_def by (rule locks_rule | simp)+

lemma locks_devfun [locks_rule]:
  "locks hs m hs' \<Longrightarrow> locks hs k hs' \<Longrightarrow> locks hs (case d of NoDev \<Rightarrow> m | ConsoleDev \<Rightarrow> k) hs'"
  by (cases d) simp_all

lemma locks_ftype [locks_rule]:
  "locks hs m hs' \<Longrightarrow> locks hs k hs' \<Longrightarrow> locks hs l hs' \<Longrightarrow>
   locks hs (case t of FD_NONE \<Rightarrow> m | FD_PIPE \<Rightarrow> k | FD_INODE \<Rightarrow> l) hs'"
  by (cases t) simp_all

lemma locks_dev_driver [locks_rule]: "locks hs (dev_driver m) hs"
  unfolding dev_driver_def by (rule locks_rule | simp)+

lemma locks_readi_loop [locks_rule]: "locks hs (readi_loop ip off n) hs"
proof (induction ip off n rule: readi_loop.induct)
  case (1 ip off n)
  show ?case unfolding readi_loop.simps [of ip off n]
    by (rule locks_if_cond | rule locks_rule | rule 1 | assumption | simp)+
qed

lemma locks_readi [locks_rule]: "locks hs (readi ip off n) hs"
  unfolding readi_def by (rule locks_rule | simp)+

lemma locks_writei_loop [locks_rule]: "locks hs (writei_loop ip off src) hs"
proof (induction ip off src rule: writei_loop.induct)
  case (1 ip off src)
  show ?case unfolding writei_loop.simps [of ip off src]
    by (rule locks_if_cond | rule locks_rule | rule 1 | assumption | simp)+
qed

lemma locks_writei [locks_rule]: "locks hs (writei ip src off n) hs"
  unfolding writei_def by (rule locks_rule | simp)+

lemma locks_dirlookup_loop [locks_rule]: "locks hs (dirlookup_loop dp name offs) hs"
proof (induction offs)
  case Nil
  show ?case unfolding dirlookup_loop.simps by (rule locks_rule)+
next
  case (Cons y ys)
  show ?case unfolding dirlookup_loop.simps by (rule locks_rule Cons | simp)+
qed

lemma locks_dirlookup [locks_rule]: "locks hs (dirlookup dp name) hs"
  unfolding dirlookup_def by (rule locks_rule | simp)+

lemma locks_dirlink_loop [locks_rule]: "locks hs (dirlink_loop dp offs e) hs"
proof (induction offs)
  case Nil
  show ?case unfolding dirlink_loop.simps by (rule locks_rule)+
next
  case (Cons y ys)
  show ?case unfolding dirlink_loop.simps by (rule locks_rule Cons | simp)+
qed

lemma locks_dirlink [locks_rule]: "locks hs (dirlink dp name i) hs"
  unfolding dirlink_def by (rule locks_rule | simp)+

lemma locks_namex_loop [locks_rule]: "locks hs (namex_loop ip path parent name) hs"
proof (induction ip path parent name rule: namex_loop.induct)
  case (1 ip path parent name)
  show ?case
  proof (cases "skipelem path name")
    case None
    show ?thesis unfolding namex_loop.simps [of ip] None option.case by (rule locks_rule)+
  next
    case (Some r)
    obtain path' name' where r: "r = (path', name')" by (cases r)
    show ?thesis unfolding namex_loop.simps [of ip] Some r option.case prod.case
      by (rule locks_if_cond | rule locks_rule | rule 1 [OF _ refl] | assumption | simp add: Some r)+
  qed
qed

lemma locks_namex [locks_rule]: "locks hs (namex path parent name) hs"
  unfolding namex_def by (rule locks_rule | simp)+

lemma locks_namei [locks_rule]: "locks hs (namei path) hs"
  unfolding namei_def by (rule locks_rule | simp)+

lemma locks_nameiparent [locks_rule]: "locks hs (nameiparent path) hs"
  unfolding nameiparent_def by (rule locks_rule | simp)+

lemma locks_curproc_killed [locks_rule]: "locks hs (curproc_killed) hs"
  unfolding curproc_killed_def by (rule locks_rule | simp)+

lemma locks_pipeclose [locks_rule]: "locks hs (pipeclose p w) hs"
  unfolding pipeclose_def by (rule locks_rule | simp)+

lemma locks_res_if: "locks_res hs m f \<Longrightarrow> locks_res hs k f \<Longrightarrow> locks_res hs (if b then m else k) f"
  by simp

lemma locks_res_bind: "locks hs m hs1 \<Longrightarrow> (\<And>x. locks_res hs1 (k x) f) \<Longrightarrow> locks_res hs (bindM m k) f"
  unfolding locks_def by (rule bind_res)

lemma locks_bind_res: "locks_res hs m f \<Longrightarrow> (\<And>x. locks (f x) (k x) hs') \<Longrightarrow> locks hs (bindM m k) hs'"
  unfolding locks_def by (rule bind_res)

lemma locks_res_seq: "locks hs m hs1 \<Longrightarrow> locks_res hs1 k f \<Longrightarrow> locks_res hs (seqM m k) f"
  by (simp add: seqM_def locks_res_bind)

text \<open>pipewrite_loop releases the lock itself where it reports a failure.\<close>

lemma locks_pipewrite_loop:
  assumes rd: "\<And>hs i n. locks hs (rd i n) hs"
  shows "locks_res (PipeLock p # hs) (pipewrite_loop p rd i n) (\<lambda>failed. if failed then hs else PipeLock p # hs)"
proof (induction n arbitrary: i)
  case 0
  show ?case unfolding pipewrite_loop.simps by (rule locks_res_ret) simp
next
  case (Suc n)
  show ?case unfolding pipewrite_loop.simps
    by (rule locks_res_if locks_res_bind locks_res_seq locks_res_fault Suc locks_rule rd | rule locks_res_ret, simp | simp)+
qed

lemma locks_pipewrite [locks_rule]:
  assumes rd: "\<And>hs i n. locks hs (rd i n) hs"
  shows "locks hs (pipewrite p rd n) hs"
  unfolding pipewrite_def
proof (rule locks_seqM [OF locks_acquire], rule locks_bind_res [OF locks_pipewrite_loop [OF rd]])
  show "locks (if failed then hs else PipeLock p # hs) (if failed then ret (- 1)
     else seqM (wakeup (ChanPipeRead p)) (seqM (release (PipeLock p)) (ret n))) hs" for failed
    by (cases failed) (simp_all only: if_True if_False, (rule locks_rule)+)
qed

lemma locks_piperead_loop [locks_rule]: "locks hs (piperead_loop p n) hs"
proof (induction n)
  case 0
  show ?case unfolding piperead_loop.simps by (rule locks_rule)+
next
  case (Suc k)
  show ?case unfolding piperead_loop.simps by (rule locks_rule Suc | simp)+
qed

lemma locks_piperead [locks_rule]: "locks hs (piperead p n) hs"
  unfolding piperead_def by (rule locks_rule | simp)+

lemma locks_filealloc [locks_rule]: "locks hs (filealloc) hs"
  unfolding filealloc_def by (rule locks_rule | simp)+

lemma locks_filedup [locks_rule]: "locks hs (filedup f) hs"
  unfolding filedup_def by (rule locks_rule | simp)+

lemma locks_fileclose [locks_rule]: "locks hs (fileclose f) hs"
  unfolding fileclose_def by (rule locks_rule | simp)+

lemma locks_filestat [locks_rule]: "locks hs (filestat f) hs"
  unfolding filestat_def by (rule locks_rule | simp)+

lemma locks_fileread [locks_rule]: "locks hs (fileread f n) hs"
  unfolding fileread_def by (rule locks_rule | simp)+

lemma locks_filewrite_loop [locks_rule]:
  assumes rd: "\<And>hs i n. locks hs (rd i n) hs"
  shows "locks hs (filewrite_loop f rd i n) hs"
proof (induction "n - i" arbitrary: i rule: less_induct)
  case less
  have step: "locks hs (filewrite_loop f rd (i + min (n - i) FILEWRITE_MAX) n) hs" if "i < n"
    by (rule less) (use that in simp)
  show ?case unfolding filewrite_loop.simps [of f rd i] Let_def
    by (rule locks_if_cond | rule locks_rule rd step | (simp; fail))+
qed

lemma locks_filewrite [locks_rule]: "(\<And>hs i n. locks hs (rd i n) hs) \<Longrightarrow> locks hs (filewrite f rd n) hs"
  unfolding filewrite_def by (rule locks_rule | assumption)+

lemma locks_mmap_read [locks_rule]: "locks hs (mmap_read f n) hs"
  unfolding mmap_read_def by (rule locks_rule | simp)+

lemma locks_pipealloc_bad [locks_rule]: "locks hs (pipealloc_bad p f g) hs"
  unfolding pipealloc_bad_def by (rule locks_rule | simp)+

lemma locks_pipealloc [locks_rule]: "locks hs (pipealloc) hs"
  unfolding pipealloc_def by (rule locks_rule | simp)+

section \<open>Processes, mappings and system calls\<close>

lemma locks_uload [locks_rule]: "locks hs (uload va) hs"
  unfolding uload_def by (rule locks_rule | simp)+

lemma locks_ustore [locks_rule]: "locks hs (ustore va b) hs"
  unfolding ustore_def by (rule locks_rule | simp)+

lemma locks_uread [locks_rule]: "locks hs (uread va n) hs"
proof (induction n arbitrary: va)
  case 0
  show ?case unfolding uread.simps by (rule locks_rule)+
next
  case (Suc k)
  show ?case unfolding uread.simps by (rule locks_rule Suc | simp)+
qed

lemma locks_uwrite [locks_rule]: "locks hs (uwrite va bs) hs"
proof (induction bs arbitrary: va)
  case Nil
  show ?case unfolding uwrite.simps by (rule locks_rule)+
next
  case (Cons y ys)
  show ?case unfolding uwrite.simps by (rule locks_rule Cons | simp)+
qed

lemma locks_usrc [locks_rule]: "locks hs (usrc va i n) hs"
  unfolding usrc_def by (rule locks_rule | simp)+

lemma locks_fetchint [locks_rule]: "locks hs (fetchint a) hs"
  unfolding fetchint_def by (rule locks_rule | simp)+

lemma locks_fetchstr_loop [locks_rule]: "locks hs (fetchstr_loop n a) hs"
proof (induction n arbitrary: a)
  case 0
  show ?case unfolding fetchstr_loop.simps by (rule locks_rule)+
next
  case (Suc k)
  show ?case unfolding fetchstr_loop.simps by (rule locks_rule Suc | simp)+
qed

lemma locks_fetchstr [locks_rule]: "locks hs (fetchstr a) hs"
  unfolding fetchstr_def by (rule locks_rule | simp)+

lemma locks_argint [locks_rule]: "locks hs (argint n) hs"
  unfolding argint_def by (rule locks_rule | simp)+

lemma locks_argptr [locks_rule]: "locks hs (argptr n k) hs"
  unfolding argptr_def by (rule locks_rule | simp)+

lemma locks_argstr [locks_rule]: "locks hs (argstr n) hs"
  unfolding argstr_def by (rule locks_rule | simp)+

lemma locks_argfd [locks_rule]: "locks hs (argfd n) hs"
  unfolding argfd_def by (rule locks_rule | simp)+

lemma locks_fdalloc [locks_rule]: "locks hs (fdalloc f) hs"
  unfolding fdalloc_def by (rule locks_rule | simp)+

lemma locks_get_md [locks_rule]: "locks hs (get_md p i) hs"
  unfolding get_md_def by (rule locks_rule | simp)+

lemma locks_munmap_free [locks_rule]: "locks hs (munmap_free p i) hs"
  unfolding munmap_free_def by (rule locks_rule | simp)+

lemma locks_exit_child [locks_rule]: "locks hs (exit_child cp p) hs"
  unfolding exit_child_def by (rule locks_rule | simp)+

lemma locks_exit_mapping [locks_rule]: "locks hs (exit_mapping cp i) hs"
  unfolding exit_mapping_def by (rule locks_rule | simp)+

lemma locks_kexit [locks_rule]: "locks hs kexit hs'"
  unfolding kexit_def by (rule locks_rule | simp)+

lemma locks_fill_from_file [locks_rule]: "locks hs (fill_from_file p i m) hs"
  unfolding fill_from_file_def by (rule locks_rule | simp)+

lemma locks_allocatePageNonGuard [locks_rule]: "locks hs (allocatePageNonGuard p i a) hs"
  unfolding allocatePageNonGuard_def by (rule locks_rule | simp)+

lemma locks_allocatePageGuard [locks_rule]: "locks hs (allocatePageGuard p i a) hs"
  unfolding allocatePageGuard_def by (rule locks_rule | simp)+

lemma locks_find_desc [locks_rule]: "locks hs (find_desc mds a xs) hs"
proof (induction xs)
  case Nil
  show ?case unfolding find_desc.simps by (rule locks_rule)+
next
  case (Cons y ys)
  show ?case unfolding find_desc.simps by (rule locks_rule Cons | simp)+
qed

lemma locks_page_fault [locks_rule]: "locks hs (page_fault a) hs"
  unfolding page_fault_def by (rule locks_rule | simp)+

lemma locks_get_physical_page [locks_rule]: "locks hs (get_physical_page p a) hs"
  unfolding get_physical_page_def by (rule locks_rule | simp)+

lemma locks_deep_copy [locks_rule]: "locks hs (deep_copy p c i) hs"
  unfolding deep_copy_def by (rule locks_rule | simp)+

lemma locks_copy_shared [locks_rule]: "locks hs (copy_shared p c i md a) hs"
  unfolding copy_shared_def by (rule locks_rule | simp)+

lemma locks_copy_private [locks_rule]: "locks hs (copy_private p c i md a) hs"
  unfolding copy_private_def by (rule locks_rule | simp)+

lemma locks_copy_map [locks_rule]: "locks hs (copy_map p c i) hs"
  unfolding copy_map_def by (rule locks_rule | simp)+

lemma locks_copy_maps [locks_rule]: "locks hs (copy_maps p c) hs"
  unfolding copy_maps_def by (rule locks_rule | simp)+

lemma locks_munmap_page [locks_rule]: "locks hs (munmap_page mds a xs acc) hs"
proof (induction xs arbitrary: acc)
  case Nil
  show ?case unfolding munmap_page.simps by (rule locks_rule)+
next
  case (Cons y ys)
  show ?case unfolding munmap_page.simps by (rule locks_rule Cons | simp)+
qed

lemma locks_munmap_scan [locks_rule]: "locks hs (munmap_scan mds a e acc) hs"
proof (induction mds a e acc rule: munmap_scan.induct)
  case (1 mds a e acc)
  show ?case unfolding munmap_scan.simps [of mds a e acc]
    by (rule locks_if_cond | rule locks_rule | rule 1 | assumption | simp)+
qed

lemma locks_munmap_write [locks_rule]: "locks hs (munmap_write p i) hs"
  unfolding munmap_write_def by (rule locks_rule | simp)+

lemma locks_sys_munmap [locks_rule]: "locks hs (sys_munmap) hs"
  unfolding sys_munmap_def by (rule locks_rule | simp)+

lemma locks_count_pages [locks_rule]: "locks hs (count_pages j len n) hs"
proof (induction j len n rule: count_pages.induct)
  case (1 j len n)
  show ?case unfolding count_pages.simps [of j len n]
    by (rule locks_if_cond | rule locks_rule | rule 1 | assumption | simp)+
qed

lemma locks_fixed_conflict [locks_rule]: "locks hs (fixed_conflict mds a xs) hs"
proof (induction xs)
  case Nil
  show ?case unfolding fixed_conflict.simps by (rule locks_rule)+
next
  case (Cons y ys)
  show ?case unfolding fixed_conflict.simps by (rule locks_rule Cons | simp)+
qed

lemma locks_mmap_setup [locks_rule]: "locks hs (mmap_setup p len prot flags fin js va) hs"
proof (induction js arbitrary: va)
  case Nil
  show ?case unfolding mmap_setup.simps by (rule locks_rule)+
next
  case (Cons y ys)
  show ?case unfolding mmap_setup.simps by (rule locks_rule Cons | simp)+
qed

lemma locks_mmap_place [locks_rule]: "locks hs (mmap_place p len prot flags n va) hs"
  unfolding mmap_place_def by (rule locks_rule | simp)+

lemma locks_mmap_request [locks_rule]: "locks hs (mmap_request p a len prot flags off) hs"
  unfolding mmap_request_def by (rule locks_rule | simp)+

lemma locks_sys_mmap [locks_rule]: "locks hs (sys_mmap) hs"
  unfolding sys_mmap_def by (rule locks_rule | simp)+

lemma locks_allocproc [locks_rule]: "locks hs (allocproc) hs"
  unfolding allocproc_def by (rule locks_rule | simp)+

lemma locks_userinit [locks_rule]: "locks hs (userinit c) hs"
  unfolding userinit_def by (rule locks_rule | simp)+

lemma locks_growproc [locks_rule]: "locks hs (growproc n) hs"
  unfolding growproc_def by (rule locks_rule | simp)+

lemma locks_fork_file [locks_rule]: "locks hs (fork_file c n i) hs"
  unfolding fork_file_def by (rule locks_rule | simp)+

lemma locks_fork [locks_rule]: "locks hs (fork) hs"
  unfolding fork_def by (rule locks_rule | simp)+

lemma locks_wait_scan [locks_rule]: "locks hs (wait_scan cp ps h) hs"
proof (induction ps arbitrary: h)
  case Nil
  show ?case unfolding wait_scan.simps by (rule locks_rule)+
next
  case (Cons y ys)
  show ?case unfolding wait_scan.simps by (rule locks_rule Cons | simp)+
qed

lemma locks_wait [locks_rule]: "locks hs (wait) hs"
  unfolding wait_def by (rule locks_rule | simp)+

lemma locks_kill [locks_rule]: "locks hs (kill pid) hs"
  unfolding kill_def by (rule locks_rule | simp)+

lemma locks_forkret: "locks [PtableLock] forkret []"
  unfolding forkret_def by (rule locks_rule | simp)+

lemma locks_loaduvm_loop [locks_rule]: "locks hs (loaduvm_loop fuel d a ip off sz i) hs"
proof (induction fuel arbitrary: i)
  case 0
  show ?case unfolding loaduvm_loop.simps by (rule locks_rule)+
next
  case (Suc k)
  show ?case unfolding loaduvm_loop.simps by (rule locks_rule Suc | simp)+
qed

lemma locks_loaduvm [locks_rule]: "locks hs (loaduvm d a ip off sz) hs"
  unfolding loaduvm_def by (rule locks_rule | simp)+

lemma locks_exec_load [locks_rule]: "locks hs (exec_load n d ip off sz) hs"
proof (induction n arbitrary: off sz)
  case 0
  show ?case unfolding exec_load.simps by (rule locks_rule)+
next
  case (Suc k)
  show ?case unfolding exec_load.simps by (rule locks_rule Suc | simp)+
qed

lemma locks_exec_args [locks_rule]: "locks hs (exec_args d args sp addrs) hs"
proof (induction args arbitrary: sp addrs)
  case Nil
  show ?case unfolding exec_args.simps by (rule locks_rule)+
next
  case (Cons y ys)
  show ?case unfolding exec_args.simps by (rule locks_rule Cons | simp)+
qed

lemma locks_exec_bad [locks_rule]: "locks hs (exec_bad d ip) hs"
  unfolding exec_bad_def by (rule locks_rule | simp)+

lemma locks_exec_stack [locks_rule]: "locks hs (exec_stack path argv d sz e) hs"
  unfolding exec_stack_def by (rule locks_rule | simp)+

lemma locks_exec [locks_rule]: "locks hs (exec path argv) hs"
  unfolding exec_def by (rule locks_rule | simp)+

lemma locks_sys_dup [locks_rule]: "locks hs (sys_dup) hs"
  unfolding sys_dup_def by (rule locks_rule | simp)+

lemma locks_sys_read [locks_rule]: "locks hs (sys_read) hs"
  unfolding sys_read_def by (rule locks_rule | simp)+

lemma locks_sys_write [locks_rule]: "locks hs (sys_write) hs"
  unfolding sys_write_def by (rule locks_rule | simp)+

lemma locks_sys_close [locks_rule]: "locks hs (sys_close) hs"
  unfolding sys_close_def by (rule locks_rule | simp)+

lemma locks_put_stat [locks_rule]: "locks hs (put_stat a st) hs"
  unfolding put_stat_def by (rule locks_rule | simp)+

lemma locks_sys_fstat [locks_rule]: "locks hs (sys_fstat) hs"
  unfolding sys_fstat_def by (rule locks_rule | simp)+

lemma locks_add_nlink [locks_rule]: "locks hs (add_nlink ip k) hs"
  unfolding add_nlink_def by (rule locks_rule | simp)+

lemma locks_link_bad [locks_rule]: "locks hs (link_bad ip) hs"
  unfolding link_bad_def by (rule locks_rule | simp)+

lemma locks_sys_link [locks_rule]: "locks hs (sys_link) hs"
  unfolding sys_link_def by (rule locks_rule | simp)+

lemma locks_isdirempty_loop [locks_rule]: "locks hs (isdirempty_loop dp offs) hs"
proof (induction offs)
  case Nil
  show ?case unfolding isdirempty_loop.simps by (rule locks_rule)+
next
  case (Cons y ys)
  show ?case unfolding isdirempty_loop.simps by (rule locks_rule Cons | simp)+
qed

lemma locks_isdirempty [locks_rule]: "locks hs (isdirempty dp) hs"
  unfolding isdirempty_def by (rule locks_rule | simp)+

lemma locks_unlink_bad [locks_rule]: "locks hs (unlink_bad dp) hs"
  unfolding unlink_bad_def by (rule locks_rule | simp)+

lemma locks_unlink_entry [locks_rule]: "locks hs (unlink_entry dp ip off) hs"
  unfolding unlink_entry_def by (rule locks_rule | simp)+

lemma locks_sys_unlink [locks_rule]: "locks hs (sys_unlink) hs"
  unfolding sys_unlink_def by (rule locks_rule | simp)+

lemma locks_create_new [locks_rule]: "locks hs (create_new dp name ty ma mi) hs"
  unfolding create_new_def by (rule locks_rule | simp)+

lemma locks_create [locks_rule]: "locks hs (create path ty ma mi) hs"
  unfolding create_def by (rule locks_rule | simp)+

lemma locks_open_file [locks_rule]: "locks hs (open_file ip m) hs"
  unfolding open_file_def by (rule locks_rule | simp)+

lemma locks_sys_open [locks_rule]: "locks hs (sys_open) hs"
  unfolding sys_open_def by (rule locks_rule | simp)+

lemma locks_made [locks_rule]: "locks hs (made ip) hs"
  unfolding made_def by (rule locks_rule | simp)+

lemma locks_sys_mkdir [locks_rule]: "locks hs (sys_mkdir) hs"
  unfolding sys_mkdir_def by (rule locks_rule | simp)+

lemma locks_sys_mknod [locks_rule]: "locks hs (sys_mknod) hs"
  unfolding sys_mknod_def by (rule locks_rule | simp)+

lemma locks_sys_chdir [locks_rule]: "locks hs (sys_chdir) hs"
  unfolding sys_chdir_def by (rule locks_rule | simp)+

lemma locks_exec_argv [locks_rule]: "locks hs (exec_argv n u) hs"
proof (induction n arbitrary: u)
  case 0
  show ?case unfolding exec_argv.simps by (rule locks_rule)+
next
  case (Suc k)
  show ?case unfolding exec_argv.simps by (rule locks_rule Suc | simp)+
qed

lemma locks_sys_exec [locks_rule]: "locks hs (sys_exec) hs"
  unfolding sys_exec_def by (rule locks_rule | simp)+

lemma locks_sys_pipe [locks_rule]: "locks hs (sys_pipe) hs"
  unfolding sys_pipe_def by (rule locks_rule | simp)+

lemma locks_sys_fork [locks_rule]: "locks hs (sys_fork) hs"
  unfolding sys_fork_def by (rule locks_rule | simp)+

lemma locks_sys_exit [locks_rule]: "locks hs (sys_exit) hs"
  unfolding sys_exit_def by (rule locks_rule | simp)+

lemma locks_sys_wait [locks_rule]: "locks hs (sys_wait) hs"
  unfolding sys_wait_def by (rule locks_rule | simp)+

lemma locks_sys_kill [locks_rule]: "locks hs (sys_kill) hs"
  unfolding sys_kill_def by (rule locks_rule | simp)+

lemma locks_sys_getpid [locks_rule]: "locks hs (sys_getpid) hs"
  unfolding sys_getpid_def by (rule locks_rule | simp)+

lemma locks_sys_sbrk [locks_rule]: "locks hs (sys_sbrk) hs"
  unfolding sys_sbrk_def by (rule locks_rule | simp)+

lemma locks_sys_sleep [locks_rule]: "locks hs (sys_sleep) hs"
  unfolding sys_sleep_def by (rule locks_rule | simp)+

lemma locks_sys_uptime [locks_rule]: "locks hs (sys_uptime) hs"
  unfolding sys_uptime_def by (rule locks_rule | simp)+

lemma locks_set_eax [locks_rule]: "locks hs (set_eax p r) hs"
  unfolding set_eax_def by (rule locks_rule | simp)+

lemma locks_syscalls: "syscalls num = Some call \<Longrightarrow> locks hs call hs"
  unfolding syscalls_def
  by (drule map_of_SomeD, simp only: list.set insert_iff empty_iff prod.inject simp_thms, elim disjE conjE)
    (simp_all only: locks_rule)

lemma locks_syscall [locks_rule]: "locks hs syscall hs"
proof -
  have dispatch: "locks hs (case syscalls num of Some call \<Rightarrow> bindM call (set_eax p) | None \<Rightarrow> m) hs"
    if "locks hs m hs" for num p and m :: "unit M"
    using that by (cases "syscalls num") (auto intro: locks_bindM locks_syscalls locks_set_eax)
  show ?thesis unfolding syscall_def
    by (rule locks_bindM [OF locks_curproc] locks_bindM [OF locks_gets] dispatch locks_seqM locks_cprintf locks_set_eax)+
qed

lemma locks_kbdintr [locks_rule]: "locks hs (kbdintr pcs cs) hs"
  unfolding kbdintr_def by (rule locks_rule | simp)+

lemma locks_uartintr [locks_rule]: "locks hs (uartintr pcs cs) hs"
  unfolding uartintr_def by (rule locks_rule | simp)+

lemma locks_exit_if_killed [locks_rule]: "locks hs (exit_if_killed tf) hs"
  unfolding exit_if_killed_def by (rule locks_rule | simp)+

lemma locks_trap_syscall [locks_rule]: "locks hs (trap_syscall tf) hs"
  unfolding trap_syscall_def by (rule locks_rule | simp)+

lemma locks_timer_tick [locks_rule]: "locks hs (timer_tick c) hs"
  unfolding timer_tick_def by (rule locks_rule | simp)+

lemma locks_unexpected_trap [locks_rule]: "locks hs (unexpected_trap ev tf) hs"
  unfolding unexpected_trap_def by (rule locks_rule | simp)+

lemma locks_trap_irq [locks_rule]: "locks hs (trap_irq pcs ev tf) hs"
  unfolding trap_irq_def by (rule locks_rule | simp)+

lemma locks_trap [locks_rule]: "locks hs (trap pcs ev tf) hs"
  unfolding trap_def by (rule locks_rule | simp)+

section \<open>The discipline\<close>

lemma locks_outcome:
  "locks (held s) m (held s) \<Longrightarrow>
   (case m s of Ok x t \<Rightarrow> held t = held s | Sched t \<Rightarrow> held t = [PtableLock] | _ \<Rightarrow> True)"
  by (simp add: locks_iff)


section \<open>Exit with a mapped file\<close>

text \<open>
  exit releases the mappings of the process while it holds the process table lock, but closing
  the last reference to a file ends in wakeup, which takes that lock.
\<close>

lemma wakeup_locked: "PtableLock \<in> set (held s) \<Longrightarrow> wakeup c s = Panic ''acquire''"
  by (simp add: wakeup_def seqM_def bindM_def)

lemma sleep_locked:
  "PtableLock \<in> set (held s) \<Longrightarrow> cur s \<noteq> None \<Longrightarrow> lk \<noteq> PtableLock \<Longrightarrow> sleep c (Some lk) s = Panic ''acquire''"
  by (auto simp: sleep_def gets_def seqM_def bindM_def whenM_def)

lemma begin_op_locked:
  assumes "PtableLock \<in> set (held s)" "cur s \<noteq> None" "LogLock \<notin> set (held s)"
  shows "begin_op s = Panic ''acquire'' \<or>
    begin_op s = Ok () (upd_log (\<lambda>l. l\<lparr>lg_outstanding := lg_outstanding l + 1\<rparr>) s)"
  using assms by (auto simp: begin_op_def seqM_def bindM_def gets_def modify_def sleep_locked upd_log_def)

lemma releasesleep_locked:
  "PtableLock \<in> set (held s) \<Longrightarrow> SleepLk lk \<notin> set (held s) \<Longrightarrow> releasesleep lk s = Panic ''acquire''"
  by (simp add: releasesleep_def seqM_def bindM_def modify_def wakeup_locked)

lemma iput_locked:
  assumes "PtableLock \<in> set (held s)" "cur s \<noteq> None" "SleepLk (InodeLock ip) \<notin> set (held s)"
    and "\<not> (i_valid (icache s ! ip) \<and> i_nlink (icache s ! ip) = 0)" "ip < length (icache s)"
  shows "iput ip s = Panic ''acquire''"
proof (cases "sl_locked (i_lock (icache s ! ip))")
  case True
  then show ?thesis
    using assms by (simp add: iput_def acquiresleep_def seqM_def bindM_def gets_def get_slock_def sleep_locked)
next
  case False
  let ?l = "\<lambda>p. \<lparr>sl_locked = True, sl_pid = p_pid (ptable s ! p)\<rparr>"
  obtain p where p: "cur s = Some p" using assms(2) by blast
  have "acquiresleep (InodeLock ip) s = Ok () (set_slock (InodeLock ip) (?l p) s)"
    using False assms(3) by (simp add: acquiresleep_def seqM_def bindM_def gets_def get_slock_def curproc_def p
        deref_def ret_def modify_def set_slock_def upd_inode_def)
  then show ?thesis
    using assms by (auto simp: iput_def seqM_def bindM_def gets_def whenM_def ret_def set_slock_def upd_inode_def
        releasesleep_locked)
qed


text \<open>Process 1 with one private mapping of the file 0, which the mapping alone refers to.\<close>

definition ex_exit :: kernel where
  "ex_exit = upd_md 1 0 (\<lambda>md. md\<lparr>md_valid := True, md_f := Some 0, md_flags := MAP_PRIVATE\<rparr>)
     (upd_file 0 (\<lambda>f. f\<lparr>f_ref := 1, f_type := FD_INODE, f_ip := Some 0\<rparr>)
     (upd_inode 0 (\<lambda>ip. ip\<lparr>i_ref := 1, i_valid := True, i_nlink := 1\<rparr>)
     ((static_data 0 0 (\<lambda>_. replicate BSIZE 0) 0)\<lparr>held := [PtableLock], cur := Some 1\<rparr>)))"


end
