(* ===== verification/Args.thy ===== *)
theory Args
  imports Umem
begin

text \<open>
  System call arguments are checked before they are used: a pointer that argptr accepts names a
  range inside the process's memory, a string that fetchstr accepts ends inside it, and reading
  such memory does not fault.
\<close>

section \<open>Reading user memory\<close>

text \<open>Every page of user memory below a size is present.\<close>

definition mapped_below :: "kernel \<Rightarrow> uint \<Rightarrow> bool" where
  "mapped_below s sz \<longleftrightarrow> (\<forall>va < sz. translate s False va \<noteq> None)"

definition ubyte :: "kernel \<Rightarrow> ptr \<Rightarrow> byte" where
  "ubyte s va = kmem s (the (translate s False va))"

definition ubytes :: "kernel \<Rightarrow> ptr \<Rightarrow> nat \<Rightarrow> byte list" where
  "ubytes s va n = map (\<lambda>i. ubyte s (va + of_nat i)) [0..<n]"

lemma ubytes_0 [simp]: "ubytes s va 0 = []"
  by (simp add: ubytes_def)

lemma ubytes_Suc [simp]: "ubytes s va (Suc n) = ubyte s va # ubytes s (va + 1) n"
  by (simp add: ubytes_def upt_conv_Cons map_Suc_upt [symmetric] comp_def algebra_simps del: upt_Suc)

lemma length_ubytes [simp]: "length (ubytes s va n) = n"
  by (simp add: ubytes_def)

lemma ubytes_4: "ubytes s va 4 = [ubyte s va, ubyte s (va + 1), ubyte s (va + 2), ubyte s (va + 3)]"
  by (simp add: ubytes_def upt_rec [of _ 4])

lemma uload_Ok: "translate s False va \<noteq> None \<Longrightarrow> uload va s = Ok (ubyte s va) s"
  by (auto simp: uload_def gets_def bindM_def ubyte_def)

lemma uload_same: "uload va s = Ok b t \<Longrightarrow> t = s \<and> b = ubyte s va"
  by (auto simp: uload_def gets_def bindM_def ubyte_def fault_def split: option.splits)

lemma uread_same: "uread va n s = Ok bs t \<Longrightarrow> t = s \<and> bs = ubytes s va n"
proof (induction n arbitrary: va bs)
  case (Suc n)
  then obtain rest where "uread (va + 1) n s = Ok rest t" "bs = ubyte s va # rest"
    by (auto simp: ret_def elim!: bindM_OkE dest!: uload_same)
  then show ?case using Suc.IH by simp
qed (simp add: ret_def)

lemma unat_less: "unat (w :: uint) < 2 ^ 32"
  using unsigned_less [of w] by simp

lemma unat_Suc: "unat (w :: uint) + 1 < 2 ^ 32 \<Longrightarrow> unat (w + 1) = unat w + 1"
  by (simp add: unat_word_ariths)

lemma less_add:
  assumes "unat (va :: uint) + n \<le> unat sz" "i < n"
  shows "va + of_nat i < sz"
proof -
  have sz: "unat sz < 2 ^ 32" by (rule unat_less)
  have "unat (of_nat i :: uint) = i" using assms sz by (simp add: unat_of_nat take_bit_nat_eq_self)
  then have "unat (va + of_nat i) = unat va + i" using assms sz by (subst unat_add_lem [THEN iffD1]) simp_all
  then show ?thesis using assms by (simp add: word_less_nat_alt)
qed

lemma uread_Ok:
  assumes "mapped_below s sz" "unat va + n \<le> unat sz"
  shows "uread va n s = Ok (ubytes s va n) s"
  using assms(2)
proof (induction n arbitrary: va)
  case (Suc n)
  have "va < sz" using less_add [OF Suc.prems, of 0] by simp
  then have "uload va s = Ok (ubyte s va) s" using assms(1) by (intro uload_Ok) (simp add: mapped_below_def)
  moreover have "unat (va + 1) = unat va + 1"
    using Suc.prems unat_less [of sz] by (intro unat_Suc) linarith
  then have "uread (va + 1) n s = Ok (ubytes s (va + 1) n) s"
    using Suc.prems by (intro Suc.IH) simp
  ultimately show ?case by (simp add: bindM_def ret_def)
qed (simp add: ret_def)

section \<open>Words, pointers and strings\<close>

lemma curproc_Ok: "cur s = Some p \<Longrightarrow> curproc s = Ok p s"
  by (simp add: curproc_def gets_def bindM_def deref_def ret_def)

lemma curproc_same: "curproc s = Ok p t \<Longrightarrow> t = s \<and> cur s = Some p"
  by (auto simp: curproc_def gets_def bindM_def deref_def ret_def fault_def split: option.splits)

lemma fetchint_same: "fetchint addr s = Ok r t \<Longrightarrow> t = s"
  by (auto simp: fetchint_def gets_def ret_def elim!: bindM_OkE dest!: curproc_same uread_same split: if_splits)

lemma argint_same: "argint n s = Ok r t \<Longrightarrow> t = s"
  by (auto simp: argint_def gets_def elim!: bindM_OkE dest!: curproc_same fetchint_same)

lemma argptr_cases:
  assumes "argptr n k s = Ok (Some a) t" "cur s = Some p"
  shows "t = s" "0 \<le> k" "a < p_sz (ptable s ! p)" "a + word_of_int k \<le> p_sz (ptable s ! p)"
  using assms by (auto simp: argptr_def gets_def ret_def curproc_Ok elim!: bindM_OkE
      dest!: argint_same split: option.splits if_splits)

lemma fetchstr_loop_same:
  "fetchstr_loop n a s = Ok (Some bs) t \<Longrightarrow> t = s \<and> length bs < n \<and> 0 \<notin> set bs \<and>
     bs = ubytes s a (length bs) \<and> ubyte s (a + of_nat (length bs)) = 0"
proof (induction n arbitrary: a bs)
  case (Suc n)
  show ?case
  proof (cases bs)
    case Nil
    then show ?thesis using Suc.prems by (auto simp: ret_def elim!: bindM_OkE dest!: uload_same split: if_splits)
  next
    case (Cons b rest)
    then have r: "fetchstr_loop n (a + 1) s = Ok (Some rest) t" "b = ubyte s a" "b \<noteq> 0"
      using Suc.prems by (auto simp: ret_def elim!: bindM_OkE dest!: uload_same split: if_splits)
    show ?thesis using Suc.IH [OF r(1)] r(2,3) Cons by (simp add: add.assoc)
  qed
qed (simp add: ret_def)

text \<open>
  C32: A pointer that argptr accepts for \<open>k\<close> bytes names a range inside the process: it does not
  wrap around, it ends below the size of the process, and the kernel can read all of it.  The
  check changes nothing.
\<close>

theorem argptr_in_bounds:
  assumes "argptr n k s = Ok (Some a) t" "cur s = Some p" "sz = p_sz (ptable s ! p)"
    and "sz \<le> KERNBASE" "k \<le> INT_MAX" "mapped_below s sz"
  shows "t = s \<and> 0 \<le> k \<and> unat a + nat k \<le> unat sz \<and> (\<exists>bs. uread a (nat k) s = Ok bs s \<and> length bs = nat k)"
proof (intro conjI)
  note c = argptr_cases [OF assms(1,2), folded assms(3)]
  show "t = s" "0 \<le> k" by (rule c)+
  have "unat (word_of_int k :: uint) = nat k"
    using c(2) assms(5) by (simp add: unsigned_of_int take_bit_int_eq_self)
  moreover have "unat a < 2 ^ 31" using c(3) assms(4) by (simp add: word_less_nat_alt word_le_nat_alt)
  ultimately have "unat (a + word_of_int k) = unat a + nat k"
    using assms(5) c(2) by (subst unat_add_lem [THEN iffD1]) simp_all
  then show in_sz: "unat a + nat k \<le> unat sz" using c(4) by (simp add: word_le_nat_alt)
  show "\<exists>bs. uread a (nat k) s = Ok bs s \<and> length bs = nat k"
    using uread_Ok [OF assms(6) in_sz] by simp
qed

lemma fetchstr_loop_eq:
  assumes "mapped_below s sz" "unat a + n \<le> unat sz"
  shows "fetchstr_loop n a s =
    Ok (if 0 \<in> set (ubytes s a n) then Some (takeWhile (\<lambda>b. b \<noteq> 0) (ubytes s a n)) else None) s"
  using assms(2)
proof (induction n arbitrary: a)
  case (Suc n)
  have "a < sz" using less_add [OF Suc.prems, of 0] by simp
  then have "uload a s = Ok (ubyte s a) s" using assms(1) by (intro uload_Ok) (simp add: mapped_below_def)
  moreover have "unat (a + 1) = unat a + 1" using Suc.prems unat_less [of sz] by (intro unat_Suc) linarith
  ultimately show ?case using Suc.IH [of "a + 1"] Suc.prems by (simp add: bindM_def ret_def)
qed (simp add: ret_def)

lemma fetchstr_eq:
  "cur s = Some p \<Longrightarrow> fetchstr addr s = (if p_sz (ptable s ! p) \<le> addr then Ok None s
     else fetchstr_loop (unat (p_sz (ptable s ! p) - addr)) addr s)"
  by (simp add: fetchstr_def gets_def curproc_Ok ret_def)

text \<open>
  C33: fetchstr returns the string that user memory holds from the address on if a zero byte ends
  it inside the process, and -1 otherwise.  It never reads past the size of the process and
  changes nothing.
\<close>

theorem fetchstr_spec:
  assumes "cur s = Some p" "sz = p_sz (ptable s ! p)" "mapped_below s sz"
    and u: "u = ubytes s addr (unat sz - unat addr)"
  shows "fetchstr addr s = Ok (if 0 \<in> set u then Some (takeWhile (\<lambda>b. b \<noteq> 0) u) else None) s"
proof -
  note e = fetchstr_eq [OF assms(1), folded assms(2)]
  show ?thesis
  proof (cases "sz \<le> addr")
    case True
    then have "u = []" by (simp add: u word_le_nat_alt)
    then show ?thesis using True by (simp add: e)
  next
    case False
    then have n: "unat (sz - addr) = unat sz - unat addr" by (simp add: unat_sub)
    have "fetchstr_loop (unat (sz - addr)) addr s = Ok (if 0 \<in> set u then Some (takeWhile (\<lambda>b. b \<noteq> 0) u) else None) s"
      unfolding u n using assms(3) False by (intro fetchstr_loop_eq) (auto simp: word_le_nat_alt)
    then show ?thesis using False by (simp only: e if_False)
  qed
qed

section \<open>File descriptors\<close>

text \<open>
  fdalloc returns the lowest free descriptor and stores the file there, leaving every other
  descriptor and process as it was; it fails only when all descriptors are in use.
\<close>

theorem fdalloc_lowest:
  assumes "cur s = Some p" "p < length (ptable s)" "ofile = p_ofile (ptable s ! p)"
  shows "(\<exists>fd < NOFILE. ofile ! fd = None \<and> (\<forall>i < fd. ofile ! i \<noteq> None) \<and>
      fdalloc f s = Ok (int fd) (upd_proc p (\<lambda>q. q\<lparr>p_ofile := ofile[fd := Some f]\<rparr>) s))
    \<or> ((\<forall>i < NOFILE. ofile ! i \<noteq> None) \<and> fdalloc f s = Ok (- 1) s)"
proof (cases "find (\<lambda>fd. ofile ! fd = None) [0..<NOFILE]")
  case None
  then have "fdalloc f s = Ok (- 1) s" using assms by (simp add: fdalloc_def gets_def curproc_Ok ret_def del: upt_rec_numeral)
  then show ?thesis using None [unfolded find_upt_None] by blast
next
  case (Some fd)
  then have "fdalloc f s = Ok (int fd) (upd_proc p (\<lambda>q. q\<lparr>p_ofile := ofile[fd := Some f]\<rparr>) s)"
    using assms by (simp add: fdalloc_def gets_def curproc_Ok seqM_def bindM_def modify_def ret_def upd_proc_def
        del: upt_rec_numeral)
  then show ?thesis using Some [unfolded find_upt_Some] by blast
qed

section \<open>Examples\<close>

text \<open>
  A process of two pages whose page directory maps them; the word at its stack pointer plus four
  is a pointer into the first page.
\<close>
definition ex_user :: kernel where
  "ex_user = upd_proc 0 (\<lambda>q. q\<lparr>p_sz := 4096\<rparr>) ((static_data 0 0 (\<lambda>_. []) 0)\<lparr>cur := Some 0, cr3 := 0x1000,
     kmem := (\<lambda>_. 0)(0x80001000 := 7, 0x80001001 := 0x20, 0x80002000 := 7, 0x80002001 := 0x30,
       0x80003004 := 8, 0x80003FFD := 104, 0x80003FFE := 105)\<rparr>)"

lemma ex_user_fields:
  "cur ex_user = Some 0" "p_sz (ptable ex_user ! 0) = 4096" "length (ptable ex_user) = NPROC"
  "p_ofile (ptable ex_user ! 0) = replicate NOFILE None" "tf_esp (p_tf (ptable ex_user ! 0)) = 0"
  by (simp_all add: ex_user_def static_data_def upd_proc_def zero_proc_def zero_trapframe_def)

lemma one_page_translate:
  assumes "load32 (kmem s) 0x80001000 = 0x2007" "load32 (kmem s) 0x80002000 = 0x3007" "cr3 s = 0x1000" "va < 4096"
  shows "translate s False va = Some (0x80003000 + va)"
proof -
  have "unat (PGROUNDDOWN va) = 0" using assms(4) by (simp add: unat_PGROUNDDOWN word_less_nat_alt)
  then have p: "PGROUNDDOWN va = 0" by (simp add: unat_eq_0)
  have "vmap (kmem s) (P2V (cr3 s)) 0 = Some 0x3007"
    using assms(1-3)
    by (simp add: vmap_def page_aligned_def pde_present_def pte_addr_def PDX_def PTX_def P2V_def PTE_ADDR_def)
  then show ?thesis by (simp add: translate_def p frame_of_def P2V_def PTE_ADDR_def)
qed

lemma ex_user_translate: "va < 4096 \<Longrightarrow> translate ex_user False va = Some (0x80003000 + va)"
  by (rule one_page_translate) (simp_all add: ex_user_def upd_proc_def load32_def)

lemma ex_user_mapped: "mapped_below ex_user 4096"
  by (simp add: mapped_below_def ex_user_translate)

lemma ex_user_bytes:
  "ubyte ex_user 4 = 8" "ubyte ex_user 5 = 0" "ubyte ex_user 6 = 0" "ubyte ex_user 7 = 0"
  "ubyte ex_user 0xFFD = 104" "ubyte ex_user 0xFFE = 105" "ubyte ex_user 0xFFF = 0"
  by (simp_all add: ubyte_def ex_user_translate) (simp_all add: ex_user_def upd_proc_def)

lemma ex_user_arg: "argptr 0 16 ex_user = Ok (Some 8) ex_user"
proof -
  have "ubytes ex_user 4 4 = [8, 0, 0, 0]" by (simp add: ubytes_4 ex_user_bytes)
  then have "uread 4 4 ex_user = Ok [8, 0, 0, 0] ex_user" using uread_Ok [OF ex_user_mapped, of 4 4] by simp
  then have "argint 0 ex_user = Ok (Some 8) ex_user"
    by (simp add: argint_def fetchint_def gets_def curproc_Ok ex_user_fields ret_def get32_def)
  then show ?thesis by (simp add: argptr_def gets_def curproc_Ok ex_user_fields ret_def)
qed

theorem argptr_in_bounds_witness: "\<exists>bs. uread 8 16 ex_user = Ok bs ex_user \<and> length bs = 16"
  using argptr_in_bounds [OF ex_user_arg ex_user_fields(1) refl] ex_user_mapped by (simp add: ex_user_fields)

theorem fetchstr_spec_witness: "fetchstr 0xFFD ex_user = Ok (Some [104, 105]) ex_user"
proof -
  have "ubytes ex_user 0xFFD 3 = [104, 105, 0]" by (simp add: ex_user_bytes numeral_3_eq_3)
  then show ?thesis
    using fetchstr_spec [OF ex_user_fields(1) refl, of "[104, 105, 0]" "0xFFD"] ex_user_mapped
    by (simp add: ex_user_fields)
qed

theorem fdalloc_lowest_witness:
  "fdalloc 5 ex_user = Ok 0 (upd_proc 0 (\<lambda>q. q\<lparr>p_ofile := (replicate NOFILE None)[0 := Some 5]\<rparr>) ex_user)"
proof -
  have "(\<forall>i. \<not> i < fd) \<longleftrightarrow> fd = 0" for fd :: nat by auto
  then show ?thesis using fdalloc_lowest [OF ex_user_fields(1) _ refl, of 5] by (auto simp: ex_user_fields)
qed

end
