(* ===== verification/Mmap_Spec.thy ===== *)
theory Mmap_Spec
  imports Locks Args
begin

text \<open>
  What mmap and munmap do to the table of descriptors: how many pages a request takes, which
  descriptors it is given, what they contain afterwards, when a fixed request is refused, and
  what a page fault finds.  The last section has the cases in which the code goes wrong.
\<close>

section \<open>Descriptors\<close>

definition covers :: "mmap_desc \<Rightarrow> int \<Rightarrow> bool" where
  "covers md a \<longleftrightarrow> md_valid md \<and> md_virtualAddress md \<le> a \<and> a < md_virtualAddress md + PAGE_SIZE"

text \<open>No descriptor so high that the end of its page is not an int.\<close>

definition no_overflow :: "mmap_desc list \<Rightarrow> bool" where
  "no_overflow mds \<longleftrightarrow> (\<forall>i < PAGE_LIMIT. md_valid (mds ! i) \<longrightarrow> md_virtualAddress (mds ! i) + PAGE_SIZE \<le> INT_MAX)"

lemma find_desc_eq:
  assumes "no_overflow mds" "set is \<subseteq> {..<PAGE_LIMIT}"
  shows "find_desc mds a is s = Ok (find (\<lambda>i. covers (mds ! i) a) is) s"
  using assms(2)
proof (induction "is")
  case (Cons i "is")
  have "md_valid (mds ! i) \<Longrightarrow> md_virtualAddress (mds ! i) + PAGE_SIZE \<le> INT_MAX"
    using assms(1) Cons.prems by (auto simp: no_overflow_def)
  then show ?case using Cons by (auto simp: covers_def ret_def)
qed (simp add: ret_def)

lemma find_desc_all:
  "no_overflow mds \<Longrightarrow> find_desc mds a [0..<PAGE_LIMIT] s = Ok (find (\<lambda>i. covers (mds ! i) a) [0..<PAGE_LIMIT]) s"
  by (rule find_desc_eq) auto

section \<open>Counting pages and finding a run\<close>

declare count_pages.simps [simp del]

lemma count_pages_eq:
  assumes "len \<le> j + PAGE_SIZE * int k" "0 < k \<longrightarrow> j + PAGE_SIZE * (int k - 1) < len" "j + PAGE_SIZE * int k \<le> INT_MAX"
  shows "count_pages j len n s = Ok (n + int k) s"
  using assms
proof (induction k arbitrary: j n)
  case 0
  then show ?case by (subst count_pages.simps) (simp add: ret_def)
next
  case (Suc k)
  have "count_pages j len n s = count_pages (j + PAGE_SIZE) len (n + 1) s"
    using Suc.prems by (subst count_pages.simps) (auto simp: algebra_simps)
  also have "\<dots> = Ok (n + 1 + int k) s"
    using Suc.prems by (intro Suc.IH) (auto simp: algebra_simps)
  finally show ?case by simp
qed

lemma count_pages_overflow:
  assumes "0 \<le> j" "INT_MAX < j + PAGE_SIZE * int k" "j + PAGE_SIZE * (int k - 1) < len" "0 < k"
  shows "count_pages j len n s = Fault ''signed overflow''"
  using assms
proof (induction k arbitrary: j n)
  case (Suc k)
  show ?case
  proof (cases "j + PAGE_SIZE > INT_MAX")
    case True
    then show ?thesis using Suc.prems by (subst count_pages.simps) (simp add: fault_def)
  next
    case False
    then have "0 < k" using Suc.prems(2) by (cases k) auto
    have "count_pages j len n s = count_pages (j + PAGE_SIZE) len (n + 1) s"
      using False Suc.prems by (subst count_pages.simps) (auto simp: algebra_simps)
    also have "\<dots> = Fault ''signed overflow''"
      using Suc.prems \<open>0 < k\<close> False by (intro Suc.IH) (auto simp: algebra_simps)
    finally show ?thesis .
  qed
qed simp

text \<open>The number of pages that hold \<open>len\<close> bytes.\<close>

definition pages :: "int \<Rightarrow> nat" where
  "pages len = nat ((len + 4095) div PAGE_SIZE)"

lemma pages_bounds:
  assumes "0 \<le> len"
  shows "len \<le> PAGE_SIZE * int (pages len)" "0 < pages len \<Longrightarrow> PAGE_SIZE * (int (pages len) - 1) < len"
    "pages len = 0 \<longleftrightarrow> len = 0"
proof -
  define q where "q = (len + 4095) div PAGE_SIZE"
  have q: "PAGE_SIZE * q \<le> len + 4095" "len < PAGE_SIZE * q + 1"
    using mult_div_mod_eq [of PAGE_SIZE "len + 4095"] pos_mod_bound [of PAGE_SIZE "len + 4095"]
      pos_mod_sign [of PAGE_SIZE "len + 4095"] unfolding q_def by linarith+
  then have "0 \<le> q" using assms by linarith
  then have p: "int (pages len) = q" by (simp add: pages_def q_def)
  show "len \<le> PAGE_SIZE * int (pages len)" "0 < pages len \<Longrightarrow> PAGE_SIZE * (int (pages len) - 1) < len"
    unfolding p using q by simp_all
  show "pages len = 0 \<longleftrightarrow> len = 0" using q assms p by auto
qed

text \<open>
  The loop that counts the pages of a request ends for every length: with the number of
  pages that hold it, or, for a length in the last page below \<open>2 ^ 31\<close>, in the overflow of its
  counter.
\<close>

theorem count_pages_spec:
  assumes "0 \<le> len" "len \<le> INT_MAX"
  shows "count_pages 0 len 0 s =
    (if len \<le> INT_MAX - PAGE_SIZE + 1 then Ok (int (pages len)) s else Fault ''signed overflow'')"
proof -
  note b = pages_bounds [OF assms(1)]
  show ?thesis
  proof (cases "len \<le> INT_MAX - PAGE_SIZE + 1")
    case True
    then have "PAGE_SIZE * int (pages len) \<le> INT_MAX" using b by (cases "pages len = 0") auto
    then show ?thesis using True b count_pages_eq [of len 0 "pages len" 0 s] by simp
  next
    case False
    then have "524288 \<le> int (pages len)" using b(1) by linarith
    then have "INT_MAX < PAGE_SIZE * int (pages len)" "0 < pages len" by linarith+
    then show ?thesis using False b count_pages_overflow [of 0 "pages len" len 0 s] by simp
  qed
qed

theorem count_pages_spec_witness: "\<exists>s. count_pages 0 4097 0 s = Ok 2 s"
  using count_pages_spec [of 4097] by (simp add: pages_def)

definition free_run :: "mmap_desc list \<Rightarrow> nat \<Rightarrow> nat \<Rightarrow> bool" where
  "free_run mds n i \<longleftrightarrow> (\<forall>k. i \<le> k \<and> k < i + n \<longrightarrow> \<not> md_valid (mds ! k))"

lemma find_run_inv:
  assumes "0 < n" "run < n" "run \<le> lo" "lo \<le> hi"
    and "\<forall>k. lo - run \<le> k \<and> k < lo \<longrightarrow> \<not> md_valid (mds ! k)" "run < lo \<longrightarrow> md_valid (mds ! (lo - run - 1))"
    and "\<forall>i. i + n \<le> lo \<longrightarrow> \<not> free_run mds n i"
  shows "(find_run mds (int n) (int run) [lo..<hi] = - 1 \<and> (\<forall>i. i + n \<le> hi \<longrightarrow> \<not> free_run mds n i)) \<or>
    (\<exists>i. find_run mds (int n) (int run) [lo..<hi] = int i \<and> i + n \<le> hi \<and> free_run mds n i \<and>
      (\<forall>j < i. \<not> free_run mds n j))"
  using assms
proof (induction "hi - lo" arbitrary: lo run)
  case 0
  then show ?case by simp
next
  case (Suc d)
  then have lo: "lo < hi" "d = hi - Suc lo" and u: "[lo..<hi] = lo # [Suc lo..<hi]" by (auto simp: upt_conv_Cons)
  show ?case
  proof (cases "md_valid (mds ! lo)")
    case True
    have "\<not> free_run mds n i" if "i + n \<le> Suc lo" for i
    proof (cases "i + n = Suc lo")
      case top: True
      then have "i \<le> lo \<and> lo < i + n" using Suc.prems(1) by linarith
      then show ?thesis using True unfolding free_run_def by blast
    qed (use that Suc.prems(7) in auto)
    moreover have "\<forall>k. Suc lo \<le> k \<and> k < Suc lo \<longrightarrow> \<not> md_valid (mds ! k)" by auto
    ultimately show ?thesis
      using Suc.hyps(1) [OF lo(2), of 0] True Suc.prems(1) lo(1) by (simp add: u)
  next
    case False
    show ?thesis
    proof (cases "Suc run = n")
      case True
      then have r: "find_run mds (int n) (int run) [lo..<hi] = int (lo - run)"
        using False Suc.prems(3) by (simp add: u of_nat_diff)
      have "free_run mds n (lo - run)"
        using Suc.prems(3,5) False True by (auto simp: free_run_def less_Suc_eq)
      moreover have "\<not> free_run mds n j" if "j < lo - run" for j
        using Suc.prems(7) True that by auto
      moreover have "lo - run + n \<le> hi" using True Suc.prems(3) lo(1) by simp
      ultimately show ?thesis using r by blast
    next
      case neq: False
      have "\<not> free_run mds n i" if "i + n \<le> Suc lo" for i
      proof (cases "i + n = Suc lo")
        case True
        then have "run < lo" "i \<le> lo - run - 1" "lo - run - 1 < i + n" using neq Suc.prems(2) by linarith+
        then show ?thesis using Suc.prems(6) by (auto simp: free_run_def)
      qed (use that Suc.prems(7) in auto)
      moreover have "\<not> md_valid (mds ! k)" if "Suc lo - Suc run \<le> k" "k < Suc lo" for k
        using that False Suc.prems(5) by (cases "k = lo") auto
      ultimately show ?thesis
        using Suc.hyps(1) [OF lo(2), of "Suc run"] neq False Suc.prems lo(1) by (simp add: u add.commute)
    qed
  qed
qed

lemma find_run_first_eq:
  "find_run mds (int n) 0 [0..<PAGE_LIMIT] =
     (if n \<noteq> 0 \<and> (\<exists>i. i + n \<le> PAGE_LIMIT \<and> free_run mds n i) then int (LEAST i. free_run mds n i) else - 1)"
proof (cases "n = 0")
  case True
  have "find_run mds 0 r js = - 1" if "0 \<le> r" for r js
    using that by (induction js arbitrary: r) auto
  then show ?thesis using True by simp
next
  case False
  then have "(find_run mds (int n) (int 0) [0..<PAGE_LIMIT] = - 1 \<and> (\<forall>i. i + n \<le> PAGE_LIMIT \<longrightarrow> \<not> free_run mds n i)) \<or>
    (\<exists>i. find_run mds (int n) (int 0) [0..<PAGE_LIMIT] = int i \<and> i + n \<le> PAGE_LIMIT \<and> free_run mds n i \<and>
      (\<forall>j < i. \<not> free_run mds n j))"
    by (intro find_run_inv) auto
  then show ?thesis
  proof (elim disjE exE conjE)
    fix i
    assume i: "find_run mds (int n) (int 0) [0..<PAGE_LIMIT] = int i" "i + n \<le> PAGE_LIMIT" "free_run mds n i"
      "\<forall>j < i. \<not> free_run mds n j"
    then have "(LEAST i. free_run mds n i) = i" by (intro Least_equality) (auto simp: not_less [symmetric])
    then show ?thesis using i False by (auto simp del: upt_rec_numeral)
  qed (use False in \<open>auto simp del: upt_rec_numeral\<close>)
qed

text \<open>The first run of \<open>n\<close> unused descriptors; a request for no page at all has none.\<close>

definition first_run :: "mmap_desc list \<Rightarrow> nat \<Rightarrow> nat option" where
  "first_run mds n = (if n \<noteq> 0 \<and> (\<exists>i. i + n \<le> PAGE_LIMIT \<and> free_run mds n i)
     then Some (LEAST i. free_run mds n i) else None)"

lemma find_run_first_run:
  "find_run mds (int n) 0 [0..<PAGE_LIMIT] = (case first_run mds n of None \<Rightarrow> - 1 | Some i \<Rightarrow> int i)"
  by (simp add: find_run_first_eq first_run_def del: upt_rec_numeral)

lemma first_run_Some:
  assumes "first_run mds n = Some i"
  shows "free_run mds n i" "i + n \<le> PAGE_LIMIT" "0 < n" "j < i \<Longrightarrow> \<not> free_run mds n j"
proof -
  obtain j where j: "j + n \<le> PAGE_LIMIT" "free_run mds n j" "0 < n" and i: "i = (LEAST i. free_run mds n i)"
    using assms by (auto simp: first_run_def split: if_splits)
  show "free_run mds n i" "0 < n" unfolding i using j by (auto intro: LeastI)
  have "i \<le> j" unfolding i using j(2) by (rule Least_le)
  then show "i + n \<le> PAGE_LIMIT" using j(1) by linarith
  show "j < i \<Longrightarrow> \<not> free_run mds n j" for j unfolding i by (rule not_less_Least)
qed

lemma first_run_None: "first_run mds n = None \<longleftrightarrow> n = 0 \<or> (\<forall>i. i + n \<le> PAGE_LIMIT \<longrightarrow> \<not> free_run mds n i)"
  by (auto simp: first_run_def)

text \<open>
  The search for free descriptors returns the first run of \<open>n\<close> unused ones, and fails only
  when there is none; a request for no page at all fails.
\<close>

theorem find_run_first:
  "find_run mds (int n) 0 [0..<PAGE_LIMIT] =
     (if n \<noteq> 0 \<and> (\<exists>i. i + n \<le> PAGE_LIMIT \<and> free_run mds n i) then int (LEAST i. free_run mds n i) else - 1)"
  by (rule find_run_first_eq)

section \<open>Anonymous mappings\<close>

definition set_mds :: "nat \<Rightarrow> mmap_desc list \<Rightarrow> kernel \<Rightarrow> kernel" where
  "set_mds p mds s = upd_proc p (\<lambda>q. q\<lparr>p_mmaps := mds\<rparr>) s"

lemma set_mds_simps [simp]:
  assumes "p < length (ptable s)"
  shows "p_mmaps (ptable (set_mds p mds s) ! p) = mds"
    "upd_md p i f (set_mds p mds s) = set_mds p (mds[i := f (mds ! i)]) s"
    "set_mds p (p_mmaps (ptable s ! p)) s = s"
  using assms by (simp_all add: set_mds_def upd_md_def upd_proc_def)

lemma get_md_set_mds: "p < length (ptable s) \<Longrightarrow> get_md p i (set_mds p mds s) = Ok (mds ! i) (set_mds p mds s)"
  by (simp add: get_md_def gets_def)

text \<open>A descriptor as an anonymous request fills it in.\<close>

definition anon_desc :: "int \<Rightarrow> int \<Rightarrow> int \<Rightarrow> bool \<Rightarrow> int \<Rightarrow> mmap_desc \<Rightarrow> mmap_desc" where
  "anon_desc len prot flags guard va md = md\<lparr>md_valid := True, md_dirty := False, md_flags := flags, md_prot := prot,
     md_ref := 1, md_guard_page := guard, md_f := None, md_length := len, md_virtualAddress := va\<rparr>"

text \<open>The descriptors after a request for \<open>n\<close> pages at \<open>va\<close> that got the descriptors from \<open>i\<close> on.\<close>

definition fill_run :: "int \<Rightarrow> int \<Rightarrow> int \<Rightarrow> nat \<Rightarrow> nat \<Rightarrow> int \<Rightarrow> mmap_desc list \<Rightarrow> mmap_desc list" where
  "fill_run len prot flags i n va mds = map (\<lambda>k. if i \<le> k \<and> k < i + n
     then anon_desc len prot flags (k = i + n - 1 \<and> has_flag flags MAP_GROWSUP) (va + PAGE_SIZE * int (k - i)) (mds ! k)
     else mds ! k) [0..<length mds]"

lemma mmap_setup_anon:
  assumes "has_flag flags MAP_ANON" "p < length (ptable s)" "j + n \<le> length mds" "va + PAGE_SIZE * int n \<le> INT_MAX"
    "\<forall>k. j \<le> k \<and> k < j + n \<longrightarrow> \<not> md_valid (mds ! k)" "0 < n"
  shows "mmap_setup p len prot flags (j + n - 1) [j..<j + n] va (set_mds p mds s) =
    Ok (Some (va + PAGE_SIZE * int n)) (set_mds p (fill_run len prot flags j n va mds) s)"
  using assms
proof (induction n arbitrary: j va mds)
  case 0
  from less_irrefl [of 0] 0(6) show ?case by (rule notE)
next
  case (Suc n)
  let ?d = "anon_desc len prot flags (j = j + n \<and> has_flag flags MAP_GROWSUP) va (mds ! j)"
  have u: "[j..<j + Suc n] = j # [Suc j..<Suc j + n]" by (subst upt_conv_Cons) (simp_all del: upt_Suc)
  have "mmap_setup p len prot flags (j + Suc n - 1) [j..<j + Suc n] va (set_mds p mds s) =
      mmap_setup p len prot flags (Suc j + n - 1) [Suc j..<Suc j + n] (va + PAGE_SIZE) (set_mds p (mds[j := ?d]) s)"
    unfolding u using Suc.prems
    by (simp add: get_md_set_mds bindM_def seqM_def modify_def ret_def anon_desc_def del: upt_Suc)
  also have "\<dots> = Ok (Some (va + PAGE_SIZE * int (Suc n))) (set_mds p (fill_run len prot flags j (Suc n) va mds) s)"
  proof (cases "n = 0")
    case True
    have "mds[j := ?d] = fill_run len prot flags j (Suc n) va mds"
      using Suc.prems(3) True by (intro nth_equalityI) (auto simp: fill_run_def nth_list_update)
    then show ?thesis using True by (simp add: ret_def)
  next
    case False
    have "fill_run len prot flags (Suc j) n (va + PAGE_SIZE) (mds[j := ?d]) = fill_run len prot flags j (Suc n) va mds"
      using Suc.prems(3) False
      by (intro nth_equalityI) (auto simp: fill_run_def nth_list_update of_nat_diff algebra_simps)
    moreover have "mmap_setup p len prot flags (Suc j + n - 1) [Suc j..<Suc j + n] (va + PAGE_SIZE) (set_mds p (mds[j := ?d]) s) =
        Ok (Some (va + PAGE_SIZE + PAGE_SIZE * int n)) (set_mds p (fill_run len prot flags (Suc j) n (va + PAGE_SIZE) (mds[j := ?d])) s)"
      using Suc.prems False by (intro Suc.IH) (auto simp: nth_list_update)
    ultimately show ?thesis by (simp add: algebra_simps)
  qed
  finally show ?case .
qed

lemma mmap_place_anon:
  assumes "has_flag flags MAP_ANON" "p < length (ptable s)" "mds = p_mmaps (ptable s ! p)" "length mds = PAGE_LIMIT"
    "va + PAGE_SIZE * int n \<le> INT_MAX"
  shows "mmap_place p len prot flags (int n) va s = (case first_run mds n of None \<Rightarrow> Ok (- 1) s
    | Some i \<Rightarrow> Ok va ((set_mds p (fill_run len prot flags i n va mds) s)
        \<lparr>VA_PTR := if has_flag flags MAP_FIXED then VA_PTR s else va + PAGE_SIZE * int n\<rparr>))"
proof (cases "first_run mds n")
  case None
  then have "find_run mds (int n) 0 [0..<PAGE_LIMIT] = - 1" by (simp only: find_run_first_run option.case)
  then show ?thesis using None assms(3) by (simp add: mmap_place_def gets_def ret_def del: upt_rec_numeral)
next
  case (Some i)
  note i = first_run_Some [OF Some]
  have r: "find_run mds (int n) 0 [0..<PAGE_LIMIT] = int i" using Some by (simp only: find_run_first_run option.case)
  let ?mds = "fill_run len prot flags i n va mds"
  have "mmap_setup p len prot flags (i + n - 1) [i..<i + n] va (set_mds p mds s) =
      Ok (Some (va + PAGE_SIZE * int n)) (set_mds p ?mds s)"
    using i assms(4) by (intro mmap_setup_anon [OF assms(1,2) _ assms(5)]) (simp_all add: free_run_def)
  then have fill: "mmap_setup p len prot flags (i + n - 1) [i..<i + n] va s =
      Ok (Some (va + PAGE_SIZE * int n)) (set_mds p ?mds s)"
    using assms(2,3) by simp
  have first: "md_virtualAddress (?mds ! i) = va" using i assms(4) by (simp add: fill_run_def anon_desc_def)
  have n: "nat (int i + int n) = i + n" "nat (int i + int n - 1) = i + n - 1" using i(3) by linarith+
  have "gets (\<lambda>s. find_run (p_mmaps (ptable s ! p)) (int n) 0 [0..<PAGE_LIMIT]) s = Ok (int i) s"
    using r assms(3) by (simp only: gets_def)
  then have "mmap_place p len prot flags (int n) va s =
      seqM (whenM (\<not> has_flag flags MAP_FIXED) (modify (\<lambda>s. s\<lparr>VA_PTR := va + PAGE_SIZE * int n\<rparr>)))
        (bindM (get_md p i) (\<lambda>md. ret (md_virtualAddress md))) (set_mds p ?mds s)"
    unfolding mmap_place_def using fill by (simp add: n del: upt_rec_numeral)
  then show ?thesis using Some first assms(2)
    by (simp add: whenM_def seqM_def bindM_def modify_def get_md_def gets_def ret_def set_mds_def upd_proc_def)
qed

lemma count_pages_Ok: "0 \<le> len \<Longrightarrow> len \<le> INT_MAX - PAGE_SIZE + 1 \<Longrightarrow> count_pages 0 len 0 s = Ok (int (pages len)) s"
proof -
  assume "0 \<le> len" "len \<le> INT_MAX - PAGE_SIZE + 1"
  moreover from this have "PAGE_SIZE * int (pages len) \<le> INT_MAX"
    using pages_bounds [of len] by (cases "pages len = 0") auto
  ultimately show ?thesis using pages_bounds [of len] count_pages_eq [of len 0 "pages len" 0 s] by simp
qed

text \<open>The number of descriptors a request takes: one for each page and a guard page if it grows.\<close>

definition req_pages :: "int \<Rightarrow> int \<Rightarrow> nat" where
  "req_pages len flags = pages len + (if has_flag flags MAP_GROWSUP then 1 else 0)"

lemma req_pages_int: "int (req_pages len flags) = (if has_flag flags MAP_GROWSUP then int (pages len) + 1 else int (pages len))"
  by (simp add: req_pages_def)

lemma mmap_anonymous_eq:
  assumes "p < length (ptable s)" "mds = p_mmaps (ptable s ! p)" "length mds = PAGE_LIMIT"
    and "has_flag flags MAP_ANON" "has_flag flags MAP_PRIVATE \<or> has_flag flags MAP_SHARED" "\<not> has_flag flags MAP_FIXED"
    and "0 \<le> offset" "0 \<le> len" "len \<le> INT_MAX - PAGE_SIZE + 1"
    and n: "n = req_pages len flags" "VA_PTR s + PAGE_SIZE * int n \<le> INT_MAX"
  shows "mmap_request p addr len prot flags offset s = (case first_run mds n of
      None \<Rightarrow> Ok (- 1) s
    | Some i \<Rightarrow> Ok (VA_PTR s) ((set_mds p (fill_run len prot flags i n (VA_PTR s) mds) s)
        \<lparr>VA_PTR := VA_PTR s + PAGE_SIZE * int n\<rparr>))"
proof -
  have "mmap_request p addr len prot flags offset s = mmap_place p len prot flags (int n) (VA_PTR s) s"
    using assms(5-8) count_pages_Ok [OF assms(8,9), of s]
    by (auto simp: mmap_request_def gets_def n(1) req_pages_def bindM_def Let_def)
  then show ?thesis using mmap_place_anon [OF assms(4,1,2,3) n(2), of len prot] assms(6) by simp
qed

text \<open>
  C27: An anonymous request that leaves the address to the kernel gets the first run of unused
  descriptors that is long enough.  They then describe consecutive pages from the next unused
  address on, valid, with the given protection and flags and one reference, the last one as the
  guard page of a growing mapping; the address is returned and the next unused address moves
  past the mapping.  No other descriptor changes.  When there is no such run the request returns
  -1 and changes nothing.
\<close>

theorem mmap_anonymous:
  assumes "p < length (ptable s)" "mds = p_mmaps (ptable s ! p)" "length mds = PAGE_LIMIT"
    and "has_flag flags MAP_ANON" "has_flag flags MAP_PRIVATE \<or> has_flag flags MAP_SHARED" "\<not> has_flag flags MAP_FIXED"
    and "0 \<le> offset" "0 \<le> len" "len \<le> INT_MAX - PAGE_SIZE + 1"
    and n: "n = req_pages len flags" "VA_PTR s + PAGE_SIZE * int n \<le> INT_MAX"
  shows "mmap_request p addr len prot flags offset s = (case first_run mds n of
      None \<Rightarrow> Ok (- 1) s
    | Some i \<Rightarrow> Ok (VA_PTR s) ((set_mds p (fill_run len prot flags i n (VA_PTR s) mds) s)
        \<lparr>VA_PTR := VA_PTR s + PAGE_SIZE * int n\<rparr>))"
  by (rule mmap_anonymous_eq [OF assms])

text \<open>Whether one of \<open>n\<close> pages from an address on starts in the page of a descriptor.\<close>

definition page_taken :: "mmap_desc list \<Rightarrow> int \<Rightarrow> nat list \<Rightarrow> bool" where
  "page_taken mds addr js \<longleftrightarrow> (\<exists>j \<in> set js. \<exists>i < PAGE_LIMIT. covers (mds ! i) (addr + PAGE_SIZE * int j))"

lemma fixed_conflict_eq:
  assumes "no_overflow mds" "\<forall>j \<in> set js. addr + PAGE_SIZE * int j \<le> INT_MAX"
  shows "fixed_conflict mds addr js s = Ok (page_taken mds addr js) s"
  using assms(2)
proof (induction js)
  case (Cons j js)
  let ?r = "find (\<lambda>i. covers (mds ! i) (addr + PAGE_SIZE * int j)) [0..<PAGE_LIMIT]"
  have "find_desc mds (addr + PAGE_SIZE * int j) [0..<PAGE_LIMIT] s = Ok ?r s" by (rule find_desc_all [OF assms(1)])
  moreover have "?r \<noteq> None \<longleftrightarrow> (\<exists>i < PAGE_LIMIT. covers (mds ! i) (addr + PAGE_SIZE * int j))"
    unfolding find_upt_None by blast
  ultimately show ?case using Cons by (auto simp: page_taken_def ret_def bindM_def simp del: upt_rec_numeral)
qed (simp add: ret_def page_taken_def)

lemma mmap_fixed_eq:
  assumes "p < length (ptable s)" "mds = p_mmaps (ptable s ! p)" "length mds = PAGE_LIMIT" "no_overflow mds"
    and "has_flag flags MAP_ANON" "has_flag flags MAP_PRIVATE \<or> has_flag flags MAP_SHARED" "has_flag flags MAP_FIXED"
    and "0 \<le> offset" "0 \<le> len" "VIRT_ADDR_START \<le> addr"
    and n: "n = req_pages len flags" "addr + PAGE_SIZE * int n \<le> INT_MAX"
  shows "mmap_request p addr len prot flags offset s =
    (if page_taken mds addr [0..<n] then Ok (- 1) s
     else case first_run mds n of None \<Rightarrow> Ok (- 1) s
       | Some i \<Rightarrow> Ok addr (set_mds p (fill_run len prot flags i n addr mds) s))"
proof -
  have le: "len \<le> PAGE_SIZE * int n" using pages_bounds(1) [OF assms(9)] by (simp add: n(1) req_pages_def)
  have "uint (word_of_int (addr + len) :: uint) = addr + len"
    using le n(2) assms(9,10) by (simp only: unsigned_of_int) (simp add: take_bit_int_eq_self)
  then have lt: "\<not> (0x80000000 :: uint) \<le> word_of_int (addr + len)"
    using le n(2) by (simp only: word_le_def) simp
  have "len \<le> INT_MAX - PAGE_SIZE + 1" using le n(2) assms(10) by linarith
  note count = count_pages_Ok [OF assms(9) this, of s]
  have "\<forall>j \<in> set [0..<n]. addr + PAGE_SIZE * int j \<le> INT_MAX" using n(2) by auto
  note conflict = fixed_conflict_eq [OF assms(4) this, of s]
  have e: "mmap_request p addr len prot flags offset s =
      (if page_taken mds addr [0..<n] then Ok (- 1) s else mmap_place p len prot flags (int n) addr s)"
    using assms(2,6-10) count conflict lt le n(2)
    by (auto simp: mmap_request_def gets_def n(1) [symmetric] req_pages_int [symmetric] ret_def bindM_def Let_def
        simp del: of_int_add)
  have "(set_mds p m s)\<lparr>VA_PTR := VA_PTR s\<rparr> = set_mds p m s" for m by (simp add: set_mds_def upd_proc_def)
  then have "mmap_place p len prot flags (int n) addr s = (case first_run mds n of None \<Rightarrow> Ok (- 1) s
       | Some i \<Rightarrow> Ok addr (set_mds p (fill_run len prot flags i n addr mds) s))"
    using mmap_place_anon [OF assms(5,1,2,3) n(2), of len prot] assms(7) by (cases "first_run mds n") simp_all
  then show ?thesis unfolding e by (rule arg_cong)
qed

text \<open>
  C22: A request for a fixed address inside the mapping area is refused, with nothing changed,
  exactly when one of its pages starts in the page of an existing mapping or there is no run of
  unused descriptors; otherwise it maps the requested address and leaves the next unused address
  alone.
\<close>

theorem mmap_fixed:
  assumes "p < length (ptable s)" "mds = p_mmaps (ptable s ! p)" "length mds = PAGE_LIMIT" "no_overflow mds"
    and "has_flag flags MAP_ANON" "has_flag flags MAP_PRIVATE \<or> has_flag flags MAP_SHARED" "has_flag flags MAP_FIXED"
    and "0 \<le> offset" "0 \<le> len" "VIRT_ADDR_START \<le> addr"
    and n: "n = req_pages len flags" "addr + PAGE_SIZE * int n \<le> INT_MAX"
  shows "mmap_request p addr len prot flags offset s =
    (if page_taken mds addr [0..<n] then Ok (- 1) s
     else case first_run mds n of None \<Rightarrow> Ok (- 1) s
       | Some i \<Rightarrow> Ok addr (set_mds p (fill_run len prot flags i n addr mds) s))"
  by (rule mmap_fixed_eq [OF assms])

section \<open>Overlap\<close>

lemma length_fill_run [simp]: "length (fill_run len prot flags i n va mds) = length mds"
  by (simp add: fill_run_def)

lemma fill_run_nth:
  "k < length mds \<Longrightarrow> fill_run len prot flags i n va mds ! k = (if i \<le> k \<and> k < i + n
     then anon_desc len prot flags (k = i + n - 1 \<and> has_flag flags MAP_GROWSUP) (va + PAGE_SIZE * int (k - i)) (mds ! k)
     else mds ! k)"
  by (simp add: fill_run_def)

text \<open>The pages of the valid descriptors: aligned, and no two on the same page.\<close>

definition disjoint_pages :: "mmap_desc list \<Rightarrow> bool" where
  "disjoint_pages mds \<longleftrightarrow> (\<forall>i < PAGE_LIMIT. md_valid (mds ! i) \<longrightarrow> PAGE_SIZE dvd md_virtualAddress (mds ! i)) \<and>
     (\<forall>i < PAGE_LIMIT. \<forall>j < PAGE_LIMIT. i \<noteq> j \<longrightarrow> md_valid (mds ! i) \<longrightarrow> md_valid (mds ! j) \<longrightarrow>
        md_virtualAddress (mds ! i) \<noteq> md_virtualAddress (mds ! j))"

lemma disjoint_fill_run:
  assumes "disjoint_pages mds" "length mds = PAGE_LIMIT" "PAGE_SIZE dvd addr" "i + n \<le> PAGE_LIMIT"
    and free: "\<not> page_taken mds addr [0..<n]"
  shows "disjoint_pages (fill_run len prot flags i n addr mds)"
proof -
  let ?m = "fill_run len prot flags i n addr mds"
  define new where "new k \<longleftrightarrow> i \<le> k \<and> k < i + n" for k
  have va: "md_valid (?m ! k) \<longleftrightarrow> new k \<or> md_valid (mds ! k)"
    "md_virtualAddress (?m ! k) = (if new k then addr + PAGE_SIZE * int (k - i) else md_virtualAddress (mds ! k))"
    if "k < PAGE_LIMIT" for k
    using that assms(2) by (auto simp: fill_run_nth anon_desc_def new_def)
  have old: "md_virtualAddress (mds ! k) \<noteq> addr + PAGE_SIZE * int (l - i)"
    if "k < PAGE_LIMIT" "md_valid (mds ! k)" "new l" for k l
  proof
    assume "md_virtualAddress (mds ! k) = addr + PAGE_SIZE * int (l - i)"
    then have "covers (mds ! k) (addr + PAGE_SIZE * int (l - i))" using that by (simp add: covers_def)
    then have "page_taken mds addr [0..<n]" unfolding page_taken_def
      using that by (intro bexI [of _ "l - i"] exI [of _ k]) (auto simp: new_def)
    then show False using free by simp
  qed
  show ?thesis unfolding disjoint_pages_def
  proof (intro conjI allI impI)
    show "PAGE_SIZE dvd md_virtualAddress (?m ! k)" if "k < PAGE_LIMIT" "md_valid (?m ! k)" for k
      using va [OF that(1)] that assms(1,3) by (auto simp: disjoint_pages_def)
    show "md_virtualAddress (?m ! k) \<noteq> md_virtualAddress (?m ! l)"
      if "k < PAGE_LIMIT" "l < PAGE_LIMIT" "k \<noteq> l" "md_valid (?m ! k)" "md_valid (?m ! l)" for k l
    proof (cases "new k \<and> new l")
      case True
      then show ?thesis using va that by (auto simp: new_def)
    next
      case False
      then show ?thesis
        using va [OF that(1)] va [OF that(2)] that assms(1) old [of k l] old [of l k] by (auto simp: disjoint_pages_def)
    qed
  qed
qed


text \<open>
  C37: A request that leaves the address to the kernel does not look at the existing mappings: if
  the next unused address is already covered, as it is after a fixed request for it, the new
  mapping is placed over the old one and both descriptors are valid for the same page.
\<close>

theorem mmap_overlaps_fixed:
  assumes "p < length (ptable s)" "mds = p_mmaps (ptable s ! p)" "length mds = PAGE_LIMIT"
    and "has_flag flags MAP_ANON" "has_flag flags MAP_PRIVATE \<or> has_flag flags MAP_SHARED" "\<not> has_flag flags MAP_FIXED"
    and "0 \<le> offset" "0 \<le> len" "len \<le> INT_MAX - PAGE_SIZE + 1"
    and "n = req_pages len flags" "VA_PTR s + PAGE_SIZE * int n \<le> INT_MAX"
    and run: "first_run mds n = Some i" and old: "k < PAGE_LIMIT" "covers (mds ! k) (VA_PTR s)"
  shows "\<exists>t. mmap_request p addr len prot flags offset s = Ok (VA_PTR s) t \<and> i \<noteq> k \<and>
    covers (p_mmaps (ptable t ! p) ! k) (VA_PTR s) \<and> covers (p_mmaps (ptable t ! p) ! i) (VA_PTR s)"
proof -
  note i = first_run_Some [OF run]
  have "\<not> (i \<le> k \<and> k < i + n)" using i(1) old by (auto simp: free_run_def covers_def)
  then have k: "fill_run len prot flags i n (VA_PTR s) mds ! k = mds ! k" using old assms(3) by (auto simp: fill_run_nth)
  have "covers (fill_run len prot flags i n (VA_PTR s) mds ! i) (VA_PTR s)"
    using i(2,3) assms(3) by (simp add: fill_run_nth anon_desc_def covers_def)
  moreover have "i \<noteq> k" using i(1,3) old by (auto simp: free_run_def covers_def)
  moreover have "p_mmaps (ptable ((set_mds p m s)\<lparr>VA_PTR := v\<rparr>) ! p) = m" for m v using assms(1) by simp
  ultimately show ?thesis using mmap_anonymous_eq [OF assms(1-11)] run old k by simp
qed

section \<open>Page faults\<close>

lemma kexit_no_return: "kexit s \<noteq> Ok x t"
  using locks_kexit [of "held s" "[]"] locks_kexit [of "held s" "[PtableLock]"]
  by (auto simp: locks_iff dest!: spec [of _ s])

lemma seqM_kexit: "seqM kexit k s = kexit s"
  using kexit_no_return [of s] by (auto simp: seqM_def bindM_def split: outcome.splits)

text \<open>The flags of a page table entry for a protection of PROT_READ and PROT_WRITE.\<close>

lemma frame_of_prot:
  assumes "0 \<le> prot" "prot \<le> 3" "page_aligned p"
  shows "frame_of (V2P p OR (word_of_int prot OR PTE_U) OR PTE_P) = p"
proof -
  have "prot = 0 \<or> prot = 1 \<or> prot = 2 \<or> prot = 3" using assms by linarith
  then have "\<exists>f. (word_of_int prot OR PTE_U) OR PTE_P = f \<and> (f = 5 \<or> f = 7)" by auto
  then obtain f where f: "(word_of_int prot OR PTE_U) OR PTE_P = f" "f = 5 \<or> f = 7" by blast
  have "\<not> bit f n" if "n \<ge> 12" for n
  proof -
    have "f = f AND mask 3" using f(2) by (auto simp: mask_eq_exp_minus_1)
    then have "bit f n \<longleftrightarrow> bit (f AND mask 3) n" by simp
    then show ?thesis using that by (simp add: bit_simps)
  qed
  then have "PTE_ADDR (V2P p OR f) = V2P p" using assms(3) by (intro PTE_ADDR_flags) simp_all
  then show ?thesis unfolding or.assoc f(1) [unfolded or.assoc] frame_of_def by simp
qed

lemma fault_found:
  assumes "cur s = Some p" "mds = p_mmaps (ptable s ! p)" "no_overflow mds"
    "i < PAGE_LIMIT" "covers (mds ! i) (sint cr2)" "\<forall>j < i. \<not> covers (mds ! j) (sint cr2)"
  shows "page_fault cr2 s = (if md_guard_page (mds ! i) then allocatePageGuard p i cr2 s else allocatePageNonGuard p i cr2 s)"
proof -
  have "find (\<lambda>i. covers (mds ! i) (sint cr2)) [0..<PAGE_LIMIT] = Some i"
    unfolding find_upt_Some using assms(4-6) by blast
  then have "find_desc mds (sint cr2) [0..<PAGE_LIMIT] s = Ok (Some i) s"
    using find_desc_all [OF assms(3)] by (simp only:)
  then show ?thesis using assms(1,2) by (simp add: page_fault_def curproc_Ok gets_def del: upt_rec_numeral)
qed

text \<open>
  C17: The first access to a page of an anonymous mapping maps it.  Either a fresh frame full of
  zeros is mapped at exactly that page with the protection of the mapping, the rest of the
  address space unchanged and every page of physical memory accounted for; or the frame can be
  had but no page table, and the process exits; or there is no memory at all, and the kernel
  panics.
\<close>

theorem page_fault_anonymous:
  assumes "cur s = Some p" "mds = p_mmaps (ptable s ! p)" "no_overflow mds" "p < length (ptable s)"
    and i: "i < PAGE_LIMIT" "covers (mds ! i) (sint cr2)" "\<forall>j < i. \<not> covers (mds ! j) (sint cr2)"
    and md: "\<not> md_guard_page (mds ! i)" "has_flag (md_flags (mds ! i)) MAP_ANON"
      "0 \<le> md_prot (mds ! i)" "md_prot (mds ! i) \<le> 3"
    and inv: "pd = p_pgdir (ptable s ! p)" "uvm_inv s pd T P"
    and va: "va = PGROUNDDOWN cr2" "va < KERNBASE" "vmap (kmem s) pd va = None"
    and e: "e = (\<lambda>f. V2P f OR (word_of_int (md_prot (mds ! i)) OR PTE_U) OR PTE_P)"
  shows "(\<exists>f t T' P'. page_fault cr2 s = Ok () t \<and> uvm_grow s pd T P t T' P' \<and>
      f \<in> user_frames (kmem t) pd - user_frames (kmem s) pd \<and>
      vmap (kmem t) pd = (vmap (kmem s) pd)(va \<mapsto> e f) \<and> (\<forall>x. in_page f x \<longrightarrow> kmem t x = 0))
    \<or> (\<exists>f u. P = {f} \<and> p_killed (ptable u ! p) \<and> page_fault cr2 s = kexit u)
    \<or> P = {} \<and> page_fault cr2 s = Panic ''kalloc''"
proof -
  have al: "page_aligned va" by (simp add: va(1))
  have fr: "\<forall>q. page_aligned q \<longrightarrow> frame_of (V2P q OR (word_of_int (md_prot (mds ! i)) OR PTE_U) OR PTE_P) = q"
    using frame_of_prot [OF md(3,4)] by blast
  have f: "page_fault cr2 s = allocatePageNonGuard p i cr2 s"
    using fault_found [OF assms(1-3) i] md(1) by (simp only: if_False)
  from inv(2) al va(2,3) fr show ?thesis
  proof (cases rule: grow_page_perm)
    case none
    then show ?thesis by (simp add: f allocatePageNonGuard_def panic_def)
  next
    case (full q fl s0)
    have "page_fault cr2 s = seqM (seqM (kfree q) (bindM curproc (\<lambda>cp.
        seqM (modify (upd_proc cp (\<lambda>q. q\<lparr>p_killed := True\<rparr>))) kexit))) (fill_from_file p i q) s0"
      using full inv(1) assms(2) by (simp add: f allocatePageNonGuard_def va(1) [symmetric] get_md_def gets_def modify_def memset_eq_set_range seqM_def bindM_def)
    moreover have "free_pages s0 {}" "page_ok s0 q" using full(3,5,7) by (simp_all add: uvm_inv_def vm_inv_def page_ok_def)
    then obtain m where "kfree q s0 = Ok () (s0\<lparr>kmem := m, freelist := q\<rparr>)" using pa.free_page by blast
    moreover have "cur (s0\<lparr>kmem := m, freelist := q\<rparr>) = Some p" "ptable (s0\<lparr>kmem := m, freelist := q\<rparr>) = ptable s"
      using assms(1) by (simp_all add: full(5))
    ultimately have "page_fault cr2 s = kexit (upd_proc p (\<lambda>q. q\<lparr>p_killed := True\<rparr>) (s0\<lparr>kmem := m, freelist := q\<rparr>))"
      using kexit_no_return by (simp add: seqM_def curproc_Ok modify_def bindM_def split: outcome.splits)
    moreover have "p_killed (ptable (upd_proc p (\<lambda>q. q\<lparr>p_killed := True\<rparr>) (s0\<lparr>kmem := m, freelist := q\<rparr>)) ! p)"
      using assms(4) by (simp add: upd_proc_def full(5))
    ultimately show ?thesis using full(4) by blast
  next
    case (mapped q fl s' T' P')
    have "ptable s' = ptable s" using mapped(4) by (auto simp: uvm_grow_def)
    then have "page_fault cr2 s = Ok () s'"
      using mapped(1-3) inv(1) assms(2) md(2) by (simp add: f allocatePageNonGuard_def fill_from_file_def
          va(1) [symmetric] get_md_def gets_def modify_def memset_eq_set_range seqM_def bindM_def ret_def)
    then show ?thesis using mapped(4-7) unfolding e by blast
  qed
qed

text \<open>The allocator and the page table code leave the process table alone.\<close>

definition keeps_procs :: "'a M \<Rightarrow> bool" where
  "keeps_procs m \<longleftrightarrow> (\<forall>s x t. m s = Ok x t \<longrightarrow> ptable t = ptable s)"

named_theorems keeps_rule

lemma keeps_ret [keeps_rule]: "keeps_procs (ret x)"
  by (simp add: keeps_procs_def ret_def)

lemma keeps_gets [keeps_rule]: "keeps_procs (gets f)"
  by (simp add: keeps_procs_def gets_def)

lemma keeps_stop [keeps_rule]: "keeps_procs (panic e)" "keeps_procs (fault e)"
  by (simp_all add: keeps_procs_def panic_def fault_def)

lemma keeps_modify [keeps_rule]: "(\<And>s. ptable (f s) = ptable s) \<Longrightarrow> keeps_procs (modify f)"
  by (simp add: keeps_procs_def modify_def)

lemma keeps_bindM [keeps_rule]: "keeps_procs m \<Longrightarrow> (\<And>x. keeps_procs (k x)) \<Longrightarrow> keeps_procs (bindM m k)"
  unfolding keeps_procs_def by (metis bindM_OkE)

lemma keeps_seqM [keeps_rule]: "keeps_procs m \<Longrightarrow> keeps_procs k \<Longrightarrow> keeps_procs (seqM m k)"
  by (simp add: seqM_def keeps_bindM)

lemma keeps_if [keeps_rule]: "keeps_procs m \<Longrightarrow> keeps_procs k \<Longrightarrow> keeps_procs (if b then m else k)"
  by simp

lemma keeps_kalloc [keeps_rule]: "keeps_procs kalloc"
  by (auto simp: keeps_procs_def kalloc_def whenM_def acquire_def release_def holding_def monad_defs split: if_splits)

lemma keeps_walkpgdir [keeps_rule]: "keeps_procs (walkpgdir pd va al)"
  unfolding walkpgdir_def by (rule keeps_rule | simp)+

lemma keeps_mappages_loop [keeps_rule]: "keeps_procs (mappages_loop fuel pd a final pa perm)"
proof (induction fuel arbitrary: a pa)
  case 0
  show ?case unfolding mappages_loop.simps by (rule keeps_rule)
next
  case (Suc fuel)
  show ?case unfolding mappages_loop.simps by (rule keeps_rule Suc | simp)+
qed

lemma keeps_mappages [keeps_rule]: "keeps_procs (mappages pd va sz pa perm)"
  unfolding mappages_def by (rule keeps_rule)

lemma keepsD: "keeps_procs m \<Longrightarrow> m s = Ok x t \<Longrightarrow> ptable t = ptable s"
  by (simp add: keeps_procs_def)
text \<open>
  C38: A fault on the guard page of a growing anonymous mapping whose next descriptor is free maps
  the page and makes that descriptor the guard page, but does not set its address: the new guard
  page stands for whatever page the descriptor had last.  The descriptor table afterwards is
  given; if the free descriptor had never been used, no descriptor covers the page above, and
  the mapping cannot grow again.
\<close>

theorem guard_page_grows_once:
  assumes "cur s = Some p" "mds = p_mmaps (ptable s ! p)" "no_overflow mds" "p < length (ptable s)" "length mds = PAGE_LIMIT"
    and i: "i < PAGE_LIMIT" "covers (mds ! i) (sint cr2)" "\<forall>j < i. \<not> covers (mds ! j) (sint cr2)"
    and md: "md_guard_page (mds ! i)" "has_flag (md_flags (mds ! i)) MAP_ANON" "i + 1 < PAGE_LIMIT" "\<not> md_valid (mds ! (i + 1))"
    and ok: "page_fault cr2 s = Ok () t"
    and above: "a = md_virtualAddress (mds ! i) + PAGE_SIZE" "\<forall>j < PAGE_LIMIT. \<not> covers (mds ! j) a"
      "md_virtualAddress (mds ! (i + 1)) = 0" "VIRT_ADDR_START \<le> md_virtualAddress (mds ! i)"
  shows "p_mmaps (ptable t ! p) = mds[i := (mds ! i)\<lparr>md_guard_page := False\<rparr>,
      i + 1 := (mds ! (i + 1))\<lparr>md_valid := True, md_guard_page := True\<rparr>] \<and>
    (\<forall>j < PAGE_LIMIT. \<not> covers (p_mmaps (ptable t ! p) ! j) a)"
proof -
  have f: "allocatePageGuard p i cr2 s = Ok () t"
    using fault_found [OF assms(1-3) i] md(1) ok by (simp only: if_True)
  let ?m1 = "mds[i := (mds ! i)\<lparr>md_guard_page := False\<rparr>]"
  let ?m2 = "?m1[i + 1 := (mds ! (i + 1))\<lparr>md_valid := True, md_guard_page := True\<rparr>]"
  obtain mem s1 s2 where k: "kalloc (upd_md p i (\<lambda>md. md\<lparr>md_guard_page := False\<rparr>) s) = Ok mem s1"
    and m: "mappages (p_pgdir (ptable s1 ! p)) (PGROUNDDOWN cr2) PGSIZE (V2P mem) (word_of_int (md_prot (p_mmaps (ptable s1 ! p) ! i)) OR PTE_U)
        (s1\<lparr>kmem := memset (kmem s1) mem 0 PGSIZE\<rparr>) = Ok 0 s2"
    and r: "seqM (modify (upd_md p (i + 1) (\<lambda>md. md\<lparr>md_valid := True, md_guard_page := True\<rparr>))) (fill_from_file p i mem) s2 = Ok () t"
    using f md(3,4) assms(2)
    by (auto simp: allocatePageGuard_def get_md_def gets_def modify_def panic_def elim!: bindM_OkE seqM_OkE split: if_splits)
  have p1: "ptable s1 = ptable (set_mds p ?m1 s)"
    using keepsD [OF keeps_kalloc k] assms(2,4) by (simp add: set_mds_def upd_md_def upd_proc_def)
  have p2: "ptable s2 = ptable (set_mds p ?m1 s)" using keepsD [OF keeps_mappages m] p1 by simp
  have "t = upd_md p (i + 1) (\<lambda>md. md\<lparr>md_valid := True, md_guard_page := True\<rparr>) s2"
    using r p2 md(2,3) assms(2,4,5) i(1)
    by (simp add: seqM_def modify_def fill_from_file_def get_md_def gets_def bindM_def ret_def set_mds_def upd_md_def upd_proc_def)
  then have e: "p_mmaps (ptable t ! p) = ?m2"
    using p2 assms(4,5) md(3) by (simp add: set_mds_def upd_md_def upd_proc_def)
  have "\<not> covers (?m2 ! j) a" if "j < PAGE_LIMIT" for j
    using that above(2) [rule_format, OF that] above(1,3,4) assms(5) md(3) i(1) md(1)
    by (cases "j = i + 1"; cases "j = i") (auto simp: covers_def nth_list_update)
  then show ?thesis using e by simp
qed

section \<open>munmap\<close>

lemma munmap_page_eq:
  assumes "no_overflow mds" "set is \<subseteq> {..<PAGE_LIMIT}"
    "length acc + length (filter (\<lambda>i. covers (mds ! i) a) is) \<le> PAGE_LIMIT"
  shows "munmap_page mds a is acc s = Ok (acc @ filter (\<lambda>i. covers (mds ! i) a) is) s"
  using assms(2,3)
proof (induction "is" arbitrary: acc)
  case (Cons i "is")
  have ov: "md_valid (mds ! i) \<Longrightarrow> md_virtualAddress (mds ! i) + PAGE_SIZE \<le> INT_MAX"
    using assms(1) Cons.prems by (auto simp: no_overflow_def)
  show ?case
  proof (cases "covers (mds ! i) a")
    case True
    then have "munmap_page mds a (i # is) acc s = munmap_page mds a is (acc @ [i]) s"
      using ov Cons.prems(2) by (simp add: covers_def)
    then show ?thesis using Cons True by simp
  next
    case False
    then have "munmap_page mds a (i # is) acc s = munmap_page mds a is acc s"
      using ov by (auto simp: covers_def)
    then show ?thesis using Cons False by simp
  qed
qed (simp add: ret_def)

declare munmap_scan.simps [simp del]

lemma length_distinct_below: "distinct xs \<Longrightarrow> set xs \<subseteq> {..<n} \<Longrightarrow> length xs \<le> n"
  using card_mono [of "{..<n}" "set xs"] by (simp add: distinct_card)

lemma munmap_scan_inv:
  assumes "no_overflow mds" "limit + PAGE_SIZE - 1 \<le> INT_MAX"
    and "distinct acc" "set acc \<subseteq> {..<PAGE_LIMIT}" "\<forall>i \<in> set acc. md_virtualAddress (mds ! i) + PAGE_SIZE \<le> a"
  shows "\<exists>xs. munmap_scan mds a limit acc s = Ok (acc @ xs) s \<and> distinct (acc @ xs) \<and>
    set xs = {i. i < PAGE_LIMIT \<and> (\<exists>k. a + PAGE_SIZE * int k < limit \<and> covers (mds ! i) (a + PAGE_SIZE * int k))} - set acc \<and>
    (a < limit \<longrightarrow> (\<exists>ys. xs = filter (\<lambda>i. covers (mds ! i) a) [0..<PAGE_LIMIT] @ ys))"
  using assms(3-5)
proof (induction "nat (limit - a)" arbitrary: a acc rule: less_induct)
  case less
  show ?case
  proof (cases "a < limit")
    case False
    then have "\<not> a + PAGE_SIZE * int k < limit" for k by simp
    then show ?thesis using False less.prems(1) by (subst munmap_scan.simps) (simp add: ret_def)
  next
    case True
    define c where "c = filter (\<lambda>i. covers (mds ! i) a) [0..<PAGE_LIMIT]"
    have c: "distinct c" "set c = {i. i < PAGE_LIMIT \<and> covers (mds ! i) a}" by (auto simp: c_def)
    have new: "set acc \<inter> set c = {}" using less.prems(3) c(2) by (force simp: covers_def)
    have d: "distinct (acc @ c)" "set (acc @ c) \<subseteq> {..<PAGE_LIMIT}" using less.prems(1,2) c new by auto
    have page: "munmap_page mds a [0..<PAGE_LIMIT] acc s = Ok (acc @ c) s"
      unfolding c_def using length_distinct_below [OF d] by (intro munmap_page_eq assms) (auto simp: c_def)
    have low: "\<forall>i \<in> set (acc @ c). md_virtualAddress (mds ! i) + PAGE_SIZE \<le> a + PAGE_SIZE"
      using less.prems(3) c(2) by (auto simp: covers_def)
    have "nat (limit - (a + PAGE_SIZE)) < nat (limit - a)" using True by simp
    from less.hyps [OF this d low] obtain xs where xs:
      "munmap_scan mds (a + PAGE_SIZE) limit (acc @ c) s = Ok ((acc @ c) @ xs) s" "distinct ((acc @ c) @ xs)"
      "set xs = {i. i < PAGE_LIMIT \<and> (\<exists>k. a + PAGE_SIZE + PAGE_SIZE * int k < limit \<and>
          covers (mds ! i) (a + PAGE_SIZE + PAGE_SIZE * int k))} - set (acc @ c)"
      by blast
    have "munmap_scan mds a limit acc s = Ok (acc @ c @ xs) s"
      using True page xs(1) assms(2) by (subst munmap_scan.simps) (simp del: upt_rec_numeral)
    moreover have "(\<exists>k. a + PAGE_SIZE * int k < limit \<and> covers (mds ! i) (a + PAGE_SIZE * int k)) \<longleftrightarrow>
        covers (mds ! i) a \<or> (\<exists>k. a + PAGE_SIZE + PAGE_SIZE * int k < limit \<and> covers (mds ! i) (a + PAGE_SIZE + PAGE_SIZE * int k))" for i
    proof -
      have "(\<exists>k. P k) \<longleftrightarrow> P 0 \<or> (\<exists>k. P (Suc k))" for P :: "nat \<Rightarrow> bool" by (metis not0_implies_Suc)
      from this [of "\<lambda>k. a + PAGE_SIZE * int k < limit \<and> covers (mds ! i) (a + PAGE_SIZE * int k)"]
      show ?thesis using True by (simp add: algebra_simps)
    qed
    then have "set (c @ xs) = {i. i < PAGE_LIMIT \<and> (\<exists>k. a + PAGE_SIZE * int k < limit \<and>
          covers (mds ! i) (a + PAGE_SIZE * int k))} - set acc"
      using c(2) new xs(3) by auto
    ultimately show ?thesis using xs(2) unfolding c_def by (intro exI [of _ "c @ xs"]) (auto simp: c_def)
  qed
qed

text \<open>
  C36: munmap collects each descriptor with a page in the range once, so the array to_free, which
  has one place for each descriptor, never overflows.
\<close>

theorem munmap_collects:
  assumes "no_overflow mds" "a + len + PAGE_SIZE - 1 \<le> INT_MAX"
  shows "\<exists>xs. munmap_scan mds a (a + len) [] s = Ok xs s \<and> distinct xs \<and> length xs \<le> PAGE_LIMIT \<and>
    set xs = {i. i < PAGE_LIMIT \<and> (\<exists>k. PAGE_SIZE * int k < len \<and> covers (mds ! i) (a + PAGE_SIZE * int k))}"
proof -
  obtain xs where "munmap_scan mds a (a + len) [] s = Ok ([] @ xs) s" "distinct ([] @ xs)"
    "set xs = {i. i < PAGE_LIMIT \<and> (\<exists>k. a + PAGE_SIZE * int k < a + len \<and> covers (mds ! i) (a + PAGE_SIZE * int k))} - set []"
    using munmap_scan_inv [OF assms, of "[]" a s] by auto
  then show ?thesis using length_distinct_below [of xs PAGE_LIMIT] by auto
qed

text \<open>
  C40: munmap of an anonymous mapping dereferences NULL: the offset of the first mapping's file is
  reset before the test whether there is a file.
\<close>

theorem munmap_anonymous_faults:
  assumes "argint 0 s = Ok (Some w0) s" "argint 1 s = Ok (Some w1) s" "w0 mod PGSIZE = 0" "0 < sint w1"
    and "sint w0 + sint w1 + PAGE_SIZE - 1 \<le> INT_MAX"
    and "cur s = Some p" "mds = p_mmaps (ptable s ! p)" "no_overflow mds"
    and i: "i < PAGE_LIMIT" "covers (mds ! i) (sint w0)" "\<forall>j < i. \<not> covers (mds ! j) (sint w0)" "md_f (mds ! i) = None"
  shows "sys_munmap s = Fault ''null dereference''"
proof -
  obtain xs ys where xs: "munmap_scan mds (sint w0) (sint w0 + sint w1) [] s = Ok xs s"
    "xs = filter (\<lambda>i. covers (mds ! i) (sint w0)) [0..<PAGE_LIMIT] @ ys"
    using munmap_scan_inv [OF assms(8) assms(5), of "[]" "sint w0" s] assms(4) by auto
  have "[0..<PAGE_LIMIT] = [0..<i] @ i # [Suc i..<PAGE_LIMIT]"
    using i(1) upt_add_eq_append [of 0 i "PAGE_LIMIT - i"] by (simp add: upt_conv_Cons del: upt_rec_numeral)
  then have "filter (\<lambda>i. covers (mds ! i) (sint w0)) [0..<PAGE_LIMIT] =
      i # filter (\<lambda>i. covers (mds ! i) (sint w0)) [Suc i..<PAGE_LIMIT]"
    using i(2,3) by (simp only: filter_append) simp
  then obtain zs where "xs = i # zs" using xs(2) by (simp del: upt_rec_numeral)
  then have "munmap_scan mds (sint w0) (sint w1 + sint w0) [] s = Ok (i # zs) s" using xs(1) by (simp add: add.commute)
  moreover have "\<not> (sint w1 + sint w0 < INT_MIN \<or> INT_MAX < sint w1 + sint w0)"
    using assms(4,5) sint_ge [of w0] by auto
  ultimately show ?thesis
    using assms(1-3,6,7) i(4) by (auto simp: sys_munmap_def curproc_Ok gets_def seqM_def bindM_def deref_def fault_def)
qed

section \<open>Examples\<close>

text \<open>A process without mappings, and with one page at the first address of the mapping area.\<close>

definition ex_mm :: kernel where
  "ex_mm = (static_data 0 0 (\<lambda>_. []) 0)\<lparr>cur := Some 0\<rparr>"

definition ex_md :: "bool \<Rightarrow> mmap_desc" where
  "ex_md guard = anon_desc 4096 3 (MAP_PRIVATE OR MAP_ANON) guard VIRT_ADDR_START zero_desc"

lemma ex_mm_fields [simp]:
  "cur ex_mm = Some 0" "length (ptable ex_mm) = NPROC" "p_mmaps (ptable ex_mm ! 0) = replicate PAGE_LIMIT zero_desc"
  "VA_PTR ex_mm = VIRT_ADDR_START"
  by (simp_all add: ex_mm_def static_data_def zero_proc_def)

lemma zero_desc_valid [simp]: "\<not> md_valid zero_desc" "md_virtualAddress zero_desc = 0"
  by (simp_all add: zero_desc_def)

lemma ex_md_fields [simp]:
  "md_valid (ex_md g)" "md_virtualAddress (ex_md g) = VIRT_ADDR_START" "md_flags (ex_md g) = 5" "md_prot (ex_md g) = 3"
  "md_guard_page (ex_md g) = g" "md_f (ex_md g) = None"
  by (simp_all add: ex_md_def anon_desc_def)

lemma no_overflow_zero: "no_overflow (replicate PAGE_LIMIT zero_desc)" "no_overflow ((replicate PAGE_LIMIT zero_desc)[0 := ex_md g])"
  by (auto simp: no_overflow_def nth_list_update)

lemma first_run_zero: "0 < n \<Longrightarrow> n \<le> PAGE_LIMIT \<Longrightarrow> first_run (replicate PAGE_LIMIT zero_desc) n = Some 0"
proof -
  assume n: "0 < n" "n \<le> PAGE_LIMIT"
  then have "free_run (replicate PAGE_LIMIT zero_desc) n 0" by (simp add: free_run_def)
  then show ?thesis using n by (auto simp: first_run_def intro!: exI [of _ 0] Least_eq_0)
qed

lemma page_taken_zero: "\<not> page_taken (replicate PAGE_LIMIT zero_desc) a js"
  by (auto simp: page_taken_def covers_def)

lemma ex_flags [simp]:
  "has_flag 5 4" "has_flag 5 1" "\<not> has_flag 5 8" "\<not> has_flag 5 16" "has_flag 13 4" "has_flag 13 1" "has_flag 13 8"
  "\<not> has_flag 13 16"
  by (simp_all add: has_flag_def)

lemma ex_pages [simp]: "req_pages 5000 5 = 2" "req_pages 5000 13 = 2" "req_pages 4096 5 = 1"
  by (simp_all add: req_pages_def pages_def)

theorem mmap_anonymous_witness:
  "mmap_request 0 0 5000 3 5 0 ex_mm = Ok VIRT_ADDR_START
     ((set_mds 0 (fill_run 5000 3 5 0 2 VIRT_ADDR_START (replicate PAGE_LIMIT zero_desc)) ex_mm)\<lparr>VA_PTR := 0x60002000\<rparr>)"
  using mmap_anonymous [of 0 ex_mm "replicate PAGE_LIMIT zero_desc" 5 0 5000 2 0 3] by (simp add: first_run_zero)

theorem mmap_fixed_witness:
  "mmap_request 0 0x70000000 5000 3 13 0 ex_mm = Ok 0x70000000
     (set_mds 0 (fill_run 5000 3 13 0 2 0x70000000 (replicate PAGE_LIMIT zero_desc)) ex_mm)"
  using mmap_fixed [of 0 ex_mm "replicate PAGE_LIMIT zero_desc" 13 0 5000 "0x70000000" 2 3]
  by (simp add: first_run_zero no_overflow_zero page_taken_zero)


text \<open>The process after a fixed request for the first address of the area.\<close>

definition ex_fixed :: kernel where
  "ex_fixed = set_mds 0 ((replicate PAGE_LIMIT zero_desc)[0 := ex_md False]) ex_mm"

lemma ex_fixed_fields:
  "cur ex_fixed = Some 0" "length (ptable ex_fixed) = NPROC"
  "p_mmaps (ptable ex_fixed ! 0) = (replicate PAGE_LIMIT zero_desc)[0 := ex_md False]" "VA_PTR ex_fixed = VIRT_ADDR_START"
  by (simp_all add: ex_fixed_def) (simp_all add: set_mds_def upd_proc_def)

lemma first_run_fixed: "first_run ((replicate PAGE_LIMIT zero_desc)[0 := ex_md g]) (Suc 0) = Some (Suc 0)"
proof -
  let ?m = "(replicate PAGE_LIMIT zero_desc)[0 := ex_md g]"
  have f: "free_run ?m 1 1" "\<not> free_run ?m 1 0" by (auto simp: free_run_def)
  then have "(LEAST i. free_run ?m 1 i) = 1"
    by (intro Least_equality) (auto simp: Suc_le_eq intro: gr0I)
  then show ?thesis using f(1) by (auto simp: first_run_def intro!: exI [of _ 1])
qed

theorem mmap_overlaps_fixed_witness:
  "\<exists>t. mmap_request 0 0 4096 3 5 0 ex_fixed = Ok VIRT_ADDR_START t \<and>
     covers (p_mmaps (ptable t ! 0) ! 0) VIRT_ADDR_START \<and> covers (p_mmaps (ptable t ! 0) ! 1) VIRT_ADDR_START"
  using mmap_overlaps_fixed [of 0 ex_fixed "(replicate PAGE_LIMIT zero_desc)[0 := ex_md False]" 5 0 4096 1 1 0 0 3]
  by (auto simp: ex_fixed_fields first_run_fixed covers_def)

theorem munmap_collects_witness:
  "\<exists>xs. munmap_scan ((replicate PAGE_LIMIT zero_desc)[0 := ex_md False]) VIRT_ADDR_START (VIRT_ADDR_START + 4096) [] ex_mm = Ok xs ex_mm \<and>
     0 \<in> set xs"
  using munmap_collects [OF no_overflow_zero(2), of VIRT_ADDR_START 4096 False ex_mm]
  by (fastforce simp: covers_def)

text \<open>A process that calls munmap for its anonymous mapping.\<close>

definition ex_munmap :: kernel where
  "ex_munmap = upd_proc 0 (\<lambda>q. q\<lparr>p_sz := 4096\<rparr>) (ex_fixed\<lparr>cr3 := 0x1000,
     kmem := (\<lambda>_. 0)(0x80001000 := 7, 0x80001001 := 0x20, 0x80002000 := 7, 0x80002001 := 0x30,
       0x80003007 := 0x60, 0x80003009 := 0x10)\<rparr>)"

lemma ex_munmap_fields:
  "cur ex_munmap = Some 0" "p_sz (ptable ex_munmap ! 0) = 4096" "tf_esp (p_tf (ptable ex_munmap ! 0)) = 0"
  "p_mmaps (ptable ex_munmap ! 0) = (replicate PAGE_LIMIT zero_desc)[0 := ex_md False]"
  by (simp_all add: ex_munmap_def ex_fixed_def set_mds_def ex_mm_def upd_proc_def static_data_def zero_proc_def zero_trapframe_def)

lemma ex_munmap_args:
  "argint 0 ex_munmap = Ok (Some 0x60000000) ex_munmap" "argint 1 ex_munmap = Ok (Some 4096) ex_munmap"
proof -
  have tr: "translate ex_munmap False va = Some (0x80003000 + va)" if "va < 4096" for va
    using that by (intro one_page_translate) (simp_all add: ex_munmap_def ex_fixed_def upd_proc_def load32_def)
  then have m: "mapped_below ex_munmap 4096" by (simp add: mapped_below_def)
  have byte: "ubyte ex_munmap va = kmem ex_munmap (0x80003000 + va)" if "va < 4096" for va
    using that by (simp add: ubyte_def tr)
  have k: "kmem ex_munmap = (\<lambda>_. 0)(0x80001000 := 7, 0x80001001 := 0x20, 0x80002000 := 7, 0x80002001 := 0x30,
       0x80003007 := 0x60, 0x80003009 := 0x10)" by (simp add: ex_munmap_def upd_proc_def)
  have b: "ubytes ex_munmap 4 4 = [0, 0, 0, 0x60]" "ubytes ex_munmap 8 4 = [0, 0x10, 0, 0]"
    by (simp_all add: ubytes_4 byte k)
  show "argint 0 ex_munmap = Ok (Some 0x60000000) ex_munmap" "argint 1 ex_munmap = Ok (Some 4096) ex_munmap"
    using uread_Ok [OF m, of 4 4] uread_Ok [OF m, of 8 4]
    by (simp_all add: argint_def fetchint_def gets_def curproc_Ok ex_munmap_fields ret_def get32_def b)
qed

theorem munmap_anonymous_faults_witness: "sys_munmap ex_munmap = Fault ''null dereference''"
  by (rule munmap_anonymous_faults [OF ex_munmap_args _ _ _ ex_munmap_fields(1) refl, where i = 0])
    (simp_all add: ex_munmap_fields no_overflow_zero covers_def)

text \<open>A process with one anonymous descriptor at the bottom of the mapping area and two free pages.\<close>

lemma ex_fault:
  obtains s mds where "cur s = Some 0" "mds = p_mmaps (ptable s ! 0)" "0 < length (ptable s)"
    "mds = (replicate PAGE_LIMIT zero_desc)[0 := ex_md g]" "p_pgdir (ptable s ! 0) = 0x80400000"
    "uvm_inv s 0x80400000 {} {0x80200000, 0x80300000}" "vmap (kmem s) 0x80400000 0x60000000 = None"
proof -
  obtain s where s: "uvm_inv s 0x80400000 {} {0x80200000, 0x80300000}" "vmap (kmem s) 0x80400000 0x60000000 = None"
    using ex_uvm by blast
  let ?t = "s\<lparr>cur := Some 0, ptable := [zero_proc\<lparr>p_pgdir := 0x80400000, p_mmaps := (replicate PAGE_LIMIT zero_desc)[0 := ex_md g]\<rparr>]\<rparr>"
  have "uvm_inv ?t 0x80400000 {} {0x80200000, 0x80300000}"
    using s(1) by (simp add: uvm_inv_def vm_inv_def free_pages_def kmem_inv_def page_ok_def)
  then show ?thesis using s(2) by (intro that [of ?t "(replicate PAGE_LIMIT zero_desc)[0 := ex_md g]"]) simp_all
qed

lemma ex_md_covers: "covers (((replicate PAGE_LIMIT zero_desc)[0 := ex_md g]) ! 0) (sint (0x60000123 :: uint))"
  by (simp add: covers_def)

lemma ex_md_has: "has_flag (md_flags (ex_md g)) MAP_ANON" by (simp add: has_flag_def)

lemma ex_two_pages: "{0x80200000, 0x80300000 :: ptr} \<noteq> {f}"
proof
  assume "{0x80200000, 0x80300000 :: ptr} = {f}"
  then have "(0x80200000 :: ptr) = 0x80300000" by (metis insertI1 insertI2 singletonD)
  then show False by simp
qed

theorem page_fault_anonymous_witness:
  "\<exists>s f t. page_fault 0x60000123 s = Ok () t \<and> vmap (kmem t) 0x80400000 0x60000000 = Some (V2P f OR 7) \<and>
     (\<forall>x. in_page f x \<longrightarrow> kmem t x = 0)"
proof -
  obtain s mds where s: "cur s = Some 0" "mds = p_mmaps (ptable s ! 0)" "0 < length (ptable s)"
    "mds = (replicate PAGE_LIMIT zero_desc)[0 := ex_md False]" "p_pgdir (ptable s ! 0) = 0x80400000"
    "uvm_inv s 0x80400000 {} {0x80200000, 0x80300000}" "vmap (kmem s) 0x80400000 0x60000000 = None"
    using ex_fault [of False] by blast
  have pg: "0x60000000 = PGROUNDDOWN 0x60000123" by (simp add: PGROUNDDOWN_def)
  have i: "0 < PAGE_LIMIT" "covers (mds ! 0) (sint (0x60000123 :: uint))"
    "\<forall>j < 0. \<not> covers (mds ! j) (sint (0x60000123 :: uint))"
    using ex_md_covers unfolding s(4) by auto
  have md: "\<not> md_guard_page (mds ! 0)" "has_flag (md_flags (mds ! 0)) MAP_ANON" "0 \<le> md_prot (mds ! 0)" "md_prot (mds ! 0) \<le> 3"
    using ex_md_has unfolding s(4) by simp_all
  have nf: "no_overflow mds" using no_overflow_zero unfolding s(4) by blast
  have lt: "(0x60000000 :: uint) < KERNBASE" by simp
  have e: "V2P f OR (word_of_int (md_prot (mds ! 0)) OR PTE_U) OR PTE_P = V2P f OR 7" for f
    unfolding s(4) by (simp add: or.assoc)
  have ne: "{0x80200000, 0x80300000 :: ptr} \<noteq> {}" by simp
  from page_fault_anonymous [OF s(1,2) nf s(3) i md s(5) [symmetric] s(6) pg lt s(7) refl] ex_two_pages ne
  obtain f t T' P' where r: "page_fault 0x60000123 s = Ok () t" "\<forall>x. in_page f x \<longrightarrow> kmem t x = 0"
    "vmap (kmem t) 0x80400000 = (vmap (kmem s) 0x80400000)(0x60000000 \<mapsto> V2P f OR (word_of_int (md_prot (mds ! 0)) OR PTE_U) OR PTE_P)"
    by metis
  then have "vmap (kmem t) 0x80400000 0x60000000 = Some (V2P f OR 7)" by (simp only: e fun_upd_same)
  then show ?thesis using r(1,2) by blast
qed

theorem guard_page_grows_once_witness:
  "\<exists>s t. page_fault 0x60000123 s = Ok () t \<and>
     p_mmaps (ptable t ! 0) = (replicate PAGE_LIMIT zero_desc)[0 := (ex_md True)\<lparr>md_guard_page := False\<rparr>,
       1 := zero_desc\<lparr>md_valid := True, md_guard_page := True\<rparr>] \<and>
     (\<forall>j < PAGE_LIMIT. \<not> covers (p_mmaps (ptable t ! 0) ! j) 0x60001000)"
proof -
  obtain s mds where s: "cur s = Some 0" "mds = p_mmaps (ptable s ! 0)" "0 < length (ptable s)"
    "mds = (replicate PAGE_LIMIT zero_desc)[0 := ex_md True]" "p_pgdir (ptable s ! 0) = 0x80400000"
    "uvm_inv s 0x80400000 {} {0x80200000, 0x80300000}" "vmap (kmem s) 0x80400000 0x60000000 = None"
    using ex_fault [of True] by blast
  have i: "0 < PAGE_LIMIT" "covers (mds ! 0) (sint (0x60000123 :: uint))"
    "\<forall>j < 0. \<not> covers (mds ! j) (sint (0x60000123 :: uint))"
    using ex_md_covers unfolding s(4) by auto
  have md: "md_guard_page (mds ! 0)" "has_flag (md_flags (mds ! 0)) MAP_ANON" "0 + 1 < PAGE_LIMIT" "\<not> md_valid (mds ! (0 + 1))"
    "0 \<le> md_prot (mds ! 0)" "md_prot (mds ! 0) \<le> 3" "length mds = PAGE_LIMIT"
    using ex_md_has unfolding s(4) by simp_all
  have nf: "no_overflow mds" using no_overflow_zero unfolding s(4) by blast
  let ?s = "upd_md 0 0 (\<lambda>md. md\<lparr>md_guard_page := False\<rparr>) s"
  have u: "uvm_inv ?s 0x80400000 {} {0x80200000, 0x80300000}" "vmap (kmem ?s) 0x80400000 0x60000000 = None"
    "p_pgdir (ptable ?s ! 0) = 0x80400000" "0 < length (ptable ?s)"
    using s(3,5,6,7)
    by (simp_all add: uvm_inv_def vm_inv_def free_pages_def kmem_inv_def page_ok_def upd_md_def upd_proc_def)
  have um: "p_mmaps (ptable ?s ! 0) = mds[0 := (ex_md True)\<lparr>md_guard_page := False\<rparr>]"
    using s(3) by (simp add: upd_md_def upd_proc_def s(2) [symmetric]) (simp add: s(4))
  have hf: "has_flag (md_flags (p_mmaps (ptable (upd_md 0 (Suc 0) g u) ! 0) ! 0)) MAP_ANON" if "ptable u = ptable ?s" for g u
    using u(4) um ex_md_has unfolding that [symmetric] s(4) by (simp add: upd_md_def upd_proc_def)
  have pg: "PGROUNDDOWN 0x60000123 = 0x60000000" by (simp add: PGROUNDDOWN_def)
  have al: "page_aligned (0x60000000 :: uint)" "(0x60000000 :: uint) < KERNBASE" by (simp_all add: page_aligned_def)
  have fr: "\<forall>q. page_aligned q \<longrightarrow> frame_of (V2P q OR (word_of_int 3 OR PTE_U) OR PTE_P) = q"
    using frame_of_prot [of 3] by auto
  obtain t where t: "page_fault 0x60000123 s = Ok () t"
    using u(1) al u(2) fr
  proof (cases rule: grow_page_perm)
    case none
    then show ?thesis by simp
  next
    case (full q f s0)
    then show ?thesis using ex_two_pages by blast
  next
    case (mapped q f s' T' P')
    have pt: "ptable s' = ptable ?s" using mapped(4) by (auto simp: uvm_grow_def)
    have p3: "md_prot (p_mmaps (ptable ?s ! 0) ! 0) = 3" unfolding um s(4) by simp
    have "\<exists>t. allocatePageGuard 0 0 0x60000123 s = Ok () t"
      using mapped(1-3) md(3,4) s(2) u(3) p3 hf [OF pt]
      by (simp add: allocatePageGuard_def fill_from_file_def pg get_md_def gets_def modify_def memset_eq_set_range seqM_def bindM_def ret_def)
    then show ?thesis using fault_found [OF s(1,2) nf i] md(1) that by (simp only: if_True) blast
  qed
  have above: "0x60001000 = md_virtualAddress (mds ! 0) + PAGE_SIZE" "md_virtualAddress (mds ! (0 + 1)) = 0"
    "VIRT_ADDR_START \<le> md_virtualAddress (mds ! 0)"
    unfolding s(4) by simp_all
  have no: "\<forall>j < PAGE_LIMIT. \<not> covers (mds ! j) 0x60001000"
    unfolding s(4) by (auto simp: covers_def nth_list_update)
  show ?thesis
    using guard_page_grows_once [OF s(1,2) nf s(3) md(7) i md(1-4) t above(1) no above(2,3)] t
    unfolding s(4) by (auto simp: list_update_overwrite)
qed

end
