(* ===== verification/Cache.thy ===== *)
theory Cache
  imports Log
begin

text \<open>
  The contract of the buffer cache (bio.c) for a process that runs alone on it: the cache shows
  one contents \<open>v\<close> of the disk.  A set of blocks is unsynchronised: their new contents are only in
  the cache, in dirty or locked buffers.  Reading a block locks a buffer with its contents, writing
  it through synchronises it, releasing it unlocks the buffer.
\<close>

section \<open>The steps of the cache as state updates\<close>

definition set_cache :: "buf list \<Rightarrow> nat list \<Rightarrow> (uint \<Rightarrow> byte list) \<Rightarrow> (uint \<times> byte list) list \<Rightarrow> proc list \<Rightarrow> kernel \<Rightarrow> kernel" where
  "set_cache B l d w pt s = s\<lparr>bufs := B, lru := l, disk := d, dwrites := w, ptable := pt\<rparr>"

lemma set_cache_fields [simp]:
  "bufs (set_cache B l d w pt s) = B" "lru (set_cache B l d w pt s) = l" "disk (set_cache B l d w pt s) = d"
  "dwrites (set_cache B l d w pt s) = w" "ptable (set_cache B l d w pt s) = pt" "held (set_cache B l d w pt s) = held s"
  "cur (set_cache B l d w pt s) = cur s" "klog (set_cache B l d w pt s) = klog s" "disksize (set_cache B l d w pt s) = disksize s"
  "set_cache B l d w pt (set_cache B' l' d' w' pt' s) = set_cache B l d w pt s"
  "set_cache (bufs s) (lru s) (disk s) (dwrites s) (ptable s) s = s"
  by (simp_all add: set_cache_def)

definition mypid :: "kernel \<Rightarrow> int" where
  "mypid s = p_pid (ptable s ! the (cur s))"

abbreviation (input) "my_lock s \<equiv> \<lparr>sl_locked = True, sl_pid = mypid s\<rparr>"

definition kframe :: "kernel \<Rightarrow> kernel \<Rightarrow> bool" where
  "kframe s t \<longleftrightarrow> (\<exists>B l d w pt. t = set_cache B l d w pt s \<and> map p_pid pt = map p_pid (ptable s))"

lemma kframe_refl: "kframe s s"
  unfolding kframe_def by (metis set_cache_fields(11))

lemma kframe_trans: "kframe s t \<Longrightarrow> kframe t u \<Longrightarrow> kframe s u"
  unfolding kframe_def by (metis set_cache_fields(5,10))

lemma kframeD:
  assumes "kframe s t"
  shows "held t = held s" "cur t = cur s" "klog t = klog s" "disksize t = disksize s" "length (ptable t) = length (ptable s)"
  using assms unfolding kframe_def by (auto dest: map_eq_imp_length_eq)

lemma mypid_frame: "kframe s t \<Longrightarrow> cur s = Some p \<Longrightarrow> p < length (ptable s) \<Longrightarrow> mypid t = mypid s"
  unfolding kframe_def mypid_def by (auto simp: list_eq_iff_nth_eq)

lemma upd_buf_cache: "upd_buf b f s = set_cache ((bufs s)[b := f (bufs s ! b)]) (lru s) (disk s) (dwrites s) (ptable s) s"
  by (simp add: upd_buf_def set_cache_def)

lemma kframe_upd_buf: "kframe s (upd_buf b f s)"
  unfolding kframe_def upd_buf_cache by blast

lemma kframeI: "map p_pid pt = map p_pid (ptable s) \<Longrightarrow> kframe s (set_cache B l d w pt s)"
  unfolding kframe_def by blast

lemma holdingsleep_eq:
  assumes "held s = []" "cur s = Some p"
  shows "holdingsleep (BufLock b) s = Ok (sl_locked (b_lock (bufs s ! b)) \<and> sl_pid (b_lock (bufs s ! b)) = mypid s) s"
  using assms
  by (simp add: holdingsleep_def seqM_def gets_def get_slock_def ret_def mypid_def curproc_def deref_def bindM_def)

lemma acquiresleep_eq:
  assumes "held s = []" "cur s = Some p" "\<not> sl_locked (b_lock (bufs s ! b))"
  shows "acquiresleep (BufLock b) s = Ok () (upd_buf b (\<lambda>x. x\<lparr>b_lock := my_lock s\<rparr>) s)"
  using assms
  by (simp add: acquiresleep_def seqM_def gets_def get_slock_def set_slock_def modify_def mypid_def curproc_def deref_def
      bindM_def ret_def upd_buf_def)

lemma releasesleep_eq:
  assumes "held s = []"
  shows "releasesleep (BufLock b) s = Ok () (set_cache ((bufs s)[b := (bufs s ! b)\<lparr>b_lock := zero_sleeplock\<rparr>]) (lru s) (disk s)
    (dwrites s) (map (wakeup_proc (Some (ChanSleep (BufLock b)))) (ptable s)) s)"
  using assms
  by (simp add: releasesleep_def seqM_def set_slock_def modify_def wakeup_def wakeup1_def upd_buf_def set_cache_def
      bindM_def zero_sleeplock_def)

lemma wakeup_pid: "p_pid (wakeup_proc c q) = p_pid q"
  by (simp add: wakeup_proc_def)

lemma kframe_releasesleep: "releasesleep (BufLock b) s = Ok () t \<Longrightarrow> held s = [] \<Longrightarrow> kframe s t"
  by (auto simp: releasesleep_eq wakeup_pid intro!: kframeI)

section \<open>The invariant\<close>

definition on_disk :: "kernel \<Rightarrow> nat \<Rightarrow> uint \<Rightarrow> bool" where
  "on_disk s b n \<longleftrightarrow> b < NBUF \<and> b_dev (bufs s ! b) = 1 \<and> b_blockno (bufs s ! b) = n"

definition buf_ok :: "int \<Rightarrow> bool \<Rightarrow> uint set \<Rightarrow> (uint \<Rightarrow> byte list) \<Rightarrow> buf \<Rightarrow> bool" where
  "buf_ok pid inL U v x \<longleftrightarrow> sl_locked (b_lock x) = inL \<and> (inL \<longrightarrow> sl_pid (b_lock x) = pid \<and> b_dev x = 1 \<and> b_valid x) \<and>
     b_refcnt x = (if inL then 1 else 0) \<and> (b_valid x \<and> b_dev x = 1 \<longrightarrow> b_data x = v (b_blockno x)) \<and>
     (b_dirty x \<longrightarrow> b_dev x = 1 \<and> b_valid x \<and> b_blockno x \<in> U)"

definition cache_inv :: "kernel \<Rightarrow> nat set \<Rightarrow> uint set \<Rightarrow> (uint \<Rightarrow> byte list) \<Rightarrow> bool" where
  "cache_inv s L U v \<longleftrightarrow> held s = [] \<and> (\<exists>p. cur s = Some p \<and> p < length (ptable s)) \<and>
     length (bufs s) = NBUF \<and> distinct (lru s) \<and> set (lru s) = {..<NBUF} \<and> L \<subseteq> {..<NBUF} \<and> finite U \<and>
     (\<forall>b < NBUF. buf_ok (mypid s) (b \<in> L) U v (bufs s ! b)) \<and>
     (\<forall>a b n. on_disk s a n \<longrightarrow> on_disk s b n \<longrightarrow> a = b) \<and>
     (\<forall>n. n \<notin> U \<longrightarrow> v n = disk s n) \<and>
     (\<forall>n \<in> U. \<exists>b. on_disk s b n \<and> b_valid (bufs s ! b) \<and> (b \<in> L \<or> b_dirty (bufs s ! b)))"

lemma cache_invD:
  assumes "cache_inv s L U v"
  shows "held s = []" "cur s = Some (the (cur s))" "the (cur s) < length (ptable s)" "length (bufs s) = NBUF" "distinct (lru s)"
    "set (lru s) = {..<NBUF}" "L \<subseteq> {..<NBUF}" "finite U" "b < NBUF \<Longrightarrow> buf_ok (mypid s) (b \<in> L) U v (bufs s ! b)"
    "on_disk s a n \<Longrightarrow> on_disk s b n \<Longrightarrow> a = b" "n \<notin> U \<Longrightarrow> v n = disk s n"
    "n \<in> U \<Longrightarrow> \<exists>b. on_disk s b n \<and> b_valid (bufs s ! b) \<and> (b \<in> L \<or> b_dirty (bufs s ! b))"
  using assms unfolding cache_inv_def by auto

text \<open>A buffer that can be taken for another block exists while fewer blocks are in use than there are buffers.\<close>

lemma unused_exists:
  assumes inv: "cache_inv s L U v" and c: "card U + card L < NBUF"
  obtains b where "bget_unused s = Some b" "b < NBUF" "b \<notin> L" "\<not> b_dirty (bufs s ! b)"
proof -
  note i = cache_invD(6-10) [OF inv]
  let ?D = "{b. b < NBUF \<and> b_dirty (bufs s ! b)}"
  have d: "on_disk s b (b_blockno (bufs s ! b))" "b_blockno (bufs s ! b) \<in> U" if "b \<in> ?D" for b
    using i(4) [of b] that by (auto simp: buf_ok_def on_disk_def)
  have "inj_on (\<lambda>b. b_blockno (bufs s ! b)) ?D"
    using d(1) i(5) by (intro inj_onI) metis
  then have "card ?D \<le> card U" using d(2) i(3) by (intro card_inj_on_le [of _ ?D U]) auto
  then have "card (L \<union> ?D) < NBUF" using card_Un_le [of L ?D] c by linarith
  moreover have "L \<union> ?D \<subseteq> {..<NBUF}" using i(2) by auto
  ultimately have "L \<union> ?D \<subset> {..<NBUF}" by auto
  then obtain b where b: "b < NBUF" "b \<notin> L" "\<not> b_dirty (bufs s ! b)" by auto
  have "b \<in> set (rev (lru s))" using b i(1) by simp
  moreover have "b_refcnt (bufs s ! b) = 0" using i(4) [OF b(1)] b(2) by (simp add: buf_ok_def)
  ultimately have "bget_unused s \<noteq> None" using b(3) by (auto simp: bget_unused_def find_None_iff)
  then obtain b' where b': "bget_unused s = Some b'" by auto
  then have "b' \<in> set (rev (lru s))" "b_refcnt (bufs s ! b') = 0" "\<not> b_dirty (bufs s ! b')"
    unfolding bget_unused_def find_Some_iff by (auto simp: set_conv_nth)
  moreover from this have "b' < NBUF" using i(1) by simp
  moreover from this have "b' \<notin> L" using i(4) [of b'] \<open>b_refcnt (bufs s ! b') = 0\<close> by (auto simp: buf_ok_def)
  ultimately show ?thesis using that b' by blast
qed

section \<open>The operations keep it\<close>

lemma cache_inv_upd:
  assumes inv: "cache_inv s L U v" and t: "t = set_cache ((bufs s)[b := x]) l d w pt s"
    and fr: "map p_pid pt = map p_pid (ptable s)" and l: "distinct l" "set l = {..<NBUF}"
    and LU: "L' \<subseteq> {..<NBUF}" "finite U'" and b: "b < NBUF" "buf_ok (mypid s) (b \<in> L') U' v' x"
    and oth: "\<And>c. c < NBUF \<Longrightarrow> c \<noteq> b \<Longrightarrow> buf_ok (mypid s) (c \<in> L') U' v' (bufs s ! c)"
    and uniq: "\<And>c. b_dev x = 1 \<Longrightarrow> c \<noteq> b \<Longrightarrow> \<not> on_disk s c (b_blockno x)"
    and v: "\<And>n. n \<notin> U' \<Longrightarrow> v' n = d n"
    and U: "\<And>n. n \<in> U' \<Longrightarrow> (b_dev x = 1 \<and> b_blockno x = n \<and> b_valid x \<and> (b \<in> L' \<or> b_dirty x)) \<or>
        (\<exists>c. c \<noteq> b \<and> on_disk s c n \<and> b_valid (bufs s ! c) \<and> (c \<in> L' \<or> b_dirty (bufs s ! c)))"
  shows "cache_inv t L' U' v'"
proof -
  note i = cache_invD [OF inv]
  have f: "kframe s t" unfolding t by (rule kframeI [OF fr])
  have pid: "mypid t = mypid s" using mypid_frame [OF f i(2,3)] .
  have nth: "bufs t ! c = (if c = b then x else bufs s ! c)" for c
    using b(1) i(4) unfolding t by simp
  have on: "on_disk t c n \<longleftrightarrow> (if c = b then b_dev x = 1 \<and> b_blockno x = n else on_disk s c n)" for c n
    using b(1) by (auto simp: on_disk_def nth)
  have 1: "held t = []" "cur t = Some (the (cur s))" "the (cur s) < length (ptable t)" "length (bufs t) = NBUF"
    using i(1-4) kframeD [OF f] by (simp_all add: t)
  have 2: "buf_ok (mypid t) (c \<in> L') U' v' (bufs t ! c)" if "c < NBUF" for c
    using b(2) oth [OF that] unfolding pid nth by auto
  have 3: "a = c" if "on_disk t a n" "on_disk t c n" for a c n
    using that uniq i(10) unfolding on by (metis (full_types))
  have 4: "\<exists>c. on_disk t c n \<and> b_valid (bufs t ! c) \<and> (c \<in> L' \<or> b_dirty (bufs t ! c))" if "n \<in> U'" for n
    using U [OF that] unfolding on nth by metis
  show "cache_inv t L' U' v'"
    unfolding cache_inv_def using 1 2 3 4 l LU v by (auto simp: t)
qed

text \<open>The data of a locked buffer changes: the block becomes unsynchronised.\<close>

lemma buf_ok_mono:
  assumes "buf_ok pid i U v x" "U \<subseteq> U'" "b_dev x = 1 \<Longrightarrow> v' (b_blockno x) = v (b_blockno x)"
  shows "buf_ok pid i U' v' x"
  using assms by (auto simp: buf_ok_def)

lemma cache_set_data:
  assumes inv: "cache_inv s L U v" and b: "b \<in> L" "n = b_blockno (bufs s ! b)"
  shows "\<exists>t. set_data b d s = Ok () t \<and> cache_inv t L (insert n U) (v(n := d)) \<and> kframe s t \<and> disk t = disk s \<and> dwrites t = dwrites s \<and>
    bufs t = (bufs s)[b := (bufs s ! b)\<lparr>b_data := d\<rparr>]"
proof -
  note i = cache_invD [OF inv]
  have bn: "b < NBUF" using b(1) i(7) by auto
  have ok: "buf_ok (mypid s) True U v (bufs s ! b)" using i(9) [OF bn] b(1) by simp
  have on: "on_disk s b n" using ok bn b(2) by (simp add: buf_ok_def on_disk_def)
  let ?x = "(bufs s ! b)\<lparr>b_data := d\<rparr>"
  let ?t = "set_cache ((bufs s)[b := ?x]) (lru s) (disk s) (dwrites s) (ptable s) s"
  have n: "\<not> on_disk s c n" if "c \<noteq> b" for c using i(10) on that by blast
  have "cache_inv ?t L (insert n U) (v(n := d))"
  proof (rule cache_inv_upd [OF inv refl refl i(5,6,7) _ bn])
    show "buf_ok (mypid s) (b \<in> L) (insert n U) (v(n := d)) ?x" using ok b by (auto simp: buf_ok_def)
    show "buf_ok (mypid s) (c \<in> L) (insert n U) (v(n := d)) (bufs s ! c)" if "c < NBUF" "c \<noteq> b" for c
      by (rule buf_ok_mono [OF i(9) [OF that(1)]]) (use n [OF that(2)] that(1) in \<open>auto simp: on_disk_def\<close>)
    show "(b_dev ?x = 1 \<and> b_blockno ?x = m \<and> b_valid ?x \<and> (b \<in> L \<or> b_dirty ?x)) \<or>
        (\<exists>c. c \<noteq> b \<and> on_disk s c m \<and> b_valid (bufs s ! c) \<and> (c \<in> L \<or> b_dirty (bufs s ! c)))" if "m \<in> insert n U" for m
      using that i(12) [of m] ok b unfolding buf_ok_def on_disk_def by fastforce
  qed (use i(8,11) n b(2) in auto)
  then show ?thesis by (auto simp: set_data_def modify_def upd_buf_cache intro!: kframeI)
qed

lemma bwrite_eq:
  assumes "held s = []" "cur s = Some p" "b < length (bufs s)" "b_lock (bufs s ! b) = my_lock s" "b_dev (bufs s ! b) = 1"
    "b_blockno (bufs s ! b) < disksize s"
  shows "bwrite b s = Ok () (set_cache ((bufs s)[b := (bufs s ! b)\<lparr>b_dirty := False, b_valid := True\<rparr>]) (lru s)
    ((disk s)(b_blockno (bufs s ! b) := b_data (bufs s ! b))) (dwrites s @ [(b_blockno (bufs s ! b), b_data (bufs s ! b))]) (ptable s) s)"
proof -
  have h: "holdingsleep (BufLock b) s = Ok True s" using holdingsleep_eq [OF assms(1,2)] assms(4) by simp
  let ?s = "upd_buf b (\<lambda>x. x\<lparr>b_dirty := True\<rparr>) s"
  have "holdingsleep (BufLock b) ?s = Ok True ?s"
    using holdingsleep_eq [of ?s p] assms(1-4) by (simp add: upd_buf_cache mypid_def)
  moreover have "bufs ?s ! b = (bufs s ! b)\<lparr>b_dirty := True\<rparr>" using assms(3) by (simp add: upd_buf_def)
  moreover have "disksize ?s = disksize s" by (simp add: upd_buf_def)
  ultimately have "iderw b ?s = Ok () (upd_buf b (\<lambda>x. x\<lparr>b_dirty := False, b_valid := True\<rparr>)
      (?s\<lparr>disk := (disk ?s)(b_blockno (bufs s ! b) := b_data (bufs s ! b)),
        dwrites := dwrites ?s @ [(b_blockno (bufs s ! b), b_data (bufs s ! b))]\<rparr>))"
    using assms(5,6) leD [of "disksize s"] by (auto simp: iderw_def modify_def gets_def)
  then have "bwrite b s = Ok () (upd_buf b (\<lambda>x. x\<lparr>b_dirty := False, b_valid := True\<rparr>)
      (?s\<lparr>disk := (disk ?s)(b_blockno (bufs s ! b) := b_data (bufs s ! b)),
        dwrites := dwrites ?s @ [(b_blockno (bufs s ! b), b_data (bufs s ! b))]\<rparr>))"
    using h by (simp add: bwrite_def seqM_def modify_def)
  then show ?thesis using assms(3) by (simp add: upd_buf_def set_cache_def)
qed

lemma my_lock_iff: "sl_locked l \<and> sl_pid l = pid \<longleftrightarrow> l = \<lparr>sl_locked = True, sl_pid = pid\<rparr>" for l :: sleeplock
  by (cases l) auto

lemma cache_bwrite:
  assumes inv: "cache_inv s L U v" and b: "b \<in> L" "n = b_blockno (bufs s ! b)" "n < disksize s"
  shows "\<exists>t. bwrite b s = Ok () t \<and> cache_inv t L (U - {n}) v \<and> kframe s t \<and> disk t = (disk s)(n := v n) \<and>
    dwrites t = dwrites s @ [(n, v n)] \<and> bufs t = (bufs s)[b := (bufs s ! b)\<lparr>b_dirty := False, b_valid := True\<rparr>]"
proof -
  note i = cache_invD [OF inv]
  have bn: "b < NBUF" using b(1) i(7) by auto
  have ok: "buf_ok (mypid s) True U v (bufs s ! b)" using i(9) [OF bn] b(1) by simp
  have on: "on_disk s b n" using ok bn b(2) by (simp add: buf_ok_def on_disk_def)
  have x: "b_lock (bufs s ! b) = my_lock s" "b_dev (bufs s ! b) = 1" "b_data (bufs s ! b) = v n"
    using ok b(2) unfolding buf_ok_def by (simp_all add: my_lock_iff [symmetric])
  have n: "\<not> on_disk s c n" if "c \<noteq> b" for c using i(10) on that by blast
  let ?x = "(bufs s ! b)\<lparr>b_dirty := False, b_valid := True\<rparr>"
  let ?t = "set_cache ((bufs s)[b := ?x]) (lru s) ((disk s)(n := v n)) (dwrites s @ [(n, v n)]) (ptable s) s"
  have "cache_inv ?t L (U - {n}) v"
  proof (rule cache_inv_upd [OF inv refl refl i(5,6,7) _ bn])
    show "buf_ok (mypid s) (b \<in> L) (U - {n}) v ?x" using ok b by (auto simp: buf_ok_def)
    show "buf_ok (mypid s) (c \<in> L) (U - {n}) v (bufs s ! c)" if "c < NBUF" "c \<noteq> b" for c
      using i(9) [OF that(1)] n [OF that(2)] that(1) by (auto simp: on_disk_def buf_ok_def)
    show "(b_dev ?x = 1 \<and> b_blockno ?x = m \<and> b_valid ?x \<and> (b \<in> L \<or> b_dirty ?x)) \<or>
        (\<exists>c. c \<noteq> b \<and> on_disk s c m \<and> b_valid (bufs s ! c) \<and> (c \<in> L \<or> b_dirty (bufs s ! c)))" if "m \<in> U - {n}" for m
      using that i(12) [of m] ok b unfolding buf_ok_def on_disk_def by fastforce
  qed (use i(8,11) n b(2) in auto)
  moreover have "bwrite b s = Ok () ?t"
    using bwrite_eq [OF i(1,2) _ x(1,2)] bn i(4) b(2,3) x(3) by simp
  ultimately show ?thesis by (auto intro!: kframeI)
qed

lemma brelse_eq:
  assumes "held s = []" "cur s = Some p" "b < length (bufs s)" "b_lock (bufs s ! b) = my_lock s" "b_refcnt (bufs s ! b) = 1"
  shows "brelse b s = Ok () (set_cache ((bufs s)[b := (bufs s ! b)\<lparr>b_lock := zero_sleeplock, b_refcnt := 0\<rparr>]) (b # remove1 b (lru s))
    (disk s) (dwrites s) (map (wakeup_proc (Some (ChanSleep (BufLock b)))) (ptable s)) s)"
proof -
  have h: "holdingsleep (BufLock b) s = Ok True s" using holdingsleep_eq [OF assms(1,2)] assms(4) by simp
  then show ?thesis using assms(1,3,5)
    by (simp add: brelse_def releasesleep_eq [OF assms(1)] seqM_def modify_def gets_def upd_buf_cache whenM_def)
      (simp add: set_cache_def)
qed

lemma cache_brelse:
  assumes inv: "cache_inv s L U v" and b: "b \<in> L" and u: "b_blockno (bufs s ! b) \<in> U \<Longrightarrow> b_dirty (bufs s ! b)"
  shows "\<exists>t. brelse b s = Ok () t \<and> cache_inv t (L - {b}) U v \<and> kframe s t \<and> disk t = disk s \<and> dwrites t = dwrites s \<and>
    bufs t = (bufs s)[b := (bufs s ! b)\<lparr>b_lock := zero_sleeplock, b_refcnt := 0\<rparr>]"
proof -
  note i = cache_invD [OF inv]
  have bn: "b < NBUF" using b(1) i(7) by auto
  have ok: "buf_ok (mypid s) True U v (bufs s ! b)" using i(9) [OF bn] b(1) by simp
  have on: "on_disk s b (b_blockno (bufs s ! b))" using ok bn by (simp add: buf_ok_def on_disk_def)
  have x: "b_lock (bufs s ! b) = my_lock s" "b_refcnt (bufs s ! b) = 1"
    using ok unfolding buf_ok_def by (simp_all add: my_lock_iff [symmetric])
  let ?x = "(bufs s ! b)\<lparr>b_lock := zero_sleeplock, b_refcnt := 0\<rparr>"
  let ?pt = "map (wakeup_proc (Some (ChanSleep (BufLock b)))) (ptable s)"
  let ?t = "set_cache ((bufs s)[b := ?x]) (b # remove1 b (lru s)) (disk s) (dwrites s) ?pt s"
  have pt: "map p_pid ?pt = map p_pid (ptable s)" by (simp add: wakeup_pid)
  have l: "distinct (b # remove1 b (lru s))" "set (b # remove1 b (lru s)) = {..<NBUF}" using i(5,6) bn by auto
  have "cache_inv ?t (L - {b}) U v"
  proof (rule cache_inv_upd [OF inv refl pt l _ i(8) bn])
    show "buf_ok (mypid s) (b \<in> L - {b}) U v ?x" using ok by (auto simp: buf_ok_def zero_sleeplock_def)
    show "buf_ok (mypid s) (c \<in> L - {b}) U v (bufs s ! c)" if "c < NBUF" "c \<noteq> b" for c
      using i(9) [OF that(1)] that(2) by simp
    show "(b_dev ?x = 1 \<and> b_blockno ?x = m \<and> b_valid ?x \<and> (b \<in> L - {b} \<or> b_dirty ?x)) \<or>
        (\<exists>c. c \<noteq> b \<and> on_disk s c m \<and> b_valid (bufs s ! c) \<and> (c \<in> L - {b} \<or> b_dirty (bufs s ! c)))" if "m \<in> U" for m
      using that i(12) [of m] ok u unfolding buf_ok_def on_disk_def by fastforce
  qed (use i(7,10,11) on in auto)
  moreover have "brelse b s = Ok () ?t" using brelse_eq [OF i(1,2) _ x] bn i(4) by simp
  ultimately show ?thesis using pt by (auto intro!: kframeI)
qed

lemma release_upd_buf:
  "held s = [] \<Longrightarrow> release lk (upd_buf b f (s\<lparr>held := [lk]\<rparr>)) = Ok () (upd_buf b f s)"
  by (simp add: upd_buf_def)

lemma bget_cached_eq:
  assumes "held s = []" "cur s = Some p" "bget_cached dev n s = Some b" "b < length (bufs s)" "\<not> sl_locked (b_lock (bufs s ! b))"
  shows "bget dev n s = Ok b (upd_buf b (\<lambda>x. x\<lparr>b_refcnt := b_refcnt x + 1, b_lock := my_lock s\<rparr>) s)"
proof -
  let ?f = "\<lambda>x. x\<lparr>b_refcnt := b_refcnt x + 1\<rparr>"
  let ?s = "upd_buf b ?f s"
  have c: "bget_cached dev n (s\<lparr>held := [BcacheLock]\<rparr>) = Some b" using assms(3) by (simp add: bget_cached_def)
  have "acquiresleep (BufLock b) ?s = Ok () (upd_buf b (\<lambda>x. x\<lparr>b_lock := my_lock ?s\<rparr>) ?s)"
    by (rule acquiresleep_eq) (use assms in \<open>simp_all add: upd_buf_def\<close>)
  then have "bget dev n s = Ok b (upd_buf b (\<lambda>x. x\<lparr>b_lock := my_lock ?s\<rparr>) ?s)"
    using assms(1) c release_upd_buf [OF assms(1), of BcacheLock b ?f]
    by (simp add: bget_def seqM_def gets_def modify_def ret_def)
  then show ?thesis using assms(4) by (simp add: upd_buf_def mypid_def)
qed

lemma bget_unused_eq:
  assumes "held s = []" "cur s = Some p" "bget_cached dev n s = None" "bget_unused s = Some b" "b < length (bufs s)"
    "\<not> sl_locked (b_lock (bufs s ! b))"
  shows "bget dev n s = Ok b (upd_buf b (\<lambda>x. x\<lparr>b_dev := dev, b_blockno := n, b_valid := False, b_dirty := False, b_refcnt := 1,
    b_lock := my_lock s\<rparr>) s)"
proof -
  let ?f = "\<lambda>x. x\<lparr>b_dev := dev, b_blockno := n, b_valid := False, b_dirty := False, b_refcnt := 1\<rparr>"
  let ?s = "upd_buf b ?f s"
  have c: "bget_cached dev n (s\<lparr>held := [BcacheLock]\<rparr>) = None" "bget_unused (s\<lparr>held := [BcacheLock]\<rparr>) = Some b"
    using assms(3,4) by (simp_all add: bget_cached_def bget_unused_def)
  have "acquiresleep (BufLock b) ?s = Ok () (upd_buf b (\<lambda>x. x\<lparr>b_lock := my_lock ?s\<rparr>) ?s)"
    by (rule acquiresleep_eq) (use assms in \<open>simp_all add: upd_buf_def\<close>)
  then have "bget dev n s = Ok b (upd_buf b (\<lambda>x. x\<lparr>b_lock := my_lock ?s\<rparr>) ?s)"
    using assms(1) c release_upd_buf [OF assms(1), of BcacheLock b ?f]
    by (simp add: bget_def seqM_def gets_def modify_def ret_def)
  then show ?thesis using assms(5) by (simp add: upd_buf_def mypid_def)
qed

lemma iderw_read_eq:
  assumes "held s = []" "cur s = Some p" "b < length (bufs s)" "b_lock (bufs s ! b) = my_lock s" "b_dev (bufs s ! b) = 1"
    "b_blockno (bufs s ! b) < disksize s" "\<not> b_valid (bufs s ! b)" "\<not> b_dirty (bufs s ! b)"
  shows "iderw b s = Ok () (upd_buf b (\<lambda>x. x\<lparr>b_data := disk s (b_blockno x), b_valid := True\<rparr>) s)"
proof -
  have h: "holdingsleep (BufLock b) s = Ok True s" using holdingsleep_eq [OF assms(1,2)] assms(4) by simp
  then show ?thesis using assms(5-8) leD [of "disksize s"] by (auto simp: iderw_def modify_def gets_def)
qed

text \<open>Both ways of getting a buffer end with the block in it.\<close>

lemma bread_fill:
  assumes "held s = []" "cur s = Some p" "b < length (bufs s)" "bget 1 n s = Ok b (upd_buf b (\<lambda>_. x) s)"
    and x: "b_lock x = my_lock s" "b_dev x = 1" "b_blockno x = n" "b_valid x \<Longrightarrow> b_data x = d"
      "\<not> b_valid x \<Longrightarrow> d = disk s n \<and> \<not> b_dirty x" and n: "n < disksize s"
  shows "bread 1 n s = Ok b (upd_buf b (\<lambda>_. x\<lparr>b_data := d, b_valid := True\<rparr>) s)"
proof (cases "b_valid x")
  case True
  then have "x\<lparr>b_data := d, b_valid := True\<rparr> = x" using x(4) by (cases x) simp
  then show ?thesis using assms(3,4) True by (simp add: bread_def gets_def seqM_def whenM_def ret_def upd_buf_def)
next
  case False
  let ?s = "upd_buf b (\<lambda>_. x) s"
  have "iderw b ?s = Ok () (upd_buf b (\<lambda>x. x\<lparr>b_data := disk ?s (b_blockno x), b_valid := True\<rparr>) ?s)"
    by (rule iderw_read_eq) (use assms False in \<open>simp_all add: upd_buf_def mypid_def\<close>)
  then have "bread 1 n s = Ok b (upd_buf b (\<lambda>x. x\<lparr>b_data := disk ?s (b_blockno x), b_valid := True\<rparr>) ?s)"
    using assms(3,4) False by (simp add: bread_def gets_def seqM_def whenM_def ret_def upd_buf_def)
  then show ?thesis using assms(3) x(3,5) False by (simp add: upd_buf_def)
qed

lemma cache_bread:
  assumes inv: "cache_inv s L U v" and n: "n < disksize s" "\<And>b. b \<in> L \<Longrightarrow> b_blockno (bufs s ! b) \<noteq> n"
    and room: "n \<in> U \<or> card U + card L < NBUF"
  shows "\<exists>b t x. bread 1 n s = Ok b t \<and> b \<notin> L \<and> cache_inv t (insert b L) U v \<and> kframe s t \<and> disk t = disk s \<and> dwrites t = dwrites s \<and>
    bufs t = (bufs s)[b := x] \<and> b < length (bufs s) \<and> b_blockno x = n \<and> b_data x = v n \<and> (n \<in> U \<longrightarrow> b_dirty x)"
proof -
  note i = cache_invD [OF inv]
  have "\<exists>b x. b < NBUF \<and> b \<notin> L \<and> bread 1 n s = Ok b (upd_buf b (\<lambda>_. x) s) \<and> b_dev x = 1 \<and> b_blockno x = n \<and> b_valid x \<and>
      b_data x = v n \<and> b_lock x = my_lock s \<and> b_refcnt x = 1 \<and> (b_dirty x \<longleftrightarrow> n \<in> U) \<and> (\<forall>c. c \<noteq> b \<longrightarrow> \<not> on_disk s c n) \<and>
      (\<forall>m \<in> U. m \<noteq> n \<longrightarrow> \<not> on_disk s b m)"
  proof (cases "bget_cached 1 n s")
    case (Some b)
    then have "b \<in> set (lru s)" and x: "b_dev (bufs s ! b) = 1" "b_blockno (bufs s ! b) = n"
      unfolding bget_cached_def find_Some_iff by (auto simp: set_conv_nth)
    then have b: "b < NBUF" "b \<notin> L" using i(6) n(2) by auto
    have ok: "buf_ok (mypid s) False U v (bufs s ! b)" using i(9) [OF b(1)] b(2) by simp
    have on: "on_disk s b n" using b x by (simp add: on_disk_def)
    have nU: "b_dirty (bufs s ! b) \<longleftrightarrow> n \<in> U" "\<not> b_valid (bufs s ! b) \<Longrightarrow> n \<notin> U"
      using i(12) [of n] i(10) [OF on] b(2) ok x(2) by (auto simp: buf_ok_def)
    let ?x = "(bufs s ! b)\<lparr>b_refcnt := b_refcnt (bufs s ! b) + 1, b_lock := my_lock s\<rparr>"
    have g: "bget 1 n s = Ok b (upd_buf b (\<lambda>_. ?x) s)"
      using bget_cached_eq [OF i(1,2) Some] b(1) i(4) ok by (simp add: upd_buf_def buf_ok_def)
    have "bread 1 n s = Ok b (upd_buf b (\<lambda>_. ?x\<lparr>b_data := v n, b_valid := True\<rparr>) s)"
      by (rule bread_fill [OF i(1,2) _ g]) (use b(1) i(4,11) x n(1) ok nU in \<open>auto simp: buf_ok_def\<close>)
    moreover have "\<forall>c. c \<noteq> b \<longrightarrow> \<not> on_disk s c n" using i(10) [OF on] by blast
    moreover have "\<forall>m \<in> U. m \<noteq> n \<longrightarrow> \<not> on_disk s b m" using x(2) by (simp add: on_disk_def)
    moreover have "b_refcnt (bufs s ! b) = 0" using ok by (simp add: buf_ok_def)
    ultimately show ?thesis using b x nU(1)
      by (intro exI [of _ b] exI [of _ "?x\<lparr>b_data := v n, b_valid := True\<rparr>"]) simp
  next
    case None
    then have nc: "\<not> on_disk s c n" for c using i(6) by (auto simp: bget_cached_def find_None_iff on_disk_def)
    then have nU: "n \<notin> U" using i(12) by blast
    then obtain b where b: "bget_unused s = Some b" "b < NBUF" "b \<notin> L" "\<not> b_dirty (bufs s ! b)"
      using unused_exists [OF inv] room by blast
    have ok: "buf_ok (mypid s) False U v (bufs s ! b)" using i(9) [OF b(2)] b(3) by simp
    have nm: "\<not> on_disk s b m" if "m \<in> U" for m using i(12) [OF that] i(10) b(3,4) by blast
    let ?x = "(bufs s ! b)\<lparr>b_dev := 1, b_blockno := n, b_valid := False, b_dirty := False, b_refcnt := 1, b_lock := my_lock s\<rparr>"
    have g: "bget 1 n s = Ok b (upd_buf b (\<lambda>_. ?x) s)"
      using bget_unused_eq [OF i(1,2) None b(1)] b(2) i(4) ok by (simp add: upd_buf_def buf_ok_def)
    have "bread 1 n s = Ok b (upd_buf b (\<lambda>_. ?x\<lparr>b_data := v n, b_valid := True\<rparr>) s)"
      by (rule bread_fill [OF i(1,2) _ g]) (use b(2) i(4,11) n(1) nU in auto)
    then show ?thesis using b nU nc nm
      by (intro exI [of _ b] exI [of _ "?x\<lparr>b_data := v n, b_valid := True\<rparr>"]) auto
  qed
  then obtain b x where b: "b < NBUF" "b \<notin> L" "bread 1 n s = Ok b (upd_buf b (\<lambda>_. x) s)" and x: "b_dev x = 1" "b_blockno x = n"
    "b_valid x" "b_data x = v n" "b_lock x = my_lock s" "b_refcnt x = 1" "b_dirty x \<longleftrightarrow> n \<in> U"
    and on: "\<And>c. c \<noteq> b \<Longrightarrow> \<not> on_disk s c n" "\<And>m. m \<in> U \<Longrightarrow> m \<noteq> n \<Longrightarrow> \<not> on_disk s b m" by blast
  let ?t = "set_cache ((bufs s)[b := x]) (lru s) (disk s) (dwrites s) (ptable s) s"
  have "cache_inv ?t (insert b L) U v"
  proof (rule cache_inv_upd [OF inv refl refl i(5,6) _ i(8) b(1)])
    show "buf_ok (mypid s) (b \<in> insert b L) U v x" using x by (simp add: buf_ok_def)
    show "(b_dev x = 1 \<and> b_blockno x = m \<and> b_valid x \<and> (b \<in> insert b L \<or> b_dirty x)) \<or>
        (\<exists>c. c \<noteq> b \<and> on_disk s c m \<and> b_valid (bufs s ! c) \<and> (c \<in> insert b L \<or> b_dirty (bufs s ! c)))" if mU: "m \<in> U" for m
    proof (cases "m = n")
      case False
      then obtain c where "on_disk s c m" "b_valid (bufs s ! c)" "c \<in> L \<or> b_dirty (bufs s ! c)" "c \<noteq> b"
        using i(12) [OF mU] on(2) [OF mU] by blast
      then show ?thesis by blast
    qed (use x in simp)
  qed (use b(1,2) i(7,9,11) on(1) x(2) in auto)
  moreover have "upd_buf b (\<lambda>_. x) s = ?t" by (simp add: upd_buf_cache)
  ultimately show ?thesis using b x i(4) by (intro exI [of _ b] exI [of _ ?t] exI [of _ x]) (auto intro!: kframeI)
qed

section \<open>The interface the log uses\<close>

locale block_cache =
  fixes rd :: "uint \<Rightarrow> nat M" and put :: "nat \<Rightarrow> byte list \<Rightarrow> unit M" and wr rel :: "nat \<Rightarrow> unit M"
    and inv :: "kernel \<Rightarrow> nat set \<Rightarrow> uint set \<Rightarrow> (uint \<Rightarrow> byte list) \<Rightarrow> bool"
  assumes rd_law: "inv s L U v \<Longrightarrow> n < disksize s \<Longrightarrow> (\<And>b. b \<in> L \<Longrightarrow> b_blockno (bufs s ! b) \<noteq> n) \<Longrightarrow>
      n \<in> U \<or> card U + card L < NBUF \<Longrightarrow>
      \<exists>b t x. rd n s = Ok b t \<and> b \<notin> L \<and> inv t (insert b L) U v \<and> kframe s t \<and> disk t = disk s \<and> dwrites t = dwrites s \<and>
        bufs t = (bufs s)[b := x] \<and> b < length (bufs s) \<and> b_blockno x = n \<and> b_data x = v n \<and> (n \<in> U \<longrightarrow> b_dirty x)"
    and put_law: "inv s L U v \<Longrightarrow> b \<in> L \<Longrightarrow> n = b_blockno (bufs s ! b) \<Longrightarrow>
      \<exists>t. put b d s = Ok () t \<and> inv t L (insert n U) (v(n := d)) \<and> kframe s t \<and> disk t = disk s \<and> dwrites t = dwrites s \<and>
        bufs t = (bufs s)[b := (bufs s ! b)\<lparr>b_data := d\<rparr>]"
    and wr_law: "inv s L U v \<Longrightarrow> b \<in> L \<Longrightarrow> n = b_blockno (bufs s ! b) \<Longrightarrow> n < disksize s \<Longrightarrow>
      \<exists>t. wr b s = Ok () t \<and> inv t L (U - {n}) v \<and> kframe s t \<and> disk t = (disk s)(n := v n) \<and> dwrites t = dwrites s @ [(n, v n)] \<and>
        bufs t = (bufs s)[b := (bufs s ! b)\<lparr>b_dirty := False, b_valid := True\<rparr>]"
    and rel_law: "inv s L U v \<Longrightarrow> b \<in> L \<Longrightarrow> (b_blockno (bufs s ! b) \<in> U \<Longrightarrow> b_dirty (bufs s ! b)) \<Longrightarrow>
      \<exists>t. rel b s = Ok () t \<and> inv t (L - {b}) U v \<and> kframe s t \<and> disk t = disk s \<and> dwrites t = dwrites s \<and>
        bufs t = (bufs s)[b := (bufs s ! b)\<lparr>b_lock := zero_sleeplock, b_refcnt := 0\<rparr>]"
begin

text \<open>Writing back a buffer that is locked alone: put, write through, release.\<close>

lemma write_back:
  assumes i: "inv s {b} U v" and b: "b < length (bufs s)" "n = b_blockno (bufs s ! b)" "n < disksize s"
  shows "\<exists>t. seqM (put b d) (seqM (wr b) (rel b)) s = Ok () t \<and> inv t {} (U - {n}) (v(n := d)) \<and> kframe s t \<and>
    disk t = (disk s)(n := d) \<and> dwrites t = dwrites s @ [(n, d)]"
proof -
  obtain s1 where 1: "put b d s = Ok () s1" "inv s1 {b} (insert n U) (v(n := d))" "kframe s s1" "disk s1 = disk s"
    "dwrites s1 = dwrites s" "bufs s1 = (bufs s)[b := (bufs s ! b)\<lparr>b_data := d\<rparr>]"
    using put_law [OF i _ b(2)] by blast
  have n1: "n = b_blockno (bufs s1 ! b)" "n < disksize s1" using b 1(6) kframeD(4) [OF 1(3)] by simp_all
  obtain s2 where 2: "wr b s1 = Ok () s2" "inv s2 {b} (insert n U - {n}) (v(n := d))" "kframe s1 s2"
    "disk s2 = (disk s1)(n := (v(n := d)) n)" "dwrites s2 = dwrites s1 @ [(n, (v(n := d)) n)]"
    "bufs s2 = (bufs s1)[b := (bufs s1 ! b)\<lparr>b_dirty := False, b_valid := True\<rparr>]"
    using wr_law [OF 1(2) _ n1] by blast
  have "b_blockno (bufs s2 ! b) = n" using 2(6) 1(6) b n1(1) by simp
  then obtain s3 where 3: "rel b s2 = Ok () s3" "inv s3 ({b} - {b}) (insert n U - {n}) (v(n := d))" "kframe s2 s3"
    "disk s3 = disk s2" "dwrites s3 = dwrites s2" using rel_law [OF 2(2), of b] by blast
  have "insert n U - {n} = U - {n}" by blast
  then show ?thesis using 1(1,4,5) 2(1,4,5) 3 kframe_trans [OF kframe_trans [OF 1(3) 2(3)] 3(3)]
    by (simp add: seqM_def)
qed

lemma update_block:
  assumes i: "inv s {} U v" and n: "n < disksize s" "n \<in> U \<or> card U < NBUF"
  shows "\<exists>t. bindM (rd n) (\<lambda>b. bindM (buf_data b) (\<lambda>d. seqM (put b (F d)) (seqM (wr b) (rel b)))) s = Ok () t \<and>
    inv t {} (U - {n}) (v(n := F (v n))) \<and> kframe s t \<and> disk t = (disk s)(n := F (v n)) \<and> dwrites t = dwrites s @ [(n, F (v n))]"
proof -
  obtain b s1 x where 1: "rd n s = Ok b s1" "inv s1 {b} U v" "kframe s s1" "disk s1 = disk s" "dwrites s1 = dwrites s"
    "bufs s1 = (bufs s)[b := x]" "b < length (bufs s)" "b_blockno x = n" "b_data x = v n"
    using rd_law [OF i n(1)] n(2) by force
  have b: "b < length (bufs s1)" "n = b_blockno (bufs s1 ! b)" "n < disksize s1"
    using 1(6-8) kframeD(4) [OF 1(3)] n(1) by simp_all
  have d: "buf_data b s1 = Ok (v n) s1" using 1(6,7,9) by (simp add: buf_data_def gets_def)
  obtain t where t: "seqM (put b (F (v n))) (seqM (wr b) (rel b)) s1 = Ok () t" "inv t {} (U - {n}) (v(n := F (v n)))" "kframe s1 t"
    "disk t = (disk s1)(n := F (v n))" "dwrites t = dwrites s1 @ [(n, F (v n))]"
    using write_back [OF 1(2) b, of "F (v n)"] by blast
  show ?thesis using 1(1,4,5) d t kframe_trans [OF 1(3) t(3)] by simp
qed

text \<open>Reading two blocks, the second under an address found in between.\<close>

lemma read_two:
  assumes i: "inv s {} U v" and a: "a < disksize s" "a \<in> U \<or> card U < NBUF"
    and c: "c < disksize s" "c \<in> U \<or> card U + 1 < NBUF" "a \<noteq> c" and hm: "\<And>t. kframe s t \<Longrightarrow> hm t = Ok c t"
  shows "\<exists>x y t. bindM (rd a) (\<lambda>x. bindM hm (\<lambda>h. bindM (rd h) (\<lambda>y. K x y))) s = K x y t \<and> inv t {x, y} U v \<and> x \<noteq> y \<and>
    kframe s t \<and> disk t = disk s \<and> dwrites t = dwrites s \<and> x < length (bufs t) \<and> y < length (bufs t) \<and>
    b_blockno (bufs t ! x) = a \<and> b_data (bufs t ! x) = v a \<and> b_blockno (bufs t ! y) = c \<and> b_data (bufs t ! y) = v c \<and>
    (a \<in> U \<longrightarrow> b_dirty (bufs t ! x)) \<and> (c \<in> U \<longrightarrow> b_dirty (bufs t ! y))"
proof -
  obtain x s1 X where 1: "rd a s = Ok x s1" "inv s1 {x} U v" "kframe s s1" "disk s1 = disk s" "dwrites s1 = dwrites s"
    "bufs s1 = (bufs s)[x := X]" "x < length (bufs s)" "b_blockno X = a" "b_data X = v a" "a \<in> U \<longrightarrow> b_dirty X"
    using rd_law [OF i a(1)] a(2) by force
  have h: "hm s1 = Ok c s1" using hm 1(3) by blast
  have c1: "c < disksize s1" "c \<in> U \<or> card U + card {x} < NBUF" using c kframeD(4) [OF 1(3)] by simp_all
  have "b_blockno (bufs s1 ! b) \<noteq> c" if "b \<in> {x}" for b using that 1(6-8) c(3) by simp
  then obtain y s2 Y where 2: "rd c s1 = Ok y s2" "y \<notin> {x}" "inv s2 {y, x} U v" "kframe s1 s2" "disk s2 = disk s1"
    "dwrites s2 = dwrites s1" "bufs s2 = (bufs s1)[y := Y]" "y < length (bufs s1)" "b_blockno Y = c" "b_data Y = v c" "c \<in> U \<longrightarrow> b_dirty Y"
    using rd_law [OF 1(2) c1(1) _ c1(2)] by auto
  show ?thesis
    using 1 2 h kframe_trans [OF 1(3) 2(4)] by (intro exI [of _ x] exI [of _ y] exI [of _ s2]) (auto simp: insert_commute)
qed

lemma copy_first:
  assumes i: "inv s {} U v" and a: "a < disksize s" "a \<notin> U" "card U < NBUF"
    and c: "c < disksize s" "c \<in> U \<or> card U + 1 < NBUF" "a \<noteq> c" and hm: "\<And>t. kframe s t \<Longrightarrow> hm t = Ok c t"
  shows "\<exists>t. bindM (rd a) (\<lambda>x. bindM hm (\<lambda>h. bindM (rd h) (\<lambda>y. bindM (buf_data x) (\<lambda>d.
      seqM (put y d) (seqM (wr y) (seqM (rel x) (rel y))))))) s = Ok () t \<and>
    inv t {} (U - {c}) (v(c := v a)) \<and> kframe s t \<and> disk t = (disk s)(c := v a) \<and> dwrites t = dwrites s @ [(c, v a)]"
proof -
  obtain x y s0 where 0: "bindM (rd a) (\<lambda>x. bindM hm (\<lambda>h. bindM (rd h) (\<lambda>y. bindM (buf_data x) (\<lambda>d.
      seqM (put y d) (seqM (wr y) (seqM (rel x) (rel y))))))) s = bindM (buf_data x) (\<lambda>d.
      seqM (put y d) (seqM (wr y) (seqM (rel x) (rel y)))) s0" "inv s0 {x, y} U v" "x \<noteq> y" "kframe s s0"
    "disk s0 = disk s" "dwrites s0 = dwrites s" "x < length (bufs s0)" "y < length (bufs s0)"
    "b_blockno (bufs s0 ! x) = a" "b_data (bufs s0 ! x) = v a" "b_blockno (bufs s0 ! y) = c"
    using read_two [OF i a(1) _ c hm, of "\<lambda>x y. bindM (buf_data x) (\<lambda>d. seqM (put y d) (seqM (wr y) (seqM (rel x) (rel y))))"] a(3)
    by blast
  have d: "buf_data x s0 = Ok (v a) s0" using 0(10) by (simp add: buf_data_def gets_def)
  obtain s1 where 1: "put y (v a) s0 = Ok () s1" "inv s1 {x, y} (insert c U) (v(c := v a))" "kframe s0 s1" "disk s1 = disk s0"
    "dwrites s1 = dwrites s0" "bufs s1 = (bufs s0)[y := (bufs s0 ! y)\<lparr>b_data := v a\<rparr>]"
    using put_law [OF 0(2) _ 0(11) [symmetric]] by blast
  have n1: "c = b_blockno (bufs s1 ! y)" "c < disksize s1"
    using 1(6) 0(8,11) kframeD(4) [OF 1(3)] kframeD(4) [OF 0(4)] c(1) by simp_all
  obtain s2 where 2: "wr y s1 = Ok () s2" "inv s2 {x, y} (insert c U - {c}) (v(c := v a))" "kframe s1 s2"
    "disk s2 = (disk s1)(c := (v(c := v a)) c)" "dwrites s2 = dwrites s1 @ [(c, (v(c := v a)) c)]"
    "bufs s2 = (bufs s1)[y := (bufs s1 ! y)\<lparr>b_dirty := False, b_valid := True\<rparr>]"
    using wr_law [OF 1(2) _ n1] by blast
  have nx: "b_blockno (bufs s2 ! x) = a" "b_blockno (bufs s2 ! y) = c" using 2(6) 1(6) 0(3,8,9,11) by simp_all
  obtain s3 where 3: "rel x s2 = Ok () s3" "inv s3 ({x, y} - {x}) (insert c U - {c}) (v(c := v a))" "kframe s2 s3"
    "disk s3 = disk s2" "dwrites s3 = dwrites s2" "bufs s3 = (bufs s2)[x := (bufs s2 ! x)\<lparr>b_lock := zero_sleeplock, b_refcnt := 0\<rparr>]"
    using rel_law [OF 2(2), of x] a(2) unfolding nx by blast
  have "b_blockno (bufs s3 ! y) = c" using 3(6) nx(2) 0(3) by simp
  then obtain s4 where 4: "rel y s3 = Ok () s4" "inv s4 ({x, y} - {x} - {y}) (insert c U - {c}) (v(c := v a))" "kframe s3 s4"
    "disk s4 = disk s3" "dwrites s4 = dwrites s3"
    using rel_law [OF 3(2), of y] 0(3) by blast
  have "{x, y} - {x} - {y} = {}" "insert c U - {c} = U - {c}" by auto
  then have "inv s4 {} (U - {c}) (v(c := v a))" using 4(2) by (simp only:)
  then show ?thesis using 0(1,5,6) d 1(1,4,5) 2(1,4,5) 3(1,4,5) 4(1,4,5)
      kframe_trans [OF kframe_trans [OF kframe_trans [OF kframe_trans [OF 0(4) 1(3)] 2(3)] 3(3)] 4(3)]
    by (simp add: seqM_def)
qed

lemma copy_second:
  assumes i: "inv s {} U v" and a: "a < disksize s" "a \<notin> U" "card U < NBUF"
    and c: "c < disksize s" "c \<in> U \<or> card U + 1 < NBUF" "a \<noteq> c" and hm: "\<And>t. kframe s t \<Longrightarrow> hm t = Ok c t"
  shows "\<exists>t. bindM (rd a) (\<lambda>x. bindM hm (\<lambda>h. bindM (rd h) (\<lambda>y. bindM (buf_data y) (\<lambda>d.
      seqM (put x d) (seqM (wr x) (seqM (rel y) (rel x))))))) s = Ok () t \<and>
    inv t {} U (v(a := v c)) \<and> kframe s t \<and> disk t = (disk s)(a := v c) \<and> dwrites t = dwrites s @ [(a, v c)]"
proof -
  obtain x y s0 where 0: "bindM (rd a) (\<lambda>x. bindM hm (\<lambda>h. bindM (rd h) (\<lambda>y. bindM (buf_data y) (\<lambda>d.
      seqM (put x d) (seqM (wr x) (seqM (rel y) (rel x))))))) s = bindM (buf_data y) (\<lambda>d.
      seqM (put x d) (seqM (wr x) (seqM (rel y) (rel x)))) s0" "inv s0 {x, y} U v" "x \<noteq> y" "kframe s s0"
    "disk s0 = disk s" "dwrites s0 = dwrites s" "x < length (bufs s0)" "y < length (bufs s0)"
    "b_blockno (bufs s0 ! x) = a" "b_blockno (bufs s0 ! y) = c" "b_data (bufs s0 ! y) = v c" "c \<in> U \<longrightarrow> b_dirty (bufs s0 ! y)"
    using read_two [OF i a(1) _ c hm, of "\<lambda>x y. bindM (buf_data y) (\<lambda>d. seqM (put x d) (seqM (wr x) (seqM (rel y) (rel x))))"] a(3)
    by blast
  have d: "buf_data y s0 = Ok (v c) s0" using 0(11) by (simp add: buf_data_def gets_def)
  obtain s1 where 1: "put x (v c) s0 = Ok () s1" "inv s1 {x, y} (insert a U) (v(a := v c))" "kframe s0 s1" "disk s1 = disk s0"
    "dwrites s1 = dwrites s0" "bufs s1 = (bufs s0)[x := (bufs s0 ! x)\<lparr>b_data := v c\<rparr>]"
    using put_law [OF 0(2) _ 0(9) [symmetric]] by blast
  have n1: "a = b_blockno (bufs s1 ! x)" "a < disksize s1"
    using 1(6) 0(7,9) kframeD(4) [OF 1(3)] kframeD(4) [OF 0(4)] a(1) by simp_all
  obtain s2 where 2: "wr x s1 = Ok () s2" "inv s2 {x, y} (insert a U - {a}) (v(a := v c))" "kframe s1 s2"
    "disk s2 = (disk s1)(a := (v(a := v c)) a)" "dwrites s2 = dwrites s1 @ [(a, (v(a := v c)) a)]"
    "bufs s2 = (bufs s1)[x := (bufs s1 ! x)\<lparr>b_dirty := False, b_valid := True\<rparr>]"
    using wr_law [OF 1(2) _ n1] by blast
  have nx: "b_blockno (bufs s2 ! x) = a" "bufs s2 ! y = bufs s0 ! y" using 2(6) 1(6) 0(3,7,9) n1(1) by simp_all
  have U: "insert a U - {a} = U" using a(2) by blast
  obtain s3 where 3: "rel y s2 = Ok () s3" "inv s3 ({x, y} - {y}) U (v(a := v c))" "kframe s2 s3"
    "disk s3 = disk s2" "dwrites s3 = dwrites s2" "bufs s3 = (bufs s2)[y := (bufs s2 ! y)\<lparr>b_lock := zero_sleeplock, b_refcnt := 0\<rparr>]"
    using rel_law [OF 2(2), of y] 0(10,12) unfolding nx U by blast
  have "b_blockno (bufs s3 ! x) = a" using 3(6) nx(1) 0(3) by simp
  then obtain s4 where 4: "rel x s3 = Ok () s4" "inv s4 ({x, y} - {y} - {x}) U (v(a := v c))" "kframe s3 s4"
    "disk s4 = disk s3" "dwrites s4 = dwrites s3"
    using rel_law [OF 3(2), of x] 0(3) a(2) by blast
  have "{x, y} - {y} - {x} = {}" by auto
  then have "inv s4 {} U (v(a := v c))" using 4(2) by (simp only:)
  then show ?thesis using 0(1,5,6) d 1(1,4,5) 2(1,4,5) 3(1,4,5) 4(1,4,5)
      kframe_trans [OF kframe_trans [OF kframe_trans [OF kframe_trans [OF 0(4) 1(3)] 2(3)] 3(3)] 4(3)]
    by (simp add: seqM_def)
qed

end

interpretation bc: block_cache "bread 1" set_data bwrite brelse cache_inv
  by unfold_locales (rule cache_bread cache_set_data cache_bwrite cache_brelse; simp)+

end
