(* ===== verification/Crash.thy ===== *)
theory Crash
  imports Cache
begin

text \<open>
  Crash safety of the log (log.c).  A commit is a fixed sequence of block writes.  Whatever prefix
  of it reached the disk before a crash, recovery at the next boot brings the disk to the state
  before the transaction or to the state after it, never to a mixture.
\<close>

section \<open>Sequences of block writes\<close>

fun apply_writes :: "(uint \<times> byte list) list \<Rightarrow> (uint \<Rightarrow> byte list) \<Rightarrow> uint \<Rightarrow> byte list" where
  "apply_writes [] d = d"
| "apply_writes ((n, x) # ws) d = apply_writes ws (d(n := x))"

lemma apply_writes_append [simp]: "apply_writes (xs @ ys) d = apply_writes ys (apply_writes xs d)"
  by (induction xs arbitrary: d) auto

lemma apply_writes_other: "b \<notin> fst ` set ws \<Longrightarrow> apply_writes ws d b = d b"
  by (induction ws arbitrary: d) auto

lemma apply_writes_in: "distinct (map fst ws) \<Longrightarrow> (b, x) \<in> set ws \<Longrightarrow> apply_writes ws d b = x"
proof (induction ws arbitrary: d)
  case (Cons w ws)
  obtain n y where w: "w = (n, y)" by (cases w)
  have "n \<notin> fst ` set ws" using Cons.prems(1) by (simp add: w)
  then show ?case using Cons by (auto simp: w apply_writes_other)
qed simp

section \<open>The blocks of the log\<close>

definition log_hdr :: "int \<Rightarrow> uint" where
  "log_hdr st = word_of_int st"

definition log_blk :: "int \<Rightarrow> nat \<Rightarrow> uint" where
  "log_blk st i = word_of_int (st + int i + 1)"

definition log_area :: "int \<Rightarrow> nat \<Rightarrow> uint set" where
  "log_area st n = insert (log_hdr st) (log_blk st ` {..<n})"

definition mkhdr :: "byte list \<Rightarrow> nat \<Rightarrow> uint list \<Rightarrow> byte list" where
  "mkhdr d n bs = put_blocks (put32 d 0 (word_of_int (int n))) bs n"

lemma get32_put_blocks:
  "4 + 4 * n \<le> length d \<Longrightarrow> get32 (put_blocks d bs n) 0 = get32 d 0"
  "4 + 4 * n \<le> length d \<Longrightarrow> i < n \<Longrightarrow> get32 (put_blocks d bs n) (4 + 4 * i) = bs ! i"
proof (induction n)
  case (Suc n)
  { case 1
    then show ?case using Suc.IH(1) get_put_other(4) [of 0 "4 + 4 * n"] by simp }
  { case 2
    then show ?case using Suc.IH(2) get_put_other(4) [of "4 + 4 * i" "4 + 4 * n"] by (cases "i = n") auto }
qed simp_all

lemma mkhdr_count: "n \<le> 100 \<Longrightarrow> length d = BSIZE \<Longrightarrow> sint (get32 (mkhdr d n bs) 0) = int n"
proof -
  assume n: "n \<le> 100" "length d = BSIZE"
  then have "get32 (mkhdr d n bs) 0 = word_of_int (int n)" by (simp add: mkhdr_def get32_put_blocks)
  moreover have "sint (word_of_int (int n) :: uint) = int n"
    using n(1) by (simp add: sint_uint unsigned_of_nat signed_take_bit_int_eq_self take_bit_int_eq_self take_bit_nat_eq_self)
  ultimately show ?thesis by simp
qed

lemma mkhdr_block: "n \<le> 100 \<Longrightarrow> length d = BSIZE \<Longrightarrow> i < n \<Longrightarrow> get32 (mkhdr d n bs) (4 + 4 * i) = bs ! i"
  by (simp add: mkhdr_def get32_put_blocks)

lemma word_of_int_less:
  assumes "0 \<le> x" "x < int (unat (n :: uint))"
  shows "word_of_int x < n"
proof -
  have "x < 2 ^ 32" using assms(2) uint_lt2p [of n] by simp
  then show ?thesis using assms by (simp add: word_less_def uint_word_of_int)
qed

section \<open>The loops of a commit\<close>

text \<open>The bodies of the loops of write_log and install_trans, and the block each of them writes.\<close>

definition wl_body :: "log \<Rightarrow> nat \<Rightarrow> unit M" where
  "wl_body l tail =
       bindM (bread (lg_dev l) (word_of_int (lg_start l + int tail + 1))) (\<lambda>to.
       bindM (log_block (int tail)) (\<lambda>home.
       bindM (bread (lg_dev l) home) (\<lambda>from.
       bindM (buf_data from) (\<lambda>d.
       seqM (set_data to d) (seqM (bwrite to) (seqM (brelse from) (brelse to)))))))"

definition it_body :: "log \<Rightarrow> nat \<Rightarrow> unit M" where
  "it_body l tail =
       bindM (bread (lg_dev l) (word_of_int (lg_start l + int tail + 1))) (\<lambda>lbuf.
       bindM (log_block (int tail)) (\<lambda>home.
       bindM (bread (lg_dev l) home) (\<lambda>dbuf.
       bindM (buf_data lbuf) (\<lambda>d.
       seqM (set_data dbuf d) (seqM (bwrite dbuf) (seqM (brelse lbuf) (brelse dbuf)))))))"

definition wl_write :: "log \<Rightarrow> (uint \<Rightarrow> byte list) \<Rightarrow> nat \<Rightarrow> uint \<times> byte list" where
  "wl_write l v i = (log_blk (lg_start l) i, v (lh_block l ! i))"

definition it_write :: "log \<Rightarrow> (uint \<Rightarrow> byte list) \<Rightarrow> nat \<Rightarrow> uint \<times> byte list" where
  "it_write l v i = (lh_block l ! i, v (log_blk (lg_start l) i))"

lemma loop_bodies:
  "write_log = bindM (gets klog) (\<lambda>l. foreach [0..<nat (lh_n l)] (wl_body l))"
  "install_trans = bindM (gets klog) (\<lambda>l. foreach [0..<nat (lh_n l)] (it_body l))"
  unfolding write_log_def install_trans_def wl_body_def it_body_def by (rule refl)+

lemma log_block_eq: "klog t = l \<Longrightarrow> i < length (lh_block l) \<Longrightarrow> log_block (int i) t = Ok (lh_block l ! i) t"
  by (simp add: log_block_def gets_def ret_def)

lemma write_log_loop:
  assumes "cache_inv s {} U v" "klog s = l" "lg_dev l = 1"
    and "\<And>i. i \<in> set is \<Longrightarrow> i < length (lh_block l) \<and> lh_block l ! i \<in> U \<and> lh_block l ! i < disksize s \<and>
        log_blk (lg_start l) i < disksize s \<and> log_blk (lg_start l) i \<notin> U"
    and "card U < NBUF"
  shows "\<exists>t. foreach is (wl_body l) s = Ok () t \<and>
    cache_inv t {} U (apply_writes (map (wl_write l v) is) v) \<and> kframe s t \<and>
    disk t = apply_writes (map (wl_write l v) is) (disk s) \<and>
    dwrites t = dwrites s @ map (wl_write l v) is"
  using assms
proof (induction "is" arbitrary: s v)
  case Nil
  then show ?case using kframe_refl by (simp add: ret_def)
next
  case (Cons i js s v)
  let ?a = "log_blk (lg_start l) i" and ?c = "lh_block l ! i"
  have i: "i < length (lh_block l)" "?c \<in> U" "?c < disksize s" "?a < disksize s" "?a \<notin> U"
    using Cons.prems(4) [of i] by simp_all
  have ne: "?a \<noteq> ?c" using i(2,5) by auto
  have hm: "log_block (int i) t = Ok ?c t" if "kframe s t" for t
    using log_block_eq [OF _ i(1)] kframeD(3) [OF that] Cons.prems(2) by simp
  have "wl_body l i = bindM (bread 1 ?a) (\<lambda>x. bindM (log_block (int i)) (\<lambda>h. bindM (bread 1 h) (\<lambda>y. bindM (buf_data y) (\<lambda>d.
      seqM (set_data x d) (seqM (bwrite x) (seqM (brelse y) (brelse x)))))))" unfolding wl_body_def Cons.prems(3) log_blk_def ..
  then obtain s1 where 1: "wl_body l i s = Ok () s1"
    "cache_inv s1 {} U (v(?a := v ?c))" "kframe s s1" "disk s1 = (disk s)(?a := v ?c)" "dwrites s1 = dwrites s @ [(?a, v ?c)]"
    using bc.copy_second [OF Cons.prems(1) i(4,5) Cons.prems(5) i(3) disjI1 [OF i(2)] ne hm] by auto
  have pre: "klog s1 = l" "\<And>j. j \<in> set js \<Longrightarrow> j < length (lh_block l) \<and> lh_block l ! j \<in> U \<and> lh_block l ! j < disksize s1 \<and>
        log_blk (lg_start l) j < disksize s1 \<and> log_blk (lg_start l) j \<notin> U"
    using Cons.prems(2,4) kframeD(3,4) [OF 1(3)] by simp_all
  have same: "map (wl_write l (v(?a := v ?c))) js = map (wl_write l v) js"
  proof (intro map_cong refl)
    fix j assume "j \<in> set js"
    then have "lh_block l ! j \<noteq> ?a" using Cons.prems(4) [of j] i(5) by auto
    then show "wl_write l (v(?a := v ?c)) j = wl_write l v j" by (simp add: wl_write_def)
  qed
  from Cons.IH [OF 1(2) pre(1) Cons.prems(3) pre(2) Cons.prems(5)] obtain t where
    t: "foreach js (wl_body l) s1 = Ok () t" "cache_inv t {} U (apply_writes (map (wl_write l v) js) (v(?a := v ?c)))" "kframe s1 t"
      "disk t = apply_writes (map (wl_write l v) js) (disk s1)" "dwrites t = dwrites s1 @ map (wl_write l v) js"
    unfolding same by blast
  show ?case
    using 1(1,4,5) t kframe_trans [OF 1(3) t(3)] by (intro exI [of _ t]) (simp add: wl_write_def [of l v i] seqM_def)
qed

lemma install_loop:
  assumes "cache_inv s {} U v" "klog s = l" "lg_dev l = 1"
    and "\<And>i. i \<in> set is \<Longrightarrow> i < length (lh_block l) \<and> lh_block l ! i < disksize s \<and> log_blk (lg_start l) i < disksize s \<and>
        log_blk (lg_start l) i \<notin> U \<and> (lh_block l ! i \<in> U \<or> card U + 1 < NBUF)"
    and "\<And>i j. i \<in> set is \<Longrightarrow> j \<in> set is \<Longrightarrow> log_blk (lg_start l) i \<noteq> lh_block l ! j"
    and "distinct (map (\<lambda>i. lh_block l ! i) is)" "card U < NBUF"
  shows "\<exists>t. foreach is (it_body l) s = Ok () t \<and>
    cache_inv t {} (U - (\<lambda>i. lh_block l ! i) ` set is) (apply_writes (map (it_write l v) is) v) \<and> kframe s t \<and>
    disk t = apply_writes (map (it_write l v) is) (disk s) \<and>
    dwrites t = dwrites s @ map (it_write l v) is"
  using assms
proof (induction "is" arbitrary: s v U)
  case Nil
  then show ?case using kframe_refl by (simp add: ret_def)
next
  case (Cons i js s v U)
  let ?a = "log_blk (lg_start l) i" and ?c = "lh_block l ! i"
  have i: "i < length (lh_block l)" "?c < disksize s" "?a < disksize s" "?a \<notin> U" "?c \<in> U \<or> card U + 1 < NBUF"
    using Cons.prems(4) [of i] by simp_all
  have ne: "?a \<noteq> ?c" using Cons.prems(5) [of i i] by simp
  have hm: "log_block (int i) t = Ok ?c t" if "kframe s t" for t
    using log_block_eq [OF _ i(1)] kframeD(3) [OF that] Cons.prems(2) by simp
  have "it_body l i = bindM (bread 1 ?a) (\<lambda>x. bindM (log_block (int i)) (\<lambda>h. bindM (bread 1 h) (\<lambda>y. bindM (buf_data x) (\<lambda>d.
      seqM (set_data y d) (seqM (bwrite y) (seqM (brelse x) (brelse y)))))))" unfolding it_body_def Cons.prems(3) log_blk_def ..
  then obtain s1 where 1: "it_body l i s = Ok () s1"
    "cache_inv s1 {} (U - {?c}) (v(?c := v ?a))" "kframe s s1" "disk s1 = (disk s)(?c := v ?a)" "dwrites s1 = dwrites s @ [(?c, v ?a)]"
    using bc.copy_first [OF Cons.prems(1) i(3,4) Cons.prems(7) i(2,5) ne hm] by auto
  have fin: "finite U" using cache_invD(8) [OF Cons.prems(1)] .
  have le: "card (U - {?c}) \<le> card U" using fin by (simp add: card_Diff1_le)
  have pre: "klog s1 = l" "\<And>j. j \<in> set js \<Longrightarrow> j < length (lh_block l) \<and> lh_block l ! j < disksize s1 \<and> log_blk (lg_start l) j < disksize s1 \<and>
        log_blk (lg_start l) j \<notin> U - {?c} \<and> (lh_block l ! j \<in> U - {?c} \<or> card (U - {?c}) + 1 < NBUF)"
    "\<And>i j. i \<in> set js \<Longrightarrow> j \<in> set js \<Longrightarrow> log_blk (lg_start l) i \<noteq> lh_block l ! j"
    "distinct (map (\<lambda>i. lh_block l ! i) js)" "card (U - {?c}) < NBUF"
    using Cons.prems(2,4-7) kframeD(3,4) [OF 1(3)] le by (auto simp: image_iff)
  have same: "map (it_write l (v(?c := v ?a))) js = map (it_write l v) js"
    using Cons.prems(5) by (intro map_cong refl) (auto simp: it_write_def)
  have U: "U - {?c} - (\<lambda>i. lh_block l ! i) ` set js = U - (\<lambda>i. lh_block l ! i) ` set (i # js)" by auto
  from Cons.IH [OF 1(2) pre(1) Cons.prems(3) pre(2-5)] obtain t where
    t: "foreach js (it_body l) s1 = Ok () t" "kframe s1 t"
      "cache_inv t {} (U - (\<lambda>i. lh_block l ! i) ` set (i # js)) (apply_writes (map (it_write l v) js) (v(?c := v ?a)))"
      "disk t = apply_writes (map (it_write l v) js) (disk s1)" "dwrites t = dwrites s1 @ map (it_write l v) js"
    unfolding same U by blast
  show ?case
    using 1(1,4,5) t kframe_trans [OF 1(3) t(2)] by (intro exI [of _ t]) (simp add: it_write_def [of l v i] seqM_def)
qed

section \<open>A commit\<close>

lemma write_head_ok:
  assumes "cache_inv s {} U v" and l: "klog s = l" "lg_dev l = 1" "lh_n l = int n" "n \<le> length (lh_block l)"
    and hb: "hb = log_hdr (lg_start l)" "hb < disksize s" "hb \<notin> U" "card U < NBUF"
  shows "\<exists>t. write_head s = Ok () t \<and> cache_inv t {} U (v(hb := mkhdr (v hb) n (lh_block l))) \<and> kframe s t \<and>
    disk t = (disk s)(hb := mkhdr (v hb) n (lh_block l)) \<and> dwrites t = dwrites s @ [(hb, mkhdr (v hb) n (lh_block l))]"
proof -
  have "write_head s = bindM (bread 1 hb) (\<lambda>b. bindM (buf_data b) (\<lambda>d.
      seqM (set_data b (mkhdr d n (lh_block l))) (seqM (bwrite b) (brelse b)))) s"
    using l hb(1) by (simp add: write_head_def gets_def mkhdr_def log_hdr_def)
  then show ?thesis
    using bc.update_block [OF assms(1) hb(2), of "\<lambda>d. mkhdr d n (lh_block l)"] hb(3,4) by simp
qed

lemma cache_inv_log [simp]: "cache_inv (upd_log f s) L U v = cache_inv s L U v"
  by (simp add: cache_inv_def upd_log_def on_disk_def mypid_def)

text \<open>The layout of the log: its blocks are on the disk and are different from each other.\<close>

lemma log_blocks_distinct:
  assumes "0 \<le> st" "st + int n < int (unat (sz :: uint))"
  shows "log_hdr st < sz" "i < n \<Longrightarrow> log_blk st i < sz" "i < n \<Longrightarrow> log_blk st i \<noteq> log_hdr st"
    "i < n \<Longrightarrow> j < n \<Longrightarrow> log_blk st i = log_blk st j \<longleftrightarrow> i = j"
proof -
  show "log_hdr st < sz" unfolding log_hdr_def by (rule word_of_int_less) (use assms in auto)
  show "i < n \<Longrightarrow> log_blk st i < sz" unfolding log_blk_def by (rule word_of_int_less) (use assms in auto)
  have inj: "x = y" if "word_of_int x = (word_of_int y :: uint)" "0 \<le> x" "x \<le> st + int n" "0 \<le> y" "y \<le> st + int n" for x y
  proof -
    have "x < 2 ^ 32" "y < 2 ^ 32" using that assms(2) uint_lt2p [of sz] by simp_all
    moreover have "uint (word_of_int x :: uint) = uint (word_of_int y :: uint)" using that(1) by (rule arg_cong)
    ultimately show ?thesis using that(2,4) unfolding uint_word_of_int by simp
  qed
  show "i < n \<Longrightarrow> log_blk st i \<noteq> log_hdr st"
    using inj [of "st + int i + 1" st] assms(1) by (auto simp: log_blk_def log_hdr_def)
  show "i < n \<Longrightarrow> j < n \<Longrightarrow> log_blk st i = log_blk st j \<longleftrightarrow> i = j"
    using inj [of "st + int i + 1" "st + int j + 1"] assms(1) by (auto simp: log_blk_def)
qed

text \<open>
  A transaction of \<open>n\<close> blocks that is ready to commit: the header in memory names \<open>n\<close> different
  blocks outside the log, their new contents are in dirty buffers and \<open>v\<close> shows them, and one
  buffer is left to read the log with.
\<close>

definition log_ready :: "kernel \<Rightarrow> log \<Rightarrow> nat \<Rightarrow> (uint \<Rightarrow> byte list) \<Rightarrow> bool" where
  "log_ready s l n v \<longleftrightarrow> klog s = l \<and> lg_dev l = 1 \<and> lh_n l = int n \<and> 0 < n \<and> n < NBUF \<and> n \<le> length (lh_block l) \<and>
     0 \<le> lg_start l \<and> lg_start l + int n < int (unat (disksize s)) \<and> distinct (take n (lh_block l)) \<and>
     cache_inv s {} (set (take n (lh_block l))) v \<and> (\<forall>b \<in> set (take n (lh_block l)). b < disksize s) \<and>
     set (take n (lh_block l)) \<inter> log_area (lg_start l) n = {} \<and> length (disk s (log_hdr (lg_start l))) = BSIZE"

definition home_write :: "log \<Rightarrow> (uint \<Rightarrow> byte list) \<Rightarrow> nat \<Rightarrow> uint \<times> byte list" where
  "home_write l v i = (lh_block l ! i, v (lh_block l ! i))"

text \<open>The writes of a commit, from the old header block \<open>h\<close>.\<close>

definition commit_writes :: "log \<Rightarrow> nat \<Rightarrow> (uint \<Rightarrow> byte list) \<Rightarrow> byte list \<Rightarrow> (uint \<times> byte list) list" where
  "commit_writes l n v h = map (wl_write l v) [0..<n] @ [(log_hdr (lg_start l), mkhdr h n (lh_block l))] @
     map (home_write l v) [0..<n] @ [(log_hdr (lg_start l), mkhdr (mkhdr h n (lh_block l)) 0 (lh_block l))]"

lemma log_ready_home:
  assumes "log_ready s l n v" "i < n"
  shows "lh_block l ! i \<in> set (take n (lh_block l))" "lh_block l ! i < disksize s" "lh_block l ! i \<noteq> log_hdr (lg_start l)"
    "j < n \<Longrightarrow> lh_block l ! i \<noteq> log_blk (lg_start l) j" "i < length (lh_block l)"
    "j < n \<Longrightarrow> lh_block l ! i = lh_block l ! j \<longleftrightarrow> i = j"
proof -
  have n: "n \<le> length (lh_block l)" "distinct (take n (lh_block l))" using assms(1) unfolding log_ready_def by blast+
  have t: "take n (lh_block l) ! j = lh_block l ! j" if "j < n" for j using that by simp
  show m: "lh_block l ! i \<in> set (take n (lh_block l))"
    using assms(2) n(1) nth_mem [of i "take n (lh_block l)"] by simp
  then show "lh_block l ! i < disksize s" "lh_block l ! i \<noteq> log_hdr (lg_start l)"
    "j < n \<Longrightarrow> lh_block l ! i \<noteq> log_blk (lg_start l) j"
    using assms(1) unfolding log_ready_def log_area_def by blast+
  show "i < length (lh_block l)" using assms(2) n(1) by simp
  show "j < n \<Longrightarrow> lh_block l ! i = lh_block l ! j \<longleftrightarrow> i = j"
    using nth_eq_iff_index_eq [OF n(2), of i j] assms(2) n(1) by simp
qed

lemma wl_writes_read:
  assumes "0 \<le> lg_start l" "lg_start l + int n < int (unat (sz :: uint))" "i < n"
  shows "apply_writes (map (wl_write l v) [0..<n]) d (log_blk (lg_start l) i) = v (lh_block l ! i)"
proof (rule apply_writes_in)
  show "distinct (map fst (map (wl_write l v) [0..<n]))"
    using log_blocks_distinct(4) [OF assms(1,2)] by (auto simp: distinct_map inj_on_def wl_write_def)
  show "(log_blk (lg_start l) i, v (lh_block l ! i)) \<in> set (map (wl_write l v) [0..<n])"
    using assms(3) by (auto simp: wl_write_def)
qed

lemma commit_ok:
  assumes ready: "log_ready s l n v"
  shows "\<exists>t. commit s = Ok () t \<and> disk t = apply_writes (commit_writes l n v (disk s (log_hdr (lg_start l)))) (disk s) \<and>
    dwrites t = dwrites s @ commit_writes l n v (disk s (log_hdr (lg_start l))) \<and> klog t = l\<lparr>lh_n := 0\<rparr>"
proof -
  let ?U = "set (take n (lh_block l))" and ?hb = "log_hdr (lg_start l)" and ?bs = "lh_block l"
  have r: "klog s = l" "lg_dev l = 1" "lh_n l = int n" "0 < n" "n < NBUF" "n \<le> length ?bs" "cache_inv s {} ?U v"
    "0 \<le> lg_start l" "lg_start l + int n < int (unat (disksize s))" "distinct (take n ?bs)" "?U \<inter> log_area (lg_start l) n = {}"
    using ready unfolding log_ready_def by blast+
  note home = log_ready_home [OF ready] and lb = log_blocks_distinct [OF r(8,9)]
  have cU: "card ?U < NBUF" using distinct_card [OF r(10)] r(5,6) by simp
  have blkU: "log_blk (lg_start l) i \<notin> ?U" if "i < n" for i using r(11) that by (auto simp: log_area_def)
  have hbU: "?hb \<notin> ?U" using r(11) by (auto simp: log_area_def)
  have pre1: "\<And>i. i \<in> set [0..<n] \<Longrightarrow> i < length ?bs \<and> ?bs ! i \<in> ?U \<and> ?bs ! i < disksize s \<and>
      log_blk (lg_start l) i < disksize s \<and> log_blk (lg_start l) i \<notin> ?U"
    using home(1,2,5) lb(2) blkU by simp
  let ?w1 = "map (wl_write l v) [0..<n]"
  obtain s1 where 1: "foreach [0..<n] (wl_body l) s = Ok () s1" "cache_inv s1 {} ?U (apply_writes ?w1 v)" "kframe s s1"
    "disk s1 = apply_writes ?w1 (disk s)" "dwrites s1 = dwrites s @ ?w1"
    using write_log_loop [OF r(7,1,2) pre1 cU] by blast
  let ?v1 = "apply_writes ?w1 v"
  have v1hb: "?v1 ?hb = disk s ?hb"
    using apply_writes_other [of ?hb ?w1 v] lb(3) cache_invD(11) [OF r(7) hbU] by (force simp: wl_write_def)
  have k1: "klog s1 = l" "disksize s1 = disksize s" using kframeD(3,4) [OF 1(3)] r(1) by simp_all
  let ?h1 = "mkhdr (disk s ?hb) n ?bs"
  obtain s2 where 2: "write_head s1 = Ok () s2" "cache_inv s2 {} ?U (?v1(?hb := ?h1))" "kframe s1 s2"
    "disk s2 = (disk s1)(?hb := ?h1)" "dwrites s2 = dwrites s1 @ [(?hb, ?h1)]"
    using write_head_ok [OF 1(2) k1(1) r(2,3,6) refl _ hbU cU] lb(1) unfolding k1(2) v1hb by blast
  let ?v2 = "?v1(?hb := ?h1)"
  have v2: "?v2 (log_blk (lg_start l) i) = v (?bs ! i)" if "i < n" for i
    using wl_writes_read [OF r(8,9) that] lb(3) [OF that] by simp
  have k2: "klog s2 = l" "disksize s2 = disksize s" using kframeD(3,4) [OF 2(3)] k1 by simp_all
  have it: "map (it_write l ?v2) [0..<n] = map (home_write l v) [0..<n]"
    using v2 by (intro map_cong refl) (simp add: it_write_def home_write_def)
  let ?w3 = "map (home_write l v) [0..<n]"
  have dis: "distinct (map (\<lambda>i. ?bs ! i) [0..<n])" using home(6) by (auto simp: distinct_map inj_on_def)
  have U0: "?U - (\<lambda>i. ?bs ! i) ` set [0..<n] = {}" using nth_image [OF r(6)] by simp
  have pre: "\<And>i. i \<in> set [0..<n] \<Longrightarrow> i < length ?bs \<and> ?bs ! i < disksize s2 \<and> log_blk (lg_start l) i < disksize s2 \<and>
      log_blk (lg_start l) i \<notin> ?U \<and> (?bs ! i \<in> ?U \<or> card ?U + 1 < NBUF)"
    "\<And>i j. i \<in> set [0..<n] \<Longrightarrow> j \<in> set [0..<n] \<Longrightarrow> log_blk (lg_start l) i \<noteq> ?bs ! j"
    using pre1 home(4) k2(2) by simp_all metis
  obtain s3 where 3: "foreach [0..<n] (it_body l) s2 = Ok () s3" "cache_inv s3 {} {} (apply_writes ?w3 ?v2)" "kframe s2 s3"
    "disk s3 = apply_writes ?w3 (disk s2)" "dwrites s3 = dwrites s2 @ ?w3"
    using install_loop [OF 2(2) k2(1) r(2) pre dis cU] unfolding it U0 by blast
  let ?s = "upd_log (\<lambda>l. l\<lparr>lh_n := 0\<rparr>) s3"
  have k3: "klog ?s = l\<lparr>lh_n := 0\<rparr>" "disksize ?s = disksize s" "disk ?s = disk s3" "dwrites ?s = dwrites s3"
    using kframeD(3,4) [OF 3(3)] k2 by (simp_all add: upd_log_def)
  have v3hb: "apply_writes ?w3 ?v2 ?hb = ?h1"
    using apply_writes_other [of ?hb ?w3 ?v2] home(3) by (force simp: home_write_def)
  obtain t where t: "write_head ?s = Ok () t" "kframe ?s t" "disk t = (disk s3)(?hb := mkhdr ?h1 0 ?bs)"
    "dwrites t = dwrites s3 @ [(?hb, mkhdr ?h1 0 ?bs)]"
  proof -
    have i: "cache_inv ?s {} {} (apply_writes ?w3 ?v2)" using 3(2) by simp
    show thesis
      using write_head_ok [OF i k3(1), of 0 ?hb] r(2) lb(1) unfolding k3(2-4) v3hb by simp (blast intro: that)
  qed
  have "commit s = Ok () t"
    using r(1,3,4) 1(1) 2(1) 3(1) t(1) k1 k2
    by (simp add: commit_def loop_bodies gets_def whenM_def seqM_def modify_def)
  then show ?thesis using t 3(4,5) 2(4,5) 1(4,5) kframeD(3) [OF t(2)] k3(1)
    by (intro exI [of _ t]) (simp add: commit_writes_def)
qed
section \<open>Recovery\<close>

lemma set_log_block_eq:
  "i < length (lh_block (klog s)) \<Longrightarrow> set_log_block (int i) v s = Ok () (upd_log (\<lambda>l. l\<lparr>lh_block := (lh_block l)[i := v]\<rparr>) s)"
  by (simp add: set_log_block_def gets_def modify_def)

fun set_blocks :: "uint list \<Rightarrow> (nat \<Rightarrow> uint) \<Rightarrow> nat list \<Rightarrow> uint list" where
  "set_blocks bs f [] = bs"
| "set_blocks bs f (i # is) = set_blocks (bs[i := f i]) f is"

lemma set_blocks_props:
  "length (set_blocks bs f is) = length bs"
  "i < length bs \<Longrightarrow> set_blocks bs f is ! i = (if i \<in> set is then f i else bs ! i)"
  by (induction "is" arbitrary: bs) (auto simp: nth_list_update)

lemma set_log_blocks_loop:
  "(\<And>i. i \<in> set is \<Longrightarrow> i < length (lh_block (klog s))) \<Longrightarrow>
   foreach is (\<lambda>i. set_log_block (int i) (f i)) s = Ok () (upd_log (\<lambda>l. l\<lparr>lh_block := set_blocks (lh_block l) f is\<rparr>) s)"
proof (induction "is" arbitrary: s)
  case Nil
  then show ?case by (simp add: ret_def upd_log_def)
next
  case (Cons i js)
  then show ?case using set_log_block_eq [of i s "f i"] by (simp add: seqM_def) (simp add: upd_log_def)
qed

text \<open>read_head copies the header of the disk into the header in memory.\<close>

definition hdr_blocks :: "byte list \<Rightarrow> nat \<Rightarrow> uint" where
  "hdr_blocks h i = get32 h (4 + 4 * i)"

lemma read_head_ok:
  assumes inv: "cache_inv s {} {} d" and l: "klog s = l" "lg_dev l = 1" "hb = log_hdr (lg_start l)" "hb < disksize s"
    and m: "sint (get32 (d hb) 0) = int m" "m \<le> length (lh_block l)"
  shows "\<exists>t. read_head s = Ok () t \<and> cache_inv t {} {} d \<and> disk t = disk s \<and> dwrites t = dwrites s \<and> disksize t = disksize s \<and>
    klog t = l\<lparr>lh_n := int m, lh_block := set_blocks (lh_block l) (hdr_blocks (d hb)) [0..<m]\<rparr>"
proof -
  obtain b s1 x where 1: "bread 1 hb s = Ok b s1" "cache_inv s1 {b} {} d" "kframe s s1" "disk s1 = disk s" "dwrites s1 = dwrites s"
    "bufs s1 = (bufs s)[b := x]" "b < length (bufs s)" "b_data x = d hb"
    using bc.rd_law [OF inv l(4)] by force
  have k1: "klog s1 = l" "disksize s1 = disksize s" using kframeD(3,4) [OF 1(3)] l(1) by simp_all
  have bd: "buf_data b s1 = Ok (d hb) s1" using 1(6-8) by (simp add: buf_data_def gets_def)
  define g :: "log \<Rightarrow> log" where "g = (\<lambda>l. l\<lparr>lh_n := int m, lh_block := set_blocks (lh_block l) (hdr_blocks (d hb)) [0..<m]\<rparr>)"
  let ?s1 = "upd_log (\<lambda>l. l\<lparr>lh_n := int m\<rparr>) s1"
  have "foreach [0..<m] (\<lambda>i. set_log_block (int i) (hdr_blocks (d hb) i)) ?s1
      = Ok () (upd_log (\<lambda>l. l\<lparr>lh_block := set_blocks (lh_block l) (hdr_blocks (d hb)) [0..<m]\<rparr>) ?s1)"
    by (rule set_log_blocks_loop) (use k1 m(2) in \<open>simp add: upd_log_def\<close>)
  also have "\<dots> = Ok () (upd_log g s1)" by (simp add: upd_log_def g_def)
  finally have fe: "foreach [0..<m] (\<lambda>i. set_log_block (int i) (hdr_blocks (d hb) i)) ?s1 = Ok () (upd_log g s1)" .
  have i2: "cache_inv (upd_log g s1) {b} {} d" using 1(2) by simp
  obtain t where t: "brelse b (upd_log g s1) = Ok () t" "cache_inv t ({b} - {b}) {} d" "kframe (upd_log g s1) t"
    "disk t = disk (upd_log g s1)" "dwrites t = dwrites (upd_log g s1)"
    using bc.rel_law [OF i2, of b] by blast
  have "read_head s = Ok () t"
    using l(1-3) 1(1) bd fe t(1) m(1)
    by (simp add: read_head_def gets_def log_hdr_def seqM_def modify_def hdr_blocks_def)
  moreover have "klog t = g l" "disksize t = disksize s" "disk t = disk s" "dwrites t = dwrites s"
    using kframeD(3,4) [OF t(3)] t(4,5) k1 1(4,5) by (simp_all add: upd_log_def)
  moreover have "cache_inv t {} {} d" using t(2) by simp
  ultimately show ?thesis by (intro exI [of _ t]) (simp add: g_def)
qed

lemma recover_ok:
  assumes inv: "cache_inv s {} {} d" and l: "klog s = l" "lg_dev l = 1" "hb = log_hdr (lg_start l)" "0 \<le> lg_start l"
    and m: "sint (get32 (d hb) 0) = int m" "m \<le> length (lh_block l)" "lg_start l + int m < int (unat (disksize s))"
    and h: "\<And>i. i < m \<Longrightarrow> h i = hdr_blocks (d hb) i" "inj_on h {..<m}" "\<And>i. i < m \<Longrightarrow> h i < disksize s \<and> h i \<notin> log_area (lg_start l) m"
  shows "\<exists>t x. recover_from_log s = Ok () t \<and>
    disk t = apply_writes (map (\<lambda>i. (h i, d (log_blk (lg_start l) i))) [0..<m] @ [(hb, x)]) d"
proof -
  note lb = log_blocks_distinct [OF l(4) m(3)]
  have dd: "disk s = d" using cache_invD(11) [OF inv] by auto
  define l1 :: log where "l1 = l\<lparr>lh_n := int m, lh_block := set_blocks (lh_block l) (hdr_blocks (d hb)) [0..<m]\<rparr>"
  obtain s1 where 1: "read_head s = Ok () s1" "cache_inv s1 {} {} d" "disk s1 = d" "disksize s1 = disksize s" "klog s1 = l1"
    using read_head_ok [OF inv l(1-3) _ m(1,2)] lb(1) l(3) dd unfolding l1_def by auto
  have f1: "lg_dev l1 = 1" "lg_start l1 = lg_start l" "lh_n l1 = int m" "length (lh_block l1) = length (lh_block l)"
    using l(2) by (simp_all add: l1_def set_blocks_props)
  have b1: "lh_block l1 ! i = h i" if "i < m" for i using that m(2) h(1) by (simp add: l1_def set_blocks_props)
  have nb: "log_blk (lg_start l) i \<noteq> h j" if "i < m" "j < m" for i j
    using h(3) [OF that(2)] that(1) unfolding log_area_def by (metis imageI insertI2 lessThan_iff)
  have pre: "\<And>i. i \<in> set [0..<m] \<Longrightarrow> i < length (lh_block l1) \<and> lh_block l1 ! i < disksize s1 \<and> log_blk (lg_start l1) i < disksize s1 \<and>
      log_blk (lg_start l1) i \<notin> {} \<and> (lh_block l1 ! i \<in> {} \<or> card ({} :: uint set) + 1 < NBUF)"
    "\<And>i j. i \<in> set [0..<m] \<Longrightarrow> j \<in> set [0..<m] \<Longrightarrow> log_blk (lg_start l1) i \<noteq> lh_block l1 ! j"
    using b1 h(3) lb(2) m(2) nb by (auto simp: f1 1(4))
  have dis: "distinct (map (\<lambda>i. lh_block l1 ! i) [0..<m])" using b1 h(2) by (auto simp: distinct_map inj_on_def)
  have it: "map (it_write l1 d) [0..<m] = map (\<lambda>i. (h i, d (log_blk (lg_start l) i))) [0..<m]"
    using b1 by (intro map_cong refl) (simp add: it_write_def f1)
  obtain s2 where 2: "foreach [0..<m] (it_body l1) s1 = Ok () s2" "kframe s1 s2"
    "cache_inv s2 {} {} (apply_writes (map (it_write l1 d) [0..<m]) d)" "disk s2 = apply_writes (map (it_write l1 d) [0..<m]) (disk s1)"
    using install_loop [OF 1(2,5) f1(1) pre dis] by auto
  let ?s = "upd_log (\<lambda>l. l\<lparr>lh_n := 0\<rparr>) s2"
  have k: "klog ?s = l1\<lparr>lh_n := 0\<rparr>" "disksize ?s = disksize s" "disk ?s = disk s2"
    using kframeD(3,4) [OF 2(2)] 1(4,5) by (simp_all add: upd_log_def)
  have i3: "cache_inv ?s {} {} (apply_writes (map (it_write l1 d) [0..<m]) d)" using 2(3) by simp
  have "\<exists>t x. write_head ?s = Ok () t \<and> disk t = (disk s2)(hb := x)"
    using write_head_ok [OF i3 k(1), of 0 hb] f1 l(3) lb(1) unfolding k(2,3) by auto
  then obtain t x where t: "write_head ?s = Ok () t" "disk t = (disk s2)(hb := x)" by blast
  have "recover_from_log s = Ok () t"
    using 1(1,5) 2(1) t(1) f1(3) by (simp add: recover_from_log_def seqM_def loop_bodies gets_def modify_def)
  then show ?thesis using t(2) 2(4) 1(3) unfolding it by auto
qed

lemma initlog_eq:
  assumes inv: "cache_inv s {} {} d" and sz: "1 < disksize s"
  shows "\<exists>t. initlog 1 s = recover_from_log t \<and> cache_inv t {} {} d \<and> disksize t = disksize s \<and> klog t =
    (klog s)\<lparr>lg_start := sint (sb_logstart (get_superblock (d 1))), lg_size := sint (sb_nlog (get_superblock (d 1))), lg_dev := 1\<rparr>"
proof -
  obtain b s1 x where 1: "bread 1 1 s = Ok b s1" "cache_inv s1 {b} {} d" "kframe s s1" "bufs s1 = (bufs s)[b := x]"
    "b < length (bufs s)" "b_data x = d 1" using bc.rd_law [OF inv sz] by force
  have bd: "buf_data b s1 = Ok (d 1) s1" using 1(4-6) by (simp add: buf_data_def gets_def)
  obtain s2 where 2: "brelse b s1 = Ok () s2" "cache_inv s2 ({b} - {b}) {} d" "kframe s1 s2"
    using bc.rel_law [OF 1(2), of b] by blast
  have rs: "readsb 1 s = Ok (get_superblock (d 1)) s2" using 1(1) bd 2(1) by (simp add: readsb_def seqM_def ret_def)
  let ?sb = "get_superblock (d 1)"
  let ?t = "upd_log (\<lambda>l. l\<lparr>lg_start := sint (sb_logstart ?sb), lg_size := sint (sb_nlog ?sb), lg_dev := 1\<rparr>) s2"
  have "initlog 1 s = recover_from_log ?t" using rs by (simp add: initlog_def seqM_def modify_def)
  moreover have "cache_inv ?t {} {} d" using 2(2) by simp
  moreover have "klog s2 = klog s" "disksize s2 = disksize s" using kframeD(3,4) [OF 1(3)] kframeD(3,4) [OF 2(3)] by simp_all
  then have "klog ?t = (klog s)\<lparr>lg_start := sint (sb_logstart ?sb), lg_size := sint (sb_nlog ?sb), lg_dev := 1\<rparr>"
    "disksize ?t = disksize s" by (simp_all add: upd_log_def)
  ultimately show ?thesis by blast
qed

section \<open>Every crash point\<close>

text \<open>What the disk holds after a prefix of the writes of a commit.\<close>

lemma writes_outside:
  assumes "b \<notin> log_area (lg_start l) n"
  shows "apply_writes (take k (map (wl_write l v) [0..<n])) d b = d b"
proof (rule apply_writes_other)
  show "b \<notin> fst ` set (take k (map (wl_write l v) [0..<n]))"
    using assms set_take_subset [of k "map (wl_write l v) [0..<n]"] by (force simp: log_area_def wl_write_def)
qed

lemma home_writes_read:
  assumes ready: "log_ready s l n v" and d: "\<And>b. b \<notin> set (take n (lh_block l)) \<Longrightarrow> b \<notin> log_area (lg_start l) n \<Longrightarrow> d b = v b"
    and b: "b \<notin> log_area (lg_start l) n" and ws: "fst ` set ws = set (take n (lh_block l))" "\<And>c x. (c, x) \<in> set ws \<Longrightarrow> x = v c"
    "distinct (map fst ws)"
  shows "apply_writes ws d b = v b"
proof (cases "b \<in> set (take n (lh_block l))")
  case True
  then obtain x where "(b, x) \<in> set ws" using ws(1) by force
  then show ?thesis using apply_writes_in [OF ws(3)] ws(2) by metis
next
  case False
  then show ?thesis using apply_writes_other [of b ws d] ws(1) d b by simp
qed

lemma crash_disk:
  assumes ready: "log_ready s l n v" and hb: "hb = log_hdr (lg_start l)" and h: "h = disk s hb"
    and k: "k \<le> 2 * n + 2" and d: "d = apply_writes (take k (commit_writes l n v h)) (disk s)"
  obtains (old) "k \<le> n" "d hb = h" "\<And>b. b \<notin> log_area (lg_start l) n \<Longrightarrow> d b = disk s b"
  | (redo) "n < k" "d hb = mkhdr h n (lh_block l)" "\<And>i. i < n \<Longrightarrow> d (log_blk (lg_start l) i) = v (lh_block l ! i)"
      "\<And>b. b \<notin> log_area (lg_start l) n \<Longrightarrow> b \<notin> set (take n (lh_block l)) \<Longrightarrow> d b = v b"
  | (complete) "n < k" "d hb = mkhdr (mkhdr h n (lh_block l)) 0 (lh_block l)" "\<And>b. b \<notin> log_area (lg_start l) n \<Longrightarrow> d b = v b"
proof -
  let ?w1 = "map (wl_write l v) [0..<n]" and ?w3 = "map (home_write l v) [0..<n]" and ?U = "set (take n (lh_block l))"
  let ?H = "mkhdr h n (lh_block l)"
  have r: "0 \<le> lg_start l" "lg_start l + int n < int (unat (disksize s))" "cache_inv s {} ?U v" "n \<le> length (lh_block l)"
    using ready unfolding log_ready_def by blast+
  note lb = log_blocks_distinct [OF r(1,2)] and home = log_ready_home [OF ready]
  have hbA: "hb \<in> log_area (lg_start l) n" by (simp add: hb log_area_def)
  have vd: "disk s b = v b" if "b \<notin> ?U" for b using cache_invD(11) [OF r(3) that] by simp
  have w1hb: "apply_writes (take j ?w1) e hb = e hb" for j e
  proof (rule apply_writes_other)
    show "hb \<notin> fst ` set (take j ?w1)"
      using lb(3) set_take_subset [of j ?w1] by (force simp: hb wl_write_def)
  qed
  have w3: "fst ` set ?w3 = ?U" using nth_image [OF r(4)] by (simp add: home_write_def image_image)
  have w3l: "apply_writes (take j ?w3) e b = e b" if "b \<in> log_area (lg_start l) n" for j e b
  proof (rule apply_writes_other)
    have "b \<notin> ?U" using ready that unfolding log_ready_def by blast
    then show "b \<notin> fst ` set (take j ?w3)" using w3 set_take_subset [of j ?w3] by blast
  qed
  consider "k \<le> n" | "n < k" "k \<le> 2 * n + 1" | "k = 2 * n + 2" using k by linarith
  then show thesis
  proof cases
    case 1
    then have e: "d = apply_writes (take k ?w1) (disk s)" by (simp add: d commit_writes_def)
    show thesis by (rule old [OF 1]) (use e w1hb writes_outside h in auto)
  next
    case 2
    define j where "j = k - n - 1"
    have j: "k = n + Suc j" "j \<le> n" using 2 by (simp_all add: j_def)
    let ?d1 = "(apply_writes ?w1 (disk s))(hb := ?H)"
    have e: "d = apply_writes (take j ?w3) ?d1" using j by (simp add: d commit_writes_def hb)
    show thesis
    proof (rule redo [OF 2(1)])
      show "d hb = ?H" unfolding e w3l [OF hbA] by simp
      show "d (log_blk (lg_start l) i) = v (lh_block l ! i)" if "i < n" for i
      proof -
        have "log_blk (lg_start l) i \<in> log_area (lg_start l) n" using that by (simp add: log_area_def)
        then show ?thesis unfolding e using w3l wl_writes_read [OF r(1,2) that] lb(3) [OF that] by (simp add: hb)
      qed
      show "d b = v b" if "b \<notin> log_area (lg_start l) n" "b \<notin> ?U" for b
      proof -
        have "b \<notin> fst ` set (take j ?w3)" using w3 that(2) set_take_subset [of j ?w3] by blast
        then have "d b = ?d1 b" unfolding e by (rule apply_writes_other)
        moreover have "b \<noteq> hb" using that(1) hbA by blast
        ultimately show ?thesis using writes_outside [OF that(1), of n v "disk s"] vd [OF that(2)] by simp
      qed
    qed
  next
    case 3
    let ?d1 = "(apply_writes ?w1 (disk s))(hb := ?H)"
    have e: "d = (apply_writes ?w3 ?d1)(hb := mkhdr ?H 0 (lh_block l))" by (simp add: d 3 commit_writes_def hb)
    show thesis
    proof (rule complete)
      show "n < k" "d hb = mkhdr ?H 0 (lh_block l)" by (simp_all add: 3 e)
      show "d b = v b" if "b \<notin> log_area (lg_start l) n" for b
      proof -
        have ne: "b \<noteq> hb" using that hbA by blast
        have "apply_writes ?w3 ?d1 b = v b"
        proof (rule home_writes_read [OF ready _ that w3])
          show "?d1 c = v c" if "c \<notin> ?U" "c \<notin> log_area (lg_start l) n" for c
            using that hbA writes_outside [OF that(2), of n v "disk s"] vd [OF that(1)] by auto
          show "distinct (map fst ?w3)" using home(6) by (auto simp: distinct_map inj_on_def home_write_def)
        qed (auto simp: home_write_def)
        then show ?thesis using ne by (simp add: e)
      qed
    qed
  qed
qed

lemma recovered:
  assumes ready: "log_ready s l n v" and hdr: "get32 (disk s (log_hdr (lg_start l))) 0 = 0"
    and sb: "sint (sb_logstart (get_superblock (disk s 1))) = lg_start l" "1 \<notin> log_area (lg_start l) n \<union> set (take n (lh_block l))"
      "1 < disksize s"
    and k: "k \<le> 2 * n + 2" and boot: "cache_inv s' {} {} (apply_writes (take k (commit_writes l n v (disk s (log_hdr (lg_start l))))) (disk s))"
      "disksize s' = disksize s" "length (lh_block (klog s')) = 30"
  shows "\<exists>t. initlog 1 s' = Ok () t \<and> (\<forall>b. b \<notin> log_area (lg_start l) n \<longrightarrow> disk t b = (if k \<le> n then disk s b else v b))"
proof -
  let ?hb = "log_hdr (lg_start l)" and ?U = "set (take n (lh_block l))" and ?A = "log_area (lg_start l) n"
  let ?d = "apply_writes (take k (commit_writes l n v (disk s ?hb))) (disk s)"
  have r: "0 \<le> lg_start l" "lg_start l + int n < int (unat (disksize s))" "cache_inv s {} ?U v" "n < NBUF" "length (disk s ?hb) = BSIZE"
    using ready unfolding log_ready_def by blast+
  note home = log_ready_home [OF ready]
  have v1: "disk s 1 = v 1" using cache_invD(11) [OF r(3)] sb(2) by simp
  have hbA: "?hb \<in> ?A" by (simp add: log_area_def)
  obtain s0 where s0: "initlog 1 s' = recover_from_log s0" "cache_inv s0 {} {} ?d" "disksize s0 = disksize s"
    "klog s0 = (klog s')\<lparr>lg_start := sint (sb_logstart (get_superblock (?d 1))), lg_size := sint (sb_nlog (get_superblock (?d 1))), lg_dev := 1\<rparr>"
    using initlog_eq [OF boot(1)] sb(3) boot(2) by metis
  have fin: ?thesis if m: "sint (get32 (?d ?hb) 0) = int m" "m \<le> n" and d1: "?d 1 = disk s 1"
    and h: "\<And>i. i < m \<Longrightarrow> lh_block l ! i = hdr_blocks (?d ?hb) i"
    and res: "\<And>b. b \<notin> ?A \<Longrightarrow> apply_writes (map (\<lambda>i. (lh_block l ! i, ?d (log_blk (lg_start l) i))) [0..<m]) ?d b = (if k \<le> n then disk s b else v b)" for m
  proof -
    have l0: "lg_dev (klog s0) = 1" "lg_start (klog s0) = lg_start l" "length (lh_block (klog s0)) = 30"
      using s0(4) d1 sb(1) boot(3) by simp_all
    have mA: "log_area (lg_start l) m \<subseteq> ?A" using m(2) by (auto simp: log_area_def)
    have hA: "lh_block l ! i < disksize s0 \<and> lh_block l ! i \<notin> log_area (lg_start (klog s0)) m" if "i < m" for i
    proof -
      have "lh_block l ! i \<notin> ?A" using home(1) [of i] that m(2) ready unfolding log_ready_def by fastforce
      then show ?thesis using home(2) [of i] that m(2) mA s0(3) l0(2) by auto
    qed
    have inj: "inj_on (\<lambda>i. lh_block l ! i) {..<m}" using home(6) m(2) by (auto simp: inj_on_def)
    obtain t x where t: "recover_from_log s0 = Ok () t"
      "disk t = apply_writes (map (\<lambda>i. (lh_block l ! i, ?d (log_blk (lg_start (klog s0)) i))) [0..<m] @ [(?hb, x)]) ?d"
      using recover_ok [OF s0(2) refl l0(1) _ _ m(1), of "\<lambda>i. lh_block l ! i", OF _ _ _ _ h inj hA]
        l0(2,3) r(1,2,4) m(2) s0(3) by auto
    have "disk t b = (if k \<le> n then disk s b else v b)" if "b \<notin> ?A" for b
    proof -
      have "b \<noteq> ?hb" using that hbA by blast
      then show ?thesis using res [OF that] by (simp add: t(2) l0(2))
    qed
    then show ?thesis using s0(1) t(1) by auto
  qed
  show ?thesis
    using ready refl refl k refl
  proof (cases rule: crash_disk)
    case old
    show ?thesis by (rule fin [of 0]) (use old hdr sb(2) in auto)
  next
    case redo
    have "?d 1 = disk s 1" using redo(4) sb(2) v1 by simp
    moreover have "sint (get32 (?d ?hb) 0) = int n" using mkhdr_count [of n] r(4,5) unfolding redo(2) by simp
    moreover have "lh_block l ! i = hdr_blocks (?d ?hb) i" if "i < n" for i
      using mkhdr_block [of n _ i] that r(4,5) unfolding redo(2) hdr_blocks_def by simp
    moreover have "apply_writes (map (\<lambda>i. (lh_block l ! i, ?d (log_blk (lg_start l) i))) [0..<n]) ?d b = v b" if "b \<notin> ?A" for b
    proof (rule home_writes_read [OF ready redo(4) that])
      show "fst ` set (map (\<lambda>i. (lh_block l ! i, ?d (log_blk (lg_start l) i))) [0..<n]) = ?U"
        using ready nth_image [of n "lh_block l"] unfolding log_ready_def by (simp add: image_image)
      show "x = v c" if "(c, x) \<in> set (map (\<lambda>i. (lh_block l ! i, ?d (log_blk (lg_start l) i))) [0..<n])" for c x
        using that redo(3) by auto
      show "distinct (map fst (map (\<lambda>i. (lh_block l ! i, ?d (log_blk (lg_start l) i))) [0..<n]))"
        using home(6) by (auto simp: distinct_map inj_on_def)
    qed auto
    ultimately show ?thesis using redo(1) by (intro fin [of n]) auto
  next
    case complete
    have "sint (get32 (?d ?hb) 0) = int 0"
      using mkhdr_count [of 0 "mkhdr (disk s ?hb) n (lh_block l)"] r(5) unfolding complete(2) by (simp add: mkhdr_def)
    then show ?thesis using complete(1,3) sb(2) v1 by (intro fin [of 0]) auto
  qed
qed

section \<open>Properties\<close>

text \<open>
  C1: Crash atomicity of the log.  A commit of \<open>n\<close> blocks does \<open>2 * n + 2\<close> block writes.  If the
  machine stops after any number of them, the recovery that initlog runs at the next boot
  succeeds, and outside the log area the disk holds exactly the old contents when at most the
  \<open>n\<close> log blocks had been written, and exactly the new contents of all blocks of the transaction
  from the write of the header on.
\<close>

theorem commit_crash_atomic:
  assumes "log_ready s l n v" "get32 (disk s (log_hdr (lg_start l))) 0 = 0"
    and "sint (sb_logstart (get_superblock (disk s 1))) = lg_start l" "1 \<notin> log_area (lg_start l) n \<union> set (take n (lh_block l))"
      "1 < disksize s"
  shows "\<exists>t ws. commit s = Ok () t \<and> dwrites t = dwrites s @ ws \<and> disk t = apply_writes ws (disk s) \<and> length ws = 2 * n + 2 \<and>
    (\<forall>k s'. k \<le> 2 * n + 2 \<longrightarrow> cache_inv s' {} {} (apply_writes (take k ws) (disk s)) \<longrightarrow> disksize s' = disksize s \<longrightarrow>
      length (lh_block (klog s')) = 30 \<longrightarrow>
      (\<exists>t'. initlog 1 s' = Ok () t' \<and>
        (\<forall>b. b \<notin> log_area (lg_start l) n \<longrightarrow> disk t' b = (if k \<le> n then disk s b else v b))))"
proof -
  let ?ws = "commit_writes l n v (disk s (log_hdr (lg_start l)))"
  obtain t where "commit s = Ok () t" "disk t = apply_writes ?ws (disk s)" "dwrites t = dwrites s @ ?ws"
    using commit_ok [OF assms(1)] by blast
  moreover have "length ?ws = 2 * n + 2" by (simp add: commit_writes_def)
  ultimately show ?thesis using recovered [OF assms] by blast
qed

section \<open>An example\<close>

text \<open>A freshly booted kernel, and a transaction that changes block 500.\<close>

definition ex_boot :: "(uint \<Rightarrow> byte list) \<Rightarrow> kernel" where
  "ex_boot d = (static_data 0 0 d 1000)\<lparr>cur := Some 0, lru := rev [0..<NBUF]\<rparr>"

definition ex_disk :: "uint \<Rightarrow> byte list" where
  "ex_disk b = (if b = 1 then put32 (replicate BSIZE 0) 16 2 else replicate BSIZE 0)"

definition ex_tlog :: log where
  "ex_tlog = \<lparr>lg_start = 2, lg_size = 30, lg_outstanding = 0, lg_committing = True, lg_dev = 1, lh_n = 1,
     lh_block = 500 # replicate 29 0\<rparr>"

definition ex_tbuf :: buf where
  "ex_tbuf = \<lparr>b_valid = True, b_dirty = True, b_dev = 1, b_blockno = 500, b_lock = zero_sleeplock, b_refcnt = 0,
     b_data = replicate BSIZE 7\<rparr>"

definition ex_trans :: kernel where
  "ex_trans = (ex_boot ex_disk)\<lparr>klog := ex_tlog, bufs := (replicate NBUF zero_buf)[0 := ex_tbuf]\<rparr>"

lemma ex_boot_fields [simp]:
  "held (ex_boot d) = []" "cur (ex_boot d) = Some 0" "length (ptable (ex_boot d)) = NPROC" "bufs (ex_boot d) = replicate NBUF zero_buf"
  "lru (ex_boot d) = rev [0..<NBUF]" "disk (ex_boot d) = d" "disksize (ex_boot d) = 1000" "length (lh_block (klog (ex_boot d))) = 30"
  by (simp_all add: ex_boot_def static_data_def del: upt_rec_numeral)

lemma ex_boot_cache: "cache_inv (ex_boot d) {} {} d"
  by (auto simp: cache_inv_def on_disk_def buf_ok_def zero_buf_def zero_sleeplock_def simp del: upt_rec_numeral)

lemma ex_trans_fields [simp]:
  "held ex_trans = []" "cur ex_trans = Some 0" "length (ptable ex_trans) = NPROC" "bufs ex_trans = (replicate NBUF zero_buf)[0 := ex_tbuf]"
  "lru ex_trans = rev [0..<NBUF]" "disk ex_trans = ex_disk" "disksize ex_trans = 1000" "klog ex_trans = ex_tlog" "dwrites ex_trans = []"
  by (simp_all add: ex_trans_def ex_boot_def static_data_def del: upt_rec_numeral)

lemma ex_tlog_fields [simp]: "lg_start ex_tlog = 2" "lg_dev ex_tlog = 1" "lh_n ex_tlog = 1" "lh_block ex_tlog = 500 # replicate 29 0"
  by (simp_all add: ex_tlog_def)

lemma ex_trans_cache: "cache_inv ex_trans {} {500} (ex_disk(500 := replicate BSIZE 7))"
proof -
  have b: "bufs ex_trans ! b = (if b = 0 then ex_tbuf else zero_buf)" if "b < NBUF" for b
    using that by (simp add: nth_list_update)
  have ok: "buf_ok (mypid ex_trans) (b \<in> {}) {500} (ex_disk(500 := replicate BSIZE 7)) (bufs ex_trans ! b)" if "b < NBUF" for b
    unfolding b [OF that] by (simp add: buf_ok_def ex_tbuf_def zero_buf_def zero_sleeplock_def)
  have on: "on_disk ex_trans b n \<longleftrightarrow> b = 0 \<and> n = 500" for b n
  proof (cases "b < NBUF")
    case True
    then show ?thesis unfolding on_disk_def b [OF True] by (auto simp: ex_tbuf_def zero_buf_def)
  qed (auto simp: on_disk_def)
  have "b_valid (bufs ex_trans ! 0) \<and> b_dirty (bufs ex_trans ! 0)" using b [of 0] by (simp add: ex_tbuf_def)
  moreover have "length (bufs ex_trans) = NBUF" by simp
  ultimately show ?thesis unfolding cache_inv_def using ok
    by (auto simp: on simp del: upt_rec_numeral ex_trans_fields(4))
qed

lemma ex_trans_ready: "log_ready ex_trans ex_tlog 1 (ex_disk(500 := replicate BSIZE 7))"
  using ex_trans_cache by (auto simp: log_ready_def log_area_def log_hdr_def log_blk_def ex_disk_def)

theorem commit_crash_atomic_witness:
  "\<exists>t ws t1 t2. commit ex_trans = Ok () t \<and> dwrites t = ws \<and> length ws = 4 \<and>
     initlog 1 (ex_boot (apply_writes (take 1 ws) ex_disk)) = Ok () t1 \<and> disk t1 500 = replicate BSIZE 0 \<and>
     initlog 1 (ex_boot (apply_writes (take 2 ws) ex_disk)) = Ok () t2 \<and> disk t2 500 = replicate BSIZE 7"
proof -
  have a: "log_area (lg_start ex_tlog) 1 = {2, 3}" by (auto simp: log_area_def log_hdr_def log_blk_def)
  have "get32 (disk ex_trans (log_hdr (lg_start ex_tlog))) 0 = 0" by (simp add: log_hdr_def ex_disk_def get32_def)
  moreover have "sint (sb_logstart (get_superblock (disk ex_trans 1))) = lg_start ex_tlog"
    by (simp add: ex_disk_def get_superblock_def)
  moreover have "1 \<notin> log_area (lg_start ex_tlog) 1 \<union> set (take 1 (lh_block ex_tlog))" "1 < disksize ex_trans" unfolding a by simp_all
  ultimately have c: "\<exists>t ws. commit ex_trans = Ok () t \<and> dwrites t = dwrites ex_trans @ ws \<and> disk t = apply_writes ws (disk ex_trans) \<and>
      length ws = 2 * 1 + 2 \<and> (\<forall>k s'. k \<le> 2 * 1 + 2 \<longrightarrow> cache_inv s' {} {} (apply_writes (take k ws) (disk ex_trans)) \<longrightarrow>
      disksize s' = disksize ex_trans \<longrightarrow> length (lh_block (klog s')) = 30 \<longrightarrow>
      (\<exists>t'. initlog 1 s' = Ok () t' \<and> (\<forall>b. b \<notin> log_area (lg_start ex_tlog) 1 \<longrightarrow>
        disk t' b = (if k \<le> 1 then disk ex_trans b else (ex_disk(500 := replicate BSIZE 7)) b))))"
    by (rule commit_crash_atomic [OF ex_trans_ready])
  then obtain t ws where w: "commit ex_trans = Ok () t" "dwrites t = ws" "length ws = 4"
    and r: "\<And>k s'. k \<le> 4 \<Longrightarrow> cache_inv s' {} {} (apply_writes (take k ws) ex_disk) \<Longrightarrow> disksize s' = 1000 \<Longrightarrow>
      length (lh_block (klog s')) = 30 \<Longrightarrow> \<exists>t'. initlog 1 s' = Ok () t' \<and>
        (\<forall>b. b \<notin> {2, 3} \<longrightarrow> disk t' b = (if k \<le> 1 then ex_disk b else (ex_disk(500 := replicate BSIZE 7)) b))"
    unfolding a by fastforce
  show ?thesis
    using w r [of 1 "ex_boot (apply_writes (take 1 ws) ex_disk)"] r [of 2 "ex_boot (apply_writes (take 2 ws) ex_disk)"] ex_boot_cache
    by (auto simp: ex_disk_def)
qed

section \<open>Writing inside a transaction\<close>

text \<open>A transaction in progress: as \<open>log_ready\<close>, but it may still be empty.\<close>

definition log_open :: "kernel \<Rightarrow> log \<Rightarrow> nat \<Rightarrow> (uint \<Rightarrow> byte list) \<Rightarrow> bool" where
  "log_open s l n v \<longleftrightarrow> klog s = l \<and> lg_dev l = 1 \<and> lh_n l = int n \<and> n < NBUF \<and> n \<le> length (lh_block l) \<and>
     0 \<le> lg_start l \<and> lg_start l + int n < int (unat (disksize s)) \<and> distinct (take n (lh_block l)) \<and>
     cache_inv s {} (set (take n (lh_block l))) v \<and> (\<forall>b \<in> set (take n (lh_block l)). b < disksize s) \<and>
     set (take n (lh_block l)) \<inter> log_area (lg_start l) n = {} \<and> length (disk s (log_hdr (lg_start l))) = BSIZE"

lemma log_ready_open: "log_ready s l n v \<longleftrightarrow> 0 < n \<and> log_open s l n v"
  unfolding log_ready_def log_open_def by blast

lemma log_slot_cases:
  assumes "lh_n l = int n" "n \<le> length (lh_block l)"
  obtains (known) j where "log_slot l b = j" "j < n" "lh_block l ! j = b" "b \<in> set (take n (lh_block l))"
  | (new) "log_slot l b = n" "b \<notin> set (take n (lh_block l))"
proof (cases "find (\<lambda>i. lh_block l ! i = b) [0..<n]")
  case None
  then have "b \<notin> set (take n (lh_block l))" using assms(2) by (auto simp: find_upt_None in_set_conv_nth)
  then show ?thesis using new None assms(1) by (simp add: log_slot_def)
next
  case (Some j)
  then have j: "j < n" "lh_block l ! j = b" by (simp_all add: find_upt_Some)
  then have "b \<in> set (take n (lh_block l))" using assms(2) by (auto simp: in_set_conv_nth intro!: exI [of _ j])
  then show ?thesis using known [of j] j Some assms(1) by (simp add: log_slot_def)
qed

text \<open>log_write on a locked buffer: the header in memory names the block and the buffer is pinned.\<close>

lemma log_write_eq:
  assumes "held s = []" "klog s = l" "lh_n l = int n" "int n < 30" "int n < lg_size l - 1" "1 \<le> lg_outstanding l" "n < length (lh_block l)"
    and i: "i = log_slot l (b_blockno (bufs s ! x))"
  shows "log_write x s = Ok () (upd_buf x (\<lambda>y. y\<lparr>b_dirty := True\<rparr>) (upd_log (\<lambda>l. l\<lparr>lh_block := (lh_block l)[i := b_blockno (bufs s ! x)],
    lh_n := (if i = n then lh_n l + 1 else lh_n l)\<rparr>) s))"
proof -
  have n7: "n \<le> length (lh_block l)" using assms(7) by simp
  have il: "i < length (lh_block l)" unfolding i
    by (rule log_slot_cases [OF assms(3) n7, of "b_blockno (bufs s ! x)"]) (use assms(7) in auto)
  have "set_log_block (int i) (b_blockno (bufs s ! x)) (s\<lparr>held := [LogLock]\<rparr>) =
      Ok () (upd_log (\<lambda>l. l\<lparr>lh_block := (lh_block l)[i := b_blockno (bufs s ! x)]\<rparr>) (s\<lparr>held := [LogLock]\<rparr>))"
    by (rule set_log_block_eq) (use il assms(2) in simp)
  then show ?thesis using assms(1-6) i
    by (simp add: log_write_def gets_def seqM_def Let_def whenM_def modify_def ret_def) (auto simp: upd_log_def upd_buf_def)
qed

lemma cache_pin:
  assumes inv: "cache_inv s L U v" and b: "b \<in> L" "b_blockno (bufs s ! b) \<in> U"
  shows "cache_inv (upd_buf b (\<lambda>y. y\<lparr>b_dirty := True\<rparr>) s) L U v" "kframe s (upd_buf b (\<lambda>y. y\<lparr>b_dirty := True\<rparr>) s)"
proof -
  note i = cache_invD [OF inv]
  have bn: "b < NBUF" using b(1) i(7) by auto
  have ok: "buf_ok (mypid s) True U v (bufs s ! b)" using i(9) [OF bn] b(1) by simp
  have on: "on_disk s b (b_blockno (bufs s ! b))" using ok bn by (simp add: buf_ok_def on_disk_def)
  let ?x = "(bufs s ! b)\<lparr>b_dirty := True\<rparr>"
  show "cache_inv (upd_buf b (\<lambda>y. y\<lparr>b_dirty := True\<rparr>) s) L U v"
    unfolding upd_buf_cache
  proof (rule cache_inv_upd [OF inv refl refl i(5,6,7,8) bn])
    show "buf_ok (mypid s) (b \<in> L) U v ?x" using ok b by (auto simp: buf_ok_def)
    show "(b_dev ?x = 1 \<and> b_blockno ?x = m \<and> b_valid ?x \<and> (b \<in> L \<or> b_dirty ?x)) \<or>
        (\<exists>c. c \<noteq> b \<and> on_disk s c m \<and> b_valid (bufs s ! c) \<and> (c \<in> L \<or> b_dirty (bufs s ! c)))" if "m \<in> U" for m
      using that i(12) [of m] ok b unfolding buf_ok_def on_disk_def by fastforce
  qed (use i(9,10,11) on in auto)
  show "kframe s (upd_buf b (\<lambda>y. y\<lparr>b_dirty := True\<rparr>) s)" by (rule kframe_upd_buf)
qed

text \<open>What a transaction leaves alone: everything outside the cache and the header of the log.\<close>

definition lframe :: "kernel \<Rightarrow> kernel \<Rightarrow> bool" where
  "lframe s t \<longleftrightarrow> kframe s (t\<lparr>klog := klog s\<rparr>) \<and> disk t = disk s \<and> dwrites t = dwrites s \<and>
     (\<exists>n bs. klog t = (klog s)\<lparr>lh_n := n, lh_block := bs\<rparr> \<and> length bs = length (lh_block (klog s)))"

lemma klog_same: "klog s = l \<Longrightarrow> s\<lparr>klog := l\<rparr> = s"
  by (cases s) simp

lemma kframe_klog: "kframe s t \<Longrightarrow> kframe (s\<lparr>klog := l\<rparr>) (t\<lparr>klog := l\<rparr>)"
proof -
  assume "kframe s t"
  then obtain B k d w pt where "t = set_cache B k d w pt s" "map p_pid pt = map p_pid (ptable s)" unfolding kframe_def by blast
  moreover have "(set_cache B k d w pt s)\<lparr>klog := l\<rparr> = set_cache B k d w pt (s\<lparr>klog := l\<rparr>)" by (cases s) (simp add: set_cache_def)
  ultimately show ?thesis using kframeI [of pt "s\<lparr>klog := l\<rparr>" B k d w] by simp
qed

lemma kframe_lframe: "kframe s t \<Longrightarrow> disk t = disk s \<Longrightarrow> dwrites t = dwrites s \<Longrightarrow> lframe s t"
proof -
  assume a: "kframe s t" "disk t = disk s" "dwrites t = dwrites s"
  then have k: "klog t = klog s" using kframeD(3) [of s t] by simp
  have "\<exists>n bs. klog s = (klog s)\<lparr>lh_n := n, lh_block := bs\<rparr> \<and> length bs = length (lh_block (klog s))"
    by (intro exI [of _ "lh_n (klog s)"] exI [of _ "lh_block (klog s)"]) simp
  then show ?thesis using a by (simp add: lframe_def k klog_same [OF k])
qed

lemma lframe_trans: "lframe s t \<Longrightarrow> lframe t u \<Longrightarrow> lframe s u"
proof -
  assume a: "lframe s t" "lframe t u"
  then have "kframe s (u\<lparr>klog := klog s\<rparr>)"
    using kframe_klog [of t "u\<lparr>klog := klog t\<rparr>" "klog s"] kframe_trans [of s "t\<lparr>klog := klog s\<rparr>" "u\<lparr>klog := klog s\<rparr>"]
    by (simp add: lframe_def)
  moreover have "\<exists>n bs. klog u = (klog s)\<lparr>lh_n := n, lh_block := bs\<rparr> \<and> length bs = length (lh_block (klog s))"
  proof -
    obtain n bs n' bs' where "klog t = (klog s)\<lparr>lh_n := n, lh_block := bs\<rparr>" "klog u = (klog t)\<lparr>lh_n := n', lh_block := bs'\<rparr>"
        "length bs = length (lh_block (klog s))" "length bs' = length (lh_block (klog t))"
      using a unfolding lframe_def by blast
    then show ?thesis by (intro exI [of _ n'] exI [of _ bs']) simp
  qed
  ultimately show ?thesis using a by (simp add: lframe_def)
qed

text \<open>Changing a buffer that bread returned, log_write and brelse.\<close>

lemma log_put_release:
  assumes op: "log_open s l n v" "1 \<le> lg_outstanding l" "int n < lg_size l - 1" "n + 1 < NBUF" "n < length (lh_block l)"
    and b: "b < disksize s" "insert b (set (take n (lh_block l))) \<inter> log_area (lg_start l) (n + 1) = {}"
      "lg_start l + int n + 1 < int (unat (disksize s))"
    and 1: "cache_inv s1 {x} (set (take n (lh_block l))) v" "kframe s s1" "disk s1 = disk s" "dwrites s1 = dwrites s"
      "x < length (bufs s1)" "b = b_blockno (bufs s1 ! x)"
  shows "\<exists>t l' n'. seqM (set_data x d) (seqM (log_write x) (brelse x)) s1 = Ok () t \<and>
    log_open t l' n' (v(b := d)) \<and> lframe s t \<and>
    set (take n' (lh_block l')) = insert b (set (take n (lh_block l))) \<and>
    n' = (if b \<in> set (take n (lh_block l)) then n else n + 1)"
proof -
  let ?U = "set (take n (lh_block l))"
  have r: "klog s = l" "lg_dev l = 1" "lh_n l = int n" "n \<le> length (lh_block l)" "0 \<le> lg_start l" "distinct (take n (lh_block l))"
    "cache_inv s {} ?U v" "\<forall>b \<in> ?U. b < disksize s" "length (disk s (log_hdr (lg_start l))) = BSIZE"
    using op(1) unfolding log_open_def by blast+
  obtain s2 where 2: "set_data x d s1 = Ok () s2" "cache_inv s2 {x} (insert b ?U) (v(b := d))" "kframe s1 s2" "disk s2 = disk s1"
    "dwrites s2 = dwrites s1" "bufs s2 = (bufs s1)[x := (bufs s1 ! x)\<lparr>b_data := d\<rparr>]"
    using bc.put_law [OF 1(1) _ 1(6)] by blast
  have b2: "b_blockno (bufs s2 ! x) = b" using 2(6) 1(5,6) by simp
  have k2: "klog s2 = l" "held s2 = []" "disksize s2 = disksize s"
    using kframeD [OF 2(3)] kframeD [OF 1(2)] r(1) cache_invD(1) [OF r(7)] by simp_all
  define i where "i = log_slot l b"
  define l' :: log where "l' = l\<lparr>lh_block := (lh_block l)[i := b], lh_n := (if i = n then lh_n l + 1 else lh_n l)\<rparr>"
  let ?s2 = "upd_log (\<lambda>l. l\<lparr>lh_block := (lh_block l)[i := b], lh_n := (if i = n then lh_n l + 1 else lh_n l)\<rparr>) s2"
  let ?s3 = "upd_buf x (\<lambda>y. y\<lparr>b_dirty := True\<rparr>) ?s2"
  have "log_write x s2 = Ok () ?s3"
    using log_write_eq [OF k2(2,1) r(3) _ op(3,2,5)] op(4) b2 by (simp add: i_def)
  moreover have i2: "cache_inv ?s2 {x} (insert b ?U) (v(b := d))" using 2(2) by simp
  have bb: "b_blockno (bufs ?s2 ! x) \<in> insert b ?U" using b2 by (simp add: upd_log_def)
  have i3: "cache_inv ?s3 {x} (insert b ?U) (v(b := d))" "kframe ?s2 ?s3" using cache_pin [OF i2 _ bb] by simp_all
  have "b_dirty (bufs ?s3 ! x)" using 1(5) 2(6) by (simp add: upd_buf_def upd_log_def)
  then obtain t where t: "brelse x ?s3 = Ok () t" "cache_inv t ({x} - {x}) (insert b ?U) (v(b := d))" "kframe ?s3 t" "disk t = disk ?s3"
    "dwrites t = dwrites ?s3" using bc.rel_law [OF i3(1), of x] by blast
  ultimately have run: "seqM (set_data x d) (seqM (log_write x) (brelse x)) s1 = Ok () t"
    using 2(1) by (simp add: seqM_def)
  have kt: "klog t = l'" "disk t = disk s" "dwrites t = dwrites s" "disksize t = disksize s"
    using kframeD(3,4) [OF t(3)] kframeD(3,4) [OF i3(2)] k2 t(4,5) 2(4,5) 1(3,4) by (simp_all add: upd_log_def upd_buf_def l'_def)
  have "kframe ?s2 t" by (rule kframe_trans [OF i3(2) t(3)])
  then have "kframe s2 (t\<lparr>klog := klog s\<rparr>)"
    using kframe_klog [of ?s2 t "klog s"] klog_same [of s2 l] k2(1) r(1) by (simp add: upd_log_def)
  then have "kframe s (t\<lparr>klog := klog s\<rparr>)" by (rule kframe_trans [OF kframe_trans [OF 1(2) 2(3)]])
  then have fr: "lframe s t" using kt r(1) unfolding lframe_def
    by (auto simp: l'_def intro!: exI [of _ "if i = n then lh_n l + 1 else lh_n l"] exI [of _ "(lh_block l)[i := b]"])
  show ?thesis
  proof (rule log_slot_cases [OF r(3,4), of b])
    fix j assume j: "log_slot l b = j" "j < n" "lh_block l ! j = b" "b \<in> ?U"
    then have l': "l' = l" using list_update_id [of "lh_block l" j] by (simp add: l'_def i_def)
    have U: "insert b ?U = ?U" using j(4) by blast
    have "cache_inv t {} ?U (v(b := d))" using t(2) unfolding U by simp
    then have "log_open t l n (v(b := d))" using op(1) kt l' unfolding log_open_def by simp
    then show ?thesis using run fr j(4) U by (intro exI [of _ t] exI [of _ l] exI [of _ n]) simp
  next
    assume j: "log_slot l b = n" "b \<notin> ?U"
    have l': "take (n + 1) (lh_block l') = take n (lh_block l) @ [b]" "lh_n l' = int (n + 1)" "lg_dev l' = 1" "lg_start l' = lg_start l"
      "length (lh_block l') = length (lh_block l)"
      using j(1) op(5) r(2,3) by (simp_all add: l'_def i_def take_Suc_conv_app_nth)
    have "log_open t l' (n + 1) (v(b := d))"
      unfolding log_open_def l' kt(2,4) using kt(1) op(4,5) r(5,6,8,9) b j(2) t(2) by (auto simp: Int_commute)
    then show ?thesis using run fr j(2) l'(1) by (intro exI [of _ t] exI [of _ l'] exI [of _ "n + 1"]) auto
  qed
qed

lemma log_open_read:
  assumes op: "log_open s l n v" "n + 1 < NBUF" and b: "b < disksize s"
  shows "\<exists>x s1. bread 1 b s = Ok x s1 \<and> buf_data x s1 = Ok (v b) s1 \<and> cache_inv s1 {x} (set (take n (lh_block l))) v \<and> kframe s s1 \<and>
    disk s1 = disk s \<and> dwrites s1 = dwrites s \<and> x < length (bufs s1) \<and> b = b_blockno (bufs s1 ! x)"
proof -
  let ?U = "set (take n (lh_block l))"
  have i: "cache_inv s {} ?U v" using op(1) unfolding log_open_def by blast
  have cU: "card ?U < NBUF" using card_length [of "take n (lh_block l)"] op(2) by simp
  obtain x s1 y where 1: "bread 1 b s = Ok x s1" "cache_inv s1 {x} ?U v" "kframe s s1" "disk s1 = disk s" "dwrites s1 = dwrites s"
    "bufs s1 = (bufs s)[x := y]" "x < length (bufs s)" "b_blockno y = b" "b_data y = v b"
    using bc.rd_law [OF i b] cU by force
  then show ?thesis by (intro exI [of _ x] exI [of _ s1]) (simp add: buf_data_def gets_def)
qed

text \<open>
  C6: A block written inside a transaction, by bread, a change of the data, log_write and brelse,
  changes only the cache: nothing is written to the disk, the new contents are what later reads
  see, and the block is in the header of the transaction exactly once, also when it is written
  again.  A transaction of at most \<open>NBUF - 1\<close> blocks can always be continued.
\<close>

theorem logged_write_deferred:
  assumes op: "log_open s l n v" "1 \<le> lg_outstanding l" "int n < lg_size l - 1" "n + 1 < NBUF" "n < length (lh_block l)"
    and b: "b < disksize s" "insert b (set (take n (lh_block l))) \<inter> log_area (lg_start l) (n + 1) = {}"
      "lg_start l + int n + 1 < int (unat (disksize s))"
  shows "\<exists>t l' n'. bindM (bread 1 b) (\<lambda>x. seqM (set_data x d) (seqM (log_write x) (brelse x))) s = Ok () t \<and>
    log_open t l' n' (v(b := d)) \<and> disk t = disk s \<and> dwrites t = dwrites s \<and>
    set (take n' (lh_block l')) = insert b (set (take n (lh_block l))) \<and>
    n' = (if b \<in> set (take n (lh_block l)) then n else n + 1)"
proof -
  obtain x s1 where 1: "bread 1 b s = Ok x s1" "cache_inv s1 {x} (set (take n (lh_block l))) v" "kframe s s1"
      "disk s1 = disk s" "dwrites s1 = dwrites s" "x < length (bufs s1)" "b = b_blockno (bufs s1 ! x)"
    using log_open_read [OF op(1,4) b(1)] by blast
  then show ?thesis using log_put_release [OF op b 1(2-7), of d] unfolding lframe_def by auto
qed

theorem logged_write_deferred_witness:
  "\<exists>t l'. bindM (bread 1 600) (\<lambda>x. seqM (set_data x (replicate BSIZE 9)) (seqM (log_write x) (brelse x)))
       (ex_trans\<lparr>klog := ex_tlog\<lparr>lg_outstanding := 1\<rparr>\<rparr>) = Ok () t \<and>
     dwrites t = [] \<and> log_open t l' 2 (ex_disk(500 := replicate BSIZE 7, 600 := replicate BSIZE 9))"
proof -
  let ?l = "ex_tlog\<lparr>lg_outstanding := 1\<rparr>" and ?s = "ex_trans\<lparr>klog := ex_tlog\<lparr>lg_outstanding := 1\<rparr>\<rparr>"
  have "cache_inv ?s {} {500} (ex_disk(500 := replicate BSIZE 7))"
    using ex_trans_cache cache_inv_log [of "\<lambda>_. ?l" ex_trans] by (simp add: upd_log_def)
  then have op: "log_open ?s ?l 1 (ex_disk(500 := replicate BSIZE 7))"
    by (auto simp: log_open_def log_area_def log_hdr_def log_blk_def ex_disk_def)
  have two: "Suc (Suc 0) = 2" by simp
  have "log_area 2 (Suc (Suc 0)) = {2, 3, 4}" by (auto simp: log_area_def log_hdr_def log_blk_def lessThan_Suc)
  then have a: "log_area 2 2 = {2, 3, 4}" by (simp add: two)
  show ?thesis
    using logged_write_deferred [OF op, of 600 "replicate BSIZE 9"] by (auto simp: a ex_tlog_def two)
qed

end
