(* ===== verification/Typed.thy ===== *)
theory Typed
  imports Locks
begin

text \<open>
  The type invariant of the kernel state: every static array has the length of its declaration,
  every pointer into a table names an entry of the table, and every block is \<open>BSIZE\<close> bytes long.
  \<open>yields m Q\<close> says that the routine \<open>m\<close> keeps the invariant and returns values that satisfy \<open>Q\<close>.
  As for the locks, the rules follow the composition of the routines.
\<close>

named_theorems typed_rule
named_theorems typed_simp

section \<open>The invariant\<close>

definition ptr_in :: "nat \<Rightarrow> nat option \<Rightarrow> bool" where
  "ptr_in n p \<longleftrightarrow> (case p of None \<Rightarrow> True | Some i \<Rightarrow> i < n)"

lemma ptr_in_simps [simp, typed_simp]: "ptr_in n None" "ptr_in n (Some i) \<longleftrightarrow> i < n"
  by (simp_all add: ptr_in_def)

definition wt_desc :: "mmap_desc \<Rightarrow> bool" where
  "wt_desc md \<longleftrightarrow> ptr_in NFILE (md_f md)"

definition wt_proc :: "proc \<Rightarrow> bool" where
  "wt_proc p \<longleftrightarrow> ptr_in NPROC (p_parent p) \<and> length (p_ofile p) = NOFILE \<and> list_all (ptr_in NFILE) (p_ofile p) \<and>
     ptr_in NINODE (p_cwd p) \<and> length (p_mmaps p) = PAGE_LIMIT \<and> list_all wt_desc (p_mmaps p)"

definition wt_buf :: "buf \<Rightarrow> bool" where
  "wt_buf b \<longleftrightarrow> length (b_data b) = BSIZE"

definition wt_inode :: "inode \<Rightarrow> bool" where
  "wt_inode ip \<longleftrightarrow> length (i_addrs ip) = NDIRECT + 1"

definition wt_file :: "kfile \<Rightarrow> bool" where
  "wt_file f \<longleftrightarrow> ptr_in NINODE (f_ip f)"

definition wt_kernel :: "kernel \<Rightarrow> bool" where
  "wt_kernel s \<longleftrightarrow> length (ptable s) = NPROC \<and> list_all wt_proc (ptable s) \<and> ptr_in NPROC (cur s) \<and> ptr_in NPROC (initproc s) \<and>
     (\<forall>b. length (disk s b) = BSIZE) \<and> length (bufs s) = NBUF \<and> list_all wt_buf (bufs s) \<and> list_all (\<lambda>b. b < NBUF) (lru s) \<and>
     length (lh_block (klog s)) = 30 \<and> length (icache s) = NINODE \<and> list_all wt_inode (icache s) \<and>
     length (ftable s) = NFILE \<and> list_all wt_file (ftable s) \<and> (\<forall>p. length (pi_data (pipes s p)) = PIPESIZE) \<and>
     length (in_buf (input s)) = 128 \<and> length (crt s) = CRTSIZE \<and> length (devsw s) = 10"

lemma wt_kernel_frame [simp, typed_simp]:
  "wt_kernel (s\<lparr>kmem := x1\<rparr>) = wt_kernel s" "wt_kernel (s\<lparr>freelist := x2\<rparr>) = wt_kernel s"
  "wt_kernel (s\<lparr>use_lock := x3\<rparr>) = wt_kernel s" "wt_kernel (s\<lparr>held := x4\<rparr>) = wt_kernel s"
  "wt_kernel (s\<lparr>nextpid := x5\<rparr>) = wt_kernel s" "wt_kernel (s\<lparr>kpgdir := x6\<rparr>) = wt_kernel s"
  "wt_kernel (s\<lparr>cr3 := x7\<rparr>) = wt_kernel s" "wt_kernel (s\<lparr>ts_esp0 := x8\<rparr>) = wt_kernel s"
  "wt_kernel (s\<lparr>ticks := x9\<rparr>) = wt_kernel s" "wt_kernel (s\<lparr>VA_PTR := x10\<rparr>) = wt_kernel s"
  "wt_kernel (s\<lparr>dwrites := x11\<rparr>) = wt_kernel s" "wt_kernel (s\<lparr>sb := x12\<rparr>) = wt_kernel s"
  "wt_kernel (s\<lparr>cons_locking := x13\<rparr>) = wt_kernel s" "wt_kernel (s\<lparr>uart_out := x14\<rparr>) = wt_kernel s"
  "wt_kernel (s\<lparr>crt_pos := x15\<rparr>) = wt_kernel s" "wt_kernel (s\<lparr>first := x16\<rparr>) = wt_kernel s"
  "wt_kernel (s\<lparr>kbd_shift := x17\<rparr>) = wt_kernel s" "wt_kernel (s\<lparr>disksize := x18\<rparr>) = wt_kernel s"
  by (simp_all add: wt_kernel_def)

lemma list_all_update: "list_all P xs \<Longrightarrow> (i < length xs \<Longrightarrow> P x) \<Longrightarrow> list_all P (xs[i := x])"
  by (cases "i < length xs") (auto simp: list_all_length nth_list_update)

lemma list_all_update_nth: "list_all P xs \<Longrightarrow> (\<And>x. P x \<Longrightarrow> P (f x)) \<Longrightarrow> list_all P (xs[i := f (xs ! i)])"
  by (cases "i < length xs") (auto simp: list_all_length nth_list_update)

lemma list_all_nth: "list_all P xs \<Longrightarrow> i < length xs \<Longrightarrow> P (xs ! i)"
  by (simp add: list_all_length)

lemma wt_upd_proc:
  assumes "wt_kernel s" "\<And>q. wt_proc q \<Longrightarrow> wt_proc (f q)"
  shows "wt_kernel (upd_proc i f s)"
  using assms by (auto simp: wt_kernel_def upd_proc_def intro!: list_all_update_nth)

lemma wt_upd_buf:
  assumes "wt_kernel s" "\<And>q. wt_buf q \<Longrightarrow> wt_buf (f q)"
  shows "wt_kernel (upd_buf i f s)"
  using assms by (auto simp: wt_kernel_def upd_buf_def intro!: list_all_update_nth)

lemma wt_upd_inode:
  assumes "wt_kernel s" "\<And>q. wt_inode q \<Longrightarrow> wt_inode (f q)"
  shows "wt_kernel (upd_inode i f s)"
  using assms by (auto simp: wt_kernel_def upd_inode_def intro!: list_all_update_nth)

lemma wt_upd_file:
  assumes "wt_kernel s" "\<And>q. wt_file q \<Longrightarrow> wt_file (f q)"
  shows "wt_kernel (upd_file i f s)"
  using assms by (auto simp: wt_kernel_def upd_file_def intro!: list_all_update_nth)

lemma wt_upd_pipe:
  assumes "wt_kernel s" "\<And>x. length (pi_data x) = PIPESIZE \<Longrightarrow> length (pi_data (f x)) = PIPESIZE"
  shows "wt_kernel (upd_pipe p f s)"
  using assms by (auto simp: wt_kernel_def upd_pipe_def)

lemma wt_upd_log:
  assumes "wt_kernel s" "\<And>l. length (lh_block l) = 30 \<Longrightarrow> length (lh_block (f l)) = 30"
  shows "wt_kernel (upd_log f s)"
  using assms by (auto simp: wt_kernel_def upd_log_def)

lemma wt_upd_input:
  assumes "wt_kernel s" "\<And>l. length (in_buf l) = 128 \<Longrightarrow> length (in_buf (f l)) = 128"
  shows "wt_kernel (upd_input f s)"
  using assms by (auto simp: wt_kernel_def upd_input_def)

lemma wt_upd_md:
  assumes "wt_kernel s" "\<And>md. wt_desc md \<Longrightarrow> wt_desc (f md)"
  shows "wt_kernel (upd_md p i f s)"
  unfolding upd_md_def using assms
  by (intro wt_upd_proc) (auto simp: wt_proc_def intro!: list_all_update_nth)

lemma wt_set_slock:
  assumes "wt_kernel s"
  shows "wt_kernel (set_slock lk l s)"
  using assms unfolding set_slock_def
  by (cases lk) (auto intro!: wt_upd_buf wt_upd_inode simp: wt_buf_def wt_inode_def)

section \<open>Composition\<close>

definition yields :: "'a M \<Rightarrow> ('a \<Rightarrow> bool) \<Rightarrow> bool" where
  "yields m Q \<longleftrightarrow> (\<forall>s. wt_kernel s \<longrightarrow> (case m s of Ok x t \<Rightarrow> wt_kernel t \<and> Q x | Sched t \<Rightarrow> wt_kernel t | _ \<Rightarrow> True))"

abbreviation (input) "typed m \<equiv> yields m (\<lambda>_. True)"

lemma yields_weaken: "yields m Q \<Longrightarrow> (\<And>x. Q x \<Longrightarrow> R x) \<Longrightarrow> yields m R"
proof -
  assume m: "yields m Q" and w: "\<And>x. Q x \<Longrightarrow> R x"
  have "case m s of Ok x t \<Rightarrow> wt_kernel t \<and> R x | Sched t \<Rightarrow> wt_kernel t | _ \<Rightarrow> True" if "wt_kernel s" for s
    using m that w by (cases "m s") (auto simp: yields_def)
  then show ?thesis by (simp add: yields_def)
qed

lemma typed_ret [typed_rule]: "Q x \<Longrightarrow> yields (ret x) Q"
  by (simp add: yields_def ret_def)

lemma typed_gets: "yields (gets f) (\<lambda>x. \<exists>s. wt_kernel s \<and> x = f s)"
  by (auto simp: yields_def gets_def)

lemma typed_panic [typed_rule]: "yields (panic e) Q"
  by (simp add: yields_def panic_def)

lemma typed_fault [typed_rule]: "yields (fault e) Q"
  by (simp add: yields_def fault_def)

lemma typed_bindM:
  assumes "yields m Q" "\<And>x. Q x \<Longrightarrow> yields (k x) R"
  shows "yields (bindM m k) R"
proof -
  have "case bindM m k s of Ok x t \<Rightarrow> wt_kernel t \<and> R x | Sched t \<Rightarrow> wt_kernel t | _ \<Rightarrow> True" if "wt_kernel s" for s
  proof (cases "m s")
    case (Ok x t)
    then have "wt_kernel t" "Q x" using assms(1) that by (auto simp: yields_def)
    then show ?thesis using assms(2) [of x] Ok by (auto simp: yields_def bindM_def)
  next
    case (Sched t)
    then show ?thesis using assms(1) that by (auto simp: yields_def bindM_def)
  qed (simp_all add: bindM_def)
  then show ?thesis by (simp add: yields_def)
qed

lemma typed_bind [typed_rule]: "typed m \<Longrightarrow> (\<And>x. yields (k x) R) \<Longrightarrow> yields (bindM m k) R"
  by (rule typed_bindM)

lemma typed_seqM [typed_rule]: "typed m \<Longrightarrow> yields k R \<Longrightarrow> yields (seqM m k) R"
  unfolding seqM_def by (rule typed_bindM)

lemma typed_whenM [typed_rule]: "(b \<Longrightarrow> typed m) \<Longrightarrow> typed (whenM b m)"
  by (simp add: whenM_def typed_ret)

lemma typed_if [typed_rule]: "(b \<Longrightarrow> yields m Q) \<Longrightarrow> (\<not> b \<Longrightarrow> yields k Q) \<Longrightarrow> yields (if b then m else k) Q"
  by simp

lemma typed_Let [typed_rule]: "yields (f x) Q \<Longrightarrow> yields (Let x f) Q"
  by simp

lemma typed_option [typed_rule]:
  "(p = None \<Longrightarrow> yields m Q) \<Longrightarrow> (\<And>x. p = Some x \<Longrightarrow> yields (f x) Q) \<Longrightarrow> yields (case p of None \<Rightarrow> m | Some x \<Rightarrow> f x) Q"
  by (cases p) simp_all

lemma typed_prod [typed_rule]: "(\<And>x y. p = (x, y) \<Longrightarrow> yields (f x y) Q) \<Longrightarrow> yields (case p of (x, y) \<Rightarrow> f x y) Q"
  by (cases p) simp

lemma typed_sum [typed_rule]:
  "(\<And>x. p = Inl x \<Longrightarrow> yields (f x) Q) \<Longrightarrow> (\<And>x. p = Inr x \<Longrightarrow> yields (g x) Q) \<Longrightarrow> yields (case p of Inl x \<Rightarrow> f x | Inr x \<Rightarrow> g x) Q"
  by (cases p) simp_all

lemma typed_list [typed_rule]:
  "yields m Q \<Longrightarrow> (\<And>x xs. yields (f x xs) Q) \<Longrightarrow> yields (case p of [] \<Rightarrow> m | x # xs \<Rightarrow> f x xs) Q"
  by (cases p) simp_all

lemma typed_foreach [typed_rule]: "(\<And>i. i \<in> set is \<Longrightarrow> typed (f i)) \<Longrightarrow> typed (foreach is f)"
proof (induction "is")
  case Nil
  show ?case unfolding foreach.simps by (rule typed_ret) simp
next
  case (Cons i js)
  show ?case unfolding foreach.simps by (rule typed_seqM, rule Cons.prems, simp, rule Cons.IH, rule Cons.prems, simp)
qed

lemma typed_modify: "(\<And>s. wt_kernel s \<Longrightarrow> wt_kernel (f s)) \<Longrightarrow> typed (modify f)"
  by (simp add: yields_def modify_def)

lemma typed_any: "yields m Q \<Longrightarrow> typed m"
  by (erule yields_weaken) (rule TrueI)

text \<open>What a value read from a well-typed state is.\<close>

lemma wt_kernelD:
  assumes "wt_kernel s"
  shows "length (ptable s) = NPROC" "p < NPROC \<Longrightarrow> wt_proc (ptable s ! p)" "ptr_in NPROC (cur s)" "ptr_in NPROC (initproc s)"
    "length (disk s b) = BSIZE" "length (bufs s) = NBUF" "i < NBUF \<Longrightarrow> wt_buf (bufs s ! i)" "list_all (\<lambda>b. b < NBUF) (lru s)"
    "length (lh_block (klog s)) = 30" "length (icache s) = NINODE" "i < NINODE \<Longrightarrow> wt_inode (icache s ! i)"
    "length (ftable s) = NFILE" "i < NFILE \<Longrightarrow> wt_file (ftable s ! i)" "length (crt s) = CRTSIZE"
  using assms unfolding wt_kernel_def by (simp_all add: list_all_length)

lemma typed_gets_any [typed_rule]: "typed (gets f)"
  by (rule typed_any [OF typed_gets])

lemma typed_deref: "(\<And>x. p = Some x \<Longrightarrow> Q x) \<Longrightarrow> yields (deref p) Q"
  by (auto simp: yields_def deref_def ret_def fault_def split: option.splits)

lemma typed_deref_any [typed_rule]: "typed (deref p)"
  by (rule typed_deref) simp

lemma yields_curproc: "yields curproc (\<lambda>p. p < NPROC)"
  unfolding curproc_def
  by (rule typed_bindM [OF typed_gets], rule typed_deref) (metis wt_kernelD(3) ptr_in_simps(2))

lemmas typed_bind_gets = typed_bindM [OF typed_gets]
lemmas typed_bind_curproc = typed_bindM [OF yields_curproc]

lemma typed_curproc [typed_rule]: "typed curproc"
  by (rule typed_any [OF yields_curproc])

text \<open>State updates: the rule picks the part of the state that changes.\<close>

lemma typed_modify_frame: "(\<And>s. wt_kernel (f s) = wt_kernel s) \<Longrightarrow> typed (modify f)"
  by (rule typed_modify) simp

lemma typed_upd_proc: "(\<And>q. wt_proc q \<Longrightarrow> wt_proc (f q)) \<Longrightarrow> typed (modify (upd_proc i f))"
  by (rule typed_modify) (rule wt_upd_proc)

lemma typed_upd_buf: "(\<And>q. wt_buf q \<Longrightarrow> wt_buf (f q)) \<Longrightarrow> typed (modify (upd_buf i f))"
  by (rule typed_modify) (rule wt_upd_buf)

lemma typed_upd_inode: "(\<And>q. wt_inode q \<Longrightarrow> wt_inode (f q)) \<Longrightarrow> typed (modify (upd_inode i f))"
  by (rule typed_modify) (rule wt_upd_inode)

lemma typed_upd_file: "(\<And>q. wt_file q \<Longrightarrow> wt_file (f q)) \<Longrightarrow> typed (modify (upd_file i f))"
  by (rule typed_modify) (rule wt_upd_file)

lemma typed_upd_pipe:
  "(\<And>x. length (pi_data x) = PIPESIZE \<Longrightarrow> length (pi_data (f x)) = PIPESIZE) \<Longrightarrow> typed (modify (upd_pipe p f))"
  by (rule typed_modify) (rule wt_upd_pipe)

lemma typed_upd_log: "(\<And>l. length (lh_block l) = 30 \<Longrightarrow> length (lh_block (f l)) = 30) \<Longrightarrow> typed (modify (upd_log f))"
  by (rule typed_modify) (rule wt_upd_log)

lemma typed_upd_input: "(\<And>l. length (in_buf l) = 128 \<Longrightarrow> length (in_buf (f l)) = 128) \<Longrightarrow> typed (modify (upd_input f))"
  by (rule typed_modify) (rule wt_upd_input)

lemma typed_upd_md: "(\<And>md. wt_desc md \<Longrightarrow> wt_desc (f md)) \<Longrightarrow> typed (modify (upd_md p i f))"
  by (rule typed_modify) (rule wt_upd_md)

lemma typed_set_slock: "typed (modify (\<lambda>s. set_slock lk (l s) s))"
  by (rule typed_modify) (rule wt_set_slock)

lemmas typed_upd = typed_upd_proc typed_upd_buf typed_upd_inode typed_upd_file typed_upd_pipe typed_upd_log typed_upd_input
  typed_upd_md typed_set_slock

lemma wt_parts_frame [simp, typed_simp]:
  "wt_proc (q\<lparr>p_sz := y1\<rparr>) = wt_proc q" "wt_proc (q\<lparr>p_pgdir := y2\<rparr>) = wt_proc q" "wt_proc (q\<lparr>p_kstack := y3\<rparr>) = wt_proc q"
  "wt_proc (q\<lparr>p_state := y4\<rparr>) = wt_proc q" "wt_proc (q\<lparr>p_pid := y5\<rparr>) = wt_proc q" "wt_proc (q\<lparr>p_tf := y6\<rparr>) = wt_proc q"
  "wt_proc (q\<lparr>p_context := y7\<rparr>) = wt_proc q" "wt_proc (q\<lparr>p_chan := y8\<rparr>) = wt_proc q" "wt_proc (q\<lparr>p_killed := y9\<rparr>) = wt_proc q"
  "wt_proc (q\<lparr>p_name := y10\<rparr>) = wt_proc q" "wt_proc (q\<lparr>p_open_frames := y11\<rparr>) = wt_proc q"
  "wt_buf (b\<lparr>b_valid := z1\<rparr>) = wt_buf b" "wt_buf (b\<lparr>b_dirty := z2\<rparr>) = wt_buf b" "wt_buf (b\<lparr>b_dev := z3\<rparr>) = wt_buf b"
  "wt_buf (b\<lparr>b_blockno := z4\<rparr>) = wt_buf b" "wt_buf (b\<lparr>b_lock := z5\<rparr>) = wt_buf b" "wt_buf (b\<lparr>b_refcnt := z6\<rparr>) = wt_buf b"
  "wt_inode (ip\<lparr>i_dev := v1\<rparr>) = wt_inode ip" "wt_inode (ip\<lparr>i_inum := v2\<rparr>) = wt_inode ip" "wt_inode (ip\<lparr>i_ref := v3\<rparr>) = wt_inode ip"
  "wt_inode (ip\<lparr>i_lock := v4\<rparr>) = wt_inode ip" "wt_inode (ip\<lparr>i_valid := v5\<rparr>) = wt_inode ip" "wt_inode (ip\<lparr>i_type := v6\<rparr>) = wt_inode ip"
  "wt_inode (ip\<lparr>i_major := v7\<rparr>) = wt_inode ip" "wt_inode (ip\<lparr>i_minor := v8\<rparr>) = wt_inode ip"
  "wt_inode (ip\<lparr>i_nlink := v9\<rparr>) = wt_inode ip" "wt_inode (ip\<lparr>i_size := v10\<rparr>) = wt_inode ip"
  "wt_inode (ip\<lparr>i_addrs := (i_addrs ip)[k := a]\<rparr>) = wt_inode ip"
  "wt_file (f\<lparr>f_type := u1\<rparr>) = wt_file f" "wt_file (f\<lparr>f_ref := u2\<rparr>) = wt_file f" "wt_file (f\<lparr>f_readable := u3\<rparr>) = wt_file f"
  "wt_file (f\<lparr>f_writable := u4\<rparr>) = wt_file f" "wt_file (f\<lparr>f_pipe := u5\<rparr>) = wt_file f" "wt_file (f\<lparr>f_off := u6\<rparr>) = wt_file f"
  by (simp_all add: wt_proc_def wt_buf_def wt_inode_def wt_file_def)

section \<open>Locks and the scheduler\<close>

lemma typed_acquire [typed_rule]: "typed (acquire lk)"
  by (auto simp: yields_def acquire_def holding_def monad_defs)

lemma typed_release [typed_rule]: "typed (release lk)"
  by (auto simp: yields_def release_def holding_def monad_defs)

lemma typed_sched [typed_rule]: "typed sched"
proof -
  have "case sched s of Ok x t \<Rightarrow> wt_kernel t \<and> True | Sched t \<Rightarrow> wt_kernel t | _ \<Rightarrow> True" if "wt_kernel s" for s
    using that by (cases "cur s") (simp_all add: sched_def holding_def monad_defs)
  then show ?thesis by (simp add: yields_def)
qed

lemma typed_sleep [typed_rule]: "typed (sleep c lk)"
  unfolding sleep_def by (rule typed_upd | rule typed_modify_frame | rule typed_rule | simp)+

lemma typed_wakeup1 [typed_rule]: "typed (wakeup1 c)"
  unfolding wakeup1_def
  by (rule typed_modify) (auto simp: wt_kernel_def list_all_length wakeup_proc_def)

lemma typed_wakeup [typed_rule]: "typed (wakeup c)"
  unfolding wakeup_def by (rule typed_upd | rule typed_modify_frame | rule typed_rule | simp)+

lemma typed_yield [typed_rule]: "typed (yield)"
  unfolding yield_def by (rule typed_upd | rule typed_modify_frame | rule typed_rule | simp)+

lemma typed_initsleeplock [typed_rule]: "typed (initsleeplock lk)"
  unfolding initsleeplock_def by (rule typed_upd | rule typed_modify_frame | rule typed_rule | simp)+

lemma typed_acquiresleep [typed_rule]: "typed (acquiresleep lk)"
  unfolding acquiresleep_def by (rule typed_upd | rule typed_modify_frame | rule typed_rule | simp)+

lemma typed_releasesleep [typed_rule]: "typed (releasesleep lk)"
  unfolding releasesleep_def by (rule typed_upd | rule typed_modify_frame | rule typed_rule | simp)+

lemma typed_holdingsleep [typed_rule]: "typed (holdingsleep lk)"
  unfolding holdingsleep_def by (rule typed_upd | rule typed_modify_frame | rule typed_rule | simp)+

section \<open>Console output and memory\<close>

lemma wt_crt: "wt_kernel s \<Longrightarrow> length c = CRTSIZE \<Longrightarrow> wt_kernel (s\<lparr>crt := c\<rparr>)"
  by (simp add: wt_kernel_def)

lemma typed_crt_put [typed_rule]: "typed (crt_put i v)"
  unfolding crt_put_def
proof (rule typed_bind_gets, elim exE conjE)
  fix c s assume "wt_kernel s" "c = crt s"
  then have c: "length (c[i := v]) = CRTSIZE" using wt_kernelD(14) by simp
  show "typed (if length c \<le> i then fault ''crt index'' else modify (\<lambda>s. s\<lparr>crt := c[i := v]\<rparr>))"
    by (rule typed_rule | rule typed_modify | rule wt_crt | rule c | assumption)+
qed

lemma typed_scroll: "\<not> 25 * 80 < pos \<Longrightarrow> typed (modify (\<lambda>s. s\<lparr>crt := crt_scroll (pos - 80) (crt s)\<rparr>))"
  by (rule typed_modify, rule wt_crt, assumption, rule length_crt_scroll, rule wt_kernelD(14), assumption) linarith

lemma typed_cga_place [typed_rule]: "typed (cga_place pos)"
  unfolding cga_place_def
  by (rule typed_scroll, assumption | rule typed_modify_frame, simp | rule typed_rule | rule TrueI)+

lemma typed_cgaputc [typed_rule]: "typed (cgaputc c)"
  unfolding cgaputc_def by (rule typed_upd | rule typed_modify_frame | rule typed_rule | simp)+

lemma typed_uartputc [typed_rule]: "typed (uartputc c)"
  unfolding uartputc_def by (rule typed_upd | rule typed_modify_frame | rule typed_rule | simp)+

lemma typed_consputc [typed_rule]: "typed (consputc c)"
  unfolding consputc_def by (rule typed_upd | rule typed_modify_frame | rule typed_rule | simp)+

lemma typed_printint [typed_rule]: "typed (printint x b g)"
  unfolding printint_def by (rule typed_upd | rule typed_modify_frame | rule typed_rule | simp)+

lemma typed_carg [typed_rule]:
  "(\<And>x. yields (f x) Q) \<Longrightarrow> (\<And>x. yields (g x) Q) \<Longrightarrow> yields (case a of CInt x \<Rightarrow> f x | CStr x \<Rightarrow> g x) Q"
  by (cases a) simp_all

lemma typed_cprintf_loop [typed_rule]: "typed (cprintf_loop cs args)"
proof (induction "length cs" arbitrary: cs args rule: less_induct)
  case less
  show ?case
  proof (cases cs)
    case Nil
    show ?thesis unfolding Nil cprintf_loop.simps by (rule typed_ret) simp
  next
    case (Cons c ds)
    have short: "typed (cprintf_loop ds args)" for args
      by (rule less) (simp add: Cons)
    show ?thesis
    proof (cases ds)
      case Nil
      show ?thesis unfolding Cons Nil cprintf_loop.simps list.case
        by (rule typed_rule | simp)+
    next
      case (Cons d es)
      have shorter: "typed (cprintf_loop es args)" for args
        by (rule less) (simp add: \<open>cs = c # ds\<close> Cons)
      show ?thesis unfolding \<open>cs = c # ds\<close> Cons cprintf_loop.simps(2) [of c] list.case
        by (rule typed_if typed_seqM typed_list typed_carg typed_option typed_foreach typed_fault typed_consputc typed_printint
            short [unfolded Cons] shorter)+
    qed
  qed
qed

lemma typed_cprintf [typed_rule]: "typed (cprintf fmt args)"
  unfolding cprintf_def by (rule typed_rule | simp)+

lemma typed_cong: "(\<And>s. \<exists>k. yields k Q \<and> m s = k s) \<Longrightarrow> yields m Q"
  by (metis yields_def)

lemma typed_kfree [typed_rule]: "typed (kfree v)"
proof (rule typed_cong)
  fix s :: kernel
  let ?k = "seqM (modify (\<lambda>s. s\<lparr>kmem := memset (kmem s) v 1 PGSIZE\<rparr>))
     (seqM (whenM (use_lock s) (acquire KmemLock))
     (seqM (modify (\<lambda>s. s\<lparr>kmem := store32 (kmem s) v (freelist s), freelist := v\<rparr>))
     (whenM (use_lock s) (release KmemLock))))"
  have "typed ?k" by (rule typed_modify_frame | rule typed_rule | simp)+
  then show "\<exists>k. typed k \<and> kfree v s = k s"
    using typed_panic [of "''kfree''" "\<lambda>_. True"] by (auto simp: kfree_def panic_def)
qed

lemma typed_kalloc [typed_rule]: "typed kalloc"
proof (rule typed_cong)
  fix s :: kernel
  let ?k = "seqM (whenM (use_lock s) (acquire KmemLock))
    (bindM (gets freelist) (\<lambda>r.
     seqM (whenM (r \<noteq> 0) (modify (\<lambda>s. s\<lparr>freelist := load32 (kmem s) r\<rparr>)))
    (seqM (whenM (use_lock s) (release KmemLock))
    (ret r))))"
  have "typed ?k" by (rule typed_modify_frame | rule typed_rule | simp)+
  then show "\<exists>k. typed k \<and> kalloc s = k s" by (auto simp: kalloc_def)
qed

lemma typed_walkpgdir [typed_rule]: "typed (walkpgdir d va al)"
  unfolding walkpgdir_def by (rule typed_upd | rule typed_modify_frame | rule typed_rule | simp)+

lemma typed_mappages_loop [typed_rule]: "typed (mappages_loop fuel d a final pa perm)"
proof (induction fuel arbitrary: a pa)
  case 0
  show ?case unfolding mappages_loop.simps by (rule typed_rule | simp)+
next
  case (Suc k)
  show ?case unfolding mappages_loop.simps by (rule typed_upd | rule typed_modify_frame | rule typed_rule Suc | simp)+
qed

lemma typed_mappages [typed_rule]: "typed (mappages d va sz pa perm)"
  unfolding mappages_def by (rule typed_upd | rule typed_modify_frame | rule typed_rule | simp)+

lemma typed_deallocuvm_loop [typed_rule]: "typed (deallocuvm_loop fuel d a oldsz)"
proof (induction fuel arbitrary: a)
  case 0
  show ?case unfolding deallocuvm_loop.simps by (rule typed_rule | simp)+
next
  case (Suc k)
  show ?case unfolding deallocuvm_loop.simps by (rule typed_upd | rule typed_modify_frame | rule typed_rule Suc | simp)+
qed

lemma typed_deallocuvm [typed_rule]: "typed (deallocuvm d old new)"
  unfolding deallocuvm_def by (rule typed_upd | rule typed_modify_frame | rule typed_rule | simp)+

lemma typed_freevm [typed_rule]: "typed (freevm d)"
  unfolding freevm_def by (rule typed_upd | rule typed_modify_frame | rule typed_rule | simp)+

lemma typed_setupkvm_loop [typed_rule]: "typed (setupkvm_loop ks d)"
proof (induction ks)
  case Nil
  show ?case unfolding setupkvm_loop.simps by (rule typed_rule | simp)+
next
  case (Cons y ys)
  obtain a b c e where y: "y = (a, b, c, e)" by (cases y)
  show ?case unfolding y setupkvm_loop.simps by (rule typed_rule Cons | simp)+
qed

lemma typed_setupkvm [typed_rule]: "typed (setupkvm)"
  unfolding setupkvm_def by (rule typed_upd | rule typed_modify_frame | rule typed_rule | simp)+

lemma typed_switchkvm [typed_rule]: "typed (switchkvm)"
  unfolding switchkvm_def by (rule typed_upd | rule typed_modify_frame | rule typed_rule | simp)+

lemma typed_kvmalloc [typed_rule]: "typed (kvmalloc)"
  unfolding kvmalloc_def by (rule typed_upd | rule typed_modify_frame | rule typed_rule | simp)+

lemma typed_switchuvm [typed_rule]: "typed (switchuvm p)"
  unfolding switchuvm_def by (rule typed_upd | rule typed_modify_frame | rule typed_rule | simp)+

lemma typed_inituvm [typed_rule]: "typed (inituvm d init)"
  unfolding inituvm_def by (rule typed_upd | rule typed_modify_frame | rule typed_rule | simp)+

lemma typed_allocuvm_loop [typed_rule]: "typed (allocuvm_loop fuel d a old new)"
proof (induction fuel arbitrary: a)
  case 0
  show ?case unfolding allocuvm_loop.simps by (rule typed_rule | simp)+
next
  case (Suc k)
  show ?case unfolding allocuvm_loop.simps by (rule typed_upd | rule typed_modify_frame | rule typed_rule Suc | simp)+
qed

lemma typed_allocuvm [typed_rule]: "typed (allocuvm d old new)"
  unfolding allocuvm_def by (rule typed_upd | rule typed_modify_frame | rule typed_rule | simp)+

lemma typed_clearpteu [typed_rule]: "typed (clearpteu d va)"
  unfolding clearpteu_def by (rule typed_upd | rule typed_modify_frame | rule typed_rule | simp)+

lemma typed_copyuvm_loop [typed_rule]: "typed (copyuvm_loop fuel d d2 i sz)"
proof (induction fuel arbitrary: i)
  case 0
  show ?case unfolding copyuvm_loop.simps by (rule typed_rule | simp)+
next
  case (Suc k)
  show ?case unfolding copyuvm_loop.simps by (rule typed_upd | rule typed_modify_frame | rule typed_rule Suc | simp)+
qed

lemma typed_copyuvm [typed_rule]: "typed (copyuvm d sz)"
  unfolding copyuvm_def by (rule typed_upd | rule typed_modify_frame | rule typed_rule | simp)+

lemma typed_uva2ka [typed_rule]: "typed (uva2ka d va)"
  unfolding uva2ka_def by (rule typed_upd | rule typed_modify_frame | rule typed_rule | simp)+

lemma typed_copyout [typed_rule]: "typed (copyout d va buf)"
proof (induction d va buf rule: copyout.induct)
  case (1 d va buf)
  show ?case unfolding copyout.simps [of d va buf]
    by (rule typed_upd | rule typed_modify_frame | rule typed_rule | rule 1 | assumption | simp)+
qed

section \<open>The buffer cache and the log\<close>

lemma typed_devfun [typed_rule]: "yields m Q \<Longrightarrow> yields k Q \<Longrightarrow> yields (case d of NoDev \<Rightarrow> m | ConsoleDev \<Rightarrow> k) Q"
  by (cases d) simp_all

lemma typed_ftype [typed_rule]:
  "yields m Q \<Longrightarrow> yields k Q \<Longrightarrow> yields l Q \<Longrightarrow> yields (case t of FD_NONE \<Rightarrow> m | FD_PIPE \<Rightarrow> k | FD_INODE \<Rightarrow> l) Q"
  by (cases t) simp_all

lemma wt_disk: "wt_kernel s \<Longrightarrow> length d = BSIZE \<Longrightarrow> wt_kernel (s\<lparr>disk := (disk s)(n := d), dwrites := w\<rparr>)"
  by (simp add: wt_kernel_def)

lemma wt_buf_fields: "wt_buf x \<Longrightarrow> length (b_data x) = BSIZE" "length d = BSIZE \<Longrightarrow> wt_buf (x\<lparr>b_data := d\<rparr>)"
  by (simp_all add: wt_buf_def)

lemma typed_iderw:
  assumes "b < NBUF"
  shows "typed (iderw b)"
  unfolding iderw_def
proof (rule typed_bind [OF typed_holdingsleep], rule typed_if, rule typed_panic, rule typed_bind_gets, elim exE conjE)
  fix x s assume x: "wt_kernel s" "x = bufs s ! b"
  then have d: "length (b_data x) = BSIZE" using wt_kernelD(7) [OF x(1) assms] by (simp add: wt_buf_def)
  have w: "typed (modify (\<lambda>s. upd_buf b (\<lambda>x. x\<lparr>b_dirty := False, b_valid := True\<rparr>)
      (s\<lparr>disk := (disk s)(b_blockno x := b_data x), dwrites := dwrites s @ [(b_blockno x, b_data x)]\<rparr>)))"
    by (rule typed_modify, rule wt_upd_buf, rule wt_disk) (simp_all add: d)
  have "wt_buf (y\<lparr>b_data := disk s (b_blockno y), b_valid := True\<rparr>)" if "wt_kernel s" for y s
    using wt_kernelD(5) [OF that] by (simp add: wt_buf_def)
  then have r: "typed (modify (\<lambda>s. upd_buf b (\<lambda>x. x\<lparr>b_data := disk s (b_blockno x), b_valid := True\<rparr>) s))"
    by (intro typed_modify wt_upd_buf)
  show "typed (if b_valid x \<and> \<not> b_dirty x then panic ''iderw: nothing to do''
     else if b_dev x \<noteq> 1 then panic ''iderw: request not for disk 1'' else
     bindM (gets disksize) (\<lambda>size.
     if b_blockno x \<ge> size then panic ''iderw: block out of range'' else
     if b_dirty x
     then modify (\<lambda>s. upd_buf b (\<lambda>x. x\<lparr>b_dirty := False, b_valid := True\<rparr>)
            (s\<lparr>disk := (disk s)(b_blockno x := b_data x), dwrites := dwrites s @ [(b_blockno x, b_data x)]\<rparr>))
     else modify (\<lambda>s. upd_buf b (\<lambda>x. x\<lparr>b_data := disk s (b_blockno x), b_valid := True\<rparr>) s)))"
    by (rule w r | rule typed_rule)+
qed

lemma find_lru:
  assumes "wt_kernel s"
  shows "bget_cached dev n s = Some b \<Longrightarrow> b < NBUF" "bget_unused s = Some b \<Longrightarrow> b < NBUF"
proof -
  have "b < NBUF" if "b \<in> set (lru s)" for b using wt_kernelD(8) [OF assms] that by (simp add: list_all_iff)
  then show "bget_cached dev n s = Some b \<Longrightarrow> b < NBUF" "bget_unused s = Some b \<Longrightarrow> b < NBUF"
    unfolding bget_cached_def bget_unused_def find_Some_iff by (metis nth_mem, metis nth_mem set_rev)
qed

lemma yields_bget: "yields (bget dev n) (\<lambda>b. b < NBUF)"
  unfolding bget_def
proof (rule typed_seqM [OF typed_acquire], rule typed_bind_gets, elim exE conjE, rule typed_option, rule typed_bind_gets, elim exE conjE,
    rule typed_option, rule typed_panic)
  fix c b s assume "wt_kernel s" "c = bget_cached dev n s" "c = Some b"
  then have b: "b < NBUF" using find_lru(1) by metis
  show "yields (seqM (modify (upd_buf b (\<lambda>x. x\<lparr>b_refcnt := b_refcnt x + 1\<rparr>)))
      (seqM (release BcacheLock) (seqM (acquiresleep (BufLock b)) (ret b)))) (\<lambda>b. b < NBUF)"
    by (rule typed_upd | rule typed_rule | rule b | simp)+
next
  fix u b s assume "wt_kernel s" "u = bget_unused s" "u = Some b"
  then have b: "b < NBUF" using find_lru(2) by metis
  show "yields (seqM (modify (upd_buf b (\<lambda>x. x\<lparr>b_dev := dev, b_blockno := n, b_valid := False, b_dirty := False, b_refcnt := 1\<rparr>)))
      (seqM (release BcacheLock) (seqM (acquiresleep (BufLock b)) (ret b)))) (\<lambda>b. b < NBUF)"
    by (rule typed_upd | rule typed_rule | rule b | simp)+
qed

lemma yields_bread: "yields (bread dev n) (\<lambda>b. b < NBUF)"
  unfolding bread_def
  by (rule typed_bindM [OF yields_bget], rule typed_bind [OF typed_gets_any], rule typed_seqM, rule typed_whenM, rule typed_iderw,
      assumption, rule typed_ret, assumption)

lemma typed_bwrite: "b < NBUF \<Longrightarrow> typed (bwrite b)"
  unfolding bwrite_def by (rule typed_upd typed_iderw | rule typed_rule | assumption | simp)+

lemma wt_lru: "wt_kernel s \<Longrightarrow> b < NBUF \<Longrightarrow> wt_kernel (s\<lparr>lru := b # remove1 b (lru s)\<rparr>)"
  using notin_set_remove1 by (fastforce simp: wt_kernel_def list_all_iff)

lemma typed_brelse: "b < NBUF \<Longrightarrow> typed (brelse b)"
  unfolding brelse_def
  by (rule typed_upd | rule typed_modify, rule wt_lru, assumption, assumption | rule typed_rule | simp)+

lemma typed_bread [typed_rule]: "typed (bread dev n)"
  by (rule typed_any [OF yields_bread])

lemma typed_bind_bread: "(\<And>b. b < NBUF \<Longrightarrow> yields (k b) R) \<Longrightarrow> yields (bindM (bread dev n) k) R"
  by (rule typed_bindM [OF yields_bread])

lemma typed_bind_data:
  assumes "b < NBUF" "\<And>d. length d = BSIZE \<Longrightarrow> yields (k d) R"
  shows "yields (bindM (buf_data b) k) R"
  unfolding buf_data_def
  by (rule typed_bind_gets, elim exE conjE, rule assms(2)) (use wt_kernelD(7) [OF _ assms(1)] in \<open>auto simp: wt_buf_def\<close>)

lemma typed_set_data: "length d = BSIZE \<Longrightarrow> typed (set_data b d)"
  unfolding set_data_def by (rule typed_upd, rule wt_buf_fields)

lemmas typed_bio = typed_bind_bread typed_bind_data typed_set_data typed_bwrite typed_brelse

lemma length_bmap [simp]: "length (bmap_set d i) = length d" "length (bmap_clear d i) = length d"
  by (simp_all add: bmap_set_def bmap_clear_def)

lemma typed_binit [typed_rule]: "typed (binit)"
  unfolding binit_def
proof (rule typed_foreach, rule typed_seqM, rule typed_initsleeplock, rule typed_modify)
  fix b s assume "b \<in> set [0..<NBUF]" "wt_kernel s"
  then show "wt_kernel (s\<lparr>lru := b # lru s\<rparr>)" by (simp add: wt_kernel_def)
qed

lemma typed_readsb [typed_rule]: "typed (readsb dev)"
  unfolding readsb_def by (rule typed_upd typed_bio | rule typed_modify_frame | rule typed_rule | assumption | simp)+

lemma typed_log_block [typed_rule]: "typed (log_block i)"
  unfolding log_block_def by (rule typed_rule | simp)+

lemma typed_set_log_block [typed_rule]: "typed (set_log_block i v)"
  unfolding set_log_block_def by (rule typed_upd | rule typed_rule | simp)+

lemma typed_install_trans [typed_rule]: "typed (install_trans)"
  unfolding install_trans_def by (rule typed_upd typed_bio | rule typed_rule | assumption | simp)+

lemma typed_read_head [typed_rule]: "typed (read_head)"
  unfolding read_head_def by (rule typed_upd typed_bio | rule typed_rule | assumption | simp)+

lemma typed_write_head [typed_rule]: "typed (write_head)"
  unfolding write_head_def by (rule typed_upd typed_bio | rule typed_rule | assumption | simp)+

lemma typed_recover_from_log [typed_rule]: "typed (recover_from_log)"
  unfolding recover_from_log_def by (rule typed_upd | rule typed_rule | simp)+

lemma typed_initlog [typed_rule]: "typed (initlog dev)"
  unfolding initlog_def by (rule typed_upd | rule typed_rule | simp)+

lemma typed_begin_op [typed_rule]: "typed (begin_op)"
  unfolding begin_op_def by (rule typed_upd | rule typed_rule | simp)+

lemma typed_write_log [typed_rule]: "typed (write_log)"
  unfolding write_log_def by (rule typed_upd typed_bio | rule typed_rule | assumption | simp)+

lemma typed_commit [typed_rule]: "typed (commit)"
  unfolding commit_def by (rule typed_upd | rule typed_rule | simp)+

lemma typed_end_op [typed_rule]: "typed (end_op)"
  unfolding end_op_def by (rule typed_upd | rule typed_rule | simp)+

lemma typed_log_write [typed_rule]: "typed (log_write b)"
  unfolding log_write_def by (rule typed_upd | rule typed_rule | simp add: wt_buf_def)+

section \<open>Blocks and inodes\<close>

lemma typed_bzero [typed_rule]: "typed (bzero dev b)"
  unfolding bzero_def by (rule typed_upd typed_bio | rule typed_rule | assumption | simp)+

lemma typed_balloc_loop [typed_rule]: "typed (balloc_loop dev n bs)"
proof (induction bs)
  case Nil
  show ?case unfolding balloc_loop.simps by (rule typed_panic)
next
  case (Cons y ys)
  show ?case unfolding balloc_loop.simps by (rule typed_upd typed_bio | rule typed_rule Cons | assumption | simp)+
qed

lemma typed_balloc [typed_rule]: "typed (balloc dev)"
  unfolding balloc_def by (rule typed_rule | simp)+

lemma typed_bfree [typed_rule]: "typed (bfree dev b)"
  unfolding bfree_def by (rule typed_upd typed_bio | rule typed_rule | assumption | simp)+

lemma yields_iget: "yields (iget dev i) (\<lambda>ip. ip < NINODE)"
  unfolding iget_def
proof (rule typed_seqM [OF typed_acquire], rule typed_bind_gets, elim exE conjE)
  fix ic s assume "wt_kernel s" "ic = icache s"
  then have "length ic = NINODE" by (simp add: wt_kernelD(10))
  then have l: "ip < NINODE" if "find P [0..<length ic] = Some ip" for P ip using that by (auto simp: find_Some_iff)
  show "yields (case find (\<lambda>k. i_ref (ic ! k) > 0 \<and> i_dev (ic ! k) = dev \<and> i_inum (ic ! k) = i) [0..<length ic] of
       Some ip \<Rightarrow> seqM (modify (upd_inode ip (\<lambda>x. x\<lparr>i_ref := i_ref x + 1\<rparr>))) (seqM (release IcacheLock) (ret ip))
     | None \<Rightarrow> (case find (\<lambda>i. i_ref (ic ! i) = 0) [0..<length ic] of
           None \<Rightarrow> panic ''iget: no inodes''
         | Some ip \<Rightarrow>
             seqM (modify (upd_inode ip (\<lambda>x. x\<lparr>i_dev := dev, i_inum := i, i_ref := 1, i_valid := False\<rparr>)))
            (seqM (release IcacheLock) (ret ip)))) (\<lambda>ip. ip < NINODE)"
    by (rule typed_upd | rule typed_rule | erule l | simp add: wt_inode_def)+
qed

lemma typed_iget [typed_rule]: "typed (iget dev i)"
  by (rule typed_any [OF yields_iget])

lemma yields_ialloc_loop: "yields (ialloc_loop dev ty bs) (\<lambda>ip. ip < NINODE)"
proof (induction bs)
  case Nil
  show ?case unfolding ialloc_loop.simps by (rule typed_panic)
next
  case (Cons y ys)
  show ?case unfolding ialloc_loop.simps
    by (rule typed_upd typed_bio | rule yields_iget Cons | rule typed_rule | assumption | simp)+
qed

lemma yields_ialloc: "yields (ialloc dev ty) (\<lambda>ip. ip < NINODE)"
  unfolding ialloc_def by (rule typed_bind, rule typed_gets_any, rule yields_ialloc_loop)

lemma typed_iupdate [typed_rule]: "typed (iupdate ip)"
  unfolding iupdate_def by (rule typed_upd typed_bio | rule typed_rule | assumption | simp)+

lemma yields_idup: "ip < NINODE \<Longrightarrow> yields (idup ip) (\<lambda>ip. ip < NINODE)"
  unfolding idup_def by (rule typed_upd | rule typed_rule | simp add: wt_inode_def)+

lemma length_d_addrs [simp]: "length (d_addrs (get_dinode d k)) = NDIRECT + 1"
  by (simp add: get_dinode_def)

lemma typed_ilock [typed_rule]: "typed (ilock ip)"
  unfolding ilock_def by (rule typed_upd typed_bio | rule typed_rule | assumption | simp add: wt_inode_def)+

lemma typed_iunlock [typed_rule]: "typed (iunlock ip)"
  unfolding iunlock_def by (rule typed_rule | simp)+

lemma typed_itrunc [typed_rule]: "typed (itrunc ip)"
  unfolding itrunc_def by (rule typed_upd typed_bio | rule typed_rule | assumption | simp add: wt_inode_def)+

lemma typed_iput [typed_rule]: "typed (iput ip)"
  unfolding iput_def by (rule typed_upd | rule typed_rule | simp add: wt_inode_def)+

lemma typed_iunlockput [typed_rule]: "typed (iunlockput ip)"
  unfolding iunlockput_def by (rule typed_rule | simp)+

lemma typed_bmap [typed_rule]: "typed (bmap ip bn)"
  unfolding bmap_def by (rule typed_upd typed_bio | rule typed_rule | assumption | simp add: wt_inode_def)+

lemma typed_iinit [typed_rule]: "typed (iinit dev)"
  unfolding iinit_def by (rule typed_upd | rule typed_modify_frame | rule typed_rule | simp)+

lemma typed_stati [typed_rule]: "typed (stati ip)"
  unfolding stati_def by (rule typed_rule | simp)+

section \<open>Console input and file contents\<close>

lemma typed_kill_line [typed_rule]: "typed (kill_line n)"
proof (induction n)
  case 0
  show ?case unfolding kill_line.simps by (rule typed_rule | simp)+
next
  case (Suc k)
  show ?case unfolding kill_line.simps by (rule typed_upd | rule typed_modify_frame | rule typed_rule Suc | simp)+
qed

lemma typed_console_char [typed_rule]: "typed (console_char c)"
  unfolding console_char_def by (rule typed_upd typed_bio | rule typed_modify_frame | rule typed_rule | assumption | simp)+

lemma typed_procdump [typed_rule]: "typed (procdump pcs)"
  unfolding procdump_def by (rule typed_upd typed_bio | rule typed_modify_frame | rule typed_rule | assumption | simp)+

lemma typed_consoleintr [typed_rule]: "typed (consoleintr pcs cs)"
  unfolding consoleintr_def by (rule typed_upd typed_bio | rule typed_modify_frame | rule typed_rule | assumption | simp)+

lemma typed_consoleread_loop [typed_rule]: "typed (consoleread_loop n t)"
proof (induction n)
  case 0
  show ?case unfolding consoleread_loop.simps by (rule typed_rule | simp)+
next
  case (Suc k)
  show ?case unfolding consoleread_loop.simps by (rule typed_upd typed_bio | rule typed_modify_frame | rule typed_rule Suc | simp)+
qed

lemma typed_consoleread [typed_rule]: "typed (consoleread ip n)"
  unfolding consoleread_def by (rule typed_upd typed_bio | rule typed_modify_frame | rule typed_rule | assumption | simp)+

lemma typed_consolewrite [typed_rule]: "typed (consolewrite ip bs)"
  unfolding consolewrite_def by (rule typed_upd typed_bio | rule typed_modify_frame | rule typed_rule | assumption | simp)+

lemma typed_dev_driver [typed_rule]: "typed (dev_driver m)"
  unfolding dev_driver_def by (rule typed_upd typed_bio | rule typed_modify_frame | rule typed_rule | assumption | simp)+

lemma typed_readi_loop [typed_rule]: "typed (readi_loop ip off n)"
proof (induction ip off n rule: readi_loop.induct)
  case (1 ip off n)
  show ?case unfolding readi_loop.simps [of ip off n]
    by (rule typed_upd typed_bio | rule typed_modify_frame | rule typed_rule | rule 1 | assumption | simp)+
qed

lemma typed_readi [typed_rule]: "typed (readi ip off n)"
  unfolding readi_def by (rule typed_upd typed_bio | rule typed_modify_frame | rule typed_rule | assumption | simp)+

lemma typed_writei_loop [typed_rule]: "typed (writei_loop ip off src)"
proof (induction ip off src rule: writei_loop.induct)
  case (1 ip off src)
  show ?case unfolding writei_loop.simps [of ip off src]
    by (rule typed_upd typed_bio | rule typed_modify_frame | rule typed_rule | rule 1 | assumption | simp)+
qed

lemma typed_writei [typed_rule]: "typed (writei ip src off n)"
  unfolding writei_def by (rule typed_upd typed_bio | rule typed_modify_frame | rule typed_rule | assumption | simp)+

section \<open>Directories and path names\<close>

lemma yields_dirlookup_loop: "yields (dirlookup_loop dp name offs) (\<lambda>r. ptr_in NINODE (map_option fst r))"
proof (induction offs)
  case Nil
  show ?case unfolding dirlookup_loop.simps by (rule typed_ret) simp
next
  case (Cons y ys)
  show ?case unfolding dirlookup_loop.simps
    by (rule typed_bindM [OF yields_iget] | rule typed_rule Cons | simp)+
qed

lemma yields_dirlookup: "yields (dirlookup dp name) (\<lambda>r. ptr_in NINODE (map_option fst r))"
  unfolding dirlookup_def by (rule yields_dirlookup_loop | rule typed_rule | simp)+

lemma typed_dirlookup [typed_rule]: "typed (dirlookup dp name)"
  by (rule typed_any [OF yields_dirlookup])

lemma typed_dirlink_loop [typed_rule]: "typed (dirlink_loop dp offs e)"
proof (induction offs)
  case Nil
  show ?case unfolding dirlink_loop.simps by (rule typed_rule | simp)+
next
  case (Cons y ys)
  show ?case unfolding dirlink_loop.simps by (rule typed_upd typed_bio | rule typed_modify_frame | rule typed_rule Cons | simp)+
qed

lemma typed_dirlink [typed_rule]: "typed (dirlink dp name i)"
  unfolding dirlink_def by (rule typed_upd typed_bio | rule typed_modify_frame | rule typed_rule | assumption | simp)+

lemma yields_namex_loop: "ip < NINODE \<Longrightarrow> yields (namex_loop ip path parent name) (\<lambda>r. ptr_in NINODE (fst r))"
proof (induction ip path parent name rule: namex_loop.induct)
  case (1 ip path parent name)
  show ?case
  proof (cases "skipelem path name")
    case None
    show ?thesis unfolding namex_loop.simps [of ip] None option.case by (rule typed_rule | simp add: 1(2))+
  next
    case (Some r)
    obtain path' name' where r: "r = (path', name')" by (cases r)
    show ?thesis unfolding namex_loop.simps [of ip] Some r option.case prod.case
      by (rule typed_bindM [OF yields_dirlookup] | rule typed_rule | rule 1(1) [OF _ refl] | assumption | simp add: Some r 1(2))+
  qed
qed

lemma yields_cwd: "yields (bindM curproc (\<lambda>p. bindM (gets (\<lambda>s. p_cwd (ptable s ! p))) (\<lambda>cwd. bindM (deref cwd) idup))) (\<lambda>ip. ip < NINODE)"
proof (rule typed_bind_curproc, rule typed_bind_gets, elim exE conjE, rule typed_bindM)
  fix p c s assume "p < NPROC" "wt_kernel s" "c = p_cwd (ptable s ! p)"
  then have "ptr_in NINODE c" using wt_kernelD(2) by (simp add: wt_proc_def)
  then show "yields (deref c) (\<lambda>ip. ip < NINODE)" by (intro typed_deref) simp
qed (rule yields_idup)

lemma yields_namex: "yields (namex path parent name) (\<lambda>r. ptr_in NINODE (fst r))"
  unfolding namex_def
  by (rule typed_bindM [of _ "\<lambda>ip. ip < NINODE"], rule typed_if, rule yields_iget, rule yields_cwd, rule yields_namex_loop)

lemma yields_namei: "yields (namei path) (ptr_in NINODE)"
  unfolding namei_def by (rule typed_bindM [OF yields_namex], rule typed_prod, rule typed_ret, simp)

lemma yields_nameiparent: "yields (nameiparent path) (\<lambda>r. ptr_in NINODE (fst r))"
  unfolding nameiparent_def by (rule yields_namex)

lemma typed_namei [typed_rule]: "typed (namei path)" "typed (nameiparent path)"
  by (rule typed_any [OF yields_namei], rule typed_any [OF yields_nameiparent])

section \<open>Pipes and open files\<close>

lemma length_pipe [simp]: "length (pi_data (pipe_put x b)) = length (pi_data x)" "pi_data (pipe_get x) = pi_data x"
  by (simp_all add: pipe_put_def pipe_get_def)

lemma typed_curproc_killed [typed_rule]: "typed (curproc_killed)"
  unfolding curproc_killed_def by (rule typed_upd typed_bio | rule typed_modify_frame | rule typed_rule | assumption | simp)+

lemma typed_pipeclose [typed_rule]: "typed (pipeclose p w)"
  unfolding pipeclose_def by (rule typed_upd typed_bio | rule typed_modify_frame | rule typed_rule | assumption | simp)+

lemma typed_pipewrite_loop: "(\<And>i n. typed (rd i n)) \<Longrightarrow> typed (pipewrite_loop p rd i n)"
proof (induction n arbitrary: i)
  case 0
  show ?case unfolding pipewrite_loop.simps by (rule typed_ret) simp
next
  case (Suc n)
  show ?case unfolding pipewrite_loop.simps by (rule typed_upd | rule typed_rule Suc | simp)+
qed

lemma typed_pipewrite: "(\<And>i n. typed (rd i n)) \<Longrightarrow> typed (pipewrite p rd n)"
  unfolding pipewrite_def by (rule typed_pipewrite_loop | rule typed_rule | simp)+

lemma typed_piperead_loop [typed_rule]: "typed (piperead_loop p n)"
proof (induction n)
  case 0
  show ?case unfolding piperead_loop.simps by (rule typed_rule | simp)+
next
  case (Suc k)
  show ?case unfolding piperead_loop.simps by (rule typed_upd typed_bio | rule typed_modify_frame | rule typed_rule Suc | simp)+
qed

lemma typed_piperead [typed_rule]: "typed (piperead p n)"
  unfolding piperead_def by (rule typed_upd typed_bio | rule typed_modify_frame | rule typed_rule | assumption | simp)+

lemma yields_filealloc: "yields filealloc (ptr_in NFILE)"
  unfolding filealloc_def
proof (rule typed_seqM [OF typed_acquire], rule typed_bind_gets, elim exE conjE)
  fix ft s assume "wt_kernel s" "ft = ftable s"
  then have l: "f < NFILE" if "find P [0..<length ft] = Some f" for P f using that by (auto simp: find_Some_iff wt_kernelD(12))
  show "yields (case find (\<lambda>i. f_ref (ft ! i) = 0) [0..<length ft] of
       Some f \<Rightarrow> seqM (modify (upd_file f (\<lambda>x. x\<lparr>f_ref := 1\<rparr>))) (seqM (release FtableLock) (ret (Some f)))
     | None \<Rightarrow> seqM (release FtableLock) (ret None)) (ptr_in NFILE)"
    by (rule typed_upd | rule typed_rule | simp add: wt_file_def l)+
qed

lemma typed_filealloc [typed_rule]: "typed filealloc"
  by (rule typed_any [OF yields_filealloc])

lemma yields_filedup: "ptr_in NFILE f \<Longrightarrow> yields (filedup f) (ptr_in NFILE)"
  unfolding filedup_def
  by (rule typed_bindM [of "deref f" "\<lambda>x. f = Some x"], rule typed_deref, assumption | rule typed_upd | rule typed_rule | simp add: wt_file_def)+

lemma typed_filedup [typed_rule]: "typed (filedup f)"
  unfolding filedup_def by (rule typed_upd | rule typed_modify_frame | rule typed_rule | simp add: wt_file_def)+

lemma typed_fileclose [typed_rule]: "typed (fileclose f)"
  unfolding fileclose_def by (rule typed_upd | rule typed_modify_frame | rule typed_rule | simp add: wt_file_def)+

lemma typed_filestat [typed_rule]: "typed (filestat f)"
  unfolding filestat_def by (rule typed_upd typed_bio | rule typed_modify_frame | rule typed_rule | assumption | simp)+

lemma typed_fileread [typed_rule]: "typed (fileread f n)"
  unfolding fileread_def by (rule typed_upd | rule typed_modify_frame | rule typed_rule | simp add: wt_file_def)+

lemma typed_mmap_read [typed_rule]: "typed (mmap_read f n)"
  unfolding mmap_read_def by (rule typed_upd | rule typed_modify_frame | rule typed_rule | simp add: wt_file_def)+

lemma typed_pipealloc_bad [typed_rule]: "typed (pipealloc_bad p f g)"
  unfolding pipealloc_bad_def by (rule typed_upd typed_bio | rule typed_modify_frame | rule typed_rule | assumption | simp)+

lemma typed_filewrite_loop: "(\<And>i n. typed (rd i n)) \<Longrightarrow> typed (filewrite_loop f rd i n)"
proof (induction f rd i n rule: filewrite_loop.induct)
  case (1 f rd i n)
  show ?case unfolding filewrite_loop.simps [of f rd i n]
    by (rule typed_upd | rule 1(2) | rule typed_rule | rule 1(1) | assumption | rule refl | simp add: wt_file_def)+
qed

lemma typed_filewrite: "(\<And>i n. typed (rd i n)) \<Longrightarrow> typed (filewrite f rd n)"
  unfolding filewrite_def by (rule typed_pipewrite typed_filewrite_loop | rule typed_rule | simp)+

lemma typed_mmap_write:
  "(\<And>i n. typed (rd i n)) \<Longrightarrow> typed (mmap_write f rd n)" "(\<And>i n. typed (rd i n)) \<Longrightarrow> typed (mmap_write2 f rd n)"
  unfolding mmap_write_def mmap_write2_def by (rule typed_upd typed_filewrite | rule typed_rule | simp add: wt_file_def)+

lemma yields_pipealloc: "yields pipealloc (\<lambda>r. case r of None \<Rightarrow> True | Some (f, g) \<Rightarrow> f < NFILE \<and> g < NFILE)"
proof -
  have bad: "yields (pipealloc_bad p f g) (\<lambda>r. r = None)" for p f g
    unfolding pipealloc_bad_def by (rule typed_rule | simp)+
  have n: "yields (pipealloc_bad p f g) (\<lambda>r. case r of None \<Rightarrow> True | Some (f, g) \<Rightarrow> f < NFILE \<and> g < NFILE)" for p f g
    by (rule yields_weaken [OF bad]) simp
  show ?thesis unfolding pipealloc_def
    by (rule typed_bindM [OF yields_filealloc] | rule n | rule typed_upd | rule typed_rule | simp add: wt_file_def)+
qed

lemma typed_pipealloc [typed_rule]: "typed pipealloc"
  by (rule typed_any [OF yields_pipealloc])

section \<open>System call arguments\<close>

lemma typed_uload [typed_rule]: "typed (uload va)"
  unfolding uload_def by (rule typed_upd | rule typed_modify_frame | rule typed_rule | simp)+

lemma typed_ustore [typed_rule]: "typed (ustore va b)"
  unfolding ustore_def by (rule typed_upd | rule typed_modify_frame | rule typed_rule | simp)+

lemma typed_uread [typed_rule]: "typed (uread va n)"
proof (induction n arbitrary: va)
  case 0
  show ?case unfolding uread.simps by (rule typed_rule | simp)+
next
  case (Suc k)
  show ?case unfolding uread.simps by (rule typed_upd | rule typed_modify_frame | rule typed_rule Suc | simp)+
qed

lemma typed_uwrite [typed_rule]: "typed (uwrite va bs)"
proof (induction bs arbitrary: va)
  case Nil
  show ?case unfolding uwrite.simps by (rule typed_rule | simp)+
next
  case (Cons y ys)
  show ?case unfolding uwrite.simps by (rule typed_upd | rule typed_modify_frame | rule typed_rule Cons | simp)+
qed

lemma typed_usrc [typed_rule]: "typed (usrc va i n)"
  unfolding usrc_def by (rule typed_upd | rule typed_modify_frame | rule typed_rule | simp)+

lemma typed_fetchint [typed_rule]: "typed (fetchint a)"
  unfolding fetchint_def by (rule typed_upd | rule typed_modify_frame | rule typed_rule | simp)+

lemma typed_fetchstr_loop [typed_rule]: "typed (fetchstr_loop n a)"
proof (induction n arbitrary: a)
  case 0
  show ?case unfolding fetchstr_loop.simps by (rule typed_rule | simp)+
next
  case (Suc k)
  show ?case unfolding fetchstr_loop.simps by (rule typed_upd | rule typed_modify_frame | rule typed_rule Suc | simp)+
qed

lemma typed_fetchstr [typed_rule]: "typed (fetchstr a)"
  unfolding fetchstr_def by (rule typed_upd | rule typed_modify_frame | rule typed_rule | simp)+

lemma typed_argint [typed_rule]: "typed (argint n)"
  unfolding argint_def by (rule typed_upd | rule typed_modify_frame | rule typed_rule | simp)+

lemma typed_argptr [typed_rule]: "typed (argptr n k)"
  unfolding argptr_def by (rule typed_upd | rule typed_modify_frame | rule typed_rule | simp)+

lemma typed_argstr [typed_rule]: "typed (argstr n)"
  unfolding argstr_def by (rule typed_upd | rule typed_modify_frame | rule typed_rule | simp)+

lemma yields_argfd: "yields (argfd n) (\<lambda>r. ptr_in NFILE (map_option snd r))"
  unfolding argfd_def
proof (rule typed_bind [OF typed_argint], rule typed_option, rule typed_ret, simp, rule typed_if, rule typed_ret, simp,
    rule typed_bind_curproc, rule typed_bind_gets, elim exE conjE)
  fix w p fo s
  assume "\<not> (sint w < 0 \<or> sint w \<ge> int NOFILE)" "p < NPROC" "wt_kernel s" "fo = p_ofile (ptable s ! p) ! nat (sint (w :: uint))"
  then have "ptr_in NFILE fo" using wt_kernelD(2) [of s p] by (auto simp: wt_proc_def list_all_length not_le)
  then show "yields (case fo of None \<Rightarrow> ret None | Some f \<Rightarrow> ret (Some (nat (sint w), f))) (\<lambda>r. ptr_in NFILE (map_option snd r))"
    by (intro typed_option typed_ret) simp_all
qed

lemma typed_argfd [typed_rule]: "typed (argfd n)"
  by (rule typed_any [OF yields_argfd])

lemma wt_ofile: "wt_proc q \<Longrightarrow> ptr_in NFILE f \<Longrightarrow> wt_proc (q\<lparr>p_ofile := (p_ofile q)[i := f]\<rparr>)"
  by (simp add: wt_proc_def list_all_update)

lemma wt_desc_fields [simp, typed_simp]:
  "wt_desc (md\<lparr>md_length := y1\<rparr>) = wt_desc md" "wt_desc (md\<lparr>md_virtualAddress := y2\<rparr>) = wt_desc md"
  "wt_desc (md\<lparr>md_flags := y3\<rparr>) = wt_desc md" "wt_desc (md\<lparr>md_prot := y4\<rparr>) = wt_desc md" "wt_desc (md\<lparr>md_dirty := y5\<rparr>) = wt_desc md"
  "wt_desc (md\<lparr>md_shared := y6\<rparr>) = wt_desc md" "wt_desc (md\<lparr>md_valid := y7\<rparr>) = wt_desc md"
  "wt_desc (md\<lparr>md_guard_page := y8\<rparr>) = wt_desc md" "wt_desc (md\<lparr>md_already_alloced := y9\<rparr>) = wt_desc md"
  "wt_desc (md\<lparr>md_page := y10\<rparr>) = wt_desc md" "wt_desc (md\<lparr>md_ref := y11\<rparr>) = wt_desc md"
  "wt_desc (md\<lparr>md_isChildOfParent := y12\<rparr>) = wt_desc md" "wt_desc (md\<lparr>md_f := f\<rparr>) \<longleftrightarrow> ptr_in NFILE f"
  by (simp_all add: wt_desc_def)

lemma typed_fdalloc: "f < NFILE \<Longrightarrow> typed (fdalloc f)"
  unfolding fdalloc_def by (rule typed_upd | rule typed_rule | simp add: wt_ofile)+

section \<open>Mappings\<close>

lemma typed_get_md [typed_rule]: "typed (get_md p i)"
  unfolding get_md_def by (rule typed_upd | rule typed_modify_frame | rule typed_rule | simp)+

lemma typed_munmap_free [typed_rule]: "typed (munmap_free p i)"
  unfolding munmap_free_def by (rule typed_upd | rule typed_modify_frame | rule typed_rule | simp)+

lemma typed_exit_child [typed_rule]: "typed (exit_child cp p)"
  unfolding exit_child_def
proof (rule typed_bind [OF typed_gets_any], rule typed_whenM, rule typed_bind_gets, elim exE conjE, rule typed_seqM)
  fix init s assume "wt_kernel s" "init = initproc s"
  then have "ptr_in NPROC init" by (simp add: wt_kernelD(4))
  then show "typed (modify (upd_proc p (\<lambda>q. q\<lparr>p_parent := init\<rparr>)))" by (intro typed_upd_proc) (simp add: wt_proc_def)
qed (rule typed_rule)+

lemma typed_exit_mapping [typed_rule]: "typed (exit_mapping cp i)"
  unfolding exit_mapping_def by (rule typed_filewrite | rule typed_upd | rule typed_modify_frame | rule typed_rule | simp)+

lemma typed_kexit [typed_rule]: "typed kexit"
  unfolding kexit_def by (rule typed_upd | rule typed_modify_frame | rule typed_rule | simp add: wt_proc_def list_all_update)+

lemma typed_fill_from_file [typed_rule]: "typed (fill_from_file p i m)"
  unfolding fill_from_file_def by (rule typed_upd | rule typed_modify_frame | rule typed_rule | simp)+

lemma typed_allocatePageNonGuard [typed_rule]: "typed (allocatePageNonGuard p i a)"
  unfolding allocatePageNonGuard_def by (rule typed_upd | rule typed_modify_frame | rule typed_rule | simp)+

lemma typed_allocatePageGuard [typed_rule]: "typed (allocatePageGuard p i a)"
  unfolding allocatePageGuard_def by (rule typed_upd | rule typed_modify_frame | rule typed_rule | simp)+

lemma typed_find_desc [typed_rule]: "typed (find_desc mds a xs)"
proof (induction xs)
  case Nil
  show ?case unfolding find_desc.simps by (rule typed_rule | simp)+
next
  case (Cons y ys)
  show ?case unfolding find_desc.simps by (rule typed_upd | rule typed_modify_frame | rule typed_rule Cons | simp)+
qed

lemma typed_page_fault [typed_rule]: "typed (page_fault a)"
  unfolding page_fault_def by (rule typed_upd | rule typed_modify_frame | rule typed_rule | simp)+

lemma typed_get_physical_page [typed_rule]: "typed (get_physical_page p a)"
  unfolding get_physical_page_def by (rule typed_upd | rule typed_modify_frame | rule typed_rule | simp)+

lemma typed_deep_copy:
  assumes "p < NPROC" "i < PAGE_LIMIT"
  shows "typed (deep_copy p c i)"
  unfolding deep_copy_def get_md_def
proof (rule typed_bind_gets, elim exE conjE)
  fix old s assume "wt_kernel s" "old = p_mmaps (ptable s ! p) ! i"
  then have f: "ptr_in NFILE (md_f old)"
    using wt_kernelD(2) [of s p] assms by (simp add: wt_proc_def wt_desc_def list_all_length)
  show "typed (seqM (modify (upd_md c i (\<lambda>md. md\<lparr>md_length := md_length old, md_virtualAddress := md_virtualAddress old,
       md_flags := md_flags old, md_prot := md_prot old, md_dirty := md_dirty old, md_shared := md_shared old,
       md_valid := md_valid old, md_guard_page := md_guard_page old\<rparr>)))
    (bindM (filedup (md_f old)) (\<lambda>f.
     modify (upd_md c i (\<lambda>md. md\<lparr>md_f := f, md_already_alloced := md_already_alloced old\<rparr>)))))"
    by (rule typed_bindM [OF yields_filedup [OF f]] | rule typed_upd | rule typed_rule | simp)+
qed

lemma typed_copy_map: "p < NPROC \<Longrightarrow> i < PAGE_LIMIT \<Longrightarrow> typed (copy_map p c i)"
  unfolding copy_map_def copy_shared_def copy_private_def
  by (rule typed_upd typed_deep_copy | rule typed_modify_frame | rule typed_rule | assumption | simp)+

lemma typed_copy_maps: "p < NPROC \<Longrightarrow> typed (copy_maps p c)"
  unfolding copy_maps_def by (rule typed_copy_map | rule typed_rule | simp)+

lemma typed_munmap_page [typed_rule]: "typed (munmap_page mds a xs acc)"
proof (induction xs arbitrary: acc)
  case Nil
  show ?case unfolding munmap_page.simps by (rule typed_rule | simp)+
next
  case (Cons y ys)
  show ?case unfolding munmap_page.simps by (rule typed_upd | rule typed_modify_frame | rule typed_rule Cons | simp)+
qed

lemma typed_munmap_scan [typed_rule]: "typed (munmap_scan mds a e acc)"
proof (induction mds a e acc rule: munmap_scan.induct)
  case (1 mds a e acc)
  show ?case unfolding munmap_scan.simps [of mds a e acc]
    by (rule typed_upd | rule typed_modify_frame | rule typed_rule | rule 1 | assumption | simp)+
qed

lemma typed_munmap_write [typed_rule]: "typed (munmap_write p i)"
  unfolding munmap_write_def by (rule typed_filewrite | rule typed_upd | rule typed_modify_frame | rule typed_rule | simp)+

lemma typed_sys_munmap [typed_rule]: "typed (sys_munmap)"
  unfolding sys_munmap_def by (rule typed_upd | rule typed_modify_frame | rule typed_rule | simp add: wt_file_def)+

lemma typed_count_pages [typed_rule]: "typed (count_pages j len n)"
proof (induction j len n rule: count_pages.induct)
  case (1 j len n)
  show ?case unfolding count_pages.simps [of j len n]
    by (rule typed_upd | rule typed_modify_frame | rule typed_rule | rule 1 | assumption | simp)+
qed

lemma typed_fixed_conflict [typed_rule]: "typed (fixed_conflict mds a xs)"
proof (induction xs)
  case Nil
  show ?case unfolding fixed_conflict.simps by (rule typed_rule | simp)+
next
  case (Cons y ys)
  show ?case unfolding fixed_conflict.simps by (rule typed_upd | rule typed_modify_frame | rule typed_rule Cons | simp)+
qed

lemma yields_mmap_file:
  "yields (if anon then ret (Some None)
     else bindM (argfd n) (\<lambda>r. case r of None \<Rightarrow> ret None
       | Some (fd, f) \<Rightarrow> bindM (filedup (Some f)) (\<lambda>f. ret (Some f)))) (\<lambda>r. case r of None \<Rightarrow> True | Some f \<Rightarrow> ptr_in NFILE f)"
  by (rule typed_bindM [OF yields_argfd] typed_bindM [OF yields_filedup] | rule typed_rule | simp)+

lemma typed_mmap_setup [typed_rule]: "typed (mmap_setup p len prot flags fin js va)"
proof (induction js arbitrary: va)
  case Nil
  show ?case unfolding mmap_setup.simps by (rule typed_ret) simp
next
  case (Cons j js)
  show ?case unfolding mmap_setup.simps
    by (rule typed_bindM [OF yields_mmap_file] | rule typed_upd | rule typed_rule Cons | simp)+
qed

lemma typed_mmap_place [typed_rule]: "typed (mmap_place p len prot flags n va)"
  unfolding mmap_place_def by (rule typed_upd | rule typed_modify_frame | rule typed_rule | simp)+

lemma typed_mmap_request [typed_rule]: "typed (mmap_request p a len prot flags off)"
  unfolding mmap_request_def by (rule typed_upd | rule typed_modify_frame | rule typed_rule | simp)+

lemma typed_sys_mmap [typed_rule]: "typed (sys_mmap)"
  unfolding sys_mmap_def by (rule typed_upd | rule typed_modify_frame | rule typed_rule | simp)+

section \<open>Processes\<close>

lemma wt_fresh_proc: "wt_proc q \<Longrightarrow> wt_proc (q\<lparr>p_state := EMBRYO, p_pid := pid, p_open_frames := 0,
    p_mmaps := map (\<lambda>md. md\<lparr>md_valid := False, md_isChildOfParent := False\<rparr>) (p_mmaps q)\<rparr>)"
  by (simp add: wt_proc_def list_all_length)

lemma yields_allocproc: "yields allocproc (ptr_in NPROC)"
proof -
  have n: "p < NPROC" if "find P [0..<NPROC] = Some p" for P p using that by (auto simp: find_Some_iff)
  have m: "typed (modify (\<lambda>s. upd_proc p (\<lambda>q. q\<lparr>p_state := EMBRYO, p_pid := pid, p_open_frames := 0,
      p_mmaps := map (\<lambda>md. md\<lparr>md_valid := False, md_isChildOfParent := False\<rparr>) (p_mmaps q)\<rparr>) (s\<lparr>nextpid := k\<rparr>)))" for p pid k
    by (intro typed_modify wt_upd_proc wt_fresh_proc) simp_all
  show ?thesis unfolding allocproc_def by (rule m | rule typed_upd | rule typed_rule | erule n | simp add: n)+
qed

lemma wt_initproc: "wt_kernel s \<Longrightarrow> ptr_in NPROC p \<Longrightarrow> wt_kernel (s\<lparr>initproc := p\<rparr>)"
  by (simp add: wt_kernel_def)

lemma wt_cur: "wt_kernel s \<Longrightarrow> ptr_in NPROC p \<Longrightarrow> wt_kernel (s\<lparr>cur := p\<rparr>)"
  by (simp add: wt_kernel_def)

lemma typed_userinit [typed_rule]: "typed (userinit c)"
  unfolding userinit_def
  by (rule typed_bindM [OF yields_allocproc] typed_bindM [OF yields_namei] | rule typed_upd
      | rule typed_modify, rule wt_initproc, assumption, assumption | rule typed_rule | simp add: wt_proc_def)+

lemma typed_growproc [typed_rule]: "typed (growproc n)"
  unfolding growproc_def by (rule typed_upd | rule typed_modify_frame | rule typed_rule | simp)+

lemma typed_fork_file:
  assumes "cp < NPROC" "i < NOFILE"
  shows "typed (fork_file cp np i)"
  unfolding fork_file_def
proof (rule typed_bind_gets, elim exE conjE)
  fix fo s assume "wt_kernel s" "fo = p_ofile (ptable s ! cp) ! i"
  then have f: "ptr_in NFILE fo" using wt_kernelD(2) [of s cp] assms by (simp add: wt_proc_def list_all_length)
  show "typed (whenM (fo \<noteq> None) (bindM (filedup fo) (\<lambda>f. modify (upd_proc np (\<lambda>q. q\<lparr>p_ofile := (p_ofile q)[i := f]\<rparr>)))))"
    by (rule typed_bindM [OF yields_filedup [OF f]] | rule typed_upd | rule typed_rule | simp add: wt_ofile)+
qed

lemma yields_proc_cwd: "p < NPROC \<Longrightarrow> yields (gets (\<lambda>s. ptable s ! p)) (\<lambda>q. ptr_in NINODE (p_cwd q))"
  by (rule yields_weaken [OF typed_gets]) (use wt_kernelD(2) in \<open>auto simp: wt_proc_def\<close>)

lemma typed_fork [typed_rule]: "typed fork"
  unfolding fork_def
proof (rule typed_bind_curproc, rule typed_bindM [OF yields_allocproc], rule typed_option, rule typed_ret, rule TrueI,
    rule typed_bindM [OF yields_proc_cwd], assumption)
  fix cp npo np q assume cp: "cp < NPROC" and q: "ptr_in NINODE (p_cwd q)"
  have ip: "yields (deref (p_cwd q)) (\<lambda>ip. ip < NINODE)" by (rule typed_deref) (use q in simp)
  show "typed (bindM (copyuvm (p_pgdir q) (p_sz q)) (\<lambda>pgdir.
     seqM (modify (upd_proc np (\<lambda>x. x\<lparr>p_pgdir := pgdir\<rparr>)))
    (if pgdir = 0 then
       bindM (gets (\<lambda>s. p_kstack (ptable s ! np))) (\<lambda>ks.
       seqM (kfree ks)
      (seqM (modify (upd_proc np (\<lambda>x. x\<lparr>p_kstack := 0, p_state := UNUSED\<rparr>)))
      (ret (- 1))))
     else
       seqM (modify (upd_proc np (\<lambda>x. x\<lparr>p_sz := p_sz q, p_parent := Some cp, p_tf := (p_tf q)\<lparr>tf_eax := 0\<rparr>\<rparr>)))
      (seqM (foreach [0..<NOFILE] (fork_file cp np))
      (bindM (deref (p_cwd q)) (\<lambda>ip.
       bindM (idup ip) (\<lambda>cwd.
       seqM (modify (upd_proc np (\<lambda>x. x\<lparr>p_cwd := Some cwd, p_name := safestrcpy (p_name x) (cstr_of (p_name q)) 16\<rparr>)))
      (bindM (gets (\<lambda>s. p_pid (ptable s ! np))) (\<lambda>pid.
       seqM (acquire PtableLock)
      (seqM (modify (upd_proc np (\<lambda>x. x\<lparr>p_state := RUNNABLE\<rparr>)))
      (seqM (release PtableLock)
      (bindM (copy_maps cp np) (\<lambda>_.
       ret pid)))))))))))))"
    by (rule typed_bindM [OF ip] typed_bindM [OF yields_idup] typed_fork_file typed_copy_maps cp | rule typed_upd | rule typed_rule
        | assumption | simp add: wt_proc_def cp)+
qed

lemma typed_wait_scan [typed_rule]: "typed (wait_scan cp ps h)"
proof (induction ps arbitrary: h)
  case Nil
  show ?case unfolding wait_scan.simps by (rule typed_rule | simp add: wt_proc_def)+
next
  case (Cons y ys)
  show ?case unfolding wait_scan.simps by (rule typed_upd | rule typed_modify_frame | rule typed_rule Cons | simp add: wt_proc_def)+
qed

lemma typed_wait [typed_rule]: "typed (wait)"
  unfolding wait_def by (rule typed_upd | rule typed_modify_frame | rule typed_rule | simp add: wt_proc_def)+

lemma typed_kill [typed_rule]: "typed (kill pid)"
  unfolding kill_def by (rule typed_upd | rule typed_modify_frame | rule typed_rule | simp)+

lemma typed_scheduler_pass:
  assumes "\<And>p. p < NPROC \<Longrightarrow> typed (run p)"
  shows "list_all (\<lambda>p. p < NPROC) ps \<Longrightarrow> typed (scheduler_pass run ps)"
proof (induction ps)
  case Nil
  show ?case unfolding scheduler_pass.simps by (rule typed_ret) simp
next
  case (Cons p ps)
  have p: "p < NPROC" "list_all (\<lambda>p. p < NPROC) ps" using Cons(2) by simp_all
  have c: "typed (modify (\<lambda>s. s\<lparr>cur := Some p\<rparr>))" "typed (modify (\<lambda>s. s\<lparr>cur := None\<rparr>))"
    by (intro typed_modify wt_cur; simp add: p)+
  show ?case unfolding scheduler_pass.simps
    by (rule c assms p Cons(1) | rule typed_upd | rule typed_rule | simp)+
qed

lemma typed_scheduler:
  assumes "\<And>p. p < NPROC \<Longrightarrow> typed (run p)"
  shows "typed (scheduler run n)"
proof (induction n)
  case 0
  show ?case unfolding scheduler.simps by (intro typed_modify wt_cur) simp_all
next
  case (Suc n)
  have "list_all (\<lambda>p. p < NPROC) [0..<NPROC]" by (simp add: list_all_iff)
  then show ?case unfolding scheduler.simps scheduler_round_def
    by (intro typed_seqM Suc typed_acquire typed_release typed_scheduler_pass assms)
qed

lemma typed_forkret [typed_rule]: "typed forkret"
  unfolding forkret_def by (rule typed_modify_frame | rule typed_rule | simp)+

lemma typed_loaduvm_loop [typed_rule]: "typed (loaduvm_loop fuel d a ip off sz i)"
proof (induction fuel arbitrary: i)
  case 0
  show ?case unfolding loaduvm_loop.simps by (rule typed_rule | simp)+
next
  case (Suc k)
  show ?case unfolding loaduvm_loop.simps by (rule typed_upd | rule typed_modify_frame | rule typed_rule Suc | simp)+
qed

lemma typed_loaduvm [typed_rule]: "typed (loaduvm d a ip off sz)"
  unfolding loaduvm_def by (rule typed_upd | rule typed_modify_frame | rule typed_rule | simp)+

lemma typed_exec_load [typed_rule]: "typed (exec_load n d ip off sz)"
proof (induction n arbitrary: off sz)
  case 0
  show ?case unfolding exec_load.simps by (rule typed_rule | simp)+
next
  case (Suc k)
  show ?case unfolding exec_load.simps by (rule typed_upd | rule typed_modify_frame | rule typed_rule Suc | simp)+
qed

lemma typed_exec_args [typed_rule]: "typed (exec_args d args sp addrs)"
proof (induction args arbitrary: sp addrs)
  case Nil
  show ?case unfolding exec_args.simps by (rule typed_rule | simp)+
next
  case (Cons y ys)
  show ?case unfolding exec_args.simps by (rule typed_upd | rule typed_modify_frame | rule typed_rule Cons | simp)+
qed

lemma typed_exec_bad [typed_rule]: "typed (exec_bad d ip)"
  unfolding exec_bad_def by (rule typed_upd | rule typed_modify_frame | rule typed_rule | simp)+

lemma typed_exec_stack [typed_rule]: "typed (exec_stack path argv d sz e)"
  unfolding exec_stack_def by (rule typed_upd | rule typed_modify_frame | rule typed_rule | simp)+

lemma typed_exec [typed_rule]: "typed (exec path argv)"
  unfolding exec_def by (rule typed_upd | rule typed_modify_frame | rule typed_rule | simp)+

section \<open>System calls\<close>

lemma typed_sys_dup [typed_rule]: "typed (sys_dup)"
  unfolding sys_dup_def by (rule typed_bindM [OF yields_argfd] typed_fdalloc | rule typed_upd | rule typed_modify_frame | rule typed_rule | simp)+

lemma typed_sys_read [typed_rule]: "typed (sys_read)"
  unfolding sys_read_def by (rule typed_upd | rule typed_modify_frame | rule typed_rule | simp)+

lemma typed_sys_write [typed_rule]: "typed (sys_write)"
  unfolding sys_write_def by (rule typed_filewrite | rule typed_upd | rule typed_modify_frame | rule typed_rule | simp)+

lemma typed_sys_close [typed_rule]: "typed (sys_close)"
  unfolding sys_close_def by (rule typed_upd | rule typed_modify_frame | rule typed_rule | simp add: wt_ofile)+

lemma typed_put_stat [typed_rule]: "typed (put_stat a st)"
  unfolding put_stat_def by (rule typed_upd | rule typed_modify_frame | rule typed_rule | simp)+

lemma typed_sys_fstat [typed_rule]: "typed (sys_fstat)"
  unfolding sys_fstat_def by (rule typed_upd | rule typed_modify_frame | rule typed_rule | simp)+

lemma typed_add_nlink [typed_rule]: "typed (add_nlink ip k)"
  unfolding add_nlink_def by (rule typed_upd | rule typed_modify_frame | rule typed_rule | simp)+

lemma typed_link_bad [typed_rule]: "typed (link_bad ip)"
  unfolding link_bad_def by (rule typed_upd | rule typed_modify_frame | rule typed_rule | simp)+

lemma typed_sys_link [typed_rule]: "typed (sys_link)"
  unfolding sys_link_def by (rule typed_upd | rule typed_modify_frame | rule typed_rule | simp)+

lemma typed_isdirempty_loop [typed_rule]: "typed (isdirempty_loop dp offs)"
proof (induction offs)
  case Nil
  show ?case unfolding isdirempty_loop.simps by (rule typed_rule | simp)+
next
  case (Cons y ys)
  show ?case unfolding isdirempty_loop.simps by (rule typed_upd | rule typed_modify_frame | rule typed_rule Cons | simp)+
qed

lemma typed_isdirempty [typed_rule]: "typed (isdirempty dp)"
  unfolding isdirempty_def by (rule typed_upd | rule typed_modify_frame | rule typed_rule | simp)+

lemma typed_unlink_bad [typed_rule]: "typed (unlink_bad dp)"
  unfolding unlink_bad_def by (rule typed_upd | rule typed_modify_frame | rule typed_rule | simp)+

lemma typed_unlink_entry [typed_rule]: "typed (unlink_entry dp ip off)"
  unfolding unlink_entry_def by (rule typed_upd | rule typed_modify_frame | rule typed_rule | simp)+

lemma typed_sys_unlink [typed_rule]: "typed (sys_unlink)"
  unfolding sys_unlink_def by (rule typed_upd | rule typed_modify_frame | rule typed_rule | simp)+

lemma yields_create_new: "yields (create_new dp name ty ma mi) (ptr_in NINODE)"
  unfolding create_new_def by (rule typed_bindM [OF yields_ialloc] | rule typed_upd | rule typed_rule | simp)+

lemma yields_create: "yields (create path ty ma mi) (ptr_in NINODE)"
  unfolding create_def
  by (rule typed_bindM [OF yields_nameiparent] typed_bindM [OF yields_dirlookup] yields_create_new | rule typed_rule | simp)+

lemma typed_create [typed_rule]: "typed (create path ty ma mi)"
  by (rule typed_any [OF yields_create])

lemma typed_open_file: "ip < NINODE \<Longrightarrow> typed (open_file ip m)"
  unfolding open_file_def
  by (rule typed_bindM [OF yields_filealloc] typed_fdalloc | rule typed_upd | rule typed_rule | simp add: wt_file_def)+

lemma typed_sys_open [typed_rule]: "typed sys_open"
  unfolding sys_open_def
  by (rule typed_bindM [OF yields_create] typed_bindM [OF yields_namei] typed_open_file | rule typed_rule | simp)+

lemma typed_made [typed_rule]: "typed (made ip)"
  unfolding made_def by (rule typed_upd | rule typed_modify_frame | rule typed_rule | simp)+

lemma typed_sys_mkdir [typed_rule]: "typed (sys_mkdir)"
  unfolding sys_mkdir_def by (rule typed_upd | rule typed_modify_frame | rule typed_rule | simp)+

lemma typed_sys_mknod [typed_rule]: "typed (sys_mknod)"
  unfolding sys_mknod_def by (rule typed_upd | rule typed_modify_frame | rule typed_rule | simp)+

lemma typed_sys_chdir [typed_rule]: "typed sys_chdir"
proof -
  have n: "yields (case r of None \<Rightarrow> ret None | Some path \<Rightarrow> namei path) (ptr_in NINODE)" for r
    by (rule yields_namei | rule typed_rule | simp)+
  show ?thesis unfolding sys_chdir_def
    by (rule typed_bindM [OF n] | rule typed_upd | rule typed_rule | simp add: wt_proc_def)+
qed

lemma typed_exec_argv [typed_rule]: "typed (exec_argv n u)"
proof (induction n arbitrary: u)
  case 0
  show ?case unfolding exec_argv.simps by (rule typed_rule | simp)+
next
  case (Suc k)
  show ?case unfolding exec_argv.simps by (rule typed_upd | rule typed_modify_frame | rule typed_rule Suc | simp)+
qed

lemma typed_sys_exec [typed_rule]: "typed (sys_exec)"
  unfolding sys_exec_def by (rule typed_upd | rule typed_modify_frame | rule typed_rule | simp)+

lemma typed_sys_pipe [typed_rule]: "typed sys_pipe"
  unfolding sys_pipe_def
  by (rule typed_bindM [OF yields_pipealloc] typed_fdalloc | rule typed_upd | rule typed_rule | simp add: wt_ofile)+

lemma typed_sys_fork [typed_rule]: "typed (sys_fork)"
  unfolding sys_fork_def by (rule typed_upd | rule typed_modify_frame | rule typed_rule | simp)+

lemma typed_sys_exit [typed_rule]: "typed (sys_exit)"
  unfolding sys_exit_def by (rule typed_upd | rule typed_modify_frame | rule typed_rule | simp)+

lemma typed_sys_wait [typed_rule]: "typed (sys_wait)"
  unfolding sys_wait_def by (rule typed_upd | rule typed_modify_frame | rule typed_rule | simp)+

lemma typed_sys_kill [typed_rule]: "typed (sys_kill)"
  unfolding sys_kill_def by (rule typed_upd | rule typed_modify_frame | rule typed_rule | simp)+

lemma typed_sys_getpid [typed_rule]: "typed (sys_getpid)"
  unfolding sys_getpid_def by (rule typed_upd | rule typed_modify_frame | rule typed_rule | simp)+

lemma typed_sys_sbrk [typed_rule]: "typed (sys_sbrk)"
  unfolding sys_sbrk_def by (rule typed_upd | rule typed_modify_frame | rule typed_rule | simp)+

lemma typed_sys_sleep [typed_rule]: "typed (sys_sleep)"
  unfolding sys_sleep_def by (rule typed_upd | rule typed_modify_frame | rule typed_rule | simp)+

lemma typed_sys_uptime [typed_rule]: "typed (sys_uptime)"
  unfolding sys_uptime_def by (rule typed_upd | rule typed_modify_frame | rule typed_rule | simp)+

lemma typed_set_eax [typed_rule]: "typed (set_eax p r)"
  unfolding set_eax_def by (rule typed_upd | rule typed_modify_frame | rule typed_rule | simp)+

lemma typed_syscalls: "syscalls num = Some call \<Longrightarrow> typed call"
  unfolding syscalls_def
  by (drule map_of_SomeD, simp only: list.set insert_iff empty_iff prod.inject simp_thms, elim disjE conjE)
    (simp_all only: typed_rule)

lemma typed_syscall [typed_rule]: "typed syscall"
  unfolding syscall_def by (rule typed_syscalls, assumption | rule typed_rule | simp)+

section \<open>Traps\<close>

lemma typed_kbdintr [typed_rule]: "typed (kbdintr pcs cs)"
  unfolding kbdintr_def by (rule typed_upd | rule typed_modify_frame | rule typed_rule | simp)+

lemma typed_uartintr [typed_rule]: "typed (uartintr pcs cs)"
  unfolding uartintr_def by (rule typed_upd | rule typed_modify_frame | rule typed_rule | simp)+

lemma typed_exit_if_killed [typed_rule]: "typed (exit_if_killed tf)"
  unfolding exit_if_killed_def by (rule typed_upd | rule typed_modify_frame | rule typed_rule | simp)+

lemma typed_trap_syscall [typed_rule]: "typed (trap_syscall tf)"
  unfolding trap_syscall_def by (rule typed_upd | rule typed_modify_frame | rule typed_rule | simp)+

lemma typed_timer_tick [typed_rule]: "typed (timer_tick c)"
  unfolding timer_tick_def by (rule typed_upd | rule typed_modify_frame | rule typed_rule | simp)+

lemma typed_unexpected_trap [typed_rule]: "typed (unexpected_trap ev tf)"
  unfolding unexpected_trap_def by (rule typed_upd | rule typed_modify_frame | rule typed_rule | simp)+

lemma typed_trap_irq [typed_rule]: "typed (trap_irq pcs ev tf)"
  unfolding trap_irq_def by (rule typed_upd | rule typed_modify_frame | rule typed_rule | simp)+

lemma typed_trap [typed_rule]: "typed (trap pcs ev tf)"
  unfolding trap_def by (rule typed_upd | rule typed_modify_frame | rule typed_rule | simp)+

lemma typed_outcome:
  "typed m \<Longrightarrow> wt_kernel s \<Longrightarrow> (case m s of Ok x t \<Rightarrow> wt_kernel t | Sched t \<Rightarrow> wt_kernel t | _ \<Rightarrow> True)"
  by (cases "m s") (auto simp: yields_def)

lemma wt_static_data: "(\<And>b. length (img b) = BSIZE) \<Longrightarrow> wt_kernel (static_data e d img n)"
  by (simp add: wt_kernel_def static_data_def zero_proc_def zero_desc_def zero_buf_def zero_inode_def zero_file_def zero_pipe_def
      wt_proc_def wt_desc_def wt_buf_def wt_inode_def wt_file_def list_all_length)

text \<open>
  C3: Every trap, and with it every system call and every interrupt handler, keeps the kernel state
  well typed, whether it returns or gives up the CPU: no static array changes its length, every
  stored process, file, inode and buffer pointer stays inside its table, and every disk block and
  every buffer keeps \<open>BSIZE\<close> bytes.
\<close>

theorem trap_type_safe:
  assumes "wt_kernel s"
  shows "case trap pcs ev tf s of
     Ok x t \<Rightarrow> wt_kernel t
   | Sched t \<Rightarrow> wt_kernel t
   | _ \<Rightarrow> True"
  by (rule typed_outcome [OF typed_trap assms])

theorem trap_type_safe_witness:
  "\<exists>s ev tf. wt_kernel s \<and> tf_trapno tf = 32 \<and> (case trap (\<lambda>_. []) ev tf s of Ok x t \<Rightarrow> wt_kernel t | Sched t \<Rightarrow> wt_kernel t | _ \<Rightarrow> True)"
proof (intro exI conjI)
  show "wt_kernel (static_data 0 0 (\<lambda>_. replicate BSIZE 0) 0)" by (rule wt_static_data) simp
  then show "case trap (\<lambda>_. []) \<lparr>ev_cpu = 0, ev_cr2 = 0, ev_kbd = [], ev_uart = []\<rparr> (zero_trapframe\<lparr>tf_trapno := 32\<rparr>)
      (static_data 0 0 (\<lambda>_. replicate BSIZE 0) 0) of Ok x t \<Rightarrow> wt_kernel t | Sched t \<Rightarrow> wt_kernel t | _ \<Rightarrow> True"
    by (rule trap_type_safe)
qed (simp add: zero_trapframe_def)

end
