(* ===== verification/Ulib.thy ===== *)
theory Ulib
  imports Cons
begin

text \<open>
  The user library: the string routines and input of ulib.c and the formatted output of
  printf.c.  A string that a routine only reads is the list of the bytes from its pointer on; a
  NUL in the list ends the string, and so does the end of the list.  An array that a routine
  fills is a byte list, and a store behind its end is the result None, as are an arithmetic
  overflow and an argument that was not passed.  The system calls are arguments: functions of
  the arguments of the call and of the state of the world \<open>'w\<close>.
\<close>

section \<open>Strings\<close>

definition chr :: "byte list \<Rightarrow> byte" where
  "chr s = (case s of [] \<Rightarrow> 0 | c # cs \<Rightarrow> c)"

definition cstring :: "byte list \<Rightarrow> byte list" where
  "cstring s = takeWhile (\<lambda>c. c \<noteq> 0) s"

fun strcpy_loop :: "byte list \<Rightarrow> nat \<Rightarrow> byte list \<Rightarrow> byte list option" where
  "strcpy_loop s i [] = (if i < length s then Some (s[i := 0]) else None)"
| "strcpy_loop s i (c # t) =
     (if i < length s then (if c \<noteq> 0 then strcpy_loop (s[i := c]) (Suc i) t else Some (s[i := 0])) else None)"

definition strcpy :: "byte list \<Rightarrow> byte list \<Rightarrow> byte list option" where
  "strcpy s t = strcpy_loop s 0 t"

fun strcmp :: "byte list \<Rightarrow> byte list \<Rightarrow> int" where
  "strcmp [] q = 0 - uint (chr q)"
| "strcmp (c # p) q =
     (if c \<noteq> 0 \<and> c = chr q then strcmp p (tl q) else uint c - uint (chr q))"

fun strlen_u :: "byte list \<Rightarrow> nat" where
  "strlen_u [] = 0"
| "strlen_u (c # s) = (if c \<noteq> 0 then Suc (strlen_u s) else 0)"

definition memset_u :: "mem \<Rightarrow> ptr \<Rightarrow> uint \<Rightarrow> uint \<Rightarrow> mem" where
  "memset_u m dst c n = stosb m dst (ucast c) (unat n)"

text \<open>The offset of the character from the pointer, or None for NULL.\<close>

fun strchr :: "byte list \<Rightarrow> byte \<Rightarrow> nat option" where
  "strchr [] c = None"
| "strchr (x # s) c = (if x = 0 then None else if x = c then Some 0 else map_option Suc (strchr s c))"

fun atoi_loop :: "byte list \<Rightarrow> int \<Rightarrow> int option" where
  "atoi_loop [] n = Some n"
| "atoi_loop (c # s) n =
     (if 48 \<le> c \<and> c \<le> 57
      then let n' = n * 10 + uint c - 48 in
        if n * 10 + uint c > INT_MAX then None else atoi_loop s n'
      else Some n)"

definition atoi :: "byte list \<Rightarrow> int option" where
  "atoi s = atoi_loop s 0"

definition memmove_u :: "mem \<Rightarrow> ptr \<Rightarrow> ptr \<Rightarrow> int \<Rightarrow> mem" where
  "memmove_u m dst src n = copy_up m dst src (nat n)"

section \<open>Input\<close>

text \<open>
  The loop of gets with room for \<open>n\<close> more bytes besides the terminator.  \<open>rd\<close> is a read of one
  byte from descriptor 0: None when fewer than one byte was read.
\<close>

fun gets_loop :: "('w \<Rightarrow> byte option \<times> 'w) \<Rightarrow> nat \<Rightarrow> 'w \<Rightarrow> byte list \<times> 'w" where
  "gets_loop rd 0 w = ([], w)"
| "gets_loop rd (Suc n) w = (case rd w of
     (None, w') \<Rightarrow> ([], w')
   | (Some c, w') \<Rightarrow>
       if c = 10 \<or> c = 13 then ([c], w')
       else (case gets_loop rd n w' of (bs, w'') \<Rightarrow> (c # bs, w'')))"

definition gets_u :: "('w \<Rightarrow> byte option \<times> 'w) \<Rightarrow> byte list \<Rightarrow> int \<Rightarrow> 'w \<Rightarrow> byte list option \<times> 'w" where
  "gets_u rd buf mx w = (case gets_loop rd (nat (mx - 1)) w of (bs, w') \<Rightarrow>
     (if length bs < length buf then Some (bs @ [0] @ drop (length bs + 1) buf) else None, w'))"

text \<open>stat opens the file, asks for its status and closes it again.\<close>

definition stat_u :: "(byte list \<Rightarrow> int \<Rightarrow> 'w \<Rightarrow> int \<times> 'w) \<Rightarrow> (int \<Rightarrow> 'w \<Rightarrow> (int \<times> 's) \<times> 'w) \<Rightarrow> (int \<Rightarrow> 'w \<Rightarrow> 'w) \<Rightarrow>
    byte list \<Rightarrow> 's \<Rightarrow> 'w \<Rightarrow> (int \<times> 's) \<times> 'w" where
  "stat_u open_sys fstat_sys close_sys n st w =
     (case open_sys n 0 w of (fd, w1) \<Rightarrow>
      if fd < 0 then ((- 1, st), w1)
      else case fstat_sys fd w1 of (r, w2) \<Rightarrow> (r, close_sys fd w2))"

section \<open>Formatted output\<close>

definition udigits :: "nat \<Rightarrow> byte" where
  "udigits d = (if d < 10 then 48 + of_nat d else 55 + of_nat d)"

text \<open>The digits in the order in which the loop stores them, the last one first.\<close>

function uprintint_loop :: "nat \<Rightarrow> nat \<Rightarrow> byte list" where
  "uprintint_loop x base = udigits (x mod base) #
     (if base \<le> 1 \<or> x div base = 0 then [] else uprintint_loop (x div base) base)"
  by auto
termination
  by (relation "measure fst") (auto intro!: div_less_dividend gr0I)

text \<open>The bytes that the calls of putc write to the descriptor, in order.\<close>

definition printint_u :: "uint \<Rightarrow> uint \<Rightarrow> bool \<Rightarrow> byte list" where
  "printint_u xx base sg = (let neg = (sg \<and> xx <s 0); x = (if neg then - xx else xx) in
     rev (uprintint_loop (unat x) (unat base) @ (if neg then [45] else [])))"

definition printf_arg_str :: "byte list option \<Rightarrow> byte list" where
  "printf_arg_str s = (case s of None \<Rightarrow> str ''(null)'' | Some s \<Rightarrow> cstring s)"

text \<open>
  The loop of printf; the flag is the variable state, set after a percent sign.  An argument
  that is not a word where a word is printed, or not a string where one is printed, has no
  defined effect.
\<close>

fun printf_loop :: "byte list \<Rightarrow> bool \<Rightarrow> carg list \<Rightarrow> byte list option" where
  "printf_loop [] st ap = Some []"
| "printf_loop (c # fmt) st ap =
     (if c = 0 then Some []
      else if \<not> st then
        (if c = 37 then printf_loop fmt True ap else map_option ((#) c) (printf_loop fmt False ap))
      else if c = 100 then
        (case ap of CInt x # ap' \<Rightarrow> map_option ((@) (printint_u x 10 True)) (printf_loop fmt False ap') | _ \<Rightarrow> None)
      else if c = 120 \<or> c = 112 then
        (case ap of CInt x # ap' \<Rightarrow> map_option ((@) (printint_u x 16 False)) (printf_loop fmt False ap') | _ \<Rightarrow> None)
      else if c = 115 then
        (case ap of CStr s # ap' \<Rightarrow> map_option ((@) (printf_arg_str s)) (printf_loop fmt False ap') | _ \<Rightarrow> None)
      else if c = 99 then
        (case ap of CInt x # ap' \<Rightarrow> map_option ((#) (ucast x)) (printf_loop fmt False ap') | _ \<Rightarrow> None)
      else if c = 37 then map_option ((#) c) (printf_loop fmt False ap)
      else map_option ((@) [37, c]) (printf_loop fmt False ap))"

definition printf :: "string \<Rightarrow> carg list \<Rightarrow> byte list option" where
  "printf fmt ap = printf_loop (str fmt) False ap"

section \<open>Facts\<close>

lemma cstring_simps [simp]: "cstring [] = []" "cstring (c # s) = (if c = 0 then [] else c # cstring s)"
  by (simp_all add: cstring_def)

lemma chr_Cons [simp]: "chr [] = 0" "chr (c # s) = c"
  by (simp_all add: chr_def)

lemma strlen_u_spec: "strlen_u s = length (cstring s)"
  by (induction s) simp_all

lemma strcmp_eq_0: "strcmp p q = 0 \<longleftrightarrow> cstring p = cstring q"
proof (induction p q rule: strcmp.induct)
  case (1 q)
  show ?case by (cases q) (auto simp: unsigned_eq_0_iff)
next
  case (2 c p q)
  show ?case by (cases q) (use 2 in \<open>auto simp: unsigned_eq_0_iff dest: unsigned_word_eqI\<close>)
qed

lemma strchr_None: "strchr s c = None \<longleftrightarrow> c \<notin> set (cstring s)"
  by (induction s) auto

lemma strchr_Some: "strchr s c = Some k \<longleftrightarrow> (\<exists>rest. cstring s = take k s @ c # rest \<and> c \<notin> set (take k s) \<and> k < length s)"
proof (induction s arbitrary: k)
  case (Cons x s)
  show ?case
  proof (cases "x = 0 \<or> x = c")
    case True
    then show ?thesis by (cases k) auto
  next
    case False
    then show ?thesis using Cons by (cases k) auto
  qed
qed simp

lemma strcpy_loop_spec:
  assumes "i + length (cstring t) < length s"
  shows "strcpy_loop s i t = Some (take i s @ cstring t @ [0] @ drop (i + length (cstring t) + 1) s)"
  using assms
proof (induction s i t rule: strcpy_loop.induct)
  case (1 s i)
  then show ?case by (simp add: upd_conv_take_nth_drop)
next
  case (2 s i c t)
  show ?case
  proof (cases "c = 0")
    case True
    then show ?thesis using 2(2) by (simp add: upd_conv_take_nth_drop)
  next
    case False
    then have "strcpy_loop (s[i := c]) (Suc i) t =
        Some (take (Suc i) (s[i := c]) @ cstring t @ [0] @ drop (Suc i + length (cstring t) + 1) (s[i := c]))"
      using 2 by simp
    then show ?thesis using False 2(2) by (simp add: take_Suc_conv_app_nth)
  qed
qed

lemma strcpy_spec:
  "length (cstring t) < length s \<Longrightarrow> strcpy s t = Some (cstring t @ [0] @ drop (length (cstring t) + 1) s)"
  using strcpy_loop_spec [of 0 t s] by (simp add: strcpy_def)

text \<open>What printf prints for a format without arguments, and for a number.\<close>

lemma udigits_byte: "d < 10 \<Longrightarrow> udigits d = 48 + of_nat d" "d < 10 \<Longrightarrow> uint (48 + of_nat d :: byte) = 48 + int d"
  by (simp_all add: udigits_def uint_word_ariths unsigned_of_nat take_bit_nat_eq_self)

lemma atoi_digit:
  assumes "d < 10" "n * 10 + 48 + int d \<le> INT_MAX"
  shows "atoi_loop (udigits d # s) n = atoi_loop s (n * 10 + int d)"
proof -
  have "uint (udigits d) = 48 + int d" using assms(1) by (simp add: udigits_byte)
  then have "48 \<le> udigits d \<and> udigits d \<le> 57" using assms(1) by (simp add: word_le_def)
  then show ?thesis using assms \<open>uint (udigits d) = 48 + int d\<close> by (simp add: Let_def)
qed

lemma atoi_loop_printint:
  "int x + 48 \<le> INT_MAX \<Longrightarrow> atoi_loop (rev (uprintint_loop x 10) @ s) 0 = atoi_loop s (int x)"
proof (induction x "10 :: nat" arbitrary: s rule: uprintint_loop.induct)
  case (1 x)
  have x: "int (x div 10) * 10 + int (x mod 10) = int x" by presburger
  have d: "atoi_loop (udigits (x mod 10) # s) (int (x div 10)) = atoi_loop s (int x)"
    using atoi_digit [of "x mod 10" "int (x div 10)" s] 1(2) x by simp
  show ?case
  proof (cases "x div 10 = 0")
    case True
    then show ?thesis using d by (subst uprintint_loop.simps) simp
  next
    case False
    then have "atoi_loop (rev (uprintint_loop (x div 10) 10) @ udigits (x mod 10) # s) 0 = atoi_loop (udigits (x mod 10) # s) (int (x div 10))"
      using 1 by (intro 1(1)) auto
    then show ?thesis using False d by (subst uprintint_loop.simps) simp
  qed
qed

text \<open>
  Printing and reading numbers agree: the digits that printf writes for a non-negative number
  with \<^verbatim>\<open>%d\<close>, followed by any byte that is not a digit, are read back by atoi as the same number.
  The bound is that of the arithmetic of atoi, which adds the code of the digit before it
  subtracts the code of zero.
\<close>

theorem printf_atoi_roundtrip:
  assumes "0 \<le> sint x" "sint x \<le> INT_MAX - 48" "\<not> (48 \<le> c \<and> c \<le> 57)"
  shows "\<exists>out. printf ''%d'' [CInt x] = Some out \<and> atoi (out @ c # s) = Some (sint x)"
proof -
  have n: "\<not> x <s 0" using assms(1) by (simp add: word_sless_alt)
  have "uint x = uint (of_int (sint x) :: uint)" by simp
  also have "\<dots> = sint x" using assms(1,2) take_bit_int_eq_self [of "sint x" 32] by (simp only: unsigned_of_int) simp
  finally have u: "uint x = sint x" .
  have "atoi ((rev (uprintint_loop (unat x) 10)) @ c # s) = atoi_loop (c # s) (int (unat x))"
    unfolding atoi_def using assms(2) u by (intro atoi_loop_printint) simp
  moreover have "printf ''%d'' [CInt x] = Some (rev (uprintint_loop (unat x) 10))"
    using n by (simp add: printf_def str_def printint_u_def)
  ultimately show ?thesis using assms(3) u by auto
qed

theorem printf_atoi_roundtrip_witness: "\<exists>out. printf ''%d'' [CInt 2147483599] = Some out \<and> atoi (out @ 0 # []) = Some 2147483599"
  using printf_atoi_roundtrip [of 2147483599 0 "[]"] by simp

text \<open>
  memmove of the library always copies upwards.  It agrees with the routine of the kernel unless
  the destination lies inside the source, where it repeats the first bytes.
\<close>

lemma memmove_u_forward: "\<not> (src < dst \<and> dst < src + n) \<Longrightarrow> memmove_u m dst src (uint n) = memmove m dst src n"
  unfolding memmove_u_def memmove_def by auto

lemma memmove_u_overlap: "memmove_u m (a + 1) a 2 (a + 2) = m a"
  by (simp add: memmove_u_def numeral_2_eq_2)

end
