(* ===== verification/Grep.thy ===== *)
theory Grep
  imports Ulib
begin

text \<open>
  The program grep (grep.c): the regular expression matcher, and the loop that cuts the input
  into lines.  A string of the matcher is the list of the bytes from the pointer to the
  terminator, so that \<open>[]\<close> is a pointer to the terminating NUL and the tail is the pointer
  incremented.  The system calls the loop makes are arguments: \<open>rd n w\<close> is \<^verbatim>\<open>read(fd, p, n)\<close> in
  the world \<open>w\<close>, the bytes it stores being the result (none for end of file or an error).  The
  bytes of the calls of write to descriptor 1 are the output.
\<close>

section \<open>The matcher\<close>

fun matchhere :: "byte list \<Rightarrow> byte list \<Rightarrow> bool"
  and matchstar :: "byte \<Rightarrow> byte list \<Rightarrow> byte list \<Rightarrow> bool" where
  "matchhere re text =
     (if re = [] then True
      else if tl re \<noteq> [] \<and> hd (tl re) = 42 then matchstar (hd re) (tl (tl re)) text
      else if hd re = 36 \<and> tl re = [] then text = []
      else if text \<noteq> [] \<and> (hd re = 46 \<or> hd re = hd text) then matchhere (tl re) (tl text)
      else False)"
| "matchstar c re text =
     (if matchhere re text then True
      else if text \<noteq> [] \<and> (hd text = c \<or> c = 46) then matchstar c re (tl text)
      else False)"

fun match_from :: "byte list \<Rightarrow> byte list \<Rightarrow> bool" where
  "match_from re text =
     (if matchhere re text then True
      else if text \<noteq> [] then match_from re (tl text)
      else False)"

definition match :: "byte list \<Rightarrow> byte list \<Rightarrow> bool" where
  "match re text = (if re \<noteq> [] \<and> hd re = 94 then matchhere (tl re) text else match_from re text)"

declare matchhere.simps [simp del] matchstar.simps [simp del] match_from.simps [simp del]

section \<open>What a pattern means\<close>

text \<open>
  A pattern is a sequence of items, each one character or any character, once or repeated, with
  an optional anchor at each end.
\<close>

datatype item = One byte | Star byte

definition item_char :: "byte \<Rightarrow> byte \<Rightarrow> bool" where
  "item_char c x \<longleftrightarrow> c = 46 \<or> c = x"

fun items_of :: "byte list \<Rightarrow> item list \<times> bool" where
  "items_of [] = ([], False)"
| "items_of [c] = (if c = 36 then ([], True) else ([One c], False))"
| "items_of (c # d # re) =
     (if d = 42 then (case items_of re of (is, e) \<Rightarrow> (Star c # is, e))
      else (case items_of (d # re) of (is, e) \<Rightarrow> (One c # is, e)))"

inductive denotes :: "item list \<Rightarrow> byte list \<Rightarrow> bool" where
  denotes_Nil: "denotes [] []"
| denotes_One: "item_char c x \<Longrightarrow> denotes is xs \<Longrightarrow> denotes (One c # is) (x # xs)"
| denotes_Star: "list_all (item_char c) ys \<Longrightarrow> denotes is xs \<Longrightarrow> denotes (Star c # is) (ys @ xs)"

inductive_simps denotes_simps: "denotes [] xs" "denotes (One c # is) xs"
inductive_cases denotes_StarE: "denotes (Star c # is) xs"

definition found_here :: "item list \<times> bool \<Rightarrow> byte list \<Rightarrow> bool" where
  "found_here p text \<longleftrightarrow> (\<exists>u v. text = u @ v \<and> denotes (fst p) u \<and> (snd p \<longrightarrow> v = []))"

definition found :: "byte list \<Rightarrow> byte list \<Rightarrow> bool" where
  "found re text \<longleftrightarrow>
     (if re \<noteq> [] \<and> hd re = 94 then found_here (items_of (tl re)) text
      else \<exists>u v. text = u @ v \<and> found_here (items_of re) v)"

lemma found_here_Nil: "found_here ([], e) text \<longleftrightarrow> (e \<longrightarrow> text = [])"
  by (auto simp: found_here_def denotes_simps)

lemma found_here_One:
  "found_here (One c # is, e) text \<longleftrightarrow> text \<noteq> [] \<and> item_char c (hd text) \<and> found_here (is, e) (tl text)"
proof (cases "text")
  case (Cons x xs)
  have "(\<exists>u v. x # xs = u @ v \<and> denotes (One c # is) u \<and> (e \<longrightarrow> v = [])) \<longleftrightarrow>
      item_char c x \<and> (\<exists>u v. xs = u @ v \<and> denotes is u \<and> (e \<longrightarrow> v = []))"
    unfolding denotes_simps by (metis append_Cons list.inject)
  then show ?thesis by (simp add: found_here_def Cons)
qed (auto simp: found_here_def denotes_simps)

lemma found_here_Star:
  "found_here (Star c # is, e) text \<longleftrightarrow>
     found_here (is, e) text \<or> text \<noteq> [] \<and> item_char c (hd text) \<and> found_here (Star c # is, e) (tl text)"
proof
  assume "found_here (Star c # is, e) text"
  then obtain u v where "text = u @ v" "denotes (Star c # is) u" and e: "e \<longrightarrow> v = []" by (auto simp: found_here_def)
  then obtain ys xs where s: "text = (ys @ xs) @ v" "list_all (item_char c) ys" "denotes is xs" "e \<longrightarrow> v = []"
    by (elim denotes_StarE) simp
  show "found_here (is, e) text \<or> text \<noteq> [] \<and> item_char c (hd text) \<and> found_here (Star c # is, e) (tl text)"
  proof (cases ys)
    case Nil
    then show ?thesis using s by (auto simp: found_here_def)
  next
    case (Cons y zs)
    then have "denotes (Star c # is) (zs @ xs)" using s by (auto intro: denotes_Star)
    then have "found_here (Star c # is, e) (tl text)" using s Cons unfolding found_here_def by (intro exI [of _ "zs @ xs"] exI [of _ v]) simp
    then show ?thesis using s Cons by simp
  qed
next
  assume "found_here (is, e) text \<or> text \<noteq> [] \<and> item_char c (hd text) \<and> found_here (Star c # is, e) (tl text)"
  then show "found_here (Star c # is, e) text"
  proof (elim disjE conjE)
    assume "found_here (is, e) text"
    then obtain u v where u: "text = u @ v" "denotes is u" "e \<longrightarrow> v = []" by (auto simp: found_here_def)
    then have "denotes (Star c # is) u" using denotes_Star [of c "[]" "is" u] by simp
    then show ?thesis using u by (auto simp: found_here_def)
  next
    assume t: "text \<noteq> []" "item_char c (hd text)" "found_here (Star c # is, e) (tl text)"
    then obtain u v where "tl text = u @ v" "denotes (Star c # is) u" and e: "e \<longrightarrow> v = []" by (auto simp: found_here_def)
    then obtain ys xs where s: "tl text = (ys @ xs) @ v" "list_all (item_char c) ys" "denotes is xs" "e \<longrightarrow> v = []"
      by (elim denotes_StarE) simp
    then have "denotes (Star c # is) ((hd text # ys) @ xs)" using t(2) by (intro denotes_Star) simp_all
    moreover have "text = ((hd text # ys) @ xs) @ v" using t(1) s(1) by (cases "text") simp_all
    ultimately show ?thesis using s(4) unfolding found_here_def fst_conv snd_conv by blast
  qed
qed

section \<open>The matcher finds what the pattern means\<close>

lemma items_of_star: "tl re \<noteq> [] \<Longrightarrow> hd (tl re) = 42 \<Longrightarrow> re \<noteq> [] \<Longrightarrow>
    items_of re = (Star (hd re) # fst (items_of (tl (tl re))), snd (items_of (tl (tl re))))"
  by (cases re rule: items_of.cases) (auto split: prod.splits)

lemma items_of_one: "re \<noteq> [] \<Longrightarrow> \<not> (tl re \<noteq> [] \<and> hd (tl re) = 42) \<Longrightarrow> \<not> (hd re = 36 \<and> tl re = []) \<Longrightarrow>
    items_of re = (One (hd re) # fst (items_of (tl re)), snd (items_of (tl re)))"
  by (cases re rule: items_of.cases) (auto split: prod.splits)

lemma matchhere_matchstar_spec:
  "matchhere re text = found_here (items_of re) text"
  "matchstar c re text = found_here (Star c # fst (items_of re), snd (items_of re)) text"
proof (induction re "text" and c re "text" rule: matchhere_matchstar.induct)
  case (1 re t)
  consider "re = []" | "re \<noteq> []" "tl re \<noteq> []" "hd (tl re) = 42" | "re \<noteq> []" "hd re = 36" "tl re = []"
    | "re \<noteq> []" "\<not> (tl re \<noteq> [] \<and> hd (tl re) = 42)" "\<not> (hd re = 36 \<and> tl re = [])" by blast
  then show ?case
  proof cases
    case 1
    then show ?thesis by (simp add: matchhere.simps found_here_Nil)
  next
    case 2
    then show ?thesis using "1.IH"(1) by (subst matchhere.simps) (simp add: items_of_star)
  next
    case 3
    then show ?thesis by (cases re) (simp_all add: matchhere.simps found_here_Nil)
  next
    case 4
    then show ?thesis using "1.IH"(2) by (subst matchhere.simps) (auto simp: items_of_one found_here_One item_char_def)
  qed
next
  case (2 c re t)
  then show ?case by (subst matchstar.simps, subst found_here_Star) (auto simp: item_char_def)
qed

lemma match_from_spec: "match_from re text = (\<exists>u v. text = u @ v \<and> matchhere re v)"
proof (induction re "text" rule: match_from.induct)
  case (1 re t)
  show ?case
  proof (cases "matchhere re t \<or> t = []")
    case True
    then show ?thesis by (subst match_from.simps) auto
  next
    case False
    then have e: "match_from re t = match_from re (tl t)" by (subst match_from.simps) simp
    obtain x xs where e2: "t = x # xs" using False by (cases "t") simp_all
    have "(\<exists>u v. t = u @ v \<and> matchhere re v) = (\<exists>u v. xs = u @ v \<and> matchhere re v)"
      using False unfolding e2 by (metis append_Cons append_Nil append_eq_Cons_conv)
    then show ?thesis using 1 False e by (simp add: e2)
  qed
qed

text \<open>
  C24: match answers whether the text contains what the pattern denotes: a sequence of characters
  and repetitions, where \<^verbatim>\<open>.\<close> is any character, at the start of the text for a pattern that
  begins with \<^verbatim>\<open>^\<close> and at its end for one that ends with \<^verbatim>\<open>$\<close>.  The matcher ends for every
  pattern and every text.
\<close>

theorem match_spec: "match re text \<longleftrightarrow> found re text"
  by (simp add: match_def found_def match_from_spec matchhere_matchstar_spec)

section \<open>Lines\<close>

text \<open>
  The inner loop over the lines of the buffer from \<open>p\<close> on, a string that ends at the first NUL:
  the bytes written and the pointer after the last line.  The byte that the terminator replaces
  while the line is matched is not looked at again.
\<close>

function grep_lines :: "byte list \<Rightarrow> byte list \<Rightarrow> byte list \<times> byte list" where
  "grep_lines pattern p = (case strchr p 10 of
     None \<Rightarrow> ([], p)
   | Some q \<Rightarrow> (case grep_lines pattern (drop (q + 1) p) of (out, p') \<Rightarrow>
       ((if match pattern (take q p) then take (q + 1) p else []) @ out, p')))"
  by pat_completeness auto
termination
  by (relation "measure (length \<circ> snd)") (auto simp: strchr_Some)

text \<open>
  The loop of grep.  \<open>buf\<close> holds the first \<^verbatim>\<open>m\<close> bytes of the buffer; the call of read asks for
  the room that is left before the last byte.
\<close>

partial_function (option) grep_loop ::
  "(nat \<Rightarrow> 'w \<Rightarrow> byte list \<times> 'w) \<Rightarrow> byte list \<Rightarrow> byte list \<Rightarrow> 'w \<Rightarrow> byte list option" where
  "grep_loop rd pattern buf w =
     (case rd (1024 - length buf - 1) w of (bs, w') \<Rightarrow>
      if bs = [] then Some [] else
      case grep_lines pattern (buf @ bs) of (out, p) \<Rightarrow>
      Option.bind (grep_loop rd pattern (if length p = length (buf @ bs) then [] else p) w')
        (\<lambda>rest. Some (out @ rest)))"

definition grep :: "(nat \<Rightarrow> 'w \<Rightarrow> byte list \<times> 'w) \<Rightarrow> byte list \<Rightarrow> 'w \<Rightarrow> byte list option" where
  "grep rd pattern w = grep_loop rd pattern [] w"

declare grep_lines.simps [simp del]

text \<open>What grep should print: the lines of the input that match, each with its newline.\<close>

fun complete_lines :: "byte list \<Rightarrow> byte list \<Rightarrow> byte list list" where
  "complete_lines l [] = []"
| "complete_lines l (c # cs) = (if c = 10 then l # complete_lines [] cs else complete_lines (l @ [c]) cs)"

definition matching_lines :: "byte list \<Rightarrow> byte list \<Rightarrow> byte list" where
  "matching_lines pattern bs = concat (map (\<lambda>l. l @ [10]) (filter (match pattern) (complete_lines [] bs)))"

text \<open>The input of a file: a read returns as many bytes as there are, up to the number asked for.\<close>

definition file_read :: "nat \<Rightarrow> byte list \<Rightarrow> byte list \<times> byte list" where
  "file_read n w = (take n w, drop n w)"

definition lines_shorter :: "nat \<Rightarrow> byte list \<Rightarrow> bool" where
  "lines_shorter n bs \<longleftrightarrow> (\<forall>a l b. bs = a @ l @ b \<longrightarrow> 10 \<notin> set l \<longrightarrow> length l < n)"

lemma complete_lines_append: "10 \<notin> set a \<Longrightarrow> complete_lines l (a @ 10 # b) = (l @ a) # complete_lines [] b"
  by (induction a arbitrary: l) auto

lemma complete_lines_none: "10 \<notin> set a \<Longrightarrow> complete_lines l a = []"
  by (induction a arbitrary: l) auto

lemma matching_lines_step:
  "10 \<notin> set a \<Longrightarrow> matching_lines pattern (a @ 10 # b) = (if match pattern a then a @ [10] else []) @ matching_lines pattern b"
  by (simp add: matching_lines_def complete_lines_append)

lemma matching_lines_none: "10 \<notin> set a \<Longrightarrow> matching_lines pattern a = []"
  by (simp add: matching_lines_def complete_lines_none)

text \<open>The inner loop prints the complete lines and stops after the last of them.\<close>

lemma grep_lines_spec:
  assumes "0 \<notin> set b"
  shows "\<exists>front rear. b = front @ rear \<and> 10 \<notin> set rear \<and> (10 \<in> set b \<longrightarrow> front \<noteq> []) \<and>
    grep_lines pattern b = (matching_lines pattern front, rear) \<and>
    (\<forall>rest. matching_lines pattern (b @ rest) = matching_lines pattern front @ matching_lines pattern (rear @ rest))"
  using assms
proof (induction pattern b rule: grep_lines.induct)
  case (1 pattern p)
  have c: "cstring p = p" using 1(2) by (auto simp: cstring_def takeWhile_eq_all_conv)
  show ?case
  proof (cases "strchr p 10")
    case None
    then have "10 \<notin> set p" by (simp add: strchr_None c)
    then show ?thesis using None by (intro exI [of _ "[]"] exI [of _ p]) (simp add: grep_lines.simps matching_lines_none)
  next
    case (Some q)
    then obtain b where "p = take q p @ 10 # b" and a: "10 \<notin> set (take q p)" and q: "q < length p"
      unfolding strchr_Some c by blast
    define l where "l = take q p"
    have p: "p = l @ 10 # b" "length l = q" "10 \<notin> set l" using \<open>p = _\<close> a q unfolding l_def by simp_all
    then have d: "drop (q + 1) p = b" "take (q + 1) p = l @ [10]" by simp_all
    then obtain front rear where f: "b = front @ rear" "10 \<notin> set rear" "grep_lines pattern b = (matching_lines pattern front, rear)"
        "\<And>rest. matching_lines pattern (b @ rest) = matching_lines pattern front @ matching_lines pattern (rear @ rest)"
      using 1(1) [OF Some] 1(2) by (metis in_set_dropD)
    have g: "grep_lines pattern p = (matching_lines pattern (l @ 10 # front), rear)"
      unfolding grep_lines.simps [of pattern p] Some option.case d f(3) prod.case l_def [symmetric] matching_lines_step [OF p(3)] by simp
    show ?thesis
    proof (intro exI conjI allI impI)
      show "p = (l @ 10 # front) @ rear" using p(1) f(1) by simp
      show "10 \<notin> set rear" by (rule f(2))
      show "grep_lines pattern p = (matching_lines pattern (l @ 10 # front), rear)" by (rule g)
      fix rest
      have "matching_lines pattern (p @ rest) = matching_lines pattern (l @ 10 # (b @ rest))" using p(1) by simp
      then show "matching_lines pattern (p @ rest) = matching_lines pattern (l @ 10 # front) @ matching_lines pattern (rear @ rest)"
        by (simp only: matching_lines_step [OF p(3)] f(4) append_assoc)
    qed simp
  qed
qed

lemma lines_shorterD: "lines_shorter n (a @ l @ b) \<Longrightarrow> 10 \<notin> set l \<Longrightarrow> length l < n"
  by (auto simp: lines_shorter_def)

lemma lines_shorter_tail: "lines_shorter n (a @ b) \<Longrightarrow> lines_shorter n b"
  unfolding lines_shorter_def by (metis append_assoc)

lemma grep_loop_file:
  assumes "10 \<notin> set buf" "0 \<notin> set (buf @ w)" "lines_shorter 1023 (buf @ w)"
  shows "grep_loop file_read pattern buf w = Some (matching_lines pattern (buf @ w))"
  using assms
proof (induction "length w" arbitrary: buf w rule: less_induct)
  case less
  have buf: "length buf < 1023" using lines_shorterD [of 1023 "[]" buf w] less.prems by simp
  show ?case
  proof (cases "w = []")
    case True
    then show ?thesis using less.prems by (subst grep_loop.simps) (simp add: file_read_def matching_lines_none)
  next
    case False
    define n where "n = 1024 - length buf - 1"
    have n: "0 < n" using buf by (simp add: n_def)
    define b where "b = buf @ take n w"
    have bw: "buf @ w = b @ drop n w" by (simp add: b_def)
    have b0: "0 \<notin> set b" using less.prems(2) by (auto simp: b_def dest: in_set_takeD)
    obtain front rear where f: "b = front @ rear" "10 \<notin> set rear" "10 \<in> set b \<longrightarrow> front \<noteq> []"
        "grep_lines pattern b = (matching_lines pattern front, rear)"
        "\<And>rest. matching_lines pattern (b @ rest) = matching_lines pattern front @ matching_lines pattern (rear @ rest)"
      using grep_lines_spec [OF b0] by blast
    define k where "k = (if length rear = length b then [] else rear)"
    have s: "lines_shorter 1023 (rear @ drop n w)" using less.prems(3) unfolding bw f(1) by (metis append_assoc lines_shorter_tail)
    have step: "grep_loop file_read pattern buf w =
        Option.bind (grep_loop file_read pattern k (drop n w)) (\<lambda>rest. Some (matching_lines pattern front @ rest))"
      unfolding grep_loop.simps [of _ _ buf] file_read_def n_def [symmetric] prod.case b_def [symmetric] f(4) k_def using False n by simp
    have kw: "matching_lines pattern (k @ drop n w) = matching_lines pattern (rear @ drop n w) \<and> lines_shorter 1023 (k @ drop n w)"
    proof (cases "length rear = length b")
      case True
      then have "front = []" "rear = b" using f(1) by simp_all
      then have "10 \<notin> set b" using f(3) by simp
      then have "length b < 1023" using lines_shorterD [of 1023 "[]" b "drop n w"] less.prems(3) unfolding bw by simp
      then have "drop n w = []" by (simp add: b_def n_def)
      then show ?thesis using True \<open>10 \<notin> set b\<close> f(2) by (simp add: k_def matching_lines_none lines_shorter_def)
    next
      case False
      then show ?thesis using s by (simp add: k_def)
    qed
    have "length (drop n w) < length w" using False n by simp
    moreover have "10 \<notin> set k" using f(2) by (simp add: k_def)
    moreover have "0 \<notin> set (k @ drop n w)" using less.prems(2) unfolding bw f(1) by (auto simp: k_def)
    ultimately have "grep_loop file_read pattern k (drop n w) = Some (matching_lines pattern (k @ drop n w))"
      using kw by (intro less.hyps) simp_all
    then show ?thesis using kw by (simp add: step bw f(5))
  qed
qed

text \<open>
  C25: On a file without NUL bytes whose lines are shorter than the buffer, grep ends and prints
  exactly the lines that match, in order, each with its newline; a last line without a newline
  is not printed.
\<close>

theorem grep_file:
  assumes "0 \<notin> set w" "lines_shorter 1023 w"
  shows "grep file_read pattern w = Some (matching_lines pattern w)"
  using grep_loop_file [of "[]" w pattern] assms by (simp add: grep_def)

theorem grep_file_witness: "grep file_read (str ''a.c'') (str ''xabc\<newline>b\<newline>'') = Some (str ''xabc\<newline>'')"
proof -
  have "lines_shorter 1023 (str ''xabc\<newline>b\<newline>'')" unfolding lines_shorter_def
  proof (intro allI impI)
    fix a l b assume "str ''xabc\<newline>b\<newline>'' = a @ l @ b"
    then have "length (str ''xabc\<newline>b\<newline>'') = length (a @ l @ b)" by simp
    then show "length l < 1023" by (simp add: str_def)
  qed
  then show ?thesis using grep_file [of "str ''xabc\<newline>b\<newline>''" "str ''a.c''"]
    by (simp add: str_def matching_lines_def match_def match_from.simps matchhere.simps)
qed

text \<open>The input of a pipe or of the console: a read returns what one write or one line left there.\<close>

definition chunk_read :: "nat \<Rightarrow> byte list list \<Rightarrow> byte list \<times> byte list list" where
  "chunk_read n cs = (case cs of [] \<Rightarrow> ([], []) | c # cs \<Rightarrow> (take n c, if length c \<le> n then cs else drop n c # cs))"

lemma grep_lines_none: "10 \<notin> set b \<Longrightarrow> grep_lines pattern b = ([], b)"
proof -
  assume "10 \<notin> set b"
  then have "strchr b 10 = None" by (auto simp: strchr_None cstring_def dest: set_takeWhileD)
  then show ?thesis by (simp add: grep_lines.simps)
qed

text \<open>
  A line that arrives in two reads, the first of them without a newline, is matched and
  printed without its first part: grep empties its buffer when it found no newline in it.
\<close>

theorem grep_short_read:
  assumes "a \<noteq> []" "length a \<le> 1023" "length b < 1023" "10 \<notin> set (a @ b)" "0 \<notin> set b"
  shows "grep chunk_read pattern [a, b @ [10]] = Some (if match pattern b then b @ [10] else [])"
proof -
  have r: "grep_loop chunk_read pattern [] [a, b @ [10]] = grep_loop chunk_read pattern [] [b @ [10]]"
    using assms by (subst grep_loop.simps) (simp add: chunk_read_def grep_lines_none)
  have e: "grep_loop chunk_read pattern buf [] = Some []" for buf
    by (subst grep_loop.simps) (simp add: chunk_read_def)
  have "0 \<notin> set (b @ [10])" using assms(5) by simp
  from grep_lines_spec [OF this, of pattern] obtain front rear where f: "b @ [10] = front @ rear" "10 \<notin> set rear"
      "grep_lines pattern (b @ [10]) = (matching_lines pattern front, rear)" "front \<noteq> []" by auto
  then have "rear = []" by (cases rear rule: rev_cases) auto
  then have g: "grep_lines pattern (b @ [10]) = (if match pattern b then b @ [10] else [], [])"
    using f(1,3) matching_lines_step [of b pattern "[]"] assms(4) by (simp add: matching_lines_def)
  show ?thesis unfolding grep_def r using assms
    by (subst grep_loop.simps) (simp add: chunk_read_def g e)
qed

theorem grep_short_read_witness:
  "grep chunk_read (str ''^ab'') [str ''ab'', str ''c'' @ [10]] = Some [] \<and>
   matching_lines (str ''^ab'') (str ''ab'' @ str ''c'' @ [10]) = str ''abc\<newline>''"
  using grep_short_read [of "str ''ab''" "str ''c''" "str ''^ab''"]
  by (simp add: str_def match_def matchhere.simps matching_lines_def)

end
