(* ===== verification/Spinlock.thy ===== *)
theory Spinlock
  imports Kernel
begin

text \<open>
  Spin locks between CPUs (spinlock.c).  The other theories run one CPU and keep its locks in
  \<open>held\<close>; here any number of CPUs run and the instructions of acquire and release that touch the
  lock are steps of their own, in any interleaving.  A CPU is a number; \<open>lk_cpu\<close> is the pointer to
  the CPU that holds the lock, None for NULL.  \<open>sapic\<close> holds the identifiers of the CPUs that mpinit
  found, the number of a CPU being its place there.  \<open>sheld\<close> and \<open>sextra\<close> record what a CPU has done: the
  locks whose word it has set and not yet cleared, and the calls of pushcli of its own that are
  not yet matched by popcli.
\<close>

section \<open>State\<close>

record cpu =
  ncli :: int
  intena :: bool
  FL_IF :: bool

record spinlock =
  locked :: uint
  lk_name :: string
  lk_cpu :: "nat option"
  lk_pcs :: "uint list"

text \<open>Where a CPU is: outside of the lock routines, or before the named action of one of them.\<close>

datatype pc =
    Run
  | AcqLocked nat | AcqOwner nat | AcqXchg nat | AcqCpu nat
  | RelLocked nat | RelOwner nat | RelClear nat | RelUnlock nat | RelPopcli
  | Panicked string

record smp =
  sapic :: "nat list"
  scpu :: "nat \<Rightarrow> cpu"
  slk :: "nat \<Rightarrow> spinlock"
  spc :: "nat \<Rightarrow> pc"
  sheld :: "nat \<Rightarrow> nat list"
  sextra :: "nat \<Rightarrow> nat"

definition upd_cpu :: "nat \<Rightarrow> (cpu \<Rightarrow> cpu) \<Rightarrow> smp \<Rightarrow> smp" where
  "upd_cpu c f s = s\<lparr>scpu := (scpu s)(c := f (scpu s c))\<rparr>"

definition upd_lk :: "nat \<Rightarrow> (spinlock \<Rightarrow> spinlock) \<Rightarrow> smp \<Rightarrow> smp" where
  "upd_lk l f s = s\<lparr>slk := (slk s)(l := f (slk s l))\<rparr>"

definition goto :: "nat \<Rightarrow> pc \<Rightarrow> smp \<Rightarrow> smp" where
  "goto c p s = s\<lparr>spc := (spc s)(c := p)\<rparr>"

section \<open>Routines\<close>

definition initlock :: "string \<Rightarrow> spinlock \<Rightarrow> spinlock" where
  "initlock name lk = lk\<lparr>lk_name := name, locked := 0, lk_cpu := None\<rparr>"

definition pushcli :: "cpu \<Rightarrow> cpu" where
  "pushcli x = (let y = x\<lparr>FL_IF := False\<rparr>;
     z = (if ncli y = 0 then y\<lparr>intena := FL_IF x\<rparr> else y) in z\<lparr>ncli := ncli z + 1\<rparr>)"

definition popcli :: "cpu \<Rightarrow> string + cpu" where
  "popcli x =
     (if FL_IF x then Inl ''popcli - interruptible'' else
      let y = x\<lparr>ncli := ncli x - 1\<rparr> in
      if ncli y < 0 then Inl ''popcli''
      else Inr (if ncli y = 0 \<and> intena y then y\<lparr>FL_IF := True\<rparr> else y))"

text \<open>mycpu on CPU \<open>c\<close>: the first entry with the identifier that the interrupt controller reports.\<close>

definition mycpu :: "nat \<Rightarrow> smp \<Rightarrow> string + nat" where
  "mycpu c s =
     (if FL_IF (scpu s c) then Inl ''mycpu called with interrupts enabled\<newline>''
      else case find (\<lambda>i. sapic s ! i = sapic s ! c) [0..<length (sapic s)] of
        Some i \<Rightarrow> Inr i | None \<Rightarrow> Inl ''unknown apicid\<newline>'')"

text \<open>
  getcallerpcs follows the saved frame pointers, starting below the argument at \<open>v\<close>: the return
  addresses of up to \<open>n\<close> frames, then zeroes.
\<close>

fun getcallerpcs_loop :: "mem \<Rightarrow> ptr \<Rightarrow> nat \<Rightarrow> uint list" where
  "getcallerpcs_loop m ebp 0 = []"
| "getcallerpcs_loop m ebp (Suc n) =
     (if ebp = 0 \<or> ebp < KERNBASE \<or> ebp = 0xFFFFFFFF then replicate (Suc n) 0
      else load32 m (ebp + 4) # getcallerpcs_loop m (load32 m ebp) n)"

definition getcallerpcs :: "mem \<Rightarrow> ptr \<Rightarrow> uint list" where
  "getcallerpcs m v = getcallerpcs_loop m (v - 8) 10"

text \<open>popcli on CPU \<open>c\<close>, then on to \<open>p\<close>.\<close>

definition do_popcli :: "nat \<Rightarrow> pc \<Rightarrow> smp \<Rightarrow> smp" where
  "do_popcli c p s = (case popcli (scpu s c) of
     Inl e \<Rightarrow> goto c (Panicked e) s
   | Inr x \<Rightarrow> goto c p (upd_cpu c (\<lambda>_. x) s))"

text \<open>holding reads the lock word, and the owner only if the word is set.\<close>

definition holding_locked :: "nat \<Rightarrow> nat \<Rightarrow> pc \<Rightarrow> pc \<Rightarrow> smp \<Rightarrow> smp" where
  "holding_locked c l yes no s = (let s1 = upd_cpu c pushcli s in
     if locked (slk s1 l) \<noteq> 0 then goto c yes s1 else do_popcli c no s1)"

definition holding_owner :: "nat \<Rightarrow> nat \<Rightarrow> pc \<Rightarrow> pc \<Rightarrow> smp \<Rightarrow> smp" where
  "holding_owner c l yes no s = (case mycpu c s of
     Inl e \<Rightarrow> goto c (Panicked e) s
   | Inr i \<Rightarrow> do_popcli c (if lk_cpu (slk s l) = Some i then yes else no) s)"

text \<open>The exchange of the lock word with 1: the new state and the old word, in one step.\<close>

definition xchg :: "nat \<Rightarrow> uint \<Rightarrow> smp \<Rightarrow> uint \<times> smp" where
  "xchg l v s = (locked (slk s l), upd_lk l (\<lambda>x. x\<lparr>locked := v\<rparr>) s)"

definition acquire_begin :: "nat \<Rightarrow> nat \<Rightarrow> smp \<Rightarrow> smp" where
  "acquire_begin c l s = goto c (AcqLocked l) (upd_cpu c pushcli s)"

text \<open>The last step of acquire records the CPU and the call stack, which is an argument.\<close>

fun acquire_step :: "uint list \<Rightarrow> nat \<Rightarrow> pc \<Rightarrow> smp \<Rightarrow> smp" where
  "acquire_step pcs c (AcqLocked l) s = holding_locked c l (AcqOwner l) (AcqXchg l) s"
| "acquire_step pcs c (AcqOwner l) s = holding_owner c l (Panicked ''acquire'') (AcqXchg l) s"
| "acquire_step pcs c (AcqXchg l) s = (case xchg l 1 s of (old, s1) \<Rightarrow>
     if old \<noteq> 0 then s1 else goto c (AcqCpu l) (s1\<lparr>sheld := (sheld s1)(c := l # sheld s1 c)\<rparr>))"
| "acquire_step pcs c (AcqCpu l) s =
     (case mycpu c s of
        Inl e \<Rightarrow> goto c (Panicked e) s
      | Inr i \<Rightarrow> goto c Run (upd_lk l (\<lambda>x. x\<lparr>lk_cpu := Some i, lk_pcs := pcs\<rparr>) s))"
| "acquire_step pcs c p s = s"

fun release_step :: "nat \<Rightarrow> pc \<Rightarrow> smp \<Rightarrow> smp" where
  "release_step c (RelLocked l) s = holding_locked c l (RelOwner l) (Panicked ''release'') s"
| "release_step c (RelOwner l) s = holding_owner c l (RelClear l) (Panicked ''release'') s"
| "release_step c (RelClear l) s = goto c (RelUnlock l) (upd_lk l (\<lambda>x. x\<lparr>lk_pcs := (lk_pcs x)[0 := 0], lk_cpu := None\<rparr>) s)"
| "release_step c (RelUnlock l) s =
     goto c RelPopcli ((upd_lk l (\<lambda>x. x\<lparr>locked := 0\<rparr>) s)\<lparr>sheld := (sheld s)(c := remove1 l (sheld s c))\<rparr>)"
| "release_step c RelPopcli s = do_popcli c Run s"
| "release_step c p s = s"

text \<open>
  A step of some CPU.  Outside of the lock routines a CPU may call acquire or release with any
  lock, call pushcli, call popcli to match it, disable interrupts, and enable them where
  nothing has asked for them to be off.
\<close>

inductive smp_step :: "smp \<Rightarrow> smp \<Rightarrow> bool" where
  call_acquire: "c < length (sapic s) \<Longrightarrow> spc s c = Run \<Longrightarrow> smp_step s (acquire_begin c l s)"
| call_release: "c < length (sapic s) \<Longrightarrow> spc s c = Run \<Longrightarrow> smp_step s (goto c (RelLocked l) s)"
| in_acquire: "c < length (sapic s) \<Longrightarrow> smp_step s (acquire_step (getcallerpcs m v) c (spc s c) s)"
| in_release: "c < length (sapic s) \<Longrightarrow> smp_step s (release_step c (spc s c) s)"
| call_pushcli: "c < length (sapic s) \<Longrightarrow> spc s c = Run \<Longrightarrow> smp_step s ((upd_cpu c pushcli s)\<lparr>sextra := (sextra s)(c := sextra s c + 1)\<rparr>)"
| call_popcli: "c < length (sapic s) \<Longrightarrow> spc s c = Run \<Longrightarrow> sextra s c > 0 \<Longrightarrow>
    smp_step s (do_popcli c Run (s\<lparr>sextra := (sextra s)(c := sextra s c - 1)\<rparr>))"
| call_cli: "c < length (sapic s) \<Longrightarrow> spc s c = Run \<Longrightarrow> smp_step s (upd_cpu c (\<lambda>x. x\<lparr>FL_IF := False\<rparr>) s)"
| call_sti: "c < length (sapic s) \<Longrightarrow> spc s c = Run \<Longrightarrow> ncli (scpu s c) = 0 \<Longrightarrow> smp_step s (upd_cpu c (\<lambda>x. x\<lparr>FL_IF := True\<rparr>) s)"

text \<open>At the start the CPUs have different identifiers, every lock has been through initlock and no CPU is in a critical section.\<close>

definition smp_init :: "smp \<Rightarrow> bool" where
  "smp_init s \<longleftrightarrow> distinct (sapic s) \<and> (\<forall>l. \<exists>name lk. slk s l = initlock name lk) \<and>
     (\<forall>c. spc s c = Run \<and> sheld s c = [] \<and> sextra s c = 0 \<and> ncli (scpu s c) = 0)"

inductive smp_reach :: "smp \<Rightarrow> bool" where
  reach_init: "smp_init s \<Longrightarrow> smp_reach s"
| reach_step: "smp_reach s \<Longrightarrow> smp_step s t \<Longrightarrow> smp_reach t"

section \<open>The invariant\<close>

text \<open>The calls of pushcli that a CPU inside a lock routine has made for it and not yet undone.\<close>

fun inflight :: "pc \<Rightarrow> nat" where
  "inflight (AcqLocked l) = 1"
| "inflight (AcqOwner l) = 2"
| "inflight (AcqXchg l) = 1"
| "inflight (RelOwner l) = 1"
| "inflight RelPopcli = 1"
| "inflight _ = 0"

definition panicked :: "smp \<Rightarrow> nat \<Rightarrow> bool" where
  "panicked s c \<longleftrightarrow> (\<exists>e. spc s c = Panicked e)"

text \<open>The nesting depth of a CPU counts its locks, and interrupts are off where it is not zero.\<close>

definition cpu_ok :: "smp \<Rightarrow> nat \<Rightarrow> bool" where
  "cpu_ok s c \<longleftrightarrow> panicked s c \<or>
     ncli (scpu s c) = int (length (sheld s c) + sextra s c + inflight (spc s c)) \<and> (0 < ncli (scpu s c) \<longrightarrow> \<not> FL_IF (scpu s c))"

definition pc_ok :: "smp \<Rightarrow> nat \<Rightarrow> bool" where
  "pc_ok s c \<longleftrightarrow> distinct (sheld s c) \<and>
     (\<forall>l. spc s c = AcqCpu l \<or> spc s c = RelClear l \<or> spc s c = RelUnlock l \<longrightarrow> l \<in> set (sheld s c)) \<and>
     (\<forall>l. spc s c = AcqCpu l \<or> spc s c = RelUnlock l \<longrightarrow> lk_cpu (slk s l) = None)"

definition lock_ok :: "smp \<Rightarrow> nat \<Rightarrow> bool" where
  "lock_ok s l \<longleftrightarrow> (locked (slk s l) \<noteq> 0 \<longleftrightarrow> (\<exists>c. l \<in> set (sheld s c))) \<and>
     (\<forall>c d. l \<in> set (sheld s c) \<and> l \<in> set (sheld s d) \<longrightarrow> c = d) \<and>
     (\<forall>c. lk_cpu (slk s l) = Some c \<longrightarrow> l \<in> set (sheld s c)) \<and>
     (\<forall>c. l \<in> set (sheld s c) \<and> lk_cpu (slk s l) \<noteq> Some c \<longrightarrow> spc s c = AcqCpu l \<or> spc s c = RelUnlock l \<or> panicked s c)"

definition smp_inv :: "smp \<Rightarrow> bool" where
  "smp_inv s \<longleftrightarrow> distinct (sapic s) \<and> (\<forall>c. cpu_ok s c) \<and> (\<forall>c. pc_ok s c) \<and> (\<forall>l. lock_ok s l)"

lemma smp_init_inv: "smp_init s \<Longrightarrow> smp_inv s"
proof -
  assume s: "smp_init s"
  have "locked (slk s l) = 0 \<and> lk_cpu (slk s l) = None" for l
  proof -
    obtain name lk where "slk s l = initlock name lk" using s unfolding smp_init_def by blast
    then show ?thesis by (simp add: initlock_def)
  qed
  then show ?thesis using s by (simp add: smp_inv_def smp_init_def cpu_ok_def pc_ok_def lock_ok_def)
qed

lemma mycpu_self:
  assumes "distinct (sapic s)" "c < length (sapic s)" "\<not> FL_IF (scpu s c)"
  shows "mycpu c s = Inr c"
proof -
  have "find (\<lambda>i. sapic s ! i = sapic s ! c) [0..<length (sapic s)] = Some c"
    unfolding find_Some_iff using assms by (intro exI [of _ c]) (auto simp: nth_eq_iff_index_eq)
  then show ?thesis using assms(3) by (simp add: mycpu_def)
qed

text \<open>Changes of one CPU that leave the locks and the ownership as they are.\<close>

lemma smp_inv_cpu:
  assumes "smp_inv s" "sapic t = sapic s" "slk t = slk s" "sheld t = sheld s"
    and "\<And>d. d \<noteq> c \<Longrightarrow> scpu t d = scpu s d \<and> spc t d = spc s d \<and> sextra t d = sextra s d"
    and "cpu_ok t c"
    and "\<And>l. spc t c \<noteq> AcqCpu l \<and> spc t c \<noteq> RelUnlock l \<and> (spc t c = RelClear l \<longrightarrow> l \<in> set (sheld s c))"
    and "\<And>l. spc s c \<noteq> AcqCpu l \<and> spc s c \<noteq> RelUnlock l" "\<not> panicked s c"
  shows "smp_inv t"
proof -
  have c: "cpu_ok t d" for d
    using assms(1,4,5,6) by (cases "d = c") (simp_all add: smp_inv_def cpu_ok_def panicked_def)
  have p: "pc_ok t d" for d
  proof (cases "d = c")
    case True
    have "pc_ok s c" using assms(1) by (simp add: smp_inv_def)
    then show ?thesis unfolding True pc_ok_def using assms(4,7) by simp
  next
    case False
    then show ?thesis using assms(1,3,4,5) by (simp add: smp_inv_def pc_ok_def)
  qed
  have l: "lock_ok t l" for l
  proof -
    have s: "lock_ok s l" using assms(1) by (simp add: smp_inv_def)
    have "spc t d = AcqCpu l \<or> spc t d = RelUnlock l \<or> panicked t d" if "l \<in> set (sheld s d)" "lk_cpu (slk s l) \<noteq> Some d" for d
      using that s assms(5) [of d] assms(8) [of l] assms(9) unfolding lock_ok_def panicked_def by (cases "d = c") auto
    then show ?thesis using s unfolding lock_ok_def assms(3,4) by blast
  qed
  show ?thesis using c p l assms(1,2) by (simp add: smp_inv_def)
qed

lemma pushcli_simps [simp]: "ncli (pushcli x) = ncli x + 1" "\<not> FL_IF (pushcli x)"
  by (simp_all add: pushcli_def Let_def)

lemma popcli_ok:
  assumes "\<not> FL_IF x" "0 < ncli x"
  shows "\<exists>y. popcli x = Inr y \<and> ncli y = ncli x - 1 \<and> (0 < ncli y \<longrightarrow> \<not> FL_IF y)"
  using assms by (auto simp: popcli_def Let_def)

lemma smp_sel [simp]:
  "scpu (upd_cpu c f s) = (scpu s)(c := f (scpu s c))" "slk (upd_cpu c f s) = slk s" "spc (upd_cpu c f s) = spc s"
  "sheld (upd_cpu c f s) = sheld s" "sextra (upd_cpu c f s) = sextra s" "sapic (upd_cpu c f s) = sapic s"
  "scpu (goto c p s) = scpu s" "slk (goto c p s) = slk s" "spc (goto c p s) = (spc s)(c := p)"
  "sheld (goto c p s) = sheld s" "sextra (goto c p s) = sextra s" "sapic (goto c p s) = sapic s"
  "scpu (upd_lk l g s) = scpu s" "slk (upd_lk l g s) = (slk s)(l := g (slk s l))" "spc (upd_lk l g s) = spc s"
  "sheld (upd_lk l g s) = sheld s" "sextra (upd_lk l g s) = sextra s" "sapic (upd_lk l g s) = sapic s"
  by (simp_all add: upd_cpu_def goto_def upd_lk_def)

text \<open>A CPU on its way through the routines is well counted, so its popcli does not panic.\<close>

lemma smp_invD:
  assumes "smp_inv s"
  shows "distinct (sapic s)" "\<not> panicked s c \<Longrightarrow> ncli (scpu s c) = int (length (sheld s c) + sextra s c + inflight (spc s c))"
    "\<not> panicked s c \<Longrightarrow> 0 < ncli (scpu s c) \<Longrightarrow> \<not> FL_IF (scpu s c)" "pc_ok s c" "lock_ok s l"
  using assms by (auto simp: smp_inv_def cpu_ok_def)

lemma inv_do_popcli:
  assumes "smp_inv s" "sapic t = sapic s" "slk t = slk s" "sheld t = sheld s"
    and "\<And>d. d \<noteq> c \<Longrightarrow> scpu t d = scpu s d \<and> spc t d = spc s d \<and> sextra t d = sextra s d"
    and "\<not> FL_IF (scpu t c)" "0 < ncli (scpu t c)"
      "(\<exists>e. p = Panicked e) \<or> ncli (scpu t c) = int (length (sheld s c) + sextra t c + inflight p + 1)"
    and "\<And>l. p \<noteq> AcqCpu l \<and> p \<noteq> RelUnlock l \<and> (p = RelClear l \<longrightarrow> l \<in> set (sheld s c))"
    and "\<And>l. spc s c \<noteq> AcqCpu l \<and> spc s c \<noteq> RelUnlock l" "\<not> panicked s c"
  shows "smp_inv (do_popcli c p t)"
proof -
  from popcli_ok [OF assms(6,7)] obtain y where
    y: "popcli (scpu t c) = Inr y" "ncli y = ncli (scpu t c) - 1" "0 < ncli y \<longrightarrow> \<not> FL_IF y" by blast
  have t: "do_popcli c p t = goto c p (upd_cpu c (\<lambda>_. y) t)" by (simp add: do_popcli_def y(1))
  have k: "cpu_ok (goto c p (upd_cpu c (\<lambda>_. y) t)) c" using y assms(4,8) by (auto simp: cpu_ok_def panicked_def)
  show ?thesis unfolding t
    by (rule smp_inv_cpu [OF assms(1), of _ c]) (use assms(2-5,9-11) k in simp_all)
qed

lemma inv_holding_locked:
  assumes "smp_inv s" "\<not> panicked s c" "\<And>l. spc s c \<noteq> AcqCpu l \<and> spc s c \<noteq> RelUnlock l"
    and "inflight yes = Suc (inflight (spc s c))" "inflight no = inflight (spc s c) \<or> (\<exists>e. no = Panicked e)"
    and "\<And>l. yes \<noteq> AcqCpu l \<and> yes \<noteq> RelUnlock l \<and> yes \<noteq> RelClear l \<and> no \<noteq> AcqCpu l \<and> no \<noteq> RelUnlock l \<and> no \<noteq> RelClear l"
  shows "smp_inv (holding_locked c l yes no s)"
proof -
  define t where "t = upd_cpu c pushcli s"
  have n: "ncli (scpu t c) = int (length (sheld s c) + sextra s c + inflight (spc s c) + 1)"
    using smp_invD(2) [OF assms(1,2)] by (simp add: t_def)
  show ?thesis
  proof (cases "locked (slk s l) = 0")
    case False
    have "smp_inv (goto c yes t)"
      by (rule smp_inv_cpu [OF assms(1), of _ c]) (use assms(2-6) n in \<open>simp_all add: t_def cpu_ok_def\<close>)
    then show ?thesis using False by (simp add: holding_locked_def t_def)
  next
    case True
    have "smp_inv (do_popcli c no t)"
      by (rule inv_do_popcli [OF assms(1)]) (use assms(2-6) n in \<open>auto simp: t_def\<close>)
    then show ?thesis using True by (simp add: holding_locked_def t_def)
  qed
qed

lemma inv_holding_owner:
  assumes "smp_inv s" "c < length (sapic s)" "\<And>l. spc s c \<noteq> AcqCpu l \<and> spc s c \<noteq> RelUnlock l" "\<not> panicked s c"
    and "inflight (spc s c) = Suc k" "\<And>p. p = yes \<or> p = no \<Longrightarrow> inflight p = k \<or> (\<exists>e. p = Panicked e)"
    and "\<And>l'. yes \<noteq> AcqCpu l' \<and> yes \<noteq> RelUnlock l' \<and> (yes = RelClear l' \<longrightarrow> l' = l)"
      "\<And>l. no \<noteq> AcqCpu l \<and> no \<noteq> RelUnlock l \<and> no \<noteq> RelClear l"
  shows "smp_inv (holding_owner c l yes no s)"
proof -
  have n: "ncli (scpu s c) = int (length (sheld s c) + sextra s c + Suc k)" using smp_invD(2) [OF assms(1,4)] assms(5) by simp
  then have f: "\<not> FL_IF (scpu s c)" using smp_invD(3) [OF assms(1,4)] by simp
  then have m: "mycpu c s = Inr c" using smp_invD(1) [OF assms(1)] assms(2) by (intro mycpu_self)
  define p where "p = (if lk_cpu (slk s l) = Some c then yes else no)"
  have own: "l \<in> set (sheld s c)" if "lk_cpu (slk s l) = Some c" using smp_invD(5) [OF assms(1), of l] that by (simp add: lock_ok_def)
  have k: "(\<exists>e. p = Panicked e) \<or> inflight p = k" using assms(6) [of p] by (auto simp: p_def)
  have "p \<noteq> AcqCpu l' \<and> p \<noteq> RelUnlock l' \<and> (p = RelClear l' \<longrightarrow> l' \<in> set (sheld s c))" for l'
    using assms(7,8) [of l'] own by (auto simp: p_def)
  then have "smp_inv (do_popcli c p s)"
    by (intro inv_do_popcli [OF assms(1)]) (use assms(3,4) n f k in auto)
  then show ?thesis by (simp add: holding_owner_def m p_def)
qed

section \<open>Every step keeps the invariant\<close>

lemma lock_ok_frame:
  assumes "smp_inv s" "slk t k = slk s k" "\<And>d. k \<in> set (sheld t d) \<longleftrightarrow> k \<in> set (sheld s d)"
    and "\<And>d. d \<noteq> c \<Longrightarrow> spc t d = spc s d" "spc s c \<noteq> AcqCpu k" "spc s c \<noteq> RelUnlock k" "\<not> panicked s c"
  shows "lock_ok t k"
proof -
  have "spc s d = AcqCpu k \<or> spc s d = RelUnlock k \<or> panicked s d \<Longrightarrow>
      spc t d = AcqCpu k \<or> spc t d = RelUnlock k \<or> panicked t d" for d
    using assms(4-7) by (cases "d = c") (simp_all add: panicked_def)
  then show ?thesis using smp_invD(5) [OF assms(1), of k] assms(2,3) unfolding lock_ok_def by metis
qed

lemma inv_xchg:
  assumes "smp_inv s" "spc s c = AcqXchg l"
  shows "smp_inv (acquire_step pcs c (AcqXchg l) s)"
proof (cases "locked (slk s l) = 0")
  case False
  have t: "acquire_step pcs c (AcqXchg l) s = upd_lk l (\<lambda>x. x\<lparr>locked := 1\<rparr>) s" using False by (simp add: xchg_def)
  have "lock_ok (upd_lk l (\<lambda>x. x\<lparr>locked := 1\<rparr>) s) k" for k
    using smp_invD(5) [OF assms(1), of k] False by (cases "k = l") (simp_all add: lock_ok_def panicked_def)
  then show ?thesis using assms(1) unfolding t by (simp add: smp_inv_def cpu_ok_def pc_ok_def panicked_def)
next
  case True
  define t where "t = goto c (AcqCpu l) ((upd_lk l (\<lambda>x. x\<lparr>locked := 1\<rparr>) s)\<lparr>sheld := (sheld s)(c := l # sheld s c)\<rparr>)"
  have t: "acquire_step pcs c (AcqXchg l) s = t" using True by (simp add: xchg_def t_def)
  have free: "l \<notin> set (sheld s d)" "lk_cpu (slk s l) = None" for d
    using smp_invD(5) [OF assms(1), of l] True by (auto simp: lock_ok_def)
  have np: "\<not> panicked s c" using assms(2) by (simp add: panicked_def)
  have "cpu_ok t d" for d
    using assms np smp_invD(2,3) [OF assms(1) np] by (cases "d = c") (simp_all add: t_def smp_inv_def cpu_ok_def panicked_def)
  moreover have "pc_ok t d" for d
    using smp_invD(4) [OF assms(1), of d] free by (cases "d = c") (auto simp: t_def pc_ok_def)
  moreover have "lock_ok t k" for k
  proof (cases "k = l")
    case True
    then show ?thesis using free by (auto simp: t_def lock_ok_def)
  next
    case False
    then show ?thesis using assms(2) np by (intro lock_ok_frame [OF assms(1), of t k c]) (simp_all add: t_def)
  qed
  ultimately show ?thesis using assms(1) unfolding t by (simp add: smp_inv_def) (simp add: t_def)
qed

lemma inv_acq_cpu:
  assumes "smp_inv s" "spc s c = AcqCpu l" "c < length (sapic s)"
  shows "smp_inv (acquire_step pcs c (AcqCpu l) s)"
proof -
  have np: "\<not> panicked s c" using assms(2) by (simp add: panicked_def)
  have l: "l \<in> set (sheld s c)" "lk_cpu (slk s l) = None" using smp_invD(4) [OF assms(1), of c] assms(2) by (simp_all add: pc_ok_def)
  then have "0 < length (sheld s c)" by (cases "sheld s c") simp_all
  then have "0 < ncli (scpu s c)" using smp_invD(2) [OF assms(1) np] by linarith
  then have "mycpu c s = Inr c" using smp_invD(1,3) [OF assms(1)] np assms(3) by (intro mycpu_self)
  then have t: "acquire_step pcs c (AcqCpu l) s = goto c Run (upd_lk l (\<lambda>x. x\<lparr>lk_cpu := Some c, lk_pcs := pcs\<rparr>) s)" (is "_ = ?t") by simp
  have "cpu_ok ?t d" for d
    using assms np smp_invD(2,3) [OF assms(1) np] by (cases "d = c") (simp_all add: smp_inv_def cpu_ok_def panicked_def)
  moreover have "pc_ok ?t d" for d
  proof (cases "d = c")
    case False
    have "l \<notin> set (sheld s d)" using smp_invD(5) [OF assms(1), of l] l(1) False by (auto simp: lock_ok_def)
    then show ?thesis using smp_invD(4) [OF assms(1), of d] False by (auto simp: pc_ok_def)
  qed (use smp_invD(4) [OF assms(1), of c] in \<open>simp add: pc_ok_def\<close>)
  moreover have "lock_ok ?t k" for k
  proof (cases "k = l")
    case True
    then show ?thesis using smp_invD(5) [OF assms(1), of l] l by (auto simp: lock_ok_def)
  next
    case False
    then show ?thesis using assms(2) np by (intro lock_ok_frame [OF assms(1), of ?t k c]) simp_all
  qed
  ultimately show ?thesis using assms(1) unfolding t by (simp add: smp_inv_def)
qed

lemma inv_rel_clear:
  assumes "smp_inv s" "spc s c = RelClear l"
  shows "smp_inv (release_step c (RelClear l) s)"
proof -
  let ?t = "goto c (RelUnlock l) (upd_lk l (\<lambda>x. x\<lparr>lk_pcs := (lk_pcs x)[0 := 0], lk_cpu := None\<rparr>) s)"
  have np: "\<not> panicked s c" using assms(2) by (simp add: panicked_def)
  have l: "l \<in> set (sheld s c)" using smp_invD(4) [OF assms(1), of c] assms(2) by (simp add: pc_ok_def)
  have "cpu_ok ?t d" for d
    using assms np smp_invD(2,3) [OF assms(1) np] by (cases "d = c") (simp_all add: smp_inv_def cpu_ok_def panicked_def)
  moreover have "pc_ok ?t d" for d
    using smp_invD(4) [OF assms(1), of d] l by (cases "d = c") (auto simp: pc_ok_def)
  moreover have "lock_ok ?t k" for k
  proof (cases "k = l")
    case True
    then show ?thesis using smp_invD(5) [OF assms(1), of l] l by (auto simp: lock_ok_def)
  next
    case False
    then show ?thesis using assms(2) np by (intro lock_ok_frame [OF assms(1), of ?t k c]) simp_all
  qed
  ultimately show ?thesis using assms(1) by (simp add: smp_inv_def)
qed

lemma inv_rel_unlock:
  assumes "smp_inv s" "spc s c = RelUnlock l"
  shows "smp_inv (release_step c (RelUnlock l) s)"
proof -
  let ?t = "goto c RelPopcli ((upd_lk l (\<lambda>x. x\<lparr>locked := 0\<rparr>) s)\<lparr>sheld := (sheld s)(c := remove1 l (sheld s c))\<rparr>)"
  have np: "\<not> panicked s c" using assms(2) by (simp add: panicked_def)
  have l: "l \<in> set (sheld s c)" "distinct (sheld s c)" "lk_cpu (slk s l) = None"
    using smp_invD(4) [OF assms(1), of c] assms(2) by (simp_all add: pc_ok_def)
  then have r: "length (sheld s c) = Suc (length (remove1 l (sheld s c)))" using length_pos_if_in_set [OF l(1)] by (simp add: length_remove1)
  have other: "l \<notin> set (sheld s d)" if "d \<noteq> c" for d using smp_invD(5) [OF assms(1), of l] l(1) that by (auto simp: lock_ok_def)
  have "cpu_ok ?t d" for d
    using assms np smp_invD(2,3) [OF assms(1) np] r by (cases "d = c") (simp_all add: smp_inv_def cpu_ok_def panicked_def)
  moreover have "pc_ok ?t d" for d
    using smp_invD(4) [OF assms(1), of d] other by (cases "d = c") (auto simp: pc_ok_def)
  moreover have "lock_ok ?t k" for k
  proof (cases "k = l")
    case True
    then show ?thesis using l other by (auto simp: lock_ok_def)
  next
    case False
    then show ?thesis using assms(2) np l(2) by (intro lock_ok_frame [OF assms(1), of ?t k c]) simp_all
  qed
  ultimately show ?thesis using assms(1) by (simp add: smp_inv_def)
qed

lemma inv_acquire:
  assumes "smp_inv s" "c < length (sapic s)"
  shows "smp_inv (acquire_step pcs c (spc s c) s)"
proof (cases "spc s c")
  case (AcqLocked l)
  have "smp_inv (holding_locked c l (AcqOwner l) (AcqXchg l) s)"
    using AcqLocked by (intro inv_holding_locked [OF assms(1)]) (simp_all add: panicked_def)
  then show ?thesis using AcqLocked by simp
next
  case (AcqOwner l)
  have "smp_inv (holding_owner c l (Panicked ''acquire'') (AcqXchg l) s)"
    using AcqOwner by (intro inv_holding_owner [OF assms, where k = 1]) (auto simp: panicked_def)
  then show ?thesis using AcqOwner by simp
next
  case (AcqXchg l)
  then show ?thesis using inv_xchg [OF assms(1)] by metis
next
  case (AcqCpu l)
  then show ?thesis using inv_acq_cpu [OF assms(1) _ assms(2)] by metis
qed (use assms(1) in simp_all)

lemma inv_release:
  assumes "smp_inv s" "c < length (sapic s)"
  shows "smp_inv (release_step c (spc s c) s)"
proof (cases "spc s c")
  case (RelLocked l)
  have "smp_inv (holding_locked c l (RelOwner l) (Panicked ''release'') s)"
    using RelLocked by (intro inv_holding_locked [OF assms(1)]) (simp_all add: panicked_def)
  then show ?thesis using RelLocked by simp
next
  case (RelOwner l)
  have "smp_inv (holding_owner c l (RelClear l) (Panicked ''release'') s)"
    using RelOwner by (intro inv_holding_owner [OF assms, where k = 0]) (auto simp: panicked_def)
  then show ?thesis using RelOwner by simp
next
  case (RelClear l)
  then show ?thesis using inv_rel_clear [OF assms(1)] by metis
next
  case (RelUnlock l)
  then show ?thesis using inv_rel_unlock [OF assms(1)] by metis
next
  case RelPopcli
  then have np: "\<not> panicked s c" by (simp add: panicked_def)
  have "smp_inv (do_popcli c Run s)"
    using smp_invD(2,3) [OF assms(1) np] RelPopcli np by (intro inv_do_popcli [OF assms(1)]) simp_all
  then show ?thesis using RelPopcli by simp
qed (use assms(1) in simp_all)

lemma smp_step_inv: "smp_step s t \<Longrightarrow> smp_inv s \<Longrightarrow> smp_inv t"
proof (induction rule: smp_step.induct)
  case (call_acquire c s l)
  then have np: "\<not> panicked s c" by (simp add: panicked_def)
  show ?case unfolding acquire_begin_def
    by (rule smp_inv_cpu [OF call_acquire(3), of _ c]) (use smp_invD(2) [OF call_acquire(3) np] call_acquire np in \<open>simp_all add: cpu_ok_def\<close>)
next
  case (call_release c s l)
  then have np: "\<not> panicked s c" by (simp add: panicked_def)
  show ?case
    by (rule smp_inv_cpu [OF call_release(3), of _ c]) (use smp_invD(2,3) [OF call_release(3) np] call_release np in \<open>simp_all add: cpu_ok_def\<close>)
next
  case (call_pushcli c s)
  then have np: "\<not> panicked s c" by (simp add: panicked_def)
  show ?case
    by (rule smp_inv_cpu [OF call_pushcli(3), of _ c]) (use smp_invD(2) [OF call_pushcli(3) np] call_pushcli np in \<open>simp_all add: cpu_ok_def\<close>)
next
  case (call_popcli c s)
  then have np: "\<not> panicked s c" by (simp add: panicked_def)
  show ?case
    by (rule inv_do_popcli [OF call_popcli(4)]) (use smp_invD(2,3) [OF call_popcli(4) np] call_popcli np in simp_all)
next
  case (call_cli c s)
  then have np: "\<not> panicked s c" by (simp add: panicked_def)
  show ?case
    by (rule smp_inv_cpu [OF call_cli(3), of _ c]) (use smp_invD(2) [OF call_cli(3) np] call_cli np in \<open>simp_all add: cpu_ok_def\<close>)
next
  case (call_sti c s)
  then have np: "\<not> panicked s c" by (simp add: panicked_def)
  show ?case
    by (rule smp_inv_cpu [OF call_sti(4), of _ c]) (use smp_invD(2) [OF call_sti(4) np] call_sti np in \<open>simp_all add: cpu_ok_def\<close>)
qed (simp_all add: inv_acquire inv_release)

lemma smp_reach_inv: "smp_reach s \<Longrightarrow> smp_inv s"
  by (induction rule: smp_reach.induct) (auto intro: smp_init_inv smp_step_inv)

section \<open>Mutual exclusion\<close>

text \<open>
  C4: In every interleaving of any number of CPUs that call acquire, release, pushcli and popcli,
  two CPUs never hold the same lock; the word of a lock is set exactly while some CPU holds it;
  a CPU that holds a lock, or has a call of pushcli outstanding, runs with interrupts off; and
  the recorded owner of a lock is a CPU that holds it.
\<close>

theorem spin_mutual_exclusion:
  assumes "smp_reach s"
  shows "(l \<in> set (sheld s c) \<and> l \<in> set (sheld s d) \<longrightarrow> c = d) \<and>
    (locked (slk s l) \<noteq> 0 \<longleftrightarrow> (\<exists>c. l \<in> set (sheld s c))) \<and>
    (spc s c = Run \<and> (sheld s c \<noteq> [] \<or> sextra s c > 0) \<longrightarrow> \<not> FL_IF (scpu s c)) \<and>
    (lk_cpu (slk s l) = Some c \<longrightarrow> l \<in> set (sheld s c))"
proof -
  have i: "smp_inv s" by (rule smp_reach_inv [OF assms])
  have "\<not> FL_IF (scpu s c)" if "spc s c = Run" "sheld s c \<noteq> [] \<or> sextra s c > 0"
  proof -
    have np: "\<not> panicked s c" using that(1) by (simp add: panicked_def)
    have "length (sheld s c) + sextra s c > 0" using that(2) by auto
    then show ?thesis using smp_invD(2,3) [OF i np] by linarith
  qed
  then show ?thesis using smp_invD(5) [OF i, of l] unfolding lock_ok_def by blast
qed

text \<open>Two CPUs and no lock taken; then CPU 0 runs acquire without interference.\<close>

definition ex_smp :: smp where
  "ex_smp = \<lparr>sapic = [0, 1], scpu = (\<lambda>_. \<lparr>ncli = 0, intena = False, FL_IF = True\<rparr>),
     slk = (\<lambda>_. initlock ''lk'' \<lparr>locked = 0, lk_name = '''', lk_cpu = None, lk_pcs = []\<rparr>),
     spc = (\<lambda>_. Run), sheld = (\<lambda>_. []), sextra = (\<lambda>_. 0)\<rparr>"

fun run_acquire :: "nat \<Rightarrow> nat \<Rightarrow> smp \<Rightarrow> smp" where
  "run_acquire c 0 s = s"
| "run_acquire c (Suc n) s = run_acquire c n (acquire_step (getcallerpcs (\<lambda>_. 0) 0) c (spc s c) s)"

lemma reach_run_acquire: "smp_reach s \<Longrightarrow> c < length (sapic s) \<Longrightarrow> smp_reach (run_acquire c n s)"
proof (induction n arbitrary: s)
  case (Suc n)
  define t where "t = acquire_step (getcallerpcs (\<lambda>_. 0) 0) c (spc s c) s"
  have "sapic t = sapic s" unfolding t_def
    by (cases "spc s c") (auto simp: holding_locked_def holding_owner_def do_popcli_def xchg_def Let_def split: sum.splits)
  moreover have "smp_reach t" unfolding t_def by (rule reach_step [OF Suc(2) in_acquire [OF Suc(3)]])
  ultimately show ?case using Suc(1,3) by (simp add: t_def)
qed simp

lemma ex_smp_reach: "smp_reach (run_acquire 0 3 (acquire_begin 0 7 ex_smp))"
proof (rule reach_run_acquire)
  have "smp_reach ex_smp" by (rule reach_init) (auto simp: smp_init_def ex_smp_def)
  then show "smp_reach (acquire_begin 0 7 ex_smp)" by (rule reach_step) (rule call_acquire; simp add: ex_smp_def)
qed (simp add: ex_smp_def acquire_begin_def)

lemma ex_smp_acquired:
  "spc (run_acquire 0 3 (acquire_begin 0 7 ex_smp)) 0 = Run" "sheld (run_acquire 0 3 (acquire_begin 0 7 ex_smp)) 0 = [7]"
  by (simp_all add: numeral_3_eq_3 acquire_begin_def ex_smp_def holding_locked_def do_popcli_def popcli_def pushcli_def initlock_def
      xchg_def mycpu_def upd_cpu_def goto_def upd_lk_def Let_def)

theorem spin_mutual_exclusion_witness:
  "\<exists>s. smp_reach s \<and> 7 \<in> set (sheld s 0) \<and> 7 \<notin> set (sheld s 1) \<and> locked (slk s 7) \<noteq> 0 \<and> \<not> FL_IF (scpu s 0)"
proof (intro exI conjI)
  let ?s = "run_acquire 0 3 (acquire_begin 0 7 ex_smp)"
  show "smp_reach ?s" by (rule ex_smp_reach)
  note m = spin_mutual_exclusion [OF ex_smp_reach, of 7 0 1]
  show "7 \<in> set (sheld ?s 0)" using ex_smp_acquired by simp
  then show "7 \<notin> set (sheld ?s 1)" "locked (slk ?s 7) \<noteq> 0" "\<not> FL_IF (scpu ?s 0)" using m ex_smp_acquired(1) by auto
qed

text \<open>A CPU panics only for a misuse of the locks: it acquires a lock it holds or releases one it does not.\<close>

lemma do_popcli_panicked:
  assumes "\<not> FL_IF (scpu s c)" "0 < ncli (scpu s c)"
  shows "panicked (do_popcli c p s) c \<longleftrightarrow> (\<exists>e. p = Panicked e)"
  using popcli_ok [OF assms] by (auto simp: do_popcli_def panicked_def)

lemma lock_panics_on_misuse:
  assumes "smp_inv s" "c < length (sapic s)" "\<not> panicked s c"
    and "panicked (acquire_step pcs c (spc s c) s) c \<or> panicked (release_step c (spc s c) s) c"
  shows "(\<exists>l. spc s c = AcqOwner l \<and> l \<in> set (sheld s c)) \<or>
    (\<exists>l. (spc s c = RelLocked l \<or> spc s c = RelOwner l) \<and> l \<notin> set (sheld s c))"
proof -
  note n = smp_invD(2) [OF assms(1,3)] and f = smp_invD(3) [OF assms(1,3)]
  have my: "mycpu c s = Inr c" if "0 < ncli (scpu s c)"
    using mycpu_self [OF smp_invD(1) [OF assms(1)] assms(2) f [OF that]] .
  have push: "panicked (do_popcli c p (upd_cpu c pushcli s)) c \<longleftrightarrow> (\<exists>e. p = Panicked e)" for p
    using n by (intro do_popcli_panicked) simp_all
  show ?thesis
  proof (cases "spc s c")
    case (AcqLocked l)
    then show ?thesis using assms(3,4) push by (auto simp: holding_locked_def Let_def panicked_def split: if_splits)
  next
    case (AcqOwner l)
    then have p: "0 < ncli (scpu s c)" using n by simp
    then have "lk_cpu (slk s l) = Some c" using assms(3,4) AcqOwner my do_popcli_panicked [OF f [OF p] p]
      by (auto simp: holding_owner_def split: if_splits)
    then show ?thesis using AcqOwner smp_invD(5) [OF assms(1), of l] by (simp add: lock_ok_def)
  next
    case (AcqXchg l)
    then show ?thesis using assms(3,4) by (auto simp: xchg_def panicked_def split: if_splits)
  next
    case (AcqCpu l)
    then have "l \<in> set (sheld s c)" using smp_invD(4) [OF assms(1), of c] by (simp add: pc_ok_def)
    then have "0 < ncli (scpu s c)" using n length_pos_if_in_set [of l "sheld s c"] by linarith
    then show ?thesis using assms(3,4) AcqCpu my by (simp add: panicked_def)
  next
    case (RelLocked l)
    then have "locked (slk s l) = 0" using assms(3,4) by (auto simp: holding_locked_def Let_def panicked_def split: if_splits)
    then show ?thesis using RelLocked smp_invD(5) [OF assms(1), of l] by (auto simp: lock_ok_def)
  next
    case (RelOwner l)
    then have p: "0 < ncli (scpu s c)" using n by simp
    then have "lk_cpu (slk s l) \<noteq> Some c" using assms(3,4) RelOwner my do_popcli_panicked [OF f [OF p] p]
      by (auto simp: holding_owner_def split: if_splits)
    then show ?thesis using RelOwner assms(3) smp_invD(5) [OF assms(1), of l] by (auto simp: lock_ok_def)
  next
    case RelPopcli
    then have p: "0 < ncli (scpu s c)" using n by simp
    then show ?thesis using assms(3,4) RelPopcli do_popcli_panicked [OF f [OF p] p] by simp
  qed (use assms(3,4) in \<open>auto simp: panicked_def\<close>)
qed

end
