(* ===== verification/Umalloc.thy ===== *)
theory Umalloc
  imports Prelude
begin

text \<open>
  The memory allocator of the user library (umalloc.c).  The free list is a ring of block headers
  in order of address that starts at the header \<open>base\<close> of size 0; a block is a number of units of
  the size of a header, 8 bytes, the first of them being its header.  The headers are kept by
  address: \<open>hd_ptr h p\<close> is \<^verbatim>\<open>p->s.ptr\<close> and \<open>hd_size h p\<close> is \<^verbatim>\<open>p->s.size\<close>.  The system call sbrk is an
  argument: \<open>sbrk n w\<close> is the address of \<open>n\<close> new bytes, or -1, and the new state of the world.
\<close>

record heap =
  hd_ptr :: "ptr \<Rightarrow> ptr"
  hd_size :: "ptr \<Rightarrow> uint"
  freep :: ptr

definition set_ptr :: "ptr \<Rightarrow> ptr \<Rightarrow> heap \<Rightarrow> heap" where
  "set_ptr p v h = h\<lparr>hd_ptr := (hd_ptr h)(p := v)\<rparr>"

definition set_size :: "ptr \<Rightarrow> uint \<Rightarrow> heap \<Rightarrow> heap" where
  "set_size p v h = h\<lparr>hd_size := (hd_size h)(p := v)\<rparr>"

section \<open>free\<close>

text \<open>The search for the place of the block; it could go round the ring for ever.\<close>

partial_function (option) free_loop :: "heap \<Rightarrow> ptr \<Rightarrow> ptr \<Rightarrow> ptr option" where
  "free_loop h bp p =
     (if bp > p \<and> bp < hd_ptr h p then Some p
      else if p \<ge> hd_ptr h p \<and> (bp > p \<or> bp < hd_ptr h p) then Some p
      else free_loop h bp (hd_ptr h p))"

definition free_join_upper :: "ptr \<Rightarrow> ptr \<Rightarrow> heap \<Rightarrow> heap" where
  "free_join_upper bp p h =
     (if bp + 8 * hd_size h bp = hd_ptr h p
      then set_ptr bp (hd_ptr h (hd_ptr h p)) (set_size bp (hd_size h bp + hd_size h (hd_ptr h p)) h)
      else set_ptr bp (hd_ptr h p) h)"

definition free_join_lower :: "ptr \<Rightarrow> ptr \<Rightarrow> heap \<Rightarrow> heap" where
  "free_join_lower bp p h =
     (if p + 8 * hd_size h p = bp
      then set_ptr p (hd_ptr h bp) (set_size p (hd_size h p + hd_size h bp) h)
      else set_ptr p bp h)"

definition free_u :: "ptr \<Rightarrow> heap \<Rightarrow> heap option" where
  "free_u ap h = (let bp = ap - 8 in
     Option.bind (free_loop h bp (freep h)) (\<lambda>p.
     Some ((free_join_lower bp p (free_join_upper bp p h))\<lparr>freep := p\<rparr>)))"

section \<open>malloc\<close>

definition morecore :: "(uint \<Rightarrow> 'w \<Rightarrow> ptr \<times> 'w) \<Rightarrow> uint \<Rightarrow> heap \<Rightarrow> 'w \<Rightarrow> (ptr \<times> heap \<times> 'w) option" where
  "morecore sbrk nu h w = (let nu = (if nu < 4096 then 4096 else nu) in
     case sbrk (nu * 8) w of (p, w') \<Rightarrow>
     if p = - 1 then Some (0, h, w')
     else Option.bind (free_u (p + 8) (set_size p nu h)) (\<lambda>h'. Some (freep h', h', w')))"

text \<open>Taking \<open>nunits\<close> from the block \<open>p\<close>, from its upper end where it is larger.\<close>

definition malloc_take :: "uint \<Rightarrow> ptr \<Rightarrow> ptr \<Rightarrow> heap \<Rightarrow> ptr \<times> heap" where
  "malloc_take nunits prevp p h =
     (if hd_size h p = nunits then (p + 8, (set_ptr prevp (hd_ptr h p) h)\<lparr>freep := prevp\<rparr>)
      else let sz = hd_size h p - nunits; q = p + 8 * sz in
        (q + 8, (set_size q nunits (set_size p sz h))\<lparr>freep := prevp\<rparr>))"

partial_function (option) malloc_loop ::
  "(uint \<Rightarrow> 'w \<Rightarrow> ptr \<times> 'w) \<Rightarrow> uint \<Rightarrow> ptr \<Rightarrow> ptr \<Rightarrow> heap \<Rightarrow> 'w \<Rightarrow> (ptr \<times> heap \<times> 'w) option" where
  "malloc_loop sbrk nunits prevp p h w =
     (if hd_size h p \<ge> nunits then (case malloc_take nunits prevp p h of (r, h') \<Rightarrow> Some (r, h', w))
      else if p = freep h then
        Option.bind (morecore sbrk nunits h w) (\<lambda>(p', h', w').
        if p' = 0 then Some (0, h', w')
        else malloc_loop sbrk nunits p' (hd_ptr h' p') h' w')
      else malloc_loop sbrk nunits p (hd_ptr h p) h w)"

definition malloc_units :: "uint \<Rightarrow> uint" where
  "malloc_units nbytes = (nbytes + 8 - 1) div 8 + 1"

definition malloc_init :: "ptr \<Rightarrow> heap \<Rightarrow> heap" where
  "malloc_init base h = (if freep h = 0 then (set_size base 0 (set_ptr base base h))\<lparr>freep := base\<rparr> else h)"

definition malloc_u :: "ptr \<Rightarrow> (uint \<Rightarrow> 'w \<Rightarrow> ptr \<times> 'w) \<Rightarrow> uint \<Rightarrow> heap \<Rightarrow> 'w \<Rightarrow> (ptr \<times> heap \<times> 'w) option" where
  "malloc_u base sbrk nbytes h w = (let h0 = malloc_init base h in
     malloc_loop sbrk (malloc_units nbytes) (freep h0) (hd_ptr h0 (freep h0)) h0 w)"

section \<open>The free list\<close>

type_synonym block = "ptr \<times> uint"

definition blk_end :: "block \<Rightarrow> nat" where
  "blk_end b = unat (fst b) + 8 * unat (snd b)"

definition blk_bytes :: "block \<Rightarrow> nat set" where
  "blk_bytes b = {unat (fst b)..<blk_end b}"

definition bytes :: "block list \<Rightarrow> nat set" where
  "bytes F = (\<Union>b\<in>set F. blk_bytes b)"

text \<open>Blocks in order of address with a gap before each, none of them empty.\<close>

fun sep :: "nat \<Rightarrow> block list \<Rightarrow> bool" where
  "sep lo [] \<longleftrightarrow> True"
| "sep lo (b # F) \<longleftrightarrow> lo < unat (fst b) \<and> 0 < unat (snd b) \<and> blk_end b < 2 ^ 32 \<and> sep (blk_end b) F"

fun linked :: "heap \<Rightarrow> ptr \<Rightarrow> ptr list \<Rightarrow> ptr \<Rightarrow> bool" where
  "linked h p [] z \<longleftrightarrow> hd_ptr h p = z"
| "linked h p (a # as) z \<longleftrightarrow> hd_ptr h p = a \<and> linked h a as z"

definition sizes_ok :: "heap \<Rightarrow> block list \<Rightarrow> bool" where
  "sizes_ok h F \<longleftrightarrow> (\<forall>b\<in>set F. hd_size h (fst b) = snd b)"

definition heap_inv :: "ptr \<Rightarrow> block list \<Rightarrow> heap \<Rightarrow> bool" where
  "heap_inv base F h \<longleftrightarrow> base \<noteq> 0 \<and> sep (unat base) F \<and> hd_size h base = 0 \<and> sizes_ok h F \<and>
     linked h base (map fst F) base \<and> freep h \<in> set (base # map fst F)"

fun top :: "nat \<Rightarrow> block list \<Rightarrow> nat" where
  "top lo [] = lo"
| "top lo (b # F) = top (blk_end b) F"

lemma sep_append: "sep lo (A @ B) \<longleftrightarrow> sep lo A \<and> sep (top lo A) B"
  by (induction A arbitrary: lo) simp_all

lemma top_append: "top lo (A @ B) = top (top lo A) B"
  by (induction A arbitrary: lo) simp_all

lemma blk_end_gt: "0 < unat (snd b) \<Longrightarrow> unat (fst b) < blk_end b"
  by (simp add: blk_end_def)

lemma sep_low: "sep lo F \<Longrightarrow> b \<in> set F \<Longrightarrow> lo < unat (fst b) \<and> 0 < unat (snd b) \<and> blk_end b < 2 ^ 32"
proof (induction F arbitrary: lo)
  case (Cons c F)
  then show ?case using blk_end_gt [of c] by fastforce
qed simp

lemma sep_mono: "sep lo F \<Longrightarrow> lo' \<le> lo \<Longrightarrow> sep lo' F"
  by (cases F) simp_all

lemma linked_append: "linked h p (as @ b # bs) z \<longleftrightarrow> linked h p as b \<and> linked h b bs z"
  by (induction as arbitrary: p) simp_all

lemma word_end: "blk_end (a, n) < 2 ^ 32 \<Longrightarrow> unat (a + 8 * n) = blk_end (a, n)"
proof -
  assume b: "blk_end (a, n) < 2 ^ 32"
  have "unat (8 * n) = 8 * unat n" using b by (subst unat_mult_lem [THEN iffD1]) (simp_all add: blk_end_def)
  then show ?thesis using b by (subst unat_add_lem [THEN iffD1]) (simp_all add: blk_end_def)
qed

lemma linked_cong: "(\<And>x. x \<in> set (p # as) \<Longrightarrow> hd_ptr h' x = hd_ptr h x) \<Longrightarrow> linked h' p as z = linked h p as z"
  by (induction as arbitrary: p) simp_all

lemma heap_sel [simp]:
  "hd_ptr (set_ptr p v h) = (hd_ptr h)(p := v)" "hd_size (set_ptr p v h) = hd_size h" "freep (set_ptr p v h) = freep h"
  "hd_ptr (set_size p n h) = hd_ptr h" "hd_size (set_size p n h) = (hd_size h)(p := n)" "freep (set_size p n h) = freep h"
  by (simp_all add: set_ptr_def set_size_def)

section \<open>The search of free\<close>

lemma free_loop_upper:
  assumes "linked h b (map fst B) base" "sep lo B" "unat b \<le> lo" "unat bp < unat b" "unat base < unat bp"
  shows "free_loop h bp b = free_loop h bp base"
  using assms
proof (induction B arbitrary: b lo)
  case Nil
  then show ?case by (subst free_loop.simps) (simp add: word_less_nat_alt word_le_nat_alt)
next
  case (Cons c B)
  have p: "hd_ptr h b = fst c" using Cons(2) by simp
  have c: "unat b < unat (fst c)" using Cons(3,4) by simp
  have "free_loop h bp b = free_loop h bp (fst c)"
    using c Cons(5) by (subst free_loop.simps) (simp add: p word_less_nat_alt word_le_nat_alt)
  also have "\<dots> = free_loop h bp base"
    using Cons(2,3,5,6) c by (intro Cons(1) [of "fst c" "blk_end c"]) (simp_all add: blk_end_def)
  finally show ?case .
qed

lemma free_loop_lower:
  assumes "linked h p (map fst (A @ B)) base" "sep lo (A @ B)" "unat p \<le> lo" "unat base \<le> unat p" "unat p < unat bp"
    and "\<And>b. b \<in> set A \<Longrightarrow> unat (fst b) < unat bp" "\<And>b. b \<in> set B \<Longrightarrow> unat bp < unat (fst b)"
  shows "free_loop h bp p = Some (last (p # map fst A))"
  using assms
proof (induction A arbitrary: p lo)
  case Nil
  show ?case
  proof (cases B)
    case Nil
    then show ?thesis using Nil.prems by (subst free_loop.simps) (simp add: word_less_nat_alt word_le_nat_alt)
  next
    case (Cons c B')
    then have "unat bp < unat (fst c)" using Nil.prems(7) by simp
    then show ?thesis using Nil.prems Cons by (subst free_loop.simps) (simp add: word_less_nat_alt word_le_nat_alt)
  qed
next
  case (Cons c A)
  have p: "hd_ptr h p = fst c" using Cons(2) by simp
  have c: "unat p < unat (fst c)" "unat (fst c) < unat bp" using Cons(3,4,7) by simp_all
  have "free_loop h bp p = free_loop h bp (fst c)"
    using c by (subst free_loop.simps) (simp add: p word_less_nat_alt word_le_nat_alt)
  also have "\<dots> = Some (last (fst c # map fst A))"
    using Cons(2-8) c by (intro Cons(1) [of "fst c" "blk_end c"]) (simp_all add: blk_end_def)
  finally show ?case by simp
qed

text \<open>From whatever place of the ring it starts, the search ends at the last block below \<open>bp\<close>.\<close>

lemma free_loop_finds:
  assumes inv: "linked h base (map fst (A @ B)) base" "sep (unat base) (A @ B)" and p: "p \<in> set (base # map fst (A @ B))"
    and bp: "unat base < unat bp" "\<And>b. b \<in> set A \<Longrightarrow> unat (fst b) < unat bp" "\<And>b. b \<in> set B \<Longrightarrow> unat bp < unat (fst b)"
  shows "free_loop h bp p = Some (last (base # map fst A))"
proof -
  have base: "free_loop h bp base = Some (last (base # map fst A))"
    by (rule free_loop_lower [OF inv order_refl order_refl bp])
  consider "p = base" | b where "b \<in> set A" "p = fst b" | b where "b \<in> set B" "p = fst b" using p by auto
  then show ?thesis
  proof cases
    case 2
    then obtain A1 A2 where A: "A = A1 @ b # A2" by (meson split_list)
    have "linked h p (map fst (A2 @ B)) base" using inv(1) 2(2) by (simp add: A linked_append)
    moreover have "sep (blk_end b) (A2 @ B)" using inv(2) by (simp add: A sep_append top_append)
    moreover have "unat base \<le> unat p" using sep_low [OF inv(2), of b] 2 by simp
    moreover have "unat p \<le> blk_end b" "unat p < unat bp" using 2 bp(2) by (simp_all add: blk_end_def)
    moreover have "unat (fst c) < unat bp" if "c \<in> set A2" for c using bp(2) that by (simp add: A)
    ultimately have "free_loop h bp p = Some (last (p # map fst A2))"
      using bp(3) by (intro free_loop_lower)
    then show ?thesis using 2(2) by (simp add: A)
  next
    case 3
    then obtain B1 B2 where B: "B = B1 @ b # B2" by (meson split_list)
    have "linked h p (map fst B2) base" using inv(1) 3(2) by (simp add: B linked_append flip: append_assoc)
    moreover have "sep (blk_end b) B2" using inv(2) by (simp add: B sep_append top_append flip: append_assoc)
    moreover have "unat p \<le> blk_end b" "unat bp < unat p" using 3 bp(3) by (simp_all add: blk_end_def)
    ultimately have "free_loop h bp p = free_loop h bp base" using bp(1) by (rule free_loop_upper)
    then show ?thesis using base by simp
  qed (use base in simp)
qed

section \<open>free returns the block to the list\<close>

lemma sep_distinct: "sep (unat p) F \<Longrightarrow> distinct (p # map fst F)"
proof -
  have "sep lo F \<Longrightarrow> distinct (map fst F)" for lo
  proof (induction F arbitrary: lo)
    case (Cons c F)
    have "unat (fst c) < unat (fst b)" if "b \<in> set F" for b
      using sep_low [of "blk_end c" F b] Cons(2) that blk_end_gt [of c] by simp
    then show ?case using Cons by fastforce
  qed simp
  then show "sep (unat p) F \<Longrightarrow> distinct (p # map fst F)" using sep_low [of "unat p" F] by fastforce
qed

lemma linked_split: "linked h p (as @ bs) z \<longleftrightarrow> linked h p as (hd (bs @ [z])) \<and> (bs \<noteq> [] \<longrightarrow> linked h (hd bs) (tl bs) z)"
  by (cases bs) (simp_all add: linked_append)

lemma linked_last: "linked h p as y \<Longrightarrow> hd_ptr h (last (p # as)) = y"
  by (induction as arbitrary: p) auto

lemma linked_relink:
  assumes "linked h p as y" "distinct (p # as)" "\<And>x. x \<in> set (p # as) \<Longrightarrow> x \<noteq> last (p # as) \<Longrightarrow> hd_ptr h' x = hd_ptr h x"
    and "hd_ptr h' (last (p # as)) = y'"
  shows "linked h' p as y'"
  using assms
proof (induction as arbitrary: p)
  case (Cons a as)
  have "p \<noteq> last (a # as)" using Cons(3) by (metis distinct.simps(2) last_in_set list.distinct(1))
  then have "hd_ptr h' p = a" using Cons(2) Cons(4) [of p] by simp
  moreover have "linked h' a as y'" using Cons(2-5) by (intro Cons(1)) simp_all
  ultimately show ?case by simp
qed simp

lemma sep_split:
  assumes "sep lo F" "lo \<le> unat (fst x)" "0 < unat (snd x)" "blk_bytes x \<inter> bytes F = {}"
  obtains A B where "F = A @ B" "sep lo A" "top lo A \<le> unat (fst x)" "sep (top lo A) B"
    "\<And>b. b \<in> set A \<Longrightarrow> unat (fst b) < unat (fst x)" "\<And>b. b \<in> set B \<Longrightarrow> blk_end x \<le> unat (fst b)"
  using assms
proof (induction F arbitrary: lo thesis)
  case Nil
  show ?case by (rule Nil(1) [of "[]" "[]"]) (use Nil in simp_all)
next
  case (Cons c F)
  have c: "0 < unat (snd c)" "sep (blk_end c) F" "lo < unat (fst c)" "blk_end c < 2 ^ 32" using Cons(3) by simp_all
  have dj: "blk_bytes x \<inter> blk_bytes c = {}" "blk_bytes x \<inter> bytes F = {}" using Cons(6) by (auto simp: bytes_def)
  show ?case
  proof (cases "unat (fst c) < unat (fst x)")
    case True
    have "blk_end c \<le> unat (fst x)"
    proof (rule ccontr)
      assume "\<not> ?thesis"
      then have "unat (fst x) \<in> blk_bytes x \<inter> blk_bytes c" using True Cons(5) by (simp add: blk_bytes_def blk_end_def)
      then show False using dj(1) by simp
    qed
    then obtain A B where "F = A @ B" "sep (blk_end c) A" "top (blk_end c) A \<le> unat (fst x)" "sep (top (blk_end c) A) B"
        "\<And>b. b \<in> set A \<Longrightarrow> unat (fst b) < unat (fst x)" "\<And>b. b \<in> set B \<Longrightarrow> blk_end x \<le> unat (fst b)"
      using Cons(1) c(2) Cons(5) dj(2) by metis
    then show ?thesis using True c by (intro Cons(2) [of "c # A" B]) auto
  next
    case False
    have e: "blk_end x \<le> unat (fst c)"
    proof (rule ccontr)
      assume "\<not> ?thesis"
      then have "unat (fst c) \<in> blk_bytes x \<inter> blk_bytes c" using False c(1) by (simp add: blk_bytes_def blk_end_def)
      then show False using dj(1) by simp
    qed
    have "blk_end x \<le> unat (fst b)" if "b \<in> set F" for b using sep_low [OF c(2) that] e blk_end_gt [OF c(1)] by simp
    then show ?thesis using Cons(3,4) e by (intro Cons(2) [of "[]" "c # F"]) auto
  qed
qed

lemma linked_freep [simp]: "linked (h\<lparr>freep := x\<rparr>) p as z = linked h p as z"
  by (induction as arbitrary: p) simp_all

lemma linked_copy:
  assumes "linked h q as z" "hd_ptr h' p = hd_ptr h q" "\<And>x. x \<in> set as \<Longrightarrow> hd_ptr h' x = hd_ptr h x"
  shows "linked h' p as z"
proof (cases as)
  case (Cons a as')
  have "linked h' a as' z = linked h a as' z" by (rule linked_cong) (use assms(3) Cons in simp)
  then show ?thesis using assms(1,2) Cons by simp
qed (use assms(1,2) in simp)

lemma bytes_simps [simp]: "bytes [] = {}" "bytes (b # F) = blk_bytes b \<union> bytes F" "bytes (A @ B) = bytes A \<union> bytes B"
  by (auto simp: bytes_def)

text \<open>Two blocks that touch are one block.\<close>

lemma blk_join:
  assumes "unat (fst c) = blk_end (a, n)" "blk_end c < 2 ^ 32"
  shows "unat (n + snd c) = unat n + unat (snd c)" "blk_end (a, n + snd c) = blk_end c"
    "blk_bytes (a, n + snd c) = blk_bytes (a, n) \<union> blk_bytes c"
proof -
  have "unat n + unat (snd c) < 2 ^ 32" using assms by (simp add: blk_end_def)
  then show u: "unat (n + snd c) = unat n + unat (snd c)" by (subst unat_add_lem [THEN iffD1]) simp_all
  show e: "blk_end (a, n + snd c) = blk_end c" using assms(1) u by (simp add: blk_end_def)
  show "blk_bytes (a, n + snd c) = blk_bytes (a, n) \<union> blk_bytes c"
    unfolding blk_bytes_def e using assms(1) by (auto simp: blk_end_def)
qed

text \<open>What the first half of free leaves: the block with its upper neighbour, linked to the rest.\<close>

lemma free_join_upper:
  assumes "hd_size h bp = n" "0 < unat n" "blk_end (bp, n) < 2 ^ 32" "unat base < unat bp"
    and "linked h p (map fst B) base" "sep lo B" "\<And>b. b \<in> set B \<Longrightarrow> blk_end (bp, n) \<le> unat (fst b)" "sizes_ok h B"
  obtains n1 B1 where "hd_size (free_join_upper bp p h) bp = n1" "0 < unat n1" "blk_end (bp, n1) < 2 ^ 32"
    "linked (free_join_upper bp p h) bp (map fst B1) base" "sep (blk_end (bp, n1)) B1" "set B1 \<subseteq> set B"
    "\<forall>x. x \<noteq> bp \<longrightarrow> hd_ptr (free_join_upper bp p h) x = hd_ptr h x \<and> hd_size (free_join_upper bp p h) x = hd_size h x"
    "blk_bytes (bp, n1) \<union> bytes B1 = blk_bytes (bp, n) \<union> bytes B" "unat n \<le> unat n1"
proof (cases "bp + 8 * n = hd_ptr h p")
  case True
  have e: "unat (hd_ptr h p) = blk_end (bp, n)" using word_end [OF assms(3)] by (simp flip: True)
  then have "B \<noteq> []" using assms(4,5) by (auto simp: blk_end_def)
  then obtain c B' where B: "B = c # B'" by (cases B) simp_all
  have p: "hd_ptr h p = fst c" using assms(5) by (simp add: B)
  have c: "unat (fst c) = blk_end (bp, n)" "blk_end c < 2 ^ 32" "hd_size h (fst c) = snd c" "sep (blk_end c) B'"
    using e p assms(6,8) by (simp_all add: B sizes_ok_def)
  have h: "free_join_upper bp p h = set_ptr bp (hd_ptr h (fst c)) (set_size bp (n + snd c) h)"
    using True p c(3) assms(1) by (simp add: free_join_upper_def)
  have nb: "bp \<notin> fst ` set B" using assms(2,7) by (fastforce simp: blk_end_def)
  have "linked h (fst c) (map fst B') base" using assms(5) by (simp add: B)
  then have l: "linked (free_join_upper bp p h) bp (map fst B') base"
    by (rule linked_copy) (use nb in \<open>auto simp: h B\<close>)
  show ?thesis
    by (rule that [of "n + snd c" B']) (use c blk_join [OF c(1,2)] l assms(2) in \<open>auto simp: h B\<close>)
next
  case False
  have h: "free_join_upper bp p h = set_ptr bp (hd_ptr h p) h" using False assms(1) by (simp add: free_join_upper_def)
  have nb: "bp \<notin> fst ` set B" using assms(2,7) by (fastforce simp: blk_end_def)
  have l: "linked (free_join_upper bp p h) bp (map fst B) base"
    using nb by (intro linked_copy [OF assms(5)]) (auto simp: h)
  have s: "sep (blk_end (bp, n)) B"
  proof (cases B)
    case (Cons c B')
    have "unat (hd_ptr h p) \<noteq> blk_end (bp, n)" using False word_end [OF assms(3)] by (metis unsigned_word_eqI)
    then show ?thesis using assms(5,6,7) Cons by (auto simp: le_neq_implies_less)
  qed simp
  show ?thesis by (rule that [of n B]) (use l s assms(1-3) in \<open>auto simp: h\<close>)
qed

text \<open>What the second half leaves: the list with the block in its place, joined to its lower neighbour.\<close>

lemma free_join_lower:
  assumes h2: "h2 = free_join_lower bp p h1" and p_def: "p = last (base # map fst A)"
    and A: "sep (unat base) A" "top (unat base) A \<le> unat bp" "\<And>b. b \<in> set A \<Longrightarrow> unat (fst b) < unat bp"
      "linked h1 base (map fst A) y" "sizes_ok h1 A" "hd_size h1 base = 0" "unat base < unat bp"
    and bp: "hd_size h1 bp = n1" "0 < unat n1" "blk_end (bp, n1) < 2 ^ 32"
    and B: "linked h1 bp (map fst B) base" "sep (blk_end (bp, n1)) B" "sizes_ok h1 B"
  obtains F where "sep (unat base) F" "sizes_ok h2 F" "hd_size h2 base = 0" "linked h2 base (map fst F) base"
    "p \<in> set (base # map fst F)" "bytes F = bytes A \<union> blk_bytes (bp, n1) \<union> bytes B"
    "\<exists>b\<in>set F. unat n1 \<le> unat (snd b) \<and> (fst b = p \<or> fst b = hd_ptr h2 p)"
proof -
  have d: "distinct (base # map fst A)" by (rule sep_distinct [OF A(1)])
  have up: "unat bp < unat (fst b)" if "b \<in> set B" for b using sep_low [OF B(2) that] by (simp add: blk_end_def)
  have p: "p = base \<or> p \<in> fst ` set A" using last_in_set [of "base # map fst A"] by (auto simp: p_def)
  then have pb: "unat p < unat bp" using A(3,7) by auto
  then have np: "p \<noteq> bp" "\<And>b. b \<in> set B \<Longrightarrow> fst b \<noteq> p" "base \<noteq> bp" using up A(7) by fastforce+
  show ?thesis
  proof (cases "p + 8 * hd_size h1 p = bp")
    case True
    have "A \<noteq> []" using True A(6) np(3) by (auto simp: p_def)
    then obtain A' a where A': "A = A' @ [a]" by (cases A rule: rev_cases) simp_all
    then have pa: "p = fst a" by (simp add: p_def)
    have a: "blk_end a < 2 ^ 32" "top (unat base) A' < unat (fst a)" "sep (unat base) A'" "hd_size h1 (fst a) = snd a" "0 < unat (snd a)"
      using A(1,5) by (simp_all add: A' sep_append sizes_ok_def)
    have e: "unat (fst (bp, n1)) = blk_end (fst a, snd a)" using True word_end [of "fst a" "snd a"] a by (auto simp: pa)
    have h2: "h2 = set_ptr (fst a) (hd_ptr h1 bp) (set_size (fst a) (snd a + n1) h1)"
      using True a(4) bp(1) by (simp add: h2 free_join_lower_def pa)
    have na0: "base \<noteq> fst a" "fst a \<notin> fst ` set A'" using d by (simp_all add: A')
    have na: "base \<noteq> fst a" "\<And>b. b \<in> set A' \<Longrightarrow> fst b \<noteq> fst a" "\<And>b. b \<in> set B \<Longrightarrow> fst b \<noteq> fst a"
      using na0 np(2) unfolding pa by (blast, metis imageI, blast)
    have "linked h1 base (map fst A') (fst a)" using A(4) by (simp add: A' linked_append)
    moreover have "hd_ptr h2 x = hd_ptr h1 x" if "x \<in> set (base # map fst A')" for x using that na(1,2) by (force simp: h2)
    ultimately have l1: "linked h2 base (map fst A') (fst a)" by (subst linked_cong [of base "map fst A'" h2 h1])
    have l2: "linked h2 (fst a) (map fst B) base"
      by (rule linked_copy [OF B(1)]) (use na(3) in \<open>auto simp: h2\<close>)
    note j = blk_join [OF e, unfolded snd_conv, OF bp(3)]
    show ?thesis
    proof (rule that [of "A' @ (fst a, snd a + n1) # B"])
      show "sep (unat base) (A' @ (fst a, snd a + n1) # B)" using a B(2) bp j by (simp add: sep_append)
      show "sizes_ok h2 (A' @ (fst a, snd a + n1) # B)" using A(5) B(3) na by (auto simp: sizes_ok_def h2 A')
      show "bytes (A' @ (fst a, snd a + n1) # B) = bytes A \<union> blk_bytes (bp, n1) \<union> bytes B" using j(3) by (auto simp: A')
      show "\<exists>b\<in>set (A' @ (fst a, snd a + n1) # B). unat n1 \<le> unat (snd b) \<and> (fst b = p \<or> fst b = hd_ptr h2 p)"
        using j(1) by (intro bexI [of _ "(fst a, snd a + n1)"]) (simp_all add: pa)
    qed (use l1 l2 A(6) na(1) in \<open>simp_all add: linked_append h2 pa\<close>)
  next
    case False
    have h2: "h2 = set_ptr p bp h1" using False by (simp add: h2 free_join_lower_def)
    have t: "top (unat base) A < unat bp"
    proof (cases A rule: rev_cases)
      case (snoc A' a)
      then have a: "blk_end a < 2 ^ 32" "hd_size h1 (fst a) = snd a" "p = fst a" using A(1,5) by (simp_all add: sep_append sizes_ok_def p_def)
      then have "blk_end a \<noteq> unat bp" using False word_end [of "fst a" "snd a"] by (metis prod.collapse unsigned_word_eqI)
      then show ?thesis using A(2) snoc by (simp add: top_append)
    qed (use A(7) in simp)
    have l1: "linked h2 base (map fst A) bp"
      by (rule linked_relink [OF A(4) d]) (simp_all add: h2 p_def)
    have "hd_ptr h2 x = hd_ptr h1 x" if "x \<in> set (bp # map fst B)" for x using that np by (auto simp: h2)
    then have l2: "linked h2 bp (map fst B) base" using B(1) by (subst linked_cong [of bp "map fst B" h2 h1])
    show ?thesis
    proof (rule that [of "A @ (bp, n1) # B"])
      show "sep (unat base) (A @ (bp, n1) # B)" using A(1) t bp B(2) by (simp add: sep_append)
      show "sizes_ok h2 (A @ (bp, n1) # B)" using A(5) B(3) bp(1) by (auto simp: sizes_ok_def h2)
      show "p \<in> set (base # map fst (A @ (bp, n1) # B))" using p by auto
      show "\<exists>b\<in>set (A @ (bp, n1) # B). unat n1 \<le> unat (snd b) \<and> (fst b = p \<or> fst b = hd_ptr h2 p)"
        by (intro bexI [of _ "(bp, n1)"]) (simp_all add: h2)
    qed (use l1 l2 A(6) in \<open>auto simp: linked_append h2\<close>)
  qed
qed

text \<open>
  free puts the block back: the search ends, the list stays in order with no two blocks touching,
  and its bytes are the old ones and those of the block.
\<close>

lemma free_keeps_inv:
  assumes inv: "heap_inv base F h" and sz: "hd_size h bp = n" "0 < unat n" "blk_end (bp, n) < 2 ^ 32" "unat base < unat bp"
    and dj: "blk_bytes (bp, n) \<inter> bytes F = {}"
  obtains h' F' where "free_u (bp + 8) h = Some h'" "heap_inv base F' h'" "bytes F' = bytes F \<union> blk_bytes (bp, n)"
    "\<exists>b\<in>set F'. unat n \<le> unat (snd b) \<and> (fst b = freep h' \<or> fst b = hd_ptr h' (freep h'))"
proof -
  have i: "base \<noteq> 0" "sep (unat base) F" "hd_size h base = 0" "sizes_ok h F" "linked h base (map fst F) base"
    "freep h \<in> set (base # map fst F)" using inv by (simp_all add: heap_inv_def)
  obtain A B where F: "F = A @ B" and A: "sep (unat base) A" "top (unat base) A \<le> unat bp" "\<And>b. b \<in> set A \<Longrightarrow> unat (fst b) < unat bp"
    and B: "sep (top (unat base) A) B" "\<And>b. b \<in> set B \<Longrightarrow> blk_end (bp, n) \<le> unat (fst b)"
    using sep_split [OF i(2), of "(bp, n)"] sz dj by (metis fst_conv less_imp_le snd_conv)
  define p where "p = last (base # map fst A)"
  have up: "unat bp < unat (fst b)" if "b \<in> set B" for b using B(2) [OF that] sz(2) by (simp add: blk_end_def)
  have "free_loop h bp (freep h) = Some p" unfolding p_def
    using i sz(4) A(3) up by (intro free_loop_finds [where B = B]) (simp_all add: F)
  then have h': "free_u (bp + 8) h = Some ((free_join_lower bp p (free_join_upper bp p h))\<lparr>freep := p\<rparr>)" by (simp add: free_u_def)
  define h1 where "h1 = free_join_upper bp p h"
  have l: "linked h base (map fst A) (hd (map fst B @ [base]))" "B \<noteq> [] \<longrightarrow> linked h (fst (hd B)) (map fst (tl B)) base"
    using i(5) by (simp_all add: F linked_split hd_map map_tl)
  have lp: "linked h p (map fst B) base" using linked_last [OF l(1)] l(2) by (cases B) (simp_all add: p_def)
  have sB: "sizes_ok h B" "sizes_ok h A" using i(4) by (simp_all add: F sizes_ok_def)
  obtain n1 B1 where u: "hd_size h1 bp = n1" "0 < unat n1" "blk_end (bp, n1) < 2 ^ 32" "linked h1 bp (map fst B1) base"
      "sep (blk_end (bp, n1)) B1" "set B1 \<subseteq> set B" "\<forall>x. x \<noteq> bp \<longrightarrow> hd_ptr h1 x = hd_ptr h x \<and> hd_size h1 x = hd_size h x"
      "blk_bytes (bp, n1) \<union> bytes B1 = blk_bytes (bp, n) \<union> bytes B" "unat n \<le> unat n1"
    unfolding h1_def by (rule free_join_upper [OF sz lp B sB(1)])
  have ne: "base \<noteq> bp" "\<And>b. b \<in> set F \<Longrightarrow> fst b \<noteq> bp" using sz(4) A(3) up by (fastforce simp: F)+
  have "linked h1 base (map fst A) (hd (map fst B @ [base]))"
    using l(1) u(7) ne by (subst linked_cong [where h = h]) (auto simp: F)
  then have la: "linked h1 base (map fst A) (hd (map fst B @ [base]))" .
  have sz1: "hd_size h1 (fst b) = snd b" if "b \<in> set F" for b using u(7) ne(2) [OF that] i(4) that by (simp add: sizes_ok_def)
  have s1: "sizes_ok h1 A" "sizes_ok h1 B1" using sz1 u(6) by (auto simp: sizes_ok_def F)
  have s2: "hd_size h1 base = 0" using u(7) ne(1) i(3) by simp
  obtain F' where f: "sep (unat base) F'" "sizes_ok (free_join_lower bp p h1) F'" "hd_size (free_join_lower bp p h1) base = 0"
      "linked (free_join_lower bp p h1) base (map fst F') base" "p \<in> set (base # map fst F')"
      "bytes F' = bytes A \<union> blk_bytes (bp, n1) \<union> bytes B1"
      "\<exists>b\<in>set F'. unat n1 \<le> unat (snd b) \<and> (fst b = p \<or> fst b = hd_ptr (free_join_lower bp p h1) p)"
    by (rule free_join_lower [OF refl p_def A(1-3) la s1(1) s2 sz(4) u(1-5) s1(2)])
  show ?thesis
  proof (rule that [OF h'])
    show "heap_inv base F' ((free_join_lower bp p (free_join_upper bp p h))\<lparr>freep := p\<rparr>)"
      using f(1-5) i(1) by (simp add: heap_inv_def h1_def sizes_ok_def)
    show "bytes F' = bytes F \<union> blk_bytes (bp, n)" using f(6) u(8) by (auto simp: F)
    obtain b where b: "b \<in> set F'" "unat n1 \<le> unat (snd b)" "fst b = p \<or> fst b = hd_ptr (free_join_lower bp p h1) p" using f(7) by blast
    then show "\<exists>b\<in>set F'. unat n \<le> unat (snd b) \<and> (fst b = freep ((free_join_lower bp p (free_join_upper bp p h))\<lparr>freep := p\<rparr>) \<or>
        fst b = hd_ptr ((free_join_lower bp p (free_join_upper bp p h))\<lparr>freep := p\<rparr>) (freep ((free_join_lower bp p (free_join_upper bp p h))\<lparr>freep := p\<rparr>)))"
      using u(9) by (intro bexI [of _ b]) (simp_all add: h1_def)
  qed
qed

section \<open>malloc takes a block from the list\<close>

lemma blk_upper:
  assumes "blk_end (a, n) < 2 ^ 32" "unat k \<le> unat n" "0 < unat k"
  shows "unat (n - k) = unat n - unat k" "unat (a + 8 * (n - k)) = unat a + 8 * (unat n - unat k)"
    "blk_end (a + 8 * (n - k), k) = blk_end (a, n)" "blk_end (a, n - k) = unat (a + 8 * (n - k))"
    "blk_bytes (a + 8 * (n - k), k) \<inter> blk_bytes (a, n - k) = {}"
    "blk_bytes (a + 8 * (n - k), k) \<union> blk_bytes (a, n - k) = blk_bytes (a, n)"
proof -
  show u: "unat (n - k) = unat n - unat k" using assms(2) by (simp add: unat_sub word_le_nat_alt)
  have "blk_end (a, n - k) < 2 ^ 32" using assms(1) u by (simp add: blk_end_def)
  then show q: "unat (a + 8 * (n - k)) = unat a + 8 * (unat n - unat k)" using word_end [of a "n - k"] u by (simp add: blk_end_def)
  show "blk_end (a + 8 * (n - k), k) = blk_end (a, n)" using q assms(2) by (simp add: blk_end_def)
  then show "blk_end (a, n - k) = unat (a + 8 * (n - k))" using q u by (simp add: blk_end_def)
  show "blk_bytes (a + 8 * (n - k), k) \<inter> blk_bytes (a, n - k) = {}"
    "blk_bytes (a + 8 * (n - k), k) \<union> blk_bytes (a, n - k) = blk_bytes (a, n)"
    using q u assms(2) by (auto simp: blk_bytes_def blk_end_def)
qed

lemma sep_disjoint: "sep lo F \<Longrightarrow> b \<in> set F \<Longrightarrow> c \<in> set F \<Longrightarrow> b \<noteq> c \<Longrightarrow> blk_bytes b \<inter> blk_bytes c = {}"
proof (induction F arbitrary: lo)
  case (Cons d F)
  have "blk_bytes d \<inter> blk_bytes e = {}" if "e \<in> set F" for e
    using sep_low [of "blk_end d" F e] Cons(2) that by (auto simp: blk_bytes_def)
  then show ?case using Cons by (metis Int_commute set_ConsD sep.simps(2))
qed simp

lemma bytes_disjoint:
  assumes "sep lo (A @ b # B)"
  shows "blk_bytes b \<inter> (bytes A \<union> bytes B) = {}"
proof -
  have "distinct (map fst (A @ b # B))"
    using assms sep_distinct [of 0 "A @ b # B"] sep_mono [OF assms, of 0] by simp
  then have "c \<noteq> b" if "c \<in> set A \<union> set B" for c using that by auto
  then show ?thesis using sep_disjoint [OF assms, of b] unfolding bytes_def by fastforce
qed

definition taken :: "ptr \<Rightarrow> block list \<Rightarrow> uint \<Rightarrow> ptr \<Rightarrow> heap \<Rightarrow> bool" where
  "taken base F nunits r h' \<longleftrightarrow> r \<noteq> 0 \<and> hd_size h' (r - 8) = nunits \<and> blk_bytes (r - 8, nunits) \<subseteq> bytes F \<and>
     (\<exists>F'. heap_inv base F' h' \<and> bytes F' = bytes F - blk_bytes (r - 8, nunits))"

lemma sep_shrink: "sep lo (b # F) \<Longrightarrow> 0 < unat n \<Longrightarrow> unat n \<le> unat (snd b) \<Longrightarrow> sep lo ((fst b, n) # F)"
proof -
  assume s: "sep lo (b # F)" and n: "0 < unat n" "unat n \<le> unat (snd b)"
  then have "blk_end (fst b, n) \<le> blk_end b" by (simp add: blk_end_def)
  then show ?thesis using s n sep_mono by fastforce
qed

lemma malloc_take_ok:
  assumes inv: "heap_inv base (A @ b # B) h" and prev: "prevp = last (base # map fst A)"
    and n: "0 < unat nunits" "unat nunits \<le> unat (snd b)"
  shows "\<exists>r h'. malloc_take nunits prevp (fst b) h = (r, h') \<and> taken base (A @ b # B) nunits r h'"
proof -
  have i: "base \<noteq> 0" "sep (unat base) (A @ b # B)" "hd_size h base = 0" "sizes_ok h (A @ b # B)"
    "linked h base (map fst A @ fst b # map fst B) base" using inv by (simp_all add: heap_inv_def)
  have d: "distinct (base # map fst (A @ b # B))" by (rule sep_distinct [OF i(2)])
  have b: "blk_end b < 2 ^ 32" "top (unat base) A < unat (fst b)" "hd_size h (fst b) = snd b" "unat base < unat (fst b)"
    using i(2,4) sep_low [OF i(2), of b] by (simp_all add: sep_append sizes_ok_def)
  have pm: "prevp = base \<or> prevp \<in> fst ` set A" using last_in_set [of "base # map fst A"] by (auto simp: prev)
  have l: "linked h base (map fst A) (fst b)" "linked h (fst b) (map fst B) base" using i(5) by (simp_all add: linked_append)
  have dj: "blk_bytes b \<inter> (bytes A \<union> bytes B) = {}" by (rule bytes_disjoint [OF i(2)])
  have d2: "base \<noteq> fst b" "fst b \<notin> fst ` set A" "fst b \<notin> fst ` set B" "prevp \<notin> fst ` set B" using d pm by auto
  have nb: "prevp \<noteq> fst b" "\<And>c. c \<in> set (A @ B) \<Longrightarrow> fst c \<noteq> fst b" "base \<noteq> fst b"
    using d2 pm unfolding set_append by (metis, metis Un_iff imageI, metis)
  show ?thesis
  proof (cases "snd b = nunits")
    case True
    define h' where "h' = (set_ptr prevp (hd_ptr h (fst b)) h)\<lparr>freep := prevp\<rparr>"
    have e: "malloc_take nunits prevp (fst b) h = (fst b + 8, h')" using True b(3) by (simp add: malloc_take_def h'_def)
    have "unat (fst b + 8) = unat (fst b) + 8"
      using b(1) n by (subst unat_add_lem [THEN iffD1]) (simp_all add: blk_end_def)
    then have r: "fst b + 8 \<noteq> 0" by (metis add_is_0 unat_0 zero_neq_numeral)
    have s: "sep (unat base) (A @ B)"
      using i(2) blk_end_gt [of b] b(2) sep_mono [of "blk_end b" B "top (unat base) A"] by (auto simp: sep_append)
    have "linked h' base (map fst A) (hd_ptr h (fst b))"
      using d by (intro linked_relink [OF l(1)]) (auto simp: h'_def prev)
    moreover have "hd_ptr h' x = hd_ptr h x" if "x \<in> fst ` set B" for x using that d2(4) by (auto simp: h'_def)
    then have "linked h' prevp (map fst B) base" by (intro linked_copy [OF l(2)]) (auto simp: h'_def)
    ultimately have "linked h' base (map fst A @ map fst B) base" using l(2) by (cases B) (simp_all add: linked_append)
    moreover have "prevp \<in> set (base # map fst (A @ B))" using pm by auto
    ultimately have "heap_inv base (A @ B) h'"
      using i s by (simp add: heap_inv_def h'_def sizes_ok_def)
    moreover have "bytes (A @ B) = bytes (A @ b # B) - blk_bytes b" using dj by auto
    moreover have "hd_size h' (fst b) = nunits" using True b(3) by (simp add: h'_def)
    moreover have "blk_bytes b \<subseteq> bytes (A @ b # B)" by auto
    ultimately show ?thesis using e r True unfolding taken_def by (metis add_diff_cancel_right' prod.collapse)
  next
    case False
    define q where "q = fst b + 8 * (snd b - nunits)"
    define h' where "h' = (set_size q nunits (set_size (fst b) (snd b - nunits) h))\<lparr>freep := prevp\<rparr>"
    have e: "malloc_take nunits prevp (fst b) h = (q + 8, h')" using False b(3) by (simp add: malloc_take_def h'_def q_def Let_def)
    have "blk_end (fst b, snd b) < 2 ^ 32" using b(1) by simp
    note k = blk_upper [OF this n(2,1), folded q_def]
    have lt: "0 < unat (snd b - nunits)" using False n(2) k(1) by (metis le_neq_implies_less unsigned_word_eqI zero_less_diff)
    have nq: "fst b < q" "\<And>c. c \<in> set (A @ B) \<Longrightarrow> fst c \<noteq> q" "base \<noteq> q"
    proof -
      show "fst b < q" using k(1,2) lt by (simp add: word_less_nat_alt)
      show "base \<noteq> q" using k(2) b(4) by auto
      have "unat q \<in> blk_bytes b" using k(1-3) lt n by (simp add: blk_bytes_def blk_end_def)
      then show "fst c \<noteq> q" if "c \<in> set (A @ B)" for c
        using dj that sep_low [OF i(2), of c] blk_end_gt [of c] by (fastforce simp: bytes_def blk_bytes_def)
    qed
    have "sep (unat base) (A @ (fst b, snd b - nunits) # B)"
      using i(2) lt k(1) sep_shrink [of "top (unat base) A" b B "snd b - nunits"] by (simp add: sep_append)
    moreover have "sizes_ok h' (A @ (fst b, snd b - nunits) # B)" using i(4) nb(2) nq by (auto simp: sizes_ok_def h'_def)
    moreover have "linked h' base (map fst (A @ (fst b, snd b - nunits) # B)) base"
      using i(5) linked_cong [of base "map fst A @ fst b # map fst B" h' h] by (simp add: h'_def)
    moreover have "hd_size h' base = 0" using i(3) nb(3) nq(3) by (simp add: h'_def)
    ultimately have "heap_inv base (A @ (fst b, snd b - nunits) # B) h'" using i(1) pm by (auto simp: heap_inv_def h'_def)
    moreover have "bytes (A @ (fst b, snd b - nunits) # B) = bytes (A @ b # B) - blk_bytes (q, nunits)"
      "blk_bytes (q, nunits) \<subseteq> bytes (A @ b # B)"
      using k(5,6) dj by auto
    moreover have "q + 8 \<noteq> 0"
    proof -
      have "unat (q + 8) = unat q + 8" using k(3) b(1) n by (subst unat_add_lem [THEN iffD1]) (simp_all add: blk_end_def)
      then show ?thesis by (metis add_is_0 unat_0 zero_neq_numeral)
    qed
    moreover have "hd_size h' q = nunits" by (simp add: h'_def)
    ultimately show ?thesis using e unfolding taken_def by (metis add_diff_cancel_right')
  qed
qed

section \<open>The search of malloc\<close>

text \<open>What malloc does when it has been round the list: it asks for memory and searches again.\<close>

definition grow_and_retry :: "(uint \<Rightarrow> 'w \<Rightarrow> ptr \<times> 'w) \<Rightarrow> uint \<Rightarrow> heap \<Rightarrow> 'w \<Rightarrow> (ptr \<times> heap \<times> 'w) option" where
  "grow_and_retry sbrk nunits h w = Option.bind (morecore sbrk nunits h w) (\<lambda>(p', h', w').
     if p' = 0 then Some (0, h', w') else malloc_loop sbrk nunits p' (hd_ptr h' p') h' w')"

definition found_block :: "ptr \<Rightarrow> block list \<Rightarrow> uint \<Rightarrow> 'w \<Rightarrow> (ptr \<times> heap \<times> 'w) option \<Rightarrow> bool" where
  "found_block base F nunits w res \<longleftrightarrow> (\<exists>r h'. res = Some (r, h', w) \<and> taken base F nunits r h')"

lemma malloc_walk:
  assumes "heap_inv base (A @ B) h" "0 < unat nunits" "prevp = last (base # map fst A)" "p = hd (map fst B @ [base])"
  shows "found_block base (A @ B) nunits w (malloc_loop sbrk nunits prevp p h w) \<or>
    malloc_loop sbrk nunits prevp p h w = grow_and_retry sbrk nunits h w \<and>
      (\<exists>B1 b B2. B = B1 @ b # B2 \<and> fst b = freep h \<and> (\<forall>c\<in>set (B1 @ [b]). unat (snd c) < unat nunits)) \<or>
    malloc_loop sbrk nunits prevp p h w = malloc_loop sbrk nunits (last (base # map fst (A @ B))) base h w \<and>
      freep h \<notin> fst ` set B \<and> (\<forall>c\<in>set B. unat (snd c) < unat nunits)"
  using assms
proof (induction B arbitrary: A prevp p)
  case (Cons b B)
  have s: "hd_size h (fst b) = snd b" using Cons(2) by (simp add: heap_inv_def sizes_ok_def)
  have l: "hd_ptr h (fst b) = hd (map fst B @ [base])"
    using Cons(2) by (cases B) (simp_all add: heap_inv_def linked_append)
  have p: "p = fst b" using Cons(5) by simp
  show ?case
  proof (cases "unat nunits \<le> unat (snd b)")
    case True
    obtain r h' where "malloc_take nunits prevp (fst b) h = (r, h')" "taken base (A @ b # B) nunits r h'"
      using malloc_take_ok [OF Cons(2,4,3) True] by blast
    then show ?thesis using True s by (subst (1) malloc_loop.simps) (simp add: p found_block_def word_le_nat_alt)
  next
    case False
    then have lt: "\<not> nunits \<le> hd_size h p" "unat (snd b) < unat nunits" by (simp_all add: p s word_le_nat_alt)
    show ?thesis
    proof (cases "fst b = freep h")
      case True
      have "malloc_loop sbrk nunits prevp p h w = grow_and_retry sbrk nunits h w"
        using lt True by (subst malloc_loop.simps) (simp add: p grow_and_retry_def)
      then show ?thesis using True lt by (intro disjI2 disjI1 conjI exI [of _ "[]"] exI [of _ b] exI [of _ B]) simp_all
    next
      case False
      have e: "malloc_loop sbrk nunits prevp p h w = malloc_loop sbrk nunits (fst b) (hd (map fst B @ [base])) h w"
        using lt False l by (subst malloc_loop.simps) (simp add: p)
      have inv: "heap_inv base ((A @ [b]) @ B) h" using Cons(2) by simp
      have "fst b = last (base # map fst (A @ [b]))" by simp
      from Cons(1) [OF inv Cons(3) this refl]
      show ?thesis
      proof (elim disjE conjE exE)
        fix B1 c B2 assume "malloc_loop sbrk nunits (fst b) (hd (map fst B @ [base])) h w = grow_and_retry sbrk nunits h w"
          "B = B1 @ c # B2" "fst c = freep h" "\<forall>c\<in>set (B1 @ [c]). unat (snd c) < unat nunits"
        then show ?thesis using e lt by (intro disjI2 disjI1 conjI exI [of _ "b # B1"] exI [of _ c] exI [of _ B2]) simp_all
      qed (use e lt False in simp_all)
    qed
  qed
qed simp

text \<open>One round from where the last search stopped either finds a block or no block is large enough.\<close>

lemma malloc_round:
  assumes inv: "heap_inv base F h" and n: "0 < unat nunits"
  shows "found_block base F nunits w (malloc_loop sbrk nunits (freep h) (hd_ptr h (freep h)) h w) \<or>
    malloc_loop sbrk nunits (freep h) (hd_ptr h (freep h)) h w = grow_and_retry sbrk nunits h w \<and>
      (\<forall>c\<in>set F. unat (snd c) < unat nunits)"
proof -
  have b0: "\<not> nunits \<le> hd_size h base" using inv n by (simp add: heap_inv_def word_le_nat_alt)
  have d: "distinct (base # map fst F)" using inv by (intro sep_distinct) (simp add: heap_inv_def)
  have lF: "hd_ptr h base = hd (map fst F @ [base])" using inv by (cases F) (simp_all add: heap_inv_def)
  show ?thesis
  proof (cases "freep h = base")
    case True
    have "malloc_loop sbrk nunits (last (base # map fst F)) base h w = grow_and_retry sbrk nunits h w"
      using b0 True by (subst malloc_loop.simps) (simp add: grow_and_retry_def)
    moreover have "base \<notin> fst ` set F" using d by simp
    ultimately show ?thesis using malloc_walk [of base "[]" F h nunits base "hd_ptr h base" w sbrk] inv n lF True by fastforce
  next
    case False
    then obtain b where "b \<in> set F" "fst b = freep h" using inv by (auto simp: heap_inv_def)
    then obtain A1 A2 where F: "F = A1 @ b # A2" and b: "fst b = freep h" by (meson split_list)
    have l2: "hd_ptr h (fst b) = hd (map fst A2 @ [base])"
      using inv by (cases A2) (simp_all add: heap_inv_def F linked_append)
    have nb: "malloc_loop sbrk nunits (last (base # map fst F)) base h w = malloc_loop sbrk nunits base (hd_ptr h base) h w"
      using b0 False by (subst malloc_loop.simps) simp
    note w1 = malloc_walk [of base "A1 @ [b]" A2 h nunits "freep h" "hd_ptr h (freep h)" w sbrk]
    note w2 = malloc_walk [of base "[]" F h nunits base "hd_ptr h base" w sbrk]
    have nf: "freep h \<notin> fst ` set A2" "freep h \<notin> fst ` set A1" using d b by (auto simp: F)
    have c1: "found_block base F nunits w (malloc_loop sbrk nunits (freep h) (hd_ptr h (freep h)) h w) \<or>
        malloc_loop sbrk nunits (freep h) (hd_ptr h (freep h)) h w = malloc_loop sbrk nunits base (hd_ptr h base) h w \<and>
        (\<forall>c\<in>set A2. unat (snd c) < unat nunits)"
      using w1 inv n b l2 nf nb by (fastforce simp: F)
    have c2: "found_block base F nunits w (malloc_loop sbrk nunits base (hd_ptr h base) h w) \<or>
        malloc_loop sbrk nunits base (hd_ptr h base) h w = grow_and_retry sbrk nunits h w \<and>
        (\<forall>c\<in>set (A1 @ [b]). unat (snd c) < unat nunits)"
    proof -
      have f: "freep h \<in> fst ` set F" using b by (force simp: F)
      have u: "B1 = A1 \<and> c = b" if c: "F = B1 @ c # B2" "fst c = freep h" for B1 c B2
      proof -
        have m: "map fst A1 @ freep h # map fst A2 = map fst B1 @ freep h # map fst B2"
          using arg_cong [OF c(1), of "map fst"] b c(2) by (simp add: F)
        then have "length A1 = length B1" using nf append_Cons_eq_iff [of "freep h" "map fst A1" "map fst A2"]
          by (metis length_map list.set_map)
        then show ?thesis using c(1) by (simp add: F)
      qed
      from w2 inv n lF have "found_block base F nunits w (malloc_loop sbrk nunits base (hd_ptr h base) h w) \<or>
        malloc_loop sbrk nunits base (hd_ptr h base) h w = grow_and_retry sbrk nunits h w \<and>
          (\<exists>B1 b B2. F = B1 @ b # B2 \<and> fst b = freep h \<and> (\<forall>c\<in>set (B1 @ [b]). unat (snd c) < unat nunits))"
        using f by auto
      then show ?thesis using u by blast
    qed
    show ?thesis using c1 c2 by (auto simp: F)
  qed
qed

section \<open>Correctness\<close>

text \<open>
  What the allocator relies on in sbrk: a request it grants is for bytes above the header \<open>base\<close>
  that are not already in the free list.
\<close>

definition sbrk_fresh :: "ptr \<Rightarrow> block list \<Rightarrow> (uint \<Rightarrow> 'w \<Rightarrow> ptr \<times> 'w) \<Rightarrow> 'w \<Rightarrow> bool" where
  "sbrk_fresh base F sbrk w \<longleftrightarrow> (\<forall>n q w'. unat n < 2 ^ 31 \<longrightarrow> sbrk n w = (q, w') \<longrightarrow> q = - 1 \<or>
     unat base < unat q \<and> unat q + unat n < 2 ^ 32 \<and> {unat q..<unat q + unat n} \<inter> bytes F = {})"

definition new_bytes :: "(uint \<Rightarrow> 'w \<Rightarrow> ptr \<times> 'w) \<Rightarrow> 'w \<Rightarrow> 'w \<Rightarrow> nat set \<Rightarrow> bool" where
  "new_bytes sbrk w w' N \<longleftrightarrow> N = {} \<and> w' = w \<or> (\<exists>n q. sbrk n w = (q, w') \<and> q \<noteq> - 1 \<and> N = {unat q..<unat q + unat n})"

lemma malloc_units_bounds:
  assumes "unat nbytes \<le> 0x7FFFFFF0"
  shows "0 < unat (malloc_units nbytes)" "8 * unat (malloc_units nbytes) < 2 ^ 31"
    "unat nbytes + 8 \<le> 8 * unat (malloc_units nbytes)"
proof -
  have "unat (nbytes + 7) = unat nbytes + 7" using assms by (subst unat_add_lem [THEN iffD1]) simp_all
  then have u: "unat ((nbytes + 7) div 8) = (unat nbytes + 7) div 8" by (simp add: unat_div)
  have "malloc_units nbytes = (nbytes + 7) div 8 + 1" by (simp add: malloc_units_def add.commute)
  moreover have "unat (x + 1) = unat x + 1" if "unat x < 0x20000000" for x :: uint
    using that by (subst unat_add_lem [THEN iffD1]) simp_all
  then have "unat ((nbytes + 7) div 8 + 1) = unat ((nbytes + 7) div 8) + 1" using u assms by simp
  ultimately have "unat (malloc_units nbytes) = (unat nbytes + 7) div 8 + 1" using u by simp
  then show "0 < unat (malloc_units nbytes)" "8 * unat (malloc_units nbytes) < 2 ^ 31"
    "unat nbytes + 8 \<le> 8 * unat (malloc_units nbytes)" using assms by simp_all
qed

text \<open>A request to the system that is granted leaves a block that is large enough where the search resumes.\<close>

lemma morecore_ok:
  assumes inv: "heap_inv base F h" and fresh: "sbrk_fresh base F sbrk w" and nu: "8 * unat nunits < 2 ^ 31"
  obtains n q w' where "sbrk n w = (q, w')" "q = - 1" "morecore sbrk nunits h w = Some (0, h, w')"
  | n q w' h' F' where "sbrk n w = (q, w')" "q \<noteq> - 1" "morecore sbrk nunits h w = Some (freep h', h', w')" "heap_inv base F' h'"
      "bytes F' = bytes F \<union> {unat q..<unat q + unat n}" "\<exists>b\<in>set F'. unat nunits \<le> unat (snd b)" "freep h' \<noteq> 0"
proof -
  define k where "k = (if nunits < 4096 then 4096 else nunits)"
  have k: "unat nunits \<le> unat k" "8 * unat k < 2 ^ 31" "0 < unat k"
    using nu by (auto simp: k_def word_less_nat_alt not_less split: if_splits)
  have k8: "unat (k * 8) = 8 * unat k" using k(2) by (subst unat_mult_lem [THEN iffD1]) simp_all
  obtain q w' where q: "sbrk (k * 8) w = (q, w')" by (cases "sbrk (k * 8) w")
  show ?thesis
  proof (cases "q = - 1")
    case True
    then show ?thesis using q by (intro that(1) [OF q True]) (simp add: morecore_def k_def [symmetric] Let_def)
  next
    case False
    have f: "unat base < unat q" "unat q + 8 * unat k < 2 ^ 32" "{unat q..<unat q + 8 * unat k} \<inter> bytes F = {}"
      using fresh q False k(2) unfolding sbrk_fresh_def by (metis k8)+
    have ne: "q \<notin> fst ` set F" "q \<noteq> base"
    proof -
      show "q \<noteq> base" using f(1) by auto
      have "unat (fst b) \<in> bytes F" if "b \<in> set F" for b
        using inv that sep_low [of "unat base" F b] blk_end_gt [of b] by (fastforce simp: heap_inv_def bytes_def blk_bytes_def)
      then show "q \<notin> fst ` set F" using f(3) k(3) by (auto simp: disjoint_iff)
    qed
    have inv': "heap_inv base F (set_size q k h)"
      using inv ne linked_cong [of base "map fst F" "set_size q k h" h base] by (auto simp: heap_inv_def sizes_ok_def)
    have e: "blk_end (q, k) < 2 ^ 32" "blk_bytes (q, k) = {unat q..<unat q + unat (k * 8)}"
      using f(2) by (simp_all add: blk_end_def blk_bytes_def k8)
    obtain h' F' where h': "free_u (q + 8) (set_size q k h) = Some h'" "heap_inv base F' h'" "bytes F' = bytes F \<union> blk_bytes (q, k)"
        "\<exists>b\<in>set F'. unat k \<le> unat (snd b) \<and> (fst b = freep h' \<or> fst b = hd_ptr h' (freep h'))"
      by (rule free_keeps_inv [OF inv' _ k(3) e(1) f(1)]) (use f(3) in \<open>auto simp: e(2) k8\<close>)
    have "freep h' \<noteq> 0" using h'(2) sep_low [of "unat base" F'] by (fastforce simp: heap_inv_def)
    moreover have "morecore sbrk nunits h w = Some (freep h', h', w')"
      using q False h'(1) by (simp add: morecore_def k_def [symmetric] Let_def)
    moreover have "\<exists>b\<in>set F'. unat nunits \<le> unat (snd b)" using h'(4) k(1) order_trans by blast
    ultimately show ?thesis using that(2) [OF q False _ h'(2)] h'(3) e(2) by simp
  qed
qed

lemma found_blockE:
  assumes "found_block base F nunits w res"
  obtains r h' F' where "res = Some (r, h', w)" "r \<noteq> 0" "hd_size h' (r - 8) = nunits" "heap_inv base F' h'"
    "bytes F' \<inter> blk_bytes (r - 8, nunits) = {}" "bytes F' \<union> blk_bytes (r - 8, nunits) = bytes F"
  using assms unfolding found_block_def taken_def by blast

text \<open>
  C18: malloc always ends.  It returns 0, with the free list as it was, only when sbrk refuses more
  memory.  Otherwise the block it returns has room for the bytes asked for, was free before or
  has just come from sbrk, shares no byte with the free list that is left, and no other byte
  has left the list.
\<close>

theorem malloc_correct:
  assumes "heap_inv base F h \<or> base \<noteq> 0 \<and> freep h = 0 \<and> F = []" "unat nbytes \<le> 0x7FFFFFF0" "sbrk_fresh base F sbrk w"
  shows "\<exists>r h' w' F' N. malloc_u base sbrk nbytes h w = Some (r, h', w') \<and> heap_inv base F' h' \<and>
    (r = 0 \<and> bytes F' = bytes F \<and> (\<exists>n. sbrk n w = (- 1, w')) \<or>
     r \<noteq> 0 \<and> hd_size h' (r - 8) = malloc_units nbytes \<and> unat nbytes + 8 \<le> 8 * unat (malloc_units nbytes) \<and>
     new_bytes sbrk w w' N \<and> bytes F' \<inter> blk_bytes (r - 8, malloc_units nbytes) = {} \<and>
     bytes F' \<union> blk_bytes (r - 8, malloc_units nbytes) = bytes F \<union> N)"
proof -
  define h0 where "h0 = malloc_init base h"
  define n where "n = malloc_units nbytes"
  note n = malloc_units_bounds [OF assms(2), folded n_def]
  have nz: "freep h \<noteq> 0" if "heap_inv base F h" using that sep_low [of "unat base" F] by (fastforce simp: heap_inv_def)
  have inv: "heap_inv base F h0" using assms(1)
  proof
    assume "heap_inv base F h"
    then show ?thesis using nz by (simp add: h0_def malloc_init_def)
  qed (simp add: h0_def malloc_init_def heap_inv_def sizes_ok_def)
  have res: "malloc_u base sbrk nbytes h w = malloc_loop sbrk n (freep h0) (hd_ptr h0 (freep h0)) h0 w"
    by (simp add: malloc_u_def h0_def n_def Let_def)
  consider (found) "found_block base F n w (malloc_u base sbrk nbytes h w)"
    | (grow) "malloc_u base sbrk nbytes h w = grow_and_retry sbrk n h0 w"
    using malloc_round [OF inv n(1), of w sbrk] unfolding res by blast
  then show ?thesis unfolding n_def [symmetric]
  proof cases
    case found
    then obtain r h' F' where "malloc_u base sbrk nbytes h w = Some (r, h', w)" "r \<noteq> 0" "hd_size h' (r - 8) = n" "heap_inv base F' h'"
      "bytes F' \<inter> blk_bytes (r - 8, n) = {}" "bytes F' \<union> blk_bytes (r - 8, n) = bytes F" by (rule found_blockE)
    then show "\<exists>r h' w' F' N. malloc_u base sbrk nbytes h w = Some (r, h', w') \<and> heap_inv base F' h' \<and>
      (r = 0 \<and> bytes F' = bytes F \<and> (\<exists>n. sbrk n w = (- 1, w')) \<or>
       r \<noteq> 0 \<and> hd_size h' (r - 8) = n \<and> unat nbytes + 8 \<le> 8 * unat n \<and> new_bytes sbrk w w' N \<and>
       bytes F' \<inter> blk_bytes (r - 8, n) = {} \<and> bytes F' \<union> blk_bytes (r - 8, n) = bytes F \<union> N)"
      using n(3) by (intro exI [of _ r] exI [of _ h'] exI [of _ w] exI [of _ F'] exI [of _ "{}"]) (simp add: new_bytes_def)
  next
    case grow
    show "\<exists>r h' w' F' N. malloc_u base sbrk nbytes h w = Some (r, h', w') \<and> heap_inv base F' h' \<and>
      (r = 0 \<and> bytes F' = bytes F \<and> (\<exists>n. sbrk n w = (- 1, w')) \<or>
       r \<noteq> 0 \<and> hd_size h' (r - 8) = n \<and> unat nbytes + 8 \<le> 8 * unat n \<and> new_bytes sbrk w w' N \<and>
       bytes F' \<inter> blk_bytes (r - 8, n) = {} \<and> bytes F' \<union> blk_bytes (r - 8, n) = bytes F \<union> N)"
      using inv assms(3) n(2)
    proof (cases rule: morecore_ok)
      case (1 k q w')
      then have "malloc_u base sbrk nbytes h w = Some (0, h0, w')" by (simp add: grow grow_and_retry_def)
      then show ?thesis using inv 1 by blast
    next
      case (2 k q w' h1 F1)
      have "malloc_u base sbrk nbytes h w = malloc_loop sbrk n (freep h1) (hd_ptr h1 (freep h1)) h1 w'"
        using 2 by (simp add: grow grow_and_retry_def)
      then have "found_block base F1 n w' (malloc_u base sbrk nbytes h w)"
        using malloc_round [OF 2(4) n(1), of w' sbrk] 2(6) by (metis not_less)
      then obtain r h' F' where "malloc_u base sbrk nbytes h w = Some (r, h', w')" "r \<noteq> 0" "hd_size h' (r - 8) = n" "heap_inv base F' h'"
        "bytes F' \<inter> blk_bytes (r - 8, n) = {}" "bytes F' \<union> blk_bytes (r - 8, n) = bytes F1" by (rule found_blockE)
      moreover have "new_bytes sbrk w w' {unat q..<unat q + unat k}" using 2(1,2) by (auto simp: new_bytes_def)
      ultimately show ?thesis using n(3) 2(5) by blast
    qed
  qed
qed

text \<open>The first call of malloc in a process whose memory ends at \<open>0x2000\<close>.\<close>

definition ex_heap :: heap where
  "ex_heap = \<lparr>hd_ptr = (\<lambda>_. 0), hd_size = (\<lambda>_. 0), freep = 0\<rparr>"

definition ex_sbrk :: "uint \<Rightarrow> ptr \<Rightarrow> ptr \<times> ptr" where
  "ex_sbrk n w = (w, w + n)"

theorem malloc_correct_witness:
  "\<exists>r h' F' w' N. malloc_u 0x1000 ex_sbrk 100 ex_heap 0x2000 = Some (r, h', w') \<and> heap_inv 0x1000 F' h' \<and> r \<noteq> 0 \<and>
     new_bytes ex_sbrk 0x2000 w' N \<and> bytes F' \<union> blk_bytes (r - 8, 14) = N"
proof -
  have u: "malloc_units 100 = 14" by (simp add: malloc_units_def)
  have f: "sbrk_fresh 0x1000 [] ex_sbrk 0x2000" by (auto simp: sbrk_fresh_def ex_sbrk_def)
  have n: "ex_sbrk n 0x2000 \<noteq> (- 1, w')" for n w' by (simp add: ex_sbrk_def)
  have "heap_inv 0x1000 [] ex_heap \<or> 0x1000 \<noteq> (0 :: ptr) \<and> freep ex_heap = 0 \<and> ([] :: block list) = []" by (simp add: ex_heap_def)
  from malloc_correct [OF this _ f, of 100] n show ?thesis by (auto simp: u)
qed

text \<open>
  C19: free of an allocated block, one whose header holds its size and that shares no byte with the
  free list, always ends, keeps the list in order with touching blocks joined, and gives back
  exactly the bytes of the block.
\<close>

theorem free_correct:
  assumes "heap_inv base F h" "0 < unat (hd_size h bp)" "blk_end (bp, hd_size h bp) < 2 ^ 32" "unat base < unat bp"
    and "blk_bytes (bp, hd_size h bp) \<inter> bytes F = {}"
  shows "\<exists>h' F'. free_u (bp + 8) h = Some h' \<and> heap_inv base F' h' \<and> bytes F' = bytes F \<union> blk_bytes (bp, hd_size h bp)"
  using free_keeps_inv [OF assms(1) refl assms(2-5)] by metis

text \<open>A free block of 4 units at \<open>0x3000\<close>, and an allocated one of 2 units that ends where it begins.\<close>

theorem free_correct_witness:
  "\<exists>h h' F'. hd_size h 0x2FF0 = 2 \<and> free_u 0x2FF8 h = Some h' \<and> heap_inv 0x1000 F' h' \<and> bytes F' = {0x2FF0..<0x3020}"
proof -
  let ?h = "\<lparr>hd_ptr = (\<lambda>_. 0x1000)(0x1000 := 0x3000), hd_size = (\<lambda>_. 0)(0x3000 := 4, 0x2FF0 := 2), freep = 0x1000\<rparr> :: heap"
  have "heap_inv 0x1000 [(0x3000, 4)] ?h" by (simp add: heap_inv_def sizes_ok_def blk_end_def)
  moreover have "blk_bytes (0x2FF0, 2) \<inter> bytes [(0x3000, 4)] = {}" by (auto simp: blk_bytes_def blk_end_def)
  ultimately have "\<exists>h' F'. free_u (0x2FF0 + 8) ?h = Some h' \<and> heap_inv 0x1000 F' h' \<and>
      bytes F' = bytes [(0x3000, 4)] \<union> blk_bytes (0x2FF0, hd_size ?h 0x2FF0)"
    by (intro free_correct) (simp_all add: blk_end_def)
  moreover have "bytes [(0x3000, 4)] \<union> blk_bytes (0x2FF0, 2) = {0x2FF0..<0x3020}" by (auto simp: blk_bytes_def blk_end_def)
  ultimately show ?thesis by - (rule exI [of _ ?h], simp)
qed

text \<open>For the seven largest sizes the number of units wraps: the call returns what malloc(0) returns, a header without room.\<close>

lemma malloc_wraps:
  assumes "nbytes > 0xFFFFFFF8"
  shows "malloc_units nbytes = 1" "malloc_u base sbrk nbytes h w = malloc_u base sbrk 0 h w"
proof -
  have "unat nbytes < 2 ^ 32" using unsigned_less [of nbytes] by simp
  moreover have "0xFFFFFFF8 < unat nbytes" using assms by (simp add: word_less_nat_alt)
  ultimately have "(unat nbytes + 7) mod 2 ^ 32 < 8" by (simp add: le_mod_geq)
  then have "unat (nbytes + 7) < 8" by (simp add: unat_word_ariths)
  then have "unat ((nbytes + 7) div 8) = 0" by (simp add: unat_div)
  then have "(nbytes + 7) div 8 = 0" by (simp add: unat_eq_0)
  then show u: "malloc_units nbytes = 1" by (simp add: malloc_units_def add.commute)
  show "malloc_u base sbrk nbytes h w = malloc_u base sbrk 0 h w" unfolding malloc_u_def u by (simp add: malloc_units_def)
qed

end
