(* ===== verification/Content.thy ===== *)
theory Content
  imports Crash Fs
begin

text \<open>
  The contents of files: what readi returns and what writei changes, over the block cache and the
  log.  A file is seen through the blocks \<open>v\<close> that the cache shows: the address of its \<open>i\<close>-th block
  is in the inode or in its indirect block, and its \<open>k\<close>-th byte is in its block \<open>k div BSIZE\<close>.
\<close>

section \<open>The blocks of a file\<close>

definition baddr :: "(uint \<Rightarrow> byte list) \<Rightarrow> inode \<Rightarrow> nat \<Rightarrow> uint" where
  "baddr v x i = (if i < NDIRECT then i_addrs x ! i else get32 (v (i_addrs x ! NDIRECT)) (4 * (i - NDIRECT)))"

definition file_byte :: "(uint \<Rightarrow> byte list) \<Rightarrow> inode \<Rightarrow> nat \<Rightarrow> byte" where
  "file_byte v x k = v (baddr v x (k div BSIZE)) ! (k mod BSIZE)"

definition file_bytes :: "(uint \<Rightarrow> byte list) \<Rightarrow> inode \<Rightarrow> nat \<Rightarrow> nat \<Rightarrow> byte list" where
  "file_bytes v x off n = map (file_byte v x) [off..<off + n]"

text \<open>The block \<open>i\<close> is mapped: its address, and that of the indirect block it needs, are on the disk.\<close>

definition mapped :: "kernel \<Rightarrow> (uint \<Rightarrow> byte list) \<Rightarrow> inode \<Rightarrow> nat \<Rightarrow> bool" where
  "mapped s v x i \<longleftrightarrow> i < MAXFILE \<and> baddr v x i \<noteq> 0 \<and> baddr v x i < disksize s \<and> length (v (baddr v x i)) = BSIZE \<and>
     (NDIRECT \<le> i \<longrightarrow> i_addrs x ! NDIRECT \<noteq> 0 \<and> i_addrs x ! NDIRECT < disksize s)"

section \<open>Reading\<close>

text \<open>A frame of code that only reads: the cache may change, but neither the disk nor the blocks that are seen.\<close>

definition rframe :: "kernel \<Rightarrow> kernel \<Rightarrow> bool" where
  "rframe s t \<longleftrightarrow> kframe s t \<and> disk t = disk s \<and> dwrites t = dwrites s"

lemma rframe_refl: "rframe s s"
  by (simp add: rframe_def kframe_refl)

lemma rframe_trans: "rframe s t \<Longrightarrow> rframe t u \<Longrightarrow> rframe s u"
  using kframe_trans by (auto simp: rframe_def)

lemma rframe_lframe: "rframe s t \<Longrightarrow> lframe s t"
  using kframe_lframe by (simp add: rframe_def)

lemma read_release:
  assumes "cache_inv s {} U v" "n < disksize s" "n \<in> U \<or> card U < NBUF"
  shows "\<exists>b t t'. bread 1 n s = Ok b t \<and> buf_data b t = Ok (v n) t \<and> cache_inv t {b} U v \<and> rframe s t \<and>
    brelse b t = Ok () t' \<and> cache_inv t' {} U v \<and> rframe s t'"
proof -
  obtain b t x where 1: "bread 1 n s = Ok b t" "cache_inv t {b} U v" "rframe s t" "bufs t = (bufs s)[b := x]" "b < length (bufs s)"
      "b_blockno x = n" "b_data x = v n" "n \<in> U \<longrightarrow> b_dirty x"
    using bc.rd_law [OF assms(1,2)] assms(3) unfolding rframe_def by force
  have x: "bufs t ! b = x" using 1(4,5) by simp
  then obtain t' where 2: "brelse b t = Ok () t'" "cache_inv t' ({b} - {b}) U v" "rframe t t'"
    using bc.rel_law [OF 1(2), of b] 1(6,8) unfolding rframe_def by auto
  have "buf_data b t = Ok (v n) t" using x 1(7) by (simp add: buf_data_def gets_def)
  then show ?thesis using 1(1-3) 2 rframe_trans [OF 1(3) 2(3)] by (intro exI [of _ b] exI [of _ t] exI [of _ t']) simp
qed

lemma icache_frame: "rframe s t \<Longrightarrow> icache t = icache s \<and> disksize t = disksize s"
  by (auto simp: rframe_def kframe_def set_cache_def)

lemma mapped_frame: "rframe s t \<Longrightarrow> mapped t v x i = mapped s v x i"
  using icache_frame by (simp add: mapped_def)

lemma bmap_mapped:
  assumes inv: "cache_inv s {} U v" "card U < NBUF" and x: "icache s ! ip = x" "i_dev x = 1" and m: "mapped s v x i"
  shows "\<exists>t. bmap ip i s = Ok (baddr v x i) t \<and> cache_inv t {} U v \<and> rframe s t"
proof (cases "i < NDIRECT")
  case True
  then show ?thesis using assms rframe_refl by (simp add: bmap_def gets_def baddr_def mapped_def ret_def)
next
  case False
  have a: "i_addrs x ! NDIRECT \<noteq> 0" "i_addrs x ! NDIRECT < disksize s" "i - NDIRECT < NINDIRECT"
    "get32 (v (i_addrs x ! NDIRECT)) (4 * (i - NDIRECT)) \<noteq> 0" "baddr v x i = get32 (v (i_addrs x ! NDIRECT)) (4 * (i - NDIRECT))"
    using m False by (auto simp: mapped_def baddr_def)
  obtain b t t' where "bread 1 (i_addrs x ! NDIRECT) s = Ok b t" "buf_data b t = Ok (v (i_addrs x ! NDIRECT)) t"
      "brelse b t = Ok () t'" "cache_inv t' {} U v" "rframe s t'"
    using read_release [OF inv(1) a(2)] inv(2) by blast
  then show ?thesis using False a x by (auto simp: bmap_def gets_def ret_def seqM_def)
qed

lemma file_bytes_split: "file_bytes v x off (m + n) = file_bytes v x off m @ file_bytes v x (off + m) n"
  using upt_add_eq_append [of off "off + m" n] by (simp add: file_bytes_def add.assoc)

lemma block_offset:
  assumes "off mod BSIZE + k < BSIZE"
  shows "(off + k) div BSIZE = off div BSIZE" "(off + k) mod BSIZE = off mod BSIZE + k"
proof -
  have e: "off + k = off mod BSIZE + k + BSIZE * (off div BSIZE)" using mod_mult_div_eq [of off BSIZE] by linarith
  have "(off + k) div BSIZE = off div BSIZE + (off mod BSIZE + k) div BSIZE" by (subst e, rule div_mult_self2) simp
  then show "(off + k) div BSIZE = off div BSIZE" using div_less [OF assms] by linarith
  have "(off + k) mod BSIZE = (off mod BSIZE + k) mod BSIZE" by (subst e, rule mod_mult_self2)
  then show "(off + k) mod BSIZE = off mod BSIZE + k" using mod_less [OF assms] by linarith
qed

lemma file_bytes_block:
  assumes "length (v (baddr v x (off div BSIZE))) = BSIZE" "m \<le> BSIZE - off mod BSIZE"
  shows "take m (drop (off mod BSIZE) (v (baddr v x (off div BSIZE)))) = file_bytes v x off m"
proof (rule nth_equalityI)
  fix k assume "k < length (take m (drop (off mod BSIZE) (v (baddr v x (off div BSIZE)))))"
  then have k: "k < m" "off mod BSIZE + k < BSIZE" using assms by simp_all
  then have "(off + k) div BSIZE = off div BSIZE" "(off + k) mod BSIZE = off mod BSIZE + k" using block_offset by simp_all
  then show "take m (drop (off mod BSIZE) (v (baddr v x (off div BSIZE)))) ! k = file_bytes v x off m ! k"
    using k assms by (simp add: file_bytes_def file_byte_def)
qed (use assms in \<open>simp add: file_bytes_def\<close>)

lemma readi_loop_content:
  assumes "cache_inv s {} U v" "card U < NBUF" "icache s ! ip = x" "i_dev x = 1"
    and "\<And>k. off \<le> k \<Longrightarrow> k < off + n \<Longrightarrow> mapped s v x (k div BSIZE)"
  shows "\<exists>t. readi_loop ip off n s = Ok (file_bytes v x off n) t \<and> cache_inv t {} U v \<and> rframe s t"
  using assms
proof (induction ip off n arbitrary: s rule: readi_loop.induct)
  case (1 ip off n)
  show ?case
  proof (cases "n = 0")
    case True
    then show ?thesis using 1(2) rframe_refl by (subst readi_loop.simps) (simp add: file_bytes_def ret_def)
  next
    case False
    define m where "m = min n (BSIZE - off mod BSIZE)"
    have m: "0 < m" "m \<le> n" "m \<le> BSIZE - off mod BSIZE" using False by (simp_all add: m_def)
    have mp: "mapped s v x (off div BSIZE)" using 1(6) [of off] False by simp
    obtain s1 where 2: "bmap ip (off div BSIZE) s = Ok (baddr v x (off div BSIZE)) s1" "cache_inv s1 {} U v" "rframe s s1"
      using bmap_mapped [OF 1(2-5) mp] by blast
    have a: "baddr v x (off div BSIZE) < disksize s1" "length (v (baddr v x (off div BSIZE))) = BSIZE"
      using mp icache_frame [OF 2(3)] by (simp_all add: mapped_def)
    obtain b t t' where 3: "bread 1 (baddr v x (off div BSIZE)) s1 = Ok b t" "buf_data b t = Ok (v (baddr v x (off div BSIZE))) t"
        "brelse b t = Ok () t'" "cache_inv t' {} U v" "rframe s1 t'"
      using read_release [OF 2(2) a(1)] 1(3) by blast
    have k: "rframe s t'" by (rule rframe_trans [OF 2(3) 3(5)])
    have "\<exists>u. readi_loop ip (off + m) (n - m) t' = Ok (file_bytes v x (off + m) (n - m)) u \<and> cache_inv u {} U v \<and> rframe t' u"
      using 1(4-6) m icache_frame [OF k] mapped_frame [OF k]
      by (intro 1(1) [OF False m_def 3(4) 1(3)]) simp_all
    then obtain u where u: "readi_loop ip (off + m) (n - m) t' = Ok (file_bytes v x (off + m) (n - m)) u" "cache_inv u {} U v" "rframe t' u" by blast
    have "file_bytes v x off n = take m (drop (off mod BSIZE) (v (baddr v x (off div BSIZE)))) @ file_bytes v x (off + m) (n - m)"
      using file_bytes_split [of v x off m "n - m"] file_bytes_block [of v x off m] a(2) m(2,3) by simp
    then have "readi_loop ip off n s = Ok (file_bytes v x off n) u"
      using False 2(1) 3(1-3) u(1) 1(4,5) by (subst readi_loop.simps) (simp add: m_def [symmetric] gets_def seqM_def ret_def Let_def)
    then show ?thesis using u rframe_trans [OF k u(3)] by blast
  qed
qed

text \<open>
  C8: readi of a file returns exactly its bytes.  Over a consistent cache, for an inode whose blocks
  below its size are mapped, it answers -1 when the offset is past the end or the range wraps, and
  otherwise the bytes of the file from the offset on, as many as asked for and as there are,
  whether they are in the cache or on the disk and across the indirect block.  Nothing is written.
\<close>

theorem readi_content:
  assumes "cache_inv s {} U v" "card U < NBUF" "icache s ! ip = x" "i_dev x = 1" "i_type x \<noteq> T_DEV"
    and "\<And>k. k < unat (i_size x) \<Longrightarrow> mapped s v x (k div BSIZE)"
  shows "\<exists>r t. readi ip off n s = Ok r t \<and> cache_inv t {} U v \<and> rframe s t \<and>
    r = (if unat off > unat (i_size x) \<or> unat off + unat n \<ge> 2 ^ 32 then (- 1, [])
         else let m = min (unat n) (unat (i_size x) - unat off) in (sint (of_nat m :: uint), file_bytes v x (unat off) m))"
proof (cases "unat off > unat (i_size x) \<or> unat off + unat n \<ge> 2 ^ 32")
  case True
  then have "off > i_size x \<or> off + n < off"
    using no_olen_add_nat [of off n] by (auto simp: word_less_nat_alt not_less word_le_nat_alt)
  then show ?thesis using True assms(1,3,5) rframe_refl by (auto simp: readi_def gets_def ret_def)
next
  case False
  then have g: "\<not> (off > i_size x \<or> off + n < off)" "unat (off + n) = unat off + unat n"
    using no_olen_add_nat [of off n] unat_plus_simple [of off n] by (auto simp: word_less_nat_alt not_less word_le_nat_alt)
  define m where "m = (if off + n > i_size x then i_size x - off else n)"
  have m: "unat m = min (unat n) (unat (i_size x) - unat off)"
    using False g(2) by (auto simp: m_def word_less_nat_alt unat_sub word_le_nat_alt)
  obtain t where t: "readi_loop ip (unat off) (unat m) s = Ok (file_bytes v x (unat off) (unat m)) t" "cache_inv t {} U v" "rframe s t"
    using readi_loop_content [OF assms(1-4), of "unat off" "unat m"] assms(6) m by force
  then have "readi ip off n s = Ok (sint m, file_bytes v x (unat off) (unat m)) t"
    using g(1) assms(3,5) by (simp add: readi_def gets_def ret_def m_def [symmetric] Let_def)
  moreover have "sint (of_nat (unat m) :: uint) = sint m" by simp
  ultimately show ?thesis using t(2,3) False by (simp add: Let_def m)
qed

section \<open>Transactions\<close>

text \<open>A transaction is open that has room for \<open>k\<close> more blocks, and the cache shows the blocks \<open>v\<close>.\<close>

definition in_trans :: "kernel \<Rightarrow> nat \<Rightarrow> (uint \<Rightarrow> byte list) \<Rightarrow> bool" where
  "in_trans s k v \<longleftrightarrow> (\<exists>n. log_open s (klog s) n v \<and> 1 \<le> lg_outstanding (klog s) \<and> int (n + k) < lg_size (klog s) \<and> n + k < NBUF \<and>
     n + k \<le> length (lh_block (klog s)) \<and> lg_start (klog s) + int (n + k) < int (unat (disksize s)) \<and>
     set (take n (lh_block (klog s))) \<inter> log_area (lg_start (klog s)) (NBUF - 1) = {})"

lemma in_trans_mono: "in_trans s k v \<Longrightarrow> j \<le> k \<Longrightarrow> in_trans s j v"
  unfolding in_trans_def by (elim exE) (auto intro!: exI)

lemma in_trans_cache: "in_trans s k v \<Longrightarrow> \<exists>U. cache_inv s {} U v \<and> card U < NBUF"
proof -
  assume "in_trans s k v"
  then obtain n where "cache_inv s {} (set (take n (lh_block (klog s)))) v" "n < NBUF" unfolding in_trans_def log_open_def by auto
  moreover have "card (set (take n (lh_block (klog s)))) \<le> n" using card_length [of "take n (lh_block (klog s))"] by simp
  ultimately show ?thesis by (meson le_less_trans)
qed

text \<open>Code that only reads keeps the transaction.\<close>

lemma in_trans_read:
  assumes "in_trans s k v" "\<And>U. cache_inv s {} U v \<Longrightarrow> card U < NBUF \<Longrightarrow> \<exists>t. m s = Ok r t \<and> cache_inv t {} U v \<and> rframe s t"
  shows "\<exists>t. m s = Ok r t \<and> in_trans t k v \<and> rframe s t"
proof -
  obtain n where n: "log_open s (klog s) n v" "1 \<le> lg_outstanding (klog s)" "int (n + k) < lg_size (klog s)" "n + k < NBUF"
     "n + k \<le> length (lh_block (klog s))" "lg_start (klog s) + int (n + k) < int (unat (disksize s))"
     "set (take n (lh_block (klog s))) \<inter> log_area (lg_start (klog s)) (NBUF - 1) = {}"
    using assms(1) unfolding in_trans_def by blast
  let ?U = "set (take n (lh_block (klog s)))"
  have "card ?U < NBUF" using n(4) card_length [of "take n (lh_block (klog s))"] by simp
  then obtain t where t: "m s = Ok r t" "cache_inv t {} ?U v" "rframe s t" using assms(2) [of ?U] n(1) unfolding log_open_def by blast
  have f: "klog t = klog s" "disksize t = disksize s" "disk t = disk s" using t(3) kframeD [of s t] by (simp_all add: rframe_def)
  then have "log_open t (klog s) n v" using n(1) t(2) unfolding log_open_def by simp
  then show ?thesis using n t f unfolding in_trans_def by (intro exI [of _ t]) (auto intro!: exI [of _ n])
qed

lemma klog_lframe:
  assumes "lframe s t"
  shows "lg_outstanding (klog t) = lg_outstanding (klog s)" "lg_size (klog t) = lg_size (klog s)" "lg_start (klog t) = lg_start (klog s)"
    "length (lh_block (klog t)) = length (lh_block (klog s))" "disksize t = disksize s" "icache t = icache s" "sb t = sb s" 
proof -
  show "lg_outstanding (klog t) = lg_outstanding (klog s)" "lg_size (klog t) = lg_size (klog s)" "lg_start (klog t) = lg_start (klog s)"
    "length (lh_block (klog t)) = length (lh_block (klog s))" using assms by (auto simp: lframe_def)
  have "kframe s (t\<lparr>klog := klog s\<rparr>)" using assms by (simp add: lframe_def)
  then obtain B l d w pt where "t\<lparr>klog := klog s\<rparr> = set_cache B l d w pt s" unfolding kframe_def by blast
  then have "disksize (t\<lparr>klog := klog s\<rparr>) = disksize s" "icache (t\<lparr>klog := klog s\<rparr>) = icache s" "sb (t\<lparr>klog := klog s\<rparr>) = sb s"
    by (simp_all add: set_cache_def)
  then show "disksize t = disksize s" "icache t = icache s" "sb t = sb s" by simp_all
qed

text \<open>A block is read, changed, logged and released.\<close>

lemma in_trans_update:
  assumes tr: "in_trans s (Suc k) v" and b: "b < disksize s" "b \<notin> log_area (lg_start (klog s)) (NBUF - 1)"
  shows "\<exists>x s1 t. bread 1 b s = Ok x s1 \<and> buf_data x s1 = Ok (v b) s1 \<and>
    seqM (set_data x d) (seqM (log_write x) (brelse x)) s1 = Ok () t \<and> in_trans t k (v(b := d)) \<and> lframe s t"
proof -
  let ?l = "klog s"
  obtain n where n: "log_open s ?l n v" "1 \<le> lg_outstanding ?l" "int (n + Suc k) < lg_size ?l" "n + Suc k < NBUF"
     "n + Suc k \<le> length (lh_block ?l)" "lg_start ?l + int (n + Suc k) < int (unat (disksize s))"
     "set (take n (lh_block ?l)) \<inter> log_area (lg_start ?l) (NBUF - 1) = {}"
    using tr unfolding in_trans_def by blast
  have sub: "log_area (lg_start ?l) (n + 1) \<subseteq> log_area (lg_start ?l) (NBUF - 1)" using n(4) by (auto simp: log_area_def)
  have p: "int n < lg_size ?l - 1" "n + 1 < NBUF" "n < length (lh_block ?l)" "lg_start ?l + int n + 1 < int (unat (disksize s))"
    "insert b (set (take n (lh_block ?l))) \<inter> log_area (lg_start ?l) (n + 1) = {}"
    using n(3-7) b(2) sub by auto
  obtain x s1 where 1: "bread 1 b s = Ok x s1" "buf_data x s1 = Ok (v b) s1" "cache_inv s1 {x} (set (take n (lh_block ?l))) v" "kframe s s1"
      "disk s1 = disk s" "dwrites s1 = dwrites s" "x < length (bufs s1)" "b = b_blockno (bufs s1 ! x)"
    using log_open_read [OF n(1) p(2) b(1)] by blast
  obtain t l' n' where t: "seqM (set_data x d) (seqM (log_write x) (brelse x)) s1 = Ok () t" "log_open t l' n' (v(b := d))" "lframe s t"
      "set (take n' (lh_block l')) = insert b (set (take n (lh_block ?l)))" "n' = (if b \<in> set (take n (lh_block ?l)) then n else n + 1)"
    using log_put_release [OF n(1,2) p(1-3) b(1) p(5,4) 1(3-8), of d] by blast
  have l': "klog t = l'" using t(2) by (simp add: log_open_def)
  have n': "n' \<le> n + 1" "set (take n' (lh_block l')) \<inter> log_area (lg_start ?l) (NBUF - 1) = {}" using t(4,5) n(7) b(2) by (auto split: if_splits)
  have "in_trans t k (v(b := d))"
    unfolding in_trans_def l' using t(2) n n' klog_lframe [OF t(3)] l' by (intro exI [of _ n']) auto
  then show ?thesis using 1(1,2) t(1,3) by blast
qed

section \<open>Writing\<close>

text \<open>
  The first \<open>N\<close> blocks of a file are laid out on the disk: they are mapped, different from each other, and
  neither in the log nor the block of the indirect addresses.
\<close>

definition laid_out :: "kernel \<Rightarrow> (uint \<Rightarrow> byte list) \<Rightarrow> inode \<Rightarrow> nat \<Rightarrow> bool" where
  "laid_out s v x N \<longleftrightarrow> inj_on (baddr v x) {..<N} \<and> (\<forall>i < N. mapped s v x i \<and> baddr v x i \<notin> log_area (lg_start (klog s)) (NBUF - 1) \<and>
     (NDIRECT < N \<longrightarrow> baddr v x i \<noteq> i_addrs x ! NDIRECT))"

lemma laid_out_lframe: "lframe s t \<Longrightarrow> laid_out t v x N = laid_out s v x N"
  using klog_lframe [of s t] by (simp add: laid_out_def mapped_def)

text \<open>Other blocks do not move the file.\<close>

lemma baddr_upd:
  assumes "\<And>b. v' b \<noteq> v b \<Longrightarrow> NDIRECT < N \<Longrightarrow> b \<noteq> i_addrs x ! NDIRECT" "i < N"
  shows "baddr v' x i = baddr v x i"
proof (cases "i < NDIRECT")
  case False
  then have "v' (i_addrs x ! NDIRECT) = v (i_addrs x ! NDIRECT)" using assms by fastforce
  then show ?thesis by (simp add: baddr_def)
qed (simp add: baddr_def)

lemma laid_out_upd:
  assumes "laid_out s v x N" "\<And>b. v' b \<noteq> v b \<Longrightarrow> NDIRECT < N \<Longrightarrow> b \<noteq> i_addrs x ! NDIRECT" "\<And>b. v' b \<noteq> v b \<Longrightarrow> length (v' b) = BSIZE"
  shows "laid_out s v' x N"
proof -
  have e: "baddr v' x i = baddr v x i" if "i < N" for i using baddr_upd [of v' v N x i] assms(2) that by blast
  have "inj_on (baddr v' x) {..<N}" using assms(1) e by (simp add: laid_out_def inj_on_def)
  moreover have "length (v' (baddr v x i)) = BSIZE" if "i < N" for i
    using assms(1,3) that by (cases "v' (baddr v x i) = v (baddr v x i)") (auto simp: laid_out_def mapped_def)
  ultimately show ?thesis using assms(1) e by (simp add: laid_out_def mapped_def)
qed

text \<open>What the contents of the file depend on.\<close>

definition separate :: "(uint \<Rightarrow> byte list) \<Rightarrow> inode \<Rightarrow> nat \<Rightarrow> bool" where
  "separate v x N \<longleftrightarrow> inj_on (baddr v x) {..<N} \<and> (\<forall>i < N. length (v (baddr v x i)) = BSIZE \<and>
     (NDIRECT < N \<longrightarrow> baddr v x i \<noteq> i_addrs x ! NDIRECT))"

lemma laid_separate: "laid_out s v x N \<Longrightarrow> separate v x N"
  by (simp add: laid_out_def separate_def mapped_def)

lemma separate_upd:
  assumes l: "separate v x N" and j: "j < N"
  shows "i < N \<Longrightarrow> baddr (v(baddr v x j := d)) x i = baddr v x i"
    "k < N * BSIZE \<Longrightarrow> file_byte (v(baddr v x j := d)) x k = (if k div BSIZE = j then d ! (k mod BSIZE) else file_byte v x k)"
proof -
  let ?v = "v(baddr v x j := d)"
  have a: "NDIRECT < N \<Longrightarrow> b \<noteq> i_addrs x ! NDIRECT" if "?v b \<noteq> v b" for b
    using that j l by (auto simp: separate_def split: if_splits)
  show e: "baddr ?v x i = baddr v x i" if "i < N" for i using baddr_upd [of ?v v N x i] a that by blast
  assume "k < N * BSIZE"
  then have k: "k div BSIZE < N" by (simp add: less_mult_imp_div_less)
  have "baddr v x (k div BSIZE) = baddr v x j \<longleftrightarrow> k div BSIZE = j"
    using l k j by (auto simp: separate_def inj_on_def)
  then show "file_byte ?v x k = (if k div BSIZE = j then d ! (k mod BSIZE) else file_byte v x k)"
    using e [OF k] by (simp add: file_byte_def)
qed

lemma block_upd:
  assumes l: "laid_out s v x N" and j: "j < N" "length d = BSIZE"
  shows "laid_out s (v(baddr v x j := d)) x N"
  using j l by (intro laid_out_upd [OF l]) (auto simp: laid_out_def split: if_splits)

text \<open>The number of blocks a range of bytes meets.\<close>

definition span :: "nat \<Rightarrow> nat \<Rightarrow> nat" where
  "span off n = (if n = 0 then 0 else Suc ((off mod BSIZE + n - 1) div BSIZE))"

lemma span_step:
  assumes "0 < n" "m = min n (BSIZE - off mod BSIZE)"
  shows "span off n = Suc (span (off + m) (n - m))"
proof (cases "n \<le> BSIZE - off mod BSIZE")
  case True
  then have "off mod BSIZE + n - 1 < BSIZE" using assms(1) mod_less_divisor [of BSIZE off] by linarith
  then show ?thesis using True assms by (simp add: span_def)
next
  case False
  have m: "m = BSIZE - off mod BSIZE" "m < n" using False assms(2) by simp_all
  have r: "off mod BSIZE < BSIZE" by simp
  have "off + m = BSIZE * (off div BSIZE) + BSIZE" using m(1) r mult_div_mod_eq [of BSIZE off] by linarith
  then have z: "(off + m) mod BSIZE = 0" by simp
  have "off mod BSIZE + n - 1 = (n - m - 1) + BSIZE" using m r by linarith
  then have "(off mod BSIZE + n - 1) div BSIZE = Suc ((n - m - 1) div BSIZE)" by simp
  then show ?thesis using m(2) z by (simp add: span_def)
qed

text \<open>What one turn of the loop stores in a block.\<close>

lemma chunk_nth:
  assumes "length d = BSIZE" "q + m \<le> BSIZE" "m \<le> length src" "p < BSIZE"
  shows "(take q d @ take m src @ drop (q + m) d) ! p = (if q \<le> p \<and> p < q + m then src ! (p - q) else d ! p)"
  using assms by (auto simp: nth_append)

declare writei_loop.simps [simp del]

lemma seqM_run: "m s = Ok x s' \<Longrightarrow> seqM m k s = k s'"
  by (simp add: seqM_def)

lemma seqM_seqM: "seqM (seqM a b) c = seqM a (seqM b c)"
  by (simp add: seqM_def bindM_assoc)

lemma chunk_bytes:
  fixes off :: nat and src :: "byte list" and v :: "uint \<Rightarrow> byte list" and x :: inode
  defines "i \<equiv> off div BSIZE" and "q \<equiv> off mod BSIZE"
  assumes l: "separate v x N" and i: "i < N" and m: "q + m \<le> BSIZE" "m \<le> length src" and k: "k < N * BSIZE"
  shows "file_byte (v(baddr v x i := take q (v (baddr v x i)) @ take m src @ drop (q + m) (v (baddr v x i)))) x k =
    (if off \<le> k \<and> k < off + m then src ! (k - off) else file_byte v x k)"
proof -
  let ?a = "baddr v x i"
  let ?d = "take q (v ?a) @ take m src @ drop (q + m) (v ?a)"
  have la: "length (v ?a) = BSIZE" using l i by (simp add: separate_def)
  have e: "file_byte (v(?a := ?d)) x k = (if k div BSIZE = i then ?d ! (k mod BSIZE) else file_byte v x k)"
    by (rule separate_upd(2) [OF l i k])
  show ?thesis
  proof (cases "k div BSIZE = i")
    case True
    then have "k + q = off + k mod BSIZE"
      using mult_div_mod_eq [of BSIZE off] mult_div_mod_eq [of BSIZE k] unfolding i_def q_def by linarith
    then have "q \<le> k mod BSIZE \<and> k mod BSIZE < q + m \<longleftrightarrow> off \<le> k \<and> k < off + m" "off \<le> k \<Longrightarrow> k mod BSIZE - q = k - off" by linarith+
    moreover have "file_byte v x k = v ?a ! (k mod BSIZE)" using True by (simp add: file_byte_def)
    ultimately show ?thesis unfolding e using True chunk_nth [OF la m, of "k mod BSIZE"] by auto
  next
    case False
    have "\<not> (off \<le> k \<and> k < off + m)"
    proof
      assume a: "off \<le> k \<and> k < off + m"
      then have "off mod BSIZE + (k - off) < BSIZE" using m(1) unfolding q_def by linarith
      then have "(off + (k - off)) div BSIZE = off div BSIZE" by (rule block_offset(1))
      then show False using a False unfolding i_def by simp
    qed
    then show ?thesis unfolding e using False by auto
  qed
qed

lemma writei_loop_content:
  assumes "in_trans s (j + span off (length src)) v" "icache s ! ip = x" "i_dev x = 1" "laid_out s v x N" "off + length src \<le> N * BSIZE"
  shows "\<exists>t v'. writei_loop ip off src s = Ok () t \<and> in_trans t j v' \<and> lframe s t \<and> laid_out t v' x N \<and>
    (\<forall>k < N * BSIZE. file_byte v' x k = (if off \<le> k \<and> k < off + length src then src ! (k - off) else file_byte v x k)) \<and>
    (\<forall>b. b \<notin> baddr v x ` {..<N} \<longrightarrow> v' b = v b)"
  using assms
proof (induction ip off src arbitrary: s v rule: writei_loop.induct)
  case (1 ip off src)
  show ?case
  proof (cases "src = []")
    case True
    then show ?thesis using 1(2,5) kframe_lframe [OF kframe_refl refl refl, of s]
      by (subst writei_loop.simps) (auto simp: ret_def span_def intro!: exI [of _ s] exI [of _ v])
  next
    case False
    let ?o = "off mod BSIZE" and ?i = "off div BSIZE"
    define m where "m = min (length src) (BSIZE - ?o)"
    have m: "0 < m" "m \<le> length src" "?o + m \<le> BSIZE" using False by (auto simp: m_def)
    have "off < N * BSIZE" using 1(6) False by (cases src) simp_all
    then have iN: "?i < N" by (simp add: less_mult_imp_div_less)
    have sp: "span off (length src) = Suc (span (off + m) (length (drop m src)))" using span_step [OF _ m_def] False by simp
    let ?a = "baddr v x ?i"
    have mp: "mapped s v x ?i" "?a \<notin> log_area (lg_start (klog s)) (NBUF - 1)" using 1(5) iN by (simp_all add: laid_out_def)
    obtain s1 where 2: "bmap ip ?i s = Ok ?a s1" "in_trans s1 (j + span off (length src)) v" "rframe s s1"
      using in_trans_read [OF 1(2), of "bmap ip ?i"] bmap_mapped [OF _ _ 1(3,4) mp(1)] by blast
    note f1 = klog_lframe [OF rframe_lframe [OF 2(3)]]
    define d where "d = take ?o (v ?a) @ take m src @ drop (?o + m) (v ?a)"
    have la: "length (v ?a) = BSIZE" "?a < disksize s" using mp(1) by (simp_all add: mapped_def)
    then have ld: "length d = BSIZE" using m by (simp add: d_def)
    obtain b s2 t where 3: "bread 1 ?a s1 = Ok b s2" "buf_data b s2 = Ok (v ?a) s2"
        "seqM (set_data b d) (seqM (log_write b) (brelse b)) s2 = Ok () t"
        "in_trans t (j + span (off + m) (length (drop m src))) (v(?a := d))" "lframe s1 t"
      using in_trans_update [of s1 "j + span (off + m) (length (drop m src))" v ?a d] 2(2) la(2) mp(2) f1 sp by auto
    have k: "lframe s t" by (rule lframe_trans [OF rframe_lframe [OF 2(3)] 3(5)])
    note up = block_upd [OF 1(5) iN ld]
    have "\<exists>u v'. writei_loop ip (off + m) (drop m src) t = Ok () u \<and> in_trans u j v' \<and> lframe t u \<and> laid_out u v' x N \<and>
      (\<forall>k < N * BSIZE. file_byte v' x k =
         (if off + m \<le> k \<and> k < off + m + length (drop m src) then drop m src ! (k - (off + m)) else file_byte (v(?a := d)) x k)) \<and>
      (\<forall>b. b \<notin> baddr (v(?a := d)) x ` {..<N} \<longrightarrow> v' b = (v(?a := d)) b)"
    proof (rule 1(1) [OF False m_def 3(4) _ 1(4)])
      show "icache t ! ip = x" "laid_out t (v(?a := d)) x N" using 1(3) klog_lframe(6) [OF k] laid_out_lframe [OF k] up by metis+
      show "off + m + length (drop m src) \<le> N * BSIZE" using 1(6) m(2) by simp
    qed
    then obtain u v' where u: "writei_loop ip (off + m) (drop m src) t = Ok () u" "in_trans u j v'" "lframe t u" "laid_out u v' x N"
      "\<And>k. k < N * BSIZE \<Longrightarrow> file_byte v' x k =
         (if off + m \<le> k \<and> k < off + m + length (drop m src) then drop m src ! (k - (off + m)) else file_byte (v(?a := d)) x k)"
      "\<And>b. b \<notin> baddr (v(?a := d)) x ` {..<N} \<Longrightarrow> v' b = (v(?a := d)) b" by blast
    have run: "writei_loop ip off src s = Ok () u"
    proof -
      have "seqM (set_data b d) (seqM (log_write b) (seqM (brelse b) (writei_loop ip (off + m) (drop m src)))) s2 = Ok () u"
        using seqM_run [of "seqM (set_data b d) (seqM (log_write b) (brelse b))" s2 "()" t "writei_loop ip (off + m) (drop m src)"]
          3(3) u(1) by (simp add: seqM_seqM)
      then show ?thesis using False 2(1) 3(1,2) 1(3,4)
        by (subst writei_loop.simps) (simp add: m_def [symmetric] gets_def Let_def d_def [symmetric])
    qed
    have im: "baddr (v(?a := d)) x ` {..<N} = baddr v x ` {..<N}" using separate_upd(1) [OF laid_separate [OF 1(5)] iN] by (intro image_cong) simp_all
    have by1: "file_byte v' x k = (if off \<le> k \<and> k < off + length src then src ! (k - off) else file_byte v x k)" if kN: "k < N * BSIZE" for k
      using u(5) [OF kN] chunk_bytes [OF laid_separate [OF 1(5)] iN m(3,2) kN] m(2) unfolding d_def [symmetric] by (auto simp: diff_diff_left)
    have ob: "v' b = v b" if "b \<notin> baddr v x ` {..<N}" for b using u(6) [of b] that im iN by auto
    show ?thesis using run u(2,4) lframe_trans [OF k u(3)] by1 ob by blast
  qed
qed

definition dinode_of :: "inode \<Rightarrow> dinode" where
  "dinode_of x = \<lparr>d_type = i_type x, d_major = i_major x, d_minor = i_minor x, d_nlink = i_nlink x, d_size = i_size x, d_addrs = i_addrs x\<rparr>"

lemma iupdate_logged:
  assumes "in_trans s (Suc k) v" "icache s ! ip = x" "i_dev x = 1" "ib = IBLOCK (i_inum x) (sb s)"
    and "ib < disksize s" "ib \<notin> log_area (lg_start (klog s)) (NBUF - 1)"
  shows "\<exists>t. iupdate ip s = Ok () t \<and> in_trans t k (v(ib := put_dinode (v ib) (unat (i_inum x) mod 8) (dinode_of x))) \<and> lframe s t"
proof -
  let ?d = "put_dinode (v ib) (unat (i_inum x) mod 8) (dinode_of x)"
  obtain b s1 t where t: "bread 1 ib s = Ok b s1" "buf_data b s1 = Ok (v ib) s1"
      "seqM (set_data b ?d) (seqM (log_write b) (brelse b)) s1 = Ok () t" "in_trans t k (v(ib := ?d))" "lframe s t"
    using in_trans_update [OF assms(1,5,6), of ?d] by blast
  then have "iupdate ip s = Ok () t" using assms(2-4) by (simp add: iupdate_def gets_def dinode_of_def)
  then show ?thesis using t(4,5) by blast
qed

lemma baddr_size [simp]: "baddr v (x\<lparr>i_size := n\<rparr>) = baddr v x"
  by (simp add: baddr_def fun_eq_iff)

lemma file_byte_size [simp]: "file_byte v (x\<lparr>i_size := n\<rparr>) = file_byte v x"
  by (simp add: file_byte_def fun_eq_iff)

lemma laid_out_size [simp]: "laid_out s v (x\<lparr>i_size := n\<rparr>) N = laid_out s v x N"
  by (simp add: laid_out_def mapped_def)

lemma in_trans_inode: "in_trans (upd_inode ip f s) k v = in_trans s k v"
  by (simp add: in_trans_def log_open_def cache_inv_def upd_inode_def on_disk_def mypid_def)

lemma laid_out_inode: "laid_out (upd_inode ip f s) v x N = laid_out s v x N"
  by (simp add: laid_out_def mapped_def upd_inode_def)

lemma file_bytes_splice:
  assumes "\<And>k. k < max sz (off + length src) \<Longrightarrow> file_byte v' x k = (if off \<le> k \<and> k < off + length src then src ! (k - off) else file_byte v x k)"
    and "off \<le> sz"
  shows "file_bytes v' x 0 (max sz (off + length src)) = take off (file_bytes v x 0 sz) @ src @ drop (off + length src) (file_bytes v x 0 sz)"
proof (rule nth_equalityI)
  show "length (file_bytes v' x 0 (max sz (off + length src))) =
      length (take off (file_bytes v x 0 sz) @ src @ drop (off + length src) (file_bytes v x 0 sz))"
    using assms(2) by (simp add: file_bytes_def)
  fix k assume "k < length (file_bytes v' x 0 (max sz (off + length src)))"
  then show "file_bytes v' x 0 (max sz (off + length src)) ! k =
      (take off (file_bytes v x 0 sz) @ src @ drop (off + length src) (file_bytes v x 0 sz)) ! k"
    using assms by (auto simp: file_bytes_def nth_append)
qed

lemma lframe_inode:
  assumes "lframe s t"
  shows "lframe (upd_inode ip f s) (upd_inode ip f t)"
proof -
  obtain B l d w pt where "t\<lparr>klog := klog s\<rparr> = set_cache B l d w pt s" "map p_pid pt = map p_pid (ptable s)"
    using assms unfolding lframe_def kframe_def by blast
  moreover have "(upd_inode ip f t)\<lparr>klog := klog s\<rparr> = upd_inode ip f (t\<lparr>klog := klog s\<rparr>)"
    "upd_inode ip f (set_cache B l d w pt s) = set_cache B l d w pt (upd_inode ip f s)"
    by (cases s; cases t; simp add: upd_inode_def set_cache_def)+
  ultimately have "kframe (upd_inode ip f s) ((upd_inode ip f t)\<lparr>klog := klog s\<rparr>)"
    using kframeI [of pt "upd_inode ip f s" B l d w] by (simp add: upd_inode_def)
  then show ?thesis using assms by (simp add: lframe_def upd_inode_def)
qed

text \<open>A block that is not of the file.\<close>

lemma foreign_upd:
  assumes l: "laid_out s v x N" and b: "b \<notin> insert (i_addrs x ! NDIRECT) (baddr v x ` {..<N})" and d: "length d = BSIZE"
  shows "laid_out s (v(b := d)) x N" "k < N * BSIZE \<Longrightarrow> file_byte (v(b := d)) x k = file_byte v x k"
proof -
  show "laid_out s (v(b := d)) x N" using b d by (intro laid_out_upd [OF l]) (auto split: if_splits)
  assume "k < N * BSIZE"
  then have k: "k div BSIZE < N" by (simp add: less_mult_imp_div_less)
  then have "baddr (v(b := d)) x (k div BSIZE) = baddr v x (k div BSIZE)" using b by (intro baddr_upd [of _ v N]) (auto split: if_splits)
  then show "file_byte (v(b := d)) x k = file_byte v x k" using k b by (auto simp: file_byte_def)
qed

text \<open>
  C7: writei stores exactly the bytes it is given.  Inside a transaction with room for the blocks of
  the range and for the inode, and for a file whose blocks up to the end of the range exist, writei
  succeeds and returns the count; afterwards the file holds its old bytes with those of the range
  replaced, and the size has grown when the range ends after it, in the inode and in its block.
  Every other block keeps its contents, and nothing has reached the disk.
\<close>

theorem writei_content:
  assumes tr: "in_trans s (Suc (span (unat off) (unat n))) v"
    and x: "icache s ! ip = x" "ip < length (icache s)" "i_dev x = 1" "i_type x \<noteq> T_DEV" "length (i_addrs x) = NDIRECT + 1"
    and lo: "laid_out s v x N" "unat off \<le> unat (i_size x)" "unat (i_size x) \<le> N * BSIZE" "unat off + unat n \<le> N * BSIZE"
    and src: "length src = unat n"
    and ib: "ib = IBLOCK (i_inum x) (sb s)" "ib < disksize s" "ib \<notin> log_area (lg_start (klog s)) (NBUF - 1)" "length (v ib) = BSIZE"
      "ib \<notin> insert (i_addrs x ! NDIRECT) (baddr v x ` {..<N})"
    and x': "x' = x\<lparr>i_size := max (i_size x) (off + n)\<rparr>"
  shows "\<exists>t v'. writei ip src off n s = Ok (uint n) t \<and> in_trans t 0 v' \<and> lframe (upd_inode ip (\<lambda>_. x') s) t \<and> laid_out t v' x' N \<and>
    file_bytes v' x' 0 (unat (i_size x')) =
      take (unat off) (file_bytes v x 0 (unat (i_size x))) @ src @ drop (unat off + unat n) (file_bytes v x 0 (unat (i_size x))) \<and>
    (i_size x' \<noteq> i_size x \<longrightarrow> get_dinode (v' ib) (unat (i_inum x) mod 8) = dinode_of x') \<and>
    (\<forall>b. b \<notin> insert ib (baddr v x ` {..<N}) \<longrightarrow> v' b = v b)"
proof -
  have "N \<le> MAXFILE"
  proof (rule ccontr)
    assume "\<not> N \<le> MAXFILE"
    then have "mapped s v x MAXFILE" using lo(1) unfolding laid_out_def by simp
    then show False by (simp add: mapped_def)
  qed
  then have b: "unat off + unat n \<le> 71680" using lo(4) by linarith
  then have on: "unat (off + n) = unat off + unat n" "\<not> off + n < off" "\<not> off + n > 71680"
    using unat_add_lem [of off n] by (simp_all add: word_less_nat_alt)
  have g: "\<not> off > i_size x" using lo(2) by (simp add: word_less_nat_alt)
  have "in_trans s (1 + span (unat off) (length src)) v" using tr src by simp
  then obtain s1 v1 where 1: "writei_loop ip (unat off) src s = Ok () s1" "in_trans s1 1 v1" "lframe s s1" "laid_out s1 v1 x N"
    "\<And>k. k < N * BSIZE \<Longrightarrow> file_byte v1 x k =
       (if unat off \<le> k \<and> k < unat off + length src then src ! (k - unat off) else file_byte v x k)"
    "\<And>b. b \<notin> baddr v x ` {..<N} \<Longrightarrow> v1 b = v b"
    using writei_loop_content [of s 1 "unat off" src v ip x N] x lo src by auto
  note f1 = klog_lframe [OF 1(3)]
  have bytes: "file_bytes v1 x 0 (max (unat (i_size x)) (unat off + unat n)) =
      take (unat off) (file_bytes v x 0 (unat (i_size x))) @ src @ drop (unat off + unat n) (file_bytes v x 0 (unat (i_size x)))"
    using file_bytes_splice [of "unat (i_size x)" "unat off" src v1 x v] 1(5) lo(2-4) src by auto
  show ?thesis
  proof (cases "off + n > i_size x")
    case False
    then have "x' = x" using x' by (simp add: max_def)
    moreover have "upd_inode ip (\<lambda>_. x) s = s" using x(1) list_update_id [of "icache s" ip] by (cases s) (simp add: upd_inode_def)
    moreover have "writei ip src off n s = Ok (uint n) s1"
      using x(1,4) g on 1(1) False src by (simp add: writei_def gets_def seqM_def whenM_def ret_def)
    moreover have "max (unat (i_size x)) (unat off + unat n) = unat (i_size x)" using False on(1) by (simp add: word_less_nat_alt)
    ultimately show ?thesis using 1(2-4,6) in_trans_mono [OF 1(2), of 0] bytes by (intro exI [of _ s1] exI [of _ v1]) auto
  next
    case True
    then have x'': "x' = x\<lparr>i_size := off + n\<rparr>" using x' by (simp add: max_def)
    have n0: "n > 0" using True g by (cases "n = 0") (simp_all add: word_greater_zero_iff)
    let ?s2 = "upd_inode ip (\<lambda>x. x\<lparr>i_size := off + n\<rparr>) s1" and ?k = "unat (i_inum x) mod 8"
    have u2: "?s2 = upd_inode ip (\<lambda>_. x') s1" "icache ?s2 ! ip = x'" using x(1,2) f1(6) x'' by (simp_all add: upd_inode_def)
    have i2: "i_dev x' = 1" "i_inum x' = i_inum x" "i_addrs x' = i_addrs x" using x(3) x'' by simp_all
    have s2: "sb ?s2 = sb s" "disksize ?s2 = disksize s" "klog ?s2 = klog s1" using f1 by (simp_all add: upd_inode_def)
    have tr2: "in_trans ?s2 (Suc 0) v1" using 1(2) by (simp add: in_trans_inode)
    obtain t where t: "iupdate ip ?s2 = Ok () t" "in_trans t 0 (v1(ib := put_dinode (v1 ib) ?k (dinode_of x')))" "lframe ?s2 t"
      using iupdate_logged [OF tr2 u2(2) i2(1), of ib] ib(1-3) i2(2) s2 f1(3) by auto
    let ?v = "v1(ib := put_dinode (v1 ib) ?k (dinode_of x'))"
    have "writei ip src off n s = Ok (uint n) t"
      using x(1,4) g on 1(1) True n0 t(1) src by (simp add: writei_def gets_def seqM_def whenM_def modify_def ret_def)
    moreover have "lframe (upd_inode ip (\<lambda>_. x') s) t"
      using lframe_trans [OF lframe_inode [OF 1(3)] t(3) [unfolded u2(1)]] .
    moreover have v1: "v1 ib = v ib" using 1(6) ib(5) by blast
    have ind: "NDIRECT < N \<Longrightarrow> i_addrs x ! NDIRECT \<notin> baddr v x ` {..<N}" using lo(1) unfolding laid_out_def by fastforce
    have ba: "baddr v1 x i = baddr v x i" if "i < N" for i using baddr_upd [of v1 v N x i] 1(6) ind that by blast
    then have "baddr v1 x ` {..<N} = baddr v x ` {..<N}" by (intro image_cong) simp_all
    then have "ib \<notin> insert (i_addrs x ! NDIRECT) (baddr v1 x ` {..<N})" "length (put_dinode (v1 ib) ?k (dinode_of x')) = BSIZE" using ib(4,5) v1 by simp_all
    note up = foreign_upd [OF 1(4) this]
    have "laid_out t ?v x' N" unfolding laid_out_lframe [OF t(3)] laid_out_inode using up(1) x'' by simp
    moreover have "file_bytes ?v x' 0 (unat (i_size x')) = file_bytes v1 x 0 (max (unat (i_size x)) (unat off + unat n))"
      using up(2) lo(4) True on(1) x'' by (simp add: file_bytes_def word_less_nat_alt)
    moreover have "get_dinode (?v ib) ?k = dinode_of x'"
      using ib(4) v1 x(5) i2(3) by (simp add: dinode_roundtrip dinode_of_def)
    moreover have "?v b = v b" if "b \<notin> insert ib (baddr v x ` {..<N})" for b using 1(6) [of b] that by auto
    ultimately show ?thesis using bytes t(2) by (intro exI [of _ t] exI [of _ ?v]) simp
  qed
qed

section \<open>An example\<close>

text \<open>A file of 512 bytes with two blocks, in an open transaction that has changed the first of them.\<close>

definition ex_ino :: inode where
  "ex_ino = zero_inode\<lparr>i_dev := 1, i_inum := 1, i_ref := 1, i_valid := True, i_type := 2, i_nlink := 1, i_size := 512,
     i_addrs := 500 # 501 # replicate 11 0\<rparr>"

definition ex_file :: kernel where
  "ex_file = ex_trans\<lparr>klog := ex_tlog\<lparr>lg_outstanding := 1\<rparr>, icache := (replicate NINODE zero_inode)[0 := ex_ino],
     sb := \<lparr>sb_size = 1000, sb_nblocks = 941, sb_ninodes = 200, sb_nlog = 30, sb_logstart = 2, sb_inodestart = 32, sb_bmapstart = 58\<rparr>\<rparr>"

definition ex_view :: "uint \<Rightarrow> byte list" where
  "ex_view = ex_disk(500 := replicate BSIZE 7)"

lemma ex_ino_fields [simp]: "i_dev ex_ino = 1" "i_inum ex_ino = 1" "i_type ex_ino = 2" "i_size ex_ino = 512"
  "i_addrs ex_ino = 500 # 501 # replicate 11 0"
  by (simp_all add: ex_ino_def)

lemma ex_file_fields [simp]: "icache ex_file ! 0 = ex_ino" "length (icache ex_file) = NINODE" "disksize ex_file = 1000"
  "klog ex_file = ex_tlog\<lparr>lg_outstanding := 1\<rparr>" "sb_inodestart (sb ex_file) = 32" "disk ex_file = ex_disk"
  by (simp_all add: ex_file_def)

lemma ex_view_len: "length (ex_view b) = BSIZE"
  by (simp add: ex_view_def ex_disk_def)

lemma cache_inv_fields: "cache_inv (s\<lparr>klog := l, icache := is, sb := b\<rparr>) L U v = cache_inv s L U v"
  by (simp add: cache_inv_def on_disk_def mypid_def)

lemma ex_file_cache: "cache_inv ex_file {} {500} ex_view"
  using ex_trans_cache unfolding ex_view_def ex_file_def cache_inv_fields .

lemma ex_log_area: "b \<in> log_area 2 (NBUF - 1) \<Longrightarrow> unat b \<le> 31"
proof -
  have "unat (log_blk 2 i) \<le> 31" if "i < 29" for i
  proof -
    have e: "2 + int i + 1 = int (i + 3)" by simp
    have "unat (of_nat (i + 3) :: uint) = i + 3" by (rule of_nat_inverse) (use that in simp_all)
    then show ?thesis using that unfolding log_blk_def e of_int_of_nat_eq by simp
  qed
  moreover assume "b \<in> log_area 2 (NBUF - 1)"
  ultimately show ?thesis by (auto simp: log_area_def log_hdr_def)
qed

lemma ex_not_log: "500 \<notin> log_area 2 (NBUF - 1)" "501 \<notin> log_area 2 (NBUF - 1)" "32 \<notin> log_area 2 (NBUF - 1)"
  using ex_log_area [of 500] ex_log_area [of 501] ex_log_area [of 32] by auto

lemma ex_file_trans: "in_trans ex_file 3 ex_view"
proof -
  have "log_open ex_file (klog ex_file) 1 ex_view"
    using ex_file_cache by (auto simp: log_open_def ex_disk_def log_area_def log_hdr_def log_blk_def)
  then show ?thesis using ex_not_log by (auto simp: in_trans_def ex_tlog_def intro!: exI [of _ 1])
qed

lemma ex_baddr: "baddr ex_view ex_ino 0 = 500" "baddr ex_view ex_ino (Suc 0) = 501"
  by (simp_all add: baddr_def)

lemma ex_file_laid: "laid_out ex_file ex_view ex_ino 2"
  using ex_not_log ex_view_len by (auto simp: laid_out_def mapped_def inj_on_def less_2_cases_iff ex_baddr)

lemma ex_bytes: "off + n \<le> 512 \<Longrightarrow> file_bytes ex_view ex_ino off n = replicate n 7"
proof (rule nth_equalityI)
  fix k assume "off + n \<le> 512" "k < length (file_bytes ex_view ex_ino off n)"
  then have "k < n" "(off + k) div BSIZE = 0" "(off + k) mod BSIZE < BSIZE" by (simp_all add: file_bytes_def)
  then show "file_bytes ex_view ex_ino off n ! k = replicate n 7 ! k"
    unfolding file_bytes_def file_byte_def by (simp add: ex_baddr) (simp add: ex_view_def)
qed (simp add: file_bytes_def)

theorem readi_content_witness: "\<exists>t. readi 0 510 4 ex_file = Ok (2, [7, 7]) t \<and> cache_inv t {} {500} ex_view \<and> dwrites t = dwrites ex_file"
proof -
  have "mapped ex_file ex_view ex_ino (k div BSIZE)" if "k < unat (i_size ex_ino)" for k
    using ex_file_laid that unfolding laid_out_def by simp
  note r = readi_content [OF ex_file_cache _ ex_file_fields(1) _ _ this, of 510 4]
  have e: "replicate 2 (7 :: byte) = [7, 7]" by (simp add: numeral_2_eq_2)
  show ?thesis using r by (auto simp: rframe_def ex_bytes e)
qed

theorem writei_content_witness:
  "\<exists>t v'. writei 0 [1, 2, 3] 511 3 ex_file = Ok 3 t \<and> in_trans t 0 v' \<and> dwrites t = dwrites ex_file \<and>
     i_size (icache t ! 0) = 514 \<and> d_size (get_dinode (v' 32) 1) = 514 \<and>
     file_bytes v' (icache t ! 0) 0 514 = replicate 511 7 @ [1, 2, 3]"
proof -
  let ?x = "ex_ino\<lparr>i_size := max (i_size ex_ino) (511 + 3)\<rparr>"
  have three: "Suc (Suc (Suc 0)) = 3" by simp
  have sp: "in_trans ex_file (Suc (span (unat (511 :: uint)) (unat (3 :: uint)))) ex_view" using ex_file_trans by (simp add: span_def three)
  have ib: "32 \<notin> insert (i_addrs ex_ino ! NDIRECT) (baddr ex_view ex_ino ` {..<2})" by (auto simp: ex_baddr less_2_cases_iff)
  have "\<exists>t v'. writei 0 [1, 2, 3] 511 3 ex_file = Ok (uint (3 :: uint)) t \<and> in_trans t 0 v' \<and> lframe (upd_inode 0 (\<lambda>_. ?x) ex_file) t \<and> laid_out t v' ?x 2 \<and>
    file_bytes v' ?x 0 (unat (i_size ?x)) = take (unat (511 :: uint)) (file_bytes ex_view ex_ino 0 (unat (i_size ex_ino))) @ [1, 2, 3] @
      drop (unat (511 :: uint) + unat (3 :: uint)) (file_bytes ex_view ex_ino 0 (unat (i_size ex_ino))) \<and>
    (i_size ?x \<noteq> i_size ex_ino \<longrightarrow> get_dinode (v' 32) (unat (i_inum ex_ino) mod 8) = dinode_of ?x) \<and>
    (\<forall>b. b \<notin> insert 32 (baddr ex_view ex_ino ` {..<2}) \<longrightarrow> v' b = ex_view b)"
    by (rule writei_content [OF sp ex_file_fields(1) _ _ _ _ ex_file_laid _ _ _ _ _ _ _ ex_view_len ib refl])
      (use ex_not_log in \<open>simp_all add: IBLOCK_def\<close>)
  then obtain t v' where t: "writei 0 [1, 2, 3] 511 3 ex_file = Ok 3 t" "in_trans t 0 v'" "lframe (upd_inode 0 (\<lambda>_. ?x) ex_file) t"
    "file_bytes v' ?x 0 514 = take 511 (file_bytes ex_view ex_ino 0 512) @ [1, 2, 3]" "get_dinode (v' 32) 1 = dinode_of ?x"
    by (auto simp: max_def ex_bytes)
  have "icache t ! 0 = ?x" "dwrites t = dwrites ex_file"
    using klog_lframe(6) [OF t(3)] t(3) by (simp_all add: lframe_def upd_inode_def)
  then show ?thesis using t by (intro exI [of _ t] exI [of _ v']) (simp add: ex_bytes dinode_of_def max_def)
qed

end
