(* ===== verification/Mkfs.thy ===== *)
theory Mkfs
  imports Content
begin

text \<open>
  mkfs.c, the program of the host that makes the disk image the kernel boots from.  The image is
  a regular file of sectors: a write extends it with zeros, a read behind its end is short and
  ends the program.  The host is little-endian.  Files are named by the command line; \<open>opn\<close> stands for the
  host's open and read: None, or what the successive calls of read return.
\<close>

section \<open>The image and the program's state\<close>

datatype mkerr = MkExit string | MkAssert string

record mkst =
  img :: "uint \<Rightarrow> byte list"
  nsect :: nat
  msb :: superblock
  freeinode :: uint
  freeblock :: uint

type_synonym 'a mkM = "mkst \<Rightarrow> mkerr + 'a \<times> mkst"

definition mret :: "'a \<Rightarrow> 'a mkM" where
  "mret x st = Inr (x, st)"

definition mfail :: "mkerr \<Rightarrow> 'a mkM" where
  "mfail e st = Inl e"

definition mbind :: "'a mkM \<Rightarrow> ('a \<Rightarrow> 'b mkM) \<Rightarrow> 'b mkM" where
  "mbind m k st = (case m st of Inl e \<Rightarrow> Inl e | Inr (x, st') \<Rightarrow> k x st')"

definition mseq :: "'a mkM \<Rightarrow> 'b mkM \<Rightarrow> 'b mkM" where
  "mseq m k = mbind m (\<lambda>_. k)"

text \<open>Intel byte order, as the host reads it back.\<close>

definition xshort :: "ushort \<Rightarrow> ushort" where
  "xshort x = get16 [ucast x, ucast (drop_bit 8 x)] 0"

definition xint :: "uint \<Rightarrow> uint" where
  "xint x = get32 [ucast x, ucast (drop_bit 8 x), ucast (drop_bit 16 x), ucast (drop_bit 24 x)] 0"

text \<open>The offset of a sector in the file is an unsigned int of 32 bits.\<close>

definition sector :: "uint \<Rightarrow> uint" where
  "sector sec = sec * 512 div 512"

definition wsect :: "uint \<Rightarrow> byte list \<Rightarrow> unit mkM" where
  "wsect sec d st = Inr ((), st\<lparr>img := (img st)(sector sec := d), nsect := max (nsect st) (Suc (unat (sector sec)))\<rparr>)"

definition rsect :: "uint \<Rightarrow> byte list mkM" where
  "rsect sec st = (if unat (sector sec) < nsect st then Inr (img st (sector sec), st) else Inl (MkExit ''read''))"

definition winode :: "uint \<Rightarrow> dinode \<Rightarrow> unit mkM" where
  "winode inum din st =
     (let bn = IBLOCK inum (msb st) in
      mbind (rsect bn) (\<lambda>d. wsect bn (put_dinode d (unat inum mod 8) din)) st)"

definition rinode :: "uint \<Rightarrow> dinode mkM" where
  "rinode inum st =
     (let bn = IBLOCK inum (msb st) in
      mbind (rsect bn) (\<lambda>d. mret (get_dinode d (unat inum mod 8))) st)"

text \<open>\<^verbatim>\<open>freeinode++\<close> and \<^verbatim>\<open>freeblock++\<close>.\<close>

definition next_inode :: "uint mkM" where
  "next_inode st = Inr (freeinode st, st\<lparr>freeinode := freeinode st + 1\<rparr>)"

definition next_block :: "uint mkM" where
  "next_block st = Inr (freeblock st, st\<lparr>freeblock := freeblock st + 1\<rparr>)"

definition mk_ialloc :: "ushort \<Rightarrow> uint mkM" where
  "mk_ialloc ty =
     mbind next_inode (\<lambda>inum.
     mseq (winode inum \<lparr>d_type = xshort ty, d_major = 0, d_minor = 0, d_nlink = xshort 1, d_size = xint 0,
        d_addrs = replicate (NDIRECT + 1) 0\<rparr>)
     (mret inum))"

definition mk_balloc :: "int \<Rightarrow> unit mkM" where
  "mk_balloc used st =
     (if \<not> used < 4096 then Inl (MkAssert ''used < BSIZE*8'')
      else wsect (sb_bmapstart (msb st)) (foldl bmap_set (replicate BSIZE 0) [0..<nat used]) st)"

section \<open>iappend\<close>

text \<open>The address of block \<open>fbn\<close> of a file, allocated when there is none.\<close>

definition iappend_addr :: "dinode \<Rightarrow> nat \<Rightarrow> (uint \<times> dinode) mkM" where
  "iappend_addr din fbn =
     (if fbn < NDIRECT then
        mbind (if xint (d_addrs din ! fbn) = 0
               then mbind next_block (\<lambda>b. mret (din\<lparr>d_addrs := (d_addrs din)[fbn := xint b]\<rparr>)) else mret din) (\<lambda>din.
        mret (xint (d_addrs din ! fbn), din))
      else
        mbind (if xint (d_addrs din ! NDIRECT) = 0
               then mbind next_block (\<lambda>b. mret (din\<lparr>d_addrs := (d_addrs din)[NDIRECT := xint b]\<rparr>)) else mret din) (\<lambda>din.
        mbind (rsect (xint (d_addrs din ! NDIRECT))) (\<lambda>indirect.
        mbind (if get32 indirect (4 * (fbn - NDIRECT)) = 0
               then mbind next_block (\<lambda>b.
                    let indirect = put32 indirect (4 * (fbn - NDIRECT)) (xint b) in
                    mseq (wsect (xint (d_addrs din ! NDIRECT)) indirect) (mret indirect))
               else mret indirect) (\<lambda>indirect.
        mret (xint (get32 indirect (4 * (fbn - NDIRECT))), din)))))"

function iappend_loop :: "dinode \<Rightarrow> uint \<Rightarrow> byte list \<Rightarrow> (uint \<times> dinode) mkM" where
  "iappend_loop din off p =
     (if p = [] then mret (off, din) else
      let fbn = unat off div BSIZE; n1 = min (length p) (BSIZE - unat off mod BSIZE) in
      if \<not> fbn < MAXFILE then mfail (MkAssert ''fbn < MAXFILE'') else
      mbind (iappend_addr din fbn) (\<lambda>(x, din).
      mbind (rsect x) (\<lambda>d.
      mseq (wsect x (take (unat off mod BSIZE) d @ take n1 p @ drop (unat off mod BSIZE + n1) d))
      (iappend_loop din (off + of_nat n1) (drop n1 p)))))"
  by pat_completeness auto
termination
  by (relation "measure (\<lambda>(din, off, p). length p)") auto

definition iappend :: "uint \<Rightarrow> byte list \<Rightarrow> unit mkM" where
  "iappend inum p =
     mbind (rinode inum) (\<lambda>din.
     mbind (iappend_loop din (xint (d_size din)) p) (\<lambda>(off, din).
     winode inum (din\<lparr>d_size := xint off\<rparr>)))"

section \<open>main\<close>

definition zero_sect :: "byte list" where
  "zero_sect = replicate BSIZE 0"

fun zero_image :: "nat \<Rightarrow> unit mkM" where
  "zero_image 0 = mret ()"
| "zero_image (Suc n) = mseq (zero_image n) (wsect (of_nat n) zero_sect)"

text \<open>The seven words of the superblock at the start of a sector.\<close>

definition put_sb :: "superblock \<Rightarrow> byte list" where
  "put_sb b = put_addrs zero_sect 0 [sb_size b, sb_nblocks b, sb_ninodes b, sb_nlog b, sb_logstart b, sb_inodestart b, sb_bmapstart b]"

definition mk_sb :: superblock where
  "mk_sb = (let nbitmap = 1000 div 4096 + 1; ninodeblocks = 200 div 8 + 1; nlog = 30; nmeta = 2 + nlog + ninodeblocks + nbitmap in
     \<lparr>sb_size = xint 1000, sb_nblocks = xint (1000 - nmeta), sb_ninodes = xint 200, sb_nlog = xint nlog, sb_logstart = xint 2,
      sb_inodestart = xint (2 + nlog), sb_bmapstart = xint (2 + nlog + ninodeblocks)\<rparr>)"

definition mkdirent :: "uint \<Rightarrow> byte list \<Rightarrow> byte list" where
  "mkdirent inum name = put16 (replicate 2 0) 0 (xshort (ucast inum)) @ strncpy (replicate DIRSIZ 0) (cstr_of name) DIRSIZ"

fun append_reads :: "uint \<Rightarrow> byte list list \<Rightarrow> unit mkM" where
  "append_reads inum [] = mret ()"
| "append_reads inum (d # ds) = (if d = [] then mret () else mseq (iappend inum d) (append_reads inum ds))"

definition add_file :: "(byte list \<Rightarrow> byte list list option) \<Rightarrow> uint \<Rightarrow> byte list \<Rightarrow> unit mkM" where
  "add_file opn rootino arg =
     (if 47 \<in> set arg then mfail (MkAssert ''index(argv[i]) == 0'') else
      case opn arg of None \<Rightarrow> mfail (MkExit ''open'')
      | Some ds \<Rightarrow>
         let name = (if arg \<noteq> [] \<and> hd arg = 95 then tl arg else arg) in
         mbind (mk_ialloc T_FILE) (\<lambda>inum.
         mseq (iappend rootino (mkdirent inum name))
         (append_reads inum ds)))"

fun add_files :: "(byte list \<Rightarrow> byte list list option) \<Rightarrow> uint \<Rightarrow> byte list list \<Rightarrow> unit mkM" where
  "add_files opn rootino [] = mret ()"
| "add_files opn rootino (a # as) = mseq (add_file opn rootino a) (add_files opn rootino as)"

text \<open>The size of the root directory is rounded up to whole blocks, one more when it already is.\<close>

definition fix_root :: "uint \<Rightarrow> unit mkM" where
  "fix_root rootino =
     mbind (rinode rootino) (\<lambda>din.
     let off = xint (d_size din); off = (off div 512 + 1) * 512 in
     winode rootino (din\<lparr>d_size := xint off\<rparr>))"

definition mk_start :: mkst where
  "mk_start = \<lparr>img = (\<lambda>_. zero_sect), nsect = 0, msb = mk_sb, freeinode = 1, freeblock = 59\<rparr>"

definition mkfs_main :: "(byte list \<Rightarrow> bool) \<Rightarrow> (byte list \<Rightarrow> byte list list option) \<Rightarrow> byte list list \<Rightarrow> mkerr + unit \<times> mkst" where
  "mkfs_main creat opn argv =
     (if length argv < 2 then Inl (MkExit ''Usage: mkfs fs.img files...'')
      else if \<not> creat (argv ! 1) then Inl (MkExit ''creat'')
      else
        mseq (zero_image 1000)
       (mseq (wsect 1 (put_sb mk_sb))
       (mbind (mk_ialloc T_DIR) (\<lambda>rootino.
        if rootino \<noteq> ROOTINO then mfail (MkAssert ''rootino == ROOTINO'') else
        mseq (iappend rootino (mkdirent rootino [46]))
       (mseq (iappend rootino (mkdirent rootino [46, 46]))
       (mseq (add_files opn rootino (drop 2 argv))
       (mseq (fix_root rootino)
       (\<lambda>st. mk_balloc (sint (freeblock st)) st))))))) mk_start)"

section \<open>Sectors and byte order\<close>

lemma xshort_id [simp]: "xshort x = x"
  unfolding xshort_def get16_def by (intro bit_word_eqI) (auto simp: bit_simps)

lemma xint_id [simp]: "xint x = x"
  using le_bytes_join [of x] by (simp add: xint_def get32_def)

lemma sector_id: "sec < 1000 \<Longrightarrow> sector sec = sec"
proof -
  assume "sec < 1000"
  then have "unat (sec * 512) = unat sec * 512" using unat_mult_lem [of sec 512] by (simp add: word_less_nat_alt)
  then show ?thesis unfolding sector_def by (simp add: word_eq_iff_unsigned [where ?'a = nat] unat_div)
qed

lemma mbind_Inr [simp]: "m st = Inr (x, st') \<Longrightarrow> mbind m k st = k x st'"
  by (simp add: mbind_def)

lemma mseq_Inr [simp]: "m st = Inr (x, st') \<Longrightarrow> mseq m k st = k st'"
  by (simp add: mseq_def)

lemma mbind_mret [simp]: "mbind (mret x) k = k x"
  by (simp add: mbind_def mret_def fun_eq_iff)

text \<open>The sectors of the image proper.\<close>

definition sect_ok :: "mkst \<Rightarrow> bool" where
  "sect_ok st \<longleftrightarrow> nsect st = 1000 \<and> (\<forall>b. length (img st b) = BSIZE)"

lemma rsect_ok: "sect_ok st \<Longrightarrow> sec < 1000 \<Longrightarrow> rsect sec st = Inr (img st sec, st)"
  by (simp add: rsect_def sector_id sect_ok_def word_less_nat_alt)

lemma wsect_ok: "sect_ok st \<Longrightarrow> sec < 1000 \<Longrightarrow> wsect sec d st = Inr ((), st\<lparr>img := (img st)(sec := d)\<rparr>)"
  by (simp add: wsect_def sector_id sect_ok_def word_less_nat_alt max_def)

lemma sect_ok_upd [simp]: "sect_ok st \<Longrightarrow> length d = BSIZE \<Longrightarrow> sect_ok (st\<lparr>img := (img st)(sec := d)\<rparr>)"
  "sect_ok (st\<lparr>freeblock := fb\<rparr>) = sect_ok st" "sect_ok (st\<lparr>freeinode := fi\<rparr>) = sect_ok st"
  by (simp_all add: sect_ok_def)

section \<open>The blocks of one file\<close>

text \<open>
  A file of \<open>n\<close> blocks has its blocks and, behind the direct ones, the block of the indirect addresses, which is
  counted as block MAXFILE.
\<close>

definition dino_inode :: "dinode \<Rightarrow> inode" where
  "dino_inode din = zero_inode\<lparr>i_addrs := d_addrs din, i_size := d_size din\<rparr>"

lemma dino_inode_fields [simp]: "i_addrs (dino_inode din) = d_addrs din" "i_size (dino_inode din) = d_size din"
  by (simp_all add: dino_inode_def)

definition slots :: "nat \<Rightarrow> nat set" where
  "slots n = {..<n} \<union> (if NDIRECT < n then {MAXFILE} else {})"

definition nslots :: "nat \<Rightarrow> nat" where
  "nslots n = n + (if NDIRECT < n then 1 else 0)"

definition slot_addr :: "(uint \<Rightarrow> byte list) \<Rightarrow> dinode \<Rightarrow> nat \<Rightarrow> uint" where
  "slot_addr v din j = (if j = MAXFILE then d_addrs din ! NDIRECT else baddr v (dino_inode din) j)"

text \<open>
  The blocks of a file are different from each other, they are data blocks below the first free one and not
  in \<open>F\<close>; the addresses that are not used are zero.
\<close>

definition file_wf :: "(uint \<Rightarrow> byte list) \<Rightarrow> uint \<Rightarrow> uint set \<Rightarrow> dinode \<Rightarrow> nat \<Rightarrow> bool" where
  "file_wf v fb F din n \<longleftrightarrow> length (d_addrs din) = NDIRECT + 1 \<and> n \<le> MAXFILE \<and>
     inj_on (slot_addr v din) (slots n) \<and> slot_addr v din ` slots n \<subseteq> {59..<fb} - F \<and>
     (\<forall>i. n \<le> i \<longrightarrow> i < NDIRECT \<longrightarrow> d_addrs din ! i = 0) \<and> (n \<le> NDIRECT \<longrightarrow> d_addrs din ! NDIRECT = 0) \<and>
     (NDIRECT < n \<longrightarrow> (\<forall>i. n \<le> i \<longrightarrow> i < MAXFILE \<longrightarrow> get32 (v (d_addrs din ! NDIRECT)) (4 * (i - NDIRECT)) = 0))"

definition fresh_zero :: "mkst \<Rightarrow> bool" where
  "fresh_zero st \<longleftrightarrow> (\<forall>b. freeblock st \<le> b \<longrightarrow> b < 1000 \<longrightarrow> img st b = zero_sect)"

lemma slots_mono: "n \<le> m \<Longrightarrow> slots n \<subseteq> slots m"
  by (auto simp: slots_def)

lemma file_wf_grow:
  assumes wf: "file_wf v fb F din n" and nm: "n \<le> m" "m \<le> MAXFILE" and F: "F \<subseteq> {..<fb}" and fb: "59 \<le> fb" "fb \<le> fb'"
    and len: "length (d_addrs din') = NDIRECT + 1"
    and old: "\<And>j. j \<in> slots n \<Longrightarrow> slot_addr v' din' j = slot_addr v din j"
    and new: "slot_addr v' din' ` (slots m - slots n) \<subseteq> {fb..<fb'}" "inj_on (slot_addr v' din') (slots m - slots n)"
    and z: "\<And>i. m \<le> i \<Longrightarrow> i < NDIRECT \<Longrightarrow> d_addrs din' ! i = 0" "m \<le> NDIRECT \<Longrightarrow> d_addrs din' ! NDIRECT = 0"
      "\<And>i. NDIRECT < m \<Longrightarrow> m \<le> i \<Longrightarrow> i < MAXFILE \<Longrightarrow> get32 (v' (d_addrs din' ! NDIRECT)) (4 * (i - NDIRECT)) = 0"
  shows "file_wf v' fb' F din' m"
proof -
  have s: "slots m = slots n \<union> (slots m - slots n)" using slots_mono [OF nm(1)] by blast
  have i: "slot_addr v' din' ` slots n = slot_addr v din ` slots n" using old by (intro image_cong) simp_all
  have ol: "slot_addr v din ` slots n \<subseteq> {59..<fb} - F" "inj_on (slot_addr v din) (slots n)" using wf by (simp_all add: file_wf_def)
  have d: "slot_addr v' din' ` slots n \<inter> slot_addr v' din' ` (slots m - slots n) = {}"
  proof -
    have "({59..<fb} - F) \<inter> {fb..<fb'} = {}" by auto
    then show ?thesis using i ol(1) new(1) by blast
  qed
  have "inj_on (slot_addr v' din') (slots n)" using ol(2) old inj_on_cong [of "slots n" "slot_addr v' din'" "slot_addr v din"] by simp
  then have "inj_on (slot_addr v' din') (slots m)" using new(2) d image_mono [of "slots n - (slots m - slots n)" "slots n" "slot_addr v' din'"]
      image_mono [of "slots m - slots n - slots n" "slots m - slots n" "slot_addr v' din'"]
    by (subst s, unfold inj_on_Un) blast
  moreover have "slot_addr v' din' ` slots m \<subseteq> {59..<fb'} - F"
  proof -
    have n: "{fb..<fb'} \<subseteq> {59..<fb'} - F"
    proof
      fix b assume b: "b \<in> {fb..<fb'}"
      then have "b \<notin> {..<fb}" by (simp add: not_less)
      then show "b \<in> {59..<fb'} - F" using b F fb(1) by auto
    qed
    have o: "{59..<fb} - F \<subseteq> {59..<fb'} - F" using fb(2) by auto
    have "slot_addr v' din' ` slots n \<union> slot_addr v' din' ` (slots m - slots n) \<subseteq> {59..<fb'} - F"
      unfolding i by (rule Un_least [OF order_trans [OF ol(1) o] order_trans [OF new(1) n]])
    then show ?thesis by (subst s) (simp only: image_Un)
  qed
  ultimately show ?thesis using len nm(2) z by (simp add: file_wf_def)
qed

text \<open>What iappend does to the image when block \<open>i\<close> of a file of \<open>n\<close> blocks is given an address.\<close>

definition addr_post :: "uint set \<Rightarrow> mkst \<Rightarrow> dinode \<Rightarrow> nat \<Rightarrow> nat \<Rightarrow> mkst \<Rightarrow> dinode \<Rightarrow> bool" where
  "addr_post F st din n m st' din' \<longleftrightarrow> sect_ok st' \<and> fresh_zero st' \<and> file_wf (img st') (freeblock st') F din' m \<and>
     unat (freeblock st') + nslots n = unat (freeblock st) + nslots m \<and> (\<forall>b \<in> F. img st' b = img st b) \<and>
     (\<forall>j < n. slot_addr (img st') din' j = slot_addr (img st) din j \<and> img st' (slot_addr (img st) din j) = img st (slot_addr (img st) din j)) \<and>
     msb st' = msb st \<and> freeinode st' = freeinode st \<and> (\<exists>as. din' = din\<lparr>d_addrs := as\<rparr>)"

lemma dinode_same: "din = din\<lparr>d_addrs := d_addrs din\<rparr>"
  by simp

lemma addr_post_same:
  assumes "sect_ok st" "fresh_zero st" "file_wf (img st) (freeblock st) F din n"
  shows "addr_post F st din n n st din"
  using assms dinode_same [of din] unfolding addr_post_def by blast

lemma slot_data: "j < MAXFILE \<Longrightarrow> slot_addr v din j = baddr v (dino_inode din) j"
  by (simp add: slot_addr_def)

lemma file_wf_slot:
  assumes "file_wf v fb F din n" "j \<in> slots n"
  shows "slot_addr v din j \<noteq> 0" "slot_addr v din j < fb" "slot_addr v din j \<notin> F" "59 \<le> slot_addr v din j"
proof -
  have "slot_addr v din j \<in> {59..<fb} - F" using assms by (auto simp: file_wf_def)
  then show "slot_addr v din j \<noteq> 0" "slot_addr v din j < fb" "slot_addr v din j \<notin> F" "59 \<le> slot_addr v din j" by auto
qed

lemma addr_known:
  assumes st: "sect_ok st" "freeblock st \<le> 1000" and wf: "file_wf (img st) (freeblock st) F din n" and i: "i < n"
  shows "iappend_addr din i st = Inr ((slot_addr (img st) din i, din), st)"
proof -
  have iM: "i < MAXFILE" "i \<in> slots n" using wf i by (auto simp: file_wf_def slots_def)
  note a = file_wf_slot [OF wf iM(2), unfolded slot_data [OF iM(1)]]
  show ?thesis
  proof (cases "i < NDIRECT")
    case True
    then show ?thesis using a(1) by (simp add: iappend_addr_def mret_def slot_data [OF iM(1)] baddr_def)
  next
    case False
    then have "MAXFILE \<in> slots n" using i by (simp add: slots_def)
    then have "d_addrs din ! NDIRECT \<noteq> 0" "d_addrs din ! NDIRECT < 1000"
      using file_wf_slot(1,2) [OF wf, of MAXFILE] st(2) by (simp_all add: slot_addr_def)
    then show ?thesis using a(1) False by (simp add: iappend_addr_def mret_def slot_data [OF iM(1)] baddr_def rsect_ok [OF st(1)])
  qed
qed

lemma addr_direct:
  assumes st: "sect_ok st" "fresh_zero st" "59 \<le> freeblock st" "freeblock st < 1000" "F \<subseteq> {..<freeblock st}"
    and wf: "file_wf (img st) (freeblock st) F din n" and n: "n < NDIRECT"
  shows "\<exists>st' din'. iappend_addr din n st = Inr ((slot_addr (img st') din' n, din'), st') \<and> addr_post F st din n (Suc n) st' din'"
proof -
  let ?fb = "freeblock st" and ?din = "din\<lparr>d_addrs := (d_addrs din)[n := freeblock st]\<rparr>"
  let ?st = "st\<lparr>freeblock := freeblock st + 1\<rparr>"
  have z: "d_addrs din ! n = 0" "length (d_addrs din) = NDIRECT + 1" using wf n by (simp_all add: file_wf_def)
  have run: "iappend_addr din n st = Inr ((slot_addr (img ?st) ?din n, ?din), ?st)"
    using n z by (simp add: iappend_addr_def next_block_def mret_def slot_addr_def baddr_def)
  have fb: "unat (?fb + 1) = unat ?fb + 1" using st(4) unat_add_lem [of ?fb 1] by (simp add: word_less_nat_alt)
  have le: "?fb \<le> ?fb + 1" "?fb < ?fb + 1" using fb by (simp_all add: word_le_nat_alt word_less_nat_alt)
  have s: "slots (Suc n) - slots n = {n}" using n by (auto simp: slots_def)
  have old: "slot_addr (img ?st) ?din j = slot_addr (img st) din j" if "j \<in> slots n" for j
    using that n by (auto simp: slots_def slot_addr_def baddr_def)
  have "file_wf (img ?st) (?fb + 1) F ?din (Suc n)"
  proof (rule file_wf_grow [OF wf _ _ st(5,3) le(1) _ old])
    show "slot_addr (img ?st) ?din ` (slots (Suc n) - slots n) \<subseteq> {?fb..<?fb + 1}" unfolding s using n z le(2) by (simp add: slot_addr_def baddr_def)
    show "inj_on (slot_addr (img ?st) ?din) (slots (Suc n) - slots n)" unfolding s by simp
    show "\<And>i. Suc n \<le> i \<Longrightarrow> i < NDIRECT \<Longrightarrow> d_addrs ?din ! i = 0" "d_addrs ?din ! NDIRECT = 0" using wf n by (simp_all add: file_wf_def)
  qed (use n z in simp_all)
  moreover have "fresh_zero ?st" using st(2) le by (auto simp: fresh_zero_def)
  moreover have "slot_addr (img ?st) ?din j = slot_addr (img st) din j" if "j < n" for j using old that by (simp add: slots_def)
  ultimately have "addr_post F st din n (Suc n) ?st ?din" using st(1) fb n by (auto simp: addr_post_def nslots_def)
  then show ?thesis using run by blast
qed

lemma addr_indirect:
  assumes st: "sect_ok st" "fresh_zero st" "59 \<le> freeblock st" "freeblock st < 1000" "F \<subseteq> {..<freeblock st}"
    and wf: "file_wf (img st) (freeblock st) F din n" and n: "NDIRECT < n" "n < MAXFILE"
  shows "\<exists>st' din'. iappend_addr din n st = Inr ((slot_addr (img st') din' n, din'), st') \<and> addr_post F st din n (Suc n) st' din'"
proof -
  let ?fb = "freeblock st" and ?a = "d_addrs din ! NDIRECT"
  let ?d = "put32 (img st ?a) (4 * (n - NDIRECT)) ?fb"
  let ?st = "st\<lparr>img := (img st)(?a := ?d), freeblock := ?fb + 1\<rparr>"
  have M: "MAXFILE \<in> slots n" "slot_addr v din MAXFILE = ?a" for v using n by (simp_all add: slots_def slot_addr_def)
  have a: "?a \<noteq> 0" "?a < ?fb" "?a \<notin> F" "?a < 1000" using file_wf_slot(1-3) [OF wf M(1)] st(4) unfolding M(2) by auto
  have len: "length (img st ?a) = BSIZE" "length (d_addrs din) = NDIRECT + 1" using st(1) wf by (simp_all add: sect_ok_def file_wf_def)
  have zero: "get32 (img st ?a) (4 * (i - NDIRECT)) = 0" if "n \<le> i" "i < MAXFILE" for i using wf n that by (simp add: file_wf_def)
  have get: "get32 ?d (4 * (j - NDIRECT)) = (if j = n then ?fb else get32 (img st ?a) (4 * (j - NDIRECT)))" if "NDIRECT \<le> j" "j < MAXFILE" for j
  proof (cases "j = n")
    case False
    then have "4 * (j - NDIRECT) + 4 \<le> 4 * (n - NDIRECT) \<or> 4 * (n - NDIRECT) + 4 \<le> 4 * (j - NDIRECT)" using that n by arith
    then show ?thesis using False by (simp only: get_put_other(4) if_False)
  qed (use n len(1) in simp)
  have run: "iappend_addr din n st = Inr ((slot_addr (img ?st) din n, din), ?st)"
    using n a zero [of n] get [of n] st(1)
    by (simp add: iappend_addr_def next_block_def mret_def rsect_ok wsect_ok slot_addr_def baddr_def Let_def)
  have fb: "unat (?fb + 1) = unat ?fb + 1" using st(4) unat_add_lem [of ?fb 1] by (simp add: word_less_nat_alt)
  have le: "?fb \<le> ?fb + 1" "?fb < ?fb + 1" using fb by (simp_all add: word_le_nat_alt word_less_nat_alt)
  have s: "slots (Suc n) - slots n = {n}" using n by (auto simp: slots_def)
  have new: "slot_addr (img ?st) din n = ?fb" using n get [of n] by (simp add: slot_addr_def baddr_def)
  have old: "slot_addr (img ?st) din j = slot_addr (img st) din j" if "j \<in> slots n" for j
    using that n get [of j] by (auto simp: slots_def slot_addr_def baddr_def)
  have "file_wf (img ?st) (?fb + 1) F din (Suc n)"
  proof (rule file_wf_grow [OF wf _ _ st(5,3) le(1) len(2) old])
    show "slot_addr (img ?st) din ` (slots (Suc n) - slots n) \<subseteq> {?fb..<?fb + 1}" unfolding s using new le(2) by simp
    show "inj_on (slot_addr (img ?st) din) (slots (Suc n) - slots n)" unfolding s by simp
    show "get32 (img ?st (d_addrs din ! NDIRECT)) (4 * (i - NDIRECT)) = 0" if "Suc n \<le> i" "i < MAXFILE" for i
      using zero [of i] get [of i] that n by simp
  qed (use n in simp_all)
  moreover have "slot_addr (img st) din j \<noteq> ?a" if "j < n" for j
  proof -
    have "inj_on (slot_addr (img st) din) (slots n)" "j \<in> slots n" "j \<noteq> MAXFILE" using wf that n by (auto simp: file_wf_def slots_def)
    then show ?thesis using M by (metis inj_onD)
  qed
  moreover have "fresh_zero ?st" using st(2) le a(2) by (auto simp: fresh_zero_def)
  moreover have "\<forall>j < n. slot_addr (img ?st) din j = slot_addr (img st) din j" using old by (simp add: slots_def)
  ultimately have "addr_post F st din n (Suc n) ?st din"
    using st(1) fb n a(3) len exI [of "\<lambda>as. din = din\<lparr>d_addrs := as\<rparr>", OF dinode_same] unfolding addr_post_def by (auto simp: nslots_def sect_ok_def)
  then show ?thesis using run by blast
qed

lemma get32_zero_sect: "i + 3 < BSIZE \<Longrightarrow> get32 zero_sect i = 0"
  by (simp add: get32_def zero_sect_def)

lemma addr_first_indirect:
  assumes st: "sect_ok st" "fresh_zero st" "59 \<le> freeblock st" "freeblock st < 999" "F \<subseteq> {..<freeblock st}"
    and wf: "file_wf (img st) (freeblock st) F din NDIRECT"
  shows "\<exists>st' din'. iappend_addr din NDIRECT st = Inr ((slot_addr (img st') din' NDIRECT, din'), st') \<and>
    addr_post F st din NDIRECT (Suc NDIRECT) st' din'"
proof -
  let ?fb = "freeblock st" and ?n = NDIRECT
  let ?din = "din\<lparr>d_addrs := (d_addrs din)[?n := ?fb]\<rparr>"
  let ?d = "put32 (img st ?fb) 0 (?fb + 1)"
  let ?st = "st\<lparr>img := (img st)(?fb := ?d), freeblock := ?fb + 1 + 1\<rparr>"
  have fb: "unat (?fb + 1) = unat ?fb + 1" "unat (?fb + 1 + 1) = unat ?fb + 2"
    using st(4) unat_add_lem [of ?fb 1] unat_add_lem [of "?fb + 1" 1] by (simp_all add: word_less_nat_alt)
  have le: "?fb \<le> ?fb + 1 + 1" "?fb < ?fb + 1 + 1" "?fb < ?fb + 1" "?fb + 1 < ?fb + 1 + 1" "?fb < 1000" "?fb \<le> ?fb + 1"
    using fb st(4) by (simp_all add: word_le_nat_alt word_less_nat_alt)
  have z: "d_addrs din ! ?n = 0" "length (d_addrs din) = NDIRECT + 1" "img st ?fb = zero_sect"
    using wf st(2) le(5) by (simp_all add: file_wf_def fresh_zero_def)
  have fb0: "?fb \<noteq> 0" using st(3) by auto
  have d: "get32 ?d 0 = ?fb + 1" "get32 ?d (4 * (i - ?n)) = 0" if "Suc ?n \<le> i" "i < MAXFILE" for i
    using that z(3) get_put_other(4) [of "4 * (i - ?n)" 0 zero_sect "?fb + 1"] get32_zero_sect [of "4 * (i - ?n)"]
    by (simp_all add: zero_sect_def)
  have d0: "get32 ?d 0 = ?fb + 1" using z(3) by (simp add: zero_sect_def)
  have "sect_ok (st\<lparr>freeblock := ?fb + 1\<rparr>)" "sect_ok (st\<lparr>freeblock := ?fb + 1 + 1\<rparr>)" using st(1) by simp_all
  then have run: "iappend_addr din ?n st = Inr ((slot_addr (img ?st) ?din ?n, ?din), ?st)"
    using z fb0 le(5) get32_zero_sect [of 0] d0
    by (simp add: iappend_addr_def next_block_def mret_def rsect_ok wsect_ok slot_addr_def baddr_def Let_def)
  have s: "slots (Suc ?n) - slots ?n = {?n, MAXFILE}" by (auto simp: slots_def)
  have new: "slot_addr (img ?st) ?din ?n = ?fb + 1" "slot_addr (img ?st) ?din MAXFILE = ?fb" using d0 z(2) by (simp_all add: slot_addr_def baddr_def)
  have old: "slot_addr (img ?st) ?din j = slot_addr (img st) din j" if "j \<in> slots ?n" for j
    using that by (auto simp: slots_def slot_addr_def baddr_def)
  have "file_wf (img ?st) (?fb + 1 + 1) F ?din (Suc ?n)"
  proof (rule file_wf_grow [OF wf _ _ st(5,3) le(1) _ old])
    show "slot_addr (img ?st) ?din ` (slots (Suc ?n) - slots ?n) \<subseteq> {?fb..<?fb + 1 + 1}" unfolding s using new le by simp
    show "inj_on (slot_addr (img ?st) ?din) (slots (Suc ?n) - slots ?n)" unfolding s using new le(3) by (simp add: inj_on_def)
    show "get32 (img ?st (d_addrs ?din ! NDIRECT)) (4 * (i - NDIRECT)) = 0" if "Suc ?n \<le> i" "i < MAXFILE" for i
      using d(2) [OF that] z(2) by simp
  qed (use z in simp_all)
  moreover have "\<forall>j < ?n. slot_addr (img ?st) ?din j = slot_addr (img st) din j" using old by (simp add: slots_def)
  moreover have "slot_addr (img st) din j \<noteq> ?fb" if "j < ?n" for j using file_wf_slot(2) [OF wf, of j] that by (auto simp: slots_def)
  moreover have "fresh_zero ?st" using st(2) le by (auto simp: fresh_zero_def)
  moreover have "b \<noteq> ?fb" if "b \<in> F" for b using st(5) that by auto
  ultimately have "addr_post F st din ?n (Suc ?n) ?st ?din"
    using st(1) fb z(3) unfolding addr_post_def by (auto simp: nslots_def sect_ok_def zero_sect_def)
  then show ?thesis using run by blast
qed

lemma addr_spec:
  assumes st: "sect_ok st" "fresh_zero st" "59 \<le> freeblock st" "F \<subseteq> {..<freeblock st}"
    and wf: "file_wf (img st) (freeblock st) F din n" and i: "i \<le> n" "n \<le> Suc i" "i < MAXFILE"
    and room: "unat (freeblock st) + nslots (Suc i) \<le> 1000 + nslots n"
  shows "\<exists>st' din'. iappend_addr din i st = Inr ((slot_addr (img st') din' i, din'), st') \<and> addr_post F st din n (Suc i) st' din'"
proof (cases "n = Suc i")
  case True
  then have "freeblock st \<le> 1000" using room by (simp add: word_le_nat_alt)
  then show ?thesis using addr_known [OF st(1) _ wf, of i] addr_post_same [OF st(1,2) wf] True by auto
next
  case False
  then have n: "n = i" using i by simp
  have fb: "freeblock st < 1000" "n = NDIRECT \<Longrightarrow> freeblock st < 999" using room n by (auto simp: nslots_def word_less_nat_alt split: if_splits)
  consider "n < NDIRECT" | "n = NDIRECT" | "NDIRECT < n" by linarith
  then show ?thesis
  proof cases
    case 1
    then show ?thesis using addr_direct [OF st(1-3) fb(1) st(4) wf] n by simp
  next
    case 2
    then show ?thesis using addr_first_indirect [OF st(1-3) fb(2) st(4), of din] wf n by simp
  next
    case 3
    then show ?thesis using addr_indirect [OF st(1-3) fb(1) st(4) wf] n i(3) by simp
  qed
qed

lemma file_wf_separate:
  assumes wf: "file_wf v fb F din n" and l: "\<And>b. length (v b) = BSIZE"
  shows "separate v (dino_inode din) n"
proof -
  have inj: "inj_on (slot_addr v din) (slots n)" and n: "n \<le> MAXFILE" using wf by (simp_all add: file_wf_def)
  have e: "slot_addr v din j = baddr v (dino_inode din) j" "j \<in> slots n" if "j < n" for j using that n by (simp_all add: slot_addr_def slots_def)
  have "inj_on (baddr v (dino_inode din)) {..<n}" using inj e by (auto simp: inj_on_def)
  moreover have "baddr v (dino_inode din) j \<noteq> d_addrs din ! NDIRECT" if "j < n" "NDIRECT < n" for j
  proof -
    have "MAXFILE \<in> slots n" "slot_addr v din MAXFILE = d_addrs din ! NDIRECT" using that by (simp_all add: slots_def slot_addr_def)
    moreover have "j \<noteq> MAXFILE" using that n by simp
    ultimately show ?thesis using inj e [OF that(1)] by (metis inj_onD)
  qed
  ultimately show ?thesis using l by (simp add: separate_def)
qed

lemma file_wf_write:
  assumes wf: "file_wf v fb F din n" and l: "\<And>b. length (v b) = BSIZE" and j: "j < n"
  shows "file_wf (v(slot_addr v din j := d)) fb F din n"
proof -
  have n: "n \<le> MAXFILE" using wf by (simp add: file_wf_def)
  let ?v = "v(slot_addr v din j := d)"
  have sj: "slot_addr v din j = baddr v (dino_inode din) j" using j n by (simp add: slot_addr_def)
  have e: "slot_addr ?v din i = slot_addr v din i" if "i \<in> slots n" for i
    using separate_upd(1) [OF file_wf_separate [OF wf l] j, of i d] that n j unfolding sj by (auto simp: slots_def slot_addr_def split: if_splits)
  have "d_addrs din ! NDIRECT \<noteq> slot_addr v din j" if "NDIRECT < n"
    using file_wf_separate [OF wf l] j that sj by (metis separate_def dino_inode_fields(1))
  moreover have "slot_addr ?v din ` slots n = slot_addr v din ` slots n" using e by (intro image_cong) simp_all
  moreover have "inj_on (slot_addr ?v din) (slots n)"
    using wf e inj_on_cong [of "slots n" "slot_addr ?v din" "slot_addr v din"] by (simp add: file_wf_def)
  ultimately show ?thesis using wf unfolding file_wf_def by auto
qed

definition nblk :: "nat \<Rightarrow> nat" where
  "nblk n = (n + (BSIZE - 1)) div BSIZE"

lemma nblk_bounds: "off div BSIZE \<le> nblk off" "nblk off \<le> Suc (off div BSIZE)" "off \<le> nblk off * BSIZE"
  unfolding nblk_def by simp_all

lemma nblk_chunk: "0 < m \<Longrightarrow> off mod BSIZE + m \<le> BSIZE \<Longrightarrow> nblk (off + m) = Suc (off div BSIZE)"
proof -
  assume a: "0 < m" "off mod BSIZE + m \<le> BSIZE"
  have "off + m + (BSIZE - 1) = (off mod BSIZE + m - 1) + BSIZE * Suc (off div BSIZE)" using a(1) mult_div_mod_eq [of BSIZE off] by simp
  moreover have "off mod BSIZE + m - 1 < BSIZE" using a by simp
  ultimately show ?thesis unfolding nblk_def by (simp only: div_mult_self2 div_less)
qed

lemma nslots_mono: "n \<le> m \<Longrightarrow> nslots n \<le> nslots m"
  by (simp add: nslots_def)

lemma nblk_mono: "n \<le> m \<Longrightarrow> nblk n \<le> nblk m"
  by (simp add: nblk_def div_le_mono)

declare iappend_loop.simps [simp del]

lemma file_byte_cong:
  assumes "n \<le> MAXFILE" "\<And>j. j < n \<Longrightarrow> slot_addr v' din' j = slot_addr v din j \<and> v' (slot_addr v din j) = v (slot_addr v din j)" "k < n * BSIZE"
  shows "file_byte v' (dino_inode din') k = file_byte v (dino_inode din) k"
proof -
  have k: "k div BSIZE < n" using assms(3) by (simp add: less_mult_imp_div_less)
  then show ?thesis using assms(2) [OF k] assms(1) by (simp add: file_byte_def slot_addr_def)
qed

text \<open>The bytes \<open>p\<close> have been appended at \<open>off\<close> to the file with the inode \<open>din\<close>.\<close>

definition appended :: "uint set \<Rightarrow> mkst \<Rightarrow> dinode \<Rightarrow> nat \<Rightarrow> byte list \<Rightarrow> mkst \<Rightarrow> dinode \<Rightarrow> bool" where
  "appended F st din off p st' din' \<longleftrightarrow> sect_ok st' \<and> fresh_zero st' \<and> file_wf (img st') (freeblock st') F din' (nblk (off + length p)) \<and>
     unat (freeblock st') + nslots (nblk off) = unat (freeblock st) + nslots (nblk (off + length p)) \<and> (\<forall>b \<in> F. img st' b = img st b) \<and>
     (\<forall>k < off + length p. file_byte (img st') (dino_inode din') k =
        (if k < off then file_byte (img st) (dino_inode din) k else p ! (k - off))) \<and>
     msb st' = msb st \<and> freeinode st' = freeinode st \<and> (\<exists>as. din' = din\<lparr>d_addrs := as\<rparr>)"

lemma appended_Nil:
  assumes "sect_ok st" "fresh_zero st" "file_wf (img st) (freeblock st) F din (nblk off)"
  shows "appended F st din off [] st din"
  using assms exI [of "\<lambda>as. din = din\<lparr>d_addrs := as\<rparr>", OF dinode_same] by (simp add: appended_def)

lemma appended_append:
  assumes 1: "appended F st din off p st' din'" and 2: "appended F st' din' (off + length p) q st'' din''"
  shows "appended F st din off (p @ q) st'' din''"
proof -
  have "file_byte (img st'') (dino_inode din'') k = (if k < off then file_byte (img st) (dino_inode din) k else (p @ q) ! (k - off))"
    if "k < off + length (p @ q)" for k
  proof -
    have "file_byte (img st'') (dino_inode din'') k =
        (if k < off + length p then file_byte (img st') (dino_inode din') k else q ! (k - (off + length p)))"
      using 2 that by (simp add: appended_def)
    moreover have "file_byte (img st') (dino_inode din') k = (if k < off then file_byte (img st) (dino_inode din) k else p ! (k - off))"
      if "k < off + length p" using 1 that by (simp add: appended_def)
    moreover have "k - off < length p \<longleftrightarrow> k < off + length p" if "off \<le> k" using that by arith
    ultimately show ?thesis by (auto simp: nth_append)
  qed
  moreover have "\<exists>as. din'' = din\<lparr>d_addrs := as\<rparr>" using 1 2 by (auto simp: appended_def)
  ultimately show ?thesis using 1 2 by (simp add: appended_def add.assoc)
qed

text \<open>One turn of the loop.\<close>

lemma iappend_turn:
  assumes st: "sect_ok st" "fresh_zero st" "59 \<le> freeblock st" "F \<subseteq> {..<freeblock st}"
    and wf: "file_wf (img st) (freeblock st) F din (nblk off)" and i: "off div BSIZE < MAXFILE"
    and m: "0 < m" "m \<le> length p" "off mod BSIZE + m \<le> BSIZE"
    and room: "unat (freeblock st) + nslots (nblk (off + m)) \<le> 1000 + nslots (nblk off)"
  shows "\<exists>x din' st1 st'. iappend_addr din (off div BSIZE) st = Inr ((x, din'), st1) \<and> rsect x st1 = Inr (img st1 x, st1) \<and>
    wsect x (take (off mod BSIZE) (img st1 x) @ take m p @ drop (off mod BSIZE + m) (img st1 x)) st1 = Inr ((), st') \<and>
    appended F st din off (take m p) st' din'"
proof -
  let ?i = "off div BSIZE" and ?q = "off mod BSIZE"
  have nb: "nblk (off + m) = Suc ?i" by (rule nblk_chunk [OF m(1,3)])
  obtain st1 din' where 1: "iappend_addr din ?i st = Inr ((slot_addr (img st1) din' ?i, din'), st1)" "addr_post F st din (nblk off) (Suc ?i) st1 din'"
    using addr_spec [OF st wf nblk_bounds(1,2) i] room unfolding nb by blast
  let ?x = "slot_addr (img st1) din' ?i"
  let ?d = "take ?q (img st1 ?x) @ take m p @ drop (?q + m) (img st1 ?x)"
  have p: "sect_ok st1" "fresh_zero st1" "file_wf (img st1) (freeblock st1) F din' (Suc ?i)"
      "unat (freeblock st1) + nslots (nblk off) = unat (freeblock st) + nslots (Suc ?i)" "\<And>b. b \<in> F \<Longrightarrow> img st1 b = img st b"
      "\<And>j. j < nblk off \<Longrightarrow> slot_addr (img st1) din' j = slot_addr (img st) din j \<and> img st1 (slot_addr (img st) din j) = img st (slot_addr (img st) din j)"
      "msb st1 = msb st" "freeinode st1 = freeinode st" "\<exists>as. din' = din\<lparr>d_addrs := as\<rparr>"
    using 1(2) unfolding addr_post_def by blast+
  have fb: "freeblock st1 \<le> 1000" using p(4) room nb by (simp add: word_le_nat_alt)
  have x: "?x < freeblock st1" "?x \<notin> F" using file_wf_slot(2,3) [OF p(3), of ?i] by (simp_all add: slots_def)
  then have x1: "?x < 1000" using fb by simp
  have len: "\<And>b. length (img st1 b) = BSIZE" using p(1) by (simp add: sect_ok_def)
  then have ld: "length ?d = BSIZE" using m by simp
  let ?st = "st1\<lparr>img := (img st1)(?x := ?d)\<rparr>"
  have w: "file_wf (img ?st) (freeblock ?st) F din' (Suc ?i)" using file_wf_write [OF p(3) len, of ?i ?d] by simp
  have fz: "fresh_zero ?st" using p(2) x(1) by (auto simp: fresh_zero_def)
  have xb: "?x = baddr (img st1) (dino_inode din') ?i" using i by (simp add: slot_addr_def)
  have bytes: "file_byte (img ?st) (dino_inode din') k = (if k < off then file_byte (img st) (dino_inode din) k else p ! (k - off))" if k: "k < off + m" for k
  proof -
    have "off + m \<le> BSIZE * ?i + BSIZE" using m(3) mult_div_mod_eq [of BSIZE off] by linarith
    then have k1: "k < Suc ?i * BSIZE" using k by simp
    have "file_byte (img ?st) (dino_inode din') k = (if off \<le> k \<and> k < off + m then p ! (k - off) else file_byte (img st1) (dino_inode din') k)"
      using chunk_bytes [OF file_wf_separate [OF p(3) len] lessI m(3,2) k1] unfolding xb by simp
    moreover have "file_byte (img st1) (dino_inode din') k = file_byte (img st) (dino_inode din) k" if "k < off"
      using p(6) that nblk_bounds(3) [of off] wf by (intro file_byte_cong [of "nblk off"]) (simp_all add: file_wf_def)
    ultimately show ?thesis using k by auto
  qed
  have "\<forall>b \<in> F. img ?st b = img st b" using p(5) x(2) by auto
  then have "appended F st din off (take m p) ?st din'"
    using p(1,4,7-9) ld fz w bytes m(2) unfolding appended_def by (simp add: nb min_absorb2)
  then show ?thesis using 1(1) rsect_ok [OF p(1) x1] wsect_ok [OF p(1) x1] by blast
qed

lemma iappend_loop_content:
  assumes "sect_ok st" "fresh_zero st" "59 \<le> freeblock st" "F \<subseteq> {..<freeblock st}"
    and "file_wf (img st) (freeblock st) F din (nblk (unat off))" "unat off + length p \<le> MAXFILE * BSIZE"
    and "unat (freeblock st) + nslots (nblk (unat off + length p)) \<le> 1000 + nslots (nblk (unat off))"
  shows "\<exists>off' din' st'. iappend_loop din off p st = Inr ((off', din'), st') \<and> unat off' = unat off + length p \<and>
    appended F st din (unat off) p st' din'"
  using assms
proof (induction din off p arbitrary: st rule: iappend_loop.induct)
  case (1 din off p)
  show ?case
  proof (cases "p = []")
    case True
    then show ?thesis using appended_Nil [OF 1(2,3,6)] by (subst iappend_loop.simps) (auto simp: mret_def)
  next
    case False
    let ?i = "unat off div BSIZE" and ?q = "unat off mod BSIZE"
    define m where "m = min (length p) (BSIZE - ?q)"
    have m: "0 < m" "m \<le> length p" "?q + m \<le> BSIZE" using False by (auto simp: m_def)
    have "unat off < MAXFILE * BSIZE" using 1(7) False by (cases p) simp_all
    then have i: "?i < MAXFILE" by (rule less_mult_imp_div_less)
    have le: "nslots (nblk (unat off + m)) \<le> nslots (nblk (unat off + length p))" using m(2) by (intro nslots_mono nblk_mono) simp
    then have room: "unat (freeblock st) + nslots (nblk (unat off + m)) \<le> 1000 + nslots (nblk (unat off))" using 1(8) by linarith
    obtain x din' st1 st' where t: "iappend_addr din ?i st = Inr ((x, din'), st1)" "rsect x st1 = Inr (img st1 x, st1)"
      "wsect x (take ?q (img st1 x) @ take m p @ drop (?q + m) (img st1 x)) st1 = Inr ((), st')"
      "appended F st din (unat off) (take m p) st' din'"
      using iappend_turn [OF 1(2-6) i m room] by blast
    then have t': "sect_ok st'" "fresh_zero st'" "file_wf (img st') (freeblock st') F din' (nblk (unat off + m))"
      "unat (freeblock st') + nslots (nblk (unat off)) = unat (freeblock st) + nslots (nblk (unat off + m))"
      using m(2) by (simp_all add: appended_def min_absorb2)
    have off: "unat (off + of_nat m) = unat off + m"
    proof -
      have b: "unat off + m < 2 ^ 32" using 1(7) m(2) by simp
      then have "unat (of_nat m :: uint) = m" by (simp add: unat_of_nat)
      then show ?thesis using b unat_add_lem [of off "of_nat m"] by simp
    qed
    have "freeblock st \<le> freeblock st'"
      using t'(4) nslots_mono [OF nblk_mono, of "unat off" "unat off + m"] by (simp add: word_le_nat_alt)
    then have fb: "59 \<le> freeblock st'" "F \<subseteq> {..<freeblock st'}" using 1(4,5) by auto
    have rest: "unat off + m + length (drop m p) = unat off + length p" using m(2) by simp
    have ni: "\<not> \<not> ?i < MAXFILE" using i by simp
    obtain off' din'' st'' where r: "iappend_loop din' (off + of_nat m) (drop m p) st' = Inr ((off', din''), st'')"
      "unat off' = unat off + length p" "appended F st' din' (unat off + m) (drop m p) st'' din''"
      using 1(1) [OF False refl m_def ni t'(1,2) fb, of din', unfolded off rest] t'(3,4) 1(7,8) by auto
    have "iappend_loop din off p st = Inr ((off', din''), st'')"
      using False i t(1-3) r(1) by (subst iappend_loop.simps) (simp add: m_def [symmetric] Let_def)
    moreover have "appended F st din (unat off) p st'' din''"
      using appended_append [OF t(4), of "drop m p" st'' din''] r(3) m(2) by (simp add: min_absorb2)
    ultimately show ?thesis using r(2) by blast
  qed
qed

section \<open>The whole image\<close>

lemma mk_sb_fields [simp]: "sb_size mk_sb = 1000" "sb_nblocks mk_sb = 941" "sb_ninodes mk_sb = 200" "sb_nlog mk_sb = 30" "sb_logstart mk_sb = 2"
  "sb_inodestart mk_sb = 32" "sb_bmapstart mk_sb = 58"
  by (simp_all add: mk_sb_def)

lemma iblock: "i < 208 \<Longrightarrow> IBLOCK i mk_sb < 58"
  "i < 208 \<Longrightarrow> j < 208 \<Longrightarrow> i \<noteq> j \<Longrightarrow> IBLOCK i mk_sb \<noteq> IBLOCK j mk_sb \<or> unat i mod 8 \<noteq> unat j mod 8"
proof -
  have e: "unat (IBLOCK i mk_sb) = unat i div 8 + 32" if "i < 208" for i
  proof -
    have "unat (i div 8) = unat i div 8" by (simp add: unat_div)
    moreover have "unat (i div 8) < 26" using that calculation by (simp add: word_less_nat_alt)
    ultimately show ?thesis unfolding IBLOCK_def using unat_add_lem [of "i div 8" 32] by simp
  qed
  show "IBLOCK i mk_sb < 58" if "i < 208" using e [OF that] that by (simp add: word_less_nat_alt)
  assume a: "i < 208" "j < 208" "i \<noteq> j"
  then have "unat i \<noteq> unat j" by (simp add: word_unat_eq_iff)
  then have "unat i div 8 \<noteq> unat j div 8 \<or> unat i mod 8 \<noteq> unat j mod 8" by (metis mult_div_mod_eq)
  then show "IBLOCK i mk_sb \<noteq> IBLOCK j mk_sb \<or> unat i mod 8 \<noteq> unat j mod 8" using e [OF a(1)] e [OF a(2)] by auto
qed

definition inode_at :: "mkst \<Rightarrow> uint \<Rightarrow> dinode" where
  "inode_at st i = get_dinode (img st (IBLOCK i mk_sb)) (unat i mod 8)"

definition isize :: "mkst \<Rightarrow> uint \<Rightarrow> nat" where
  "isize st i = unat (d_size (inode_at st i))"

definition blocks :: "mkst \<Rightarrow> uint \<Rightarrow> uint set" where
  "blocks st i = slot_addr (img st) (inode_at st i) ` slots (nblk (isize st i))"

definition content :: "mkst \<Rightarrow> uint \<Rightarrow> byte list" where
  "content st i = file_bytes (img st) (dino_inode (inode_at st i)) 0 (isize st i)"

text \<open>The files of the image are well formed and share no block.\<close>

definition mk_inv :: "mkst \<Rightarrow> bool" where
  "mk_inv st \<longleftrightarrow> sect_ok st \<and> fresh_zero st \<and> msb st = mk_sb \<and> 59 \<le> freeblock st \<and> freeblock st \<le> 1000 \<and> 1 \<le> freeinode st \<and> freeinode st \<le> 208 \<and>
     (\<forall>i. 1 \<le> i \<longrightarrow> i < freeinode st \<longrightarrow> file_wf (img st) (freeblock st) {} (inode_at st i) (nblk (isize st i))) \<and>
     (\<forall>i j. 1 \<le> i \<longrightarrow> i < freeinode st \<longrightarrow> 1 \<le> j \<longrightarrow> j < freeinode st \<longrightarrow> i \<noteq> j \<longrightarrow> blocks st i \<inter> blocks st j = {})"

text \<open>What does not belong to inode \<open>i\<close>.\<close>

definition others :: "mkst \<Rightarrow> uint \<Rightarrow> uint set" where
  "others st i = {..<59} \<union> (\<Union>j \<in> {j. 1 \<le> j \<and> j < freeinode st \<and> j \<noteq> i}. blocks st j)"

lemma file_wf_set: "file_wf v fb F din n \<longleftrightarrow> file_wf v fb {} din n \<and> slot_addr v din ` slots n \<inter> F = {}"
  unfolding file_wf_def by blast

lemma blocks_data: "mk_inv st \<Longrightarrow> 1 \<le> i \<Longrightarrow> i < freeinode st \<Longrightarrow> blocks st i \<subseteq> {59..<freeblock st}"
  unfolding mk_inv_def blocks_def file_wf_def by blast

lemma mk_inv_others:
  assumes inv: "mk_inv st" and i: "1 \<le> i" "i < freeinode st"
  shows "file_wf (img st) (freeblock st) (others st i) (inode_at st i) (nblk (isize st i))" "others st i \<subseteq> {..<freeblock st}"
proof -
  have "{59..<freeblock st} \<inter> {..<59} = {}" by auto
  then have "blocks st i \<inter> {..<59} = {}" using blocks_data [OF inv i] by blast
  moreover have "blocks st i \<inter> blocks st j = {}" if "1 \<le> j" "j < freeinode st" "j \<noteq> i" for j
    using inv i that unfolding mk_inv_def by metis
  ultimately have "blocks st i \<inter> others st i = {}" unfolding others_def by blast
  then show "file_wf (img st) (freeblock st) (others st i) (inode_at st i) (nblk (isize st i))"
    using inv i unfolding file_wf_set [of _ _ "others st i"] by (simp add: mk_inv_def blocks_def)
  have "{..<59} \<subseteq> {..<freeblock st}" using inv by (auto simp: mk_inv_def)
  moreover have "blocks st j \<subseteq> {..<freeblock st}" if "1 \<le> j" "j < freeinode st" for j using blocks_data [OF inv that] by auto
  ultimately show "others st i \<subseteq> {..<freeblock st}" unfolding others_def by (intro Un_least UN_least) simp_all
qed

text \<open>A file does not change as long as its own blocks do not.\<close>

lemma file_frame:
  assumes wf: "file_wf v fb F din n" and same: "\<And>b. b \<in> slot_addr v din ` slots n \<Longrightarrow> v' b = v b" and fb: "fb \<le> fb'"
  shows "\<And>j. j \<in> slots n \<Longrightarrow> slot_addr v' din j = slot_addr v din j" "file_wf v' fb' F din n"
    "\<And>k. k < n * BSIZE \<Longrightarrow> file_byte v' (dino_inode din) k = file_byte v (dino_inode din) k"
proof -
  have n: "n \<le> MAXFILE" using wf by (simp add: file_wf_def)
  have ind: "v' (d_addrs din ! NDIRECT) = v (d_addrs din ! NDIRECT)" if "NDIRECT < n"
  proof -
    have "slot_addr v din MAXFILE \<in> slot_addr v din ` slots n" using that by (intro imageI) (simp add: slots_def)
    then show ?thesis using same [of "d_addrs din ! NDIRECT"] by (simp add: slot_addr_def)
  qed
  show e: "slot_addr v' din j = slot_addr v din j" if "j \<in> slots n" for j
    using that ind by (auto simp: slots_def slot_addr_def baddr_def split: if_splits)
  have "slot_addr v' din ` slots n = slot_addr v din ` slots n" using e by (intro image_cong) simp_all
  moreover have "inj_on (slot_addr v' din) (slots n)"
    using wf e inj_on_cong [of "slots n" "slot_addr v' din" "slot_addr v din"] by (simp add: file_wf_def)
  moreover have "{59..<fb} - F \<subseteq> {59..<fb'} - F" using fb by auto
  ultimately show "file_wf v' fb' F din n" using wf ind unfolding file_wf_def by auto
  show "file_byte v' (dino_inode din) k = file_byte v (dino_inode din) k" if "k < n * BSIZE" for k
    using e same n that by (intro file_byte_cong [of n]) (auto simp: slots_def)
qed

lemma mk_inv_replace:
  assumes inv: "mk_inv st" and i: "1 \<le> i" "i < freeinode st'" "i < 208"
    and fi': "freeinode st' \<le> 208" "\<forall>j. 1 \<le> j \<longrightarrow> j < freeinode st' \<longrightarrow> j \<noteq> i \<longrightarrow> j < freeinode st"
    and st': "sect_ok st'" "fresh_zero st'" "msb st' = mk_sb" "freeblock st \<le> freeblock st'" "freeblock st' \<le> 1000"
    and same': "\<forall>b \<in> others st i. b \<noteq> IBLOCK i mk_sb \<longrightarrow> img st' b = img st b"
    and ib: "img st' (IBLOCK i mk_sb) = put_dinode (img st (IBLOCK i mk_sb)) (unat i mod 8) din" "length (d_addrs din) = NDIRECT + 1"
    and wf: "file_wf (img st') (freeblock st') (others st i) din (nblk (unat (d_size din)))"
  shows "mk_inv st'" "inode_at st' i = din" "\<And>j. 1 \<le> j \<Longrightarrow> j < freeinode st' \<Longrightarrow> j \<noteq> i \<Longrightarrow> inode_at st' j = inode_at st j \<and> content st' j = content st j"
proof -
  have fi: "freeinode st' \<le> 208" "\<And>j. 1 \<le> j \<Longrightarrow> j < freeinode st' \<Longrightarrow> j \<noteq> i \<Longrightarrow> j < freeinode st" using fi' by blast+
  have same: "\<And>b. b \<in> others st i \<Longrightarrow> b \<noteq> IBLOCK i mk_sb \<Longrightarrow> img st' b = img st b" using same' by blast
  have fb: "59 \<le> freeblock st" and len: "length (img st b) = BSIZE" for b using inv by (simp_all add: mk_inv_def sect_ok_def)
  have "64 * (unat i mod 8) + 64 \<le> length (img st (IBLOCK i mk_sb))"
  proof -
    have "unat i mod 8 < 8" by simp
    then show ?thesis unfolding len by arith
  qed
  then show iI: "inode_at st' i = din" unfolding inode_at_def ib(1) using ib(2) by (rule dinode_roundtrip)
  have ij: "inode_at st' j = inode_at st j" if j: "1 \<le> j" "j < freeinode st'" "j \<noteq> i" for j
  proof (cases "IBLOCK j mk_sb = IBLOCK i mk_sb")
    case True
    then have "unat j mod 8 \<noteq> unat i mod 8" using iblock(2) [of j i] i(3) j fi(1) by auto
    then show ?thesis using dinode_other [OF _ ib(2)] unfolding inode_at_def True ib(1) by simp
  next
    case False
    have "j < 208" using j(2) fi(1) by simp
    then have "IBLOCK j mk_sb < 59" using iblock(1) [of j] by (simp add: word_less_nat_alt)
    then show ?thesis using same [of "IBLOCK j mk_sb"] False by (simp add: inode_at_def others_def)
  qed
  have fr: "file_wf (img st) (freeblock st) {} (inode_at st j) (nblk (isize st j))" "\<And>b. b \<in> blocks st j \<Longrightarrow> img st' b = img st b"
    if j: "1 \<le> j" "j < freeinode st'" "j \<noteq> i" for j
  proof -
    have jf: "j < freeinode st" using fi(2) j by blast
    show "file_wf (img st) (freeblock st) {} (inode_at st j) (nblk (isize st j))" using inv j(1) jf by (simp add: mk_inv_def)
    show "img st' b = img st b" if "b \<in> blocks st j" for b
    proof (rule same)
      show "b \<in> others st i" using that j jf unfolding others_def by blast
      have "59 \<le> b" using blocks_data [OF inv j(1) jf] that by auto
      then show "b \<noteq> IBLOCK i mk_sb" using iblock(1) [OF i(3)] by (auto simp: word_less_nat_alt word_le_nat_alt)
    qed
  qed
  note ff = file_frame [OF fr(1) fr(2) [unfolded blocks_def] st'(4)]
  have bl: "blocks st' j = blocks st j" if j: "1 \<le> j" "j < freeinode st'" "j \<noteq> i" for j
    using ff(1) [OF j j] unfolding blocks_def isize_def ij [OF j] by (intro image_cong) simp_all
  have bi: "blocks st' i \<inter> blocks st j = {}" if j: "1 \<le> j" "j < freeinode st'" "j \<noteq> i" for j
  proof -
    have "blocks st j \<subseteq> others st i" using fi(2) [OF j] j unfolding others_def by blast
    moreover have "blocks st' i \<inter> others st i = {}" using wf unfolding file_wf_set [of _ _ "others st i"] blocks_def isize_def iI by blast
    ultimately show ?thesis by blast
  qed
  have wfj: "file_wf (img st') (freeblock st') {} (inode_at st' j) (nblk (isize st' j))" if j: "1 \<le> j" "j < freeinode st'" for j
    using wf ff(2) [of j, OF j(1,2) _ j(1,2)] ij [of j] iI j unfolding isize_def file_wf_set [of _ _ "others st i"] by (cases "j = i") simp_all
  have disj: "blocks st' j \<inter> blocks st' k = {}" if j: "1 \<le> j" "j < freeinode st'" and k: "1 \<le> k" "k < freeinode st'" and jk: "j \<noteq> k" for j k
  proof -
    consider "j = i" | "k = i" | "j \<noteq> i" "k \<noteq> i" by blast
    then show ?thesis
    proof cases
      case 1
      then show ?thesis using bi [OF k] bl [OF k] jk by auto
    next
      case 2
      then show ?thesis using bi [OF j] bl [OF j] jk by auto
    next
      case 3
      then show ?thesis using bl [OF j] bl [OF k] inv fi(2) j k jk unfolding mk_inv_def by auto
    qed
  qed
  have "59 \<le> freeblock st'" "1 \<le> freeinode st'" using fb st'(4) i(1,2) by auto
  then show "mk_inv st'" unfolding mk_inv_def using st'(1-3,5) fi(1) wfj disj by blast
  show "inode_at st' j = inode_at st j \<and> content st' j = content st j" if j: "1 \<le> j" "j < freeinode st'" "j \<noteq> i" for j
  proof -
    have "file_byte (img st') (dino_inode (inode_at st j)) k = file_byte (img st) (dino_inode (inode_at st j)) k" if "k < isize st j" for k
      using ff(3) [OF j j] nblk_bounds(3) [of "isize st j"] that by simp
    then show ?thesis using ij [OF j] by (simp add: content_def file_bytes_def isize_def)
  qed
qed

section \<open>Appending to a file of the image\<close>

lemma inum_small: "mk_inv st \<Longrightarrow> i < freeinode st \<Longrightarrow> i < 208"
  by (auto simp: mk_inv_def)

lemma iblock_small: "i < 208 \<Longrightarrow> IBLOCK i mk_sb < 1000" "i < 208 \<Longrightarrow> IBLOCK i mk_sb < 59" "i < 208 \<Longrightarrow> IBLOCK i mk_sb \<noteq> 1"
proof -
  assume i: "i < 208"
  show "IBLOCK i mk_sb < 1000" "IBLOCK i mk_sb < 59" using iblock(1) [OF i] by (simp_all add: word_less_nat_alt)
  have "unat (i div 8) < 26" using i by (simp add: unat_div word_less_nat_alt)
  then have "unat (IBLOCK i mk_sb) = unat (i div 8) + 32" unfolding IBLOCK_def using unat_add_lem [of "i div 8" 32] by simp
  then show "IBLOCK i mk_sb \<noteq> 1" by auto
qed

lemma winode_ok:
  assumes "sect_ok st" "msb st = mk_sb" "i < 208"
  shows "winode i din st = Inr ((), st\<lparr>img := (img st)(IBLOCK i mk_sb := put_dinode (img st (IBLOCK i mk_sb)) (unat i mod 8) din)\<rparr>)"
  using assms iblock_small(1) [OF assms(3)] by (simp add: winode_def rsect_ok wsect_ok Let_def)

lemma rinode_ok: "sect_ok st \<Longrightarrow> msb st = mk_sb \<Longrightarrow> i < 208 \<Longrightarrow> rinode i st = Inr (inode_at st i, st)"
  using iblock_small(1) [of i] by (simp add: rinode_def rsect_ok Let_def mret_def inode_at_def)

text \<open>The file \<open>i\<close> has grown by the bytes \<open>p\<close>, and the other files are as before.\<close>

definition grown :: "mkst \<Rightarrow> uint \<Rightarrow> byte list \<Rightarrow> mkst \<Rightarrow> bool" where
  "grown st i p st' \<longleftrightarrow> mk_inv st' \<and> freeinode st' = freeinode st \<and>
    unat (freeblock st') + nslots (nblk (isize st i)) = unat (freeblock st) + nslots (nblk (isize st i + length p)) \<and>
    (\<exists>as n. inode_at st' i = (inode_at st i)\<lparr>d_addrs := as, d_size := n\<rparr>) \<and>
    isize st' i = isize st i + length p \<and> content st' i = content st i @ p \<and>
    (\<forall>j. 1 \<le> j \<longrightarrow> j < freeinode st \<longrightarrow> j \<noteq> i \<longrightarrow> inode_at st' j = inode_at st j \<and> content st' j = content st j) \<and> img st' 1 = img st 1"

lemma grown_append: "grown st i p st' \<Longrightarrow> grown st' i q st'' \<Longrightarrow> grown st i (p @ q) st''"
proof -
  assume a: "grown st i p st'" "grown st' i q st''"
  then obtain as n as' n' where "inode_at st' i = (inode_at st i)\<lparr>d_addrs := as, d_size := n\<rparr>"
    "inode_at st'' i = (inode_at st' i)\<lparr>d_addrs := as', d_size := n'\<rparr>" unfolding grown_def by blast
  then have "\<exists>as n. inode_at st'' i = (inode_at st i)\<lparr>d_addrs := as, d_size := n\<rparr>" by (intro exI [of _ as'] exI [of _ n']) simp
  then show ?thesis using a unfolding grown_def by (simp add: add.assoc)
qed

lemma grown_Nil: "mk_inv st \<Longrightarrow> grown st i [] st"
proof -
  have "\<exists>as n. d = d\<lparr>d_addrs := as, d_size := n\<rparr>" for d :: dinode by (intro exI [of _ "d_addrs d"] exI [of _ "d_size d"]) simp
  then show "mk_inv st \<Longrightarrow> grown st i [] st" unfolding grown_def by auto
qed

lemma iappend_appends:
  assumes inv: "mk_inv st" and i: "1 \<le> i" "i < freeinode st"
    and len: "isize st i + length p \<le> MAXFILE * BSIZE"
    and room: "unat (freeblock st) + nslots (nblk (isize st i + length p)) \<le> 1000 + nslots (nblk (isize st i))"
  shows "\<exists>st'. iappend i p st = Inr ((), st') \<and> grown st i p st'"
proof -
  let ?F = "others st i" and ?din = "inode_at st i" and ?n = "isize st i" and ?ib = "IBLOCK i mk_sb"
  have iv: "sect_ok st" "fresh_zero st" "msb st = mk_sb" "59 \<le> freeblock st" using inv by (simp_all add: mk_inv_def)
  have i8: "i < 208" by (rule inum_small [OF inv i(2)])
  obtain off din st1 where 1: "iappend_loop ?din (d_size ?din) p st = Inr ((off, din), st1)" "unat off = ?n + length p" "appended ?F st ?din ?n p st1 din"
    using iappend_loop_content [OF iv(1,2,4) mk_inv_others(2) [OF inv i], of ?din "d_size ?din" p]
      mk_inv_others(1) [OF inv i] len room unfolding isize_def by blast
  have a: "sect_ok st1" "fresh_zero st1" "file_wf (img st1) (freeblock st1) ?F din (nblk (?n + length p))"
    "unat (freeblock st1) + nslots (nblk ?n) = unat (freeblock st) + nslots (nblk (?n + length p))" "\<And>b. b \<in> ?F \<Longrightarrow> img st1 b = img st b"
    "\<And>k. k < ?n + length p \<Longrightarrow> file_byte (img st1) (dino_inode din) k = (if k < ?n then file_byte (img st) (dino_inode ?din) k else p ! (k - ?n))"
    "msb st1 = mk_sb" "freeinode st1 = freeinode st" "\<exists>as. din = ?din\<lparr>d_addrs := as\<rparr>"
    using 1(3) iv(3) unfolding appended_def by simp_all
  let ?d = "din\<lparr>d_size := off\<rparr>"
  let ?st = "st1\<lparr>img := (img st1)(?ib := put_dinode (img st1 ?ib) (unat i mod 8) ?d)\<rparr>"
  have run: "iappend i p st = Inr ((), ?st)"
    using 1(1) by (simp add: iappend_def rinode_ok [OF iv(1,3) i8] winode_ok [OF a(1,7) i8])
  have ib: "?ib \<in> ?F" "?ib < 59" using iblock_small(2) [OF i8] by (simp_all add: others_def)
  have la: "length (d_addrs din) = NDIRECT + 1" using a(3) by (simp add: file_wf_def)
  have sa: "slot_addr v ?d = slot_addr v din" "baddr v (dino_inode ?d) = baddr v (dino_inode din)" for v
    by (simp_all add: slot_addr_def baddr_def fun_eq_iff)
  have sm: "img ?st b = img st1 b" if "b \<in> slot_addr (img st1) din ` slots (nblk (?n + length p))" for b
    using a(3) that ib(1) unfolding file_wf_def by auto
  note ff = file_frame [OF a(3) sm order_refl]
  have wf: "file_wf (img ?st) (freeblock ?st) ?F ?d (nblk (unat (d_size ?d)))"
    using ff(2) 1(2) unfolding file_wf_def sa by simp
  have fb: "freeblock st \<le> freeblock ?st" "freeblock ?st \<le> 1000"
    using a(4) room nslots_mono [OF nblk_mono, of ?n "?n + length p"] by (simp_all add: word_le_nat_alt)
  have p: "i < freeinode ?st" "freeinode ?st \<le> 208" "\<forall>j. 1 \<le> j \<longrightarrow> j < freeinode ?st \<longrightarrow> j \<noteq> i \<longrightarrow> j < freeinode st"
    using a(8) i(2) inv by (simp_all add: mk_inv_def)
  have q: "sect_ok ?st" "fresh_zero ?st" "msb ?st = mk_sb"
  proof -
    have "length (img st1 b) = BSIZE" for b using a(1) by (simp add: sect_ok_def)
    then show "sect_ok ?st" using a(1) by simp
    have "?ib < freeblock st1" using ib(2) iv(4) fb(1) by auto
    then show "fresh_zero ?st" using a(2) by (auto simp: fresh_zero_def)
  qed (use a(7) in simp)
  have r: "\<forall>b \<in> ?F. b \<noteq> ?ib \<longrightarrow> img ?st b = img st b" "img ?st ?ib = put_dinode (img st ?ib) (unat i mod 8) ?d" "length (d_addrs ?d) = NDIRECT + 1"
    using a(5) ib(1) la by simp_all
  note R = mk_inv_replace [OF inv i(1) p(1) i8 p(2,3) q fb r wf]
  have iI: "inode_at ?st i = ?d" by (rule R(2))
  have sz: "isize ?st i = ?n + length p" using iI 1(2) by (simp add: isize_def)
  have "content ?st i = content st i @ p"
  proof -
    have "file_byte (img ?st) (dino_inode ?d) k = (if k < ?n then file_byte (img st) (dino_inode ?din) k else p ! (k - ?n))" if "k < ?n + length p" for k
      using ff(3) [of k] a(6) [OF that] nblk_bounds(3) [of "?n + length p"] that unfolding file_byte_def sa by simp
    then show ?thesis unfolding content_def sz iI by (intro nth_equalityI) (auto simp: file_bytes_def nth_append)
  qed
  moreover have "\<exists>as n. inode_at ?st i = ?din\<lparr>d_addrs := as, d_size := n\<rparr>" using a(9) iI by auto
  moreover have "img ?st 1 = img st 1" using a(5) [of 1] iblock_small(3) [OF i8] by (simp add: others_def)
  ultimately show ?thesis using run R(1,3) sz a(4,8) by (intro exI [of _ ?st]) (simp add: grown_def)
qed

lemma mk_ialloc_new:
  assumes inv: "mk_inv st" and fi: "freeinode st < 208"
  shows "\<exists>st'. mk_ialloc ty st = Inr (freeinode st, st') \<and> mk_inv st' \<and> freeinode st' = freeinode st + 1 \<and> freeblock st' = freeblock st \<and>
    d_type (inode_at st' (freeinode st)) = ty \<and> d_nlink (inode_at st' (freeinode st)) = 1 \<and> isize st' (freeinode st) = 0 \<and> content st' (freeinode st) = [] \<and>
    (\<forall>j. 1 \<le> j \<longrightarrow> j < freeinode st \<longrightarrow> inode_at st' j = inode_at st j \<and> content st' j = content st j) \<and> img st' 1 = img st 1"
proof -
  let ?i = "freeinode st"
  let ?ib = "IBLOCK ?i mk_sb"
  let ?d = "\<lparr>d_type = ty, d_major = 0, d_minor = 0, d_nlink = 1, d_size = 0, d_addrs = replicate (NDIRECT + 1) 0\<rparr>"
  let ?st = "st\<lparr>freeinode := ?i + 1, img := (img st)(?ib := put_dinode (img st ?ib) (unat ?i mod 8) ?d)\<rparr>"
  have iv: "sect_ok st" "fresh_zero st" "msb st = mk_sb" "59 \<le> freeblock st" "freeblock st \<le> 1000" "1 \<le> ?i" using inv by (simp_all add: mk_inv_def)
  have len: "length (img st b) = BSIZE" for b using iv(1) by (simp add: sect_ok_def)
  have run: "mk_ialloc ty st = Inr (?i, ?st)"
    using winode_ok [of "st\<lparr>freeinode := ?i + 1\<rparr>" ?i ?d] iv(1,3) fi by (simp add: mk_ialloc_def next_inode_def mret_def)
  have u: "unat (?i + 1) = unat ?i + 1" using fi unat_add_lem [of ?i 1] by (simp add: word_less_nat_alt)
  have ib: "?ib < 59" "?ib \<noteq> 1" using iblock_small(2,3) [OF fi] .
  have p: "?i < freeinode ?st" "freeinode ?st \<le> 208" "\<forall>j. 1 \<le> j \<longrightarrow> j < freeinode ?st \<longrightarrow> j \<noteq> ?i \<longrightarrow> j < freeinode st"
    using u fi by (auto simp: word_less_nat_alt word_le_nat_alt word_unat_eq_iff)
  have q: "sect_ok ?st" "fresh_zero ?st" "msb ?st = mk_sb" "freeblock st \<le> freeblock ?st" "freeblock ?st \<le> 1000"
  proof -
    show "sect_ok ?st" using iv(1) len by (simp add: sect_ok_def)
    have "?ib < freeblock st" using ib(1) iv(4) by auto
    then show "fresh_zero ?st" using iv(2) by (auto simp: fresh_zero_def)
  qed (use iv in simp_all)
  have r: "\<forall>b \<in> others st ?i. b \<noteq> ?ib \<longrightarrow> img ?st b = img st b" "img ?st ?ib = put_dinode (img st ?ib) (unat ?i mod 8) ?d" "length (d_addrs ?d) = NDIRECT + 1"
    by simp_all
  have nth0: "replicate (NDIRECT + 1) (0 :: uint) ! i = 0" if "i \<le> NDIRECT" for i using that by (subst nth_replicate) simp_all
  have wf: "file_wf (img ?st) (freeblock ?st) (others st ?i) ?d (nblk (unat (d_size ?d)))"
    using nth0 by (simp add: file_wf_def nblk_def slots_def)
  note R = mk_inv_replace [OF inv iv(6) p(1) fi p(2,3) q r wf]
  have "\<forall>j. 1 \<le> j \<longrightarrow> j < ?i \<longrightarrow> inode_at ?st j = inode_at st j \<and> content ?st j = content st j"
  proof (intro allI impI)
    fix j assume j: "1 \<le> j" "j < ?i"
    have "j < freeinode ?st" using j(2) p(1) by (rule order.strict_trans)
    then show "inode_at ?st j = inode_at st j \<and> content ?st j = content st j" using R(3) j by blast
  qed
  moreover have "isize ?st ?i = 0" "content ?st ?i = []" using R(2) by (simp_all add: isize_def content_def file_bytes_def)
  ultimately show ?thesis using run R(1,2) ib(2) by (intro exI [of _ ?st]) simp
qed

section \<open>Adding the files\<close>

text \<open>What the reads of a file return until the first empty one, and the name in the image.\<close>

definition fdata :: "byte list list \<Rightarrow> byte list" where
  "fdata ds = concat (takeWhile (\<lambda>d. d \<noteq> []) ds)"

definition strip :: "byte list \<Rightarrow> byte list" where
  "strip a = (if a \<noteq> [] \<and> hd a = 95 then tl a else a)"

lemma append_reads_grows:
  assumes "mk_inv st" "1 \<le> i" "i < freeinode st" "isize st i + length (fdata ds) \<le> MAXFILE * BSIZE"
    and "unat (freeblock st) + nslots (nblk (isize st i + length (fdata ds))) \<le> 1000 + nslots (nblk (isize st i))"
  shows "\<exists>st'. append_reads i ds st = Inr ((), st') \<and> grown st i (fdata ds) st'"
  using assms
proof (induction ds arbitrary: st)
  case Nil
  then show ?case using grown_Nil by (auto simp: fdata_def mret_def)
next
  case (Cons d ds)
  show ?case
  proof (cases "d = []")
    case True
    then show ?thesis using Cons.prems(1) grown_Nil by (auto simp: fdata_def mret_def)
  next
    case False
    then have e: "fdata (d # ds) = d @ fdata ds" by (simp add: fdata_def)
    have "nslots (nblk (isize st i + length d)) \<le> nslots (nblk (isize st i + length (fdata (d # ds))))"
      unfolding e by (intro nslots_mono nblk_mono) simp
    then have room: "unat (freeblock st) + nslots (nblk (isize st i + length d)) \<le> 1000 + nslots (nblk (isize st i))" using Cons.prems(5) by linarith
    have len: "isize st i + length d \<le> MAXFILE * BSIZE" using Cons.prems(4) unfolding e by simp
    obtain st1 where 1: "iappend i d st = Inr ((), st1)" "grown st i d st1" using iappend_appends [OF Cons.prems(1-3) len room] by blast
    then have g: "mk_inv st1" "freeinode st1 = freeinode st" "isize st1 i = isize st i + length d"
      "unat (freeblock st1) + nslots (nblk (isize st i)) = unat (freeblock st) + nslots (nblk (isize st i + length d))"
      unfolding grown_def by blast+
    have "\<exists>st'. append_reads i ds st1 = Inr ((), st') \<and> grown st1 i (fdata ds) st'"
      using Cons.prems g unfolding e by (intro Cons.IH) (simp_all add: add.assoc)
    then show ?thesis using 1 False grown_append e by (auto simp: fdata_def)
  qed
qed

text \<open>Files with the contents \<open>cs\<close> have been added, and the root directory has grown by \<open>d\<close>.\<close>

definition added :: "mkst \<Rightarrow> byte list list \<Rightarrow> byte list \<Rightarrow> mkst \<Rightarrow> bool" where
  "added st cs d st' \<longleftrightarrow> mk_inv st' \<and> unat (freeinode st') = unat (freeinode st) + length cs \<and>
     unat (freeblock st') + nslots (nblk (isize st 1)) =
       unat (freeblock st) + nslots (nblk (isize st 1 + length d)) + (\<Sum>c \<leftarrow> cs. nslots (nblk (length c))) \<and>
     isize st' 1 = isize st 1 + length d \<and> content st' 1 = content st 1 @ d \<and>
     (\<exists>as n. inode_at st' 1 = (inode_at st 1)\<lparr>d_addrs := as, d_size := n\<rparr>) \<and>
     (\<forall>i. freeinode st \<le> i \<longrightarrow> i < freeinode st' \<longrightarrow> d_type (inode_at st' i) = T_FILE \<and> d_nlink (inode_at st' i) = 1 \<and>
        content st' i = cs ! (unat i - unat (freeinode st))) \<and>
     (\<forall>j. 1 < j \<longrightarrow> j < freeinode st \<longrightarrow> inode_at st' j = inode_at st j \<and> content st' j = content st j) \<and> img st' 1 = img st 1"

lemma added_Nil: "mk_inv st \<Longrightarrow> added st [] [] st"
  using grown_Nil [of st 1] unfolding added_def grown_def by auto

lemma added_append:
  assumes 1: "added st cs d st'" and 2: "added st' cs' d' st''" and fi: "1 < freeinode st"
  shows "added st (cs @ cs') (d @ d') st''"
proof -
  have f: "unat (freeinode st') = unat (freeinode st) + length cs" "unat (freeinode st'') = unat (freeinode st') + length cs'"
    using 1 2 by (simp_all add: added_def)
  then have le: "freeinode st \<le> freeinode st'" "1 < freeinode st'" using fi by (auto simp: word_le_nat_alt word_less_nat_alt)
  obtain as n as' n' where "inode_at st' 1 = (inode_at st 1)\<lparr>d_addrs := as, d_size := n\<rparr>"
    "inode_at st'' 1 = (inode_at st' 1)\<lparr>d_addrs := as', d_size := n'\<rparr>" using 1 2 unfolding added_def by blast
  then have "\<exists>as n. inode_at st'' 1 = (inode_at st 1)\<lparr>d_addrs := as, d_size := n\<rparr>" by (intro exI [of _ as'] exI [of _ n']) simp
  moreover have "d_type (inode_at st'' i) = T_FILE \<and> d_nlink (inode_at st'' i) = 1 \<and> content st'' i = (cs @ cs') ! (unat i - unat (freeinode st))"
    if i: "freeinode st \<le> i" "i < freeinode st''" for i
  proof (cases "i < freeinode st'")
    case True
    then have "inode_at st'' i = inode_at st' i \<and> content st'' i = content st' i" using 2 i(1) fi unfolding added_def by auto
    moreover have "d_type (inode_at st' i) = T_FILE \<and> d_nlink (inode_at st' i) = 1 \<and> content st' i = cs ! (unat i - unat (freeinode st))"
      using 1 i(1) True unfolding added_def by blast
    moreover have "unat i - unat (freeinode st) < length cs" using True i(1) f(1) by (auto simp: word_le_nat_alt word_less_nat_alt)
    ultimately show ?thesis by (simp add: nth_append)
  next
    case False
    then have "freeinode st' \<le> i" by simp
    then have "d_type (inode_at st'' i) = T_FILE \<and> d_nlink (inode_at st'' i) = 1 \<and> content st'' i = cs' ! (unat i - unat (freeinode st'))"
      using 2 i(2) unfolding added_def by blast
    moreover have "unat i - unat (freeinode st) = length cs + (unat i - unat (freeinode st'))" using False f(1) by (auto simp: word_le_nat_alt word_less_nat_alt)
    ultimately show ?thesis by (simp add: nth_append)
  qed
  moreover have "inode_at st'' j = inode_at st j \<and> content st'' j = content st j" if "1 < j" "j < freeinode st" for j
    using 1 2 that le(1) unfolding added_def by auto
  ultimately show ?thesis using 1 2 f unfolding added_def by (simp add: add.assoc)
qed

lemma length_mkdirent [simp]: "length (mkdirent i name) = 16"
proof -
  have "length (cstr_take t n) \<le> n" for t n by (simp add: length_cstr_take)
  then show ?thesis by (simp add: mkdirent_def strncpy_eq)
qed

lemma add_file_adds:
  assumes inv: "mk_inv st" "1 < freeinode st" "freeinode st < 208"
    and a: "47 \<notin> set a" "opn a = Some ds"
    and len: "isize st 1 + 16 \<le> MAXFILE * BSIZE" "length (fdata ds) \<le> MAXFILE * BSIZE"
    and room: "unat (freeblock st) + nslots (nblk (isize st 1 + 16)) + nslots (nblk (length (fdata ds))) \<le> 1000 + nslots (nblk (isize st 1))"
  shows "\<exists>st'. add_file opn 1 a st = Inr ((), st') \<and> added st [fdata ds] (mkdirent (freeinode st) (strip a)) st'"
proof -
  let ?i = "freeinode st"
  have nz: "nblk 0 = 0" "nslots 0 = 0" by (simp_all add: nblk_def nslots_def)
  have i1: "(1 :: uint) \<le> 1" "1 \<le> ?i" "?i \<noteq> 1" using inv(2) by auto
  obtain s1 where 1: "mk_ialloc T_FILE st = Inr (?i, s1)" "mk_inv s1" "freeinode s1 = ?i + 1" "freeblock s1 = freeblock st"
      "d_type (inode_at s1 ?i) = T_FILE" "d_nlink (inode_at s1 ?i) = 1" "isize s1 ?i = 0" "content s1 ?i = []"
      "\<And>j. 1 \<le> j \<Longrightarrow> j < ?i \<Longrightarrow> inode_at s1 j = inode_at st j \<and> content s1 j = content st j" "img s1 1 = img st 1"
    using mk_ialloc_new [OF inv(1,3), of T_FILE] by blast
  have u: "unat (?i + 1) = unat ?i + 1" using inv(3) unat_add_lem [of ?i 1] by (simp add: word_less_nat_alt)
  have lt: "?i < freeinode s1" "1 < freeinode s1" using u inv(2) unfolding 1(3) by (simp_all add: word_less_nat_alt)
  have r1: "isize s1 1 = isize st 1" using 1(9) [OF i1(1) inv(2)] by (simp add: isize_def)
  have "\<exists>s2. iappend 1 (mkdirent ?i (strip a)) s1 = Inr ((), s2) \<and> grown s1 1 (mkdirent ?i (strip a)) s2"
    using len(1) room r1 1(4) by (intro iappend_appends [OF 1(2) i1(1) lt(2)]) simp_all
  then obtain s2 where 2: "iappend 1 (mkdirent ?i (strip a)) s1 = Inr ((), s2)" "grown s1 1 (mkdirent ?i (strip a)) s2" by blast
  then have g2: "mk_inv s2" "freeinode s2 = freeinode s1" "unat (freeblock s2) + nslots (nblk (isize st 1)) = unat (freeblock st) + nslots (nblk (isize st 1 + 16))"
      "\<And>j. 1 \<le> j \<Longrightarrow> j < freeinode s1 \<Longrightarrow> j \<noteq> 1 \<Longrightarrow> inode_at s2 j = inode_at s1 j \<and> content s2 j = content s1 j"
    using r1 1(4) unfolding grown_def by simp_all
  have i2: "inode_at s2 ?i = inode_at s1 ?i" "content s2 ?i = []" "isize s2 ?i = 0" using g2(4) [OF i1(2) lt(1) i1(3)] 1(7,8) by (simp_all add: isize_def)
  have "\<exists>s3. append_reads ?i ds s2 = Inr ((), s3) \<and> grown s2 ?i (fdata ds) s3"
    using len(2) room i2(3) g2(2,3) lt(1) nz by (intro append_reads_grows [OF g2(1) i1(2)]) simp_all
  then obtain s3 where 3: "append_reads ?i ds s2 = Inr ((), s3)" "grown s2 ?i (fdata ds) s3" by blast
  have run: "add_file opn 1 a st = Inr ((), s3)" using a 1(1) 2(1) 3(1) by (simp add: add_file_def strip_def)
  have g3: "mk_inv s3" "freeinode s3 = freeinode s1" "unat (freeblock s3) = unat (freeblock s2) + nslots (nblk (length (fdata ds)))"
      "d_type (inode_at s3 ?i) = T_FILE" "d_nlink (inode_at s3 ?i) = 1" "content s3 ?i = fdata ds"
      "\<And>j. 1 \<le> j \<Longrightarrow> j < freeinode s1 \<Longrightarrow> j \<noteq> ?i \<Longrightarrow> inode_at s3 j = inode_at s2 j \<and> content s3 j = content s2 j" "img s3 1 = img s2 1"
    using 3(2) i2 g2(2) 1(5,6) nz unfolding grown_def by auto
  have root: "inode_at s3 1 = inode_at s2 1" "content s3 1 = content s2 1" using g3(7) [OF i1(1) lt(2)] i1(3) by simp_all
  have root2: "isize s2 1 = isize st 1 + 16" "content s2 1 = content st 1 @ mkdirent ?i (strip a)" "img s2 1 = img st 1"
      "\<exists>as n. inode_at s2 1 = (inode_at st 1)\<lparr>d_addrs := as, d_size := n\<rparr>"
    using 2(2) r1 1(9) [OF i1(1) inv(2)] 1(10) unfolding grown_def by auto
  have eq: "i = ?i" if "?i \<le> i" "i < freeinode s3" for i
    using that u unfolding g3(2) 1(3) by (simp add: word_le_nat_alt word_less_nat_alt word_unat_eq_iff)
  have old: "inode_at s3 j = inode_at st j \<and> content s3 j = content st j" if j: "1 < j" "j < ?i" for j
  proof -
    have j': "1 \<le> j" "j < freeinode s1" "j \<noteq> ?i" "j \<noteq> 1" using j lt(1) by auto
    show ?thesis using g3(7) [OF j'(1-3)] g2(4) [OF j'(1,2,4)] 1(9) [OF j'(1) j(2)] by simp
  qed
  have new: "d_type (inode_at s3 i) = T_FILE \<and> d_nlink (inode_at s3 i) = 1 \<and> content s3 i = [fdata ds] ! (unat i - unat ?i)"
    if "?i \<le> i" "i < freeinode s3" for i using eq [OF that] g3(4-6) by simp
  have "isize s3 1 = isize st 1 + 16" using root(1) root2(1) by (simp add: isize_def)
  moreover have "unat (freeinode s3) = unat ?i + 1" unfolding g3(2) 1(3) by (rule u)
  ultimately have "added st [fdata ds] (mkdirent ?i (strip a)) s3"
    unfolding added_def using g3(1,3,8) g2(3) root root2 new old by simp
  then show ?thesis using run by blast
qed

fun dirents :: "nat \<Rightarrow> byte list list \<Rightarrow> byte list" where
  "dirents i [] = []"
| "dirents i (a # as) = mkdirent (of_nat i) (strip a) @ dirents (Suc i) as"

definition contents :: "(byte list \<Rightarrow> byte list list option) \<Rightarrow> byte list list \<Rightarrow> byte list list" where
  "contents opn as = map (\<lambda>a. fdata (the (opn a))) as"

text \<open>The host has the files, and they are small enough.\<close>

definition args_ok :: "(byte list \<Rightarrow> byte list list option) \<Rightarrow> byte list list \<Rightarrow> bool" where
  "args_ok opn as \<longleftrightarrow> list_all (\<lambda>a. 47 \<notin> set a \<and> opn a \<noteq> None \<and> length (fdata (the (opn a))) \<le> MAXFILE * BSIZE) as"

lemma length_dirents [simp]: "length (dirents i as) = 16 * length as"
  by (induction i as rule: dirents.induct) simp_all

lemma add_files_adds:
  assumes "mk_inv st" "1 < freeinode st" "unat (freeinode st) + length as \<le> 208" "args_ok opn as"
    and "isize st 1 + 16 * length as \<le> MAXFILE * BSIZE"
    and "unat (freeblock st) + nslots (nblk (isize st 1 + 16 * length as)) + (\<Sum>c \<leftarrow> contents opn as. nslots (nblk (length c)))
      \<le> 1000 + nslots (nblk (isize st 1))"
  shows "\<exists>st'. add_files opn 1 as st = Inr ((), st') \<and> added st (contents opn as) (dirents (unat (freeinode st)) as) st'"
  using assms
proof (induction as arbitrary: st)
  case Nil
  then show ?case using added_Nil by (auto simp: contents_def mret_def)
next
  case (Cons a as)
  obtain ds where a: "47 \<notin> set a" "opn a = Some ds" "length (fdata ds) \<le> MAXFILE * BSIZE" "args_ok opn as"
    using Cons.prems(4) by (auto simp: args_ok_def)
  have c: "contents opn (a # as) = fdata ds # contents opn as" using a(2) by (simp add: contents_def)
  have "nslots (nblk (isize st 1 + 16)) \<le> nslots (nblk (isize st 1 + 16 * length (a # as)))" by (intro nslots_mono nblk_mono) simp
  then have room: "unat (freeblock st) + nslots (nblk (isize st 1 + 16)) + nslots (nblk (length (fdata ds))) \<le> 1000 + nslots (nblk (isize st 1))"
    using Cons.prems(6) unfolding c by simp
  have len: "isize st 1 + 16 \<le> MAXFILE * BSIZE" "freeinode st < 208" using Cons.prems(3,5) by (simp_all add: word_less_nat_alt)
  obtain s1 where 1: "add_file opn 1 a st = Inr ((), s1)" "added st [fdata ds] (mkdirent (freeinode st) (strip a)) s1"
    using add_file_adds [of st a opn ds, OF Cons.prems(1,2) len(2) a(1,2) len(1) a(3) room] by blast
  then have s1: "mk_inv s1" "unat (freeinode s1) = Suc (unat (freeinode st))" "isize s1 1 = isize st 1 + 16"
      "unat (freeblock s1) + nslots (nblk (isize st 1)) = unat (freeblock st) + nslots (nblk (isize st 1 + 16)) + nslots (nblk (length (fdata ds)))"
    unfolding added_def by simp_all
  have f1: "1 < freeinode s1" using s1(2) Cons.prems(2) by (simp add: word_less_nat_alt)
  have "\<exists>s2. add_files opn 1 as s1 = Inr ((), s2) \<and> added s1 (contents opn as) (dirents (unat (freeinode s1)) as) s2"
    using Cons.prems(3,5,6) s1 f1 a(4) unfolding c by (intro Cons.IH) (simp_all add: add.assoc)
  then obtain s2 where 2: "add_files opn 1 as s1 = Inr ((), s2)" "added s1 (contents opn as) (dirents (unat (freeinode s1)) as) s2" by blast
  have "added st (contents opn (a # as)) (dirents (unat (freeinode st)) (a # as)) s2"
    using added_append [OF 1(2) 2(2) Cons.prems(2)] c s1(2) by simp
  then show ?case using 1(1) 2(1) by auto
qed

lemma zero_image_ok:
  assumes "n \<le> 1000" "img st = (\<lambda>_. zero_sect)"
  shows "zero_image n st = Inr ((), st\<lparr>nsect := max (nsect st) n\<rparr>)"
  using assms(1)
proof (induction n)
  case 0
  show ?case by (cases st) (simp add: mret_def)
next
  case (Suc n)
  have "sector (of_nat n) = of_nat n" "unat (of_nat n :: uint) = n"
    using Suc.prems sector_id [of "of_nat n"] by (simp_all add: word_less_nat_alt unat_of_nat)
  then show ?case using Suc assms(2) by (cases st) (auto simp: wsect_def fun_upd_idem_iff max_def)
qed

section \<open>The image that mkfs makes\<close>

lemma bmap_bit_iff: "bmap_bit d i \<longleftrightarrow> bit (d ! (i div 8)) (i mod 8)"
  by (simp add: bmap_bit_def bit_iff_and_push_bit_not_eq_0)

lemma bmap_bit_set: "j div 8 < length d \<Longrightarrow> bmap_bit (bmap_set d i) j \<longleftrightarrow> i = j \<or> bmap_bit d j"
proof (cases "i div 8 = j div 8")
  case True
  assume "j div 8 < length d"
  then have "bmap_bit (bmap_set d i) j \<longleftrightarrow> i mod 8 = j mod 8 \<or> bmap_bit d j"
    using True by (simp add: bmap_bit_iff bmap_set_def bit_simps) (auto simp: bit_simps)
  moreover have "i mod 8 = j mod 8 \<longleftrightarrow> i = j" using True by (metis mult_div_mod_eq)
  ultimately show ?thesis by simp
qed (auto simp: bmap_bit_iff bmap_set_def)

lemma bitmap_of: "b < 4096 \<Longrightarrow> bmap_bit (foldl bmap_set (replicate BSIZE 0) [0..<n]) b \<longleftrightarrow> b < n"
proof (induction n)
  case (Suc n)
  have "length (foldl bmap_set (replicate BSIZE 0) xs) = BSIZE" for xs
    by (induction xs rule: rev_induct) (simp_all add: bmap_set_def)
  then show ?case using Suc by (auto simp: bmap_bit_set)
qed (simp add: bmap_bit_iff)

lemma superblock_roundtrip: "get_superblock (put_sb b) = b"
  by (simp add: get_superblock_def put_sb_def zero_sect_def get_put_other)

lemma IBLOCK_1 [simp]: "IBLOCK 1 mk_sb = 32"
  by (simp add: IBLOCK_def)

text \<open>The last writes, the size of the root directory and the bitmap, leave the files alone.\<close>

lemma last_writes:
  assumes inv: "mk_inv st" "1 < freeinode st"
    and v: "v = (img st)(32 := put_dinode (img st 32) 1 ((inode_at st 1)\<lparr>d_size := z\<rparr>), 58 := bm)"
  shows "get_dinode (v 32) 1 = (inode_at st 1)\<lparr>d_size := z\<rparr>" "v 1 = img st 1" "v 58 = bm"
    "\<And>j. 1 < j \<Longrightarrow> j < freeinode st \<Longrightarrow> get_dinode (v (IBLOCK j mk_sb)) (unat j mod 8) = inode_at st j"
    "\<And>j. 1 \<le> j \<Longrightarrow> j < freeinode st \<Longrightarrow> file_bytes v (dino_inode (inode_at st j)) 0 (isize st j) = content st j"
    "\<And>j. 1 \<le> j \<Longrightarrow> j < freeinode st \<Longrightarrow> file_wf v (freeblock st) {} (inode_at st j) (nblk (isize st j))"
    "\<And>j. 1 \<le> j \<Longrightarrow> j < freeinode st \<Longrightarrow> slot_addr v (inode_at st j) ` slots (nblk (isize st j)) = blocks st j"
proof -
  have wf: "file_wf (img st) (freeblock st) {} (inode_at st j) (nblk (isize st j))" if "1 \<le> j" "j < freeinode st" for j
    using inv(1) that by (simp add: mk_inv_def)
  have la: "length (d_addrs (inode_at st 1)) = NDIRECT + 1" using wf [OF order_refl inv(2)] by (simp add: file_wf_def)
  have len: "length (img st 32) = BSIZE" using inv(1) by (simp add: mk_inv_def sect_ok_def)
  show "get_dinode (v 32) 1 = (inode_at st 1)\<lparr>d_size := z\<rparr>" unfolding v using len la by (simp add: dinode_roundtrip)
  show "v 1 = img st 1" "v 58 = bm" by (simp_all add: v)
  show "get_dinode (v (IBLOCK j mk_sb)) (unat j mod 8) = inode_at st j" if j: "1 < j" "j < freeinode st" for j
  proof -
    have j8: "j < 208" by (rule inum_small [OF inv(1) j(2)])
    have n58: "IBLOCK j mk_sb \<noteq> 58" using iblock(1) [OF j8] by auto
    show ?thesis
    proof (cases "IBLOCK j mk_sb = 32")
      case True
      then have "unat j mod 8 \<noteq> 1" using iblock(2) [OF j8, of 1] j(1) by auto
      then show ?thesis using True la dinode_other [of "unat j mod 8" 1 "(inode_at st 1)\<lparr>d_size := z\<rparr>" "img st 32"] by (simp add: v inode_at_def)
    qed (simp add: v n58 inode_at_def)
  qed
  have same: "v b = img st b" if "b \<in> blocks st j" "1 \<le> j" "j < freeinode st" for b j
  proof -
    have "59 \<le> b" using blocks_data [OF inv(1) that(2,3)] that(1) by auto
    then have "b \<noteq> 32" "b \<noteq> 58" by (auto simp: word_le_nat_alt)
    then show ?thesis by (simp add: v)
  qed
  fix j assume j: "1 \<le> j" "j < freeinode st"
  have "v b = img st b" if "b \<in> slot_addr (img st) (inode_at st j) ` slots (nblk (isize st j))" for b
    using same [OF _ j] that unfolding blocks_def by blast
  note ff = file_frame [OF wf [OF j] this order_refl]
  show "file_bytes v (dino_inode (inode_at st j)) 0 (isize st j) = content st j"
    using ff(3) nblk_bounds(3) [of "isize st j"] by (simp add: content_def file_bytes_def)
  show "file_wf v (freeblock st) {} (inode_at st j) (nblk (isize st j))" by (rule ff(2))
  show "slot_addr v (inode_at st j) ` slots (nblk (isize st j)) = blocks st j" unfolding blocks_def using ff(1) by (intro image_cong) simp_all
qed

text \<open>
  An image as the kernel sees it: the superblock; the root directory with the entries \<open>root\<close>, whose size is rounded up; the
  files \<open>cs\<close> with the inodes from 2 on; the bitmap of the first \<open>used\<close> blocks; every file has blocks of its own among those.
\<close>

definition dinode_in :: "(uint \<Rightarrow> byte list) \<Rightarrow> uint \<Rightarrow> dinode" where
  "dinode_in v i = get_dinode (v (IBLOCK i (get_superblock (v 1)))) (unat i mod 8)"

definition image_of :: "(uint \<Rightarrow> byte list) \<Rightarrow> uint \<Rightarrow> byte list \<Rightarrow> byte list list \<Rightarrow> bool" where
  "image_of v used root cs \<longleftrightarrow> get_superblock (v 1) = mk_sb \<and>
     (\<forall>b < 4096. bmap_bit (v (sb_bmapstart (get_superblock (v 1)))) b \<longleftrightarrow> b < unat used) \<and>
     d_type (dinode_in v 1) = T_DIR \<and> d_nlink (dinode_in v 1) = 1 \<and> unat (d_size (dinode_in v 1)) = (length root div BSIZE + 1) * BSIZE \<and>
     (\<forall>k < length cs. d_type (dinode_in v (of_nat (k + 2))) = T_FILE \<and> d_nlink (dinode_in v (of_nat (k + 2))) = 1 \<and>
        unat (d_size (dinode_in v (of_nat (k + 2)))) = length (cs ! k)) \<and>
     (let fs = root # cs in
      (\<forall>k < length fs. file_bytes v (dino_inode (dinode_in v (of_nat (k + 1)))) 0 (length (fs ! k)) = fs ! k \<and>
         file_wf v used {} (dinode_in v (of_nat (k + 1))) (nblk (length (fs ! k)))) \<and>
      (\<forall>k < length fs. \<forall>l < length fs. k \<noteq> l \<longrightarrow>
         slot_addr v (dinode_in v (of_nat (k + 1))) ` slots (nblk (length (fs ! k))) \<inter>
         slot_addr v (dinode_in v (of_nat (l + 1))) ` slots (nblk (length (fs ! l))) = {}))"

lemma tail_ok:
  assumes inv: "mk_inv st" "1 < freeinode st"
  shows "mseq (fix_root 1) (\<lambda>st. mk_balloc (sint (freeblock st)) st) st = Inr ((), st\<lparr>img :=
    (img st)(32 := put_dinode (img st 32) 1 ((inode_at st 1)\<lparr>d_size := (d_size (inode_at st 1) div 512 + 1) * 512\<rparr>),
      58 := foldl bmap_set (replicate BSIZE 0) [0..<unat (freeblock st)])\<rparr>)"
proof -
  have iv: "sect_ok st" "msb st = mk_sb" "freeblock st \<le> 1000" using inv(1) by (simp_all add: mk_inv_def)
  have u: "uint (freeblock st) \<le> 1000" using iv(3) by (simp add: word_le_def)
  moreover have "0 \<le> uint (freeblock st)" by simp
  then have "- (2 ^ 31) \<le> uint (freeblock st)" by (rule order_trans [rotated]) simp
  ultimately have s: "sint (freeblock st) = uint (freeblock st)"
    using signed_take_bit_int_eq_self [of 31 "uint (freeblock st)"] by (simp add: sint_uint)
  have len: "length (img st b) = BSIZE" for b using iv(1) by (simp add: sect_ok_def)
  let ?d = "put_dinode (img st 32) 1 ((inode_at st 1)\<lparr>d_size := (d_size (inode_at st 1) div 512 + 1) * 512\<rparr>)"
  have "fix_root 1 st = Inr ((), st\<lparr>img := (img st)(32 := ?d)\<rparr>)"
    using iv by (simp add: fix_root_def rinode_ok winode_ok Let_def)
  moreover have "sect_ok (st\<lparr>img := (img st)(32 := ?d)\<rparr>)" using iv(1) len by simp
  ultimately show ?thesis using s iv u by (simp add: mk_balloc_def wsect_ok)
qed

lemma mk_inv_start:
  assumes "sect_ok st" "msb st = mk_sb" "freeinode st = 1" "freeblock st = 59" "\<And>b. 59 \<le> b \<Longrightarrow> b < 1000 \<Longrightarrow> img st b = zero_sect"
  shows "mk_inv st"
proof -
  have "\<not> i < 1" if "1 \<le> i" for i :: uint using that by (auto simp: word_le_nat_alt word_less_nat_alt)
  then show ?thesis using assms by (auto simp: mk_inv_def fresh_zero_def)
qed

text \<open>The image before the files: the superblock, and the root directory with its first two entries.\<close>

definition dots :: "byte list" where
  "dots = mkdirent 1 [46] @ mkdirent 1 [46, 46]"

lemma head_ok:
  "\<exists>st. mseq (zero_image 1000) (mseq (wsect 1 (put_sb mk_sb)) (mbind (mk_ialloc T_DIR) (\<lambda>rootino.
      if rootino \<noteq> ROOTINO then mfail (MkAssert ''rootino == ROOTINO'') else
      mseq (iappend rootino (mkdirent rootino [46])) (mseq (iappend rootino (mkdirent rootino [46, 46])) (k rootino))))) mk_start = k 1 st \<and>
    mk_inv st \<and> freeinode st = 2 \<and> freeblock st = 60 \<and> isize st 1 = 32 \<and> content st 1 = dots \<and>
    d_type (inode_at st 1) = T_DIR \<and> d_nlink (inode_at st 1) = 1 \<and> img st 1 = put_sb mk_sb"
proof -
  let ?s0 = "mk_start\<lparr>nsect := 1000\<rparr>"
  let ?s1 = "?s0\<lparr>img := (img ?s0)(1 := put_sb mk_sb)\<rparr>"
  have lz: "length zero_sect = BSIZE" by (simp add: zero_sect_def)
  have 0: "zero_image 1000 mk_start = Inr ((), ?s0)" using zero_image_ok [of 1000 mk_start] by (simp add: mk_start_def)
  have so: "sect_ok ?s0" by (simp add: sect_ok_def mk_start_def lz)
  then have 1: "wsect 1 (put_sb mk_sb) ?s0 = Inr ((), ?s1)" by (simp add: wsect_ok)
  have i1: "mk_inv ?s1"
  proof (rule mk_inv_start)
    show "sect_ok ?s1" using so lz by (intro sect_ok_upd(1)) (simp_all add: put_sb_def)
    show "img ?s1 b = zero_sect" if "59 \<le> b" for b using that by (auto simp: mk_start_def word_le_nat_alt)
  qed (simp_all add: mk_start_def)
  have f1: "freeinode ?s1 = 1" "freeblock ?s1 = 59" by (simp_all add: mk_start_def)
  obtain s2 where 2: "mk_ialloc T_DIR ?s1 = Inr (1, s2)" "mk_inv s2" "freeinode s2 = 2" "freeblock s2 = 59" "d_type (inode_at s2 1) = T_DIR"
      "d_nlink (inode_at s2 1) = 1" "isize s2 1 = 0" "content s2 1 = []" "img s2 1 = img ?s1 1"
    using mk_ialloc_new [OF i1, of T_DIR] unfolding f1 by auto
  have nb: "nblk 0 = 0" "nblk 16 = 1" "nblk 32 = 1" "nslots 0 = 0" "nslots (Suc 0) = 1" by (simp_all add: nblk_def nslots_def)
  have "\<exists>s3. iappend 1 (mkdirent 1 [46]) s2 = Inr ((), s3) \<and> grown s2 1 (mkdirent 1 [46]) s3"
    using 2 nb by (intro iappend_appends) simp_all
  then obtain s3 where 3: "iappend 1 (mkdirent 1 [46]) s2 = Inr ((), s3)" "grown s2 1 (mkdirent 1 [46]) s3" by blast
  then have g3: "mk_inv s3" "freeinode s3 = 2" "isize s3 1 = 16" "unat (freeblock s3) = 60" using 2 nb unfolding grown_def by simp_all
  have "\<exists>s4. iappend 1 (mkdirent 1 [46, 46]) s3 = Inr ((), s4) \<and> grown s3 1 (mkdirent 1 [46, 46]) s4"
    using g3 nb by (intro iappend_appends) simp_all
  then obtain s4 where 4: "iappend 1 (mkdirent 1 [46, 46]) s3 = Inr ((), s4)" "grown s3 1 (mkdirent 1 [46, 46]) s4" by blast
  have "grown s2 1 dots s4" unfolding dots_def by (rule grown_append [OF 3(2) 4(2)])
  then have "mk_inv s4" "freeinode s4 = 2" "unat (freeblock s4) = 60" "isize s4 1 = 32" "content s4 1 = dots" "img s4 1 = put_sb mk_sb"
      "\<exists>as n. inode_at s4 1 = (inode_at s2 1)\<lparr>d_addrs := as, d_size := n\<rparr>"
    using 2 nb unfolding grown_def by (simp_all add: dots_def)
  moreover have "freeblock s4 = 60" using calculation(3) by (simp add: word_unat_eq_iff)
  ultimately show ?thesis using 0 1 2 3(1) 4(1) by (intro exI [of _ s4]) auto
qed

lemma d_size_only [simp]: "slot_addr v (d\<lparr>d_size := z\<rparr>) = slot_addr v d" "file_wf v fb F (d\<lparr>d_size := z\<rparr>) n = file_wf v fb F d n"
  "file_bytes v (dino_inode (d\<lparr>d_size := z\<rparr>)) = file_bytes v (dino_inode d)"
proof -
  show s: "slot_addr v (d\<lparr>d_size := z\<rparr>) = slot_addr v d" by (simp add: slot_addr_def baddr_def fun_eq_iff)
  show "file_wf v fb F (d\<lparr>d_size := z\<rparr>) n = file_wf v fb F d n" unfolding file_wf_def s by simp
  show "file_bytes v (dino_inode (d\<lparr>d_size := z\<rparr>)) = file_bytes v (dino_inode d)"
    by (simp add: file_bytes_def file_byte_def baddr_def fun_eq_iff)
qed

lemma length_content: "length (content st i) = isize st i"
  by (simp add: content_def file_bytes_def)

lemma image_of_inv:
  assumes inv: "mk_inv st" and fi: "unat (freeinode st) = length cs + 2"
    and sb: "img st 1 = put_sb mk_sb"
    and root: "content st 1 = root" "isize st 1 = length root" "length root \<le> MAXFILE * BSIZE" "d_type (inode_at st 1) = T_DIR" "d_nlink (inode_at st 1) = 1"
    and files: "\<And>i. 2 \<le> i \<Longrightarrow> i < freeinode st \<Longrightarrow>
      d_type (inode_at st i) = T_FILE \<and> d_nlink (inode_at st i) = 1 \<and> content st i = cs ! (unat i - 2)"
    and v: "v = (img st)(32 := put_dinode (img st 32) 1 ((inode_at st 1)\<lparr>d_size := (d_size (inode_at st 1) div 512 + 1) * 512\<rparr>),
      58 := foldl bmap_set (replicate BSIZE 0) [0..<unat (freeblock st)])"
  shows "image_of v (freeblock st) root cs"
proof -
  have "1 < freeinode st" using fi by (simp add: word_less_nat_alt)
  note L = last_writes [OF inv this v]
  have sbv: "get_superblock (v 1) = mk_sb" using L(2) sb superblock_roundtrip by simp
  have fi8: "length cs + 2 \<le> 208" using inv fi by (simp add: mk_inv_def word_le_nat_alt)
  have u: "unat (of_nat (k + 1) :: uint) = k + 1" if "k \<le> length cs" for k
    using that fi8 by (intro of_nat_inverse) simp_all
  have rg: "1 \<le> (of_nat (k + 1) :: uint)" "(of_nat (k + 1) :: uint) < freeinode st" if "k \<le> length cs" for k
    using u [OF that] that fi by (simp_all add: word_le_nat_alt word_less_nat_alt del: of_nat_add of_nat_Suc)
  have d1: "dinode_in v 1 = (inode_at st 1)\<lparr>d_size := (d_size (inode_at st 1) div 512 + 1) * 512\<rparr>"
    using L(1) by (simp add: dinode_in_def sbv)
  have dk: "dinode_in v i = inode_at st i" if "1 < i" "i < freeinode st" for i using L(4) [OF that] by (simp add: dinode_in_def sbv)
  have sz: "unat (d_size (dinode_in v 1)) = (length root div BSIZE + 1) * BSIZE"
  proof -
    have "unat (d_size (inode_at st 1)) = length root" using root(2) by (simp add: isize_def)
    then have q: "unat (d_size (inode_at st 1) div 512) = length root div BSIZE" by (simp add: unat_div)
    have b: "length root div BSIZE \<le> MAXFILE" using div_le_mono [OF root(3), of BSIZE] by simp
    then have "unat (d_size (inode_at st 1) div 512 + 1) = length root div BSIZE + 1" using q unat_add_lem [of "d_size (inode_at st 1) div 512" 1] by simp
    then show ?thesis unfolding d1 using b unat_mult_lem [of "d_size (inode_at st 1) div 512 + 1" 512] by simp
  qed
  let ?i = "\<lambda>k. of_nat (k + 1) :: uint"
  have same: "slot_addr v (dinode_in v (?i k)) = slot_addr v (inode_at st (?i k))"
      "file_wf v fb F (dinode_in v (?i k)) n = file_wf v fb F (inode_at st (?i k)) n"
      "file_bytes v (dino_inode (dinode_in v (?i k))) = file_bytes v (dino_inode (inode_at st (?i k)))" if "k \<le> length cs" for k fb F n
  proof -
    have "dinode_in v (?i k) = inode_at st (?i k)" if "k \<noteq> 0"
    proof (rule dk)
      show "1 < ?i k" using that u [OF \<open>k \<le> length cs\<close>] by (simp add: word_less_nat_alt del: of_nat_add of_nat_Suc)
    qed (rule rg(2) [OF \<open>k \<le> length cs\<close>])
    then show "slot_addr v (dinode_in v (?i k)) = slot_addr v (inode_at st (?i k))"
      "file_wf v fb F (dinode_in v (?i k)) n = file_wf v fb F (inode_at st (?i k)) n"
      "file_bytes v (dino_inode (dinode_in v (?i k))) = file_bytes v (dino_inode (inode_at st (?i k)))"
      using d1 by (cases "k = 0"; simp)+
  qed
  have f2: "d_type (inode_at st (?i k)) = T_FILE \<and> d_nlink (inode_at st (?i k)) = 1 \<and> content st (?i k) = cs ! (k - 1)" if k: "0 < k" "k \<le> length cs" for k
  proof -
    have "2 \<le> ?i k" using k u [OF k(2)] by (simp add: word_le_nat_alt del: of_nat_add of_nat_Suc)
    then show ?thesis using files [OF _ rg(2) [OF k(2)]] u [OF k(2)] by simp
  qed
  have fs: "content st (?i k) = (root # cs) ! k" "isize st (?i k) = length ((root # cs) ! k)" if "k \<le> length cs" for k
  proof -
    show "content st (?i k) = (root # cs) ! k" using f2 [of k] that root(1) by (cases k) auto
    then show "isize st (?i k) = length ((root # cs) ! k)" using length_content [of st "?i k"] by simp
  qed
  have a: "file_bytes v (dino_inode (dinode_in v (?i k))) 0 (length ((root # cs) ! k)) = (root # cs) ! k \<and>
      file_wf v (freeblock st) {} (dinode_in v (?i k)) (nblk (length ((root # cs) ! k)))" if "k \<le> length cs" for k
    using L(5,6) [OF rg [OF that]] same [OF that] fs [OF that] by simp
  have b: "slot_addr v (dinode_in v (?i k)) ` slots (nblk (length ((root # cs) ! k))) \<inter>
      slot_addr v (dinode_in v (?i l)) ` slots (nblk (length ((root # cs) ! l))) = {}" if "k \<le> length cs" "l \<le> length cs" "k \<noteq> l" for k l
  proof -
    have "?i k \<noteq> ?i l"
    proof
      assume "?i k = ?i l"
      then have "unat (?i k) = unat (?i l)" by (rule arg_cong)
      then show False unfolding u [OF that(1)] u [OF that(2)] using that(3) by simp
    qed
    then have "blocks st (?i k) \<inter> blocks st (?i l) = {}" using inv rg [OF that(1)] rg [OF that(2)] unfolding mk_inv_def by blast
    then show ?thesis using L(7) [OF rg [OF that(1)]] L(7) [OF rg [OF that(2)]] same(1) [OF that(1)] same(1) [OF that(2)] fs(2) [OF that(1)] fs(2) [OF that(2)] by simp
  qed
  have c: "d_type (dinode_in v (of_nat (k + 2))) = T_FILE \<and> d_nlink (dinode_in v (of_nat (k + 2))) = 1 \<and>
      unat (d_size (dinode_in v (of_nat (k + 2)))) = length (cs ! k)" if "k < length cs" for k
  proof -
    have k: "0 < Suc k" "Suc k \<le> length cs" and e: "of_nat (k + 2) = ?i (Suc k)" using that by simp_all
    have "1 < ?i (Suc k)" using u [OF k(2)] by (simp add: word_less_nat_alt del: of_nat_add of_nat_Suc)
    then have "dinode_in v (of_nat (k + 2)) = inode_at st (?i (Suc k))" unfolding e by (rule dk [OF _ rg(2) [OF k(2)]])
    then show ?thesis using f2 [OF k] fs(2) [OF k(2)] by (simp add: isize_def)
  qed
  have bm: "\<forall>b < 4096. bmap_bit (v 58) b \<longleftrightarrow> b < unat (freeblock st)" unfolding L(3) using bitmap_of by blast
  show ?thesis unfolding image_of_def Let_def sbv using sbv bm sz root(4,5) d1 a b c by (simp add: less_Suc_eq_le)
qed

text \<open>
  C9: mkfs makes the file system it is asked for.  When the host has the files, there are at most 206 of
  them, none is longer than a file can be, and all blocks fit, mkfs succeeds; the image has the
  superblock, the root directory with \<^verbatim>\<open>.\<close>, \<^verbatim>\<open>..\<close> and an entry for each file, without the leading underscore,
  every file with exactly its bytes in an inode of its own, no block used twice, and a bitmap in which
  exactly the used blocks are marked.
\<close>

theorem mkfs_image:
  assumes "2 \<le> length argv" "creat (argv ! 1)" "args_ok opn (drop 2 argv)" "length (drop 2 argv) \<le> 206"
    and "59 + nslots (nblk (32 + 16 * length (drop 2 argv))) + (\<Sum>c \<leftarrow> contents opn (drop 2 argv). nslots (nblk (length c))) \<le> 1000"
  shows "\<exists>st. mkfs_main creat opn argv = Inr ((), st) \<and> nsect st = 1000 \<and>
    unat (freeblock st) = 59 + nslots (nblk (32 + 16 * length (drop 2 argv))) + (\<Sum>c \<leftarrow> contents opn (drop 2 argv). nslots (nblk (length c))) \<and>
    image_of (img st) (freeblock st) (mkdirent 1 [46] @ mkdirent 1 [46, 46] @ dirents 2 (drop 2 argv)) (contents opn (drop 2 argv))"
proof -
  define as where "as = drop 2 argv"
  let ?k = "\<lambda>r. mseq (add_files opn r as) (mseq (fix_root r) (\<lambda>st. mk_balloc (sint (freeblock st)) st))"
  obtain s1 where 1: "mkfs_main creat opn argv = ?k 1 s1" "mk_inv s1" "freeinode s1 = 2" "freeblock s1 = 60" "isize s1 1 = 32" "content s1 1 = dots"
      "d_type (inode_at s1 1) = T_DIR" "d_nlink (inode_at s1 1) = 1" "img s1 1 = put_sb mk_sb"
    using head_ok [of ?k] assms(1,2) unfolding mkfs_main_def as_def [symmetric] by auto
  have nb: "nslots (nblk 32) = 1" by (simp add: nblk_def nslots_def)
  have "\<exists>s2. add_files opn 1 as s1 = Inr ((), s2) \<and> added s1 (contents opn as) (dirents (unat (freeinode s1)) as) s2"
    using assms(3-5) 1(2-5) nb unfolding as_def [symmetric] by (intro add_files_adds) simp_all
  then obtain s2 where 2: "add_files opn 1 as s1 = Inr ((), s2)" "added s1 (contents opn as) (dirents 2 as) s2" using 1(3) by auto
  then have g: "mk_inv s2" "unat (freeinode s2) = length (contents opn as) + 2" "isize s2 1 = 32 + 16 * length as" "content s2 1 = dots @ dirents 2 as"
      "unat (freeblock s2) = 59 + nslots (nblk (32 + 16 * length as)) + (\<Sum>c \<leftarrow> contents opn as. nslots (nblk (length c)))"
      "\<exists>as n. inode_at s2 1 = (inode_at s1 1)\<lparr>d_addrs := as, d_size := n\<rparr>" "img s2 1 = put_sb mk_sb"
      "\<And>i. 2 \<le> i \<Longrightarrow> i < freeinode s2 \<Longrightarrow> d_type (inode_at s2 i) = T_FILE \<and> d_nlink (inode_at s2 i) = 1 \<and> content s2 i = contents opn as ! (unat i - 2)"
    using 1 nb unfolding added_def by simp_all
  have f: "1 < freeinode s2" using g(2) by (simp add: word_less_nat_alt)
  let ?v = "(img s2)(32 := put_dinode (img s2 32) 1 ((inode_at s2 1)\<lparr>d_size := (d_size (inode_at s2 1) div 512 + 1) * 512\<rparr>),
      58 := foldl bmap_set (replicate BSIZE 0) [0..<unat (freeblock s2)])"
  have run: "mkfs_main creat opn argv = Inr ((), s2\<lparr>img := ?v\<rparr>)"
    unfolding 1(1) using 2(1) tail_ok [OF g(1) f] by simp
  have "image_of ?v (freeblock s2) (dots @ dirents 2 as) (contents opn as)"
  proof (rule image_of_inv [OF g(1,2,7,4) _ _ _ _ g(8) refl])
    show "isize s2 1 = length (dots @ dirents 2 as)" "length (dots @ dirents 2 as) \<le> MAXFILE * BSIZE"
      using g(3) assms(4) as_def by (simp_all add: dots_def)
    show "d_type (inode_at s2 1) = T_DIR" "d_nlink (inode_at s2 1) = 1" using g(6) 1(7,8) by auto
  qed
  moreover have "nsect s2 = 1000" using g(1) by (simp add: mk_inv_def sect_ok_def)
  ultimately show ?thesis using run g(5) unfolding as_def dots_def by (intro exI [of _ "s2\<lparr>img := ?v\<rparr>"]) simp
qed

theorem mkfs_image_witness:
  "\<exists>st. mkfs_main (\<lambda>_. True) (\<lambda>_. Some [[1, 2], [3]]) [[109], [105], [95, 97]] = Inr ((), st) \<and> freeblock st = 61 \<and>
     image_of (img st) (freeblock st) (mkdirent 1 [46] @ mkdirent 1 [46, 46] @ mkdirent 2 [97]) [[1, 2, 3]]"
proof -
  let ?opn = "\<lambda>_ :: byte list. Some [[1, 2], [3]] :: byte list list option" and ?argv = "[[109], [105], [95, 97]] :: byte list list"
  have c: "contents ?opn (drop 2 ?argv) = [[1, 2, 3]]" "dirents 2 (drop 2 ?argv) = mkdirent 2 [97]"
    by (simp_all add: contents_def fdata_def strip_def)
  have n: "nslots (nblk (32 + 16 * length (drop 2 ?argv))) = 1" "nslots (nblk (Suc (Suc (Suc 0)))) = 1" by (simp_all add: nblk_def nslots_def)
  have ok: "args_ok ?opn (drop 2 ?argv)" by (simp add: args_ok_def fdata_def)
  show ?thesis
    using mkfs_image [of ?argv "\<lambda>_. True" ?opn] ok unfolding c n by (auto simp: n word_unat_eq_iff)
qed

text \<open>
  Nothing stops mkfs at the number of inodes in the superblock: inode 208 is in the block of the bitmap, which the
  last step of mkfs overwrites.  And a root directory that fills its blocks is given the size of one more block than it has.
\<close>

lemma mkfs_inode_limit: "IBLOCK 208 mk_sb = sb_bmapstart mk_sb" "sb_ninodes mk_sb < 208"
  by (simp_all add: IBLOCK_def)

lemma mkfs_root_overrun: "nblk (32 + 16 * 30) * BSIZE < ((32 + 16 * 30) div BSIZE + 1) * BSIZE"
  by (simp add: nblk_def)

end
