(* ===== verification/Sh.thy ===== *)
theory Sh
  imports Ulib
begin

text \<open>
  The shell, sh.c.  The line is an array of bytes and pointers into it are indices; the parser
  carries the position that \<^verbatim>\<open>*ps\<close> holds.  A node of the parsed command keeps the start and the end of its
  strings, as the code does, and nulterminate then ends them in the line.  The recursive descent takes fuel, and None means that
  it ran out; the lemmas below say that the fuel that parsecmd starts with is enough.  What runcmd does is a tree of system calls with
  what follows each result, and fork is a node with the child, the parent and the failure.  malloc gives the nodes
  and is taken to succeed.
\<close>

section \<open>Commands\<close>

text \<open>The strings of a command are pairs of indices; the type is an argument, so that the same trees can hold the strings themselves.\<close>

datatype 's cmd =
    EXEC "'s list"
  | REDIR "'s cmd" 's int int
  | PIPE "'s cmd" "'s cmd"
  | LIST "'s cmd" "'s cmd"
  | BACK "'s cmd"

type_synonym range = "nat \<times> nat"

abbreviation (input) "MAXARGS \<equiv> 10 :: nat"
abbreviation (input) "O_RDONLY \<equiv> 0 :: int"
abbreviation (input) "O_WRONLY_CREATE \<equiv> 0x201 :: int"

text \<open>panic prints its message and exits; before the panic of parsecmd the rest of the line is printed.\<close>

datatype sherr = ShPanic string | ShLeftovers nat

type_synonym 'a pres = "(sherr + 'a) option"

definition pret :: "'a \<Rightarrow> 'a pres" where
  "pret x = Some (Inr x)"

definition pfail :: "string \<Rightarrow> 'a pres" where
  "pfail e = Some (Inl (ShPanic e))"

definition pbind :: "'a pres \<Rightarrow> ('a \<Rightarrow> 'b pres) \<Rightarrow> 'b pres" where
  "pbind m k = (case m of None \<Rightarrow> None | Some (Inl e) \<Rightarrow> Some (Inl e) | Some (Inr x) \<Rightarrow> k x)"

section \<open>Tokens\<close>

definition whitespace :: "byte list" where
  "whitespace = [32, 9, 13, 10, 11]"

definition symbols :: "byte list" where
  "symbols = [60, 124, 62, 38, 59, 40, 41]"

definition at :: "byte list \<Rightarrow> nat \<Rightarrow> byte" where
  "at buf s = (if s < length buf then buf ! s else 0)"

function skip_space :: "byte list \<Rightarrow> nat \<Rightarrow> nat \<Rightarrow> nat" where
  "skip_space buf es s = (if s < es \<and> strchr whitespace (at buf s) \<noteq> None then skip_space buf es (Suc s) else s)"
  by pat_completeness auto
termination
  by (relation "measure (\<lambda>(buf, es, s). es - s)") auto

function skip_word :: "byte list \<Rightarrow> nat \<Rightarrow> nat \<Rightarrow> nat" where
  "skip_word buf es s =
     (if s < es \<and> strchr whitespace (at buf s) = None \<and> strchr symbols (at buf s) = None then skip_word buf es (Suc s) else s)"
  by pat_completeness auto
termination
  by (relation "measure (\<lambda>(buf, es, s). es - s)") auto

declare skip_space.simps [simp del] skip_word.simps [simp del]

text \<open>The token, where it starts and ends, and the new position.\<close>

definition gettoken :: "byte list \<Rightarrow> nat \<Rightarrow> nat \<Rightarrow> byte \<times> nat \<times> nat \<times> nat" where
  "gettoken buf es ps =
     (let q = skip_space buf es ps; c = at buf q;
          (ret, eq) =
            (if c = 0 then (c, q)
             else if c \<in> {124, 40, 41, 59, 38, 60} then (c, Suc q)
             else if c = 62 then (if at buf (Suc q) = 62 then (43, Suc (Suc q)) else (c, Suc q))
             else (97, skip_word buf es q))
      in (ret, q, eq, skip_space buf es eq))"

definition peek :: "byte list \<Rightarrow> nat \<Rightarrow> nat \<Rightarrow> byte list \<Rightarrow> bool \<times> nat" where
  "peek buf es ps toks = (let s = skip_space buf es ps in (at buf s \<noteq> 0 \<and> strchr toks (at buf s) \<noteq> None, s))"

section \<open>The parser\<close>

definition redir_tok :: "'s cmd \<Rightarrow> byte \<Rightarrow> 's \<Rightarrow> 's cmd" where
  "redir_tok cmd tok file = (if tok = 60 then REDIR cmd file O_RDONLY 0 else if tok = 62 \<or> tok = 43 then REDIR cmd file O_WRONLY_CREATE 1 else cmd)"

text \<open>
  parseexec fills the node that execcmd made while the redirections it meets are wrapped around that node: the model collects the redirections
  and wraps them at the end.
\<close>

primrec parseredirs :: "nat \<Rightarrow> byte list \<Rightarrow> nat \<Rightarrow> (byte \<times> range) list \<Rightarrow> nat \<Rightarrow> ((byte \<times> range) list \<times> nat) pres" where
  "parseredirs 0 buf es rs ps = None"
| "parseredirs (Suc n) buf es rs ps =
     (let (r, ps) = peek buf es ps [60, 62] in
      if \<not> r then pret (rs, ps) else
      let (tok, _, _, ps) = gettoken buf es ps; (t, q, eq, ps) = gettoken buf es ps in
      if t \<noteq> 97 then pfail ''missing file for redirection''
      else parseredirs n buf es (rs @ [(tok, q, eq)]) ps)"

definition wrap :: "'s cmd \<Rightarrow> (byte \<times> 's) list \<Rightarrow> 's cmd" where
  "wrap cmd rs = foldl (\<lambda>c (tok, f). redir_tok c tok f) cmd rs"

primrec parseexec_loop :: "nat \<Rightarrow> byte list \<Rightarrow> nat \<Rightarrow> range list \<Rightarrow> (byte \<times> range) list \<Rightarrow> nat \<Rightarrow> (range cmd \<times> nat) pres" where
  "parseexec_loop 0 buf es argv rs ps = None"
| "parseexec_loop (Suc n) buf es argv rs ps =
     (let (r, ps) = peek buf es ps [124, 41, 38, 59] in
      if r then pret (wrap (EXEC argv) rs, ps) else
      let (tok, q, eq, ps) = gettoken buf es ps in
      if tok = 0 then pret (wrap (EXEC argv) rs, ps)
      else if tok \<noteq> 97 then pfail ''syntax''
      else if length argv + 1 \<ge> MAXARGS then pfail ''too many args''
      else pbind (parseredirs (Suc n) buf es rs ps) (\<lambda>(rs, ps). parseexec_loop n buf es (argv @ [(q, eq)]) rs ps))"

text \<open>The functions call each other in a circle; the parser of lines is an argument of those that it calls itself.\<close>

definition parseblock :: "nat \<Rightarrow> (nat \<Rightarrow> (range cmd \<times> nat) pres) \<Rightarrow> byte list \<Rightarrow> nat \<Rightarrow> nat \<Rightarrow> (range cmd \<times> nat) pres" where
  "parseblock n pline buf es ps =
     (let (r, ps) = peek buf es ps [40] in
      if \<not> r then pfail ''parseblock'' else
      let (_, _, _, ps) = gettoken buf es ps in
      pbind (pline ps) (\<lambda>(cmd, ps).
      let (r, ps) = peek buf es ps [41] in
      if \<not> r then pfail ''syntax - missing )'' else
      let (_, _, _, ps) = gettoken buf es ps in
      pbind (parseredirs n buf es [] ps) (\<lambda>(rs, ps). pret (wrap cmd rs, ps))))"

definition parseexec :: "nat \<Rightarrow> (nat \<Rightarrow> (range cmd \<times> nat) pres) \<Rightarrow> byte list \<Rightarrow> nat \<Rightarrow> nat \<Rightarrow> (range cmd \<times> nat) pres" where
  "parseexec n pline buf es ps =
     (let (r, ps) = peek buf es ps [40] in
      if r then parseblock n pline buf es ps else
      pbind (parseredirs n buf es [] ps) (\<lambda>(rs, ps). parseexec_loop n buf es [] rs ps))"

primrec parsepipe :: "nat \<Rightarrow> (nat \<Rightarrow> (range cmd \<times> nat) pres) \<Rightarrow> byte list \<Rightarrow> nat \<Rightarrow> nat \<Rightarrow> (range cmd \<times> nat) pres" where
  "parsepipe 0 pline buf es ps = None"
| "parsepipe (Suc n) pline buf es ps =
     pbind (parseexec (Suc n) pline buf es ps) (\<lambda>(cmd, ps).
     let (r, ps) = peek buf es ps [124] in
     if \<not> r then pret (cmd, ps) else
     let (_, _, _, ps) = gettoken buf es ps in
     pbind (parsepipe n pline buf es ps) (\<lambda>(right, ps). pret (PIPE cmd right, ps)))"

primrec back_loop :: "nat \<Rightarrow> byte list \<Rightarrow> nat \<Rightarrow> range cmd \<Rightarrow> nat \<Rightarrow> (range cmd \<times> nat) pres" where
  "back_loop 0 buf es cmd ps = None"
| "back_loop (Suc n) buf es cmd ps =
     (let (r, ps) = peek buf es ps [38] in
      if \<not> r then pret (cmd, ps) else
      let (_, _, _, ps) = gettoken buf es ps in back_loop n buf es (BACK cmd) ps)"

primrec parseline :: "nat \<Rightarrow> byte list \<Rightarrow> nat \<Rightarrow> nat \<Rightarrow> (range cmd \<times> nat) pres" where
  "parseline 0 buf es ps = None"
| "parseline (Suc n) buf es ps =
     pbind (parsepipe (Suc n) (parseline n buf es) buf es ps) (\<lambda>(cmd, ps).
     pbind (back_loop (Suc n) buf es cmd ps) (\<lambda>(cmd, ps).
     let (r, ps) = peek buf es ps [59] in
     if \<not> r then pret (cmd, ps) else
     let (_, _, _, ps) = gettoken buf es ps in
     pbind (parseline n buf es ps) (\<lambda>(right, ps). pret (LIST cmd right, ps))))"

fun nulterminate :: "range cmd \<Rightarrow> byte list \<Rightarrow> byte list" where
  "nulterminate (EXEC argv) buf = foldl (\<lambda>b (q, eq). b[eq := 0]) buf argv"
| "nulterminate (REDIR cmd (file, efile) mode fd) buf = (nulterminate cmd buf)[efile := 0]"
| "nulterminate (PIPE left right) buf = nulterminate right (nulterminate left buf)"
| "nulterminate (LIST left right) buf = nulterminate right (nulterminate left buf)"
| "nulterminate (BACK cmd) buf = nulterminate cmd buf"

text \<open>The command and the line with its strings ended.\<close>

definition parsecmd :: "byte list \<Rightarrow> (range cmd \<times> byte list) pres" where
  "parsecmd buf =
     (let es = strlen_u buf in
      pbind (parseline (es + 1) buf es 0) (\<lambda>(cmd, s).
      let (_, s) = peek buf es s [] in
      if s \<noteq> es then Some (Inl (ShLeftovers s)) else pret (cmd, nulterminate cmd buf)))"

section \<open>Running commands\<close>

datatype prog =
    PExit
  | PExec "byte list" "byte list list" prog
  | PClose int prog
  | POpen "byte list" int "int \<Rightarrow> prog"
  | PPipe prog "int \<Rightarrow> int \<Rightarrow> prog"
  | PDup int prog
  | PFork prog prog prog
  | PWait prog
  | PChdir "byte list" "int \<Rightarrow> prog"
  | PPrint int string "byte list list" prog

definition panic_sh :: "string \<Rightarrow> prog" where
  "panic_sh s = PPrint 2 (s @ ''\<newline>'') [] PExit"

definition fork1 :: "prog \<Rightarrow> prog \<Rightarrow> prog" where
  "fork1 child parent = PFork (panic_sh ''fork'') child parent"

text \<open>The string that starts at an index of the line.\<close>

definition str_at :: "byte list \<Rightarrow> nat \<Rightarrow> byte list" where
  "str_at buf q = cstring (drop q buf)"

fun runcmd :: "byte list \<Rightarrow> range cmd \<Rightarrow> prog" where
  "runcmd buf (EXEC argv) =
     (case argv of [] \<Rightarrow> PExit
      | (q, _) # _ \<Rightarrow> PExec (str_at buf q) (map (\<lambda>(q, _). str_at buf q) argv) (PPrint 2 ''exec %s failed\<newline>'' [str_at buf q] PExit))"
| "runcmd buf (REDIR cmd (file, _) mode fd) =
     PClose fd (POpen (str_at buf file) mode (\<lambda>r.
       if r < 0 then PPrint 2 ''open %s failed\<newline>'' [str_at buf file] PExit else runcmd buf cmd))"
| "runcmd buf (LIST left right) = fork1 (runcmd buf left) (PWait (runcmd buf right))"
| "runcmd buf (PIPE left right) =
     PPipe (panic_sh ''pipe'') (\<lambda>p0 p1.
       fork1 (PClose 1 (PDup p1 (PClose p0 (PClose p1 (runcmd buf left)))))
      (fork1 (PClose 0 (PDup p0 (PClose p0 (PClose p1 (runcmd buf right)))))
      (PClose p0 (PClose p1 (PWait (PWait PExit))))))"
| "runcmd buf (BACK cmd) = fork1 (runcmd buf cmd) PExit"

text \<open>The child of main: an error of the parser has printed its message and exits.\<close>

definition runline :: "byte list \<Rightarrow> prog option" where
  "runline buf =
     (case parsecmd buf of None \<Rightarrow> None
      | Some (Inl (ShPanic e)) \<Rightarrow> Some (panic_sh e)
      | Some (Inl (ShLeftovers s)) \<Rightarrow> Some (PPrint 2 ''leftovers: %s\<newline>'' [str_at buf s] (panic_sh ''syntax''))
      | Some (Inr (cmd, buf')) \<Rightarrow> Some (runcmd buf' cmd))"

text \<open>
  main over the lines that getcmd reads, each being what gets leaves in the cleared buffer; an empty one is the end of the input.
\<close>

fun sh_loop :: "byte list list \<Rightarrow> prog option" where
  "sh_loop [] = Some (PPrint 2 ''$ '' [] PExit)"
| "sh_loop (buf # ls) =
     (if at buf 0 = 0 then Some (PPrint 2 ''$ '' [] PExit)
      else if at buf 0 = 99 \<and> at buf 1 = 100 \<and> at buf 2 = 32 then
        let buf = buf[strlen_u buf - 1 := 0] in
        Option.bind (sh_loop ls) (\<lambda>next.
        Some (PPrint 2 ''$ '' [] (PChdir (str_at buf 3) (\<lambda>r.
          if r < 0 then PPrint 2 ''cannot cd %s\<newline>'' [str_at buf 3] next else next))))
      else
        Option.bind (runline buf) (\<lambda>child.
        Option.bind (sh_loop ls) (\<lambda>next.
        Some (PPrint 2 ''$ '' [] (fork1 child (PWait next))))))"

text \<open>The console is opened until three descriptors are in use; \<open>n\<close> bounds the number of descriptors.\<close>

fun open_console :: "nat \<Rightarrow> prog \<Rightarrow> prog" where
  "open_console 0 k = k"
| "open_console (Suc n) k = POpen [99, 111, 110, 115, 111, 108, 101] 2 (\<lambda>fd.
     if fd < 0 then k else if fd \<ge> 3 then PClose fd k else open_console n k)"

definition sh_main :: "byte list list \<Rightarrow> prog option" where
  "sh_main ls = map_option (open_console 16) (sh_loop ls)"

section \<open>The lexical level\<close>

text \<open>A line of \<open>es\<close> characters.\<close>

definition is_line :: "byte list \<Rightarrow> nat \<Rightarrow> bool" where
  "is_line buf es \<longleftrightarrow> es = strlen_u buf"

definition space :: "byte \<Rightarrow> bool" where
  "space c \<longleftrightarrow> c \<in> {32, 9, 13, 10, 11}"

definition symbol :: "byte \<Rightarrow> bool" where
  "symbol c \<longleftrightarrow> c \<in> {60, 124, 62, 38, 59, 40, 41}"

lemma strchr_space: "(strchr whitespace c = None) = (\<not> space c)"
  by (auto simp: strchr_None whitespace_def space_def cstring_def)

lemma strchr_symbol: "(strchr symbols c = None) = (\<not> symbol c)"
  by (auto simp: strchr_None symbols_def symbol_def cstring_def)

lemma at_line:
  assumes "is_line buf es"
  shows "i < es \<Longrightarrow> at buf i \<noteq> 0" "at buf es = 0" "es \<le> length buf"
proof -
  have e: "es = length (takeWhile (\<lambda>c. c \<noteq> 0) buf)" using assms by (simp add: is_line_def strlen_u_spec cstring_def)
  then show l: "es \<le> length buf" using length_takeWhile_le by metis
  show "at buf i \<noteq> 0" if "i < es"
    using that e l nth_mem [of i "takeWhile (\<lambda>c. c \<noteq> 0) buf"] by (auto simp: at_def takeWhile_nth dest!: set_takeWhileD)
  show "at buf es = 0"
  proof (cases "es < length buf")
    case True
    then show ?thesis using nth_length_takeWhile [of "\<lambda>c. c \<noteq> 0" buf] e by (simp add: at_def)
  qed (simp add: at_def)
qed

lemma skip_space_step:
  "s < es \<Longrightarrow> space (at buf s) \<Longrightarrow> skip_space buf es s = skip_space buf es (Suc s)"
  "\<not> (s < es \<and> space (at buf s)) \<Longrightarrow> skip_space buf es s = s"
  by (subst skip_space.simps; simp add: strchr_space)+

lemma skip_space_spec:
  "s \<le> skip_space buf es s \<and> (s \<le> es \<longrightarrow> skip_space buf es s \<le> es) \<and> (skip_space buf es s < es \<longrightarrow> \<not> space (at buf (skip_space buf es s))) \<and>
   skip_space buf es (skip_space buf es s) = skip_space buf es s"
proof (induction buf es s rule: skip_space.induct)
  case (1 buf es s)
  show ?case
  proof (cases "s < es \<and> space (at buf s)")
    case True
    then show ?thesis using 1 by (simp add: skip_space_step(1) strchr_space)
  next
    case False
    then show ?thesis by (auto simp: skip_space_step(2) [OF False])
  qed
qed

lemmas skip_space_facts = skip_space_spec [THEN conjunct1] skip_space_spec [THEN conjunct2, THEN conjunct1, rule_format]
  skip_space_spec [THEN conjunct2, THEN conjunct2, THEN conjunct1, rule_format]

lemma skip_space_idem [simp]: "skip_space buf es (skip_space buf es s) = skip_space buf es s"
  using skip_space_spec by blast

lemma skip_word_step:
  "s < es \<Longrightarrow> \<not> space (at buf s) \<Longrightarrow> \<not> symbol (at buf s) \<Longrightarrow> skip_word buf es s = skip_word buf es (Suc s)"
  "\<not> (s < es \<and> \<not> space (at buf s) \<and> \<not> symbol (at buf s)) \<Longrightarrow> skip_word buf es s = s"
  using skip_word.simps [of buf es s] by (simp_all only: strchr_space strchr_symbol if_True if_False simp_thms)

lemma skip_word_spec:
  "s \<le> skip_word buf es s \<and> (s \<le> es \<longrightarrow> skip_word buf es s \<le> es) \<and>
   (\<forall>i. s \<le> i \<longrightarrow> i < skip_word buf es s \<longrightarrow> \<not> space (at buf i) \<and> \<not> symbol (at buf i)) \<and>
   (skip_word buf es s < es \<longrightarrow> space (at buf (skip_word buf es s)) \<or> symbol (at buf (skip_word buf es s)))"
proof (induction buf es s rule: skip_word.induct)
  case (1 buf es s)
  show ?case
  proof (cases "s < es \<and> \<not> space (at buf s) \<and> \<not> symbol (at buf s)")
    case True
    then have e: "skip_word buf es s = skip_word buf es (Suc s)" by (simp add: skip_word_step(1))
    have "\<not> space (at buf i) \<and> \<not> symbol (at buf i)" if "s \<le> i" "i < skip_word buf es (Suc s)" for i
      using 1 True that by (cases "i = s") (simp_all add: strchr_space strchr_symbol)
    then show ?thesis using 1 True unfolding e by (simp add: strchr_space strchr_symbol)
  next
    case False
    then show ?thesis by (auto simp: skip_word_step(2) [OF False])
  qed
qed

text \<open>A word is a maximal run of characters that are neither spaces nor symbols.\<close>

definition word_at :: "byte list \<Rightarrow> nat \<Rightarrow> range \<Rightarrow> bool" where
  "word_at buf es = (\<lambda>(q, eq). q < eq \<and> eq \<le> es \<and> (\<forall>i. q \<le> i \<longrightarrow> i < eq \<longrightarrow> \<not> space (at buf i) \<and> \<not> symbol (at buf i)) \<and>
     (eq < es \<longrightarrow> space (at buf eq) \<or> symbol (at buf eq)))"

lemma gettoken_spec:
  assumes l: "is_line buf es" and s: "s \<le> es" and g: "gettoken buf es s = (t, q, eq, s')"
  shows "q = skip_space buf es s" "s \<le> q" "q \<le> eq" "eq \<le> s'" "s' \<le> es" "t = 0 \<longleftrightarrow> q = es" "t \<noteq> 0 \<Longrightarrow> q < eq"
    "t = 97 \<Longrightarrow> word_at buf es (q, eq)" "t \<noteq> 97 \<Longrightarrow> t \<noteq> 0 \<Longrightarrow> symbol (at buf q) \<and> t = (if at buf q = 62 \<and> at buf (Suc q) = 62 then 43 else at buf q)"
    "t = 97 \<Longrightarrow> \<not> symbol (at buf q)" "skip_space buf es s' = s'"
proof -
  show q: "q = skip_space buf es s" using g by (auto simp: gettoken_def Let_def split: prod.splits if_splits)
  show sq: "s \<le> q" using skip_space_facts(1) q by simp
  have qe: "q \<le> es" using skip_space_facts(2) s q by simp
  note at = at_line [OF l]
  let ?c = "at buf q"
  have c0: "?c = 0 \<longleftrightarrow> q = es" using at(1) [of q] at(2) qe by (cases "q = es") auto
  have nsp: "\<not> space ?c" if "q < es" using skip_space_facts(3) [of buf es s] that q by simp
  have e: "(t, eq) = (if ?c = 0 then (?c, q) else if ?c \<in> {124, 40, 41, 59, 38, 60} then (?c, Suc q)
             else if ?c = 62 then (if at buf (Suc q) = 62 then (43, Suc (Suc q)) else (?c, Suc q)) else (97, skip_word buf es q))"
    and s': "s' = skip_space buf es eq" using g by (auto simp: gettoken_def Let_def q split: if_splits)
  have sy: "symbol ?c \<longleftrightarrow> ?c \<in> {124, 40, 41, 59, 38, 60} \<or> ?c = 62" by (auto simp: symbol_def)
  have wd: "word_at buf es (q, skip_word buf es q)" if "?c \<noteq> 0" "\<not> symbol ?c"
  proof -
    have "q < es" using that c0 qe by simp
    then have "skip_word buf es q = skip_word buf es (Suc q)" using nsp that by (simp add: skip_word_step(1))
    then have "q < skip_word buf es q" using skip_word_spec [of "Suc q" buf es] by simp
    then show ?thesis using skip_word_spec [of q buf es] qe by (simp add: word_at_def)
  qed
  have two: "Suc (Suc q) \<le> es" if "at buf (Suc q) = 62" "?c \<noteq> 0"
    using that c0 qe at(2) by (cases "Suc q = es") auto
  consider "?c = 0" | "symbol ?c" "?c \<noteq> 62" | "?c = 62" | "?c \<noteq> 0" "\<not> symbol ?c" by blast
  then have "q \<le> eq \<and> eq \<le> es \<and> (t = 0 \<longleftrightarrow> q = es) \<and> (t \<noteq> 0 \<longrightarrow> q < eq) \<and> (t = 97 \<longrightarrow> word_at buf es (q, eq) \<and> \<not> symbol ?c) \<and>
     (t \<noteq> 97 \<longrightarrow> t \<noteq> 0 \<longrightarrow> symbol ?c \<and> t = (if ?c = 62 \<and> at buf (Suc q) = 62 then 43 else ?c))"
  proof cases
    case 1
    then show ?thesis using e c0 qe by auto
  next
    case 2
    then have "?c \<noteq> 0" "t = ?c" "eq = Suc q" "?c \<noteq> 97" using e by (auto simp: symbol_def)
    then show ?thesis using c0 qe 2 by auto
  next
    case 3
    then show ?thesis using e c0 qe two by (auto simp: symbol_def split: if_splits)
  next
    case 4
    then have "t = 97" "eq = skip_word buf es q" using e sy by auto
    then show ?thesis using wd [OF 4] 4 c0 by (auto simp: word_at_def)
  qed
  then show "q \<le> eq" "t = 0 \<longleftrightarrow> q = es" "t \<noteq> 0 \<Longrightarrow> q < eq" "t = 97 \<Longrightarrow> word_at buf es (q, eq)"
    "t \<noteq> 97 \<Longrightarrow> t \<noteq> 0 \<Longrightarrow> symbol (at buf q) \<and> t = (if at buf q = 62 \<and> at buf (Suc q) = 62 then 43 else at buf q)"
    "t = 97 \<Longrightarrow> \<not> symbol (at buf q)" "eq \<le> s'" "s' \<le> es" "skip_space buf es s' = s'"
    using s' skip_space_facts(1,2) by auto
qed

section \<open>The grammar\<close>

text \<open>A line as its tokens; \<^verbatim>\<open>>>\<close> is the symbol 43, as in gettoken.\<close>

datatype tok = Sym byte | Word "byte list"

definition slice :: "byte list \<Rightarrow> range \<Rightarrow> byte list" where
  "slice buf = (\<lambda>(q, eq). take (eq - q) (drop q buf))"

primrec lexes :: "byte list \<Rightarrow> nat \<Rightarrow> nat \<Rightarrow> tok list \<Rightarrow> bool" where
  "lexes buf es s [] \<longleftrightarrow> fst (gettoken buf es s) = 0"
| "lexes buf es s (t # ts) \<longleftrightarrow> (let (c, q, eq, s') = gettoken buf es s in
     c \<noteq> 0 \<and> t = (if c = 97 then Word (slice buf (q, eq)) else Sym c) \<and> lexes buf es s' ts)"

definition is_redir :: "byte \<Rightarrow> bool" where
  "is_redir d \<longleftrightarrow> d \<in> {60, 62, 43}"

definition redir_toks :: "(byte \<times> byte list) list \<Rightarrow> tok list" where
  "redir_toks rs = concat (map (\<lambda>(d, f). [Sym d, Word f]) rs)"

text \<open>Words and redirections in any order.\<close>

inductive gargs :: "tok list \<Rightarrow> byte list list \<Rightarrow> (byte \<times> byte list) list \<Rightarrow> bool" where
  gargs_Nil: "gargs [] [] []"
| gargs_Word: "gargs ts ws rs \<Longrightarrow> gargs (Word w # ts) (w # ws) rs"
| gargs_Redir: "is_redir d \<Longrightarrow> gargs ts ws rs \<Longrightarrow> gargs (Sym d # Word f # ts) ws ((d, f) # rs)"

text \<open>Lines, pipelines and simple commands with the trees they stand for.\<close>

inductive gline :: "tok list \<Rightarrow> byte list cmd \<Rightarrow> bool"
  and gpipe :: "tok list \<Rightarrow> byte list cmd \<Rightarrow> bool"
  and gexec :: "tok list \<Rightarrow> byte list cmd \<Rightarrow> bool" where
  gline_back: "gpipe ts c \<Longrightarrow> gline (ts @ replicate k (Sym 38)) ((BACK ^^ k) c)"
| gline_list: "gpipe ts c \<Longrightarrow> gline ts' d \<Longrightarrow> gline (ts @ replicate k (Sym 38) @ Sym 59 # ts') (LIST ((BACK ^^ k) c) d)"
| gpipe_exec: "gexec ts c \<Longrightarrow> gpipe ts c"
| gpipe_pipe: "gexec ts c \<Longrightarrow> gpipe ts' d \<Longrightarrow> gpipe (ts @ Sym 124 # ts') (PIPE c d)"
| gexec_args: "gargs ts ws rs \<Longrightarrow> length ws < MAXARGS \<Longrightarrow> gexec ts (wrap (EXEC ws) rs)"
| gexec_block: "gline ts c \<Longrightarrow> list_all (\<lambda>(d, f). is_redir d) rs \<Longrightarrow> gexec (Sym 40 # ts @ Sym 41 # redir_toks rs) (wrap c rs)"

definition follows :: "byte set \<Rightarrow> tok list \<Rightarrow> bool" where
  "follows C ts \<longleftrightarrow> (case ts of [] \<Rightarrow> True | t # _ \<Rightarrow> t \<in> Sym ` C)"

section \<open>The parser and the grammar\<close>

lemma gettoken_skip [simp]: "gettoken buf es (skip_space buf es s) = gettoken buf es s"
  by (simp add: gettoken_def)

lemma lexes_skip [simp]: "lexes buf es (skip_space buf es s) ts = lexes buf es s ts"
  by (cases ts) simp_all

lemma peek_Nil: "is_line buf es \<Longrightarrow> s \<le> es \<Longrightarrow> lexes buf es s [] \<Longrightarrow> peek buf es s C = (False, es)"
proof -
  assume a: "is_line buf es" "s \<le> es" "lexes buf es s []"
  obtain t q e s' where g: "gettoken buf es s = (t, q, e, s')" by (cases "gettoken buf es s") auto
  then show ?thesis using gettoken_spec(1,6) [OF a(1,2) g] a(3) at_line(2) [OF a(1)] by (simp add: peek_def Let_def)
qed

lemma lexes_Nil_es: "is_line buf es \<Longrightarrow> s \<le> es \<Longrightarrow> lexes buf es s [] \<longleftrightarrow> skip_space buf es s = es"
proof -
  assume a: "is_line buf es" "s \<le> es"
  obtain t q e s' where g: "gettoken buf es s = (t, q, e, s')" by (cases "gettoken buf es s") auto
  then show ?thesis using gettoken_spec(1,6) [OF a(1,2) g] by auto
qed

lemma token_Word:
  assumes l: "is_line buf es" "s \<le> es" and x: "lexes buf es s (Word w # ts)"
  shows "\<exists>q e s'. gettoken buf es s = (97, q, e, s') \<and> word_at buf es (q, e) \<and> slice buf (q, e) = w \<and> lexes buf es s' ts \<and> s < s' \<and> s' \<le> es"
    "cstring C = C \<Longrightarrow> list_all symbol C \<Longrightarrow> peek buf es s C = (False, skip_space buf es s)"
proof -
  obtain t q e s' where g: "gettoken buf es s = (t, q, e, s')" by (cases "gettoken buf es s") auto
  have t: "t = 97" "slice buf (q, e) = w" "lexes buf es s' ts" using x g by (auto split: if_splits)
  note G = gettoken_spec [OF l g]
  show "\<exists>q e s'. gettoken buf es s = (97, q, e, s') \<and> word_at buf es (q, e) \<and> slice buf (q, e) = w \<and> lexes buf es s' ts \<and> s < s' \<and> s' \<le> es"
    using g t G by auto
  assume C: "cstring C = C" "list_all symbol C"
  then show "peek buf es s C = (False, skip_space buf es s)"
    using G(1,10) t(1) by (auto simp: peek_def Let_def strchr_None list_all_iff)
qed

lemma token_Sym:
  assumes l: "is_line buf es" "s \<le> es" and x: "lexes buf es s (Sym c # ts)"
  shows "\<exists>q e s'. gettoken buf es s = (c, q, e, s') \<and> lexes buf es s' ts \<and> s < s' \<and> s' \<le> es" "c \<noteq> 97" "c \<noteq> 0"
    "cstring C = C \<Longrightarrow> peek buf es s C = ((if c = 43 then 62 else c) \<in> set C, skip_space buf es s)"
proof -
  obtain t q e s' where g: "gettoken buf es s = (t, q, e, s')" by (cases "gettoken buf es s") auto
  have t: "t = c" "c \<noteq> 97" "c \<noteq> 0" "lexes buf es s' ts" using x g by (auto split: if_splits)
  note G = gettoken_spec [OF l g]
  show "\<exists>q e s'. gettoken buf es s = (c, q, e, s') \<and> lexes buf es s' ts \<and> s < s' \<and> s' \<le> es" "c \<noteq> 97" "c \<noteq> 0" using g t G by auto
  have f: "(if c = 43 then 62 else c) = at buf q" "at buf q \<noteq> 0" using G(9) t by (auto simp: symbol_def split: if_splits)
  assume "cstring C = C"
  then show "peek buf es s C = ((if c = 43 then 62 else c) \<in> set C, skip_space buf es s)"
    using f G(1) unfolding f(1) by (auto simp: peek_def Let_def strchr_None)
qed

text \<open>Every line has tokens.\<close>

lemma lexes_ex: "is_line buf es \<Longrightarrow> s \<le> es \<Longrightarrow> \<exists>ts. lexes buf es s ts"
proof (induction "es - s" arbitrary: s rule: less_induct)
  case less
  obtain t q e s' where g: "gettoken buf es s = (t, q, e, s')" by (cases "gettoken buf es s") auto
  note G = gettoken_spec [OF less.prems g]
  show ?case
  proof (cases "t = 0")
    case True
    then show ?thesis using g by (intro exI [of _ "[]"]) simp
  next
    case False
    then obtain ts where "lexes buf es s' ts" using less.hyps [of s'] less.prems(1) G by fastforce
    then show ?thesis using g False by (intro exI [of _ "(if t = 97 then Word (slice buf (q, e)) else Sym t) # ts"]) simp
  qed
qed

text \<open>peek looks at the first token.\<close>

definition hsym :: "byte set \<Rightarrow> tok list \<Rightarrow> bool" where
  "hsym C ts \<longleftrightarrow> (case ts of Sym c # _ \<Rightarrow> c \<in> C | _ \<Rightarrow> False)"

lemma hsym_simps [simp]: "hsym C []  = False" "hsym C (Sym c # ts) = (c \<in> C)" "hsym C (Word w # ts) = False"
  by (simp_all add: hsym_def)

lemma peek_tok:
  assumes l: "is_line buf es" "s \<le> es" and x: "lexes buf es s ts" and C: "cstring C = C" "list_all symbol C"
  shows "peek buf es s C = (hsym {c. (if c = 43 then 62 else c) \<in> set C} ts, skip_space buf es s)"
proof (cases ts)
  case Nil
  then show ?thesis using peek_Nil [OF l] lexes_Nil_es [OF l] x by simp
next
  case (Cons t ts')
  then show ?thesis using token_Sym(4) [OF l _ C(1)] token_Word(2) [OF l _ C] x by (cases t) simp_all
qed

lemma peek_tok_cases:
  assumes "is_line buf es" "s \<le> es" "lexes buf es s ts"
  shows "peek buf es s [60, 62] = (hsym {60, 62, 43} ts, skip_space buf es s)" "peek buf es s [40] = (hsym {40} ts, skip_space buf es s)"
    "peek buf es s [41] = (hsym {41} ts, skip_space buf es s)" "peek buf es s [124] = (hsym {124} ts, skip_space buf es s)"
    "peek buf es s [38] = (hsym {38} ts, skip_space buf es s)" "peek buf es s [59] = (hsym {59} ts, skip_space buf es s)"
    "peek buf es s [124, 41, 38, 59] = (hsym {124, 41, 38, 59} ts, skip_space buf es s)"
proof -
  have e: "{c :: byte. (if c = 43 then 62 else c) = 60 \<or> (if c = 43 then 62 else c) = 62} = {60, 62, 43}"
    "{c :: byte. (if c = 43 then 62 else c) = 40} = {40}" "{c :: byte. (if c = 43 then 62 else c) = 41} = {41}"
    "{c :: byte. (if c = 43 then 62 else c) = 124} = {124}" "{c :: byte. (if c = 43 then 62 else c) = 38} = {38}"
    "{c :: byte. (if c = 43 then 62 else c) = 59} = {59}"
    "{c :: byte. (if c = 43 then 62 else c) = 124 \<or> (if c = 43 then 62 else c) = 41 \<or> (if c = 43 then 62 else c) = 38 \<or>
       (if c = 43 then 62 else c) = 59} = {124, 41, 38, 59}"
    by (auto split: if_splits)
  show "peek buf es s [60, 62] = (hsym {60, 62, 43} ts, skip_space buf es s)" "peek buf es s [40] = (hsym {40} ts, skip_space buf es s)"
    "peek buf es s [41] = (hsym {41} ts, skip_space buf es s)" "peek buf es s [124] = (hsym {124} ts, skip_space buf es s)"
    "peek buf es s [38] = (hsym {38} ts, skip_space buf es s)" "peek buf es s [59] = (hsym {59} ts, skip_space buf es s)"
    "peek buf es s [124, 41, 38, 59] = (hsym {124, 41, 38, 59} ts, skip_space buf es s)"
    using peek_tok [OF assms, of "[60, 62]"] peek_tok [OF assms, of "[40]"] peek_tok [OF assms, of "[41]"] peek_tok [OF assms, of "[124]"]
      peek_tok [OF assms, of "[38]"] peek_tok [OF assms, of "[59]"] peek_tok [OF assms, of "[124, 41, 38, 59]"]
    by (simp_all add: e cstring_def symbol_def)
qed

text \<open>The position that a part of the parser leaves, when the tokens behind it are \<open>rest\<close>.\<close>

definition upto :: "byte list \<Rightarrow> nat \<Rightarrow> nat \<Rightarrow> nat \<Rightarrow> tok list \<Rightarrow> bool" where
  "upto buf es s s' rest \<longleftrightarrow> s \<le> s' \<and> s' \<le> es \<and> lexes buf es s' rest"

definition rwords :: "byte list \<Rightarrow> (byte \<times> range) list \<Rightarrow> (byte \<times> byte list) list" where
  "rwords buf rs = map (map_prod id (slice buf)) rs"

definition rs_ok :: "byte list \<Rightarrow> nat \<Rightarrow> (byte \<times> range) list \<Rightarrow> bool" where
  "rs_ok buf es rs \<longleftrightarrow> list_all (\<lambda>(d, f). is_redir d \<and> word_at buf es f) rs"

lemma redirs_sound:
  assumes l: "is_line buf es"
  shows "s \<le> es \<Longrightarrow> lexes buf es s ts \<Longrightarrow> es - s < n \<Longrightarrow>
    (\<exists>e. parseredirs n buf es rs s = Some (Inl e)) \<or>
    (\<exists>new s' rest. parseredirs n buf es rs s = Some (Inr (rs @ new, s')) \<and> ts = redir_toks (rwords buf new) @ rest \<and> rs_ok buf es new \<and>
       upto buf es s s' rest)"
proof (induction n arbitrary: s ts rs)
  case (Suc n)
  note p = peek_tok_cases [OF l Suc.prems(1,2)]
  have k: "s \<le> skip_space buf es s" "skip_space buf es s \<le> es" using skip_space_facts(1,2) Suc.prems(1) by simp_all
  show ?case
  proof (cases "hsym {60, 62, 43} ts")
    case False
    then have "parseredirs (Suc n) buf es rs s = Some (Inr (rs @ [], skip_space buf es s))" using p(1) by (simp add: pret_def)
    then show ?thesis using Suc.prems k by (intro disjI2 exI [of _ "[]"] exI [of _ "skip_space buf es s"] exI [of _ ts])
      (simp add: redir_toks_def rwords_def rs_ok_def upto_def)
  next
    case True
    then obtain d ts1 where ts: "ts = Sym d # ts1" "is_redir d" by (cases ts; cases "hd ts") (auto simp: is_redir_def)
    obtain q e s1 where 1: "gettoken buf es s = (d, q, e, s1)" "lexes buf es s1 ts1" "s < s1" "s1 \<le> es"
      using token_Sym(1) [OF l Suc.prems(1)] Suc.prems(2) ts(1) by blast
    obtain t q2 e2 s2 where 2: "gettoken buf es s1 = (t, q2, e2, s2)" by (cases "gettoken buf es s1") auto
    have r: "parseredirs (Suc n) buf es rs s = (if t \<noteq> 97 then pfail ''missing file for redirection''
        else parseredirs n buf es (rs @ [(d, q2, e2)]) s2)"
      using True p(1) 1(1) 2 by simp
    show ?thesis
    proof (cases "t = 97")
      case False
      then show ?thesis using r by (simp add: pfail_def)
    next
      case t: True
      note G = gettoken_spec [OF l 1(4) 2]
      obtain ts2 where ts1: "ts1 = Word (slice buf (q2, e2)) # ts2" "lexes buf es s2 ts2" using 1(2) 2 t by (cases ts1) auto
      have "(\<exists>e. parseredirs n buf es (rs @ [(d, q2, e2)]) s2 = Some (Inl e)) \<or>
        (\<exists>new s' rest. parseredirs n buf es (rs @ [(d, q2, e2)]) s2 = Some (Inr ((rs @ [(d, q2, e2)]) @ new, s')) \<and>
          ts2 = redir_toks (rwords buf new) @ rest \<and> rs_ok buf es new \<and> upto buf es s2 s' rest)"
        using Suc.prems(3) 1(3,4) G by (intro Suc.IH ts1(2)) linarith+
      then show ?thesis
      proof (elim disjE exE conjE)
        fix new s' rest
        assume a: "parseredirs n buf es (rs @ [(d, q2, e2)]) s2 = Some (Inr ((rs @ [(d, q2, e2)]) @ new, s'))"
          "ts2 = redir_toks (rwords buf new) @ rest" "rs_ok buf es new" "upto buf es s2 s' rest"
        then show ?thesis using r t ts ts1(1) 1(3) G
          by (intro disjI2 exI [of _ "(d, q2, e2) # new"] exI [of _ s'] exI [of _ rest])
            (simp add: redir_toks_def rwords_def rs_ok_def upto_def)
      qed (use r t in auto)
    qed
  qed
qed simp

lemma redirs_complete:
  assumes l: "is_line buf es"
  shows "s \<le> es \<Longrightarrow> lexes buf es s (redir_toks ws @ rest) \<Longrightarrow> list_all (\<lambda>(d, f). is_redir d) ws \<Longrightarrow> \<not> hsym {60, 62, 43} rest \<Longrightarrow> es - s < n \<Longrightarrow>
    \<exists>new s'. parseredirs n buf es rs s = Some (Inr (rs @ new, s')) \<and> rwords buf new = ws \<and> rs_ok buf es new \<and> upto buf es s s' rest"
proof (induction n arbitrary: s ws rs)
  case (Suc n)
  note p = peek_tok_cases [OF l Suc.prems(1,2)]
  have k: "s \<le> skip_space buf es s" "skip_space buf es s \<le> es" using skip_space_facts(1,2) Suc.prems(1) by simp_all
  show ?case
  proof (cases ws)
    case Nil
    then show ?thesis using p(1) Suc.prems k
      by (intro exI [of _ "[]"] exI [of _ "skip_space buf es s"]) (simp add: redir_toks_def rwords_def rs_ok_def upto_def pret_def)
  next
    case (Cons w ws')
    obtain d f where w: "w = (d, f)" "is_redir d" using Cons Suc.prems(3) by (cases w) auto
    have ts: "redir_toks ws @ rest = Sym d # Word f # redir_toks ws' @ rest" by (simp add: Cons w redir_toks_def)
    obtain q e s1 where 1: "gettoken buf es s = (d, q, e, s1)" "lexes buf es s1 (Word f # redir_toks ws' @ rest)" "s < s1" "s1 \<le> es"
      using token_Sym(1) [OF l Suc.prems(1)] Suc.prems(2) unfolding ts by blast
    obtain q2 e2 s2 where 2: "gettoken buf es s1 = (97, q2, e2, s2)" "word_at buf es (q2, e2)" "slice buf (q2, e2) = f"
        "lexes buf es s2 (redir_toks ws' @ rest)" "s1 < s2" "s2 \<le> es"
      using token_Word(1) [OF l 1(4,2)] by blast
    have "\<exists>new s'. parseredirs n buf es (rs @ [(d, q2, e2)]) s2 = Some (Inr ((rs @ [(d, q2, e2)]) @ new, s')) \<and> rwords buf new = ws' \<and>
        rs_ok buf es new \<and> upto buf es s2 s' rest"
      using Suc.prems(3-5) Cons 1(3) 2(5,6) by (intro Suc.IH 2(4)) auto
    then obtain new s' where a: "parseredirs n buf es (rs @ [(d, q2, e2)]) s2 = Some (Inr ((rs @ [(d, q2, e2)]) @ new, s'))" "rwords buf new = ws'"
      "rs_ok buf es new" "upto buf es s2 s' rest" by blast
    have "hsym {60, 62, 43} (redir_toks ws @ rest)" using w(2) by (simp add: ts is_redir_def)
    then show ?thesis using p(1) 1(1,3) 2 a w Cons
      by (intro exI [of _ "(d, q2, e2) # new"] exI [of _ s']) (simp add: rwords_def rs_ok_def upto_def)
  qed
qed simp

definition cmd_ok :: "byte list \<Rightarrow> nat \<Rightarrow> range cmd \<Rightarrow> bool" where
  "cmd_ok buf es c \<longleftrightarrow> (\<forall>t \<in> set_cmd c. word_at buf es t)"

definition str_cmd :: "byte list \<Rightarrow> range cmd \<Rightarrow> byte list cmd" where
  "str_cmd buf c = map_cmd (slice buf) c"

lemma wrap_simps [simp]: "wrap c [] = c" "wrap c ((d, f) # rs) = wrap (redir_tok c d f) rs" "wrap c (rs @ rs') = wrap (wrap c rs) rs'"
  by (simp_all add: wrap_def)

lemma map_wrap: "map_cmd g (wrap c rs) = wrap (map_cmd g c) (map (map_prod id g) rs)"
proof (induction rs arbitrary: c)
  case (Cons r rs)
  have "map_cmd g (redir_tok c (fst r) (snd r)) = redir_tok (map_cmd g c) (fst r) (g (snd r))" by (simp add: redir_tok_def)
  then show ?case using Cons by (cases r) simp
qed simp

lemma cmd_ok_wrap: "cmd_ok buf es c \<Longrightarrow> rs_ok buf es rs \<Longrightarrow> cmd_ok buf es (wrap c rs)"
proof (induction rs arbitrary: c)
  case (Cons r rs)
  obtain d f where r: "r = (d, f)" by (cases r)
  have "set_cmd (redir_tok c d f) \<subseteq> insert f (set_cmd c)" by (simp add: redir_tok_def subset_insertI)
  moreover have "word_at buf es f" "rs_ok buf es rs" using Cons.prems(2) r by (simp_all add: rs_ok_def)
  ultimately have "cmd_ok buf es (redir_tok c d f)" using Cons.prems(1) unfolding cmd_ok_def by blast
  then show ?case using Cons.IH \<open>rs_ok buf es rs\<close> by (simp add: r)
qed simp

lemma gargs_redirs: "gargs ts ws rs \<Longrightarrow> list_all (\<lambda>(d, f). is_redir d) r1 \<Longrightarrow> gargs (redir_toks r1 @ ts) ws (r1 @ rs)"
  by (induction r1) (auto simp: redir_toks_def intro: gargs.intros)

lemma gargs_split:
  "gargs ts ws rs \<Longrightarrow> \<exists>r1 r2 ts2. ts = redir_toks r1 @ ts2 \<and> rs = r1 @ r2 \<and> gargs ts2 ws r2 \<and> list_all (\<lambda>(d, f). is_redir d) r1 \<and>
     \<not> hsym {60, 62, 43} ts2"
proof (induction rule: gargs.induct)
  case (gargs_Redir d ts ws rs f)
  then obtain r1 r2 ts2 where "ts = redir_toks r1 @ ts2" "rs = r1 @ r2" "gargs ts2 ws r2" "list_all (\<lambda>(d, f). is_redir d) r1" "\<not> hsym {60, 62, 43} ts2"
    by blast
  then show ?case using gargs_Redir(1) by (intro exI [of _ "(d, f) # r1"] exI [of _ r2] exI [of _ ts2]) (simp add: redir_toks_def)
next
  case gargs_Nil
  show ?case by (intro exI [of _ "[]"]) (simp add: redir_toks_def gargs.gargs_Nil)
next
  case (gargs_Word ts ws rs w)
  then show ?case by (intro exI [of _ "[]"] exI [of _ rs] exI [of _ "Word w # ts"]) (simp add: redir_toks_def gargs.gargs_Word)
qed

lemma rs_ok_redir: "rs_ok buf es rs \<Longrightarrow> list_all (\<lambda>(d, f). is_redir d) (rwords buf rs)"
  by (auto simp: rs_ok_def rwords_def list_all_iff)

lemma rs_ok_append [simp]: "rs_ok buf es (rs @ rs') \<longleftrightarrow> rs_ok buf es rs \<and> rs_ok buf es rs'"
  "rwords buf (rs @ rs') = rwords buf rs @ rwords buf rs'"
  by (simp_all add: rs_ok_def rwords_def)

lemma upto_trans: "upto buf es s s' r \<Longrightarrow> upto buf es s' s'' r' \<Longrightarrow> upto buf es s s'' r'"
  by (simp add: upto_def)

lemma exec_loop_sound:
  assumes l: "is_line buf es"
  shows "s \<le> es \<Longrightarrow> lexes buf es s ts \<Longrightarrow> es - s < n \<Longrightarrow> length argv < MAXARGS \<Longrightarrow>
    (\<exists>e. parseexec_loop n buf es argv rs s = Some (Inl e)) \<or>
    (\<exists>as new s' ts1 rest. parseexec_loop n buf es argv rs s = Some (Inr (wrap (EXEC (argv @ as)) (rs @ new), s')) \<and> ts = ts1 @ rest \<and>
       gargs ts1 (map (slice buf) as) (rwords buf new) \<and> rs_ok buf es new \<and> list_all (word_at buf es) as \<and> length (argv @ as) < MAXARGS \<and> upto buf es s s' rest)"
proof (induction n arbitrary: s ts rs argv)
  case (Suc n)
  note p = peek_tok_cases(7) [OF l Suc.prems(1,2)]
  have k: "s \<le> skip_space buf es s" "skip_space buf es s \<le> es" using skip_space_facts(1,2) Suc.prems(1) by simp_all
  obtain t q e s1 where g: "gettoken buf es s = (t, q, e, s1)" by (cases "gettoken buf es s") auto
  note G = gettoken_spec [OF l Suc.prems(1) g]
  consider (stop) "hsym {124, 41, 38, 59} ts" | (ended) "\<not> hsym {124, 41, 38, 59} ts" "t = 0" | (sym) "\<not> hsym {124, 41, 38, 59} ts" "t \<noteq> 0" "t \<noteq> 97"
    | (many) "\<not> hsym {124, 41, 38, 59} ts" "t = 97" "length argv + 1 \<ge> MAXARGS" | (go) "\<not> hsym {124, 41, 38, 59} ts" "t = 97" "length argv + 1 < MAXARGS"
    by linarith
  then show ?case
  proof cases
    case stop
    then show ?thesis using p Suc.prems k
      by (intro disjI2 exI [of _ "[]"] exI [of _ "skip_space buf es s"] exI [of _ ts]) (simp add: pret_def rwords_def rs_ok_def upto_def gargs_Nil)
  next
    case ended
    have "lexes buf es s []" using g ended by simp
    then have "lexes buf es s1 []" using G(4,5,6,11) ended(2) lexes_Nil_es [OF l G(5)] by (metis G(3) dual_order.trans le_antisym)
    moreover have "ts = []" using Suc.prems(2) g ended(2) by (cases ts) auto
    moreover have "parseexec_loop (Suc n) buf es argv rs s = Some (Inr (wrap (EXEC argv) rs, s1))" using p g ended by (simp add: pret_def)
    moreover have "s \<le> s1" "s1 \<le> es" using G by linarith+
    ultimately show ?thesis using Suc.prems(4)
      by (intro disjI2 exI [of _ "[]"] exI [of _ s1]) (simp add: rwords_def rs_ok_def upto_def gargs_Nil del: parseexec_loop.simps lexes.simps)
  next
    case sym
    then show ?thesis using p g by (simp add: pfail_def)
  next
    case many
    then show ?thesis using p g by (simp add: pfail_def)
  next
    case go
    obtain ts1 where ts: "ts = Word (slice buf (q, e)) # ts1" "lexes buf es s1 ts1" using Suc.prems(2) g go(2) by (cases ts) auto
    have s1: "s < s1" "es - s1 < Suc n" using G Suc.prems(3) go(2) by auto
    have r: "parseexec_loop (Suc n) buf es argv rs s =
        pbind (parseredirs (Suc n) buf es rs s1) (\<lambda>(rs, ps). parseexec_loop n buf es (argv @ [(q, e)]) rs ps)"
      using p g go by (simp del: parseredirs.simps)
    from redirs_sound [OF l G(5) ts(2) s1(2), of rs] show ?thesis
    proof (elim disjE exE conjE)
      fix new s' rest
      assume a: "parseredirs (Suc n) buf es rs s1 = Some (Inr (rs @ new, s'))" "ts1 = redir_toks (rwords buf new) @ rest" "rs_ok buf es new"
        "upto buf es s1 s' rest"
      have u: "s' \<le> es" "lexes buf es s' rest" "es - s' < n" "s1 \<le> s'" using a(4) s1 Suc.prems(3) by (auto simp: upto_def)
      have la: "length (argv @ [(q, e)]) < MAXARGS" using go(3) by simp
      from Suc.IH [OF u(1-3) la, of "rs @ new"] show ?thesis
      proof (elim disjE exE conjE)
        fix as new2 s2 ts2 rest2
        assume b: "parseexec_loop n buf es (argv @ [(q, e)]) (rs @ new) s' = Some (Inr (wrap (EXEC ((argv @ [(q, e)]) @ as)) ((rs @ new) @ new2), s2))"
          "rest = ts2 @ rest2" "gargs ts2 (map (slice buf) as) (rwords buf new2)" "rs_ok buf es new2" "list_all (word_at buf es) as"
          "length ((argv @ [(q, e)]) @ as) < MAXARGS" "upto buf es s' s2 rest2"
        have "gargs (Word (slice buf (q, e)) # redir_toks (rwords buf new) @ ts2) (map (slice buf) ((q, e) # as)) (rwords buf (new @ new2))"
          using gargs_Word [OF gargs_redirs [OF b(3) rs_ok_redir [OF a(3)]]] by simp
        moreover have "upto buf es s s2 rest2" using b(7) u(4) s1(1) by (simp add: upto_def)
        ultimately show ?thesis using r a b ts(1) G(8) go(2)
          by (intro disjI2 exI [of _ "(q, e) # as"] exI [of _ "new @ new2"] exI [of _ s2]
              exI [of _ "Word (slice buf (q, e)) # redir_toks (rwords buf new) @ ts2"] exI [of _ rest2])
            (simp add: pbind_def)
      qed (use r a(1) in \<open>auto simp: pbind_def\<close>)
    qed (use r in \<open>auto simp: pbind_def\<close>)
  qed
qed simp

lemma exec_loop_complete:
  assumes l: "is_line buf es" and rest: "rest = [] \<or> hsym {124, 41, 38, 59} rest"
  shows "s \<le> es \<Longrightarrow> lexes buf es s (ts @ rest) \<Longrightarrow> gargs ts ws xs \<Longrightarrow> \<not> hsym {60, 62, 43} ts \<Longrightarrow> es - s < n \<Longrightarrow> length argv + length ws < MAXARGS \<Longrightarrow>
    \<exists>as new s'. parseexec_loop n buf es argv rs s = Some (Inr (wrap (EXEC (argv @ as)) (rs @ new), s')) \<and> map (slice buf) as = ws \<and>
      rwords buf new = xs \<and> rs_ok buf es new \<and> list_all (word_at buf es) as \<and> upto buf es s s' rest"
proof (induction n arbitrary: s ts rs argv ws xs)
  case (Suc n)
  note p = peek_tok_cases(7) [OF l Suc.prems(1,2)]
  have k: "s \<le> skip_space buf es s" "skip_space buf es s \<le> es" using skip_space_facts(1,2) Suc.prems(1) by simp_all
  show ?case
  proof (cases ts)
    case Nil
    then have w: "ws = []" "xs = []" using Suc.prems(3) by (auto elim: gargs.cases)
    show ?thesis
    proof (cases "rest = []")
      case True
      obtain q e s1 where g: "gettoken buf es s = (0, q, e, s1)" using Suc.prems(2) Nil True by (cases "gettoken buf es s") auto
      note G = gettoken_spec [OF l Suc.prems(1) g]
      have "s1 = es" using G(3-6) by simp
      then have "lexes buf es s1 []" using lexes_Nil_es [OF l order_refl] skip_space_facts(1,2) [of es] by (simp add: le_antisym)
      moreover have "parseexec_loop (Suc n) buf es argv rs s = Some (Inr (wrap (EXEC argv) rs, s1))" using p g True Nil by (simp add: pret_def)
      ultimately show ?thesis using w True Suc.prems(1) \<open>s1 = es\<close>
        by (intro exI [of _ "[]"] exI [of _ s1]) (simp add: rwords_def rs_ok_def upto_def del: parseexec_loop.simps lexes.simps)
    next
      case False
      then have "parseexec_loop (Suc n) buf es argv rs s = Some (Inr (wrap (EXEC argv) rs, skip_space buf es s))" using p rest Nil by (simp add: pret_def)
      then show ?thesis using w k Suc.prems(2) Nil
        by (intro exI [of _ "[]"] exI [of _ "skip_space buf es s"]) (simp add: rwords_def rs_ok_def upto_def del: parseexec_loop.simps)
    qed
  next
    case (Cons t ts1)
    from Suc.prems(3) obtain w ws1 where tw: "t = Word w" "ws = w # ws1" "gargs ts1 ws1 xs"
      using Cons Suc.prems(4) by (cases rule: gargs.cases) (auto simp: is_redir_def)
    obtain q e s1 where 1: "gettoken buf es s = (97, q, e, s1)" "word_at buf es (q, e)" "slice buf (q, e) = w" "lexes buf es s1 (ts1 @ rest)" "s < s1" "s1 \<le> es"
      using token_Word(1) [OF l Suc.prems(1), of w "ts1 @ rest"] Suc.prems(2) Cons tw(1) by auto
    obtain r1 r2 ts2 where sp: "ts1 = redir_toks r1 @ ts2" "xs = r1 @ r2" "gargs ts2 ws1 r2" "list_all (\<lambda>(d, f). is_redir d) r1" "\<not> hsym {60, 62, 43} ts2"
      using gargs_split [OF tw(3)] by blast
    have nr: "\<not> hsym {60, 62, 43} (ts2 @ rest)" using sp(5) rest by (cases ts2; cases rest; cases "hd rest") (auto simp: hsym_def split: tok.splits)
    have lx: "lexes buf es s1 (redir_toks r1 @ ts2 @ rest)" using 1(4) sp(1) by simp
    have f: "es - s1 < Suc n" using Suc.prems(5) 1(5) by linarith
    obtain new s2 where 2: "parseredirs (Suc n) buf es rs s1 = Some (Inr (rs @ new, s2))" "rwords buf new = r1" "rs_ok buf es new" "upto buf es s1 s2 (ts2 @ rest)"
      using redirs_complete [OF l 1(6) lx sp(4) nr f, of rs] by blast
    have u: "s2 \<le> es" "lexes buf es s2 (ts2 @ rest)" "es - s2 < n" "s \<le> s2" using 2(4) 1(5) Suc.prems(5) by (auto simp: upto_def)
    have len: "length (argv @ [(q, e)]) + length ws1 < MAXARGS" using Suc.prems(6) tw(2) by simp
    obtain as new2 s3 where 3: "parseexec_loop n buf es (argv @ [(q, e)]) (rs @ new) s2 = Some (Inr (wrap (EXEC ((argv @ [(q, e)]) @ as)) ((rs @ new) @ new2), s3))"
        "map (slice buf) as = ws1" "rwords buf new2 = r2" "rs_ok buf es new2" "list_all (word_at buf es) as" "upto buf es s2 s3 rest"
      using Suc.IH [OF u(1,2) sp(3,5) u(3) len, of "rs @ new"] by blast
    have "parseexec_loop (Suc n) buf es argv rs s = Some (Inr (wrap (EXEC (argv @ (q, e) # as)) (rs @ new @ new2), s3))"
      using p Cons tw(1) 1(1) len 2(1) 3(1) by (simp add: pbind_def del: parseredirs.simps)
    then show ?thesis using 1(2,3) 2(2,3) 3(2-6) tw(2) sp(2) u(4)
      by (intro exI [of _ "(q, e) # as"] exI [of _ "new @ new2"] exI [of _ s3]) (simp add: upto_def del: parseexec_loop.simps)
  qed
qed simp

lemma str_cmd_simps [simp]: "str_cmd buf (wrap c rs) = wrap (str_cmd buf c) (rwords buf rs)" "str_cmd buf (EXEC as) = EXEC (map (slice buf) as)"
  "str_cmd buf (PIPE c d) = PIPE (str_cmd buf c) (str_cmd buf d)" "str_cmd buf (LIST c d) = LIST (str_cmd buf c) (str_cmd buf d)"
  "str_cmd buf (BACK c) = BACK (str_cmd buf c)"
  by (simp_all add: str_cmd_def map_wrap rwords_def)

lemma str_cmd_back [simp]: "str_cmd buf ((BACK ^^ k) c) = (BACK ^^ k) (str_cmd buf c)" "cmd_ok buf es ((BACK ^^ k) c) = cmd_ok buf es c"
  by (induction k) (simp_all add: cmd_ok_def)

lemma cmd_ok_simps [simp]: "cmd_ok buf es (EXEC as) = list_all (word_at buf es) as" "cmd_ok buf es (PIPE c d) = (cmd_ok buf es c \<and> cmd_ok buf es d)"
  "cmd_ok buf es (LIST c d) = (cmd_ok buf es c \<and> cmd_ok buf es d)"
  by (auto simp: cmd_ok_def list_all_iff)

lemma back_spec:
  assumes l: "is_line buf es"
  shows "s \<le> es \<Longrightarrow> lexes buf es s ts \<Longrightarrow> es - s < n \<Longrightarrow>
    \<exists>k s' rest. ts = replicate k (Sym 38) @ rest \<and> \<not> hsym {38} rest \<and> back_loop n buf es c s = Some (Inr ((BACK ^^ k) c, s')) \<and> upto buf es s s' rest"
proof (induction n arbitrary: s ts c)
  case (Suc n)
  note p = peek_tok_cases(5) [OF l Suc.prems(1,2)]
  have k: "s \<le> skip_space buf es s" "skip_space buf es s \<le> es" using skip_space_facts(1,2) Suc.prems(1) by simp_all
  show ?case
  proof (cases "hsym {38} ts")
    case False
    then show ?thesis using p k Suc.prems(2)
      by (intro exI [of _ 0] exI [of _ "skip_space buf es s"] exI [of _ ts]) (simp add: pret_def upto_def)
  next
    case True
    then obtain ts1 where ts: "ts = Sym 38 # ts1" by (cases ts; cases "hd ts") auto
    obtain q e s1 where 1: "gettoken buf es s = (38, q, e, s1)" "lexes buf es s1 ts1" "s < s1" "s1 \<le> es"
      using token_Sym(1) [OF l Suc.prems(1)] Suc.prems(2) ts by blast
    have f: "es - s1 < n" using 1(3,4) Suc.prems(3) by linarith
    obtain k s' rest where r: "ts1 = replicate k (Sym 38) @ rest" "\<not> hsym {38} rest" "back_loop n buf es (BACK c) s1 = Some (Inr ((BACK ^^ k) (BACK c), s'))"
        "upto buf es s1 s' rest" using Suc.IH [OF 1(4,2) f] by blast
    have "back_loop (Suc n) buf es c s = Some (Inr ((BACK ^^ Suc k) c, s'))" using p True 1(1) r(3) by (simp add: funpow_swap1)
    then show ?thesis using r(1,2,4) ts 1(3) by (intro exI [of _ "Suc k"] exI [of _ s'] exI [of _ rest]) (simp add: upto_def)
  qed
qed simp

lemma replicate_unique:
  "replicate k x @ r = replicate k' x @ r' \<Longrightarrow> (r = [] \<or> hd r \<noteq> x) \<Longrightarrow> (r' = [] \<or> hd r' \<noteq> x) \<Longrightarrow> k = k' \<and> r = r'"
proof (induction k arbitrary: k')
  case 0
  then show ?case by (cases k') auto
next
  case (Suc k)
  then show ?case by (cases k') auto
qed

text \<open>What a part of the parser finds belongs to the grammar.\<close>

definition sound :: "byte list \<Rightarrow> nat \<Rightarrow> (tok list \<Rightarrow> byte list cmd \<Rightarrow> bool) \<Rightarrow> nat \<Rightarrow> tok list \<Rightarrow> (range cmd \<times> nat) pres \<Rightarrow> bool" where
  "sound buf es g s ts r \<longleftrightarrow> (\<exists>e. r = Some (Inl e)) \<or>
     (\<exists>c s' ts1 rest. r = Some (Inr (c, s')) \<and> ts = ts1 @ rest \<and> g ts1 (str_cmd buf c) \<and> cmd_ok buf es c \<and> upto buf es s s' rest)"

text \<open>A phrase of the grammar is found.\<close>

definition finds :: "byte list \<Rightarrow> nat \<Rightarrow> nat \<Rightarrow> byte list cmd \<Rightarrow> tok list \<Rightarrow> (range cmd \<times> nat) pres \<Rightarrow> bool" where
  "finds buf es s a rest r \<longleftrightarrow> (\<exists>c s'. r = Some (Inr (c, s')) \<and> str_cmd buf c = a \<and> cmd_ok buf es c \<and> upto buf es s s' rest)"

declare parseredirs.simps [simp del] parseexec_loop.simps [simp del] back_loop.simps [simp del] lexes.simps [simp del]

lemma block_sound:
  assumes l: "is_line buf es" and s: "s \<le> es" "lexes buf es s ts" "es - s < n" and h: "hsym {40} ts"
    and pl: "\<And>s' ts'. s < s' \<Longrightarrow> s' \<le> es \<Longrightarrow> lexes buf es s' ts' \<Longrightarrow> sound buf es gline s' ts' (pline s')"
  shows "sound buf es gexec s ts (parseblock n pline buf es s)"
proof -
  obtain ts1 where ts: "ts = Sym 40 # ts1" using h by (cases ts; cases "hd ts") auto
  obtain q e s1 where 1: "gettoken buf es s = (40, q, e, s1)" "lexes buf es s1 ts1" "s < s1" "s1 \<le> es"
    using token_Sym(1) [OF l s(1)] s(2) ts by blast
  note r1 = parseblock_def [of n pline buf es s, unfolded peek_tok_cases(2) [OF l s(1,2)]]
  from pl [OF 1(3,4,2)] show ?thesis unfolding sound_def [of _ _ _ s1]
  proof (elim disjE exE conjE)
    fix er assume "pline s1 = Some (Inl er)"
    then show ?thesis using r1 h 1(1) by (simp add: sound_def pbind_def)
  next
    fix c s2 ts2 rest
    assume 2: "pline s1 = Some (Inr (c, s2))" "ts1 = ts2 @ rest" "gline ts2 (str_cmd buf c)" "cmd_ok buf es c" "upto buf es s1 s2 rest"
    have u: "s1 \<le> s2" "s2 \<le> es" "lexes buf es s2 rest" using 2(5) by (simp_all add: upto_def)
    note p = peek_tok_cases(3) [OF l u(2,3)]
    show ?thesis
    proof (cases "hsym {41} rest")
      case False
      then show ?thesis using r1 h 1(1) 2(1) p by (simp add: sound_def pbind_def pfail_def)
    next
      case True
      then obtain rest1 where re: "rest = Sym 41 # rest1" by (cases rest; cases "hd rest") auto
      obtain q2 e2 s3 where 3: "gettoken buf es s2 = (41, q2, e2, s3)" "lexes buf es s3 rest1" "s2 < s3" "s3 \<le> es"
        using token_Sym(1) [OF l u(2)] u(3) re by blast
      have run: "parseblock n pline buf es s = pbind (parseredirs n buf es [] s3) (\<lambda>(rs, ps). pret (wrap c rs, ps))"
        using r1 h 1(1) 2(1) p True 3(1) by (simp add: pbind_def)
      have f: "es - s3 < n" using 1(3) u(1) 3(3) s(3) by linarith
      from redirs_sound [OF l 3(4,2) f, of "[]"] show ?thesis
      proof (elim disjE exE conjE)
        fix er assume "parseredirs n buf es [] s3 = Some (Inl er)"
        then show ?thesis using run by (simp add: sound_def pbind_def)
      next
        fix new s' rest'
        assume 4: "parseredirs n buf es [] s3 = Some (Inr ([] @ new, s'))" "rest1 = redir_toks (rwords buf new) @ rest'" "rs_ok buf es new" "upto buf es s3 s' rest'"
        have "gexec (Sym 40 # ts2 @ Sym 41 # redir_toks (rwords buf new)) (str_cmd buf (wrap c new))"
          using gexec_block [OF 2(3) rs_ok_redir [OF 4(3)]] by simp
        moreover have "upto buf es s s' rest'" using 4(4) 1(3) u(1) 3(3) by (simp add: upto_def)
        moreover have "cmd_ok buf es (wrap c new)" by (rule cmd_ok_wrap [OF 2(4) 4(3)])
        ultimately show ?thesis unfolding sound_def using run 4(1,2) ts 2(2) re
          by (intro disjI2 exI [of _ "wrap c new"] exI [of _ s'] exI [of _ "Sym 40 # ts2 @ Sym 41 # redir_toks (rwords buf new)"] exI [of _ rest'])
            (simp add: pbind_def pret_def)
      qed
    qed
  qed
qed

lemma exec_sound:
  assumes l: "is_line buf es" and s: "s \<le> es" "lexes buf es s ts" "es - s < n"
    and pl: "\<And>s' ts'. s < s' \<Longrightarrow> s' \<le> es \<Longrightarrow> lexes buf es s' ts' \<Longrightarrow> sound buf es gline s' ts' (pline s')"
  shows "sound buf es gexec s ts (parseexec n pline buf es s)"
proof -
  let ?s = "skip_space buf es s"
  have k: "s \<le> ?s" "?s \<le> es" "lexes buf es ?s ts" using skip_space_facts(1,2) [of s] s by simp_all
  have k4: "es - ?s < n" using k(1) s(3) by linarith
  note p = peek_tok_cases(2) [OF l s(1,2)]
  show ?thesis
  proof (cases "hsym {40} ts")
    case True
    have "sound buf es gexec ?s ts (parseblock n pline buf es ?s)" using k(1) pl by (intro block_sound [OF l k(2,3) k4 True]) simp
    moreover have "parseexec n pline buf es s = parseblock n pline buf es ?s" using p True by (simp add: parseexec_def)
    ultimately show ?thesis using k(1) unfolding sound_def upto_def by (metis (no_types, lifting) order_trans)
  next
    case False
    have run: "parseexec n pline buf es s = pbind (parseredirs n buf es [] ?s) (\<lambda>(rs, ps). parseexec_loop n buf es [] rs ps)"
      using p False by (simp add: parseexec_def)
    from redirs_sound [OF l k(2,3) k4, of "[]"] show ?thesis
    proof (elim disjE exE conjE)
      fix er assume "parseredirs n buf es [] ?s = Some (Inl er)"
      then show ?thesis using run by (simp add: sound_def pbind_def)
    next
      fix new s1 rest1
      assume 1: "parseredirs n buf es [] ?s = Some (Inr ([] @ new, s1))" "ts = redir_toks (rwords buf new) @ rest1" "rs_ok buf es new" "upto buf es ?s s1 rest1"
      have u: "s1 \<le> es" "lexes buf es s1 rest1" "es - s1 < n" "s \<le> s1" using 1(4) k(1) k4 unfolding upto_def by linarith+
      have z: "length ([] :: range list) < MAXARGS" by simp
      from exec_loop_sound [OF l u(1-3) z, of new] show ?thesis
      proof (elim disjE exE conjE)
        fix er assume "parseexec_loop n buf es [] new s1 = Some (Inl er)"
        then show ?thesis using run 1(1) by (simp add: sound_def pbind_def)
      next
        fix as new2 s2 ts2 rest2
        assume 2: "parseexec_loop n buf es [] new s1 = Some (Inr (wrap (EXEC ([] @ as)) (new @ new2), s2))" "rest1 = ts2 @ rest2"
          "gargs ts2 (map (slice buf) as) (rwords buf new2)" "rs_ok buf es new2" "list_all (word_at buf es) as" "length ([] @ as) < MAXARGS" "upto buf es s1 s2 rest2"
        let ?c = "wrap (EXEC as) (new @ new2)"
        have "gargs (redir_toks (rwords buf new) @ ts2) (map (slice buf) as) (rwords buf (new @ new2))"
          using gargs_redirs [OF 2(3) rs_ok_redir [OF 1(3)]] by simp
        then have "gexec (redir_toks (rwords buf new) @ ts2) (str_cmd buf ?c)" unfolding str_cmd_simps by (rule gexec_args) (use 2(6) in simp)
        moreover have "cmd_ok buf es ?c" using 1(3) 2(4,5) by (intro cmd_ok_wrap) simp_all
        moreover have "upto buf es s s2 rest2" using 2(7) u(4) by (simp add: upto_def)
        ultimately show ?thesis unfolding sound_def using run 1(1,2) 2(1,2)
          by (intro disjI2 exI [of _ ?c] exI [of _ s2] exI [of _ "redir_toks (rwords buf new) @ ts2"] exI [of _ rest2]) (simp add: pbind_def)
      qed
    qed
  qed
qed

lemma pipe_sound:
  assumes l: "is_line buf es"
  shows "s \<le> es \<Longrightarrow> lexes buf es s ts \<Longrightarrow> es - s < n \<Longrightarrow>
    (\<And>s' ts'. s < s' \<Longrightarrow> s' \<le> es \<Longrightarrow> lexes buf es s' ts' \<Longrightarrow> sound buf es gline s' ts' (pline s')) \<Longrightarrow>
    sound buf es gpipe s ts (parsepipe n pline buf es s)"
proof (induction n arbitrary: s ts)
  case (Suc n)
  have "sound buf es gexec s ts (parseexec (Suc n) pline buf es s)" by (rule exec_sound [OF l Suc.prems(1-3)]) (rule Suc.prems(4))
  then show ?case unfolding sound_def [of _ _ gexec]
  proof (elim disjE exE conjE)
    fix er assume "parseexec (Suc n) pline buf es s = Some (Inl er)"
    then show ?thesis by (simp add: sound_def pbind_def)
  next
    fix c s1 ts1 rest
    assume 1: "parseexec (Suc n) pline buf es s = Some (Inr (c, s1))" "ts = ts1 @ rest" "gexec ts1 (str_cmd buf c)" "cmd_ok buf es c" "upto buf es s s1 rest"
    have u: "s \<le> s1" "s1 \<le> es" "lexes buf es s1 rest" using 1(5) by (simp_all add: upto_def)
    have k: "s1 \<le> skip_space buf es s1" "skip_space buf es s1 \<le> es" using skip_space_facts(1,2) u(2) by simp_all
    note p = peek_tok_cases(4) [OF l u(2,3)]
    show ?thesis
    proof (cases "hsym {124} rest")
      case False
      then have "parsepipe (Suc n) pline buf es s = Some (Inr (c, skip_space buf es s1))" using 1(1) p by (simp add: pbind_def pret_def)
      moreover have "upto buf es s (skip_space buf es s1) rest" using u k by (simp add: upto_def)
      ultimately show ?thesis unfolding sound_def using 1(2-4) gpipe_exec by blast
    next
      case True
      then obtain rest1 where re: "rest = Sym 124 # rest1" by (cases rest; cases "hd rest") auto
      obtain q e s2 where 2: "gettoken buf es s1 = (124, q, e, s2)" "lexes buf es s2 rest1" "s1 < s2" "s2 \<le> es"
        using token_Sym(1) [OF l u(2)] u(3) re by blast
      have run: "parsepipe (Suc n) pline buf es s = pbind (parsepipe n pline buf es s2) (\<lambda>(right, ps). pret (PIPE c right, ps))"
        using 1(1) p True 2(1) by (simp add: pbind_def)
      have "sound buf es gpipe s2 rest1 (parsepipe n pline buf es s2)"
        using Suc.prems(3,4) u(1) 2 by (intro Suc.IH) (simp, simp, linarith, simp)
      then show ?thesis unfolding sound_def [of _ _ _ s2]
      proof (elim disjE exE conjE)
        fix er assume "parsepipe n pline buf es s2 = Some (Inl er)"
        then show ?thesis using run by (simp add: sound_def pbind_def)
      next
        fix d s3 ts3 rest3
        assume 3: "parsepipe n pline buf es s2 = Some (Inr (d, s3))" "rest1 = ts3 @ rest3" "gpipe ts3 (str_cmd buf d)" "cmd_ok buf es d" "upto buf es s2 s3 rest3"
        have "upto buf es s s3 rest3" using 3(5) u(1) 2(3) by (simp add: upto_def)
        then show ?thesis unfolding sound_def using run 1(2,4) 3 re gpipe_pipe [OF 1(3) 3(3)]
          by (intro disjI2 exI [of _ "PIPE c d"] exI [of _ s3] exI [of _ "ts1 @ Sym 124 # ts3"] exI [of _ rest3]) (simp add: pbind_def pret_def)
      qed
    qed
  qed
qed simp

lemma line_sound:
  assumes l: "is_line buf es"
  shows "s \<le> es \<Longrightarrow> lexes buf es s ts \<Longrightarrow> es - s < n \<Longrightarrow> sound buf es gline s ts (parseline n buf es s)"
proof (induction n arbitrary: s ts)
  case (Suc n)
  have "sound buf es gpipe s ts (parsepipe (Suc n) (parseline n buf es) buf es s)"
    using Suc.prems Suc.IH by (intro pipe_sound [OF l]) simp_all
  then show ?case unfolding sound_def [of _ _ gpipe]
  proof (elim disjE exE conjE)
    fix er assume "parsepipe (Suc n) (parseline n buf es) buf es s = Some (Inl er)"
    then show ?thesis by (simp add: sound_def pbind_def del: parsepipe.simps)
  next
    fix c s1 ts1 rest
    assume 1: "parsepipe (Suc n) (parseline n buf es) buf es s = Some (Inr (c, s1))" "ts = ts1 @ rest" "gpipe ts1 (str_cmd buf c)" "cmd_ok buf es c"
      "upto buf es s s1 rest"
    have u: "s \<le> s1" "s1 \<le> es" "lexes buf es s1 rest" "es - s1 < Suc n" using 1(5) Suc.prems(3) unfolding upto_def by linarith+
    obtain k s2 rest2 where 2: "rest = replicate k (Sym 38) @ rest2" "back_loop (Suc n) buf es c s1 = Some (Inr ((BACK ^^ k) c, s2))" "upto buf es s1 s2 rest2"
      using back_spec [OF l u(2-4), of c] by blast
    have u2: "s1 \<le> s2" "s2 \<le> es" "lexes buf es s2 rest2" using 2(3) by (simp_all add: upto_def)
    have k: "s2 \<le> skip_space buf es s2" "skip_space buf es s2 \<le> es" using skip_space_facts(1,2) u2(2) by simp_all
    note p = peek_tok_cases(6) [OF l u2(2,3)]
    show ?thesis
    proof (cases "hsym {59} rest2")
      case False
      then have "parseline (Suc n) buf es s = Some (Inr ((BACK ^^ k) c, skip_space buf es s2))" using 1(1) 2(2) p by (simp add: pbind_def pret_def del: parsepipe.simps)
      moreover have "upto buf es s (skip_space buf es s2) rest2" using u(1) u2 k by (simp add: upto_def)
      ultimately show ?thesis unfolding sound_def using 1(2,4) 2(1) gline_back [OF 1(3), of k]
        by (intro disjI2 exI [of _ "(BACK ^^ k) c"] exI [of _ "skip_space buf es s2"] exI [of _ "ts1 @ replicate k (Sym 38)"] exI [of _ rest2]) simp
    next
      case True
      then obtain rest3 where re: "rest2 = Sym 59 # rest3" by (cases rest2; cases "hd rest2") auto
      obtain q e s3 where 3: "gettoken buf es s2 = (59, q, e, s3)" "lexes buf es s3 rest3" "s2 < s3" "s3 \<le> es"
        using token_Sym(1) [OF l u2(2)] u2(3) re by blast
      have run: "parseline (Suc n) buf es s = pbind (parseline n buf es s3) (\<lambda>(right, ps). pret (LIST ((BACK ^^ k) c) right, ps))"
        using 1(1) 2(2) p True 3(1) by (simp add: pbind_def del: parsepipe.simps)
      have f: "es - s3 < n" using u(1) u2(1) 3(3,4) Suc.prems(3) by linarith
      from Suc.IH [OF 3(4,2) f] show ?thesis unfolding sound_def [of _ _ _ s3]
      proof (elim disjE exE conjE)
        fix er assume "parseline n buf es s3 = Some (Inl er)"
        then show ?thesis using run by (simp add: sound_def pbind_def)
      next
        fix d s4 ts4 rest4
        assume 4: "parseline n buf es s3 = Some (Inr (d, s4))" "rest3 = ts4 @ rest4" "gline ts4 (str_cmd buf d)" "cmd_ok buf es d" "upto buf es s3 s4 rest4"
        have "upto buf es s s4 rest4" using 4(5) u(1) u2(1) 3(3) by (simp add: upto_def)
        then show ?thesis unfolding sound_def using run 1(2,4) 2(1) 4 re gline_list [OF 1(3) 4(3), of k]
          by (intro disjI2 exI [of _ "LIST ((BACK ^^ k) c) d"] exI [of _ s4] exI [of _ "ts1 @ replicate k (Sym 38) @ Sym 59 # ts4"] exI [of _ rest4])
            (simp add: pbind_def pret_def)
      qed
    qed
  qed
qed simp

definition ends :: "byte set \<Rightarrow> tok list \<Rightarrow> bool" where
  "ends C rest \<longleftrightarrow> rest = [] \<or> hsym C rest"

lemma ends_mono: "ends C rest \<Longrightarrow> C \<subseteq> D \<Longrightarrow> ends D rest"
  by (auto simp: ends_def hsym_def split: list.splits tok.splits)

lemma ends_not: "ends C rest \<Longrightarrow> C \<inter> D = {} \<Longrightarrow> \<not> hsym D rest"
  by (auto simp: ends_def hsym_def split: list.splits tok.splits)

lemma hsym_hd: "\<not> hsym {c} rest \<Longrightarrow> rest = [] \<or> hd rest \<noteq> Sym c"
  by (cases rest) auto

lemma exec_args_complete:
  assumes l: "is_line buf es" and s: "s \<le> es" "lexes buf es s (ts @ rest)" "es - s < n" and rest: "ends {124, 41, 38, 59} rest"
    and g: "gargs ts ws rs" "length ws < MAXARGS"
  shows "finds buf es s (wrap (EXEC ws) rs) rest (parseexec n pline buf es s)"
proof -
  let ?s = "skip_space buf es s"
  have k: "s \<le> ?s" "?s \<le> es" using skip_space_facts(1,2) [of s] s by simp_all
  obtain r1 r2 ts2 where sp: "ts = redir_toks r1 @ ts2" "rs = r1 @ r2" "gargs ts2 ws r2" "list_all (\<lambda>(d, f). is_redir d) r1" "\<not> hsym {60, 62, 43} ts2"
    using gargs_split [OF g(1)] by blast
  have nb: "\<not> hsym {40} (ts @ rest)"
  proof -
    have "\<not> hsym {40} ts" using g(1) by (cases rule: gargs.cases) (auto simp: is_redir_def)
    moreover have "\<not> hsym {40} rest" by (rule ends_not [OF rest]) simp
    ultimately show ?thesis by (cases ts) (simp_all add: hsym_def)
  qed
  have nr: "\<not> hsym {60, 62, 43} (ts2 @ rest)"
    using sp(5) ends_not [OF rest, of "{60, 62, 43}"] by (cases ts2) (simp_all add: hsym_def)
  have lx: "lexes buf es ?s (redir_toks r1 @ ts2 @ rest)" using s(2) sp(1) by simp
  have f: "es - ?s < n" using k(1) s(3) by linarith
  obtain new s1 where 1: "parseredirs n buf es [] ?s = Some (Inr ([] @ new, s1))" "rwords buf new = r1" "rs_ok buf es new" "upto buf es ?s s1 (ts2 @ rest)"
    using redirs_complete [OF l k(2) lx sp(4) nr f, of "[]"] by blast
  have u: "s1 \<le> es" "lexes buf es s1 (ts2 @ rest)" "es - s1 < n" "s \<le> s1" using 1(4) k(1) f unfolding upto_def by linarith+
  have z: "length ([] :: range list) + length ws < MAXARGS" using g(2) by simp
  obtain as new2 s2 where 2: "parseexec_loop n buf es [] new s1 = Some (Inr (wrap (EXEC ([] @ as)) (new @ new2), s2))" "map (slice buf) as = ws"
      "rwords buf new2 = r2" "rs_ok buf es new2" "list_all (word_at buf es) as" "upto buf es s1 s2 rest"
    using exec_loop_complete [OF l rest [unfolded ends_def] u(1,2) sp(3,5) u(3) z, of new] by blast
  have "parseexec n pline buf es s = Some (Inr (wrap (EXEC as) (new @ new2), s2))"
    using peek_tok_cases(2) [OF l s(1,2)] nb 1(1) 2(1) by (simp add: parseexec_def pbind_def)
  moreover have "cmd_ok buf es (wrap (EXEC as) (new @ new2))" using 1(3) 2(4,5) by (intro cmd_ok_wrap) simp_all
  moreover have "str_cmd buf (wrap (EXEC as) (new @ new2)) = wrap (EXEC ws) rs" using 1(2) 2(2,3) sp(2) by simp
  moreover have "upto buf es s s2 rest" using 2(6) u(4) by (simp add: upto_def)
  ultimately show ?thesis unfolding finds_def by blast
qed

lemma exec_block_complete:
  assumes l: "is_line buf es" and s: "s \<le> es" "lexes buf es s (Sym 40 # ts @ Sym 41 # redir_toks rs @ rest)" "es - s < n" and rest: "ends {124, 41, 38, 59} rest"
    and rs: "list_all (\<lambda>(d, f). is_redir d) rs"
    and pl: "\<And>s' rest. s < s' \<Longrightarrow> s' \<le> es \<Longrightarrow> lexes buf es s' (ts @ rest) \<Longrightarrow> ends {41} rest \<Longrightarrow> finds buf es s' a rest (pline s')"
  shows "finds buf es s (wrap a rs) rest (parseexec n pline buf es s)"
proof -
  let ?s = "skip_space buf es s" and ?rest = "Sym 41 # redir_toks rs @ rest"
  have k: "s \<le> ?s" "?s \<le> es" "lexes buf es ?s (Sym 40 # ts @ ?rest)" using skip_space_facts(1,2) [of s] s by simp_all
  note p0 = peek_tok_cases(2) [OF l s(1,2)]
  note p1 = peek_tok_cases(2) [OF l k(2,3)]
  obtain q e s1 where 1: "gettoken buf es ?s = (40, q, e, s1)" "lexes buf es s1 (ts @ ?rest)" "?s < s1" "s1 \<le> es"
    using token_Sym(1) [OF l k(2,3)] by blast
  have "finds buf es s1 a ?rest (pline s1)" using k(1) 1 by (intro pl) (simp_all add: ends_def)
  then obtain c s2 where 2: "pline s1 = Some (Inr (c, s2))" "str_cmd buf c = a" "cmd_ok buf es c" "upto buf es s1 s2 ?rest" unfolding finds_def by blast
  have u: "s1 \<le> s2" "s2 \<le> es" "lexes buf es s2 ?rest" using 2(4) by (simp_all add: upto_def)
  obtain q2 e2 s3 where 3: "gettoken buf es s2 = (41, q2, e2, s3)" "lexes buf es s3 (redir_toks rs @ rest)" "s2 < s3" "s3 \<le> es"
    using token_Sym(1) [OF l u(2,3)] by blast
  have f: "es - s3 < n" using k(1) 1(3) u(1) 3(3) s(3) by linarith
  have nr: "\<not> hsym {60, 62, 43} rest" by (rule ends_not [OF rest]) simp
  obtain new s4 where 4: "parseredirs n buf es [] s3 = Some (Inr ([] @ new, s4))" "rwords buf new = rs" "rs_ok buf es new" "upto buf es s3 s4 rest"
    using redirs_complete [OF l 3(4,2) rs nr f, of "[]"] by blast
  have "parseexec n pline buf es s = Some (Inr (wrap c new, s4))"
    using p0 p1 1(1) 2(1) peek_tok_cases(3) [OF l u(2,3)] 3(1) 4(1) by (simp add: parseexec_def parseblock_def pbind_def pret_def)
  moreover have "cmd_ok buf es (wrap c new)" by (rule cmd_ok_wrap [OF 2(3) 4(3)])
  moreover have "upto buf es s s4 rest" using 4(4) k(1) 1(3) u(1) 3(3) by (simp add: upto_def)
  ultimately show ?thesis unfolding finds_def using 2(2) 4(2) by auto
qed

declare parsepipe.simps [simp del] parseline.simps [simp del]

lemma upto_skip: "upto buf es s s' rest \<Longrightarrow> upto buf es s (skip_space buf es s') rest"
  using skip_space_facts(1) [of s' buf es] skip_space_facts(2) [of s' es buf] by (simp add: upto_def)

lemma pipe_exec_complete:
  assumes l: "is_line buf es" and s: "es - s < n" and rest: "ends {41, 38, 59} rest"
    and ex: "finds buf es s a rest (parseexec n pline buf es s)"
  shows "finds buf es s a rest (parsepipe n pline buf es s)"
proof -
  obtain c s1 where 1: "parseexec n pline buf es s = Some (Inr (c, s1))" "str_cmd buf c = a" "cmd_ok buf es c" "upto buf es s s1 rest"
    using ex unfolding finds_def by blast
  have u: "s \<le> s1" "s1 \<le> es" "lexes buf es s1 rest" using 1(4) by (simp_all add: upto_def)
  have "\<not> hsym {124} rest" by (rule ends_not [OF rest]) simp
  then have "parsepipe n pline buf es s = Some (Inr (c, skip_space buf es s1))"
    using s 1(1) peek_tok_cases(4) [OF l u(2,3)] by (cases n) (simp_all add: parsepipe.simps pbind_def pret_def)
  then show ?thesis unfolding finds_def using 1(2,3) upto_skip [OF 1(4)] by blast
qed

lemma pipe_pipe_complete:
  assumes l: "is_line buf es" and s: "es - s < n"
    and ex: "finds buf es s a (Sym 124 # ts @ rest) (parseexec n pline buf es s)"
    and pp: "\<And>m s'. s < s' \<Longrightarrow> s' \<le> es \<Longrightarrow> lexes buf es s' (ts @ rest) \<Longrightarrow> es - s' < m \<Longrightarrow> finds buf es s' b rest (parsepipe m pline buf es s')"
  shows "finds buf es s (PIPE a b) rest (parsepipe n pline buf es s)"
proof -
  obtain c s1 where 1: "parseexec n pline buf es s = Some (Inr (c, s1))" "str_cmd buf c = a" "cmd_ok buf es c" "upto buf es s s1 (Sym 124 # ts @ rest)"
    using ex unfolding finds_def by blast
  have u: "s \<le> s1" "s1 \<le> es" "lexes buf es s1 (Sym 124 # ts @ rest)" using 1(4) by (simp_all add: upto_def)
  obtain q e s2 where 2: "gettoken buf es s1 = (124, q, e, s2)" "lexes buf es s2 (ts @ rest)" "s1 < s2" "s2 \<le> es"
    using token_Sym(1) [OF l u(2,3)] by blast
  obtain m where m: "n = Suc m" using s by (cases n) simp_all
  have "finds buf es s2 b rest (parsepipe m pline buf es s2)" using u(1) 2 s m by (intro pp) simp_all
  then obtain d s3 where 3: "parsepipe m pline buf es s2 = Some (Inr (d, s3))" "str_cmd buf d = b" "cmd_ok buf es d" "upto buf es s2 s3 rest"
    unfolding finds_def by blast
  have "parsepipe n pline buf es s = Some (Inr (PIPE c d, s3))"
    using 1(1) peek_tok_cases(4) [OF l u(2,3)] 2(1) 3(1) m by (simp add: parsepipe.simps pbind_def pret_def)
  moreover have "upto buf es s s3 rest" using 3(4) u(1) 2(3) by (simp add: upto_def)
  ultimately show ?thesis unfolding finds_def using 1(2,3) 3(2,3) by auto
qed

text \<open>parseline after its first pipeline and the ampersands.\<close>

lemma line_back:
  assumes l: "is_line buf es" and s: "es - s < Suc n"
    and pp: "finds buf es s a (replicate k (Sym 38) @ rest) (parsepipe (Suc n) (parseline n buf es) buf es s)" and rest: "\<not> hsym {38} rest"
  shows "\<exists>c s'. str_cmd buf c = (BACK ^^ k) a \<and> cmd_ok buf es c \<and> upto buf es s s' rest \<and>
    parseline (Suc n) buf es s = (let (r, ps) = peek buf es s' [59] in
     if \<not> r then pret (c, ps) else
     let (_, _, _, ps) = gettoken buf es ps in
     pbind (parseline n buf es ps) (\<lambda>(right, ps). pret (LIST c right, ps)))"
proof -
  obtain c s1 where 1: "parsepipe (Suc n) (parseline n buf es) buf es s = Some (Inr (c, s1))" "str_cmd buf c = a" "cmd_ok buf es c"
      "upto buf es s s1 (replicate k (Sym 38) @ rest)" using pp unfolding finds_def by blast
  have u: "s \<le> s1" "s1 \<le> es" "lexes buf es s1 (replicate k (Sym 38) @ rest)" "es - s1 < Suc n" using 1(4) s unfolding upto_def by linarith+
  obtain k' s2 rest2 where 2: "replicate k (Sym 38) @ rest = replicate k' (Sym 38) @ rest2" "\<not> hsym {38} rest2"
      "back_loop (Suc n) buf es c s1 = Some (Inr ((BACK ^^ k') c, s2))" "upto buf es s1 s2 rest2"
    using back_spec [OF l u(2-4), of c] by blast
  have e: "k' = k" "rest2 = rest" using replicate_unique [OF 2(1) hsym_hd [OF rest] hsym_hd [OF 2(2)]] by simp_all
  have "parseline (Suc n) buf es s = (let (r, ps) = peek buf es s2 [59] in
     if \<not> r then pret ((BACK ^^ k) c, ps) else
     let (_, _, _, ps) = gettoken buf es ps in
     pbind (parseline n buf es ps) (\<lambda>(right, ps). pret (LIST ((BACK ^^ k) c) right, ps)))"
    using 1(1) 2(3) e by (simp add: parseline.simps pbind_def)
  moreover have "upto buf es s s2 rest" using 2(4) e u(1) by (simp add: upto_def)
  ultimately show ?thesis using 1(2,3) by (intro exI [of _ "(BACK ^^ k) c"] exI [of _ s2]) simp
qed

lemma parser_complete:
  assumes l: "is_line buf es"
  shows "gline ts a \<Longrightarrow> s \<le> es \<Longrightarrow> lexes buf es s (ts @ rest) \<Longrightarrow> ends {41} rest \<Longrightarrow> es - s < n \<Longrightarrow> finds buf es s a rest (parseline n buf es s)"
    and "gpipe ts a \<Longrightarrow> s \<le> es \<Longrightarrow> lexes buf es s (ts @ rest) \<Longrightarrow> ends {41, 38, 59} rest \<Longrightarrow> es - s < n \<Longrightarrow> es - s \<le> m \<Longrightarrow>
      finds buf es s a rest (parsepipe n (parseline m buf es) buf es s)"
    and "gexec ts a \<Longrightarrow> s \<le> es \<Longrightarrow> lexes buf es s (ts @ rest) \<Longrightarrow> ends {124, 41, 38, 59} rest \<Longrightarrow> es - s < n \<Longrightarrow> es - s \<le> m \<Longrightarrow>
      finds buf es s a rest (parseexec n (parseline m buf es) buf es s)"
proof (induction arbitrary: s rest n and s rest n m and s rest n m rule: gline_gpipe_gexec.inducts)
  case (gline_back ts c k)
  obtain n' where n: "n = Suc n'" using gline_back.prems(4) by (cases n) simp_all
  have "ends {41, 38, 59} (replicate k (Sym 38) @ rest)"
    using gline_back.prems(3) by (cases k) (auto simp: ends_def hsym_def split: list.splits tok.splits)
  then have "finds buf es s c (replicate k (Sym 38) @ rest) (parsepipe n (parseline n' buf es) buf es s)"
    using gline_back.prems n by (intro gline_back.IH) simp_all
  moreover have "\<not> hsym {38} rest" by (rule ends_not [OF gline_back.prems(3)]) simp
  ultimately obtain c' s' where 1: "str_cmd buf c' = (BACK ^^ k) c" "cmd_ok buf es c'" "upto buf es s s' rest"
    "parseline (Suc n') buf es s = (let (r, ps) = peek buf es s' [59] in
     if \<not> r then pret (c', ps) else
     let (_, _, _, ps) = gettoken buf es ps in
     pbind (parseline n' buf es ps) (\<lambda>(right, ps). pret (LIST c' right, ps)))"
    using line_back [OF l, of s n'] gline_back.prems(4) n by blast
  have u: "s \<le> s'" "s' \<le> es" "lexes buf es s' rest" using 1(3) by (simp_all add: upto_def)
  have "\<not> hsym {59} rest" by (rule ends_not [OF gline_back.prems(3)]) simp
  then have "parseline n buf es s = Some (Inr (c', skip_space buf es s'))" using 1(4) n peek_tok_cases(6) [OF l u(2,3)] by (simp add: pret_def)
  then show ?case unfolding finds_def using 1(1,2) upto_skip [OF 1(3)] by blast
next
  case (gline_list ts c ts' d k)
  obtain n' where n: "n = Suc n'" using gline_list.prems(4) by (cases n) simp_all
  let ?rest = "Sym 59 # ts' @ rest"
  have "ends {41, 38, 59} (replicate k (Sym 38) @ ?rest)" by (cases k) (simp_all add: ends_def)
  then have "finds buf es s c (replicate k (Sym 38) @ ?rest) (parsepipe n (parseline n' buf es) buf es s)"
    using gline_list.prems n by (intro gline_list.IH(1)) simp_all
  then obtain c' s' where 1: "str_cmd buf c' = (BACK ^^ k) c" "cmd_ok buf es c'" "upto buf es s s' ?rest"
    "parseline (Suc n') buf es s = (let (r, ps) = peek buf es s' [59] in
     if \<not> r then pret (c', ps) else
     let (_, _, _, ps) = gettoken buf es ps in
     pbind (parseline n' buf es ps) (\<lambda>(right, ps). pret (LIST c' right, ps)))"
    using line_back [OF l, of s n' c k ?rest] gline_list.prems(4) n by auto
  have u: "s \<le> s'" "s' \<le> es" "lexes buf es s' ?rest" using 1(3) by (simp_all add: upto_def)
  obtain q e s2 where 2: "gettoken buf es s' = (59, q, e, s2)" "lexes buf es s2 (ts' @ rest)" "s' < s2" "s2 \<le> es"
    using token_Sym(1) [OF l u(2,3)] by blast
  have "finds buf es s2 d rest (parseline n' buf es s2)"
    using u(1) 2 gline_list.prems(3,4) n by (intro gline_list.IH(2)) simp_all
  then obtain d' s3 where 3: "parseline n' buf es s2 = Some (Inr (d', s3))" "str_cmd buf d' = d" "cmd_ok buf es d'" "upto buf es s2 s3 rest"
    unfolding finds_def by blast
  have "parseline n buf es s = Some (Inr (LIST c' d', s3))"
    using 1(4) n peek_tok_cases(6) [OF l u(2,3)] 2(1) 3(1) by (simp add: pbind_def pret_def)
  moreover have "upto buf es s s3 rest" using 3(4) u(1) 2(3) by (simp add: upto_def)
  ultimately show ?case unfolding finds_def using 1(1,2) 3(2,3) by auto
next
  case (gpipe_exec ts c)
  show ?case
    by (rule pipe_exec_complete [OF l gpipe_exec.prems(4,3)], rule gpipe_exec.IH [OF gpipe_exec.prems(1,2) _ gpipe_exec.prems(4,5)])
      (rule ends_mono [OF gpipe_exec.prems(3)], simp)
next
  case (gpipe_pipe ts c ts' d)
  show ?case
  proof (rule pipe_pipe_complete [OF l gpipe_pipe.prems(4)])
    show "finds buf es s c (Sym 124 # ts' @ rest) (parseexec n (parseline m buf es) buf es s)"
      using gpipe_pipe.prems by (intro gpipe_pipe.IH(1)) (simp_all add: ends_def)
    show "finds buf es s' d rest (parsepipe m' (parseline m buf es) buf es s')"
      if "s < s'" "s' \<le> es" "lexes buf es s' (ts' @ rest)" "es - s' < m'" for m' s'
      using that gpipe_pipe.prems(3,5) by (intro gpipe_pipe.IH(2)) simp_all
  qed
next
  case (gexec_args ts ws rs)
  then show ?case by (intro exec_args_complete [OF l])
next
  case (gexec_block ts c rs)
  show ?case
  proof (rule exec_block_complete [OF l gexec_block.prems(1) _ gexec_block.prems(4,3) gexec_block.hyps(2)])
    show "lexes buf es s (Sym 40 # ts @ Sym 41 # redir_toks rs @ rest)" using gexec_block.prems(2) by simp
    show "finds buf es s' c rest' (parseline m buf es s')" if "s < s'" "s' \<le> es" "lexes buf es s' (ts @ rest')" "ends {41} rest'" for s' rest'
      using that gexec_block.prems(5) by (intro gexec_block.IH) simp_all
  qed
qed

section \<open>Ending the strings\<close>

lemma length_nulterminate [simp]: "length (nulterminate c buf) = length buf"
proof (induction c buf rule: nulterminate.induct)
  case (1 argv buf)
  show ?case by (induction argv arbitrary: buf) auto
qed simp_all

lemma nth_nulterminate: "i < length buf \<Longrightarrow> nulterminate c buf ! i = (if i \<in> snd ` set_cmd c then 0 else buf ! i)"
proof (induction c buf rule: nulterminate.induct)
  case (1 argv buf)
  then show ?case
  proof (induction argv arbitrary: buf)
    case (Cons a argv)
    then show ?case by (cases a) (auto simp: nth_list_update)
  qed simp
next
  case (2 c q1 q2 mode fd buf)
  then show ?case by (cases "i = q2") simp_all
qed auto

lemma str_at_nulterminate:
  assumes l: "is_line buf es" and ok: "cmd_ok buf es c" and t: "(q, e) \<in> set_cmd c"
  shows "str_at (nulterminate c buf) q = slice buf (q, e)"
proof -
  let ?b = "nulterminate c buf"
  have w: "q < e" "e \<le> es" "\<And>i. q \<le> i \<Longrightarrow> i < e \<Longrightarrow> \<not> space (at buf i) \<and> \<not> symbol (at buf i)"
    using ok t by (auto simp: cmd_ok_def word_at_def)
  have es: "es \<le> length buf" by (rule at_line(3) [OF l])
  have same: "?b ! i = buf ! i \<and> buf ! i \<noteq> 0" if "q \<le> i" "i < e" for i
  proof -
    have i: "i < es" "i < length buf" using that w(2) es by simp_all
    have "i \<notin> snd ` set_cmd c"
    proof
      assume "i \<in> snd ` set_cmd c"
      then have "space (at buf i) \<or> symbol (at buf i)" using ok i(1) by (auto simp: cmd_ok_def word_at_def)
      then show False using w(3) [OF that] by simp
    qed
    then show ?thesis using nth_nulterminate [OF i(2), of c] at_line(1) [OF l i(1)] i(2) by (simp add: at_def)
  qed
  have tk: "take (e - q) (drop q ?b) = slice buf (q, e)" using same w(1,2) es by (intro nth_equalityI) (auto simp: slice_def)
  moreover have "c \<noteq> 0" if "c \<in> set (slice buf (q, e))" for c
    using that same w(1,2) es by (auto simp: slice_def in_set_conv_nth)
  moreover have "drop q ?b = slice buf (q, e) @ drop e ?b"
    using append_take_drop_id [of "e - q" "drop q ?b"] tk w(1) by simp
  moreover have "drop e ?b = [] \<or> hd (drop e ?b) = 0"
  proof (cases "e < length buf")
    case True
    have "e \<in> snd ` set_cmd c" using t by force
    then show ?thesis using nth_nulterminate [OF True, of c] True by (simp add: hd_drop_conv_nth)
  qed simp
  ultimately show ?thesis unfolding str_at_def cstring_def by (cases "drop e ?b") (auto simp: takeWhile_append)
qed

section \<open>Properties of the parser\<close>

lemma parsecmd_sound:
  "(\<exists>e. parsecmd buf = Some (Inl e)) \<or>
   (\<exists>c ts. parsecmd buf = Some (Inr (c, nulterminate c buf)) \<and> lexes buf (strlen_u buf) 0 ts \<and> gline ts (str_cmd buf c) \<and> cmd_ok buf (strlen_u buf) c)"
proof -
  let ?es = "strlen_u buf"
  have l: "is_line buf ?es" by (simp add: is_line_def)
  obtain ts where ts: "lexes buf ?es 0 ts" using lexes_ex [OF l, of 0] by auto
  have "sound buf ?es gline 0 ts (parseline (?es + 1) buf ?es 0)" using ts by (intro line_sound [OF l]) simp_all
  then show ?thesis unfolding sound_def
  proof (elim disjE exE conjE)
    fix e assume "parseline (?es + 1) buf ?es 0 = Some (Inl e)"
    then show ?thesis by (simp add: parsecmd_def pbind_def)
  next
    fix c s' ts1 rest
    assume a: "parseline (?es + 1) buf ?es 0 = Some (Inr (c, s'))" "ts = ts1 @ rest" "gline ts1 (str_cmd buf c)" "cmd_ok buf ?es c" "upto buf ?es 0 s' rest"
    have u: "s' \<le> ?es" "lexes buf ?es s' rest" using a(5) by (simp_all add: upto_def)
    show ?thesis
    proof (cases "skip_space buf ?es s' = ?es")
      case True
      then have "lexes buf ?es s' []" using lexes_Nil_es [OF l u(1)] by simp
      then have "rest = []" using u(2) by (cases rest) (auto simp: lexes.simps)
      then show ?thesis using a True ts by (auto simp: parsecmd_def pbind_def peek_def pret_def)
    next
      case False
      then show ?thesis using a(1) by (simp add: parsecmd_def pbind_def peek_def)
    qed
  qed
qed

lemma parsecmd_complete:
  assumes "lexes buf (strlen_u buf) 0 ts" "gline ts a"
  shows "\<exists>c. parsecmd buf = Some (Inr (c, nulterminate c buf)) \<and> str_cmd buf c = a \<and> cmd_ok buf (strlen_u buf) c"
proof -
  let ?es = "strlen_u buf"
  have l: "is_line buf ?es" by (simp add: is_line_def)
  have "finds buf ?es 0 a [] (parseline (?es + 1) buf ?es 0)" using assms(1) by (intro parser_complete(1) [OF l assms(2)]) (simp_all add: ends_def)
  then obtain c s' where a: "parseline (?es + 1) buf ?es 0 = Some (Inr (c, s'))" "str_cmd buf c = a" "cmd_ok buf ?es c" "upto buf ?es 0 s' []"
    unfolding finds_def by blast
  then have "skip_space buf ?es s' = ?es" using lexes_Nil_es [OF l, of s'] by (simp add: upto_def)
  then show ?thesis using a by (simp add: parsecmd_def pbind_def peek_def pret_def)
qed

lemma parsecmd_words: "parsecmd buf = Some (Inr (c, buf')) \<Longrightarrow> map_cmd (\<lambda>t. str_at buf' (fst t)) c = str_cmd buf c"
proof -
  assume "parsecmd buf = Some (Inr (c, buf'))"
  then have c: "buf' = nulterminate c buf" "cmd_ok buf (strlen_u buf) c" using parsecmd_sound [of buf] by auto
  have l: "is_line buf (strlen_u buf)" by (simp add: is_line_def)
  show ?thesis unfolding str_cmd_def using str_at_nulterminate [OF l c(2)] c(1) by (intro cmd.map_cong0) auto
qed

text \<open>
  C10: The parser of the shell always finishes, and it accepts exactly the lines of the grammar: parsecmd returns a
  tree when the tokens of the line derive it, and the tree is the one they derive; in the line that
  nulterminate leaves, every string of the tree is the word that the parser saw.
\<close>

theorem parsecmd_grammar:
  "(\<exists>r. parsecmd buf = Some r) \<and>
   ((\<exists>c buf'. parsecmd buf = Some (Inr (c, buf')) \<and> str_cmd buf c = a) \<longleftrightarrow> (\<exists>ts. lexes buf (strlen_u buf) 0 ts \<and> gline ts a)) \<and>
   (parsecmd buf = Some (Inr (c, buf')) \<longrightarrow> map_cmd (\<lambda>t. str_at buf' (fst t)) c = str_cmd buf c)"
proof (intro conjI impI)
  show "\<exists>r. parsecmd buf = Some r" using parsecmd_sound [of buf] by blast
  show "(\<exists>c buf'. parsecmd buf = Some (Inr (c, buf')) \<and> str_cmd buf c = a) \<longleftrightarrow> (\<exists>ts. lexes buf (strlen_u buf) 0 ts \<and> gline ts a)"
    using parsecmd_sound [of buf] parsecmd_complete [of buf _ a] by (metis Inl_Inr_False Inr_inject option.inject prod.inject)
qed (rule parsecmd_words)

theorem parsecmd_grammar_witness:
  "parsecmd [97, 60, 98, 124, 99, 10, 0] = Some (Inr (PIPE (REDIR (EXEC [(0, 1)]) (2, 3) 0 0) (EXEC [(4, 5)]), [97, 0, 98, 0, 99, 0, 0])) \<and>
   map_cmd (\<lambda>t. str_at [97, 0, 98, 0, 99, 0, 0] (fst t)) (PIPE (REDIR (EXEC [(0, 1)]) (2, 3) 0 0) (EXEC [(4, 5)])) =
     PIPE (REDIR (EXEC [[97]]) [98] 0 0) (EXEC [[99]])"
proof -
  let ?c = "PIPE (REDIR (EXEC [(0, 1)]) (2, 3) 0 0) (EXEC [(4, 5)]) :: range cmd"
  have p: "parsecmd [97, 60, 98, 124, 99, 10, 0] = Some (Inr (?c, [97, 0, 98, 0, 99, 0, 0]))" by code_simp
  have "str_cmd [97, 60, 98, 124, 99, 10, 0] ?c = PIPE (REDIR (EXEC [[97]]) [98] 0 0) (EXEC [[99]])"
    by (simp add: str_cmd_def slice_def)
  then show ?thesis using p parsecmd_grammar [of "[97, 60, 98, 124, 99, 10, 0]" _ ?c "[97, 0, 98, 0, 99, 0, 0]"] by simp
qed

section \<open>What a line runs\<close>

text \<open>
  The programs that a process and its children come to run, each with its descriptors, when open, pipe and dup take the lowest free descriptor,
  as the kernel's fdalloc does.  \<open>ok\<close> says which files can be opened, \<open>xok\<close> which programs can be executed; forks succeed.
\<close>

datatype obj = OInit nat | OFile "byte list" int | OPipeR nat | OPipeW nat

type_synonym fdt = "nat \<Rightarrow> obj option"
type_synonym event = "byte list \<times> byte list list \<times> fdt"

definition lowest :: "fdt \<Rightarrow> nat option" where
  "lowest t = find (\<lambda>i. t i = None) [0..<16]"

primrec run :: "(byte list \<Rightarrow> int \<Rightarrow> bool) \<Rightarrow> (byte list \<Rightarrow> bool) \<Rightarrow> prog \<Rightarrow> fdt \<Rightarrow> nat \<Rightarrow> event list \<times> nat" where
  "run ok xok PExit t n = ([], n)"
| "run ok xok (PExec p av k) t n = (if xok p then ([(p, av, t)], n) else run ok xok k t n)"
| "run ok xok (PClose fd k) t n = run ok xok k (t(nat fd := None)) n"
| "run ok xok (POpen f m k) t n =
     (case lowest t of None \<Rightarrow> run ok xok (k (- 1)) t n
      | Some i \<Rightarrow> if ok f m then run ok xok (k (int i)) (t(i := Some (OFile f m))) n else run ok xok (k (- 1)) t n)"
| "run ok xok (PPipe fl k) t n =
     (case lowest t of None \<Rightarrow> run ok xok fl t n
      | Some i \<Rightarrow> (case lowest (t(i := Some (OPipeR n))) of None \<Rightarrow> run ok xok fl t n
        | Some j \<Rightarrow> run ok xok (k (int i) (int j)) (t(i := Some (OPipeR n), j := Some (OPipeW n))) (Suc n)))"
| "run ok xok (PDup fd k) t n =
     (case lowest t of None \<Rightarrow> run ok xok k t n
      | Some i \<Rightarrow> (case t (nat fd) of None \<Rightarrow> run ok xok k t n | Some x \<Rightarrow> run ok xok k (t(i := Some x)) n))"
| "run ok xok (PFork fl child parent) t n =
     (let (e, n) = run ok xok child t n; (e', n) = run ok xok parent t n in (e @ e', n))"
| "run ok xok (PWait k) t n = run ok xok k t n"
| "run ok xok (PChdir d k) t n = run ok xok (k 0) t n"
| "run ok xok (PPrint fd s as k) t n = run ok xok k t n"

text \<open>The standard descriptors and nothing else.\<close>

definition std :: "obj \<Rightarrow> obj \<Rightarrow> obj \<Rightarrow> fdt" where
  "std i out e = [0 \<mapsto> i, 1 \<mapsto> out, 2 \<mapsto> e]"

text \<open>How the programs of a command are to be connected.\<close>

primrec wiring :: "(byte list \<Rightarrow> int \<Rightarrow> bool) \<Rightarrow> (byte list \<Rightarrow> bool) \<Rightarrow> obj \<Rightarrow> byte list cmd \<Rightarrow> obj \<Rightarrow> obj \<Rightarrow> nat \<Rightarrow> event list \<times> nat" where
  "wiring ok xok e (EXEC ws) i out n = (case ws of [] \<Rightarrow> ([], n) | w # _ \<Rightarrow> if xok w then ([(w, ws, std i out e)], n) else ([], n))"
| "wiring ok xok e (REDIR c f mode fd) i out n =
     (if \<not> ok f mode then ([], n) else if fd = 0 then wiring ok xok e c (OFile f mode) out n else wiring ok xok e c i (OFile f mode) n)"
| "wiring ok xok e (PIPE c d) i out n =
     (let (es, m) = wiring ok xok e c i (OPipeW n) (Suc n); (es', m) = wiring ok xok e d (OPipeR n) out m in (es @ es', m))"
| "wiring ok xok e (LIST c d) i out n = (let (es, m) = wiring ok xok e c i out n; (es', m) = wiring ok xok e d i out m in (es @ es', m))"
| "wiring ok xok e (BACK c) i out n = wiring ok xok e c i out n"

primrec redir01 :: "'s cmd \<Rightarrow> bool" where
  "redir01 (EXEC ws) = True"
| "redir01 (REDIR c f mode fd) \<longleftrightarrow> fd \<in> {0, 1} \<and> redir01 c"
| "redir01 (PIPE c d) \<longleftrightarrow> redir01 c \<and> redir01 d"
| "redir01 (LIST c d) \<longleftrightarrow> redir01 c \<and> redir01 d"
| "redir01 (BACK c) = redir01 c"

lemma redir01_wrap: "redir01 c \<Longrightarrow> redir01 (wrap c rs)"
proof (induction rs arbitrary: c)
  case (Cons r rs)
  then show ?case by (cases r) (simp add: redir_tok_def)
qed simp

lemma redir01_map: "redir01 (map_cmd f c) = redir01 c"
  by (induction c) simp_all

lemma grammar_redir01: "gline ts a \<Longrightarrow> redir01 a" "gpipe ts a \<Longrightarrow> redir01 a" "gexec ts a \<Longrightarrow> redir01 a"
proof (induction rule: gline_gpipe_gexec.inducts)
  have b: "redir01 ((BACK ^^ k) c) = redir01 c" for k and c :: "byte list cmd" by (induction k) simp_all
  case (gline_back ts c k)
  then show ?case by (simp add: b)
next
  have b: "redir01 ((BACK ^^ k) c) = redir01 c" for k and c :: "byte list cmd" by (induction k) simp_all
  case (gline_list ts c ts' d k)
  then show ?case by (simp add: b)
qed (simp_all add: redir01_wrap)

lemma lowest_std: "lowest (std i out e) = Some 3" "lowest ((std i out e)(3 := Some x)) = Some 4" "lowest ((std i out e)(0 := None)) = Some 0"
  "lowest ((std i out e)(Suc 0 := None)) = Some 1" "lowest ((std i out e)(3 := Some x, 4 := Some y, 0 := None)) = Some 0"
  "lowest ((std i out e)(3 := Some x, 4 := Some y, Suc 0 := None)) = Some 1"
  by (simp_all add: lowest_def std_def upt_rec)


lemma std_restore:
  "(std i out e)(0 \<mapsto> x) = std x out e" "(std i out e)(Suc 0 \<mapsto> x) = std i x e"
  "(std i out e)(3 := None, 4 := None) = std i out e"
  by (auto simp: std_def fun_eq_iff)

lemma run_wiring:
  "redir01 c \<Longrightarrow> run ok xok (runcmd buf c) (std i out e) n = wiring ok xok e (map_cmd (\<lambda>t. str_at buf (fst t)) c) i out n"
proof (induction buf c arbitrary: i out n rule: runcmd.induct)
  case (1 buf argv)
  then show ?case by (cases argv) (auto simp: case_prod_beta)
next
  case (2 buf c f x mode fd)
  then consider "fd = 0" | "fd = 1" by auto
  then show ?case using 2(1) [of 0] 2(2) by cases (simp_all add: lowest_std std_restore)
next
  case (3 buf left right)
  then show ?case by (simp add: fork1_def)
next
  case (4 buf left right)
  then show ?case by (simp add: fork1_def lowest_std std_restore)
next
  case (5 buf c)
  then show ?case by (simp add: fork1_def)
qed

text \<open>
  C11: A line of the grammar is run as its tree says.  The process that main forks for a line, started with three descriptors,
  comes to execute exactly the programs of the tree, in each the words of the tree as arguments: a redirection replaces descriptor 0 or 1 by its file,
  a pipe joins descriptor 1 of its left side to descriptor 0 of its right side through a pipe of its own, and
  every program has the descriptors 0, 1 and 2 and no other, so that no end of a pipe is kept open by a process that does not use it.
\<close>

theorem line_wiring:
  "lexes buf (strlen_u buf) 0 ts \<Longrightarrow> gline ts a \<Longrightarrow>
   \<exists>p. runline buf = Some p \<and> run ok xok p (std i out e) n = wiring ok xok e a i out n"
proof -
  assume a: "lexes buf (strlen_u buf) 0 ts" "gline ts a"
  obtain c where c: "parsecmd buf = Some (Inr (c, nulterminate c buf))" "str_cmd buf c = a" "cmd_ok buf (strlen_u buf) c"
    using parsecmd_complete [OF a] parsecmd_sound [of buf] by fastforce
  have "map_cmd (\<lambda>t. str_at (nulterminate c buf) (fst t)) c = a" using parsecmd_words [OF c(1)] c(2) by simp
  moreover have "redir01 c" using grammar_redir01(1) [OF a(2)] redir01_map [of _ c] c(2) by (auto simp: str_cmd_def)
  ultimately have "run ok xok (runcmd (nulterminate c buf) c) (std i out e) n = wiring ok xok e a i out n" by (simp add: run_wiring)
  then show ?thesis using c(1) by (simp add: runline_def)
qed

theorem line_wiring_witness:
  "\<exists>p. runline [97, 60, 98, 124, 99, 10, 0] = Some p \<and>
     run (\<lambda>_ _. True) (\<lambda>_. True) p (std (OInit 0) (OInit 0) (OInit 0)) 0 =
       ([([97], [[97]], std (OFile [98] 0) (OPipeW 0) (OInit 0)), ([99], [[99]], std (OPipeR 0) (OInit 0) (OInit 0))], 1)"
proof -
  let ?buf = "[97, 60, 98, 124, 99, 10, 0] :: byte list" and ?ts = "[Word [97], Sym 60, Word [98], Sym 124, Word [99]]"
  have l: "lexes ?buf (strlen_u ?buf) 0 ?ts" by code_simp
  have r: "gargs [Word [97], Sym 60, Word [98]] [[97]] [(60, [98])]" "gargs [Word [99]] [[99]] []"
    by (intro gargs.intros; simp add: is_redir_def)+
  have "gpipe ([Word [97], Sym 60, Word [98]] @ Sym 124 # [Word [99]]) (PIPE (wrap (EXEC [[97]]) [(60, [98])]) (wrap (EXEC [[99]]) []))"
    using r by (intro gpipe_pipe gpipe_exec gexec_args) simp_all
  then have "gline ?ts (PIPE (REDIR (EXEC [[97]]) [98] 0 0) (EXEC [[99]]))"
    using gline_back [of _ _ 0] by (simp add: redir_tok_def)
  from line_wiring [OF l this, of "\<lambda>_ _. True" "\<lambda>_. True" "OInit 0" "OInit 0" "OInit 0" 0] show ?thesis by simp
qed

end
