(* ===== verification/Ide.thy ===== *)
theory Ide
  imports Cache
begin

text \<open>
  The interrupt driven disk driver (ide.c), with the drive it talks to and the processes that wait for it.  What runs between acquire and release of idelock,
  or up to the sleep that gives the lock up, is one step of the model.  A buffer is handed to iderw by the process that holds its sleep lock,
  so a process in iderw is named by its buffer.
\<close>

section \<open>The drive\<close>

text \<open>
  The registers of a drive with 28 bit addresses, its data register as the sector being moved, and the sectors of the two drives of the channel.
\<close>

record drive =
  r_count :: byte
  r_lba0 :: byte
  r_lba1 :: byte
  r_lba2 :: byte
  r_dev :: byte
  d_cmd :: "byte option" \<comment> \<open>the command being carried out\<close>
  d_data :: "byte list"
  d_sectors :: "nat \<Rightarrow> nat \<Rightarrow> byte list"

abbreviation (input) "SECTOR_SIZE \<equiv> 512 :: nat"
abbreviation (input) "IDE_BSY \<equiv> 0x80 :: byte"
abbreviation (input) "IDE_DRDY \<equiv> 0x40 :: byte"
abbreviation (input) "IDE_DF \<equiv> 0x20 :: byte"
abbreviation (input) "IDE_ERR \<equiv> 0x01 :: byte"
abbreviation (input) "IDE_CMD_READ \<equiv> 0x20 :: byte"
abbreviation (input) "IDE_CMD_WRITE \<equiv> 0x30 :: byte"
abbreviation (input) "IDE_CMD_RDMUL \<equiv> 0xc4 :: byte"
abbreviation (input) "IDE_CMD_WRMUL \<equiv> 0xc5 :: byte"

definition outb_ide :: "nat \<Rightarrow> byte \<Rightarrow> drive \<Rightarrow> drive" where
  "outb_ide p v d =
     (if p = 0x1f2 then d\<lparr>r_count := v\<rparr>
      else if p = 0x1f3 then d\<lparr>r_lba0 := v\<rparr>
      else if p = 0x1f4 then d\<lparr>r_lba1 := v\<rparr>
      else if p = 0x1f5 then d\<lparr>r_lba2 := v\<rparr>
      else if p = 0x1f6 then d\<lparr>r_dev := v\<rparr>
      else if p = 0x1f7 then d\<lparr>d_cmd := Some v\<rparr>
      else d)"

definition drive_unit :: "drive \<Rightarrow> nat" where
  "drive_unit d = (if bit (r_dev d) 4 then 1 else 0)"

definition drive_lba :: "drive \<Rightarrow> nat" where
  "drive_lba d = unat (r_lba0 d) + 2 ^ 8 * unat (r_lba1 d) + 2 ^ 16 * unat (r_lba2 d) + 2 ^ 24 * (unat (r_dev d) mod 16)"

text \<open>The drive carries out its command and asks for an interrupt.\<close>

definition drive_done :: "drive \<Rightarrow> drive" where
  "drive_done d =
     (let u = drive_unit d; n = drive_lba d in
      if d_cmd d = Some IDE_CMD_READ then d\<lparr>d_cmd := None, d_data := d_sectors d u n\<rparr>
      else if d_cmd d = Some IDE_CMD_WRITE then d\<lparr>d_cmd := None, d_sectors := (d_sectors d)(u := (d_sectors d u)(n := d_data d))\<rparr>
      else d\<lparr>d_cmd := None\<rparr>)"

section \<open>The driver\<close>

record ide =
  ibufs :: "buf list"
  qnext :: "nat \<Rightarrow> nat option"
  idequeue :: "nat option"
  havedisk1 :: bool
  asleep :: "nat set"    \<comment> \<open>the processes that sleep in iderw\<close>
  drv :: drive
  status :: "byte list"  \<comment> \<open>what the next reads of the status register return\<close>

datatype 'a ires = IOk 'a ide | IPanic string | ISpin

definition upd_ibuf :: "nat \<Rightarrow> (buf \<Rightarrow> buf) \<Rightarrow> ide \<Rightarrow> ide" where
  "upd_ibuf b f s = s\<lparr>ibufs := (ibufs s)[b := f (ibufs s ! b)]\<rparr>"

text \<open>The result and the reads that are left; None when the drive never gets ready.\<close>

fun idewait :: "bool \<Rightarrow> byte list \<Rightarrow> (int \<times> byte list) option" where
  "idewait checkerr [] = None"
| "idewait checkerr (r # rs) =
     (if and r (or IDE_BSY IDE_DRDY) \<noteq> IDE_DRDY then idewait checkerr rs
      else if checkerr \<and> and r (or IDE_DF IDE_ERR) \<noteq> 0 then Some (- 1, rs)
      else Some (0, rs))"

fun finddisk1 :: "nat \<Rightarrow> byte list \<Rightarrow> (bool \<times> byte list) option" where
  "finddisk1 0 rs = Some (False, rs)"
| "finddisk1 (Suc n) [] = None"
| "finddisk1 (Suc n) (r # rs) = (if r \<noteq> 0 then Some (True, rs) else finddisk1 n rs)"

definition ide_init :: "ide \<Rightarrow> unit ires" where
  "ide_init s =
     (case idewait False (status s) of None \<Rightarrow> ISpin | Some (_, st) \<Rightarrow>
      let d = outb_ide 0x1f6 (or 0xe0 (push_bit 4 1)) (drv s) in
      case finddisk1 1000 st of None \<Rightarrow> ISpin | Some (found, st) \<Rightarrow>
      IOk () (s\<lparr>havedisk1 := havedisk1 s \<or> found, drv := outb_ide 0x1f6 (or 0xe0 (push_bit 4 0)) d, status := st\<rparr>))"

definition idestart :: "nat option \<Rightarrow> ide \<Rightarrow> unit ires" where
  "idestart bp s =
     (case bp of None \<Rightarrow> IPanic ''idestart'' | Some b \<Rightarrow>
      let x = ibufs s ! b in
      if b_blockno x \<ge> FSSIZE then IPanic ''incorrect blockno'' else
      let sector_per_block = BSIZE div SECTOR_SIZE;
          sector = b_blockno x * of_nat sector_per_block;
          read_cmd = (if sector_per_block = 1 then IDE_CMD_READ else IDE_CMD_RDMUL);
          write_cmd = (if sector_per_block = 1 then IDE_CMD_WRITE else IDE_CMD_WRMUL) in
      if sector_per_block > 7 then IPanic ''idestart'' else
      case idewait False (status s) of None \<Rightarrow> ISpin | Some (_, st) \<Rightarrow>
      let d = outb_ide 0x3f6 0 (drv s);
          d = outb_ide 0x1f2 (of_nat sector_per_block) d;
          d = outb_ide 0x1f3 (ucast (and sector 0xff)) d;
          d = outb_ide 0x1f4 (ucast (and (drop_bit 8 sector) 0xff)) d;
          d = outb_ide 0x1f5 (ucast (and (drop_bit 16 sector) 0xff)) d;
          d = outb_ide 0x1f6 (ucast (or (or 0xe0 (push_bit 4 (and (b_dev x) 1))) (and (drop_bit 24 sector) 0x0f))) d;
          d = (if b_dirty x then (outb_ide 0x1f7 write_cmd d)\<lparr>d_data := b_data x\<rparr> else outb_ide 0x1f7 read_cmd d) in
      IOk () (s\<lparr>drv := d, status := st\<rparr>))"

definition ideintr :: "ide \<Rightarrow> unit ires" where
  "ideintr s =
     (case idequeue s of None \<Rightarrow> IOk () s | Some b \<Rightarrow>
      let s = s\<lparr>idequeue := qnext s b\<rparr> in
      case (if b_dirty (ibufs s ! b) then Some s
            else case idewait True (status s) of None \<Rightarrow> None
              | Some (r, st) \<Rightarrow>
                  let s = s\<lparr>status := st\<rparr> in
                  Some (if r \<ge> 0 then upd_ibuf b (\<lambda>x. x\<lparr>b_data := d_data (drv s)\<rparr>) s else s)) of
        None \<Rightarrow> ISpin
      | Some s \<Rightarrow>
          let s = upd_ibuf b (\<lambda>x. x\<lparr>b_valid := True, b_dirty := False\<rparr>) s;
              s = s\<lparr>asleep := asleep s - {b}\<rparr> in
          if idequeue s \<noteq> None then idestart (idequeue s) s else IOk () s)"

text \<open>The last buffer of the queue; the walk along the list is not bounded by the code.\<close>

partial_function (option) queue_last :: "(nat \<Rightarrow> nat option) \<Rightarrow> nat \<Rightarrow> nat option" where
  "queue_last nx b = (case nx b of None \<Rightarrow> Some b | Some c \<Rightarrow> queue_last nx c)"

text \<open>The loop of iderw at its head: the process returns, or it sleeps.\<close>

definition ide_wait :: "nat \<Rightarrow> ide \<Rightarrow> bool ires" where
  "ide_wait b s =
     (let x = ibufs s ! b in
      if b_valid x \<and> \<not> b_dirty x then IOk True s else IOk False (s\<lparr>asleep := insert b (asleep s)\<rparr>))"

definition ide_enqueue :: "nat \<Rightarrow> ide \<Rightarrow> unit ires" where
  "ide_enqueue b s =
     (let s = s\<lparr>qnext := (qnext s)(b := None)\<rparr> in
      case idequeue s of None \<Rightarrow> IOk () (s\<lparr>idequeue := Some b\<rparr>)
      | Some h \<Rightarrow> (case queue_last (qnext s) h of None \<Rightarrow> ISpin
        | Some l \<Rightarrow> IOk () (s\<lparr>qnext := (qnext s)(l := Some b)\<rparr>)))"

definition ide_rw :: "int \<Rightarrow> nat \<Rightarrow> ide \<Rightarrow> bool ires" where
  "ide_rw pid b s =
     (let x = ibufs s ! b in
      if \<not> (sl_locked (b_lock x) \<and> sl_pid (b_lock x) = pid) then IPanic ''iderw: buf not locked''
      else if b_valid x \<and> \<not> b_dirty x then IPanic ''iderw: nothing to do''
      else if b_dev x \<noteq> 0 \<and> \<not> havedisk1 s then IPanic ''iderw: ide disk 1 not present'' else
      case ide_enqueue b s of IPanic e \<Rightarrow> IPanic e | ISpin \<Rightarrow> ISpin
      | IOk _ s \<Rightarrow>
          (case (if idequeue s = Some b then idestart (Some b) s else IOk () s) of IPanic e \<Rightarrow> IPanic e | ISpin \<Rightarrow> ISpin
           | IOk _ s \<Rightarrow> ide_wait b s))"

section \<open>Interleavings\<close>

text \<open>
  What can happen, with the set of the processes that are in iderw: a process calls iderw, the drive finishes and its interrupt is taken, a woken process
  goes on, a buffer that is not in iderw is used, and the status register changes with time.
\<close>

inductive istep :: "ide \<times> nat set \<Rightarrow> ide \<times> nat set \<Rightarrow> bool" where
  istep_call: "b \<notin> P \<Longrightarrow> b < length (ibufs s) \<Longrightarrow> ide_rw pid b s = IOk r s' \<Longrightarrow> istep (s, P) (s', if r then P else insert b P)"
| istep_intr: "d_cmd (drv s) \<noteq> None \<Longrightarrow> ideintr (s\<lparr>drv := drive_done (drv s)\<rparr>) = IOk () s' \<Longrightarrow> istep (s, P) (s', P)"
| istep_resume: "b \<in> P \<Longrightarrow> b \<notin> asleep s \<Longrightarrow> ide_wait b s = IOk r s' \<Longrightarrow> istep (s, P) (s', if r then P - {b} else P)"
| istep_use: "b \<notin> P \<Longrightarrow> istep (s, P) (s\<lparr>ibufs := (ibufs s)[b := x]\<rparr>, P)"
| istep_time: "istep (s, P) (s\<lparr>status := st\<rparr>, P)"

inductive ireach :: "ide \<times> nat set \<Rightarrow> bool" where
  ireach_init: "idequeue s = None \<Longrightarrow> asleep s = {} \<Longrightarrow> d_cmd (drv s) = None \<Longrightarrow> ireach (s, {})"
| ireach_step: "ireach c \<Longrightarrow> istep c c' \<Longrightarrow> ireach c'"

section \<open>The queue\<close>

fun chain :: "(nat \<Rightarrow> nat option) \<Rightarrow> nat option \<Rightarrow> nat list \<Rightarrow> bool" where
  "chain nx h [] \<longleftrightarrow> h = None"
| "chain nx h (b # bs) \<longleftrightarrow> h = Some b \<and> chain nx (nx b) bs"

lemma chain_cong: "(\<forall>b\<in>set q. nx b = nx' b) \<Longrightarrow> chain nx h q = chain nx' h q"
  by (induction q arbitrary: h) auto

lemma chain_last: "chain nx (Some h) q \<Longrightarrow> queue_last nx h = Some (last q)"
proof (induction q arbitrary: h)
  case (Cons b q)
  show ?case
  proof (cases q)
    case Nil
    then show ?thesis using Cons.prems by (subst queue_last.simps) simp
  next
    case (Cons c q')
    then have "nx b = Some c" "queue_last nx c = Some (last q)" using Cons.prems Cons.IH [of c] by auto
    then show ?thesis using Cons.prems local.Cons by (subst queue_last.simps) simp
  qed
qed simp

lemma chain_snoc: "chain nx h q \<Longrightarrow> distinct q \<Longrightarrow> q \<noteq> [] \<Longrightarrow> b \<notin> set q \<Longrightarrow> nx b = None \<Longrightarrow> chain (nx(last q := Some b)) h (q @ [b])"
proof (induction q arbitrary: h)
  case (Cons c q)
  show ?case
  proof (cases "q = []")
    case True
    then show ?thesis using Cons.prems by simp
  next
    case False
    define nx' where "nx' = nx(last q := Some b)"
    have "c \<noteq> last q" using False Cons.prems by auto
    then have "nx' c = nx c" by (simp add: nx'_def)
    moreover have "chain nx' (nx c) (q @ [b])" unfolding nx'_def using False Cons.prems by (intro Cons.IH) auto
    ultimately have "chain nx' h ((c # q) @ [b])" using Cons.prems(1) by simp
    then show ?thesis using False by (simp only: nx'_def last.simps if_False)
  qed
qed simp

text \<open>iderw puts its buffer behind all others, and the walk to the end of the queue ends.\<close>

lemma ide_enqueue_spec:
  assumes "chain (qnext s) (idequeue s) q" "distinct q" "b \<notin> set q"
  obtains nx where "ide_enqueue b s = IOk () (s\<lparr>qnext := nx, idequeue := Some (hd (q @ [b]))\<rparr>)" "chain nx (Some (hd (q @ [b]))) (q @ [b])"
proof (cases q)
  case Nil
  then show ?thesis using assms that [of "(qnext s)(b := None)"] by (simp add: ide_enqueue_def)
next
  case (Cons h q')
  let ?nx = "(qnext s)(b := None)"
  have c: "chain ?nx (Some h) q" using assms Cons chain_cong [of q ?nx "qnext s" "Some h"] by (metis chain.simps(2) fun_upd_other)
  show ?thesis
  proof (rule that)
    show "ide_enqueue b s = IOk () (s\<lparr>qnext := ?nx(last q := Some b), idequeue := Some (hd (q @ [b]))\<rparr>)"
      using assms(1) Cons chain_last [OF c] by (cases s) (simp add: ide_enqueue_def)
    show "chain (?nx(last q := Some b)) (Some (hd (q @ [b]))) (q @ [b])"
      using chain_snoc [OF c assms(2) _ assms(3)] Cons by simp
  qed
qed

section \<open>Requests\<close>

text \<open>The drive is working on the transfer of a buffer.\<close>

definition working :: "drive \<Rightarrow> buf \<Rightarrow> bool" where
  "working d x \<longleftrightarrow> d_cmd d = Some (if b_dirty x then IDE_CMD_WRITE else IDE_CMD_READ) \<and>
     drive_lba d = unat (b_blockno x) \<and> drive_unit d = unat (b_dev x) mod 2 \<and> (b_dirty x \<longrightarrow> d_data d = b_data x)"

lemma lba_sum: "x + 256 * a = n \<Longrightarrow> y + 256 * b = a \<Longrightarrow> z + 256 * c = b \<Longrightarrow> x + 2 ^ 8 * y + 2 ^ 16 * z + 2 ^ 24 * c = (n :: nat)"
  by auto

lemma lba_split:
  assumes "n < 2 ^ 28"
  shows "n mod 256 + 2 ^ 8 * (n div 2 ^ 8 mod 256) + 2 ^ 16 * (n div 2 ^ 16 mod 256) + 2 ^ 24 * (n div 2 ^ 24 mod 16) = (n :: nat)"
proof -
  have "n div 2 ^ 24 < 16" using assms by (intro less_mult_imp_div_less) simp
  moreover have "n div 2 ^ 24 = n div 256 div 256 div 256" "n div 2 ^ 16 = n div 256 div 256" "n div 2 ^ 8 = n div 256"
    by (simp_all add: div_mult2_eq [symmetric])
  ultimately show ?thesis by (simp only: mod_less) (rule lba_sum [OF mod_mult_div_eq mod_mult_div_eq mod_mult_div_eq])
qed

lemma unat_low_byte: "unat (ucast (and (drop_bit k (w :: uint)) 0xff) :: byte) = unat w div 2 ^ k mod 256"
proof -
  have w: "take_bit 32 (unat w) = unat w" using unsigned_less [of w] by (simp add: take_bit_nat_eq_self_iff)
  have "(0xff :: uint) = mask 8" by (simp add: mask_eq_exp_minus_1)
  then have "unat (and (drop_bit k w) 0xff) = take_bit 8 (drop_bit k (unat w))"
    by (simp only: take_bit_eq_mask [symmetric] unsigned_take_bit_eq unsigned_drop_bit_eq) (simp add: unat_drop_bit_eq unsigned_take_bit_eq w)
  then show ?thesis by (simp add: unsigned_ucast_eq take_bit_eq_mod drop_bit_eq_div)
qed

lemma dev_register:
  fixes dev w :: uint
  defines "v \<equiv> ucast (or (or 0xe0 (push_bit 4 (and dev 1))) (and (drop_bit 24 w) 0x0f)) :: byte"
  shows "bit v 4 = odd (unat dev)" "unat v mod 16 = unat w div 2 ^ 24 mod 16"
proof -
  have e: "(0xf :: uint) = mask 4" by (simp add: mask_eq_exp_minus_1)
  show "bit v 4 = odd (unat dev)"
    unfolding v_def e using bit_unsigned_iff [of dev 0, where 'a = nat] by (simp add: bit_simps bit_0)
  have "\<not> bit (0xe0 :: uint) n" if "n < 4" for n
    using bit_take_bit_iff [of 4 "0xe0 :: uint" n] that by simp
  then have "take_bit 4 v = ucast (take_bit 4 (drop_bit 24 w))"
    unfolding v_def e take_bit_eq_mask [symmetric] by (intro bit_word_eqI) (auto simp: bit_simps)
  then have "unat (take_bit 4 v) = unat (ucast (take_bit 4 (drop_bit 24 w)) :: byte)" by simp
  then have "take_bit 4 (unat v) = take_bit 4 (drop_bit 24 (unat w))" by (simp add: unsigned_take_bit_eq unsigned_ucast_eq unat_drop_bit_eq)
  then show "unat v mod 16 = unat w div 2 ^ 24 mod 16"
    by (simp add: take_bit_eq_mod drop_bit_eq_div)
qed

lemma idestart_spec:
  assumes "b_blockno (ibufs s ! b) < FSSIZE" "idewait False (status s) = Some (r, st)"
  obtains d where "idestart (Some b) s = IOk () (s\<lparr>drv := d, status := st\<rparr>)" "working d (ibufs s ! b)" "d_sectors d = d_sectors (drv s)"
proof -
  let ?x = "ibufs s ! b"
  have l: "unat (b_blockno ?x) < 2 ^ 28" using assms(1) by (simp add: word_less_nat_alt)
  obtain d where d: "idestart (Some b) s = IOk () (s\<lparr>drv := d, status := st\<rparr>)" "d_sectors d = d_sectors (drv s)"
    "d_cmd d = Some (if b_dirty ?x then IDE_CMD_WRITE else IDE_CMD_READ)" "b_dirty ?x \<longrightarrow> d_data d = b_data ?x"
    "r_lba0 d = ucast (and (drop_bit 0 (b_blockno ?x)) 0xff)" "r_lba1 d = ucast (and (drop_bit 8 (b_blockno ?x)) 0xff)" "r_lba2 d = ucast (and (drop_bit 16 (b_blockno ?x)) 0xff)"
    "r_dev d = ucast (or (or 0xe0 (push_bit 4 (and (b_dev ?x) 1))) (and (drop_bit 24 (b_blockno ?x)) 0x0f))"
    using assms by (simp add: idestart_def outb_ide_def Let_def not_le)
  have "drive_lba d = unat (b_blockno ?x)"
    using lba_split [OF l] by (simp only: drive_lba_def d(5-8) unat_low_byte dev_register power_0 div_by_1)
  moreover have "drive_unit d = unat (b_dev ?x) mod 2" using dev_register(1) by (simp only: drive_unit_def d(8)) (simp add: mod_2_eq_odd)
  ultimately show ?thesis using that d by (simp add: working_def)
qed

section \<open>The invariant\<close>

text \<open>
  The queue holds the requests that are not done, oldest first, their processes and no others sleep, and the drive works on the first one.
  A process in iderw that does not sleep finds its request done.
\<close>

definition ide_ok :: "ide \<Rightarrow> nat list \<Rightarrow> nat set \<Rightarrow> bool" where
  "ide_ok s q P \<longleftrightarrow> chain (qnext s) (idequeue s) q \<and> distinct q \<and> asleep s = set q \<and> set q \<subseteq> P \<and> P \<subseteq> {..<length (ibufs s)} \<and>
     (\<forall>b\<in>P. (b_valid (ibufs s ! b) \<and> \<not> b_dirty (ibufs s ! b)) \<longleftrightarrow> b \<notin> set q) \<and>
     (case q of [] \<Rightarrow> d_cmd (drv s) = None | b # _ \<Rightarrow> working (drv s) (ibufs s ! b))"

lemma idestart_inv:
  assumes "idestart (Some b) s = IOk () s'"
  obtains d st where "s' = s\<lparr>drv := d, status := st\<rparr>" "working d (ibufs s ! b)" "d_sectors d = d_sectors (drv s)"
proof -
  have "b_blockno (ibufs s ! b) < FSSIZE" "\<exists>r st. idewait False (status s) = Some (r, st)"
    using assms by (auto simp: idestart_def Let_def split: if_splits option.splits)
  then show ?thesis using that assms by (metis idestart_spec ires.inject(1))
qed

text \<open>The state when ideintr has finished a request and has yet to start the next.\<close>

definition finished :: "nat \<Rightarrow> byte list \<Rightarrow> byte list \<Rightarrow> ide \<Rightarrow> ide" where
  "finished b data st s = s\<lparr>idequeue := qnext s b, drv := drive_done (drv s), status := st, asleep := asleep s - {b},
     ibufs := (ibufs s)[b := (ibufs s ! b)\<lparr>b_data := data, b_valid := True, b_dirty := False\<rparr>]\<rparr>"

lemma ideintr_finished:
  assumes "idequeue s = Some b" "b < length (ibufs s)"
    "if b_dirty (ibufs s ! b) then data = b_data (ibufs s ! b) \<and> st = status s
     else \<exists>r. idewait True (status s) = Some (r, st) \<and> data = (if r \<ge> 0 then d_data (drive_done (drv s)) else b_data (ibufs s ! b))"
  shows "ideintr (s\<lparr>drv := drive_done (drv s)\<rparr>) =
    (if qnext s b = None then IOk () (finished b data st s) else idestart (qnext s b) (finished b data st s))"
proof (cases "b_dirty (ibufs s ! b)")
  case True
  then show ?thesis using assms by (cases s) (simp add: ideintr_def Let_def finished_def upd_ibuf_def)
next
  case False
  then obtain r where "idewait True (status s) = Some (r, st)" "data = (if r \<ge> 0 then d_data (drive_done (drv s)) else b_data (ibufs s ! b))"
    using assms(3) by auto
  then show ?thesis using False assms(1,2) by (cases s; cases "qnext s b") (simp_all add: ideintr_def Let_def finished_def upd_ibuf_def)
qed

lemma ideintr_inv:
  assumes "idequeue s = Some b" "b < length (ibufs s)" "ideintr (s\<lparr>drv := drive_done (drv s)\<rparr>) = IOk () s'"
  obtains data st where "if qnext s b = None then s' = finished b data st s else idestart (qnext s b) (finished b data st s) = IOk () s'"
proof (cases "b_dirty (ibufs s ! b)")
  case True
  then show ?thesis using that ideintr_finished [OF assms(1,2), of "b_data (ibufs s ! b)" "status s"] assms(3) by (auto split: if_splits)
next
  case False
  have "idewait True (status s) \<noteq> None" using assms False by (auto simp: ideintr_def Let_def split: option.splits)
  then obtain r st where "idewait True (status s) = Some (r, st)" by auto
  then show ?thesis
    using that False ideintr_finished [OF assms(1,2), of "if r \<ge> 0 then d_data (drive_done (drv s)) else b_data (ibufs s ! b)" st] assms(3)
    by (auto split: if_splits)
qed

lemma finished_ok:
  assumes "ide_ok s (b # q) P"
  shows "chain (qnext (finished b data st s)) (idequeue (finished b data st s)) q" "distinct q" "asleep (finished b data st s) = set q" "set q \<subseteq> P"
    "P \<subseteq> {..<length (ibufs (finished b data st s))}" "d_cmd (drv (finished b data st s)) = None"
    "\<forall>c\<in>P. (b_valid (ibufs (finished b data st s) ! c) \<and> \<not> b_dirty (ibufs (finished b data st s) ! c)) \<longleftrightarrow> c \<notin> set q"
proof -
  have "(b_valid (ibufs (finished b data st s) ! c) \<and> \<not> b_dirty (ibufs (finished b data st s) ! c)) \<longleftrightarrow> c \<notin> set q" if "c \<in> P" for c
    using assms that by (cases "c = b") (auto simp: ide_ok_def finished_def)
  then show "\<forall>c\<in>P. (b_valid (ibufs (finished b data st s) ! c) \<and> \<not> b_dirty (ibufs (finished b data st s) ! c)) \<longleftrightarrow> c \<notin> set q" by blast
qed (use assms in \<open>auto simp: ide_ok_def finished_def working_def drive_done_def Let_def\<close>)

lemma ide_ok_intr:
  assumes "ide_ok s (b # q) P" "ideintr (s\<lparr>drv := drive_done (drv s)\<rparr>) = IOk () s'"
  shows "ide_ok s' q P"
proof -
  have b: "idequeue s = Some b" "b < length (ibufs s)" using assms(1) by (auto simp: ide_ok_def)
  obtain data st where f: "if qnext s b = None then s' = finished b data st s else idestart (qnext s b) (finished b data st s) = IOk () s'"
    using ideintr_inv [OF b assms(2)] by blast
  note fo = finished_ok [OF assms(1)]
  show ?thesis
  proof (cases q)
    case Nil
    then have "qnext s b = None" using assms(1) by (simp add: ide_ok_def)
    then show ?thesis using f fo Nil by (simp add: ide_ok_def)
  next
    case (Cons c q')
    then have "qnext s b = Some c" using assms(1) by (simp add: ide_ok_def)
    then obtain d st' where d: "s' = (finished b data st s)\<lparr>drv := d, status := st'\<rparr>" "working d (ibufs (finished b data st s) ! c)"
      using f idestart_inv [of c] by (metis option.distinct(1))
    then show ?thesis using fo Cons by (simp add: ide_ok_def)
  qed
qed

lemma ide_ok_rw:
  assumes "ide_ok s q P" "b \<notin> P" "b < length (ibufs s)" "ide_rw pid b s = IOk r s'"
  shows "\<not> r \<and> ide_ok s' (q @ [b]) (insert b P)"
proof -
  have q: "chain (qnext s) (idequeue s) q" "distinct q" "b \<notin> set q" using assms(1,2) by (auto simp: ide_ok_def)
  obtain nx where e: "ide_enqueue b s = IOk () (s\<lparr>qnext := nx, idequeue := Some (hd (q @ [b]))\<rparr>)" "chain nx (Some (hd (q @ [b]))) (q @ [b])"
    using ide_enqueue_spec [OF q] by blast
  let ?s = "s\<lparr>qnext := nx, idequeue := Some (hd (q @ [b]))\<rparr>"
  have n: "\<not> (b_valid (ibufs s ! b) \<and> \<not> b_dirty (ibufs s ! b))" using assms(4) by (auto simp: ide_rw_def Let_def split: if_splits)
  show ?thesis
  proof (cases q)
    case Nil
    then obtain t where t: "idestart (Some b) ?s = IOk () t" "ide_wait b t = IOk r s'"
      using assms(4) e by (auto simp: ide_rw_def Let_def split: if_splits ires.splits)
    obtain d st where d: "t = ?s\<lparr>drv := d, status := st\<rparr>" "working d (ibufs ?s ! b)" using idestart_inv [OF t(1)] by blast
    then show ?thesis using t(2) n e(2) Nil assms by (auto simp: ide_wait_def Let_def ide_ok_def)
  next
    case (Cons h q')
    then have "h \<noteq> b" using q by auto
    then have "ide_wait b ?s = IOk r s'" using assms(4) e Cons by (auto simp: ide_rw_def Let_def split: if_splits)
    then show ?thesis using n e(2) Cons assms(1-3) q by (auto simp: ide_wait_def Let_def ide_ok_def)
  qed
qed

lemma ireach_ok: "ireach c \<Longrightarrow> \<exists>q. ide_ok (fst c) q (snd c)"
proof (induction rule: ireach.induct)
  case (ireach_init s)
  then show ?case by (intro exI [of _ "[]"]) (simp add: ide_ok_def)
next
  case (ireach_step c c')
  then obtain q where q: "ide_ok (fst c) q (snd c)" by blast
  from ireach_step.hyps(2) q show ?case
  proof cases
    case (istep_call b P s pid r s')
    then show ?thesis using ide_ok_rw [of s q P b pid r s'] q by auto
  next
    case (istep_intr s s' P)
    then have "q \<noteq> []" using q by (auto simp: ide_ok_def)
    then obtain b q' where "q = b # q'" by (cases q) auto
    then show ?thesis using ide_ok_intr [of s b q' P s'] istep_intr q by auto
  next
    case (istep_resume b P s r s')
    then have "r \<and> s' = s" using q by (auto simp: ide_ok_def ide_wait_def Let_def split: if_splits)
    then show ?thesis using istep_resume q by (intro exI [of _ q]) (auto simp: ide_ok_def)
  next
    case (istep_use b P s x)
    then have n: "(ibufs s)[b := x] ! e = ibufs s ! e" if "e \<in> P" for e using that by (metis nth_list_update_neq)
    have "case q of [] \<Rightarrow> True | e # _ \<Rightarrow> e \<in> P" using q istep_use by (auto simp: ide_ok_def split: list.splits)
    then show ?thesis using istep_use q n by (intro exI [of _ q]) (auto simp: ide_ok_def split: list.splits)
  next
    case (istep_time s P st)
    then show ?thesis using q by (intro exI [of _ q]) (auto simp: ide_ok_def split: list.splits)
  qed
qed

section \<open>The driver and the memory disk\<close>

lemma idewait_ready: "idewait ce (replicate (Suc m) IDE_DRDY) = Some (0, replicate m IDE_DRDY)"
  by simp

text \<open>A drive that is always ready finishes the first request.\<close>

lemma ideintr_ready:
  assumes "ide_ok s (b # q) P" "\<forall>x\<in>set (ibufs s). b_blockno x < FSSIZE" "status s = replicate m IDE_DRDY" "2 \<le> m"
  obtains s' m' where "ideintr (s\<lparr>drv := drive_done (drv s)\<rparr>) = IOk () s'" "status s' = replicate m' IDE_DRDY" "m \<le> m' + 2"
    "ibufs s' = (ibufs s)[b := (ibufs s ! b)\<lparr>b_data := (if b_dirty (ibufs s ! b) then b_data (ibufs s ! b) else d_data (drive_done (drv s))),
       b_valid := True, b_dirty := False\<rparr>]"
    "d_sectors (drv s') = d_sectors (drive_done (drv s))" "idequeue s' = qnext s b" "asleep s' = asleep s - {b}"
proof -
  let ?x = "ibufs s ! b" and ?n = "if b_dirty (ibufs s ! b) then m else m - 1"
  let ?data = "if b_dirty ?x then b_data ?x else d_data (drive_done (drv s))"
  define t where "t = finished b ?data (replicate ?n IDE_DRDY) s"
  have b: "idequeue s = Some b" "b < length (ibufs s)" using assms(1) by (auto simp: ide_ok_def)
  have w: "idewait ce (replicate j IDE_DRDY) = Some (0, replicate (j - 1) IDE_DRDY)" if "1 \<le> j" for ce j
    using that idewait_ready [of ce "j - 1"] by simp
  have "if b_dirty ?x then ?data = b_data ?x \<and> replicate ?n IDE_DRDY = status s
    else \<exists>r. idewait True (status s) = Some (r, replicate ?n IDE_DRDY) \<and> ?data = (if r \<ge> 0 then d_data (drive_done (drv s)) else b_data ?x)"
    using w [of m True] assms(3,4) by simp
  note i = ideintr_finished [OF b this, folded t_def]
  show ?thesis
  proof (cases "qnext s b")
    case None
    then show ?thesis using i assms(4) by (intro that [of t ?n]) (simp_all add: t_def finished_def)
  next
    case (Some c)
    then have "c \<in> set q" using assms(1) by (cases q) (auto simp: ide_ok_def)
    then have "c < length (ibufs s)" "c \<noteq> b" using assms(1) by (auto simp: ide_ok_def)
    then have c: "b_blockno (ibufs t ! c) < FSSIZE" using assms(2) by (simp add: t_def finished_def)
    have st: "status t = replicate ?n IDE_DRDY" by (simp add: t_def finished_def)
    have "1 \<le> ?n" using assms(4) by auto
    then have "idewait False (status t) = Some (0, replicate (?n - 1) IDE_DRDY)" using w [of ?n False] st by (simp only:)
    then obtain d where "idestart (Some c) t = IOk () (t\<lparr>drv := d, status := replicate (?n - 1) IDE_DRDY\<rparr>)" "d_sectors d = d_sectors (drv t)"
      using idestart_spec [OF c] by blast
    then show ?thesis using i Some assms(4)
      by (intro that [of "t\<lparr>drv := d, status := replicate (?n - 1) IDE_DRDY\<rparr>" "?n - 1"]) (simp_all add: t_def finished_def)
  qed
qed

text \<open>
  C12: The interrupt driven driver does what the memory disk does.  In every interleaving of processes that call iderw, interrupts and wakeups, the interrupt of the drive finishes the
  request at the head of the queue: if the drive is ready and reports no error, buffers and disk change exactly as when the
  process of that request had called iderw of memide.c; its process is woken and no other, and the request behind it is the next one.
\<close>

theorem ide_refines_memide:
  assumes "ireach (s, P)" "idequeue s = Some b" "\<forall>x\<in>set (ibufs s). b_blockno x < FSSIZE" "status s = replicate m IDE_DRDY" "2 \<le> m"
    "bufs k = ibufs s" "disk k = (\<lambda>n. d_sectors (drv s) 1 (unat n))" "b_dev (bufs k ! b) = 1" "b_blockno (bufs k ! b) < disksize k"
    "held k = []" "cur k = Some p" "sl_locked (b_lock (bufs k ! b))" "sl_pid (b_lock (bufs k ! b)) = p_pid (ptable k ! p)"
  shows "\<exists>s' k'. ideintr (s\<lparr>drv := drive_done (drv s)\<rparr>) = IOk () s' \<and> iderw b k = Ok () k' \<and> bufs k' = ibufs s' \<and>
    disk k' = (\<lambda>n. d_sectors (drv s') 1 (unat n)) \<and> asleep s' = asleep s - {b} \<and> b \<in> asleep s \<and> idequeue s' = qnext s b"
proof -
  obtain q where q: "ide_ok s q P" using ireach_ok [OF assms(1)] by auto
  then obtain q' where q': "q = b # q'" using assms(2) by (cases q) (auto simp: ide_ok_def)
  have x: "\<not> (b_valid (ibufs s ! b) \<and> \<not> b_dirty (ibufs s ! b))" "working (drv s) (ibufs s ! b)" "b \<in> asleep s"
    using q q' by (auto simp: ide_ok_def)
  obtain s' where s': "ideintr (s\<lparr>drv := drive_done (drv s)\<rparr>) = IOk () s'"
    "ibufs s' = (ibufs s)[b := (ibufs s ! b)\<lparr>b_data := (if b_dirty (ibufs s ! b) then b_data (ibufs s ! b) else d_data (drive_done (drv s))),
       b_valid := True, b_dirty := False\<rparr>]"
    "d_sectors (drv s') = d_sectors (drive_done (drv s))" "idequeue s' = qnext s b" "asleep s' = asleep s - {b}"
    using ideintr_ready [OF q [unfolded q'] assms(3-5)] by metis
  have h: "holdingsleep (BufLock b) k = Ok True k" using holdingsleep_eq [OF assms(10,11)] assms(11-13) by (simp add: mypid_def)
  have l: "\<not> disksize k \<le> b_blockno (ibufs s ! b)" using assms(6,9) by simp
  have e: "x\<lparr>b_valid := True, b_dirty := False\<rparr> = x\<lparr>b_dirty := False, b_valid := True\<rparr>" 
    "\<not> b_dirty x \<Longrightarrow> x\<lparr>b_data := d, b_valid := True, b_dirty := False\<rparr> = x\<lparr>b_data := d, b_valid := True\<rparr>" for x :: buf and d by (cases x; simp)+
  have u: "ibufs s' = (ibufs s)[b := if b_dirty (ibufs s ! b) then (ibufs s ! b)\<lparr>b_dirty := False, b_valid := True\<rparr>
    else (ibufs s ! b)\<lparr>b_data := d_data (drive_done (drv s)), b_valid := True\<rparr>]"
  proof (cases "b_dirty (ibufs s ! b)")
    case True
    then show ?thesis using s'(2) e(1) by simp
  next
    case False
    then show ?thesis using s'(2) e(2) [OF False] by simp
  qed
  show ?thesis
  proof (cases "b_dirty (ibufs s ! b)")
    case True
    have "(\<lambda>n. d_sectors (drv s') 1 (unat n)) = (disk k)(b_blockno (bufs k ! b) := b_data (bufs k ! b))"
      using True x(2) s'(3) assms(6-8) by (auto simp: working_def drive_done_def Let_def fun_eq_iff word_unat_eq_iff)
    then show ?thesis using True h x s'(1,3-) u l assms(6-8)
      by (intro exI [of _ s']) (simp add: iderw_def upd_buf_def bindM_def gets_def modify_def)
  next
    case False
    then have "drive_done (drv s) = (drv s)\<lparr>d_cmd := None, d_data := disk k (b_blockno (bufs k ! b))\<rparr>"
      using x(2) assms(6-8) by (simp add: working_def drive_done_def Let_def)
    then show ?thesis using False h x s'(1,3-) u l assms(6-8)
      by (intro exI [of _ s']) (simp add: iderw_def upd_buf_def bindM_def gets_def modify_def)
  qed
qed

fun interrupts :: "nat \<Rightarrow> ide \<Rightarrow> unit ires" where
  "interrupts 0 s = IOk () s"
| "interrupts (Suc n) s =
     (case ideintr (s\<lparr>drv := drive_done (drv s)\<rparr>) of IOk _ s \<Rightarrow> interrupts n s | IPanic e \<Rightarrow> IPanic e | ISpin \<Rightarrow> ISpin)"

lemma interrupts_drain:
  "ide_ok s q P \<Longrightarrow> \<forall>x\<in>set (ibufs s). b_blockno x < FSSIZE \<Longrightarrow> status s = replicate m IDE_DRDY \<Longrightarrow> 2 * length q \<le> m \<Longrightarrow>
   \<exists>s'. interrupts (length q) s = IOk () s' \<and> ide_ok s' [] P"
proof (induction q arbitrary: s m)
  case (Cons b q)
  have m: "2 \<le> m" using Cons.prems(4) by simp
  obtain s' m' where s': "ideintr (s\<lparr>drv := drive_done (drv s)\<rparr>) = IOk () s'" "status s' = replicate m' IDE_DRDY" "m \<le> m' + 2"
    "ibufs s' = (ibufs s)[b := (ibufs s ! b)\<lparr>b_data := (if b_dirty (ibufs s ! b) then b_data (ibufs s ! b) else d_data (drive_done (drv s))),
       b_valid := True, b_dirty := False\<rparr>]"
    using ideintr_ready [OF Cons.prems(1-3) m] by metis
  have "b_blockno (ibufs s ! b) < FSSIZE" using Cons.prems(1,2) by (auto simp: ide_ok_def)
  then have "\<forall>x\<in>set (ibufs s'). b_blockno x < FSSIZE" using Cons.prems(2) set_update_subset_insert [of "ibufs s" b] unfolding s'(4) by fastforce
  from Cons.IH [OF ide_ok_intr [OF Cons.prems(1) s'(1)] this s'(2)] show ?case using s'(1,3) Cons.prems(4) by simp
qed simp

text \<open>
  C13: No process is left asleep.  In every interleaving, if the drive finishes its commands and is ready, as many interrupts as processes sleep in iderw
  serve all of them: none panics or spins, the queue is empty and every process that is in iderw returns from its loop.
\<close>

theorem ide_drains:
  assumes "ireach (s, P)" "\<forall>x\<in>set (ibufs s). b_blockno x < FSSIZE" "status s = replicate m IDE_DRDY" "2 * card (asleep s) \<le> m"
  shows "\<exists>s'. interrupts (card (asleep s)) s = IOk () s' \<and> idequeue s' = None \<and> asleep s' = {} \<and> (\<forall>b\<in>P. ide_wait b s' = IOk True s')"
proof -
  obtain q where q: "ide_ok s q P" using ireach_ok [OF assms(1)] by auto
  then have "card (asleep s) = length q" by (simp add: ide_ok_def distinct_card)
  then show ?thesis using interrupts_drain [OF q assms(2,3)] assms(4) by (auto simp: ide_ok_def ide_wait_def Let_def)
qed

text \<open>
  A read that fails is not noticed: the buffer keeps its old bytes and is marked valid.
\<close>

lemma ide_read_error:
  assumes "ide_ok s [b] P" "\<not> b_dirty (ibufs s ! b)" "status s = or IDE_DRDY IDE_ERR # st"
  shows "\<exists>s'. ideintr (s\<lparr>drv := drive_done (drv s)\<rparr>) = IOk () s' \<and> b_valid (ibufs s' ! b) \<and> b_data (ibufs s' ! b) = b_data (ibufs s ! b)"
proof -
  have b: "idequeue s = Some b" "b < length (ibufs s)" "qnext s b = None" using assms(1) by (auto simp: ide_ok_def)
  show ?thesis using ideintr_finished [OF b(1,2), of "b_data (ibufs s ! b)" st] assms(2,3) b(2,3) by (simp add: finished_def)
qed
section \<open>An example\<close>

text \<open>A process with pid 3 reads block 7 of disk 1.\<close>

definition ex_drive :: drive where
  "ex_drive = \<lparr>r_count = 0, r_lba0 = 0, r_lba1 = 0, r_lba2 = 0, r_dev = 0, d_cmd = None, d_data = [], d_sectors = (\<lambda>u n. if u = 1 \<and> n = 7 then [42] else [])\<rparr>"

definition ex_ide :: ide where
  "ex_ide = \<lparr>ibufs = [\<lparr>b_valid = False, b_dirty = False, b_dev = 1, b_blockno = 7, b_lock = \<lparr>sl_locked = True, sl_pid = 3\<rparr>, b_refcnt = 1, b_data = [0]\<rparr>],
     qnext = (\<lambda>_. None), idequeue = None, havedisk1 = True, asleep = {}, drv = ex_drive, status = [IDE_DRDY, IDE_DRDY, IDE_DRDY]\<rparr>"

definition ex_ide1 :: ide where
  "ex_ide1 = ex_ide\<lparr>idequeue := Some 0, asleep := {0}, status := [IDE_DRDY, IDE_DRDY],
     drv := ex_drive\<lparr>r_count := 1, r_lba0 := 7, r_dev := 0xf0, d_cmd := Some IDE_CMD_READ\<rparr>\<rparr>"

lemma ex_ide_reach: "ireach (ex_ide1, {0})"
proof -
  have "ide_rw 3 0 ex_ide = IOk False ex_ide1"
    by (simp add: ide_rw_def ide_enqueue_def ide_wait_def idestart_def outb_ide_def ex_ide_def ex_ide1_def ex_drive_def Let_def)
  then have "istep (ex_ide, {}) (ex_ide1, {0})" using istep_call [of 0 "{}" ex_ide 3 False ex_ide1] by (simp add: ex_ide_def)
  moreover have "ireach (ex_ide, {})" by (rule ireach_init) (simp_all add: ex_ide_def ex_drive_def)
  ultimately show ?thesis by (rule ireach_step [rotated])
qed

theorem ide_drains_witness: "\<exists>s'. interrupts 1 ex_ide1 = IOk () s' \<and> asleep s' = {} \<and> ide_wait 0 s' = IOk True s'"
  using ide_drains [OF ex_ide_reach, of "Suc (Suc 0)"] by (auto simp: ex_ide1_def ex_ide_def)

theorem ide_refines_memide_witness:
  "\<exists>s' k'. ideintr (ex_ide1\<lparr>drv := drive_done (drv ex_ide1)\<rparr>) = IOk () s' \<and> bufs k' = ibufs s' \<and>
    iderw 0 ((static_data 0 0 (\<lambda>n. d_sectors ex_drive 1 (unat n)) 10)\<lparr>bufs := ibufs ex_ide, cur := Some 0, ptable := [zero_proc\<lparr>p_pid := 3\<rparr>]\<rparr>) = Ok () k'"
proof -
  let ?k = "(static_data 0 0 (\<lambda>n. d_sectors ex_drive 1 (unat n)) 10)\<lparr>bufs := ibufs ex_ide, cur := Some 0, ptable := [zero_proc\<lparr>p_pid := 3\<rparr>]\<rparr>"
  have "idequeue ex_ide1 = Some 0" "\<forall>x\<in>set (ibufs ex_ide1). b_blockno x < FSSIZE" "status ex_ide1 = replicate (Suc (Suc 0)) IDE_DRDY"
    "bufs ?k = ibufs ex_ide1" "disk ?k = (\<lambda>n. d_sectors (drv ex_ide1) 1 (unat n))" "b_dev (bufs ?k ! 0) = 1" "b_blockno (bufs ?k ! 0) < disksize ?k"
    "held ?k = []" "cur ?k = Some 0" "sl_locked (b_lock (bufs ?k ! 0))" "sl_pid (b_lock (bufs ?k ! 0)) = p_pid (ptable ?k ! 0)"
    by (simp_all add: ex_ide1_def ex_ide_def ex_drive_def static_data_def)
  from ide_refines_memide [OF ex_ide_reach this(1-3) _ this(4-)] show ?thesis by auto
qed

end
