(* ===== verification/Boot.thy ===== *)
theory Boot
  imports Ide Exec
begin

text \<open>
  The boot loader (bootmain.c): it reads the kernel, an ELF file that starts at sector 1 of the first disk, into physical memory.
  The drive is the one of the theory Ide.  A wait for a drive that never gets ready is the result None.
\<close>

abbreviation (input) "SECTSIZE \<equiv> 512 :: uint"

record boot =
  bmem :: mem
  bdrv :: drive
  bstat :: "byte list" \<comment> \<open>what the next reads of the status register return\<close>

fun waitdisk :: "byte list \<Rightarrow> byte list option" where
  "waitdisk [] = None"
| "waitdisk (r # rs) = (if and r 0xC0 \<noteq> 0x40 then waitdisk rs else Some rs)"

definition readsect :: "ptr \<Rightarrow> uint \<Rightarrow> boot \<Rightarrow> boot option" where
  "readsect dst offset s =
     Option.bind (waitdisk (bstat s)) (\<lambda>st.
     let d = outb_ide 0x1f2 1 (bdrv s);
         d = outb_ide 0x1f3 (ucast offset) d;
         d = outb_ide 0x1f4 (ucast (drop_bit 8 offset)) d;
         d = outb_ide 0x1f5 (ucast (drop_bit 16 offset)) d;
         d = outb_ide 0x1f6 (ucast (or (drop_bit 24 offset) 0xe0)) d;
         d = outb_ide 0x1f7 0x20 d in
     Option.bind (waitdisk st) (\<lambda>st.
     let d = drive_done d in Some (s\<lparr>bmem := write_list (bmem s) dst (d_data d), bdrv := d, bstat := st\<rparr>)))"

partial_function (option) readseg_loop :: "ptr \<Rightarrow> ptr \<Rightarrow> uint \<Rightarrow> boot \<Rightarrow> boot option" where
  "readseg_loop pa epa offset s =
     (if pa < epa then Option.bind (readsect pa offset s) (readseg_loop (pa + SECTSIZE) epa (offset + 1)) else Some s)"

definition readseg :: "ptr \<Rightarrow> uint \<Rightarrow> uint \<Rightarrow> boot \<Rightarrow> boot option" where
  "readseg pa count offset s =
     (let epa = pa + count; pa = pa - offset mod SECTSIZE; offset = offset div SECTSIZE + 1 in readseg_loop pa epa offset s)"

definition ph_paddr :: "byte list \<Rightarrow> uint" where
  "ph_paddr bs = get32 bs 12"

definition loadseg :: "ptr \<Rightarrow> boot \<Rightarrow> boot option" where
  "loadseg php s =
     (let bs = mem_list (bmem s) php 32; ph = get_proghdr bs; pa = ph_paddr bs in
      Option.bind (readseg pa (ph_filesz ph) (ph_off ph) s) (\<lambda>s.
      Some (if ph_memsz ph > ph_filesz ph
            then s\<lparr>bmem := stosb (bmem s) (pa + ph_filesz ph) 0 (unat (ph_memsz ph - ph_filesz ph))\<rparr> else s)))"

partial_function (option) bootmain_loop :: "ptr \<Rightarrow> ptr \<Rightarrow> boot \<Rightarrow> boot option" where
  "bootmain_loop ph eph s = (if ph < eph then Option.bind (loadseg ph s) (bootmain_loop (ph + 32) eph) else Some s)"

text \<open>The entry point that is jumped to, or None when the file is not an ELF file.\<close>

definition bootmain :: "boot \<Rightarrow> (ptr option \<times> boot) option" where
  "bootmain s =
     (let elf = 0x10000 in
      Option.bind (readseg elf 4096 0 s) (\<lambda>s.
      let hd = get_elfhdr (mem_list (bmem s) elf 52) in
      if elf_magic hd \<noteq> ELF_MAGIC then Some (None, s) else
      let ph = elf + elf_phoff hd; eph = ph + ucast (elf_phnum hd) * 32 in
      Option.bind (bootmain_loop ph eph s) (\<lambda>s.
      Some (Some (elf_entry (get_elfhdr (mem_list (bmem s) elf 52))), s))))"

section \<open>Sectors\<close>

definition disk_byte :: "drive \<Rightarrow> nat \<Rightarrow> byte" where
  "disk_byte d k = d_sectors d 0 (k div 512) ! (k mod 512)"

text \<open>The drive has whole sectors, and the status register is ready at each of the next \<open>m\<close> reads.\<close>

definition boots :: "drive \<Rightarrow> nat \<Rightarrow> boot \<Rightarrow> bool" where
  "boots d m s \<longleftrightarrow> d_sectors (bdrv s) = d_sectors d \<and> (\<forall>n. length (d_sectors d 0 n) = 512) \<and> bstat s = replicate m IDE_DRDY"

lemma waitdisk_ready: "waitdisk (replicate (Suc m) IDE_DRDY) = Some (replicate m IDE_DRDY)"
  by simp

lemma unat_ucast_byte: "unat (ucast (drop_bit k (w :: uint)) :: byte) = unat w div 2 ^ k mod 256"
proof -
  have "ucast (and v 0xff) = (ucast v :: byte)" for v :: uint
  proof -
    have "(0xff :: uint) = mask 8" by (simp add: mask_eq_exp_minus_1)
    then show ?thesis by (simp only: take_bit_eq_mask [symmetric]) (rule bit_word_eqI, auto simp: bit_simps)
  qed
  then show ?thesis using unat_low_byte [of k w] by simp
qed

lemma boot_dev_register:
  assumes "unat (w :: uint) < 2 ^ 28"
  defines "v \<equiv> ucast (or (drop_bit 24 w) 0xe0) :: byte"
  shows "\<not> bit v 4" "unat v mod 16 = unat w div 2 ^ 24 mod 16"
proof -
  have "drop_bit 28 (unat w) = 0" using assms(1) by (simp add: drop_bit_eq_div)
  then have "\<not> bit (unat w) 28" by (metis bit_0_eq bit_drop_bit_eq add.right_neutral bot_apply bot_bool_def comp_apply)
  then show "\<not> bit v 4" unfolding v_def by (simp add: bit_simps)
  have "\<not> bit (0xe0 :: uint) n" if "n < 4" for n
    using bit_take_bit_iff [of 4 "0xe0 :: uint" n] that by simp
  then have "take_bit 4 v = ucast (take_bit 4 (drop_bit 24 w))"
    unfolding v_def by (intro bit_word_eqI) (auto simp: bit_simps)
  then have "unat (take_bit 4 v) = unat (ucast (take_bit 4 (drop_bit 24 w)) :: byte)" by simp
  then have "take_bit 4 (unat v) = take_bit 4 (drop_bit 24 (unat w))" by (simp add: unsigned_take_bit_eq unsigned_ucast_eq unat_drop_bit_eq)
  then show "unat v mod 16 = unat w div 2 ^ 24 mod 16" by (simp add: take_bit_eq_mod drop_bit_eq_div)
qed

lemma readsect_spec:
  assumes "boots d (Suc (Suc m)) s" "unat offset < 2 ^ 28"
  obtains s' where "readsect dst offset s = Some s'" "bmem s' = write_list (bmem s) dst (d_sectors d 0 (unat offset))" "boots d m s'"
proof -
  obtain d' where d': "readsect dst offset s = Some (s\<lparr>bmem := write_list (bmem s) dst (d_data (drive_done d')), bdrv := drive_done d', bstat := replicate m IDE_DRDY\<rparr>)"
    "d_cmd d' = Some IDE_CMD_READ" "d_sectors d' = d_sectors d" "r_lba0 d' = ucast (drop_bit 0 offset)" "r_lba1 d' = ucast (drop_bit 8 offset)"
    "r_lba2 d' = ucast (drop_bit 16 offset)" "r_dev d' = ucast (or (drop_bit 24 offset) 0xe0)"
    using assms(1) by (simp add: readsect_def boots_def outb_ide_def Let_def)
  have "drive_lba d' = unat offset" using lba_split [OF assms(2)]
    by (simp only: drive_lba_def d'(4-7) unat_ucast_byte boot_dev_register [OF assms(2)] power_0 div_by_1)
  moreover have "drive_unit d' = 0" using boot_dev_register(1) [OF assms(2)] by (simp only: drive_unit_def d'(7) if_False)
  ultimately have "drive_done d' = d'\<lparr>d_cmd := None, d_data := d_sectors d 0 (unat offset)\<rparr>" using d' by (simp add: drive_done_def)
  then show ?thesis using that d' assms(1) by (simp add: boots_def)
qed

section \<open>Segments\<close>

lemma write_list_nowrap:
  assumes "unat dst + length bs \<le> 2 ^ 32"
  shows "write_list m dst bs x = (if unat dst \<le> unat x \<and> unat x < unat dst + length bs then bs ! (unat x - unat dst) else m x)"
proof (cases "unat dst \<le> unat x")
  case True
  then have "unat (x - dst) = unat x - unat dst" by (simp add: unat_sub_if')
  then show ?thesis using True by (auto simp: write_list_def)
next
  case False
  then have "unat (x - dst) = unat x + 2 ^ 32 - unat dst" by (simp add: unat_sub_if')
  moreover have "\<not> unat x + 2 ^ 32 - unat dst < length bs" using False assms by linarith
  ultimately show ?thesis using False by (simp add: write_list_def)
qed

text \<open>\<open>n\<close> sectors from sector \<open>k\<close> on, read to address \<open>a\<close>.\<close>

definition loaded :: "drive \<Rightarrow> nat \<Rightarrow> nat \<Rightarrow> nat \<Rightarrow> mem \<Rightarrow> mem" where
  "loaded d a k n m = (\<lambda>x. if a \<le> unat x \<and> unat x < a + 512 * n then disk_byte d (512 * k + (unat x - a)) else m x)"

lemma loaded_Suc: 
  assumes "length (d_sectors d 0 k) = 512"
  shows "loaded d (a + 512) (Suc k) n (loaded d a k 1 m) = loaded d a k (Suc n) m"
proof -
  have "512 * Suc k + (unat x - (a + 512)) = 512 * k + (unat x - a)" if "a + 512 \<le> unat x" for x :: ptr using that by simp
  then show ?thesis by (auto simp: loaded_def fun_eq_iff)
qed

lemma loaded_one:
  assumes "length (d_sectors d 0 k) = 512" "unat dst + 512 \<le> 2 ^ 32"
  shows "write_list m dst (d_sectors d 0 k) = loaded d (unat dst) k 1 m"
proof -
  have e: "disk_byte d (512 * k + i) = d_sectors d 0 k ! i" if "i < 512" for i using that by (simp add: disk_byte_def)
  have "write_list m dst (d_sectors d 0 k) x = loaded d (unat dst) k 1 m x" for x
  proof (cases "unat dst \<le> unat x \<and> unat x < unat dst + 512")
    case True
    then have "unat x - unat dst < 512" by linarith
    then show ?thesis using True assms e by (simp only: loaded_def write_list_nowrap mult_1_right if_True simp_thms)
  next
    case False
    then show ?thesis using assms by (auto simp: loaded_def write_list_nowrap)
  qed
  then show ?thesis by (rule ext)
qed

lemma readseg_loop_spec:
  "boots d (2 * n + m) s \<Longrightarrow> unat pa + 512 * n < 2 ^ 32 \<Longrightarrow> unat epa \<le> unat pa + 512 * n \<Longrightarrow> n = 0 \<or> unat pa + 512 * (n - 1) < unat epa \<Longrightarrow>
   unat off + n < 2 ^ 28 \<Longrightarrow>
   \<exists>s'. readseg_loop pa epa off s = Some s' \<and> bmem s' = loaded d (unat pa) (unat off) n (bmem s) \<and> boots d m s'"
proof (induction n arbitrary: pa off s)
  case 0
  then show ?case by (subst readseg_loop.simps) (auto simp: word_less_nat_alt loaded_def fun_eq_iff)
next
  case (Suc n)
  have lt: "pa < epa" using Suc.prems(4) by (auto simp: word_less_nat_alt)
  have u: "unat (pa + 512) = unat pa + 512" "unat (off + 1) = Suc (unat off)"
    using Suc.prems(2,5) by (simp_all add: unat_word_ariths)
  have l: "length (d_sectors d 0 k) = 512" for k using Suc.prems(1) by (simp add: boots_def)
  obtain t where t: "readsect pa off s = Some t" "bmem t = write_list (bmem s) pa (d_sectors d 0 (unat off))" "boots d (2 * n + m) t"
    using readsect_spec [of d "2 * n + m" s off] Suc.prems(1,5) by auto
  have b: "bmem t = loaded d (unat pa) (unat off) 1 (bmem s)" using t(2) loaded_one [OF l, of pa] Suc.prems(2) by simp
  obtain s' where "readseg_loop (pa + 512) epa (off + 1) t = Some s'" "bmem s' = loaded d (unat pa + 512) (Suc (unat off)) n (bmem t)" "boots d m s'"
    using Suc.IH [OF t(3), of "pa + 512" "off + 1"] Suc.prems(2-5) u by (cases n) auto
  then show ?case using lt t(1) b loaded_Suc [OF l] by (subst readseg_loop.simps) simp
qed

text \<open>The sectors that hold a range of the kernel.\<close>

definition nsect :: "nat \<Rightarrow> nat \<Rightarrow> nat" where
  "nsect off count = (off mod 512 + count + 511) div 512"

text \<open>
  readseg puts the bytes of the file where they belong; it may write below and above the range, up to whole sectors.
\<close>

lemma readseg_spec:
  assumes "boots d (2 * nsect (unat off) (unat count) + m) s" "unat off mod 512 \<le> unat pa" "unat pa + unat count + 512 < 2 ^ 32"
  obtains s' where "readseg pa count off s = Some s'" "boots d m s'"
    "\<And>x. unat x < unat pa - unat off mod 512 \<Longrightarrow> bmem s' x = bmem s x"
    "\<And>x. unat pa \<le> unat x \<Longrightarrow> unat x < unat pa + unat count \<Longrightarrow> bmem s' x = disk_byte d (512 + unat off + (unat x - unat pa))"
proof -
  let ?r = "unat off mod 512" and ?n = "nsect (unat off) (unat count)"
  have n: "?r + unat count \<le> 512 * ?n" "512 * ?n < ?r + unat count + 512" "?n = 0 \<or> 512 * (?n - 1) < ?r + unat count"
    unfolding nsect_def by linarith+
  have u: "unat (pa - off mod 512) = unat pa - ?r" "unat (pa + count) = unat pa + unat count" "unat (off div 512 + 1) = unat off div 512 + 1"
  proof -
    have "unat (off mod 512) = ?r" by (simp add: unat_mod_distrib)
    then show "unat (pa - off mod 512) = unat pa - ?r" using assms(2) by (simp add: unat_sub_if')
    show "unat (pa + count) = unat pa + unat count" using assms(3) by (simp add: unat_word_ariths)
    have "unat off < 2 ^ 32" using unsigned_less [of off] by simp
    then show "unat (off div 512 + 1) = unat off div 512 + 1" by (simp add: unat_word_ariths unat_div_distrib)
  qed
  have so: "unat off div 512 + 1 + ?n < 2 ^ 28" 
  proof -
    have "unat off < 4294967296" using unsigned_less [of off] by simp
    then have "unat off div 512 < 8388608" "?r < 512" by (simp_all add: less_mult_imp_div_less)
    moreover have "512 * ?n < 4294968320" using n(2) assms(3) calculation by simp
    ultimately show ?thesis by simp
  qed
  have g: "unat pa - ?r + 512 * ?n < 2 ^ 32" "unat pa + unat count \<le> unat pa - ?r + 512 * ?n"
    "?n = 0 \<or> unat pa - ?r + 512 * (?n - 1) < unat pa + unat count"
    using n assms(2,3) by linarith+
  obtain s' where s': "readseg_loop (pa - off mod 512) (pa + count) (off div 512 + 1) s = Some s'"
    "bmem s' = loaded d (unat pa - ?r) (unat off div 512 + 1) ?n (bmem s)" "boots d m s'"
    using readseg_loop_spec [OF assms(1), of "pa - off mod 512" "pa + count" "off div 512 + 1", unfolded u] g so by blast
  show ?thesis
  proof (rule that)
    show "readseg pa count off s = Some s'" using s'(1) by (simp add: readseg_def)
    show "boots d m s'" by (rule s'(3))
    fix x :: ptr
    show "unat x < unat pa - ?r \<Longrightarrow> bmem s' x = bmem s x" by (simp add: s'(2) loaded_def)
    assume "unat pa \<le> unat x" "unat x < unat pa + unat count"
    moreover have "512 * (unat off div 512 + 1) + (unat x - (unat pa - ?r)) = 512 + unat off + (unat x - unat pa)"
      using calculation assms(2) by simp
    moreover have "unat pa - ?r \<le> unat x" "unat x < unat pa - ?r + 512 * ?n" using calculation n(1) assms(2) by linarith+
    ultimately show "bmem s' x = disk_byte d (512 + unat off + (unat x - unat pa))" by (simp only: s'(2) loaded_def if_True simp_thms)
  qed
qed

section \<open>Loading the kernel\<close>

text \<open>Bytes of the kernel file.\<close>

definition kbytes :: "drive \<Rightarrow> nat \<Rightarrow> nat \<Rightarrow> byte list" where
  "kbytes d k n = map (\<lambda>i. disk_byte d (512 + k + i)) [0..<n]"

text \<open>
  For a program header: the lowest address that its load writes, the reads of the status register it takes, that it lies above the
  scratch page of the loader and inside the address space, and what memory holds when it is loaded.
\<close>

definition seg_low :: "byte list \<Rightarrow> nat" where
  "seg_low bs = unat (ph_paddr bs) - unat (ph_off (get_proghdr bs)) mod 512"

definition seg_reads :: "byte list \<Rightarrow> nat" where
  "seg_reads bs = 2 * nsect (unat (ph_off (get_proghdr bs))) (unat (ph_filesz (get_proghdr bs)))"

definition seg_fits :: "byte list \<Rightarrow> bool" where
  "seg_fits bs \<longleftrightarrow> 0x11000 + unat (ph_off (get_proghdr bs)) mod 512 \<le> unat (ph_paddr bs) \<and>
     unat (ph_paddr bs) + unat (ph_filesz (get_proghdr bs)) + 512 < 2 ^ 32 \<and> unat (ph_paddr bs) + unat (ph_memsz (get_proghdr bs)) \<le> 2 ^ 32"

definition seg_loaded :: "drive \<Rightarrow> byte list \<Rightarrow> mem \<Rightarrow> bool" where
  "seg_loaded d bs m \<longleftrightarrow> (\<forall>x. unat (ph_paddr bs) \<le> unat x \<and> unat x < unat (ph_paddr bs) + unat (ph_memsz (get_proghdr bs)) \<longrightarrow>
     m x = (let i = unat x - unat (ph_paddr bs) in
       if i < unat (ph_filesz (get_proghdr bs)) then disk_byte d (512 + unat (ph_off (get_proghdr bs)) + i) else 0))"

lemma stosb_nowrap:
  assumes "unat a + n \<le> 2 ^ 32" "n < 2 ^ 32"
  shows "stosb m a c n x = (if unat a \<le> unat x \<and> unat x < unat a + n then c else m x)"
  using write_list_nowrap [of a "replicate n c" m x] assms stosb_range [OF assms(2), of m a c x] by (auto simp: write_list_def)

lemma loadseg_spec:
  assumes "boots d (seg_reads bs + m) s" "mem_list (bmem s) php 32 = bs" "seg_fits bs"
  obtains s' where "loadseg php s = Some s'" "boots d m s'" "\<And>x. unat x < seg_low bs \<Longrightarrow> bmem s' x = bmem s x" "seg_loaded d bs (bmem s')"
proof -
  define p fs ms off where "p = ph_paddr bs" "fs = ph_filesz (get_proghdr bs)" "ms = ph_memsz (get_proghdr bs)" "off = ph_off (get_proghdr bs)"
  note defs = this
  have f: "unat off mod 512 \<le> unat p" "unat p + unat fs + 512 < 2 ^ 32" "unat p + unat ms \<le> 2 ^ 32" "0x11000 + unat off mod 512 \<le> unat p"
    using assms(3) by (simp_all add: seg_fits_def defs)
  obtain t where t: "readseg p fs off s = Some t" "boots d m t" "\<And>x. unat x < unat p - unat off mod 512 \<Longrightarrow> bmem t x = bmem s x"
    "\<And>x. unat p \<le> unat x \<Longrightarrow> unat x < unat p + unat fs \<Longrightarrow> bmem t x = disk_byte d (512 + unat off + (unat x - unat p))"
    using readseg_spec [of d off fs m s p] assms(1) f by (auto simp: seg_reads_def defs)
  let ?t = "t\<lparr>bmem := stosb (bmem t) (p + fs) 0 (unat (ms - fs))\<rparr>"
  have l: "loadseg php s = Some (if ms > fs then ?t else t)"
    using t(1) by (simp add: loadseg_def assms(2) Let_def defs)
  show ?thesis
  proof (cases "ms > fs")
    case True
    then have u: "unat (ms - fs) = unat ms - unat fs" "unat (p + fs) = unat p + unat fs" "unat fs < unat ms"
      using f(2) by (simp_all add: unat_sub_if' word_less_nat_alt unat_word_ariths)
    have st: "stosb (bmem t) (p + fs) 0 (unat (ms - fs)) x = (if unat p + unat fs \<le> unat x \<and> unat x < unat p + unat ms then 0 else bmem t x)" for x
      using stosb_nowrap [of "p + fs" "unat (ms - fs)" "bmem t" 0 x] u f(3,4) by simp
    show ?thesis
    proof (rule that)
      show "loadseg php s = Some ?t" using l True by simp
      show "boots d m ?t" using t(2) by (simp add: boots_def)
      show "bmem ?t x = bmem s x" if "unat x < seg_low bs" for x
        using that t(3) [of x] unfolding seg_low_def defs [symmetric] by (auto simp: st)
      show "seg_loaded d bs (bmem ?t)"
        unfolding seg_loaded_def defs [symmetric] using t(4) by (auto simp: st Let_def)
    qed
  next
    case False
    then have "unat ms \<le> unat fs" by (simp add: word_less_nat_alt)
    then show ?thesis using l False t f(1) unfolding seg_loaded_def seg_low_def defs [symmetric]
      by (intro that [of t]) (auto simp: seg_low_def seg_loaded_def defs [symmetric] Let_def)
  qed
qed

lemma mem_list_below:
  assumes "unat a + n \<le> 0x11000" "\<And>x. unat x < 0x11000 \<Longrightarrow> m' x = m x"
  shows "mem_list m' a n = mem_list m a n"
proof -
  have "unat (a + of_nat i) < 0x11000" if "i < n" for i
  proof -
    have "unat (of_nat i :: ptr) = i" using that assms(1) by (intro of_nat_inverse) simp_all
    then have "unat (a + of_nat i) = unat a + i" using that assms(1) by (simp add: unat_word_ariths)
    then show ?thesis using that assms(1) by simp
  qed
  then show ?thesis using assms(2) by (auto simp: mem_list_def)
qed

lemma bootmain_loop_spec:
  "boots d (sum_list (map seg_reads bss) + m) s \<Longrightarrow> eph = ph + of_nat (32 * length bss) \<Longrightarrow> unat ph + 32 * length bss \<le> 0x11000 \<Longrightarrow>
   (\<forall>i<length bss. mem_list (bmem s) (ph + of_nat (32 * i)) 32 = bss ! i) \<Longrightarrow> (\<forall>bs\<in>set bss. seg_fits bs) \<Longrightarrow>
   sorted_wrt (\<lambda>a b. unat (ph_paddr a) + unat (ph_memsz (get_proghdr a)) \<le> seg_low b) bss \<Longrightarrow>
   \<exists>s'. bootmain_loop ph eph s = Some s' \<and> boots d m s' \<and> (\<forall>x. (\<forall>bs\<in>set bss. unat x < seg_low bs) \<longrightarrow> bmem s' x = bmem s x) \<and>
     (\<forall>bs\<in>set bss. seg_loaded d bs (bmem s'))"
proof (induction bss arbitrary: ph s)
  case Nil
  then show ?case by (subst bootmain_loop.simps) simp
next
  case (Cons bs bss)
  let ?k = "length bss"
  have off: "unat (of_nat (32 * i) :: ptr) = 32 * i" "unat (ph + of_nat (32 * i)) = unat ph + 32 * i" if "i \<le> Suc ?k" for i
  proof -
    show w: "unat (of_nat (32 * i) :: ptr) = 32 * i" using that Cons.prems(3) by (intro of_nat_inverse) simp_all
    have "unat ph + 32 * i < 2 ^ 32" using that Cons.prems(3) by simp
    then show "unat (ph + of_nat (32 * i)) = unat ph + 32 * i" by (simp only: unat_word_ariths w) simp
  qed
  have u: "unat (ph + 32) = unat ph + 32" "unat eph = unat ph + 32 * Suc ?k" using off(2) [of 1] off(2) [of "Suc ?k"] Cons.prems(2) by simp_all
  have lt: "ph < eph" by (simp add: word_less_nat_alt u)
  have low: "0x11000 \<le> seg_low b" if "b \<in> set (bs # bss)" for b using Cons.prems(5) that by (auto simp: seg_fits_def seg_low_def)
  have b: "mem_list (bmem s) ph 32 = bs" using Cons.prems(4) [rule_format, of 0] by simp
  have r: "boots d (seg_reads bs + (sum_list (map seg_reads bss) + m)) s" "seg_fits bs" using Cons.prems(1,5) by (simp_all add: add.assoc)
  obtain t where t: "loadseg ph s = Some t" "boots d (sum_list (map seg_reads bss) + m) t" "\<And>x. unat x < seg_low bs \<Longrightarrow> bmem t x = bmem s x" "seg_loaded d bs (bmem t)"
    using loadseg_spec [OF r(1) b r(2)] by blast
  have sc: "bmem t x = bmem s x" if "unat x < 0x11000" for x using t(3) [of x] low [of bs] that by simp
  have m: "mem_list (bmem t) (ph + 32 + of_nat (32 * i)) 32 = bss ! i" if "i < ?k" for i
  proof -
    have e: "ph + 32 + of_nat (32 * i) = ph + of_nat (32 * Suc i)" by simp
    have "mem_list (bmem t) (ph + of_nat (32 * Suc i)) 32 = mem_list (bmem s) (ph + of_nat (32 * Suc i)) 32"
      using sc that Cons.prems(3) off(2) [of "Suc i"] by (intro mem_list_below) simp_all
    then show ?thesis using Cons.prems(4) that by (simp only: e) auto
  qed
  obtain s' where s': "bootmain_loop (ph + 32) eph t = Some s'" "boots d m s'" "\<forall>x. (\<forall>b\<in>set bss. unat x < seg_low b) \<longrightarrow> bmem s' x = bmem t x"
    "\<forall>b\<in>set bss. seg_loaded d b (bmem s')"
    using Cons.IH [OF t(2), of "ph + 32"] Cons.prems(2,3,5,6) u m by (auto simp: algebra_simps)
  have "bmem s' x = bmem t x" if "unat x < unat (ph_paddr bs) + unat (ph_memsz (get_proghdr bs))" for x
    using s'(3) Cons.prems(6) that by (auto intro: order.strict_trans2)
  then have "seg_loaded d bs (bmem s')" using t(4) unfolding seg_loaded_def by simp
  then show ?case using lt t(1,3) s' by (subst bootmain_loop.simps) simp
qed

lemma mem_list_scratch:
  assumes "\<And>x. 0x10000 \<le> unat x \<Longrightarrow> unat x < 0x11000 \<Longrightarrow> m x = disk_byte d (512 + (unat x - 0x10000))" "unat k + n \<le> 4096"
  shows "mem_list m (0x10000 + k) n = kbytes d (unat k) n"
proof -
  have "m (0x10000 + k + of_nat i) = disk_byte d (512 + unat k + i)" if "i < n" for i
  proof -
    have "unat (of_nat i :: ptr) = i" using that assms(2) by (intro of_nat_inverse) simp_all
    then have "unat (0x10000 + k + of_nat i) = 0x10000 + unat k + i" using that assms(2) by (simp add: unat_word_ariths)
    then show ?thesis using assms(1) [of "0x10000 + k + of_nat i"] that assms(2) by (simp add: add.assoc)
  qed
  then show ?thesis by (simp add: mem_list_def kbytes_def)
qed

text \<open>
  C14: The boot loader loads the kernel.  If the file at sector 1 is an ELF file whose program headers lie in its first page, and whose segments lie above
  the scratch page and are in increasing order, each starting behind the sectors that round it down, then the loader ends at the entry point of the file with every segment in memory:
  the bytes of the file, followed by zeros up to its size in memory.
\<close>

theorem bootmain_loads:
  assumes "boots d (16 + sum_list (map seg_reads bss) + m) s" "h = get_elfhdr (kbytes d 0 52)" "elf_magic h = ELF_MAGIC"
    "bss = map (\<lambda>i. kbytes d (unat (elf_phoff h) + 32 * i) 32) [0..<unat (elf_phnum h)]" "unat (elf_phoff h) + 32 * unat (elf_phnum h) \<le> 4096"
    "\<forall>bs\<in>set bss. seg_fits bs" "sorted_wrt (\<lambda>a b. unat (ph_paddr a) + unat (ph_memsz (get_proghdr a)) \<le> seg_low b) bss"
  shows "\<exists>s'. bootmain s = Some (Some (elf_entry h), s') \<and> (\<forall>bs\<in>set bss. seg_loaded d bs (bmem s'))"
proof -
  let ?elf = "0x10000 :: ptr" and ?k = "unat (elf_phnum h)"
  let ?ph = "?elf + elf_phoff h"
  have len: "length bss = ?k" using assms(4) by simp
  have r: "boots d (2 * nsect (unat (0 :: uint)) (unat (4096 :: uint)) + (sum_list (map seg_reads bss) + m)) s"
    using assms(1) by (simp add: nsect_def add.assoc)
  obtain t where t: "readseg ?elf 4096 0 s = Some t" "boots d (sum_list (map seg_reads bss) + m) t"
    "\<And>x. 0x10000 \<le> unat x \<Longrightarrow> unat x < 0x11000 \<Longrightarrow> bmem t x = disk_byte d (512 + (unat x - 0x10000))"
  proof (rule readseg_spec [OF r, of ?elf])
    fix t
    assume "readseg ?elf 4096 0 s = Some t" "boots d (sum_list (map seg_reads bss) + m) t"
      "\<And>x. unat ?elf \<le> unat x \<Longrightarrow> unat x < unat ?elf + unat (4096 :: uint) \<Longrightarrow> bmem t x = disk_byte d (512 + unat (0 :: uint) + (unat x - unat ?elf))"
    then show thesis by (intro that) simp_all
  qed simp_all
  have sc: "mem_list (bmem t) (?elf + k) n = kbytes d (unat k) n" if "unat k + n \<le> 4096" for k n using mem_list_scratch [OF t(3) that] by simp
  have h: "mem_list (bmem t) ?elf 52 = kbytes d 0 52" using sc [of 0 52] by simp
  have u: "unat ?ph = 0x10000 + unat (elf_phoff h)" using assms(5) by (simp add: unat_word_ariths)
  have ph: "mem_list (bmem t) (?ph + of_nat (32 * i)) 32 = bss ! i" if "i < length bss" for i
  proof -
    have "unat (of_nat (32 * i) :: ptr) = 32 * i" using that assms(5) len by (intro of_nat_inverse) simp_all
    then have "unat (elf_phoff h + of_nat (32 * i)) = unat (elf_phoff h) + 32 * i" using that assms(5) len by (simp add: unat_word_ariths)
    then show ?thesis using sc [of "elf_phoff h + of_nat (32 * i)" 32] that assms(4,5) len by (simp add: add.assoc)
  qed
  have e: "?ph + ucast (elf_phnum h) * 32 = ?ph + of_nat (32 * length bss)" using len by (simp add: of_nat_unat mult.commute)
  obtain s' where s': "bootmain_loop ?ph (?ph + of_nat (32 * length bss)) t = Some s'"
    "\<forall>x. (\<forall>bs\<in>set bss. unat x < seg_low bs) \<longrightarrow> bmem s' x = bmem t x" "\<forall>bs\<in>set bss. seg_loaded d bs (bmem s')"
    using bootmain_loop_spec [OF t(2) refl, of ?ph] ph assms(5-7) len u by auto
  have "bmem s' x = bmem t x" if "unat x < 0x11000" for x 
  proof -
    have "\<forall>bs\<in>set bss. 0x11000 \<le> seg_low bs" using assms(6) by (auto simp: seg_fits_def seg_low_def)
    then show ?thesis using s'(2) that by (meson order.strict_trans2)
  qed
  then have "mem_list (bmem s') ?elf 52 = kbytes d 0 52" using h by (subst mem_list_below [of _ _ _ "bmem t"]) simp_all
  then show ?thesis using t(1) h e s'(1,3) assms(2,3) by (simp add: bootmain_def Let_def)
qed

section \<open>An example\<close>

text \<open>A file with one segment of two bytes and four bytes of memory.\<close>

definition ex_hdr :: "byte list" where
  "ex_hdr = [0x7f, 0x45, 0x4c, 0x46] @ replicate 20 0 @ [0x0c, 0, 0x10, 0] @ [52, 0, 0, 0] @ replicate 12 0 @ [1, 0] @ replicate 6 0 @
     [1, 0, 0, 0] @ [0, 2, 0, 0] @ [0, 0, 0, 0] @ [0, 0, 0x10, 0] @ [2, 0, 0, 0] @ [4, 0, 0, 0] @ replicate 8 0"

definition ex_kernel :: drive where
  "ex_kernel = \<lparr>r_count = 0, r_lba0 = 0, r_lba1 = 0, r_lba2 = 0, r_dev = 0, d_cmd = None, d_data = [],
     d_sectors = (\<lambda>u n. if n = 1 then ex_hdr @ replicate 428 0 else if n = 2 then [7, 8] @ replicate 510 0 else replicate 512 0)\<rparr>"

theorem bootmain_loads_witness:
  "\<exists>s'. bootmain \<lparr>bmem = (\<lambda>_. 1), bdrv = ex_kernel, bstat = replicate 18 IDE_DRDY\<rparr> = Some (Some 0x10000c, s') \<and>
     bmem s' 0x100000 = 7 \<and> bmem s' 0x100001 = 8 \<and> bmem s' 0x100002 = 0 \<and> bmem s' 0x100003 = 0"
proof -
  let ?s = "\<lparr>bmem = (\<lambda>_. 1), bdrv = ex_kernel, bstat = replicate 18 IDE_DRDY\<rparr>"
  have "length ex_hdr = 84" by code_simp
  then have l: "\<forall>n. length (d_sectors ex_kernel 0 n) = 512" by (simp add: ex_kernel_def)
  have h: "get_elfhdr (kbytes ex_kernel 0 52) = \<lparr>elf_magic = ELF_MAGIC, elf_entry = 0x10000c, elf_phoff = 52, elf_phnum = 1\<rparr>" by code_simp
  have p: "get_proghdr (kbytes ex_kernel 52 32) = \<lparr>ph_type = 1, ph_off = 512, ph_vaddr = 0, ph_filesz = 2, ph_memsz = 4\<rparr>"
    "ph_paddr (kbytes ex_kernel 52 32) = 0x100000" by code_simp+
  have "boots ex_kernel (16 + sum_list (map seg_reads [kbytes ex_kernel 52 32]) + 0) ?s" using l by (simp add: boots_def seg_reads_def p nsect_def)
  from bootmain_loads [OF this h [symmetric]] obtain s' where
    "bootmain ?s = Some (Some 0x10000c, s')" "seg_loaded ex_kernel (kbytes ex_kernel 52 32) (bmem s')"
    by (auto simp: seg_fits_def p)
  moreover have "disk_byte ex_kernel 1024 = 7" "disk_byte ex_kernel 1025 = 8" by code_simp+
  ultimately show ?thesis unfolding seg_loaded_def p
    by (intro exI [of _ s']) (simp add: Let_def all_conj_distrib)
qed

end
