(* ===== verification/Mp.thy ===== *)
theory Mp
  imports Kernel
begin

text \<open>
  The search for the multiprocessor tables that the BIOS leaves in memory, and what the kernel takes from them (mp.c).
  A loop that never ends is the result None; an error is the message of its panic.
\<close>

section \<open>The tables\<close>

abbreviation (input) "MPPROC \<equiv> 0x00 :: byte"
abbreviation (input) "MPBUS \<equiv> 0x01 :: byte"
abbreviation (input) "MPIOAPIC \<equiv> 0x02 :: byte"
abbreviation (input) "MPIOINTR \<equiv> 0x03 :: byte"
abbreviation (input) "MPLINTR \<equiv> 0x04 :: byte"
abbreviation (input) "NCPU \<equiv> 8 :: nat"

definition load16 :: "mem \<Rightarrow> ptr \<Rightarrow> ushort" where
  "load16 m a = or (ucast (m a)) (push_bit 8 (ucast (m (a + 1))))"

text \<open>Offsets of struct mp and struct mpconf.\<close>

definition mp_physaddr :: "mem \<Rightarrow> ptr \<Rightarrow> uint" where
  "mp_physaddr m p = load32 m (p + 4)"

definition mp_imcrp :: "mem \<Rightarrow> ptr \<Rightarrow> byte" where
  "mp_imcrp m p = m (p + 12)"

definition conf_length :: "mem \<Rightarrow> ptr \<Rightarrow> ushort" where
  "conf_length m c = load16 m (c + 4)"

definition conf_version :: "mem \<Rightarrow> ptr \<Rightarrow> byte" where
  "conf_version m c = m (c + 6)"

definition conf_lapicaddr :: "mem \<Rightarrow> ptr \<Rightarrow> uint" where
  "conf_lapicaddr m c = load32 m (c + 36)"

section \<open>The search\<close>

primrec sum_loop :: "mem \<Rightarrow> ptr \<Rightarrow> nat \<Rightarrow> int" where
  "sum_loop m addr 0 = 0"
| "sum_loop m addr (Suc i) = sum_loop m addr i + uint (m (addr + of_nat i))"

definition sum_bytes :: "mem \<Rightarrow> ptr \<Rightarrow> nat \<Rightarrow> byte" where
  "sum_bytes m addr len = word_of_int (sum_loop m addr len)"

definition is_sig :: "mem \<Rightarrow> ptr \<Rightarrow> byte list \<Rightarrow> bool" where
  "is_sig m p s \<longleftrightarrow> memcmp (\<lambda>i. m (p + of_nat i)) (cstr_of s) 4 = 0"

partial_function (option) mpsearch1_loop :: "mem \<Rightarrow> ptr \<Rightarrow> ptr \<Rightarrow> ptr option" where
  "mpsearch1_loop m p e =
     (if p < e then
        if is_sig m p [0x5f, 0x4d, 0x50, 0x5f] \<and> sum_bytes m p 16 = 0 then Some p else mpsearch1_loop m (p + 16) e
      else Some 0)"

definition mpsearch1 :: "mem \<Rightarrow> uint \<Rightarrow> uint \<Rightarrow> ptr option" where
  "mpsearch1 m a len = (let addr = P2V a in mpsearch1_loop m addr (addr + len))"

definition mpsearch :: "mem \<Rightarrow> ptr option" where
  "mpsearch m =
     (let bda = P2V 0x400; p = push_bit 4 (or (push_bit 8 (ucast (m (bda + 0x0f)))) (ucast (m (bda + 0x0e)))) in
      Option.bind
        (if p \<noteq> 0 then mpsearch1 m p 1024
         else mpsearch1 m (or (push_bit 8 (ucast (m (bda + 0x14)))) (ucast (m (bda + 0x13))) * 1024 - 1024) 1024) (\<lambda>mp.
      if mp \<noteq> 0 then Some mp else mpsearch1 m 0xF0000 0x10000))"

text \<open>The configuration table and the structure that points to it; a table at address 0 stands for none.\<close>

definition mpconfig :: "mem \<Rightarrow> (ptr \<times> ptr) option" where
  "mpconfig m =
     Option.bind (mpsearch m) (\<lambda>mp.
     if mp = 0 \<or> mp_physaddr m mp = 0 then Some (0, mp) else
     let conf = P2V (mp_physaddr m mp) in
     if \<not> is_sig m conf [0x50, 0x43, 0x4d, 0x50] then Some (0, mp)
     else if conf_version m conf \<noteq> 1 \<and> conf_version m conf \<noteq> 4 then Some (0, mp)
     else if sum_bytes m conf (unat (conf_length m conf)) \<noteq> 0 then Some (0, mp)
     else Some (conf, mp))"

section \<open>The processors\<close>

record mpstate =
  cpu_apicid :: "byte list"
  ncpu :: nat
  ioapicid :: byte
  lapic_addr :: uint
  imcr :: byte \<comment> \<open>the interrupt mode register behind ports 0x22 and 0x23\<close>

partial_function (option) mpinit_loop :: "mem \<Rightarrow> ptr \<Rightarrow> ptr \<Rightarrow> bool \<Rightarrow> mpstate \<Rightarrow> (bool \<times> mpstate) option" where
  "mpinit_loop m p e ismp s =
     (if p < e then
        if m p = MPPROC then
          mpinit_loop m (p + 20) e ismp
            (if ncpu s < NCPU then s\<lparr>cpu_apicid := (cpu_apicid s)[ncpu s := m (p + 1)], ncpu := ncpu s + 1\<rparr> else s)
        else if m p = MPIOAPIC then mpinit_loop m (p + 8) e ismp (s\<lparr>ioapicid := m (p + 1)\<rparr>)
        else if m p = MPBUS \<or> m p = MPIOINTR \<or> m p = MPLINTR then mpinit_loop m (p + 8) e ismp s
        else mpinit_loop m p e False s
      else Some (ismp, s))"

definition mpinit :: "mem \<Rightarrow> mpstate \<Rightarrow> (string + mpstate) option" where
  "mpinit m s =
     Option.bind (mpconfig m) (\<lambda>(conf, mp).
     if conf = 0 then Some (Inl ''Expect to run on an SMP'') else
     let s = s\<lparr>lapic_addr := conf_lapicaddr m conf\<rparr> in
     Option.bind (mpinit_loop m (conf + 44) (conf + ucast (conf_length m conf)) True s) (\<lambda>(ismp, s).
     if \<not> ismp then Some (Inl ''Didn't find a suitable machine'')
     else Some (Inr (if mp_imcrp m mp \<noteq> 0 then s\<lparr>imcr := or (imcr s) 1\<rparr> else s))))"

section \<open>The search finds the first structure\<close>

text \<open>A structure with its signature and checksum.\<close>

definition mp_valid :: "mem \<Rightarrow> ptr \<Rightarrow> bool" where
  "mp_valid m p \<longleftrightarrow> is_sig m p [0x5f, 0x4d, 0x50, 0x5f] \<and> sum_bytes m p 16 = 0"

lemma find_map_conv: "find P (map f xs) = map_option f (find (P \<circ> f) xs)"
  by (induction xs) auto

lemma mpsearch1_loop_eq:
  "unat p + 16 * n < 2 ^ 32 \<Longrightarrow> e = p + of_nat (16 * n) \<Longrightarrow>
   mpsearch1_loop m p e = Some (case find (\<lambda>i. mp_valid m (p + of_nat (16 * i))) [0..<n] of None \<Rightarrow> 0 | Some i \<Rightarrow> p + of_nat (16 * i))"
proof (induction n arbitrary: p)
  case 0
  then show ?case by (subst mpsearch1_loop.simps) simp
next
  case (Suc n)
  have w: "unat (of_nat (16 * Suc n) :: ptr) = 16 * Suc n" using Suc.prems(1) by (intro of_nat_inverse) simp_all
  have u: "unat e = unat p + 16 * Suc n" using Suc.prems by (simp only: Suc.prems(2) unat_word_ariths w) simp
  have "p < e" by (simp add: word_less_nat_alt u)
  moreover have "unat (p + 16) = unat p + 16" using Suc.prems(1) by (simp add: unat_word_ariths)
  then have ih: "mpsearch1_loop m (p + 16) e =
      Some (case find (\<lambda>i. mp_valid m (p + 16 + of_nat (16 * i))) [0..<n] of None \<Rightarrow> 0 | Some i \<Rightarrow> p + 16 + of_nat (16 * i))"
    using Suc.prems by (intro Suc.IH) simp_all
  have "[0..<Suc n] = 0 # map Suc [0..<n]" by (simp only: upt_conv_Cons map_Suc_upt zero_less_Suc)
  then have "find (\<lambda>i. mp_valid m (p + of_nat (16 * i))) [0..<Suc n] =
      (if mp_valid m p then Some 0 else map_option Suc (find (\<lambda>i. mp_valid m (p + 16 + of_nat (16 * i))) [0..<n]))"
    by (simp add: find_map_conv comp_def algebra_simps)
  ultimately show ?case using ih by (subst mpsearch1_loop.simps) (auto simp: mp_valid_def split: option.splits)
qed

text \<open>Both ranges that are searched end, and the lowest structure in a range is found.\<close>

lemma mpsearch1_first:
  assumes "unat (P2V a) + 16 * n < 2 ^ 32"
  shows "mpsearch1 m a (of_nat (16 * n)) =
    Some (case find (\<lambda>i. mp_valid m (P2V a + of_nat (16 * i))) [0..<n] of None \<Rightarrow> 0 | Some i \<Rightarrow> P2V a + of_nat (16 * i))"
  using mpsearch1_loop_eq [OF assms refl, of m] by (simp only: mpsearch1_def Let_def)

section \<open>The entries of the table\<close>

datatype mpentry = EProc byte | EIoapic byte | EOther byte

fun entry_size :: "mpentry \<Rightarrow> nat" where
  "entry_size (EProc a) = 20"
| "entry_size (EIoapic a) = 8"
| "entry_size (EOther t) = 8"

fun entry_at :: "mem \<Rightarrow> ptr \<Rightarrow> mpentry \<Rightarrow> bool" where
  "entry_at m p (EProc a) \<longleftrightarrow> m p = MPPROC \<and> m (p + 1) = a"
| "entry_at m p (EIoapic a) \<longleftrightarrow> m p = MPIOAPIC \<and> m (p + 1) = a"
| "entry_at m p (EOther t) \<longleftrightarrow> m p = t \<and> t \<in> {MPBUS, MPIOINTR, MPLINTR}"

fun entries_at :: "mem \<Rightarrow> ptr \<Rightarrow> mpentry list \<Rightarrow> bool" where
  "entries_at m p [] \<longleftrightarrow> True"
| "entries_at m p (x # xs) \<longleftrightarrow> entry_at m p x \<and> entries_at m (p + of_nat (entry_size x)) xs"

definition entries_size :: "mpentry list \<Rightarrow> nat" where
  "entries_size es = sum_list (map entry_size es)"

definition procs :: "mpentry list \<Rightarrow> byte list" where
  "procs es = concat (map (\<lambda>x. case x of EProc a \<Rightarrow> [a] | _ \<Rightarrow> []) es)"

definition ioapics :: "mpentry list \<Rightarrow> byte list" where
  "ioapics es = concat (map (\<lambda>x. case x of EIoapic a \<Rightarrow> [a] | _ \<Rightarrow> []) es)"

lemma procs_simps [simp]: "procs [] = []" "procs (EProc a # xs) = a # procs xs" "procs (EIoapic a # xs) = procs xs" "procs (EOther a # xs) = procs xs"
  "ioapics [] = []" "ioapics (EProc a # xs) = ioapics xs" "ioapics (EIoapic a # xs) = a # ioapics xs" "ioapics (EOther a # xs) = ioapics xs"
  by (simp_all add: procs_def ioapics_def)

text \<open>What the kernel is to know after the entries: the processors, as many as it has room for, and the last interrupt controller.\<close>

definition take_entries :: "mpentry list \<Rightarrow> mpstate \<Rightarrow> mpstate" where
  "take_entries es s =
     (let new = take (NCPU - ncpu s) (procs es) in
      s\<lparr>cpu_apicid := take (ncpu s) (cpu_apicid s) @ new @ drop (ncpu s + length new) (cpu_apicid s),
        ncpu := ncpu s + length new, ioapicid := last (ioapicid s # ioapics es)\<rparr>)"

lemma mpinit_loop_step:
  "entry_at m p x \<Longrightarrow> p < e \<Longrightarrow> length (cpu_apicid s) = NCPU \<Longrightarrow>
   mpinit_loop m p e b s = mpinit_loop m (p + of_nat (entry_size x)) e b (take_entries [x] s)"
proof (cases x)
  case (EProc a)
  assume "entry_at m p x" "p < e" "length (cpu_apicid s) = NCPU"
  moreover have "xs[n := a] = take n xs @ a # drop (Suc n) xs" if "n < length xs" for n and xs :: "byte list" using that by (rule upd_conv_take_nth_drop)
  ultimately show ?thesis using EProc by (subst mpinit_loop.simps) (cases s, auto simp: take_entries_def)
next
  case (EIoapic a)
  assume "entry_at m p x" "p < e"
  then show ?thesis using EIoapic by (subst mpinit_loop.simps) (cases s, auto simp: take_entries_def)
next
  case (EOther t)
  assume "entry_at m p x" "p < e"
  then show ?thesis using EOther by (subst mpinit_loop.simps) (cases s, auto simp: take_entries_def)
qed

lemma take_entries_Cons:
  assumes "length (cpu_apicid s) = NCPU" "ncpu s \<le> NCPU"
  shows "take_entries xs (take_entries [x] s) = take_entries (x # xs) s"
    "length (cpu_apicid (take_entries [x] s)) = NCPU" "ncpu (take_entries [x] s) \<le> NCPU"
proof -
  obtain k where k: "NCPU = ncpu s + k" using assms(2) le_Suc_ex by blast
  show "length (cpu_apicid (take_entries [x] s)) = NCPU" "ncpu (take_entries [x] s) \<le> NCPU"
    using assms by (auto simp: take_entries_def)
  show "take_entries xs (take_entries [x] s) = take_entries (x # xs) s"
  proof (cases x)
    case (EProc a)
    have j: "NCPU - ncpu s = k" using k by simp
    show ?thesis
    proof (cases k)
      case 0
      then show ?thesis using EProc j by (simp add: take_entries_def Let_def)
    next
      case (Suc i)
      then have "NCPU - Suc (ncpu s) = i" "ncpu s < length (cpu_apicid s)" using j assms(1) by simp_all
      then show ?thesis using EProc j Suc by (simp add: take_entries_def Let_def ac_simps)
    qed
  qed (use assms in \<open>auto simp: take_entries_def Let_def\<close>)
qed

lemma mpinit_loop_entries:
  "entries_at m p es \<Longrightarrow> unat p + entries_size es + n < 2 ^ 32 \<Longrightarrow> e = p + of_nat (entries_size es + n) \<Longrightarrow> length (cpu_apicid s) = NCPU \<Longrightarrow> ncpu s \<le> NCPU \<Longrightarrow>
   mpinit_loop m p e b s = mpinit_loop m (p + of_nat (entries_size es)) e b (take_entries es s)"
proof (induction es arbitrary: p s)
  case Nil
  then show ?case by (cases s) (simp add: entries_size_def take_entries_def)
next
  case (Cons x es)
  let ?k = "entry_size x" and ?N = "entries_size es + n"
  have z: "entries_size (x # es) = ?k + entries_size es" "0 < ?k" by (cases x; simp add: entries_size_def)+
  have w: "unat (of_nat j :: ptr) = j" if "j < 2 ^ 32" for j using that by (intro of_nat_inverse) simp_all
  have u: "unat (p + of_nat ?k) = unat p + ?k" "unat e = unat p + (?k + ?N)"
    using Cons.prems(2) w [of ?k] w [of "?k + ?N"] by (simp_all add: z Cons.prems(3) unat_word_ariths add.assoc)
  have lt: "p < e" using z(2) by (simp add: word_less_nat_alt u)
  have "mpinit_loop m (p + of_nat ?k) e b (take_entries [x] s) =
      mpinit_loop m (p + of_nat ?k + of_nat (entries_size es)) e b (take_entries es (take_entries [x] s))"
    using Cons.prems take_entries_Cons(2,3) [OF Cons.prems(4,5)] u z by (intro Cons.IH) (simp_all add: add.assoc)
  then show ?case using mpinit_loop_step [of m p x e s b] Cons.prems lt take_entries_Cons(1) [OF Cons.prems(4,5)] z by (simp add: add.assoc)
qed

lemma mpinit_loop_end: "mpinit_loop m e e b s = Some (b, s)"
  by (subst mpinit_loop.simps) simp

text \<open>
  C15: From a configuration table whose entries fill it, mpinit ends and knows what the table says: the local APIC ids of its first \<open>NCPU\<close> processors
  in the order of the table, their number, the last I/O APIC and the address of the local APIC; further processors are passed over and the array of CPUs is not overrun.
\<close>

theorem mpinit_processors:
  assumes "mpconfig m = Some (conf, mp)" "conf \<noteq> 0" "entries_at m (conf + 44) es" "unat (conf_length m conf) = 44 + entries_size es"
    "unat conf + unat (conf_length m conf) < 2 ^ 32" "ncpu s = 0" "length (cpu_apicid s) = NCPU"
  shows "\<exists>s'. mpinit m s = Some (Inr s') \<and> ncpu s' = min NCPU (length (procs es)) \<and> take (ncpu s') (cpu_apicid s') = take NCPU (procs es) \<and>
    length (cpu_apicid s') = NCPU \<and> ioapicid s' = last (ioapicid s # ioapics es) \<and> lapic_addr s' = conf_lapicaddr m conf"
proof -
  let ?s = "s\<lparr>lapic_addr := conf_lapicaddr m conf\<rparr>" and ?e = "conf + ucast (conf_length m conf)"
  have e: "?e = conf + 44 + of_nat (entries_size es + 0)"
    using arg_cong [OF assms(4), of "of_nat :: nat \<Rightarrow> ptr"] by (simp add: of_nat_unat)
  have u: "unat (conf + 44) = unat conf + 44" using assms(4,5) by (simp add: unat_word_ariths)
  have "mpinit_loop m (conf + 44) ?e True ?s = mpinit_loop m (conf + 44 + of_nat (entries_size es)) ?e True (take_entries es ?s)"
    using assms u e by (intro mpinit_loop_entries [where n = 0]) simp_all
  also have "\<dots> = Some (True, take_entries es ?s)" by (simp only: e add_0_right mpinit_loop_end)
  moreover have "take (min (length xs) k) xs = take k xs" for xs :: "byte list" and k by (simp add: min_def)
  ultimately show ?thesis using assms by (auto simp: mpinit_def take_entries_def Let_def)
qed

text \<open>
  An entry of a type that the kernel does not know makes mpinit loop forever: the break of the default case leaves the switch only, and the panic behind the loop is never reached.
\<close>

lemma mpinit_loop_unknown: "p < e \<Longrightarrow> m p \<notin> {MPPROC, MPBUS, MPIOAPIC, MPIOINTR, MPLINTR} \<Longrightarrow> mpinit_loop m p e b s = None"
proof -
  have "mpinit_loop m p e b s = Some y \<Longrightarrow> \<not> (p < e \<and> m p \<notin> {MPPROC, MPBUS, MPIOAPIC, MPIOINTR, MPLINTR})" for y
    by (rule mpinit_loop.raw_induct [where P = "\<lambda>m p e b s y. \<not> (p < e \<and> m p \<notin> {MPPROC, MPBUS, MPIOAPIC, MPIOINTR, MPLINTR})"])
      (fastforce split: if_splits)
  then show "p < e \<Longrightarrow> m p \<notin> {MPPROC, MPBUS, MPIOAPIC, MPIOINTR, MPLINTR} \<Longrightarrow> mpinit_loop m p e b s = None"
    by (cases "mpinit_loop m p e b s") auto
qed

lemma mpinit_unknown_hangs:
  assumes "mpconfig m = Some (conf, mp)" "conf \<noteq> 0" "entries_at m (conf + 44) es" "unat (conf_length m conf) = 44 + entries_size es + n" "0 < n"
    "unat conf + unat (conf_length m conf) < 2 ^ 32" "ncpu s = 0" "length (cpu_apicid s) = NCPU"
    "m (conf + 44 + of_nat (entries_size es)) \<notin> {MPPROC, MPBUS, MPIOAPIC, MPIOINTR, MPLINTR}"
  shows "mpinit m s = None"
proof -
  let ?s = "s\<lparr>lapic_addr := conf_lapicaddr m conf\<rparr>" and ?e = "conf + ucast (conf_length m conf)" and ?p = "conf + 44 + of_nat (entries_size es)"
  have e: "?e = conf + 44 + of_nat (entries_size es + n)"
    using arg_cong [OF assms(4), of "of_nat :: nat \<Rightarrow> ptr"] by (simp add: of_nat_unat add.assoc)
  have w: "unat (of_nat j :: ptr) = j" if "j < 2 ^ 32" for j using that by (intro of_nat_inverse) simp_all
  have u: "unat (conf + 44) = unat conf + 44" using assms(4,6) by (simp add: unat_word_ariths)
  have "unat ?p = unat (conf + 44) + entries_size es" "unat ?e = unat (conf + 44) + (entries_size es + n)"
    unfolding e using assms(4,6) u w [of "entries_size es"] w [of "entries_size es + n"] by (simp_all only: unat_word_ariths) simp_all
  then have lt: "?p < ?e" using assms(5) by (simp add: word_less_nat_alt)
  have "mpinit_loop m (conf + 44) ?e True ?s = mpinit_loop m ?p ?e True (take_entries es ?s)"
    using assms u e by (intro mpinit_loop_entries [where n = n]) simp_all
  also have "\<dots> = None" using lt assms(9) by (rule mpinit_loop_unknown)
  finally show ?thesis using assms(1,2) by (simp add: mpinit_def)
qed

section \<open>An example\<close>

text \<open>A machine with two processors and one I/O APIC.\<close>

definition ex_mp :: "byte list" where
  "ex_mp = [0x5f, 0x4d, 0x50, 0x5f, 0x10, 0, 0x0f, 0, 1, 4, 0x81, 0, 0, 0, 0, 0]"

definition ex_conf :: "byte list" where
  "ex_conf = [0x50, 0x43, 0x4d, 0x50, 92, 0, 4, 0x84] @ replicate 28 0 @ [0, 0, 0xe0, 0xfe] @ replicate 4 0 @
     [0, 0] @ replicate 18 0 @ [0, 3] @ replicate 18 0 @ [2, 9] @ replicate 6 0"

definition ex_mem :: mem where
  "ex_mem = write_list (write_list (\<lambda>_. 0) 0x8000040e [0, 0xf0]) 0x800f0000 (ex_mp @ ex_conf)"

definition ex_mpstate :: mpstate where
  "ex_mpstate = \<lparr>cpu_apicid = replicate 8 0, ncpu = 0, ioapicid = 0, lapic_addr = 0, imcr = 0\<rparr>"
lemma ex_mpconfig: "mpconfig ex_mem = Some (0x800f0010, 0x800f0000)"
proof -
  have "mp_valid ex_mem 0x800f0000" by code_simp
  then have "mpsearch1_loop ex_mem 0x800f0000 e = Some 0x800f0000" if "0x800f0000 < e" for e
    using that by (subst mpsearch1_loop.simps) (simp add: mp_valid_def)
  then have "mpsearch1 ex_mem 0xf0000 1024 = Some 0x800f0000" by (simp add: mpsearch1_def P2V_def)
  moreover have "ex_mem (P2V 0x400 + 0x0f) = 0xf0" "ex_mem (P2V 0x400 + 0x0e) = 0"
    by (simp_all add: ex_mem_def write_list_def P2V_def ex_mp_def ex_conf_def)
  ultimately have "mpsearch ex_mem = Some 0x800f0000" by (simp add: mpsearch_def)
  moreover have "mp_physaddr ex_mem 0x800f0000 = 0xf0010" by code_simp
  moreover have "is_sig ex_mem 0x800f0010 [0x50, 0x43, 0x4d, 0x50]" by code_simp
  moreover have "conf_version ex_mem 0x800f0010 = 4" "conf_length ex_mem 0x800f0010 = 92" by code_simp+
  moreover have "sum_bytes ex_mem 0x800f0010 92 = 0" by code_simp
  ultimately show ?thesis by (simp add: mpconfig_def P2V_def)
qed

theorem mpinit_processors_witness:
  "\<exists>s'. mpinit ex_mem ex_mpstate = Some (Inr s') \<and> ncpu s' = 2 \<and> take (ncpu s') (cpu_apicid s') = [0, 3] \<and> ioapicid s' = 9 \<and> lapic_addr s' = 0xfee00000"
proof -
  have "entries_at ex_mem (0x800f0010 + 44) [EProc 0, EProc 3, EIoapic 9]" by code_simp
  moreover have "conf_length ex_mem 0x800f0010 = 92" "conf_lapicaddr ex_mem 0x800f0010 = 0xfee00000" by code_simp+
  ultimately show ?thesis
    using mpinit_processors [OF ex_mpconfig, of "[EProc 0, EProc 3, EIoapic 9]" ex_mpstate] by (auto simp: entries_size_def ex_mpstate_def)
qed

end
