(* ===== verification/Start.thy ===== *)
theory Start
  imports Kvm Typed Cache
begin

text \<open>
  The start of the kernel (main.c) from the memory that the boot loader left: the allocator, the kernel's page table, the devices and the first process.
  What main does to hardware that the model has no state for (the segment, interrupt and timer registers) is left out.  The processors are the list of their APIC ids
  that mpinit of the theory Mp finds, and lapicid is the identifier of the one that runs main; each other processor is taken to start.
\<close>

section \<open>main\<close>

text \<open>uartinit of uart.c when there is a serial port.\<close>

definition uartinit :: "unit M" where
  "uartinit = foreach (map (\<lambda>c. int (of_char c)) ''xv6...\<newline>'') uartputc"

text \<open>lapicstartap of lapic.c: the warm reset vector; the interrupts it sends are left out.\<close>

definition lapicstartap :: "byte \<Rightarrow> uint \<Rightarrow> unit M" where
  "lapicstartap apicid addr =
     modify (\<lambda>s. s\<lparr>kmem := write_list (kmem s) (P2V 0x467) [0, 0, ucast (drop_bit 4 addr), ucast (drop_bit 12 addr)]\<rparr>)"

text \<open>mycpu of proc.c with interrupts off: the first processor with the identifier that the interrupt controller reports.\<close>

definition mycpu_index :: "byte list \<Rightarrow> byte \<Rightarrow> nat M" where
  "mycpu_index cpus lapicid =
     (case find (\<lambda>i. cpus ! i = lapicid) [0..<length cpus] of None \<Rightarrow> panic ''unknown apicid\<newline>'' | Some i \<Rightarrow> ret i)"

definition startothers :: "byte list \<Rightarrow> ptr \<Rightarrow> ptr \<Rightarrow> byte list \<Rightarrow> byte \<Rightarrow> unit M" where
  "startothers entryother mpenter entrypgdir cpus lapicid =
     (let code = P2V 0x7000 in
      seqM (modify (\<lambda>s. s\<lparr>kmem := write_list (kmem s) code entryother\<rparr>))
     (foreach [0..<length cpus] (\<lambda>c.
        bindM (mycpu_index cpus lapicid) (\<lambda>me.
        if c = me then ret () else
        bindM kalloc (\<lambda>stack.
        seqM (modify (\<lambda>s. s\<lparr>kmem := store32 (kmem s) (code - 4) (stack + KSTACKSIZE)\<rparr>))
       (seqM (modify (\<lambda>s. s\<lparr>kmem := store32 (kmem s) (code - 8) mpenter\<rparr>))
       (seqM (modify (\<lambda>s. s\<lparr>kmem := store32 (kmem s) (code - 12) (V2P entrypgdir)\<rparr>))
       (lapicstartap (cpus ! c) (V2P code)))))))))"

record image =
  entryother :: "byte list"
  mpenter :: ptr
  entrypgdir :: ptr
  initcode :: "byte list"
  fs_img :: "uint \<Rightarrow> byte list"
  fs_img_size :: uint

definition main :: "image \<Rightarrow> byte list \<Rightarrow> byte \<Rightarrow> unit M" where
  "main im cpus lapicid =
     seqM (bindM (gets kend) (\<lambda>end. kinit1 end (P2V (4 * 1024 * 1024))))
    (seqM kvmalloc
    (seqM consoleinit
    (seqM uartinit
    (seqM binit
    (seqM (ideinit (fs_img im) (fs_img_size im))
    (seqM (startothers (entryother im) (mpenter im) (entrypgdir im) cpus lapicid)
    (seqM (kinit2 (P2V (4 * 1024 * 1024)) (P2V PHYSTOP))
    (userinit (initcode im)))))))))"

section \<open>The state beside the memory\<close>

definition erase :: "kernel \<Rightarrow> kernel" where
  "erase s = set_mem (\<lambda>_. 0) 0 s"

lemma erase_set_mem [simp]: "erase (set_mem m f s) = erase s"
  by (simp add: erase_def)

lemma erase_mem [simp]: "erase (s\<lparr>kmem := m\<rparr>) = erase s" "erase (s\<lparr>freelist := f\<rparr>) = erase s"
  by (simp_all add: erase_def set_mem_def)

lemma erase_eq: "erase s' = erase s \<Longrightarrow> s' = set_mem (kmem s') (freelist s') s"
  by (cases s; cases s') (simp add: erase_def set_mem_def)

lemma free_pages_cong:
  assumes "kmem s' = kmem s" "freelist s' = freelist s" "kend s' = kend s" "KmemLock \<notin> set (held s')"
  shows "free_pages s P \<Longrightarrow> free_pages s' P"
  using assms by (auto simp: free_pages_def kmem_inv_def page_ok_def)

text \<open>The kernel's page table, beside the free pages.\<close>

definition kpt :: "kernel \<Rightarrow> ptr \<Rightarrow> ptr set \<Rightarrow> ptr set \<Rightarrow> bool" where
  "kpt s kp T P \<longleftrightarrow> vm_inv s kp T P \<and> vmap (kmem s) kp = kvm_map (kdata s) \<and> (\<forall>t\<in>insert kp T. page_ok s t)"

lemma kpt_frame:
  assumes "kpt s kp T P" "free_pages s' P'" "kdata s' = kdata s" "kend s' = kend s" "insert kp T \<inter> P' = {}"
    "\<And>q x. q \<in> insert kp T \<Longrightarrow> in_page q x \<Longrightarrow> kmem s' x = kmem s x"
  shows "kpt s' kp T P'"
proof -
  have wf: "pt_wf (kmem s) kp T" using assms(1) by (simp add: kpt_def vm_inv_def)
  have "pt_wf (kmem s') kp T" "vmap (kmem s') kp = vmap (kmem s) kp"
    using pt_frame(1,2) [OF wf, of "kmem s'"] assms(6) by blast+
  then show ?thesis using assms(1-5) by (auto simp: kpt_def vm_inv_def page_ok_def)
qed

text \<open>Memory below the end of the kernel belongs to no page.\<close>

lemma page_above:
  assumes "page_ok s p" "in_page p x"
  shows "\<not> x < kend s"
proof -
  have "page_aligned p" "\<not> p < kend s" "V2P p < PHYSTOP" using assms(1) by (simp_all add: page_ok_def)
  then show ?thesis using in_page_unat(1,2) [of p x] assms(2) by (auto simp: word_less_nat_alt)
qed

section \<open>The steps of main\<close>

text \<open>Writes below the end of the kernel.\<close>

lemma free_pages_low:
  assumes "free_pages s P" "\<And>x. \<not> x < kend s \<Longrightarrow> m x = kmem s x"
  shows "free_pages (s\<lparr>kmem := m\<rparr>) P"
  using assms page_above pa.free_set_page [OF assms(1)] by (intro pa.free_set_frame) blast+

lemma kpt_low:
  assumes "kpt s kp T P" "\<And>x. \<not> x < kend s \<Longrightarrow> m x = kmem s x"
  shows "kpt (s\<lparr>kmem := m\<rparr>) kp T P"
proof (rule kpt_frame [OF assms(1)])
  show "free_pages (s\<lparr>kmem := m\<rparr>) P" using assms by (intro free_pages_low) (auto simp: kpt_def vm_inv_def)
  show "insert kp T \<inter> P = {}" using assms(1) by (auto simp: kpt_def vm_inv_def)
  show "kmem (s\<lparr>kmem := m\<rparr>) x = kmem s x" if "q \<in> insert kp T" "in_page q x" for q x
    using assms page_above [of s q x] that by (auto simp: kpt_def)
qed simp_all

lemma low_store32:
  assumes "unat a + 4 \<le> unat e" "\<not> x < e"
  shows "store32 m a v x = m x"
proof -
  have "unat (x - a) \<ge> 4" using assms by (auto simp: word_less_nat_alt unat_sub_if')
  then show ?thesis by (intro store32_frame) (simp add: word_less_nat_alt)
qed

lemma low_write_list:
  assumes "unat a + length bs \<le> unat e" "\<not> x < e"
  shows "write_list m a bs x = m x"
proof -
  have "unat (x - a) \<ge> length bs" using assms by (auto simp: word_less_nat_alt unat_sub_if')
  then show ?thesis by (simp add: write_list_def)
qed

lemma kpt_kalloc:
  assumes "kpt s kp T P"
  obtains p s' P' where "kalloc s = Ok p s'" "erase s' = erase s" "kpt s' kp T P'" "P' \<subseteq> P" "kend s' = kend s"
proof -
  have fp: "free_pages s P" using assms by (simp add: kpt_def vm_inv_def)
  then show thesis
  proof (cases rule: pa.alloc_cases)
    case none
    then show thesis using that [of 0 s P] assms by simp
  next
    case (page p f)
    have "kpt (s\<lparr>freelist := f\<rparr>) kp T (P - {p})" using page(5) assms by (intro kpt_frame [OF assms]) (auto simp: kpt_def vm_inv_def)
    then show thesis using that [of p "s\<lparr>freelist := f\<rparr>" "P - {p}"] page(4) by auto
  qed
qed

lemma startothers_ok:
  assumes "kpt s kp T P" "length code \<le> 0x1000" "0x80100000 \<le> unat (kend s)" "lapicid \<in> set cpus"
  obtains s' P' where "startothers code mpe epg cpus lapicid s = Ok () s'" "erase s' = erase s" "kpt s' kp T P'" "P' \<subseteq> P"
proof -
  obtain me where "find (\<lambda>i. cpus ! i = lapicid) [0..<length cpus] = Some me"
    using assms(4) by (cases "find (\<lambda>i. cpus ! i = lapicid) [0..<length cpus]") (auto simp: find_None_iff in_set_conv_nth)
  then have me: "mycpu_index cpus lapicid = ret me" by (simp add: mycpu_index_def)
  let ?g = "\<lambda>c. bindM kalloc (\<lambda>stack.
        seqM (modify (\<lambda>s. s\<lparr>kmem := store32 (kmem s) (P2V 0x7000 - 4) (stack + KSTACKSIZE)\<rparr>))
       (seqM (modify (\<lambda>s. s\<lparr>kmem := store32 (kmem s) (P2V 0x7000 - 8) mpe\<rparr>))
       (seqM (modify (\<lambda>s. s\<lparr>kmem := store32 (kmem s) (P2V 0x7000 - 12) (V2P epg)\<rparr>))
       (lapicstartap (cpus ! c) (V2P (P2V 0x7000))))))"
  let ?f = "\<lambda>c. bindM (mycpu_index cpus lapicid) (\<lambda>me. if c = me then ret () else ?g c)"
  have loop: "\<exists>s' P'. foreach xs ?f s = Ok () s' \<and> erase s' = erase s \<and> kpt s' kp T P' \<and> P' \<subseteq> P"
    if "kpt s kp T P" "0x80100000 \<le> unat (kend s)" for s P xs
    using that
  proof (induction xs arbitrary: s P)
    case Nil
    then show ?case by (auto simp: ret_def)
  next
    case (Cons a xs)
    obtain p s1 P1 where 1: "kalloc s = Ok p s1" "erase s1 = erase s" "kpt s1 kp T P1" "P1 \<subseteq> P" "kend s1 = kend s"
      using kpt_kalloc [OF Cons.prems(1)] by blast
    define m where "m = write_list (store32 (store32 (store32 (kmem s1) (P2V 0x7000 - 4) (p + KSTACKSIZE)) (P2V 0x7000 - 8) mpe)
        (P2V 0x7000 - 12) (V2P epg)) (P2V 0x467) [0, 0, ucast (drop_bit 4 (V2P (P2V 0x7000))), ucast (drop_bit 12 (V2P (P2V 0x7000)))]"
    show ?case
    proof (cases "a = me")
      case True
      then have "?f a s = Ok () s" by (simp add: me ret_def bindM_def)
      then show ?thesis using Cons by (simp add: seqM_def)
    next
      case False
    have f: "?f a s = Ok () (s1\<lparr>kmem := m\<rparr>)" using 1(1) False me by (simp add: lapicstartap_def monad_defs m_def)
    have "m x = kmem s1 x" if "\<not> x < kend s1" for x
      unfolding m_def using that Cons.prems(2) 1(5)
      by (subst low_write_list [of _ _ "kend s1"], simp add: P2V_def, simp, (subst low_store32 [of _ "kend s1"], simp add: P2V_def, simp)+) simp
    then have "kpt (s1\<lparr>kmem := m\<rparr>) kp T P1" using 1(3) by (rule kpt_low [rotated])
    from Cons.IH [OF this] show ?thesis using f 1 Cons.prems(2) by (auto simp: seqM_def)
    qed
  qed
  let ?s = "s\<lparr>kmem := write_list (kmem s) (P2V 0x7000) code\<rparr>"
  have "kpt ?s kp T P" using assms by (intro kpt_low low_write_list [of _ _ "kend s"]) (simp_all add: P2V_def)
  from loop [OF this, of "[0..<length cpus]"] obtain s' P' where "foreach [0..<length cpus] ?f ?s = Ok () s'" "erase s' = erase ?s" "kpt s' kp T P'" "P' \<subseteq> P" using assms(3) by auto
  then show thesis using that [of s' P'] by (simp add: startothers_def Let_def seqM_def modify_def)
qed

lemma card_page_list: "distinct (page_list p n) \<Longrightarrow> card (set (page_list p n)) = n"
  using distinct_card [of "page_list p n"] by (simp only: page_list_def length_map length_upt diff_zero)

lemma kinit1_ok:
  assumes "freelist s = 0" "KmemLock \<notin> set (held s)" "0x80100000 < unat (kend s)" "unat (kend s) + 4096 * 66 \<le> 0x80400000"
  obtains s' P where "kinit1 (kend s) (P2V (4 * 1024 * 1024)) s = Ok () s'" "erase s' = erase (s\<lparr>use_lock := False\<rparr>)" "free_pages s' P" "65 \<le> card P"
    "\<And>p. p \<in> P \<Longrightarrow> unat p < 0x80400000"
proof -
  let ?s = "s\<lparr>use_lock := False\<rparr>" and ?e = "P2V (4 * 1024 * 1024)" and ?p = "PGROUNDUP (kend s)"
  define n where "n = (unat ?e - unat ?p) div 4096"
  have e: "unat ?e = 0x80400000" by (simp add: P2V_def)
  have p: "unat ?p \<le> unat (kend s) + 4095" using assms(4) by (simp add: unat_PGROUNDUP)
  have inv: "kmem_inv ?s []" using assms(1-3) by (simp add: kmem_inv_def word_less_nat_alt)
  have c: "kend ?s \<le> kend s" "?e \<le> P2V PHYSTOP" "kend s \<le> ?e" "?p \<le> ?e" "set (page_list ?p n) \<inter> set [] = {}"
    using p assms(4) e by (simp_all add: word_le_nat_alt P2V_def)
  obtain m f where r: "freerange (kend s) ?e ?s = Ok () (?s\<lparr>kmem := m, freelist := f\<rparr>)" "kmem_inv (?s\<lparr>kmem := m, freelist := f\<rparr>) (rev (page_list ?p n) @ [])"
    using freerange_ok [OF inv c(1-4) n_def c(5)] by blast
  have n: "65 \<le> n" "unat ?p + 4096 * n \<le> 0x80400000" unfolding n_def e using p assms(4) by linarith+
  show thesis
  proof (rule that [of "?s\<lparr>kmem := m, freelist := f\<rparr>" "set (page_list ?p n)"])
    show "kinit1 (kend s) ?e s = Ok () (?s\<lparr>kmem := m, freelist := f\<rparr>)" using r(1) by (simp add: kinit1_def seqM_def modify_def)
    show "free_pages (?s\<lparr>kmem := m, freelist := f\<rparr>) (set (page_list ?p n))" using r(2) unfolding free_pages_def by (metis append_Nil2 set_rev)
    have "distinct (page_list ?p n)" using n(2) by (intro distinct_page_list) simp
    then show "65 \<le> card (set (page_list ?p n))" using n(1) by (simp add: card_page_list)
    show "unat q < 0x80400000" if "q \<in> set (page_list ?p n)" for q
      using page_list_aligned(3) [of ?p n q] that n(2) by simp
  qed simp
qed

lemma kinit2_ok:
  assumes "kpt s kp T P" "unat (kend s) \<le> 0x80400000" "\<And>p. p \<in> insert kp T \<union> P \<Longrightarrow> unat p < 0x80400000"
  obtains s' P' where "kinit2 (P2V (4 * 1024 * 1024)) (P2V PHYSTOP) s = Ok () s'" "erase s' = erase (s\<lparr>use_lock := True\<rparr>)" "kpt s' kp T P'" "1000 \<le> card P'"
proof -
  let ?a = "P2V (4 * 1024 * 1024)" and ?e = "P2V PHYSTOP"
  define n where "n = (unat ?e - unat ?a) div 4096"
  have a: "PGROUNDUP ?a = ?a" "page_aligned ?a" "unat ?a = 0x80400000" "unat ?e = 0x8E000000" by (simp_all add: P2V_def page_aligned_def PGROUNDUP_def)
  obtain xs where xs: "kmem_inv s xs" "set xs = P" using assms(1) by (auto simp: kpt_def vm_inv_def free_pages_def)
  have n: "n = 56320" unfolding n_def a by simp
  have new: "page_aligned q" "0x80400000 \<le> unat q" if "q \<in> set (page_list ?a n)" for q
    using page_list_aligned [OF a(2) _ that] a(3) n by simp_all
  have c: "kend s \<le> ?a" "?a \<le> ?e" using assms(2) by (simp_all add: word_le_nat_alt P2V_def)
  have d: "set (page_list ?a n) \<inter> set xs = {}" unfolding xs(2) using new(2) assms(3) by (meson UnCI disjoint_iff not_le)
  obtain m f where r: "freerange ?a ?e s = Ok () (s\<lparr>kmem := m, freelist := f\<rparr>)" "kmem_inv (s\<lparr>kmem := m, freelist := f\<rparr>) (rev (page_list ?a n) @ xs)"
    "\<And>x. (\<forall>v\<in>set (page_list ?a n). \<not> in_page v x) \<Longrightarrow> m x = kmem s x"
    using freerange_ok [OF xs(1) c(1) order_refl c(2), unfolded a(1), OF c(2) n_def d] by blast
  let ?P = "set (page_list ?a n) \<union> P" and ?s = "s\<lparr>kmem := m, freelist := f, use_lock := True\<rparr>"
  have fp: "free_pages ?s ?P" using r(2) xs(2) by (auto simp: free_pages_def kmem_inv_def page_ok_def intro!: exI [of _ "rev (page_list ?a n) @ xs"])
  show thesis
  proof (rule that [of ?s ?P])
    show "kinit2 ?a ?e s = Ok () ?s" using r(1) by (simp add: kinit2_def seqM_def modify_def)
    show "kpt ?s kp T ?P"
    proof (rule kpt_frame [OF assms(1) fp])
      have "insert kp T \<inter> P = {}" using assms(1) by (auto simp: kpt_def vm_inv_def)
      moreover have "q \<notin> insert kp T" if "q \<in> set (page_list ?a n)" for q using assms(3) [of q] new(2) [OF that] by auto
      ultimately show "insert kp T \<inter> ?P = {}" by blast
      show "kmem ?s x = kmem s x" if "q \<in> insert kp T" "in_page q x" for q x
      proof -
        have q: "page_aligned q" using assms(1) that(1) by (auto simp: kpt_def page_ok_def)
        have "\<not> in_page v x" if "v \<in> set (page_list ?a n)" for v
        proof (rule in_page_disjoint [OF q new(1) [OF that] _ \<open>in_page q x\<close>])
          show "q \<noteq> v" using new(2) [OF that] assms(3) [of q] \<open>q \<in> insert kp T\<close> by auto
        qed
        then show ?thesis using r(3) by simp
      qed
    qed simp_all
    have "distinct (page_list ?a n)" using n a(3) by (intro distinct_page_list) simp
    then have "card (set (page_list ?a n)) = 56320" unfolding n by (rule card_page_list)
    moreover have "card (set (page_list ?a n)) \<le> card ?P" using xs(2) by (intro card_mono) auto
    ultimately show "1000 \<le> card ?P" by simp
  qed (simp add: erase_def set_mem_def)
qed

lemma kvmalloc_ok:
  assumes "free_pages s P" "65 \<le> card P" "data_ok (kdata s)"
  obtains kp s' T' P' where "kvmalloc s = Ok () s'" "erase s' = erase (s\<lparr>kpgdir := kp, cr3 := V2P kp\<rparr>)" "kpt s' kp T' P'" "insert kp (T' \<union> P') = P"
proof -
  obtain kp t T' P' where t: "setupkvm s = Ok kp t" "kp \<in> P" "\<exists>m f. t = set_mem m f s" "vm_inv t kp T' P'"
    "vmap (kmem t) kp = kvm_map (kdata s)" "T' \<union> P' = P - {kp}"
    using setupkvm_ok [OF assms] by metis
  let ?s = "t\<lparr>kpgdir := kp, cr3 := V2P kp\<rparr>"
  obtain m f where m: "t = set_mem m f s" using t(3) by blast
  have ok: "page_ok s q" if "q \<in> P" for q using pa.free_set_page [OF assms(1) that] by blast
  show thesis
  proof (rule that [of ?s kp T' P'])
    show "kvmalloc s = Ok () ?s" using t(1) by (simp add: kvmalloc_def switchkvm_def monad_defs)
    show "erase ?s = erase (s\<lparr>kpgdir := kp, cr3 := V2P kp\<rparr>)" unfolding m by (cases s) (simp add: erase_def set_mem_def)
    have "insert kp T' \<subseteq> P" using t(2,6) by blast
    then have "\<forall>q\<in>insert kp T'. page_ok ?s q" using ok by (auto simp: m page_ok_def)
    moreover have "vm_inv ?s kp T' P'" using t(4) free_pages_cong [of ?s t P'] by (auto simp: vm_inv_def free_pages_def kmem_inv_def)
    ultimately show "kpt ?s kp T' P'" using t(5) m by (simp add: kpt_def)
    show "insert kp (T' \<union> P') = P" using t(2,6) by blast
  qed
qed

section \<open>The first process\<close>

lemma uvm_write_page:
  assumes "uvm_inv s pd T P" "page_aligned p" "p \<notin> insert pd (T \<union> P)" "\<And>x. \<not> in_page p x \<Longrightarrow> m x = kmem s x"
  shows "uvm_inv (s\<lparr>kmem := m\<rparr>) pd T P" "vmap m pd = vmap (kmem s) pd"
proof -
  have wf: "pt_wf (kmem s) pd T" and fp: "free_pages s P" using assms(1) by (simp_all add: uvm_inv_def vm_inv_def)
  have out: "\<not> in_page p x" if "page_aligned q" "q \<noteq> p" "in_page q x" for q x using in_page_disjoint [OF that(1) assms(2) that(2,3)] .
  have al: "page_aligned q" if "q \<in> insert pd T" for q using wf that by (auto simp: pt_wf_def)
  have pf: "pt_wf m pd T" "vmap m pd = vmap (kmem s) pd"
    using pt_frame(1,2) [OF wf, of m] out al assms(3,4) by blast+
  then show "vmap m pd = vmap (kmem s) pd" by blast
  have "free_pages (s\<lparr>kmem := m\<rparr>) P"
  proof (rule pa.free_set_frame [OF fp])
    show "m x = kmem s x" if "q \<in> P" "in_page q x" for q x
      using out [of q x] pa.free_set_page [OF fp that(1)] assms(3,4) that by (auto simp: page_ok_def)
  qed
  then show "uvm_inv (s\<lparr>kmem := m\<rparr>) pd T P" using assms(1) pf by (auto simp: uvm_inv_def vm_inv_def user_frames_def)
qed

lemma inituvm_ok:
  assumes inv: "uvm_inv s pd T P" "vmap (kmem s) pd 0 = None" and P: "finite P" "2 \<le> card P" and len: "length init < 4096"
  obtains fr s' T' P' where "inituvm pd init s = Ok () s'" "erase s' = erase s" "uvm_inv s' pd T' P'" "fr \<in> P"
    "vmap (kmem s') pd = (vmap (kmem s) pd)(0 \<mapsto> V2P fr OR 7)" "mem_list (kmem s') fr 4096 = init @ replicate (4096 - length init) 0"
    "insert fr (T' \<union> P') = T \<union> P" "fr \<notin> T' \<union> P'" "T \<subseteq> T'" "\<And>x. (\<forall>q\<in>insert pd (T \<union> P). \<not> in_page q x) \<Longrightarrow> kmem s' x = kmem s x"
proof -
  have fp: "free_pages s P" and TP: "T \<inter> P = {}" "pd \<notin> P" using inv(1) by (simp_all add: uvm_inv_def vm_inv_def)
  from fp obtain p f where p: "p \<in> P" "p \<noteq> 0" "page_ok s p" "kalloc s = Ok p (s\<lparr>freelist := f\<rparr>)" "free_pages (s\<lparr>freelist := f\<rparr>) (P - {p})"
    using P(2) by (cases rule: pa.alloc_cases) auto
  have al: "page_aligned p" using p(3) by (simp add: page_ok_def)
  define s0 where s0: "s0 = set_mem (set_range (kmem s) p PGSIZE 0) f s"
  have "free_pages (set_mem (kmem s) f s) (P - {p})" using p(5) by (simp add: set_mem_intro)
  note z = zero_page_inv [OF inv(1) p(3,1) this s0]
  have uf: "user_frames (kmem s0) pd = user_frames (kmem s) pd" by (simp add: user_frames_def z(2))
  have pn: "p \<notin> insert pd (T \<union> (P - {p}) \<union> user_frames (kmem s0) pd)"
    using p(1) inv(1) TP unfolding uf uvm_inv_def by blast
  have ok0: "page_ok s0 p" using p(3) by (simp add: s0 page_ok_def)
  have "card (P - {p}) \<noteq> 0" using P p(1) by simp
  then have ne: "P - {p} \<noteq> {}" by (metis card.empty)
  have fr: "frame_of (V2P p OR (PTE_W OR PTE_U) OR PTE_P) = p" unfolding user_pte by (rule frame_of_user_pte [OF al])
  have a0: "vmap (kmem s0) pd 0 = None" using inv(2) z(2) by simp
  have z0: "page_aligned 0" "(0 :: uint) < KERNBASE" by (simp_all add: page_aligned_def)
  obtain t T' P' where t: "mappages pd 0 PGSIZE (V2P p) (PTE_W OR PTE_U) s0 = Ok 0 t" "vm_ext s0 pd T (P - {p}) t T' P'" "uvm_inv t pd T' P'"
    "vmap (kmem t) pd = (vmap (kmem s0) pd)(0 \<mapsto> V2P p OR (PTE_W OR PTE_U) OR PTE_P)"
    "\<And>q x. q \<in> insert p (user_frames (kmem s0) pd) \<Longrightarrow> in_page q x \<Longrightarrow> kmem t x = kmem s0 x"
    by (rule map_frame [OF z(1) ok0 pn z0 a0 fr]) (use ne in blast)+
  have TP': "T \<subseteq> T'" "T' \<union> P' = T \<union> (P - {p})" using t(2) by (simp_all add: vm_ext_def)
  have pt: "p \<notin> insert pd (T' \<union> P')" using TP' pn by auto
  let ?m = "write_list (kmem t) p init"
  have w: "?m x = kmem t x" if "\<not> in_page p x" for x
    using that len by (auto simp: write_list_def in_page_def in_range_def word_less_nat_alt)
  note u = uvm_write_page [OF t(3) al pt w]
  show thesis
  proof (rule that [of "t\<lparr>kmem := ?m\<rparr>" T' P' p])
    have "s\<lparr>freelist := f, kmem := memset (kmem s) p 0 PGSIZE\<rparr> = s0" by (cases s) (simp add: s0 set_mem_def memset_eq_set_range)
    then show "inituvm pd init s = Ok () (t\<lparr>kmem := ?m\<rparr>)" using len p(2,4) t(1) by (simp add: inituvm_def monad_defs)
    obtain m' f' where "t = set_mem m' f' s0" using t(2) by (auto simp: vm_ext_def)
    then show "erase (t\<lparr>kmem := ?m\<rparr>) = erase s" by (simp add: s0)
    show "uvm_inv (t\<lparr>kmem := ?m\<rparr>) pd T' P'" by (rule u(1))
    show "vmap (kmem (t\<lparr>kmem := ?m\<rparr>)) pd = (vmap (kmem s) pd)(0 \<mapsto> V2P p OR 7)" using u(2) t(4) z(2) unfolding user_pte by simp
    have "kmem t (p + of_nat i) = 0" if "i < 4096" for i
    proof -
      have "in_page p (p + of_nat i)" using that by (intro in_page_add) (simp add: word_less_nat_alt unat_of_nat)
      then show ?thesis using t(5) [of p "p + of_nat i"] by (simp add: s0 set_range_def in_page_def)
    qed
    then have "mem_list ?m p 4096 = init @ replicate (4096 - length init) 0"
      using len by (intro nth_equalityI) (simp_all add: mem_list_def write_list_def nth_append unat_of_nat)
    then show "mem_list (kmem (t\<lparr>kmem := ?m\<rparr>)) p 4096 = init @ replicate (4096 - length init) 0" by simp
    show "insert p (T' \<union> P') = T \<union> P" "p \<notin> T' \<union> P'" using TP' p(1) pt by auto
    show "kmem (t\<lparr>kmem := ?m\<rparr>) x = kmem s x" if "\<forall>q\<in>insert pd (T \<union> P). \<not> in_page q x" for x
    proof -
      have "\<not> in_page p x" "\<not> in_page pd x" "\<forall>q\<in>T'. \<not> in_page q x" using that p(1) TP' by auto
      then show ?thesis using w [of x] t(2) by (simp add: vm_ext_def s0 set_range_def in_page_def)
    qed
  qed (use p(1) TP' in blast)+
qed

lemma foreach_uart: "foreach cs uartputc s = Ok () (s\<lparr>uart_out := uart_out s @ map word_of_int cs\<rparr>)"
proof (induction cs arbitrary: s)
  case Nil
  then show ?case by (cases s) (simp add: ret_def)
next
  case (Cons c cs)
  then show ?case by (simp add: seqM_def uartputc_def modify_def)
qed

lemma binit_ok:
  assumes "bufs s = replicate NBUF zero_buf" "lru s = []"
  shows "binit s = Ok () (s\<lparr>lru := rev [0..<NBUF]\<rparr>)"
proof -
  let ?f = "\<lambda>b. seqM (initsleeplock (BufLock b)) (modify (\<lambda>s. s\<lparr>lru := b # lru s\<rparr>))"
  have loop: "foreach xs ?f s = Ok () (s\<lparr>lru := rev xs @ lru s\<rparr>)" if "bufs s = replicate NBUF zero_buf" "set xs \<subseteq> {..<NBUF}" for xs s
    using that
  proof (induction xs arbitrary: s)
    case Nil
    then show ?case by (cases s) (simp add: ret_def)
  next
    case (Cons b xs)
    have "(bufs s)[b := (bufs s ! b)\<lparr>b_lock := \<lparr>sl_locked = False, sl_pid = 0\<rparr>\<rparr>] = bufs s"
      using Cons.prems by (intro list_update_same_conv [THEN iffD2]) (auto simp: zero_buf_def zero_sleeplock_def)
    then have "set_slock (BufLock b) \<lparr>sl_locked = False, sl_pid = 0\<rparr> s = s" by (cases s) (simp add: set_slock_def upd_buf_def)
    then have "?f b s = Ok () (s\<lparr>lru := b # lru s\<rparr>)" by (simp add: initsleeplock_def seqM_def modify_def)
    then show ?case using Cons by (simp add: seqM_def)
  qed
  show ?thesis unfolding binit_def using loop [OF assms(1), of "[0..<NBUF]"] assms(2) by (simp add: lessThan_atLeast0 del: upt_rec_numeral)
qed

lemma iget_first:
  assumes "icache s = replicate NINODE zero_inode" "IcacheLock \<notin> set (held s)"
  shows "iget dev inum s = Ok 0 (s\<lparr>icache := (icache s)[0 := zero_inode\<lparr>i_dev := dev, i_inum := inum, i_ref := 1, i_valid := False\<rparr>]\<rparr>)"
proof -
  have "find (\<lambda>i. i_ref (icache s ! i) > 0 \<and> i_dev (icache s ! i) = dev \<and> i_inum (icache s ! i) = inum) [0..<length (icache s)] = None"
    using assms(1) by (auto simp: find_None_iff zero_inode_def)
  moreover have "find (\<lambda>i. i_ref (icache s ! i) = 0) [0..<length (icache s)] = Some 0"
    using assms(1) by (simp add: find_upt_Some zero_inode_def del: upt_rec_numeral)
  ultimately show ?thesis using assms by (cases s) (simp add: iget_def monad_defs upd_inode_def del: upt_rec_numeral)
qed

lemma namei_root:
  assumes "icache s = replicate NINODE zero_inode" "IcacheLock \<notin> set (held s)"
  shows "namei (str ''/'') s = Ok (Some 0) (s\<lparr>icache := (icache s)[0 := zero_inode\<lparr>i_dev := ROOTDEV, i_inum := ROOTINO, i_ref := 1, i_valid := False\<rparr>]\<rparr>)"
proof -
  have "str ''/'' = [47]" by code_simp
  then show ?thesis using iget_first [OF assms, of ROOTDEV ROOTINO]
    by (simp add: namei_def namex_def bindM_def skipelem_def ret_def)
qed

definition first_proc :: "ptr \<Rightarrow> proc" where
  "first_proc k = zero_proc\<lparr>p_state := EMBRYO, p_pid := 1, p_open_frames := 0,
     p_mmaps := map (\<lambda>md. md\<lparr>md_valid := False, md_isChildOfParent := False\<rparr>) (p_mmaps zero_proc), p_kstack := k,
     p_context := \<lparr>cx_eip = Forkret, cx_ret = Trapret, cx_zeroed = True\<rparr>\<rparr>"

lemma allocproc_first:
  assumes "ptable s = replicate NPROC zero_proc" "nextpid s = 1" "PtableLock \<notin> set (held s)" "free_pages s P" "P \<noteq> {}" "KmemLock \<notin> set (held s)"
  obtains k f where "allocproc s = Ok (Some 0) (s\<lparr>nextpid := 2, ptable := (ptable s)[0 := first_proc k], freelist := f\<rparr>)"
    "k \<in> P" "free_pages (s\<lparr>freelist := f\<rparr>) (P - {k})"
proof -
  have fd: "find (\<lambda>p. p_state (ptable s ! p) = UNUSED) [0..<NPROC] = Some 0"
    using assms(1) by (simp add: find_upt_Some zero_proc_def del: upt_rec_numeral)
  let ?q = "zero_proc\<lparr>p_state := EMBRYO, p_pid := 1, p_open_frames := 0,
     p_mmaps := map (\<lambda>md. md\<lparr>md_valid := False, md_isChildOfParent := False\<rparr>) (p_mmaps zero_proc)\<rparr>"
  define t where "t = s\<lparr>nextpid := 2, ptable := (ptable s)[0 := ?q]\<rparr>"
  have fp: "free_pages t P" using assms(4,6) by (intro free_pages_cong [of t s]) (simp_all add: t_def)
  obtain k f where k: "k \<in> P" "k \<noteq> 0" "kalloc t = Ok k (t\<lparr>freelist := f\<rparr>)" "free_pages (t\<lparr>freelist := f\<rparr>) (P - {k})"
    using pa.alloc_some [OF fp assms(5)] pa.free_set_page [OF fp] by blast
  have "free_pages (s\<lparr>freelist := f\<rparr>) (P - {k})" using assms(6) k(4) by (intro free_pages_cong [of "s\<lparr>freelist := f\<rparr>" "t\<lparr>freelist := f\<rparr>"]) (simp_all add: t_def)
  moreover have "allocproc s = Ok (Some 0) (s\<lparr>nextpid := 2, ptable := (ptable s)[0 := first_proc k], freelist := f\<rparr>)"
  proof -
    have l: "ptable s ! 0 = zero_proc" "length (ptable s) = NPROC" using assms(1) by simp_all
    have t: "(upd_proc 0 (\<lambda>q. q\<lparr>p_state := EMBRYO, p_pid := 1, p_open_frames := 0,
        p_mmaps := map (\<lambda>md. md\<lparr>md_valid := False, md_isChildOfParent := False\<rparr>) (p_mmaps q)\<rparr>) (s\<lparr>held := PtableLock # held s, nextpid := 2\<rparr>))\<lparr>held := held s\<rparr> = t"
      unfolding t_def using l by (cases s) (simp add: upd_proc_def)
    show ?thesis using fd assms(2,3) k(2,3) l t
      by (simp add: allocproc_def monad_defs upd_proc_def t_def first_proc_def del: upt_rec_numeral)
  qed
  ultimately show thesis using that k(1) by blast
qed

lemma kpt_disjoint:
  assumes "kpt s kp T P" "q \<in> insert kp T" "in_page q x" "p \<in> P"
  shows "\<not> in_page p x"
proof (rule in_page_disjoint [OF _ _ _ assms(3)])
  show "page_aligned q" using assms(1,2) by (auto simp: kpt_def page_ok_def)
  show "page_aligned p" using assms(1,4) pa.free_set_page [of s P p] by (auto simp: kpt_def vm_inv_def page_ok_def)
  show "q \<noteq> p" using assms(1,2,4) by (auto simp: kpt_def vm_inv_def)
qed

lemma kvm_no_user: "va < KERNBASE \<Longrightarrow> data_ok kd \<Longrightarrow> kvm_map kd va = None"
  by (auto simp: kvm_map_def page_in_def data_ok_def word_less_nat_alt)

lemma uvm_inv_kvm:
  assumes "vm_inv s pd T P" "vmap (kmem s) pd = kvm_map kd" "data_ok kd"
  shows "uvm_inv s pd T P"
proof -
  have n: "vmap (kmem s) pd va = None" if "va < KERNBASE" for va using kvm_no_user [OF that assms(3)] assms(2) by simp
  then have "user_frames (kmem s) pd = {}" by (auto simp: user_frames_def)
  then show ?thesis using assms(1) n by (auto simp: uvm_inv_def)
qed

lemma uvm_inv_cong:
  assumes "kmem s' = kmem s" "freelist s' = freelist s" "kend s' = kend s" "KmemLock \<notin> set (held s')"
  shows "uvm_inv s pd T P \<Longrightarrow> uvm_inv s' pd T P"
  using assms free_pages_cong [OF assms] by (auto simp: uvm_inv_def vm_inv_def page_ok_def)

definition first_runnable :: "ptr \<Rightarrow> ptr \<Rightarrow> proc" where
  "first_runnable k pd = (first_proc k)\<lparr>p_pgdir := pd, p_sz := PGSIZE,
     p_tf := zero_trapframe\<lparr>tf_cs := 0x1B, tf_ds := 0x23, tf_es := 0x23, tf_ss := 0x23, tf_eflags := 0x200, tf_esp := PGSIZE, tf_eip := 0\<rparr>,
     p_name := safestrcpy (replicate 16 0) (cstr_of (str ''initcode'')) 16, p_cwd := Some 0, p_state := RUNNABLE\<rparr>"

lemma userinit_ok:
  assumes k0: "kpt s kp T P" and c: "1000 \<le> card P" and d: "data_ok (kdata s)" and len: "length init < 4096"
    and st: "ptable s = replicate NPROC zero_proc" "nextpid s = 1" "held s = []" "icache s = replicate NINODE zero_inode"
  obtains s' k pd fr T' P' where "userinit init s = Ok () s'"
    "erase s' = erase (s\<lparr>nextpid := 2, initproc := Some 0, ptable := (ptable s)[0 := first_runnable k pd],
       icache := (icache s)[0 := zero_inode\<lparr>i_dev := ROOTDEV, i_inum := ROOTINO, i_ref := 1, i_valid := False\<rparr>]\<rparr>)"
    "kpt s' kp T P'" "uvm_inv s' pd T' P'" "vmap (kmem s') pd = (kvm_map (kdata s))(0 \<mapsto> V2P fr OR 7)"
    "mem_list (kmem s') fr 4096 = init @ replicate (4096 - length init) 0"
proof -
  have fin: "finite P" using c by (metis card.infinite not_numeral_le_zero)
  have ne: "P \<noteq> {}" using c by auto
  have lk: "PtableLock \<notin> set (held s)" "KmemLock \<notin> set (held s)" using st(3) by simp_all
  have fp: "free_pages s P" using k0 by (simp add: kpt_def vm_inv_def)
  obtain k f where k: "allocproc s = Ok (Some 0) (s\<lparr>nextpid := 2, ptable := (ptable s)[0 := first_proc k], freelist := f\<rparr>)"
    "k \<in> P" "free_pages (s\<lparr>freelist := f\<rparr>) (P - {k})"
    using allocproc_first [OF st(1,2) lk(1) fp ne lk(2)] by blast
  define s1 where "s1 = s\<lparr>nextpid := 2, ptable := (ptable s)[0 := first_proc k], freelist := f, initproc := Some 0\<rparr>"
  have f1: "free_pages s1 (P - {k})" using k(3) st(3) by (intro free_pages_cong [of s1 "s\<lparr>freelist := f\<rparr>"]) (simp_all add: s1_def)
  have k1: "kpt s1 kp T (P - {k})" using k0 f1 by (intro kpt_frame [OF k0]) (auto simp: s1_def kpt_def vm_inv_def)
  have c1: "65 \<le> card (P - {k})" "data_ok (kdata s1)" using c fin k(2) d by (simp_all add: s1_def)
  obtain pd s2 T2 P2 where 2: "setupkvm s1 = Ok pd s2" "pd \<in> P - {k}" "pd \<noteq> 0" "\<exists>m f. s2 = set_mem m f s1" "vm_inv s2 pd T2 P2"
    "vmap (kmem s2) pd = kvm_map (kdata s1)" "T2 \<union> P2 = P - {k} - {pd}" "card (P - {k}) \<le> card P2 + 65"
    "\<And>x. (\<forall>p\<in>P - {k} - P2. \<not> in_page p x) \<Longrightarrow> kmem s2 x = kmem s1 x"
    using setupkvm_ok [OF f1 c1] by metis
  obtain m2 f2 where m2: "s2 = set_mem m2 f2 s1" using 2(4) by blast
  have k2: "kpt s2 kp T P2"
  proof (rule kpt_frame [OF k1])
    show "free_pages s2 P2" using 2(5) by (simp add: vm_inv_def)
    show "insert kp T \<inter> P2 = {}" using k1 2(7) by (auto simp: kpt_def vm_inv_def)
    show "kmem s2 x = kmem s1 x" if "q \<in> insert kp T" "in_page q x" for q x
      using 2(9) kpt_disjoint [OF k1 that] by blast
  qed (simp_all add: m2)
  define s3 where "s3 = upd_proc 0 (\<lambda>q. q\<lparr>p_pgdir := pd\<rparr>) s2"
  have e3: "kmem s3 = kmem s2" "freelist s3 = freelist s2" "kend s3 = kend s2" "kdata s3 = kdata s2" "held s3 = []"
    using st(3) by (simp_all add: s3_def upd_proc_def m2 s1_def)
  have u3: "uvm_inv s3 pd T2 P2" using uvm_inv_kvm [OF 2(5,6) c1(2)] e3 by (intro uvm_inv_cong [of s3 s2]) simp_all
  have n3: "vmap (kmem s3) pd 0 = None" using kvm_no_user [OF _ c1(2), of 0] 2(6) e3(1) by simp
  have "finite P2" using 2(7) fin by (metis finite_Diff finite_Un)
  moreover have "2 \<le> card P2" using 2(8) c fin k(2) by simp
  ultimately obtain fr s4 T4 P4 where 4: "inituvm pd init s3 = Ok () s4" "erase s4 = erase s3" "uvm_inv s4 pd T4 P4" "fr \<in> P2"
    "vmap (kmem s4) pd = (vmap (kmem s3) pd)(0 \<mapsto> V2P fr OR 7)" "mem_list (kmem s4) fr 4096 = init @ replicate (4096 - length init) 0"
    "insert fr (T4 \<union> P4) = T2 \<union> P2" "T2 \<subseteq> T4" "\<And>x. (\<forall>q\<in>insert pd (T2 \<union> P2). \<not> in_page q x) \<Longrightarrow> kmem s4 x = kmem s3 x"
    using inituvm_ok [OF u3 n3 _ _ len] by metis
  have s4: "s4 = set_mem (kmem s4) (freelist s4) s3" using erase_eq [OF 4(2)] .
  have sub: "insert pd (T2 \<union> P2) \<subseteq> P - {k}" using 2(2,7) by blast
  have k4: "kpt s4 kp T P4"
  proof (rule kpt_frame [OF k2])
    show "free_pages s4 P4" using 4(3) by (simp add: uvm_inv_def vm_inv_def)
    show "insert kp T \<inter> P4 = {}" using k1 4(7) sub by (auto simp: kpt_def vm_inv_def)
    show "kmem s4 x = kmem s2 x" if "q \<in> insert kp T" "in_page q x" for q x
    proof -
      have "\<forall>p\<in>insert pd (T2 \<union> P2). \<not> in_page p x" using kpt_disjoint [OF k1 that] sub by blast
      from 4(9) [OF this] show ?thesis using e3(1) by simp
    qed
  qed (subst s4, simp add: e3)+
  let ?pt = "(ptable s)[0 := first_runnable k pd]" and ?ic = "(icache s)[0 := zero_inode\<lparr>i_dev := ROOTDEV, i_inum := ROOTINO, i_ref := 1, i_valid := False\<rparr>]"
  let ?s = "s4\<lparr>ptable := ?pt, icache := ?ic\<rparr>"
  have e4: "ptable s4 = (ptable s)[0 := (first_proc k)\<lparr>p_pgdir := pd\<rparr>]" "icache s4 = icache s" "held s4 = []" "kdata s4 = kdata s"
    using st by (subst s4, simp add: s3_def m2 s1_def upd_proc_def set_mem_def)+
  define s5 where "s5 = upd_proc 0 (\<lambda>q. q\<lparr>p_sz := PGSIZE,
       p_tf := zero_trapframe\<lparr>tf_cs := 0x1B, tf_ds := 0x23, tf_es := 0x23, tf_ss := 0x23, tf_eflags := 0x200, tf_esp := PGSIZE, tf_eip := 0\<rparr>,
       p_name := safestrcpy (p_name q) (cstr_of (str ''initcode'')) 16\<rparr>) s4"
  have n5: "namei (str ''/'') s5 = Ok (Some 0) (s5\<lparr>icache := ?ic\<rparr>)"
    using namei_root [of s5] e4(2,3) st(4) by (simp add: s5_def upd_proc_def)
  have h5: "held s5 = []" using e4(3) by (simp add: s5_def upd_proc_def)
  have hu: "held (upd_proc p g t) = held t" for p g t by (simp add: upd_proc_def)
  have "userinit init s = Ok () ((upd_proc 0 (\<lambda>q. q\<lparr>p_state := RUNNABLE\<rparr>) (upd_proc 0 (\<lambda>q. q\<lparr>p_cwd := Some 0\<rparr>) (s5\<lparr>icache := ?ic\<rparr>)\<lparr>held := [PtableLock]\<rparr>))\<lparr>held := []\<rparr>)"
    using 2(3) n5 h5
    by (simp add: userinit_def bindM_def seqM_def modify_def deref_def ret_def k(1) s1_def [symmetric] 2(1) s3_def [symmetric] 4(1) s5_def [symmetric] hu)
  moreover have "(upd_proc 0 (\<lambda>q. q\<lparr>p_state := RUNNABLE\<rparr>) (upd_proc 0 (\<lambda>q. q\<lparr>p_cwd := Some 0\<rparr>) (s5\<lparr>icache := ?ic\<rparr>)\<lparr>held := [PtableLock]\<rparr>))\<lparr>held := []\<rparr> = ?s"
    using e4 st(1) by (cases s4) (simp add: s5_def upd_proc_def first_runnable_def first_proc_def zero_proc_def)
  ultimately have run: "userinit init s = Ok () ?s" by simp
  have er: "erase ?s = erase (s\<lparr>nextpid := 2, initproc := Some 0, ptable := ?pt, icache := ?ic\<rparr>)"
    by (subst s4) (cases s, simp add: s3_def m2 s1_def upd_proc_def set_mem_def erase_def)
  have "kpt ?s kp T P4" using k4 e4(3) free_pages_cong [of ?s s4 P4] by (auto simp: kpt_def vm_inv_def page_ok_def)
  moreover have "uvm_inv ?s pd T4 P4" using 4(3) e4(3) by (intro uvm_inv_cong [of ?s s4]) simp_all
  moreover have "vmap (kmem ?s) pd = (kvm_map (kdata s))(0 \<mapsto> V2P fr OR 7)" using 4(5) 2(6) e3(1) by (simp add: s1_def)
  ultimately show thesis using that [OF run er] 4(6) by simp
qed

section \<open>main starts the first process\<close>

lemma erase_fields:
  assumes "erase s' = erase s"
  shows "held s' = held s" "ptable s' = ptable s" "nextpid s' = nextpid s" "icache s' = icache s" "bufs s' = bufs s" "lru s' = lru s" "disk s' = disk s"
    "kdata s' = kdata s" "kend s' = kend s" "kpgdir s' = kpgdir s" "initproc s' = initproc s" "wt_kernel s' = wt_kernel s" "cur s' = cur s" "ticks s' = ticks s"
    "devsw s' = devsw s" "use_lock s' = use_lock s" "uart_out s' = uart_out s"
proof -
  obtain m f where "s' = set_mem m f s" using erase_eq [OF assms] by blast
  then show "held s' = held s" "ptable s' = ptable s" "nextpid s' = nextpid s" "icache s' = icache s" "bufs s' = bufs s" "lru s' = lru s" "disk s' = disk s"
    "kdata s' = kdata s" "kend s' = kend s" "kpgdir s' = kpgdir s" "initproc s' = initproc s" "wt_kernel s' = wt_kernel s" "cur s' = cur s" "ticks s' = ticks s"
    "devsw s' = devsw s" "use_lock s' = use_lock s" "uart_out s' = uart_out s"
    by (simp_all add: set_mem_def)
qed

lemma kpt_cong:
  assumes "kmem s' = kmem s" "freelist s' = freelist s" "kend s' = kend s" "kdata s' = kdata s" "KmemLock \<notin> set (held s')"
  shows "kpt s kp T P \<Longrightarrow> kpt s' kp T P"
  using assms free_pages_cong [OF assms(1-3,5)] by (auto simp: kpt_def vm_inv_def page_ok_def)

lemma erase_upd:
  "erase (s\<lparr>use_lock := a1\<rparr>) = (erase s)\<lparr>use_lock := a1\<rparr>" "erase (s\<lparr>kpgdir := a2\<rparr>) = (erase s)\<lparr>kpgdir := a2\<rparr>"
  "erase (s\<lparr>cr3 := a3\<rparr>) = (erase s)\<lparr>cr3 := a3\<rparr>" "erase (s\<lparr>devsw := a4\<rparr>) = (erase s)\<lparr>devsw := a4\<rparr>"
  "erase (s\<lparr>cons_locking := a5\<rparr>) = (erase s)\<lparr>cons_locking := a5\<rparr>" "erase (s\<lparr>uart_out := a6\<rparr>) = (erase s)\<lparr>uart_out := a6\<rparr>"
  "erase (s\<lparr>lru := a7\<rparr>) = (erase s)\<lparr>lru := a7\<rparr>" "erase (s\<lparr>disk := a8\<rparr>) = (erase s)\<lparr>disk := a8\<rparr>"
  "erase (s\<lparr>disksize := a9\<rparr>) = (erase s)\<lparr>disksize := a9\<rparr>" "erase (s\<lparr>nextpid := b1\<rparr>) = (erase s)\<lparr>nextpid := b1\<rparr>"
  "erase (s\<lparr>initproc := b2\<rparr>) = (erase s)\<lparr>initproc := b2\<rparr>" "erase (s\<lparr>ptable := b3\<rparr>) = (erase s)\<lparr>ptable := b3\<rparr>"
  "erase (s\<lparr>icache := b4\<rparr>) = (erase s)\<lparr>icache := b4\<rparr>"
  by (simp_all add: erase_def set_mem_def)

text \<open>The devices: the console, the serial line, the buffer cache and the disk.\<close>

definition devices :: "image \<Rightarrow> kernel \<Rightarrow> kernel" where
  "devices im s = s\<lparr>devsw := (devsw s)[1 := ConsoleDev], cons_locking := True,
     uart_out := uart_out s @ map word_of_int (map (\<lambda>c. int (of_char c)) ''xv6...\<newline>''), lru := rev [0..<NBUF],
     disk := fs_img im, disksize := fs_img_size im div 512\<rparr>"

lemma devices_ok:
  assumes "bufs s = replicate NBUF zero_buf" "lru s = []"
  shows "seqM consoleinit (seqM uartinit (seqM binit (seqM (ideinit (fs_img im) (fs_img_size im)) K))) s = K (devices im s)"
  using assms by (simp add: seqM_def consoleinit_def modify_def uartinit_def foreach_uart binit_ok ideinit_def devices_def del: upt_rec_numeral list.map)

text \<open>The kernel beside its memory once main has started the first process, whose kernel stack and page directory are k and pd.\<close>

definition booted :: "image \<Rightarrow> ptr \<Rightarrow> ptr \<Rightarrow> ptr \<Rightarrow> kernel \<Rightarrow> kernel" where
  "booted im kp k pd s = (devices im (s\<lparr>kpgdir := kp, cr3 := V2P kp\<rparr>))\<lparr>use_lock := True, nextpid := 2, initproc := Some 0,
     ptable := (ptable s)[0 := first_runnable k pd],
     icache := (icache s)[0 := zero_inode\<lparr>i_dev := ROOTDEV, i_inum := ROOTINO, i_ref := 1, i_valid := False\<rparr>]\<rparr>"

lemma wt_booted:
  assumes "wt_kernel s" "\<And>b. length (fs_img im b) = BSIZE"
  shows "wt_kernel (booted im kp k pd s)"
proof -
  have "wt_inode (zero_inode\<lparr>i_dev := ROOTDEV, i_inum := ROOTINO, i_ref := 1, i_valid := False\<rparr>)" by (simp add: wt_inode_def zero_inode_def)
  moreover have "wt_proc (first_runnable k pd)"
    by (auto simp: first_runnable_def first_proc_def wt_proc_def zero_proc_def zero_desc_def wt_desc_def list_all_length)
  moreover have "list_all (\<lambda>b. b < NBUF) (rev [0..<NBUF])" by (simp add: list_all_iff del: upt_rec_numeral)
  ultimately show ?thesis using assms by (simp add: booted_def devices_def wt_kernel_def list_all_update del: upt_rec_numeral)
qed

lemma cache_booted:
  assumes "held s = []" "length (ptable s) = NPROC" "bufs s = replicate NBUF zero_buf" "lru s = rev [0..<NBUF]"
  shows "cache_inv (s\<lparr>cur := Some 0\<rparr>) {} {} (disk s)"
  using assms by (auto simp: cache_inv_def on_disk_def buf_ok_def zero_buf_def zero_sleeplock_def simp del: upt_rec_numeral)

lemma main_steps:
  assumes "freelist s = 0" "held s = []" "ptable s = replicate NPROC zero_proc" "nextpid s = 1" "icache s = replicate NINODE zero_inode"
    "bufs s = replicate NBUF zero_buf" "lru s = []" "data_ok (kdata s)" "0x80100000 < unat (kend s)" "unat (kend s) + 4096 * 66 \<le> 0x80400000"
    "length (initcode im) < 4096" "length (entryother im) \<le> 4096" "lapicid \<in> set cpus"
  obtains s' kp Tk k pd T P fr where "main im cpus lapicid s = Ok () s'" "erase s' = erase (booted im kp k pd s)" "kpt s' kp Tk P"
    "uvm_inv s' pd T P" "vmap (kmem s') pd = (kvm_map (kdata s))(0 \<mapsto> V2P fr OR 7)"
    "mem_list (kmem s') fr 4096 = initcode im @ replicate (4096 - length (initcode im)) 0"
proof -
  obtain s1 P1 where 1: "kinit1 (kend s) (P2V (4 * 1024 * 1024)) s = Ok () s1" "erase s1 = erase (s\<lparr>use_lock := False\<rparr>)" "free_pages s1 P1" "65 \<le> card P1"
    and low: "\<And>p. p \<in> P1 \<Longrightarrow> unat p < 0x80400000"
    using kinit1_ok [of s] assms(1,2,9,10) by auto
  note g1 = erase_fields [OF 1(2)]
  have d1: "data_ok (kdata s1)" using g1 assms(8) by simp
  obtain kp s2 T2 P2 where 2: "kvmalloc s1 = Ok () s2" "erase s2 = erase (s1\<lparr>kpgdir := kp, cr3 := V2P kp\<rparr>)" "kpt s2 kp T2 P2" "insert kp (T2 \<union> P2) = P1"
    using kvmalloc_ok [OF 1(3,4) d1] by metis
  note g2 = erase_fields [OF 2(2)]
  define s3 where "s3 = devices im s2"
  have g3: "held s3 = []" "kend s3 = kend s" "kdata s3 = kdata s" "ptable s3 = ptable s" "nextpid s3 = nextpid s" "icache s3 = icache s"
    using g1 g2 assms(2) by (simp_all add: s3_def devices_def del: upt_rec_numeral)
  have k3: "kpt s3 kp T2 P2" by (rule kpt_cong [OF _ _ _ _ _ 2(3)]) (use g1 g2 assms(2) in \<open>simp_all add: s3_def devices_def del: upt_rec_numeral\<close>)
  obtain s4 P4 where 4: "startothers (entryother im) (mpenter im) (entrypgdir im) cpus lapicid s3 = Ok () s4" "erase s4 = erase s3" "kpt s4 kp T2 P4" "P4 \<subseteq> P2"
    by (rule startothers_ok [OF k3]) (use assms(9,12,13) g3 in simp_all)
  note g4 = erase_fields [OF 4(2)]
  obtain s5 P5 where 5: "kinit2 (P2V (4 * 1024 * 1024)) (P2V PHYSTOP) s4 = Ok () s5" "erase s5 = erase (s4\<lparr>use_lock := True\<rparr>)" "kpt s5 kp T2 P5" "1000 \<le> card P5"
  proof (rule kinit2_ok [OF 4(3)])
    show "unat (kend s4) \<le> 0x80400000" using g4 g3 assms(10) by simp
    show "unat p < 0x80400000" if "p \<in> insert kp T2 \<union> P4" for p using that low 4(4) 2(4) by blast
  qed
  note g5 = erase_fields [OF 5(2)]
  have f5: "ptable s5 = replicate NPROC zero_proc" "nextpid s5 = 1" "held s5 = []" "icache s5 = replicate NINODE zero_inode" "kdata s5 = kdata s"
    using g5 g4 g3 assms(3-5) by simp_all
  obtain s6 k pd fr T P where 6: "userinit (initcode im) s5 = Ok () s6"
    "erase s6 = erase (s5\<lparr>nextpid := 2, initproc := Some 0, ptable := (ptable s5)[0 := first_runnable k pd],
       icache := (icache s5)[0 := zero_inode\<lparr>i_dev := ROOTDEV, i_inum := ROOTINO, i_ref := 1, i_valid := False\<rparr>]\<rparr>)"
    "kpt s6 kp T2 P" "uvm_inv s6 pd T P" "vmap (kmem s6) pd = (kvm_map (kdata s5))(0 \<mapsto> V2P fr OR 7)"
    "mem_list (kmem s6) fr 4096 = initcode im @ replicate (4096 - length (initcode im)) 0"
    using userinit_ok [OF 5(3,4) _ assms(11) f5(1-4)] assms(8) f5(5) by metis
  have b2: "bufs s2 = replicate NBUF zero_buf" "lru s2 = []" using g1 g2 assms(6,7) by simp_all
  have "main im cpus lapicid s = Ok () s6"
    unfolding main_def using 1(1) 2(1) 4(1) 5(1) 6(1) by (simp add: seqM_def [of "bindM _ _"] seqM_def [of kvmalloc] gets_def devices_ok [OF b2] s3_def)
      (simp add: seqM_def)
  moreover have "erase s6 = erase (booted im kp k pd s)"
    using 6(2) 5(2) 4(2) 2(2) 1(2) f5 assms(3,5) by (simp add: s3_def booted_def devices_def erase_upd g1 g2 del: upt_rec_numeral)
  ultimately show thesis using that 6(3-6) f5(5) by simp
qed



end
