(* ===== verification/Apic.thy ===== *)
theory Apic
  imports Kernel
begin

text \<open>
  The interrupt controllers and the clock (lapic.c, ioapic.c, picirq.c).  The local APIC is seen through what the kernel writes to its registers, in order,
  and what reading them returns; the I/O APIC is its register file behind a selector; the clock is a function of the number of port reads so far.
  A wait that never ends is the result None.
\<close>

section \<open>The local APIC\<close>

record lapicdev =
  lapic :: ptr \<comment> \<open>0 before mpinit has found the address\<close>
  lapic_log :: "(uint \<times> uint) list" \<comment> \<open>the registers written, the last one first\<close>
  lapic_id :: uint
  lapic_ver :: uint
  icrlo_reads :: "uint list" \<comment> \<open>what reading ICRLO will return\<close>

definition lapicw :: "uint \<Rightarrow> uint \<Rightarrow> lapicdev \<Rightarrow> lapicdev" where
  "lapicw index value d = d\<lparr>lapic_log := (index, value) # lapic_log d\<rparr>"

fun lapic_wait :: "uint list \<Rightarrow> uint list option" where
  "lapic_wait [] = None"
| "lapic_wait (r # rs) = (if and r 0x1000 \<noteq> 0 then lapic_wait rs else Some rs)"

definition lapicinit :: "lapicdev \<Rightarrow> lapicdev option" where
  "lapicinit d =
     (if lapic d = 0 then Some d else
      let d = lapicw (0x00F0 div 4) (or 0x100 (32 + 31)) d;
          d = lapicw (0x03E0 div 4) 0xB d;
          d = lapicw (0x0320 div 4) (or 0x20000 (32 + 0)) d;
          d = lapicw (0x0380 div 4) 10000000 d;
          d = lapicw (0x0350 div 4) 0x10000 d;
          d = lapicw (0x0360 div 4) 0x10000 d;
          d = (if and (drop_bit 16 (lapic_ver d)) 0xFF \<ge> 4 then lapicw (0x0340 div 4) 0x10000 d else d);
          d = lapicw (0x0370 div 4) (32 + 19) d;
          d = lapicw (0x0280 div 4) 0 d;
          d = lapicw (0x0280 div 4) 0 d;
          d = lapicw (0x00B0 div 4) 0 d;
          d = lapicw (0x0310 div 4) 0 d;
          d = lapicw (0x0300 div 4) (or (or 0x80000 0x500) 0x8000) d in
      Option.bind (lapic_wait (icrlo_reads d)) (\<lambda>rs.
      Some (lapicw (0x0080 div 4) 0 (d\<lparr>icrlo_reads := rs\<rparr>))))"

definition lapicid :: "lapicdev \<Rightarrow> uint" where
  "lapicid d = (if lapic d = 0 then 0 else drop_bit 24 (lapic_id d))"

definition lapiceoi :: "lapicdev \<Rightarrow> lapicdev" where
  "lapiceoi d = (if lapic d \<noteq> 0 then lapicw (0x00B0 div 4) 0 d else d)"

text \<open>The interrupts that lapicstartap sends; what it writes to memory is in the theory Start.\<close>

definition lapicstartap_ipis :: "byte \<Rightarrow> uint \<Rightarrow> lapicdev \<Rightarrow> lapicdev" where
  "lapicstartap_ipis apicid addr d =
     (let d = lapicw (0x0310 div 4) (push_bit 24 (ucast apicid)) d;
          d = lapicw (0x0300 div 4) (or (or 0x500 0x8000) 0x4000) d;
          d = lapicw (0x0300 div 4) (or 0x500 0x8000) d;
          startup = (\<lambda>d. lapicw (0x0300 div 4) (or 0x600 (drop_bit 12 addr)) (lapicw (0x0310 div 4) (push_bit 24 (ucast apicid)) d)) in
      startup (startup d))"

section \<open>The I/O APIC\<close>

record ioapic =
  io_reg :: uint
  io_data :: "uint \<Rightarrow> uint"

definition ioapicread :: "uint \<Rightarrow> ioapic \<Rightarrow> uint \<times> ioapic" where
  "ioapicread reg d = (io_data d reg, d\<lparr>io_reg := reg\<rparr>)"

definition ioapicwrite :: "uint \<Rightarrow> uint \<Rightarrow> ioapic \<Rightarrow> ioapic" where
  "ioapicwrite reg x d = d\<lparr>io_reg := reg, io_data := (io_data d)(reg := x)\<rparr>"

text \<open>Whether the warning is printed, and the device.\<close>

definition ioapicinit :: "byte \<Rightarrow> ioapic \<Rightarrow> bool \<times> ioapic" where
  "ioapicinit ioapicid d =
     (case ioapicread 0x01 d of (ver, d) \<Rightarrow>
      let maxintr = and (drop_bit 16 ver) 0xFF in
      case ioapicread 0x00 d of (idr, d) \<Rightarrow>
      (drop_bit 24 idr \<noteq> ucast ioapicid,
       fold (\<lambda>i d. ioapicwrite (0x10 + 2 * of_nat i + 1) 0 (ioapicwrite (0x10 + 2 * of_nat i) (or 0x10000 (32 + of_nat i)) d))
         [0..<Suc (unat maxintr)] d))"

definition ioapicenable :: "nat \<Rightarrow> uint \<Rightarrow> ioapic \<Rightarrow> ioapic" where
  "ioapicenable irq cpunum d = ioapicwrite (0x10 + 2 * of_nat irq + 1) (push_bit 24 cpunum) (ioapicwrite (0x10 + 2 * of_nat irq) (32 + of_nat irq) d)"

text \<open>picinit: the bytes written to the two ports of the old controllers.\<close>

definition picinit :: "(nat \<Rightarrow> byte) \<Rightarrow> nat \<Rightarrow> byte" where
  "picinit port = port(0x21 := 0xFF, 0xA1 := 0xFF)"

section \<open>The clock\<close>

record rtcdate =
  second :: uint
  minute :: uint
  hour :: uint
  day :: uint
  month :: uint
  year :: uint

definition cmos_read :: "(nat \<Rightarrow> byte \<Rightarrow> byte) \<Rightarrow> byte \<Rightarrow> nat \<Rightarrow> uint \<times> nat" where
  "cmos_read rtc reg t = (ucast (rtc t reg), Suc t)"

definition fill_rtcdate :: "(nat \<Rightarrow> byte \<Rightarrow> byte) \<Rightarrow> nat \<Rightarrow> rtcdate \<times> nat" where
  "fill_rtcdate rtc t =
     (case cmos_read rtc 0x00 t of (s, t) \<Rightarrow>
      case cmos_read rtc 0x02 t of (mi, t) \<Rightarrow>
      case cmos_read rtc 0x04 t of (h, t) \<Rightarrow>
      case cmos_read rtc 0x07 t of (d, t) \<Rightarrow>
      case cmos_read rtc 0x08 t of (mo, t) \<Rightarrow>
      case cmos_read rtc 0x09 t of (y, t) \<Rightarrow>
      (\<lparr>second = s, minute = mi, hour = h, day = d, month = mo, year = y\<rparr>, t))"

partial_function (option) cmostime_loop :: "(nat \<Rightarrow> byte \<Rightarrow> byte) \<Rightarrow> nat \<Rightarrow> (rtcdate \<times> nat) option" where
  "cmostime_loop rtc t =
     (case fill_rtcdate rtc t of (t1, t) \<Rightarrow>
      case cmos_read rtc 0x0a t of (sa, t) \<Rightarrow>
      if and sa 0x80 \<noteq> 0 then cmostime_loop rtc t else
      case fill_rtcdate rtc t of (t2, t) \<Rightarrow>
      if t1 = t2 then Some (t1, t) else cmostime_loop rtc t)"

definition CONV :: "uint \<Rightarrow> uint" where
  "CONV x = drop_bit 4 x * 10 + and x 0xf"

definition cmostime :: "(nat \<Rightarrow> byte \<Rightarrow> byte) \<Rightarrow> nat \<Rightarrow> (rtcdate \<times> nat) option" where
  "cmostime rtc t =
     (case cmos_read rtc 0x0b t of (stb, t) \<Rightarrow>
      let bcd = (and stb 4 = 0) in
      Option.bind (cmostime_loop rtc t) (\<lambda>(t1, t).
      let t1 = (if bcd then \<lparr>second = CONV (second t1), minute = CONV (minute t1), hour = CONV (hour t1),
                  day = CONV (day t1), month = CONV (month t1), year = CONV (year t1)\<rparr> else t1) in
      Some (t1\<lparr>year := year t1 + 2000\<rparr>, t)))"

section \<open>Reading the clock is atomic\<close>

text \<open>The registers of a clock that shows the date, in binary or with two decimal digits.\<close>

definition rtc_digits :: "bool \<Rightarrow> uint \<Rightarrow> byte" where
  "rtc_digits bcd x = (if bcd then ucast (x div 10 * 16 + x mod 10) else ucast x)"

definition clock_shows :: "(nat \<Rightarrow> byte \<Rightarrow> byte) \<Rightarrow> bool \<Rightarrow> (nat \<Rightarrow> rtcdate) \<Rightarrow> bool" where
  "clock_shows rtc bcd clk \<longleftrightarrow> (\<forall>t.
     second (clk t) < 100 \<and> minute (clk t) < 100 \<and> hour (clk t) < 100 \<and> day (clk t) < 100 \<and> month (clk t) < 100 \<and> year (clk t) < 100 \<and>
     rtc t 0 = rtc_digits bcd (second (clk t)) \<and> rtc t 2 = rtc_digits bcd (minute (clk t)) \<and> rtc t 4 = rtc_digits bcd (hour (clk t)) \<and>
     rtc t 7 = rtc_digits bcd (day (clk t)) \<and> rtc t 8 = rtc_digits bcd (month (clk t)) \<and> rtc t 9 = rtc_digits bcd (year (clk t)) \<and>
     (and (rtc t 0x0b) 4 = 0) = bcd)"

text \<open>The clock changes at most once while one pass of the loop makes its thirteen reads.\<close>

definition clock_slow :: "(nat \<Rightarrow> rtcdate) \<Rightarrow> bool" where
  "clock_slow clk \<longleftrightarrow> (\<forall>t. \<exists>k. \<forall>i<13. clk (t + i) = (if i < k then clk t else clk (t + 12)))"

lemma less_100_cases: "x < (100::uint) \<Longrightarrow> \<exists>n<100. x = of_nat n"
  by (rule exI [of _ "unat x"]) (simp add: word_less_nat_alt)

lemma CONV_digits: "x < 100 \<Longrightarrow> CONV (ucast (rtc_digits True x)) = x"
proof -
  assume "x < 100"
  then obtain n where n: "n < 100" "x = of_nat n" using less_100_cases by blast
  have "\<forall>n\<in>set [0..<100]. CONV (ucast (rtc_digits True (of_nat n))) = of_nat n" by code_simp
  then show ?thesis using n by (auto simp del: upt_rec_numeral)
qed

lemma binary_digits: "x < 100 \<Longrightarrow> ucast (rtc_digits False x) = x"
proof -
  assume "x < 100"
  then obtain n where n: "n < 100" "x = of_nat n" using less_100_cases by blast
  have "\<forall>n\<in>set [0..<100]. ucast (rtc_digits False (of_nat n)) = (of_nat n :: uint)" by code_simp
  then show ?thesis using n by (auto simp del: upt_rec_numeral)
qed

text \<open>A date as the loop reads it, and what cmostime makes of it.\<close>

definition raw_date :: "bool \<Rightarrow> rtcdate \<Rightarrow> rtcdate" where
  "raw_date bcd d = \<lparr>second = ucast (rtc_digits bcd (second d)), minute = ucast (rtc_digits bcd (minute d)), hour = ucast (rtc_digits bcd (hour d)),
     day = ucast (rtc_digits bcd (day d)), month = ucast (rtc_digits bcd (month d)), year = ucast (rtc_digits bcd (year d))\<rparr>"

lemma fill_same:
  assumes "clock_shows rtc bcd clk" "\<And>i. i < 6 \<Longrightarrow> clk (t + i) = d"
  shows "fill_rtcdate rtc t = (raw_date bcd d, t + 6)"
proof -
  have e: "clk t = d" "clk (Suc t) = d" "clk (Suc (Suc t)) = d" "clk (Suc (Suc (Suc t))) = d" "clk (Suc (Suc (Suc (Suc t)))) = d" "clk (Suc (Suc (Suc (Suc (Suc t))))) = d"
    using assms(2) [of 0] assms(2) [of 1] assms(2) [of 2] assms(2) [of 3] assms(2) [of 4] assms(2) [of 5] by (simp_all add: eval_nat_numeral)
  show ?thesis using assms(1) e unfolding clock_shows_def
    by (simp add: fill_rtcdate_def cmos_read_def raw_date_def)
qed

lemma fill_time: "snd (fill_rtcdate rtc t) = t + 6"
  by (simp add: fill_rtcdate_def cmos_read_def)

text \<open>One pass of the loop: it goes on behind its reads, or it has read a date that the clock showed.\<close>

definition cmos_pass :: "(nat \<Rightarrow> byte \<Rightarrow> byte) \<Rightarrow> nat \<Rightarrow> (rtcdate \<times> nat) + nat" where
  "cmos_pass rtc t =
     (let t1 = fst (fill_rtcdate rtc t); t2 = fst (fill_rtcdate rtc (t + 7)) in
      if and (ucast (rtc (t + 6) 0x0a) :: uint) 0x80 \<noteq> 0 then Inr (t + 7) else if t1 = t2 then Inl (t1, t + 13) else Inr (t + 13))"

lemma cmostime_loop_pass: "cmostime_loop rtc t = (case cmos_pass rtc t of Inl r \<Rightarrow> Some r | Inr t' \<Rightarrow> cmostime_loop rtc t')"
proof -
  obtain t1 where 1: "fill_rtcdate rtc t = (t1, t + 6)" using fill_time [of rtc t] by (cases "fill_rtcdate rtc t") auto
  obtain t2 where 2: "fill_rtcdate rtc (t + 7) = (t2, t + 13)" using fill_time [of rtc "t + 7"] by (cases "fill_rtcdate rtc (t + 7)") auto
  have s: "Suc (t + 6) = t + 7" by simp
  show ?thesis by (subst cmostime_loop.simps) (simp add: cmos_pass_def 1 2 cmos_read_def s del: add_Suc_right)
qed

lemma cmos_pass_cases:
  assumes "clock_shows rtc bcd clk" "clock_slow clk"
  shows "(\<exists>i\<in>{t..<t + 13}. cmos_pass rtc t = Inl (raw_date bcd (clk i), t + 13)) \<or> cmos_pass rtc t = Inr (t + 7) \<or> cmos_pass rtc t = Inr (t + 13)"
proof -
  obtain k where k: "\<And>i. i < 13 \<Longrightarrow> clk (t + i) = (if i < k then clk t else clk (t + 12))" using assms(2) unfolding clock_slow_def by blast
  have "fst (fill_rtcdate rtc t) = raw_date bcd (clk t) \<or> fst (fill_rtcdate rtc (t + 7)) = raw_date bcd (clk (t + 12))"
  proof (cases "k \<ge> 6")
    case True
    then have "clk (t + i) = clk t" if "i < 6" for i using k [of i] that by simp
    then show ?thesis using fill_same [OF assms(1), of t "clk t"] by simp
  next
    case False
    then have "clk (t + 7 + i) = clk (t + 12)" if "i < 6" for i using k [of "7 + i"] that by (simp add: add.assoc)
    then show ?thesis using fill_same [OF assms(1), of "t + 7" "clk (t + 12)"] by simp
  qed
  then show ?thesis
    by (auto simp: cmos_pass_def Let_def intro: bexI [of _ t] bexI [of _ "t + 12"])
qed

lemma cmos_pass_quiet:
  assumes "clock_shows rtc bcd clk" "\<And>i. i < 13 \<Longrightarrow> clk (t + i) = d \<and> and (rtc (t + i) 0x0a) 0x80 = 0"
  shows "cmos_pass rtc t = Inl (raw_date bcd d, t + 13)"
proof -
  have "fill_rtcdate rtc t = (raw_date bcd d, t + 6)" using assms(2) by (intro fill_same [OF assms(1)]) simp
  moreover have "fill_rtcdate rtc (t + 7) = (raw_date bcd d, t + 7 + 6)"
    using assms(2) [of "7 + _"] by (intro fill_same [OF assms(1)]) (simp add: add.assoc)
  moreover have "and (ucast (rtc (t + 6) 0x0a) :: uint) 0x80 = ucast (and (rtc (t + 6) 0x0a) 0x80)"
    by (rule bit_word_eqI) (auto simp: bit_simps dest: bit_imp_le_length)
  ultimately show ?thesis using assms(2) [of 6] by (simp add: cmos_pass_def)
qed

text \<open>The clock is left alone for twice the length of a pass.\<close>

definition clock_quiet :: "(nat \<Rightarrow> byte \<Rightarrow> byte) \<Rightarrow> (nat \<Rightarrow> rtcdate) \<Rightarrow> nat \<Rightarrow> bool" where
  "clock_quiet rtc clk t \<longleftrightarrow> (\<forall>i<26. clk (t + i) = clk t \<and> and (rtc (t + i) 0x0a) 0x80 = 0)"

lemma cmostime_loop_ends:
  assumes "clock_shows rtc bcd clk" "clock_slow clk" "clock_quiet rtc clk q" "t < q + 13"
  shows "\<exists>i t'. cmostime_loop rtc t = Some (raw_date bcd (clk i), t') \<and> t \<le> i \<and> i < t'"
  using assms(4)
proof (induction "q + 13 - t" arbitrary: t rule: less_induct)
  case less
  show ?case
  proof (cases "t \<ge> q")
    case True
    have "clk (t + i) = clk q \<and> and (rtc (t + i) 0x0a) 0x80 = 0" if "i < 13" for i
      using assms(3) True less.prems that unfolding clock_quiet_def by (auto dest: spec [of _ "t - q + i"])
    then have "cmos_pass rtc t = Inl (raw_date bcd (clk q), t + 13)" and "clk t = clk q" using cmos_pass_quiet [OF assms(1)] by (auto dest: meta_spec [of _ 0])
    then show ?thesis by (intro exI [of _ t] exI [of _ "t + 13"]) (simp add: cmostime_loop_pass [of rtc t])
  next
    case False
    consider i where "i \<in> {t..<t + 13}" "cmos_pass rtc t = Inl (raw_date bcd (clk i), t + 13)" | d where "cmos_pass rtc t = Inr (t + d)" "0 < d" "d \<le> 13"
      using cmos_pass_cases [OF assms(1,2), of t] by fastforce
    then show ?thesis
    proof cases
      case 1
      then show ?thesis by (intro exI [of _ i] exI [of _ "t + 13"]) (simp add: cmostime_loop_pass [of rtc t])
    next
      case (2 d)
      have "\<exists>i t'. cmostime_loop rtc (t + d) = Some (raw_date bcd (clk i), t') \<and> t + d \<le> i \<and> i < t'"
        using 2 False by (intro less.hyps) simp_all
      then show ?thesis using 2(1) by (subst cmostime_loop_pass) force
    qed
  qed
qed

lemma ucast_ucast_id8: "ucast (ucast (x :: byte) :: uint) = x"
  by (rule bit_word_eqI) (auto simp: bit_simps)

lemma conv_raw:
  assumes "clock_shows rtc bcd clk"
  shows "(if bcd then \<lparr>second = CONV (second (raw_date bcd (clk i))), minute = CONV (minute (raw_date bcd (clk i))), hour = CONV (hour (raw_date bcd (clk i))),
      day = CONV (day (raw_date bcd (clk i))), month = CONV (month (raw_date bcd (clk i))), year = CONV (year (raw_date bcd (clk i)))\<rparr> else raw_date bcd (clk i)) = clk i"
  using assms unfolding clock_shows_def by (cases bcd) (simp_all add: raw_date_def CONV_digits binary_digits)

text \<open>
  C23: Reading the clock is atomic.  If the clock, in decimal or in binary digits, changes at most once during the thirteen reads of a pass, and at some time is left alone
  for twice as long, cmostime ends, and the date it returns is one that the clock showed as a whole during the call, although it reads six registers one after the other.
\<close>

theorem cmostime_atomic:
  assumes "clock_shows rtc bcd clk" "clock_slow clk" "clock_quiet rtc clk q" "t \<le> q"
  shows "\<exists>i t'. cmostime rtc t = Some ((clk i)\<lparr>year := year (clk i) + 2000\<rparr>, t') \<and> t < i \<and> i < t'"
proof -
  obtain i t' where l: "cmostime_loop rtc (Suc t) = Some (raw_date bcd (clk i), t')" "Suc t \<le> i" "i < t'"
    using cmostime_loop_ends [OF assms(1-3), of "Suc t"] assms(4) by auto
  have "and (rtc t 0x0b) 4 = 0 \<longleftrightarrow> bcd" using assms(1) by (simp add: clock_shows_def)
  moreover have "and (ucast (rtc t 0x0b) :: uint) 4 = ucast (and (rtc t 0x0b) 4)"
    by (rule bit_word_eqI) (auto simp: bit_simps dest: bit_imp_le_length)
  moreover have "ucast x = (0 :: uint) \<longleftrightarrow> x = 0" for x :: byte by (metis unsigned_0 ucast_ucast_id8)
  ultimately have b: "(and (ucast (rtc t 0x0b) :: uint) 4 = 0) = bcd" by simp
  show ?thesis
    using l by (intro exI [of _ i] exI [of _ t']) (simp only: cmostime_def cmos_read_def prod.case Let_def b conv_raw [OF assms(1)] bind.bind_lunit, simp)
qed

definition ex_clk :: "nat \<Rightarrow> rtcdate" where
  "ex_clk t = \<lparr>second = (if t < 4 then 59 else 0), minute = (if t < 4 then 59 else 0), hour = (if t < 4 then 23 else 0),
     day = (if t < 4 then 31 else 1), month = (if t < 4 then 12 else 1), year = (if t < 4 then 23 else 24)\<rparr>"

definition ex_rtc :: "nat \<Rightarrow> byte \<Rightarrow> byte" where
  "ex_rtc t reg = (let d = ex_clk t in if reg = 0 then rtc_digits True (second d) else if reg = 2 then rtc_digits True (minute d)
     else if reg = 4 then rtc_digits True (hour d) else if reg = 7 then rtc_digits True (day d) else if reg = 8 then rtc_digits True (month d)
     else if reg = 9 then rtc_digits True (year d) else 0)"

theorem cmostime_atomic_witness:
  "\<exists>i t'. cmostime ex_rtc 0 = Some ((ex_clk i)\<lparr>year := year (ex_clk i) + 2000\<rparr>, t') \<and> 0 < i \<and> i < t'"
proof (rule cmostime_atomic)
  show "clock_shows ex_rtc True ex_clk" by (simp add: clock_shows_def ex_rtc_def ex_clk_def)
  show "clock_slow ex_clk" unfolding clock_slow_def
  proof (rule allI, rule exI, rule allI, rule impI)
    show "ex_clk (t + i) = (if i < (if t < 4 then 4 - t else 0) then ex_clk t else ex_clk (t + 12))" for t i by (auto simp: ex_clk_def)
  qed
  show "clock_quiet ex_rtc ex_clk 4" by (simp add: clock_quiet_def ex_clk_def ex_rtc_def)
qed simp

section \<open>Routing of interrupts\<close>

text \<open>The two registers of the redirection table for an interrupt.\<close>

definition io_low :: "ioapic \<Rightarrow> nat \<Rightarrow> uint" where
  "io_low d i = io_data d (0x10 + 2 * of_nat i)"

definition io_high :: "ioapic \<Rightarrow> nat \<Rightarrow> uint" where
  "io_high d i = io_data d (0x10 + 2 * of_nat i + 1)"

definition io_entry :: "nat \<Rightarrow> uint \<Rightarrow> uint \<Rightarrow> ioapic \<Rightarrow> ioapic" where
  "io_entry i x y d = ioapicwrite (0x10 + 2 * of_nat i + 1) y (ioapicwrite (0x10 + 2 * of_nat i) x d)"

lemma uint_of_nat_inj: "a < 1024 \<Longrightarrow> b < 1024 \<Longrightarrow> (of_nat a :: uint) = of_nat b \<longleftrightarrow> a = b"
  by (auto simp: word_unat_eq_iff unat_of_nat)

lemma io_entry:
  assumes "i < 256" "j < 256"
  shows "io_low (io_entry j x y d) i = (if i = j then x else io_low d i)" "io_high (io_entry j x y d) i = (if i = j then y else io_high d i)"
proof -
  have n: "(0x10 + 2 * of_nat k :: uint) = of_nat (16 + 2 * k)" "(0x10 + 2 * of_nat k + 1 :: uint) = of_nat (17 + 2 * k)" for k by simp_all
  have "16 + 2 * i \<noteq> 17 + 2 * j" "17 + 2 * i \<noteq> 16 + 2 * j" by presburger+
  then have "(0x10 + 2 * of_nat i :: uint) = 0x10 + 2 * of_nat j \<longleftrightarrow> i = j" "(0x10 + 2 * of_nat i :: uint) \<noteq> 0x10 + 2 * of_nat j + 1"
    "(0x10 + 2 * of_nat i + 1 :: uint) = 0x10 + 2 * of_nat j + 1 \<longleftrightarrow> i = j" "(0x10 + 2 * of_nat i + 1 :: uint) \<noteq> 0x10 + 2 * of_nat j"
    unfolding n(2) unfolding n(1) using assms by (subst uint_of_nat_inj; simp)+
  then show "io_low (io_entry j x y d) i = (if i = j then x else io_low d i)" "io_high (io_entry j x y d) i = (if i = j then y else io_high d i)"
    by (auto simp: io_low_def io_high_def io_entry_def ioapicwrite_def)
qed

lemma ioapicinit_table:
  assumes "i \<le> unat (and (drop_bit 16 (io_data d 1)) 0xFF)"
  shows "io_low (snd (ioapicinit apicid d)) i = or 0x10000 (32 + of_nat i)" "io_high (snd (ioapicinit apicid d)) i = 0"
proof -
  let ?f = "\<lambda>i. io_entry i (or 0x10000 (32 + of_nat i)) 0"
  define n where "n = unat (and (drop_bit 16 (io_data d 1)) 0xFF)"
  have "and (drop_bit 16 (io_data d 1)) 0xFF \<le> (0xFF :: uint)" by (rule word_and_le1)
  then have n: "n \<le> 255" by (simp add: n_def word_le_nat_alt)
  have "io_low (fold ?f [0..<k] e) j = (if j < k then or 0x10000 (32 + of_nat j) else io_low e j) \<and>
      io_high (fold ?f [0..<k] e) j = (if j < k then 0 else io_high e j)" if "k \<le> 256" "j < 256" for k j e
    using that by (induction k) (auto simp: io_entry)
  moreover have "snd (ioapicinit apicid d) = fold ?f [0..<Suc n] (d\<lparr>io_reg := 0\<rparr>)"
    by (simp add: ioapicinit_def ioapicread_def n_def Let_def io_entry_def [abs_def] del: upt_Suc)
  ultimately show "io_low (snd (ioapicinit apicid d)) i = or 0x10000 (32 + of_nat i)" "io_high (snd (ioapicinit apicid d)) i = 0"
    using assms n by (simp_all add: n_def [symmetric] del: upt_Suc)
qed

text \<open>
  After ioapicinit and any sequence of calls of ioapicenable, an interrupt of the controller is unmasked exactly if it has been enabled, has the vector \<open>T_IRQ0\<close> plus its number,
  and goes to the processor of the last call that enabled it.
\<close>

theorem ioapic_routes:
  assumes "i \<le> unat (and (drop_bit 16 (io_data d 1)) 0xFF)" "\<forall>(irq, cpunum)\<in>set es. irq < 256"
  shows "io_low (fold (\<lambda>(irq, cpunum). ioapicenable irq cpunum) es (snd (ioapicinit apicid d))) i = (if i \<in> fst ` set es then 32 + of_nat i else or 0x10000 (32 + of_nat i)) \<and>
    io_high (fold (\<lambda>(irq, cpunum). ioapicenable irq cpunum) es (snd (ioapicinit apicid d))) i = (case map_of (rev es) i of None \<Rightarrow> 0 | Some cpunum \<Rightarrow> push_bit 24 cpunum)"
proof -
  have "and (drop_bit 16 (io_data d 1)) 0xFF \<le> (0xFF :: uint)" by (rule word_and_le1)
  then have i: "i < 256" using assms(1) by (simp add: word_le_nat_alt)
  show ?thesis using assms(2)
  proof (induction es rule: rev_induct)
    case Nil
    then show ?case using ioapicinit_table [OF assms(1)] by simp
  next
    case (snoc e es)
    obtain irq cpunum where "e = (irq, cpunum)" by (cases e)
    moreover have "ioapicenable irq cpunum = io_entry irq (32 + of_nat irq) (push_bit 24 cpunum)" by (simp add: fun_eq_iff ioapicenable_def io_entry_def)
    ultimately show ?case using snoc i by (auto simp: io_entry)
  qed
qed

theorem ioapic_routes_witness:
  "io_low (fold (\<lambda>(irq, cpunum). ioapicenable irq cpunum) [(4, 0), (14, 1)] (snd (ioapicinit 0 \<lparr>io_reg = 0, io_data = (\<lambda>_. 0)(1 := 0x170000)\<rparr>))) 14 = 46"
  using ioapic_routes [of 14 "\<lparr>io_reg = 0, io_data = (\<lambda>_. 0)(1 := 0x170000)\<rparr>" "[(4, 0), (14, 1)]" 0] by simp

section \<open>The local APIC\<close>

text \<open>The start-up interrupt names the page of the code: the processor begins at the address that lapicstartap is given.\<close>

lemma startap_vector:
  assumes "unat addr mod 4096 = 0" "unat addr < 0x100000"
  shows "\<exists>v. hd (lapic_log (lapicstartap_ipis apicid addr d)) = (0xC0, v) \<and> v = or 0x600 (drop_bit 12 addr) \<and> push_bit 12 (take_bit 8 v) = addr"
proof -
  define k where "k = unat addr div 4096"
  have k: "k < 256" using assms(2) by (simp add: k_def)
  have "addr = of_nat (k * 4096)" using assms(1) by (simp add: k_def mod_0_imp_dvd del: of_nat_mult)
  then have a: "addr = of_nat k * 4096" by simp
  have "unat (drop_bit 12 addr) = k" by (simp only: unat_drop_bit_eq) (simp add: drop_bit_eq_div k_def)
  then have d: "drop_bit 12 addr = of_nat k" by (metis of_nat_unat ucast_id)
  have "take_bit 8 (or 0x600 (of_nat k :: uint)) = of_nat k" using k by (simp add: take_bit_of_nat take_bit_nat_eq_self)
  then have "push_bit 12 (take_bit 8 (or 0x600 (drop_bit 12 addr))) = addr" unfolding d unfolding a by (simp add: push_bit_eq_mult)
  then show ?thesis by (simp add: lapicstartap_ipis_def lapicw_def Let_def)
qed

text \<open>lapicinit ends exactly when the bus reports the delivery of the interrupt that it sends.\<close>

lemma lapic_wait_ends: "lapic_wait rs \<noteq> None \<longleftrightarrow> (\<exists>r\<in>set rs. and r 0x1000 = 0)"
  by (induction rs) auto

lemma lapicinit_ends: "lapicinit d \<noteq> None \<longleftrightarrow> lapic d = 0 \<or> (\<exists>r\<in>set (icrlo_reads d). and r 0x1000 = 0)"
  using lapic_wait_ends [of "icrlo_reads d"] by (auto simp: lapicinit_def lapicw_def Let_def)

end
