(* ===== verification/Programs.thy ===== *)
theory Programs
  imports Ulib Inode
begin

text \<open>
  The small user programs (cat.c, wc.c, echo.c, kill.c, ln.c, mkdir.c, rm.c, ls.c).  The system calls are a record of functions on a world, which is an argument;
  a read returns the bytes it stores, or None for an error.  A program is a function from its arguments, the name of the program included, and the world
  to the world it leaves when it exits; None stands for a loop that never ends.  A routine that may exit returns \<open>Inl\<close> of the world then.
\<close>

record 'w sys =
  open_sys :: "byte list \<Rightarrow> int \<Rightarrow> 'w \<Rightarrow> int \<times> 'w"
  read_sys :: "int \<Rightarrow> nat \<Rightarrow> 'w \<Rightarrow> byte list option \<times> 'w"
  write_sys :: "int \<Rightarrow> byte list \<Rightarrow> 'w \<Rightarrow> int \<times> 'w"
  close_sys :: "int \<Rightarrow> 'w \<Rightarrow> 'w"
  fstat_sys :: "int \<Rightarrow> 'w \<Rightarrow> (int \<times> stat) \<times> 'w"
  link_sys :: "byte list \<Rightarrow> byte list \<Rightarrow> 'w \<Rightarrow> int \<times> 'w"
  mkdir_sys :: "byte list \<Rightarrow> 'w \<Rightarrow> int \<times> 'w"
  unlink_sys :: "byte list \<Rightarrow> 'w \<Rightarrow> int \<times> 'w"
  kill_sys :: "int \<Rightarrow> 'w \<Rightarrow> int \<times> 'w"

text \<open>putc and printf write one byte at a time and do not look at the result.\<close>

definition put_bytes :: "'w sys \<Rightarrow> int \<Rightarrow> byte list \<Rightarrow> 'w \<Rightarrow> 'w" where
  "put_bytes sys fd bs w = fold (\<lambda>c w. snd (write_sys sys fd [c] w)) bs w"

definition fprintf :: "'w sys \<Rightarrow> int \<Rightarrow> string \<Rightarrow> carg list \<Rightarrow> 'w \<Rightarrow> 'w option" where
  "fprintf sys fd fmt args w = map_option (\<lambda>bs. put_bytes sys fd bs w) (printf fmt args)"

section \<open>cat\<close>

partial_function (option) cat :: "'w sys \<Rightarrow> int \<Rightarrow> 'w \<Rightarrow> ('w + 'w) option" where
  "cat sys fd w = (case read_sys sys fd 512 w of
     (None, w) \<Rightarrow> map_option Inl (fprintf sys 1 ''cat: read error\<newline>'' [] w)
   | (Some bs, w) \<Rightarrow>
       if bs = [] then Some (Inr w) else
       (case write_sys sys 1 bs w of (r, w) \<Rightarrow>
        if r \<noteq> int (length bs) then map_option Inl (fprintf sys 1 ''cat: write error\<newline>'' [] w) else cat sys fd w))"

fun cat_files :: "'w sys \<Rightarrow> byte list list \<Rightarrow> 'w \<Rightarrow> 'w option" where
  "cat_files sys [] w = Some w"
| "cat_files sys (a # as) w = (case open_sys sys a 0 w of (fd, w) \<Rightarrow>
     if fd < 0 then fprintf sys 1 ''cat: cannot open %s\<newline>'' [CStr (Some a)] w else
     Option.bind (cat sys fd w) (\<lambda>r. case r of Inl w \<Rightarrow> Some w | Inr w \<Rightarrow> cat_files sys as (close_sys sys fd w)))"

definition cat_main :: "'w sys \<Rightarrow> byte list list \<Rightarrow> 'w \<Rightarrow> 'w option" where
  "cat_main sys argv w =
     (if length argv \<le> 1 then map_option (\<lambda>r. case r of Inl w \<Rightarrow> w | Inr w \<Rightarrow> w) (cat sys 0 w) else cat_files sys (tl argv) w)"

section \<open>wc\<close>

type_synonym counts = "int \<times> int \<times> int \<times> bool"

definition wc_byte :: "byte \<Rightarrow> counts \<Rightarrow> counts" where
  "wc_byte b = (\<lambda>(l, w, c, inword).
     let c = c + 1; l = (if b = 10 then l + 1 else l) in
     if strchr [32, 13, 9, 10, 11] b \<noteq> None then (l, w, c, False)
     else if \<not> inword then (l, w + 1, c, True) else (l, w, c, inword))"

partial_function (option) wc_loop :: "'w sys \<Rightarrow> int \<Rightarrow> counts \<Rightarrow> 'w \<Rightarrow> ('w + counts \<times> 'w) option" where
  "wc_loop sys fd n w = (case read_sys sys fd 512 w of
     (None, w) \<Rightarrow> map_option Inl (fprintf sys 1 ''wc: read error\<newline>'' [] w)
   | (Some bs, w) \<Rightarrow> if bs = [] then Some (Inr (n, w)) else wc_loop sys fd (fold wc_byte bs n) w)"

definition wc :: "'w sys \<Rightarrow> int \<Rightarrow> byte list \<Rightarrow> 'w \<Rightarrow> ('w + 'w) option" where
  "wc sys fd name w = Option.bind (wc_loop sys fd (0, 0, 0, False) w) (\<lambda>r. case r of
     Inl w \<Rightarrow> Some (Inl w)
   | Inr ((l, n, c, inword), w) \<Rightarrow>
       map_option Inr (fprintf sys 1 ''%d %d %d %s\<newline>'' [CInt (word_of_int l), CInt (word_of_int n), CInt (word_of_int c), CStr (Some name)] w))"

fun wc_files :: "'w sys \<Rightarrow> byte list list \<Rightarrow> 'w \<Rightarrow> 'w option" where
  "wc_files sys [] w = Some w"
| "wc_files sys (a # as) w = (case open_sys sys a 0 w of (fd, w) \<Rightarrow>
     if fd < 0 then fprintf sys 1 ''wc: cannot open %s\<newline>'' [CStr (Some a)] w else
     Option.bind (wc sys fd a w) (\<lambda>r. case r of Inl w \<Rightarrow> Some w | Inr w \<Rightarrow> wc_files sys as (close_sys sys fd w)))"

definition wc_main :: "'w sys \<Rightarrow> byte list list \<Rightarrow> 'w \<Rightarrow> 'w option" where
  "wc_main sys argv w =
     (if length argv \<le> 1 then map_option (\<lambda>r. case r of Inl w \<Rightarrow> w | Inr w \<Rightarrow> w) (wc sys 0 [] w) else wc_files sys (tl argv) w)"

section \<open>echo, kill, ln, mkdir, rm\<close>

fun echo_loop :: "'w sys \<Rightarrow> byte list list \<Rightarrow> 'w \<Rightarrow> 'w option" where
  "echo_loop sys [] w = Some w"
| "echo_loop sys (a # as) w =
     Option.bind (fprintf sys 1 ''%s%s'' [CStr (Some a), CStr (Some (if as \<noteq> [] then str '' '' else str ''\<newline>''))] w) (echo_loop sys as)"

definition echo_main :: "'w sys \<Rightarrow> byte list list \<Rightarrow> 'w \<Rightarrow> 'w option" where
  "echo_main sys argv w = echo_loop sys (tl argv) w"

fun kill_loop :: "'w sys \<Rightarrow> byte list list \<Rightarrow> 'w \<Rightarrow> 'w option" where
  "kill_loop sys [] w = Some w"
| "kill_loop sys (a # as) w = Option.bind (atoi a) (\<lambda>pid. kill_loop sys as (snd (kill_sys sys pid w)))"

definition kill_main :: "'w sys \<Rightarrow> byte list list \<Rightarrow> 'w \<Rightarrow> 'w option" where
  "kill_main sys argv w = (if length argv < 2 then fprintf sys 2 ''usage: kill pid...\<newline>'' [] w else kill_loop sys (tl argv) w)"

definition ln_main :: "'w sys \<Rightarrow> byte list list \<Rightarrow> 'w \<Rightarrow> 'w option" where
  "ln_main sys argv w =
     (if length argv \<noteq> 3 then fprintf sys 2 ''Usage: ln old new\<newline>'' [] w else
      case link_sys sys (argv ! 1) (argv ! 2) w of (r, w) \<Rightarrow>
      if r < 0 then fprintf sys 2 ''link %s %s: failed\<newline>'' [CStr (Some (argv ! 1)), CStr (Some (argv ! 2))] w else Some w)"

fun mkdir_loop :: "'w sys \<Rightarrow> byte list list \<Rightarrow> 'w \<Rightarrow> 'w option" where
  "mkdir_loop sys [] w = Some w"
| "mkdir_loop sys (a # as) w = (case mkdir_sys sys a w of (r, w) \<Rightarrow>
     if r < 0 then fprintf sys 2 ''mkdir: %s failed to create\<newline>'' [CStr (Some a)] w else mkdir_loop sys as w)"

definition mkdir_main :: "'w sys \<Rightarrow> byte list list \<Rightarrow> 'w \<Rightarrow> 'w option" where
  "mkdir_main sys argv w = (if length argv < 2 then fprintf sys 2 ''Usage: mkdir files...\<newline>'' [] w else mkdir_loop sys (tl argv) w)"

fun rm_loop :: "'w sys \<Rightarrow> byte list list \<Rightarrow> 'w \<Rightarrow> 'w option" where
  "rm_loop sys [] w = Some w"
| "rm_loop sys (a # as) w = (case unlink_sys sys a w of (r, w) \<Rightarrow>
     if r < 0 then fprintf sys 2 ''rm: %s failed to delete\<newline>'' [CStr (Some a)] w else rm_loop sys as w)"

definition rm_main :: "'w sys \<Rightarrow> byte list list \<Rightarrow> 'w \<Rightarrow> 'w option" where
  "rm_main sys argv w = (if length argv < 2 then fprintf sys 2 ''Usage: rm files...\<newline>'' [] w else rm_loop sys (tl argv) w)"

section \<open>ls\<close>

text \<open>The pointer of fmtname is an index that may go one below the start of the path.\<close>

fun fmtname_scan :: "byte list \<Rightarrow> nat \<Rightarrow> nat" where
  "fmtname_scan path 0 = 0"
| "fmtname_scan path (Suc p) = (if path ! p = 47 then Suc p else fmtname_scan path p)"

definition fmtname :: "byte list \<Rightarrow> byte list" where
  "fmtname path =
     (let s = cstring path; p = drop (fmtname_scan s (length s)) s in
      if length p \<ge> DIRSIZ then p else p @ replicate (DIRSIZ - length p) 32)"

definition ls_line :: "'w sys \<Rightarrow> byte list \<Rightarrow> stat \<Rightarrow> 'w \<Rightarrow> 'w option" where
  "ls_line sys path st w =
     fprintf sys 1 ''%s %d %d %d\<newline>'' [CStr (Some (fmtname path)), CInt (scast (st_type st)), CInt (st_ino st), CInt (st_size st)] w"

text \<open>The buffer holds the path, a slash and room for a name.\<close>

partial_function (option) ls_dir :: "'w sys \<Rightarrow> int \<Rightarrow> byte list \<Rightarrow> stat \<Rightarrow> 'w \<Rightarrow> 'w option" where
  "ls_dir sys fd path st w = (case read_sys sys fd 16 w of
     (None, w) \<Rightarrow> Some w
   | (Some de, w) \<Rightarrow>
       if length de \<noteq> 16 then Some w
       else if get16 de 0 = 0 then ls_dir sys fd path st w
       else let buf = cstring (path @ [47] @ drop 2 de) in
       case stat_u (open_sys sys) (fstat_sys sys) (close_sys sys) buf st w of ((r, st), w) \<Rightarrow>
       Option.bind (if r < 0 then fprintf sys 1 ''ls: cannot stat %s\<newline>'' [CStr (Some buf)] w else ls_line sys buf st w) (\<lambda>w.
       ls_dir sys fd path st w))"

definition ls :: "'w sys \<Rightarrow> byte list \<Rightarrow> 'w \<Rightarrow> 'w option" where
  "ls sys path w = (case open_sys sys path 0 w of (fd, w) \<Rightarrow>
     if fd < 0 then fprintf sys 2 ''ls: cannot open %s\<newline>'' [CStr (Some path)] w else
     case fstat_sys sys fd w of ((r, st), w) \<Rightarrow>
     if r < 0 then map_option (close_sys sys fd) (fprintf sys 2 ''ls: cannot stat %s\<newline>'' [CStr (Some path)] w) else
     map_option (close_sys sys fd)
      (if st_type st = 2 then ls_line sys path st w
       else if st_type st = 1 then
         if length (cstring path) + 1 + DIRSIZ + 1 > 512 then fprintf sys 1 ''ls: path too long\<newline>'' [] w
         else ls_dir sys fd (cstring path) st w
       else Some w))"

fun ls_all :: "'w sys \<Rightarrow> byte list list \<Rightarrow> 'w \<Rightarrow> 'w option" where
  "ls_all sys [] w = Some w"
| "ls_all sys (a # as) w = Option.bind (ls sys a w) (ls_all sys as)"

definition ls_main :: "'w sys \<Rightarrow> byte list list \<Rightarrow> 'w \<Rightarrow> 'w option" where
  "ls_main sys argv w = (if length argv < 2 then ls sys (str ''.'') w else ls_all sys (tl argv) w)"

section \<open>A world of files\<close>

text \<open>
  Files with their status and contents by name, the open files with what is still to be read, and what was written to each descriptor.
  A read may return fewer bytes than asked for, but at least one before the end of the file; how many the \<open>i\<close>-th read returns at most is an argument.
\<close>

record fworld =
  files :: "byte list \<Rightarrow> (stat \<times> byte list) option"
  fds :: "int \<Rightarrow> (stat \<times> byte list) option"
  written :: "int \<Rightarrow> byte list"
  rsize :: "nat \<Rightarrow> nat"
  rcount :: nat

definition f_open :: "byte list \<Rightarrow> int \<Rightarrow> fworld \<Rightarrow> int \<times> fworld" where
  "f_open path omode w = (case files w (cstring path) of
     None \<Rightarrow> (- 1, w)
   | Some f \<Rightarrow> (case find (\<lambda>k. fds w (int k) = None) [0..<16] of
       None \<Rightarrow> (- 1, w) | Some k \<Rightarrow> (int k, w\<lparr>fds := (fds w)(int k := Some f)\<rparr>)))"

definition f_read :: "int \<Rightarrow> nat \<Rightarrow> fworld \<Rightarrow> byte list option \<times> fworld" where
  "f_read fd n w = (case fds w fd of
     None \<Rightarrow> (None, w)
   | Some (st, bs) \<Rightarrow>
       let k = min n (Suc (rsize w (rcount w))) in
       (Some (take k bs), w\<lparr>fds := (fds w)(fd := Some (st, drop k bs)), rcount := Suc (rcount w)\<rparr>))"

definition f_write :: "int \<Rightarrow> byte list \<Rightarrow> fworld \<Rightarrow> int \<times> fworld" where
  "f_write fd bs w = (int (length bs), w\<lparr>written := (written w)(fd := written w fd @ bs)\<rparr>)"

definition f_close :: "int \<Rightarrow> fworld \<Rightarrow> fworld" where
  "f_close fd w = w\<lparr>fds := (fds w)(fd := None)\<rparr>"

definition f_fstat :: "int \<Rightarrow> fworld \<Rightarrow> (int \<times> stat) \<times> fworld" where
  "f_fstat fd w = (case fds w fd of
     None \<Rightarrow> ((- 1, \<lparr>st_type = 0, st_dev = 0, st_ino = 0, st_nlink = 0, st_size = 0\<rparr>), w) | Some (st, bs) \<Rightarrow> ((0, st), w))"

definition f_unlink :: "byte list \<Rightarrow> fworld \<Rightarrow> int \<times> fworld" where
  "f_unlink path w = (if files w (cstring path) = None then (- 1, w) else (0, w\<lparr>files := (files w)(cstring path := None)\<rparr>))"

definition f_link :: "byte list \<Rightarrow> byte list \<Rightarrow> fworld \<Rightarrow> int \<times> fworld" where
  "f_link old new w = (case files w (cstring old) of
     None \<Rightarrow> (- 1, w)
   | Some f \<Rightarrow> if files w (cstring new) \<noteq> None then (- 1, w) else (0, w\<lparr>files := (files w)(cstring new := Some f)\<rparr>))"

definition f_mkdir :: "byte list \<Rightarrow> fworld \<Rightarrow> int \<times> fworld" where
  "f_mkdir path w = (if files w (cstring path) \<noteq> None then (- 1, w)
     else (0, w\<lparr>files := (files w)(cstring path := Some (\<lparr>st_type = 1, st_dev = 1, st_ino = 1, st_nlink = 1, st_size = 0\<rparr>, []))\<rparr>))"

definition file_sys :: "fworld sys" where
  "file_sys = \<lparr>open_sys = f_open, read_sys = f_read, write_sys = f_write, close_sys = f_close, fstat_sys = f_fstat,
     link_sys = f_link, mkdir_sys = f_mkdir, unlink_sys = f_unlink, kill_sys = \<lambda>pid w. (- 1, w)\<rparr>"

text \<open>Output appended to a descriptor.\<close>

definition emit :: "int \<Rightarrow> byte list \<Rightarrow> fworld \<Rightarrow> fworld" where
  "emit fd bs w = w\<lparr>written := (written w)(fd := written w fd @ bs)\<rparr>"

lemma emit_simps [simp]:
  "emit fd [] w = w" "emit fd cs (emit fd bs w) = emit fd (bs @ cs) w"
  "files (emit fd bs w) = files w" "fds (emit fd bs w) = fds w" "written (emit fd bs w) fd = written w fd @ bs" "rsize (emit fd bs w) = rsize w"
  by (simp_all add: emit_def)

lemma put_bytes_file [simp]: "put_bytes file_sys fd bs w = emit fd bs w"
proof (induction bs arbitrary: w)
  case (Cons b bs)
  have "put_bytes file_sys fd (b # bs) w = put_bytes file_sys fd bs (emit fd [b] w)" by (simp add: put_bytes_def file_sys_def f_write_def emit_def)
  then show ?case using Cons by simp
qed (simp add: put_bytes_def)

lemma fprintf_file: "printf fmt args = Some bs \<Longrightarrow> fprintf file_sys fd fmt args w = Some (emit fd bs w)"
  by (simp add: fprintf_def)

text \<open>Two worlds that differ only in how many reads there were.\<close>

definition same_world :: "fworld \<Rightarrow> fworld \<Rightarrow> bool" where
  "same_world w w' \<longleftrightarrow> w' = w\<lparr>rcount := rcount w'\<rparr>"

lemma same_world_fields: "same_world w w' \<longleftrightarrow> files w' = files w \<and> fds w' = fds w \<and> written w' = written w \<and> rsize w' = rsize w"
  by (cases w; cases w') (auto simp: same_world_def)

lemma find_free:
  assumes "find (\<lambda>k. fds w (int k) = None) [0..<16] = Some k"
  shows "fds w (int k) = None"
  using assms by (auto simp: find_Some_iff)

section \<open>cat\<close>

lemma cat_file:
  assumes "fds w fd = Some (st, bs)"
  shows "\<exists>w'. cat file_sys fd w = Some (Inr w') \<and> same_world (emit 1 bs (w\<lparr>fds := (fds w)(fd := Some (st, []))\<rparr>)) w'"
  using assms
proof (induction "length bs" arbitrary: bs w rule: less_induct)
  case less
  define k where "k = min 512 (Suc (rsize w (rcount w)))"
  define w1 where "w1 = w\<lparr>fds := (fds w)(fd := Some (st, drop k bs)), rcount := Suc (rcount w)\<rparr>"
  have r: "f_read fd 512 w = (Some (take k bs), w1)" using less.prems by (simp add: f_read_def k_def w1_def Let_def)
  have k: "0 < k" by (simp add: k_def)
  show ?case
  proof (cases "bs = []")
    case True
    then show ?thesis by (subst cat.simps) (simp add: file_sys_def r, simp add: same_world_fields w1_def)
  next
    case False
    let ?w2 = "emit 1 (take k bs) w1"
    have "cat file_sys fd w = cat file_sys fd ?w2" using False k by (subst cat.simps) (simp add: file_sys_def r f_write_def emit_def)
    moreover have "\<exists>w'. cat file_sys fd ?w2 = Some (Inr w') \<and> same_world (emit 1 (drop k bs) (?w2\<lparr>fds := (fds ?w2)(fd := Some (st, []))\<rparr>)) w'"
      using False k by (intro less.hyps) (simp_all add: w1_def)
    moreover have "emit 1 (drop k bs) (?w2\<lparr>fds := (fds ?w2)(fd := Some (st, []))\<rparr>) = (emit 1 bs (w\<lparr>fds := (fds w)(fd := Some (st, []))\<rparr>))\<lparr>rcount := Suc (rcount w)\<rparr>"
      by (simp add: emit_def w1_def)
    ultimately show ?thesis by (simp add: same_world_def)
  qed
qed

text \<open>A descriptor is free for a file to be opened.\<close>

definition room :: "fworld \<Rightarrow> bool" where
  "room w \<longleftrightarrow> (\<exists>k<16. fds w (int k) = None)"

lemma open_file:
  assumes "room w" "files w (cstring a) = Some f"
  obtains fd where "open_sys file_sys a 0 w = (fd, w\<lparr>fds := (fds w)(fd := Some f)\<rparr>)" "0 \<le> fd" "fds w fd = None"
proof -
  have "find (\<lambda>k. fds w (int k) = None) [0..<16] \<noteq> None" using assms(1) by (auto simp: find_None_iff room_def simp del: upt_rec_numeral)
  then obtain k where k: "find (\<lambda>k. fds w (int k) = None) [0..<16] = Some k" by blast
  then show thesis using that [of "int k"] find_free [OF k] assms(2) by (simp add: file_sys_def f_open_def del: upt_rec_numeral)
qed

lemma close_open: "fds w fd = None \<Longrightarrow> (fds w)(fd := Some f, fd := None) = fds w"
  by auto

text \<open>The loop of cat and wc over their arguments.\<close>

fun each_file :: "string \<Rightarrow> (int \<Rightarrow> byte list \<Rightarrow> fworld \<Rightarrow> (fworld + fworld) option) \<Rightarrow> byte list list \<Rightarrow> fworld \<Rightarrow> fworld option" where
  "each_file msg g [] w = Some w"
| "each_file msg g (a # as) w = (case open_sys file_sys a 0 w of (fd, w) \<Rightarrow>
     if fd < 0 then fprintf file_sys 1 msg [CStr (Some a)] w else
     Option.bind (g fd a w) (\<lambda>r. case r of Inl w \<Rightarrow> Some w | Inr w \<Rightarrow> each_file msg g as (close_sys file_sys fd w)))"

definition file_outs :: "(byte list \<Rightarrow> byte list \<Rightarrow> byte list) \<Rightarrow> byte list list \<Rightarrow> fworld \<Rightarrow> byte list" where
  "file_outs out as w = concat (map (\<lambda>a. out a (snd (the (files w (cstring a))))) as)"

lemma each_file_ok:
  assumes g: "\<And>w fd a st bs. fds w fd = Some (st, bs) \<Longrightarrow> \<exists>w'. g fd a w = Some (Inr w') \<and> same_world (emit 1 (out a bs) (w\<lparr>fds := (fds w)(fd := Some (st, []))\<rparr>)) w'"
    and "room w" "\<forall>a\<in>set as. files w (cstring a) \<noteq> None"
  shows "\<exists>w'. each_file msg g as w = Some w' \<and> same_world (emit 1 (file_outs out as w) w) w'"
  using assms(2,3)
proof (induction as arbitrary: w)
  case Nil
  then show ?case by (simp add: same_world_def file_outs_def)
next
  case (Cons a as)
  obtain st bs where f: "files w (cstring a) = Some (st, bs)" using Cons.prems(2) by auto
  obtain fd where fd: "open_sys file_sys a 0 w = (fd, w\<lparr>fds := (fds w)(fd := Some (st, bs))\<rparr>)" "0 \<le> fd" "fds w fd = None"
    using open_file [OF Cons.prems(1) f] by blast
  let ?w = "w\<lparr>fds := (fds w)(fd := Some (st, bs))\<rparr>"
  obtain w1 where c: "g fd a ?w = Some (Inr w1)" "same_world (emit 1 (out a bs) (?w\<lparr>fds := (fds ?w)(fd := Some (st, []))\<rparr>)) w1"
    using g [of ?w fd st bs a] by auto
  let ?w2 = "f_close fd w1"
  have s: "same_world (emit 1 (out a bs) w) ?w2" using c(2) fd(3) by (auto simp: same_world_fields f_close_def emit_def)
  then have fs: "files ?w2 = files w" "fds ?w2 = fds w" by (simp_all add: same_world_fields)
  obtain w' where w': "each_file msg g as ?w2 = Some w'" "same_world (emit 1 (file_outs out as ?w2) ?w2) w'"
    using Cons.IH [of ?w2] Cons.prems fs by (auto simp: room_def)
  have "each_file msg g (a # as) w = Some w'" using fd(1,2) c(1) w'(1) by (simp add: file_sys_def)
  moreover have "same_world (emit 1 (file_outs out (a # as) w) w) w'"
    using s w'(2) f fs by (auto simp: same_world_fields emit_def file_outs_def)
  ultimately show ?case by blast
qed

lemma cat_files_each: "cat_files file_sys as w = each_file ''cat: cannot open %s\<newline>'' (\<lambda>fd a. cat file_sys fd) as w"
  by (induction as arbitrary: w) (auto split: prod.splits sum.splits option.splits simp: Option.bind_def)

text \<open>
  cat with names of files writes their contents, one after the other, to descriptor 1 and nothing else, however few bytes each read returns,
  and leaves no descriptor open.
\<close>

theorem cat_prints:
  assumes "room w" "as \<noteq> []" "\<forall>a\<in>set as. files w (cstring a) \<noteq> None"
  shows "\<exists>w'. cat_main file_sys (name # as) w = Some w' \<and> written w' = (written w)(1 := written w 1 @ file_outs (\<lambda>a bs. bs) as w) \<and>
    files w' = files w \<and> fds w' = fds w"
  using each_file_ok [of "\<lambda>fd a. cat file_sys fd" "\<lambda>a bs. bs", OF cat_file assms(1,3), of "''cat: cannot open %s\<newline>''"] assms(2)
  unfolding cat_main_def by (auto simp: same_world_fields emit_def cat_files_each simp del: each_file.simps)

section \<open>wc\<close>

text \<open>The words of the input.\<close>

definition is_sep :: "byte \<Rightarrow> bool" where
  "is_sep b \<longleftrightarrow> b \<in> {32, 13, 9, 10, 11}"

fun words :: "byte list \<Rightarrow> byte list \<Rightarrow> byte list list" where
  "words acc [] = (if acc = [] then [] else [acc])"
| "words acc (b # bs) = (if is_sep b then (if acc = [] then words [] bs else acc # words [] bs) else words (acc @ [b]) bs)"

lemma strchr_sep: "strchr [32, 13, 9, 10, 11] b \<noteq> None \<longleftrightarrow> is_sep b"
  by (auto simp: strchr_None is_sep_def)

lemma wc_fold:
  "fold wc_byte bs (l, n, c, acc \<noteq> []) =
     (l + int (count_list bs 10), n + int (length (words acc bs)) - (if acc \<noteq> [] then 1 else 0), c + int (length bs),
      if bs = [] then acc \<noteq> [] else \<not> is_sep (last bs))"
proof (induction bs arbitrary: l n c acc)
  case (Cons b bs)
  have w: "wc_byte b (l, n, c, acc \<noteq> []) = (if b = 10 then l + 1 else l, if \<not> is_sep b \<and> acc = [] then n + 1 else n, c + 1,
      (if is_sep b then [] else acc @ [b]) \<noteq> [])"
    by (simp only: wc_byte_def prod.case Let_def strchr_sep) auto
  show ?case unfolding fold_Cons o_apply w Cons.IH by (auto simp: is_sep_def)
qed simp

lemma wc_loop_file:
  assumes "fds w fd = Some (st, bs)"
  shows "\<exists>w'. wc_loop file_sys fd n w = Some (Inr (fold wc_byte bs n, w')) \<and> same_world (w\<lparr>fds := (fds w)(fd := Some (st, []))\<rparr>) w'"
  using assms
proof (induction "length bs" arbitrary: bs n w rule: less_induct)
  case less
  define k where "k = min 512 (Suc (rsize w (rcount w)))"
  define w1 where "w1 = w\<lparr>fds := (fds w)(fd := Some (st, drop k bs)), rcount := Suc (rcount w)\<rparr>"
  have r: "f_read fd 512 w = (Some (take k bs), w1)" using less.prems by (simp add: f_read_def k_def w1_def Let_def)
  have k: "0 < k" by (simp add: k_def)
  show ?case
  proof (cases "bs = []")
    case True
    then show ?thesis by (subst wc_loop.simps) (simp add: file_sys_def r, simp add: same_world_fields w1_def)
  next
    case False
    have "wc_loop file_sys fd n w = wc_loop file_sys fd (fold wc_byte (take k bs) n) w1" using False k by (subst wc_loop.simps) (simp add: file_sys_def r)
    moreover have "\<exists>w'. wc_loop file_sys fd (fold wc_byte (take k bs) n) w1 = Some (Inr (fold wc_byte (drop k bs) (fold wc_byte (take k bs) n), w')) \<and>
        same_world (w1\<lparr>fds := (fds w1)(fd := Some (st, []))\<rparr>) w'"
      using False k by (intro less.hyps) (simp_all add: w1_def)
    moreover have "fold wc_byte (drop k bs) (fold wc_byte (take k bs) n) = fold wc_byte bs n" by (metis append_take_drop_id fold_append o_apply)
    ultimately show ?thesis by (simp add: same_world_def w1_def)
  qed
qed

text \<open>The line that wc should print for a file.\<close>

definition wc_line :: "byte list \<Rightarrow> byte list \<Rightarrow> byte list" where
  "wc_line name bs = the (printf ''%d %d %d %s\<newline>'' [CInt (word_of_int (int (count_list bs 10))), CInt (word_of_int (int (length (words [] bs)))),
     CInt (word_of_int (int (length bs))), CStr (Some name)])"

lemma printf_wc: "printf ''%d %d %d %s\<newline>'' [CInt x, CInt y, CInt z, CStr s] = Some (printint_u x 10 True @ [32] @ printint_u y 10 True @ [32] @ printint_u z 10 True @ [32] @ printf_arg_str s @ [10])"
  by (simp add: printf_def str_def)

lemma wc_file:
  assumes "fds w fd = Some (st, bs)"
  shows "\<exists>w'. wc file_sys fd name w = Some (Inr w') \<and> same_world (emit 1 (wc_line name bs) (w\<lparr>fds := (fds w)(fd := Some (st, []))\<rparr>)) w'"
proof -
  obtain w1 where l: "wc_loop file_sys fd (0, 0, 0, False) w = Some (Inr (fold wc_byte bs (0, 0, 0, False), w1))" "same_world (w\<lparr>fds := (fds w)(fd := Some (st, []))\<rparr>) w1"
    using wc_loop_file [OF assms] by blast
  have "wc file_sys fd name w = Some (Inr (emit 1 (wc_line name bs) w1))"
    using l(1) wc_fold [of bs 0 0 0 "[]"] by (simp add: wc_def wc_line_def fprintf_def printf_wc)
  then show ?thesis using l(2) by (auto simp: same_world_fields emit_def)
qed

lemma wc_files_each: "wc_files file_sys as w = each_file ''wc: cannot open %s\<newline>'' (\<lambda>fd a. wc file_sys fd a) as w"
  by (induction as arbitrary: w) (auto split: prod.splits sum.splits option.splits simp: Option.bind_def)

text \<open>
  C26: wc with names of files prints for each the number of its lines, of its words and of its bytes, whatever the pieces in which the reads return them.
\<close>

theorem wc_counts:
  assumes "room w" "as \<noteq> []" "\<forall>a\<in>set as. files w (cstring a) \<noteq> None"
  shows "\<exists>w'. wc_main file_sys (name # as) w = Some w' \<and> written w' = (written w)(1 := written w 1 @ file_outs wc_line as w) \<and>
    files w' = files w \<and> fds w' = fds w"
  using each_file_ok [of "\<lambda>fd a. wc file_sys fd a" wc_line, OF wc_file assms(1,3), of "''wc: cannot open %s\<newline>''"] assms(2)
  unfolding wc_main_def by (auto simp: same_world_fields emit_def wc_files_each simp del: each_file.simps)

section \<open>echo\<close>

fun unwords :: "byte list list \<Rightarrow> byte list" where
  "unwords [] = []"
| "unwords [a] = cstring a @ [10]"
| "unwords (a # b # as) = cstring a @ [32] @ unwords (b # as)"

lemma printf_two: "printf ''%s%s'' [CStr a, CStr b] = Some (printf_arg_str a @ printf_arg_str b)"
  by (simp add: printf_def str_def)

lemma echo_loop_ok: "echo_loop file_sys as w = Some (emit 1 (unwords as) w)"
proof (induction as arbitrary: w rule: unwords.induct)
  case (2 a)
  then show ?case by (simp add: fprintf_def printf_two printf_arg_str_def str_def)
next
  case (3 a b as)
  have "cstring (str '' '') = [32]" by (simp add: str_def)
  then show ?case using 3 [of "emit 1 (cstring a @ [32]) w"] by (simp add: fprintf_def printf_two printf_arg_str_def del: echo_loop.simps) (simp add: fprintf_def printf_two printf_arg_str_def)
qed simp

text \<open>echo prints its arguments with blanks between them and a newline behind the last one.\<close>

theorem echo_prints: "echo_main file_sys (name # as) w = Some (emit 1 (unwords as) w)"
  by (simp add: echo_main_def echo_loop_ok)

section \<open>rm\<close>

text \<open>rm removes its arguments in order and stops at the first one that does not exist.\<close>

lemma rm_loop_ok:
  "rm_loop file_sys as w =
     (case as of [] \<Rightarrow> Some w | a # as' \<Rightarrow>
      if files w (cstring a) = None then Some (emit 2 (str ''rm: '' @ cstring a @ str '' failed to delete\<newline>'') w)
      else rm_loop file_sys as' (w\<lparr>files := (files w)(cstring a := None)\<rparr>))"
  by (cases as) (simp_all add: file_sys_def f_unlink_def, simp add: file_sys_def [symmetric] fprintf_def printf_def str_def printf_arg_str_def)

theorem rm_removes:
  assumes "as \<noteq> []" "distinct (map cstring as)" "\<forall>a\<in>set as. files w (cstring a) \<noteq> None"
  shows "rm_main file_sys (name # as) w = Some (w\<lparr>files := (\<lambda>p. if p \<in> cstring ` set as then None else files w p)\<rparr>)"
proof -
  have "rm_loop file_sys as w = Some (w\<lparr>files := (\<lambda>p. if p \<in> cstring ` set as then None else files w p)\<rparr>)"
    using assms(2,3)
  proof (induction as arbitrary: w)
    case (Cons a as)
    let ?w = "w\<lparr>files := (files w)(cstring a := None)\<rparr>"
    have "rm_loop file_sys as ?w = Some (?w\<lparr>files := (\<lambda>p. if p \<in> cstring ` set as then None else files ?w p)\<rparr>)"
      using Cons.prems by (intro Cons.IH) (simp_all, metis imageI)
    moreover have "(\<lambda>p. if p \<in> cstring ` set as then None else files ?w p) = (\<lambda>p. if p \<in> cstring ` set (a # as) then None else files w p)" by auto
    ultimately show ?case using Cons.prems by (subst rm_loop_ok) auto
  qed simp
  then show ?thesis using assms(1) by (simp add: rm_main_def)
qed

section \<open>ls\<close>

text \<open>fmtname returns what follows the last slash, with blanks up to the length of a name.\<close>

lemma fmtname_scan_spec:
  "n \<le> length s \<Longrightarrow> drop (fmtname_scan s n) (take n s) = rev (takeWhile (\<lambda>c. c \<noteq> 47) (rev (take n s))) \<and> fmtname_scan s n \<le> n"
proof (induction n)
  case (Suc n)
  have t: "take (Suc n) s = take n s @ [s ! n]" using Suc.prems by (simp add: take_Suc_conv_app_nth)
  show ?case using Suc unfolding t by (auto simp: t le_SucI)
qed simp

lemma fmtname_spec:
  "fmtname path = (let n = rev (takeWhile (\<lambda>c. c \<noteq> 47) (rev (cstring path))) in n @ replicate (DIRSIZ - length n) 32)"
proof -
  have "drop (fmtname_scan (cstring path) (length (cstring path))) (cstring path) = rev (takeWhile (\<lambda>c. c \<noteq> 47) (rev (cstring path)))"
    using fmtname_scan_spec [of "length (cstring path)" "cstring path"] by simp
  then show ?thesis unfolding fmtname_def Let_def by simp
qed

lemma cstring_idem [simp]: "cstring (cstring s) = cstring s"
  by (induction s) auto

definition stat_line :: "byte list \<Rightarrow> stat \<Rightarrow> byte list" where
  "stat_line path st = cstring (fmtname path) @ [32] @ printint_u (scast (st_type st)) 10 True @ [32] @ printint_u (st_ino st) 10 True @ [32] @
     printint_u (st_size st) 10 True @ [10]"

lemma ls_line_file: "ls_line file_sys path st w = Some (emit 1 (stat_line path st) w)"
  by (simp add: ls_line_def fprintf_def printf_def str_def stat_line_def printf_arg_str_def)

text \<open>The line for an entry of a directory.\<close>

definition entry_line :: "fworld \<Rightarrow> byte list \<Rightarrow> byte list \<Rightarrow> byte list" where
  "entry_line w path de = (let p = cstring (path @ [47] @ drop 2 de) in
     case files w p of None \<Rightarrow> str ''ls: cannot stat '' @ p @ [10] | Some (st, bs) \<Rightarrow> stat_line p st)"

lemma stat_file:
  assumes "room w"
  shows "stat_u (open_sys file_sys) (fstat_sys file_sys) (close_sys file_sys) p st w =
    (case files w (cstring p) of None \<Rightarrow> ((- 1, st), w) | Some (st', bs) \<Rightarrow> ((0, st'), w))"
proof (cases "files w (cstring p)")
  case None
  then show ?thesis by (simp add: stat_u_def file_sys_def f_open_def)
next
  case (Some f)
  obtain st' bs where f: "f = (st', bs)" by (cases f)
  obtain fd where fd: "open_sys file_sys p 0 w = (fd, w\<lparr>fds := (fds w)(fd := Some f)\<rparr>)" "0 \<le> fd" "fds w fd = None"
    using open_file [OF assms Some] by blast
  have "f_close fd (w\<lparr>fds := (fds w)(fd := Some f)\<rparr>) = w" using fd(3) by (cases w) (auto simp: f_close_def)
  then show ?thesis using fd Some f by (simp add: stat_u_def) (simp add: file_sys_def f_fstat_def)
qed

lemma room_open: "room w \<Longrightarrow> fds w fd \<noteq> None \<Longrightarrow> room (w\<lparr>fds := (fds w)(fd := Some f), rcount := n\<rparr>)"
proof -
  assume "room w" "fds w fd \<noteq> None"
  then obtain k where "k < 16" "fds w (int k) = None" "int k \<noteq> fd" unfolding room_def by metis
  then show ?thesis by (auto simp: room_def)
qed

lemma ls_dir_file:
  assumes "fds w fd = Some (st0, concat des)" "\<forall>de\<in>set des. length de = 16" "room w" "\<forall>i. 15 \<le> rsize w i"
  shows "\<exists>w'. ls_dir file_sys fd path st w = Some w' \<and>
    same_world (emit 1 (concat (map (entry_line w path) (filter (\<lambda>de. get16 de 0 \<noteq> 0) des))) (w\<lparr>fds := (fds w)(fd := Some (st0, []))\<rparr>)) w'"
  using assms
proof (induction des arbitrary: w st)
  case Nil
  then show ?case by (subst ls_dir.simps) (simp add: file_sys_def f_read_def Let_def, simp add: same_world_fields)
next
  case (Cons de des)
  define w1 where "w1 = w\<lparr>fds := (fds w)(fd := Some (st0, concat des)), rcount := Suc (rcount w)\<rparr>"
  have k: "min 15 (rsize w (rcount w)) = 15" using spec [OF Cons.prems(4), of "rcount w"] by linarith
  have len: "length de = 16" using Cons.prems(2) by simp
  have r: "f_read fd 16 w = (Some de, w1)" using Cons.prems(1) len by (simp add: f_read_def k w1_def Let_def)
  have room: "room w1" using Cons.prems(1,3) unfolding w1_def by (intro room_open) simp_all
  have "\<exists>st' w2. ls_dir file_sys fd path st w = ls_dir file_sys fd path st' w2 \<and> w2 = emit 1 (if get16 de 0 \<noteq> 0 then entry_line w path de else []) w1"
  proof (cases "get16 de 0 = 0")
    case True
    then show ?thesis by (subst ls_dir.simps) (simp add: file_sys_def r len, blast)
  next
    case False
    define p where "p = cstring (path @ 47 # drop 2 de)"
    have s: "stat_u (open_sys file_sys) (fstat_sys file_sys) (close_sys file_sys) p st w1 =
      (case files w p of None \<Rightarrow> ((- 1, st), w1) | Some (st', bs) \<Rightarrow> ((0, st'), w1))"
      using stat_file [OF room, of p st] by (simp add: w1_def p_def)
    have "read_sys file_sys fd 16 w = (Some de, w1)" by (simp add: file_sys_def r)
    then have "ls_dir file_sys fd path st w = (case stat_u (open_sys file_sys) (fstat_sys file_sys) (close_sys file_sys) p st w1 of ((r, st), w) \<Rightarrow>
       Option.bind (if r < 0 then fprintf file_sys 1 ''ls: cannot stat %s\<newline>'' [CStr (Some p)] w else ls_line file_sys p st w) (\<lambda>w. ls_dir file_sys fd path st w))"
      unfolding p_def using False len by (subst ls_dir.simps) (simp add: Let_def)
    moreover have "fprintf file_sys 1 ''ls: cannot stat %s\<newline>'' [CStr (Some p)] w1 = Some (emit 1 (str ''ls: cannot stat '' @ p @ [10]) w1)"
      by (simp add: fprintf_def printf_def str_def printf_arg_str_def p_def)
    moreover have "entry_line w path de = (case files w p of None \<Rightarrow> str ''ls: cannot stat '' @ p @ [10] | Some (st, bs) \<Rightarrow> stat_line p st)"
      unfolding p_def by (simp add: entry_line_def Let_def)
    ultimately show ?thesis using False s by (auto simp: ls_line_file split: option.splits)
  qed
  then obtain st' w2 where 2: "ls_dir file_sys fd path st w = ls_dir file_sys fd path st' w2" "w2 = emit 1 (if get16 de 0 \<noteq> 0 then entry_line w path de else []) w1" by blast
  have f2: "fds w2 = fds w1" "files w2 = files w" "rsize w2 = rsize w" using 2(2) by (simp_all add: w1_def)
  have e: "entry_line w2 = entry_line w" by (simp add: entry_line_def fun_eq_iff f2)
  have w2: "room w2" "fds w2 fd = Some (st0, concat des)" using room f2 by (simp_all add: room_def w1_def)
  obtain w' where "ls_dir file_sys fd path st' w2 = Some w'"
    "same_world (emit 1 (concat (map (entry_line w2 path) (filter (\<lambda>de. get16 de 0 \<noteq> 0) des))) (w2\<lparr>fds := (fds w2)(fd := Some (st0, []))\<rparr>)) w'"
    using Cons.IH [of w2 st'] Cons.prems(2,4) f2(3) w2 by (metis list.set_intros(2))
  then show ?case using 2(1) unfolding e by (auto simp: 2(2) same_world_fields emit_def w1_def)
qed

text \<open>
  ls of a directory prints one line for each entry that is in use, in the order of the directory: the name behind the last slash padded to the length of a name,
  and the type, the inode number and the size of that file, or that it has none; it prints nothing else and leaves no descriptor open.
\<close>

theorem ls_lists:
  assumes "files w (cstring path) = Some (st, concat des)" "st_type st = 1" "\<forall>de\<in>set des. length de = 16" "length (cstring path) \<le> 496"
    "a \<noteq> b" "a < 16" "b < 16" "fds w (int a) = None" "fds w (int b) = None" "\<forall>i. 15 \<le> rsize w i"
  shows "\<exists>w'. ls_main file_sys [name, path] w = Some w' \<and>
    written w' = (written w)(1 := written w 1 @ concat (map (entry_line w (cstring path)) (filter (\<lambda>de. get16 de 0 \<noteq> 0) des))) \<and> files w' = files w \<and> fds w' = fds w"
proof -
  have "room w" using assms(6,8) by (auto simp: room_def)
  then obtain fd where fd: "open_sys file_sys path 0 w = (fd, w\<lparr>fds := (fds w)(fd := Some (st, concat des))\<rparr>)" "0 \<le> fd" "fds w fd = None"
    using open_file [OF _ assms(1)] by blast
  let ?w = "w\<lparr>fds := (fds w)(fd := Some (st, concat des))\<rparr>"
  have "room ?w" using assms(5-9) by (cases "fd = int a") (auto simp: room_def)
  then obtain w' where w': "ls_dir file_sys fd (cstring path) st ?w = Some w'"
    "same_world (emit 1 (concat (map (entry_line ?w (cstring path)) (filter (\<lambda>de. get16 de 0 \<noteq> 0) des))) (?w\<lparr>fds := (fds ?w)(fd := Some (st, []))\<rparr>)) w'"
    using ls_dir_file [of ?w fd st des "cstring path" st] assms(3,10) by auto
  have "ls file_sys path w = Some (f_close fd w')"
    using fd(1,2) w'(1) assms(2,4) by (simp add: ls_def) (simp add: file_sys_def f_fstat_def)
  moreover have "entry_line ?w = entry_line w" by (simp add: entry_line_def fun_eq_iff)
  ultimately show ?thesis using w'(2) fd(3) by (auto simp: ls_main_def same_world_fields emit_def f_close_def)
qed

section \<open>Examples\<close>

definition ex_world :: fworld where
  "ex_world = \<lparr>files = [[97] \<mapsto> (\<lparr>st_type = 2, st_dev = 1, st_ino = 7, st_nlink = 1, st_size = 7\<rparr>, [104, 105, 32, 121, 111, 117, 10]),
       [46] \<mapsto> (\<lparr>st_type = 1, st_dev = 1, st_ino = 1, st_nlink = 1, st_size = 32\<rparr>, concat [[7, 0, 97] @ replicate 13 0, [0, 0, 98] @ replicate 13 0])],
     fds = Map.empty, written = \<lambda>_. [], rsize = \<lambda>i. 15, rcount = 0\<rparr>"

theorem wc_counts_witness:
  "\<exists>w'. wc_main file_sys [[119, 99], [97]] ex_world = Some w' \<and> written w' 1 = [49, 32, 50, 32, 55, 32, 97, 10]"
proof -
  have "room ex_world" by (auto simp: room_def ex_world_def intro: exI [of _ 0])
  then obtain w' where w: "wc_main file_sys [[119, 99], [97]] ex_world = Some w'" "written w' = (written ex_world)(1 := written ex_world 1 @ file_outs wc_line [[97]] ex_world)"
    using wc_counts [of ex_world "[[97]]" "[119, 99]"] by (auto simp: ex_world_def)
  have "file_outs wc_line [[97]] ex_world = [49, 32, 50, 32, 55, 32, 97, 10]"
    by code_simp
  then show ?thesis using w by (simp add: ex_world_def)
qed

theorem ls_lists_witness:
  "\<exists>w'. ls_main file_sys [[108, 115], [46]] ex_world = Some w' \<and>
    written w' 1 = entry_line ex_world [46] ([7, 0, 97] @ replicate 13 0) \<and> fds w' = Map.empty"
proof -
  let ?d = "[7, 0, 97] @ replicate 13 (0 :: byte)" and ?e = "[0, 0, 98] @ replicate 13 (0 :: byte)"
  let ?st = "\<lparr>st_type = 1, st_dev = 1, st_ino = 1, st_nlink = 1, st_size = 32\<rparr>"
  have "files ex_world (cstring [46]) = Some (?st, concat [?d, ?e])" by (simp add: ex_world_def)
  then obtain w' where w: "ls_main file_sys [[108, 115], [46]] ex_world = Some w'"
    "written w' = (written ex_world)(1 := written ex_world 1 @ concat (map (entry_line ex_world (cstring [46])) (filter (\<lambda>de. get16 de 0 \<noteq> 0) [?d, ?e])))" "fds w' = fds ex_world"
    using ls_lists [of ex_world "[46]" ?st "[?d, ?e]" 3 4 "[108, 115]"] by (auto simp: ex_world_def)
  have "filter (\<lambda>de. get16 de 0 \<noteq> 0) [?d, ?e] = [?d]" by code_simp
  then show ?thesis using w by (simp add: ex_world_def)
qed

end
