(* ===== verification/Spec2Isabelle.thy ===== *)
theory Spec2Isabelle
  imports Kvm Pipe Mmap_Spec Crash Typed Grep Spinlock Umalloc Mkfs Sh Boot Mp Start Apic Programs
begin

text \<open>
  A verification of the xv6 system of this repository (\<open>src/xv6-public\<close>) with its memory mapping
  extension: the kernel, its start, its devices, the builder of its disk image and its user programs.

  \<^bold>\<open>The model of the kernel.\<close> The kernel's global variables are one record \<open>kernel\<close> (theory Kernel):
  physical memory as bytes, the page allocator's list, the process table, the file table, the inode
  and buffer caches, the log, the disk, the pipes, the console and the locks held.  A kernel routine
  is a function of that state whose outcome is a result and a new state (\<open>Ok\<close>), a call of panic
  (\<open>Panic\<close>), an operation undefined in C such as a NULL dereference, an index out of range or
  a signed overflow (\<open>Fault\<close>), or a switch to the scheduler (\<open>Sched\<close>).  Routines are composed by
  \<open>bindM\<close> and \<open>seqM\<close> in the order of the C statements.  This model runs one CPU; a spin lock is an
  element of the list of locks held, and acquiring a held lock is the panic of spinlock.c.  C's \<open>uint\<close>
  is a 32-bit word, \<open>short\<close> a 16-bit word, \<open>int\<close> an integer with its range checked where the code can
  leave it.  Pages, page tables and user memory are byte memory; pointers into static arrays are
  indices, NULL is \<open>None\<close> or the address 0.

  \<^bold>\<open>The other models.\<close> What runs beside that record has a state of its own: several CPUs on the words
  of a lock (Spinlock), the IDE driver with its drive, its interrupts and its sleeping callers (Ide),
  the boot loader and the multiprocessor tables on raw memory (Boot, Mp), the interrupt controllers
  and the clock (Apic), the image file of mkfs (Mkfs), and the user programs, whose system calls are
  arguments (Ulib, Umalloc, Grep, Programs) or nodes of a tree that is run on descriptor tables (Sh).

  \<^bold>\<open>Theories and sources.\<close>
  \<^item> Prelude: machine words, byte memory, lists.  Kernel: constants, structs, state, outcomes.
  \<^item> CString: string.c.  Kalloc, Pages: kalloc.c, mmu.h.  Vm, Vm_Map, Vm_User, Kvm: vm.c.
  \<^item> Sched: locks, sleep, wakeup and sched (spinlock.c, sleeplock.c, proc.c).  Proc: the process
    life cycle and the scheduler loop (proc.c).  Spinlock: spinlock.c between CPUs.
  \<^item> Cons, Console, Kbd: console.c, uart.c, kbd.c.
  \<^item> Bio, Log, Inode, Fs: bio.c with memide.c, log.c, fs.c.  Ide: ide.c.  File: file.c and pipe.c.
    Exec: exec.c.
  \<^item> Umem, Sysfile, Mmap, Trap: user memory and arguments (syscall.c), sysfile.c and sysproc.c, the
    memory mappings (sysfile.c, proc.c, trap.c), and trap.c with the system call table.
  \<^item> Boot: bootmain.c.  Mp: mp.c.  Apic: lapic.c, ioapic.c, picirq.c.  Start: main.c.
  \<^item> Ulib: ulib.c, printf.c.  Umalloc: umalloc.c.  Sh: sh.c.  Grep: grep.c.  Programs: cat.c, wc.c,
    echo.c, kill.c, ln.c, mkdir.c, rm.c, ls.c.  Mkfs: mkfs.c.
  \<^item> Specifications and proofs over these: Ring and Pipe (pipes), Args (system call arguments), Locks
    and Typed (invariants of the whole kernel), Cache, Crash and Content (the file system's blocks),
    Mmap_Spec (the memory mappings).

  \<^bold>\<open>What is shown.\<close>
  \<^item> Whole kernel: every trap that returns leaves the held locks as it found them, and gives up the CPU
    only with the process table lock held (Locks); every trap keeps the state well typed (Typed).
    Both have one rule for each routine of the kernel.
  \<^item> Start: the boot loader loads the segments of the kernel, mpinit finds the processors, and main
    ends with the kernel's page table equal to kmap and the first process runnable (Boot, Mp, Start).
  \<^item> Memory: the allocator is a set of pages (locale \<open>page_allocator\<close>, interpreted by kalloc and kfree);
    page tables refine an abstract map from pages to entries, under which mappages, allocuvm,
    deallocuvm and setupkvm are exact, and memory is never lost.
  \<^item> Storage: the block cache shows one contents of the disk (locale \<open>block_cache\<close>, interpreted by bread,
    bwrite and brelse); a commit is atomic under a crash after any of its writes; readi and writei
    read and write exactly the bytes of the file; the image that mkfs writes holds the files it was
    given; the IDE driver does what the memory disk does, in every interleaving, and serves every
    request (Cache, Crash, Content, Mkfs, Ide).
  \<^item> Concurrency: of any number of CPUs at most one is between acquire and release (Spinlock); a pipe is
    a bounded queue (locale \<open>bounded_queue\<close>, interpreted by the ring buffer with its wrapping
    counters), and reads and writes are queue operations that block and wake (Pipe); reading the
    clock is atomic (Apic).
  \<^item> System calls: arguments are checked against the size of the process; sys_mmap places mappings as
    specified and fixed mappings never overlap; page faults map zeroed frames.  The defects of the
    extension are stated and proved as theorems as well.
  \<^item> User programs: the shell's parser is the grammar of its command lines, and a line runs the programs
    of its tree with the wiring that it describes; malloc and free keep a free list of disjoint blocks;
    the matcher of grep is the language of its pattern; cat, wc, ls, echo and rm do what their
    names say on files.
  \<^item> cprintf and printint are total, and the string routines do what C prescribes.

  \<^bold>\<open>Fuel.\<close> Loops over pages run on the constant \<open>NPAGES = 2 ^ 20\<close>, the number of pages of the
  address space; the theorems on these loops show that it is never used up.  The shell's parser runs
  on one unit more than the length of the line, since every call that recurs has consumed a byte;
  its theorem shows that it always ends.  A loop that may not end is a \<open>partial_function\<close> whose result
  is then \<open>None\<close>, and the theorems on it show that it ends.  Waiting for a device is a loop over what
  the device will report.

  \<^bold>\<open>Not modelled.\<close> Assembly (the entry of the kernel, swtch, the trap entry), the segment and interrupt
  descriptor tables (seginit, tvinit, idtinit), and the registers that uartinit programs: the model has
  no state that they act on.  In Start the other processors are taken to start, and mpmain is left out.
  The main program of grep, init, and the programs that test the system (usertests, forktest,
  stressfs, zombie, mmap, munmap).  In the model of the whole kernel, a routine that sleeps ends with
  \<open>Sched\<close>: what other processes do meanwhile is shown for the IDE driver and the spin locks only.
\<close>

end
